(* ===== verification/Prelude.thy ===== *)
theory Prelude
  imports Main "HOL-Library.Word" "HOL-Library.Monad_Syntax" "HOL-Library.Multiset"
begin

section \<open>Prelude: machine types, rule collections and generic lemmas\<close>

text \<open>
  What every component of the development shares: the names of the machine types, the
  collections of rewrite rules the component proofs draw on, and small facts on option
  computations and lists that the library does not state in the form needed here.

  A computation that may go wrong (a dereferenced NULL or freed pointer, a trapping division,
  a loop that does not end) is an option value: \<open>None\<close> says that the C code has no defined
  result, \<open>Some r\<close> that it returns \<open>r\<close>. A theorem of the form \<open>f x = Some r\<close> therefore says
  at once that the code is memory safe, that it terminates and what it returns.
\<close>

type_synonym ptr = nat
type_synonym cint = "32 word"
type_synonym csize = "64 word"
type_synonym cushort = "16 word"
type_synonym cuchar = "8 word"

abbreviation NULL :: ptr where
  "NULL \<equiv> 0"

named_theorems heap_simps \<open>reads and writes of the C heap\<close>
named_theorems ring_rules \<open>shape of rings and paths after an update\<close>

subsection \<open>Option computations\<close>

lemma bind_eq_SomeD: "Option.bind m f = Some r \<Longrightarrow> \<exists>x. m = Some x \<and> f x = Some r"
  by (cases m) auto

lemma map_Some_eq_iff: "map Some xs = map Some ys \<longleftrightarrow> xs = ys"
  by (simp add: inj_map_eq_map)

subsection \<open>Lists\<close>

lemma last_Cons_rev: "last (x # rev xs) = hd (xs @ [x])"
  by (cases xs) auto

lemma hd_rev_snoc: "hd (rev xs @ [x]) = last (x # xs)"
  by (induction xs rule: rev_induct) auto

lemma last_Cons_in: "last (x # xs) \<in> insert x (set xs)"
  using last_in_set[of "x # xs"] by simp

lemma hd_snoc_in: "hd (xs @ [x]) \<in> insert x (set xs)"
  by (cases xs) auto

lemma in_set_split: "x \<in> set xs \<Longrightarrow> \<exists>ys zs. xs = ys @ x # zs \<and> x \<notin> set ys"
  by (metis split_list_first)

text \<open>The increment of a non-negative \<open>int\<close> index: an overflow is undefined.\<close>

definition inc :: "nat \<Rightarrow> nat option" where
  "inc i = (if i < 2 ^ 31 - 1 then Some (Suc i) else None)"

lemma index_less:
  assumes "unat n < 2 ^ 31" and "i \<le> unat n"
  shows "(of_nat i :: csize) < n \<longleftrightarrow> i < unat n" and "i < unat n \<Longrightarrow> inc i = Some (Suc i)"
  using assms by (auto simp: word_less_nat_alt unat_of_nat inc_def)

end
