(* ===== verification/CHeap.thy ===== *)
theory CHeap
  imports Prelude
begin

section \<open>The C heap: cells of one struct type, malloc and free\<close>

text \<open>
  One heap per struct type of the source. \<open>mem\<close> maps the address of every live object to its
  contents; \<open>avail\<close> is the sequence of answers the C library's \<open>malloc\<close> is going to give
  (0, an address already in use, or an exhausted avail stand for a failing call), and \<open>junk\<close>
  is the indeterminate contents of a freshly allocated object. Both are components of the state
  that no code reads, so a theorem for every heap holds for every behaviour of the allocator.

  A read or a write through NULL or through an address that is not live is \<open>None\<close>, as is
  freeing such an address.
\<close>

record 'n heap =
  mem :: "ptr \<Rightarrow> 'n option"
  avail :: "ptr list"
  junk :: 'n

definition fld :: "'n heap \<Rightarrow> ('n \<Rightarrow> 'f) \<Rightarrow> ptr \<Rightarrow> 'f option" where
  "fld h f p = map_option f (mem h p)"

definition rd :: "'n heap \<Rightarrow> ('n \<Rightarrow> 'f) \<Rightarrow> ptr \<Rightarrow> 'f option" where
  "rd h f p = (if p = NULL then None else fld h f p)"

definition wr :: "'n heap \<Rightarrow> ptr \<Rightarrow> ('n \<Rightarrow> 'n) \<Rightarrow> 'n heap option" where
  "wr h p g = (if p = NULL then None
     else case mem h p of
       None \<Rightarrow> None
     | Some n \<Rightarrow> Some (h\<lparr>mem := (mem h)(p := Some (g n))\<rparr>))"

definition malloc :: "'n heap \<Rightarrow> ptr \<times> 'n heap" where
  "malloc h = (case avail h of
       [] \<Rightarrow> (NULL, h)
     | p # ps \<Rightarrow>
         if p = NULL \<or> mem h p \<noteq> None then (NULL, h\<lparr>avail := ps\<rparr>)
         else (p, h\<lparr>mem := (mem h)(p := Some (junk h)), avail := ps\<rparr>))"

definition free :: "'n heap \<Rightarrow> ptr \<Rightarrow> 'n heap option" where
  "free h p = (if p = NULL then Some h
     else case mem h p of
       None \<Rightarrow> None
     | Some n \<Rightarrow> Some (h\<lparr>mem := (mem h)(p := None)\<rparr>))"

text \<open>
  \<open>fresh_avail h\<close>: the pending answers of \<open>malloc\<close> are distinct, non-null and not in use, so
  that exactly \<open>length (avail h)\<close> further allocations succeed.
\<close>

definition fresh_avail :: "'n heap \<Rightarrow> bool" where
  "fresh_avail h \<longleftrightarrow> distinct (avail h) \<and> NULL \<notin> set (avail h)
     \<and> (\<forall>p \<in> set (avail h). mem h p = None)"

text \<open>\<open>same_out A h h'\<close>: outside the addresses \<open>A\<close> the two heaps hold the same objects.\<close>

definition same_out :: "ptr set \<Rightarrow> 'n heap \<Rightarrow> 'n heap \<Rightarrow> bool" where
  "same_out A h h' \<longleftrightarrow> (\<forall>q. q \<notin> A \<longrightarrow> mem h' q = mem h q)"

lemma same_outD: "same_out A h h' \<Longrightarrow> q \<notin> A \<Longrightarrow> mem h' q = mem h q"
  by (simp add: same_out_def)

lemma same_out_trans: "same_out A h h1 \<Longrightarrow> same_out B h1 h2 \<Longrightarrow> same_out (A \<union> B) h h2"
  by (simp add: same_out_def)

lemma same_out_mono: "same_out A h h' \<Longrightarrow> A \<subseteq> B \<Longrightarrow> same_out B h h'"
  by (auto simp: same_out_def)

subsection \<open>Reads and writes\<close>

lemma fld_Some_iff: "fld h f p = Some v \<longleftrightarrow> (\<exists>n. mem h p = Some n \<and> f n = v)"
  by (auto simp: fld_def)

lemma rd_Some_iff: "rd h f p = Some v \<longleftrightarrow> p \<noteq> NULL \<and> fld h f p = Some v"
  by (auto simp: rd_def)

lemma rd_fld [heap_simps]: "p \<noteq> NULL \<Longrightarrow> rd h f p = fld h f p"
  by (simp add: rd_def)

lemma rd_NULL [simp]: "rd h f NULL = None"
  by (simp add: rd_def)

lemma wr_NULL [simp]: "wr h NULL g = None"
  by (simp add: wr_def)

lemma wr_live [heap_simps]:
  "p \<noteq> NULL \<Longrightarrow> mem h p = Some n \<Longrightarrow> wr h p g = Some (h\<lparr>mem := (mem h)(p := Some (g n))\<rparr>)"
  by (simp add: wr_def)

lemma wr_Some_iff:
  "wr h p g = Some h' \<longleftrightarrow>
     p \<noteq> NULL \<and> (\<exists>n. mem h p = Some n \<and> h' = h\<lparr>mem := (mem h)(p := Some (g n))\<rparr>)"
  by (auto simp: wr_def split: option.splits)

lemma wr_junk: "wr h p g = Some h' \<Longrightarrow> junk h' = junk h"
  by (auto simp: wr_Some_iff)

lemma fld_upd [heap_simps]:
  "fld (h\<lparr>mem := (mem h)(p := Some n)\<rparr>) f q = (if q = p then Some (f n) else fld h f q)"
  by (simp add: fld_def)

lemma fld_free: "fld (h\<lparr>mem := (mem h)(p := None)\<rparr>) f = (fld h f)(p := None)"
  by (auto simp: fld_def fun_eq_iff)

lemma free_live [heap_simps]:
  "p \<noteq> NULL \<Longrightarrow> mem h p = Some n \<Longrightarrow> free h p = Some (h\<lparr>mem := (mem h)(p := None)\<rparr>)"
  by (simp add: free_def)

text \<open>The same facts through a field that is known to be live.\<close>

lemma fld_live: "fld h f p = Some v \<Longrightarrow> \<exists>n. mem h p = Some n \<and> f n = v"
  by (simp add: fld_Some_iff)

subsection \<open>Allocation\<close>

lemma malloc_fresh:
  assumes "fresh_avail h" and "avail h = p # ps"
  shows "malloc h = (p, h\<lparr>mem := (mem h)(p := Some (junk h)), avail := ps\<rparr>)"
    and "p \<noteq> NULL" and "mem h p = None"
  using assms by (auto simp: malloc_def fresh_avail_def)

lemma malloc_NULL_mem: "malloc h = (NULL, h') \<Longrightarrow> mem h' = mem h"
  by (auto simp: malloc_def split: list.splits if_splits)

lemma malloc_Some:
  assumes "malloc h = (p, h')" and "p \<noteq> NULL"
  shows "mem h p = None" and "mem h' = (mem h)(p := Some (junk h))" and "junk h' = junk h"
  using assms by (auto simp: malloc_def split: list.splits if_splits)

lemma fresh_avail_Cons:
  assumes "fresh_avail h" and "avail h = p # ps"
    and "avail h' = ps" and "\<And>q. q \<noteq> p \<Longrightarrow> mem h q = None \<Longrightarrow> mem h' q = None"
  shows "fresh_avail h'"
  using assms unfolding fresh_avail_def by (metis distinct.simps(2) list.set_intros(2))

lemma fresh_avail_malloc:
  assumes "fresh_avail h" and "avail h = p # ps"
    and "same_out A h h'" and "\<And>q. q \<in> A \<Longrightarrow> q = p \<or> mem h q \<noteq> None" and "avail h' = ps"
  shows "fresh_avail h'"
proof (rule fresh_avail_Cons[OF assms(1,2,5)])
  show "mem h' q = None" if "q \<noteq> p" and "mem h q = None" for q
    using that assms(4)[of q] same_outD[OF assms(3), of q] by auto
qed

lemma fresh_avail_mono:
  assumes "fresh_avail h" and "avail h' = avail h"
    and "\<And>q. mem h q = None \<Longrightarrow> mem h' q = None"
  shows "fresh_avail h'"
  using assms by (auto simp: fresh_avail_def)

subsection \<open>Symbolic execution of field updates\<close>

text \<open>
  \<open>live h p\<close>: \<open>p\<close> may be dereferenced. On live addresses \<open>rd\<close> and \<open>wr\<close> are the total functions
  \<open>fld\<close> and \<open>upd\<close>, and the field maps after an update are function updates; with the rules of
  \<open>heap_simps\<close> the simplifier runs straight-line pointer code.
\<close>

definition live :: "'n heap \<Rightarrow> ptr \<Rightarrow> bool" where
  "live h p \<longleftrightarrow> p \<noteq> NULL \<and> mem h p \<noteq> None"

definition upd :: "'n heap \<Rightarrow> ptr \<Rightarrow> ('n \<Rightarrow> 'n) \<Rightarrow> 'n heap" where
  "upd h p g = h\<lparr>mem := (mem h)(p := map_option g (mem h p))\<rparr>"

lemma liveI: "fld h f p = Some v \<Longrightarrow> p \<noteq> NULL \<Longrightarrow> live h p"
  by (auto simp: live_def fld_def)

lemma live_nonnull: "live h p \<Longrightarrow> p \<noteq> NULL"
  by (simp add: live_def)

lemma not_live_NULL [simp]: "\<not> live h NULL"
  by (simp add: live_def)

lemma live_fld: "live h p \<Longrightarrow> \<exists>v. fld h f p = Some v"
  by (auto simp: live_def fld_def)

lemma live_rd [heap_simps]: "live h p \<Longrightarrow> rd h f p = fld h f p"
  by (simp add: live_def rd_def)

lemma dead_rd [heap_simps]: "\<not> live h p \<Longrightarrow> rd h f p = None"
  by (auto simp: live_def rd_def fld_def)

lemma live_wr [heap_simps]: "live h p \<Longrightarrow> wr h p g = Some (upd h p g)"
  by (auto simp: live_def wr_def upd_def)

lemma dead_wr [heap_simps]: "\<not> live h p \<Longrightarrow> wr h p g = None"
  by (auto simp: live_def wr_def split: option.splits)

lemma live_free: "live h p \<Longrightarrow> free h p = Some (h\<lparr>mem := (mem h)(p := None)\<rparr>)"
  by (auto simp: live_def free_def)

lemma live_upd [heap_simps]: "live (upd h p g) q = live h q"
  by (simp add: live_def upd_def)

lemma live_dealloc [heap_simps]: "live (h\<lparr>mem := (mem h)(p := None)\<rparr>) q = (q \<noteq> p \<and> live h q)"
  by (simp add: live_def)

lemma avail_upd [heap_simps]: "avail (upd h p g) = avail h"
  by (simp add: upd_def)

lemma junk_upd [heap_simps]: "junk (upd h p g) = junk h"
  by (simp add: upd_def)

lemma mem_upd: "mem (upd h p g) q = (if q = p then map_option g (mem h p) else mem h q)"
  by (simp add: upd_def)

lemma mem_upd_None [heap_simps]: "mem (upd h p g) q = None \<longleftrightarrow> mem h q = None"
  by (simp add: upd_def)

lemma fld_upd_set [heap_simps]:
  "live h p \<Longrightarrow> (\<And>n. f (g n) = v) \<Longrightarrow> fld (upd h p g) f = (fld h f)(p := Some v)"
  by (auto simp: live_def upd_def fld_def fun_eq_iff)

lemma fld_upd_other [heap_simps]: "(\<And>n. f (g n) = f n) \<Longrightarrow> fld (upd h p g) f = fld h f"
  by (auto simp: upd_def fld_def fun_eq_iff option.map_comp comp_def)

lemma same_out_refl [simp]: "same_out A h h"
  by (simp add: same_out_def)

lemma same_out_upd [heap_simps]: "p \<in> A \<Longrightarrow> same_out A h (upd h' p g) = same_out A h h'"
  by (auto simp: same_out_def mem_upd)

lemma malloc_live:
  assumes "malloc h = (p, h1)" and "p \<noteq> NULL"
  shows "live h1 p" and "\<not> live h p" and "\<And>q. live h q \<Longrightarrow> live h1 q"
    and "\<And>f. fld h1 f = (fld h f)(p := Some (f (junk h)))" and "same_out {p} h h1"
  using assms malloc_Some[OF assms] by (auto simp: live_def fld_def same_out_def fun_eq_iff)

text \<open>The freshness of the pending allocations only depends on which objects are in use.\<close>

lemma fresh_avail_mem_None:
  "fresh_avail h \<Longrightarrow> avail h' = avail h \<Longrightarrow> (\<And>q. mem h q = None \<Longrightarrow> mem h' q = None) \<Longrightarrow> fresh_avail h'"
  by (rule fresh_avail_mono)

lemma fresh_avail_upd [heap_simps]: "fresh_avail (upd h p g) = fresh_avail h"
  by (simp add: fresh_avail_def avail_upd mem_upd_None)

lemma fresh_avail_dealloc:
  "fresh_avail h \<Longrightarrow> fresh_avail (h\<lparr>mem := (mem h)(p := None)\<rparr>)"
  by (rule fresh_avail_mono) auto

lemma fresh_avail_step: "fresh_avail h \<Longrightarrow> malloc h = (p, h1) \<Longrightarrow> fresh_avail h1"
  by (auto simp: malloc_def fresh_avail_def split: list.splits if_splits)

lemma malloc_avail:
  assumes "fresh_avail h" and "malloc h = (p, h1)"
  shows "p = NULL \<longleftrightarrow> avail h = []" and "p \<noteq> NULL \<Longrightarrow> length (avail h) = Suc (length (avail h1))"
    and "p = NULL \<Longrightarrow> h1 = h"
  using assms by (auto simp: malloc_def fresh_avail_def split: list.splits if_splits)

end
