(* ===== verification/Links.thy ===== *)
theory Links
  imports CHeap
begin

section \<open>Paths, null-terminated lists and rings over a link map\<close>

text \<open>
  The pointer structures of the source are described through their link maps alone: \<open>N p = Some q\<close>
  when the object at \<open>p\<close> is live and its link field holds \<open>q\<close>. \<open>npath N p xs q\<close> walks from \<open>p\<close>
  through the nodes \<open>xs\<close> and arrives at \<open>q\<close>; a list that ends in NULL, a ring through a head
  node, and a doubly linked ring (a ring of \<open>next\<close> links and the reversed ring of \<open>prev\<close> links)
  are all built from it, so one set of update lemmas serves every list of the program.
\<close>

fun npath :: "(ptr \<Rightarrow> ptr option) \<Rightarrow> ptr \<Rightarrow> ptr list \<Rightarrow> ptr \<Rightarrow> bool" where
  "npath N p [] q = (p = q)"
| "npath N p (x # xs) q =
     (p = x \<and> x \<noteq> NULL \<and> (case N x of None \<Rightarrow> False | Some y \<Rightarrow> npath N y xs q))"

definition sring :: "(ptr \<Rightarrow> ptr option) \<Rightarrow> ptr \<Rightarrow> ptr list \<Rightarrow> bool" where
  "sring N a xs \<longleftrightarrow> distinct (a # xs) \<and> npath N a (a # xs) a"

definition dring :: "(ptr \<Rightarrow> ptr option) \<Rightarrow> (ptr \<Rightarrow> ptr option) \<Rightarrow> ptr \<Rightarrow> ptr list \<Rightarrow> bool" where
  "dring N P a xs \<longleftrightarrow> sring N a xs \<and> sring P a (rev xs)"

subsection \<open>Paths\<close>

lemma npath_append:
  "npath N p (xs @ ys) q \<longleftrightarrow> (\<exists>r. npath N p xs r \<and> npath N r ys q)"
  by (induction xs arbitrary: p) (auto split: option.splits)

lemma npath_frame: "(\<And>x. x \<in> set xs \<Longrightarrow> N' x = N x) \<Longrightarrow> npath N' p xs q = npath N p xs q"
  by (induction xs arbitrary: p) (auto split: option.splits)

lemma npath_upd [simp]: "a \<notin> set xs \<Longrightarrow> npath (N(a := v)) p xs q = npath N p xs q"
  by (rule npath_frame) auto

lemma npath_nonnull: "npath N p xs q \<Longrightarrow> NULL \<notin> set xs"
  by (induction xs arbitrary: p) (auto split: option.splits)

lemma npath_live: "npath N p xs q \<Longrightarrow> x \<in> set xs \<Longrightarrow> \<exists>y. N x = Some y"
  by (induction xs arbitrary: p) (auto split: option.splits)

lemma npath_start: "npath N p xs q \<Longrightarrow> p = hd (xs @ [q])"
  by (cases xs) auto

lemma npath_snoc:
  "npath N p (xs @ [a]) q \<longleftrightarrow> npath N p xs a \<and> a \<noteq> NULL \<and> N a = Some q"
  by (auto simp: npath_append split: option.splits)

lemma npath_redirect:
  assumes "npath N p (xs @ [a]) q" and "a \<notin> set xs"
  shows "npath (N(a := Some r)) p (xs @ [a]) r"
  using assms by (simp add: npath_snoc)

lemma npath_next:
  assumes "npath N p (xs @ a # ys) q"
  shows "N a = Some (hd (ys @ [q]))"
  using assms by (auto simp: npath_append npath_start[of N _ ys q] split: option.splits)

lemma npath_tail:
  assumes "npath N p (xs @ ys) q"
  shows "npath N (hd (ys @ [q])) ys q"
  using assms by (auto simp: npath_append dest: npath_start)

text \<open>A path that ends in NULL never visits a node twice.\<close>

lemma npath_NULL_unique: "npath N p xs NULL \<Longrightarrow> npath N p ys NULL \<Longrightarrow> xs = ys"
proof (induction xs arbitrary: p ys)
  case Nil
  then show ?case by (cases ys) auto
next
  case (Cons x xs)
  then show ?case by (cases ys) (auto split: option.splits)
qed

lemma npath_NULL_distinct: "npath N p xs NULL \<Longrightarrow> distinct xs"
proof (induction xs arbitrary: p)
  case Nil
  show ?case by simp
next
  case (Cons x xs)
  then obtain y where y: "N x = Some y" "npath N y xs NULL" "x \<noteq> NULL"
    by (auto split: option.splits)
  have "x \<notin> set xs"
  proof
    assume "x \<in> set xs"
    then obtain us vs where xs: "xs = us @ x # vs" by (meson split_list)
    with y(1,2) have "npath N y vs NULL" by (auto simp: npath_append split: option.splits)
    with y(2) have "vs = xs" by (rule npath_NULL_unique[symmetric])
    with xs show False by simp
  qed
  with Cons.IH[OF y(2)] show ?case by simp
qed

declare npath.simps(2) [simp del]

subsection \<open>Rings\<close>

lemma sring_distinct: "sring N a xs \<Longrightarrow> distinct (a # xs)"
  by (simp add: sring_def)

lemma sring_nonnull: "sring N a xs \<Longrightarrow> NULL \<notin> set (a # xs)"
  using npath_nonnull[of N a "a # xs" a] by (simp add: sring_def)

lemma sring_live: "sring N a xs \<Longrightarrow> x \<in> set (a # xs) \<Longrightarrow> \<exists>y. N x = Some y"
  unfolding sring_def by (meson npath_live)

lemma sring_frame: "(\<And>x. x \<in> set (a # xs) \<Longrightarrow> N' x = N x) \<Longrightarrow> sring N' a xs = sring N a xs"
  unfolding sring_def using npath_frame[of "a # xs" N' N] by simp

lemma sring_upd [simp]: "p \<noteq> a \<Longrightarrow> p \<notin> set xs \<Longrightarrow> sring (N(p := v)) a xs = sring N a xs"
  by (rule sring_frame) auto

lemma sring_next_head: "sring N a xs \<Longrightarrow> N a = Some (hd (xs @ [a]))"
  unfolding sring_def using npath_next[of N a "[]" a xs a] by simp

lemma sring_next: "sring N a (xs @ x # ys) \<Longrightarrow> N x = Some (hd (ys @ [a]))"
  unfolding sring_def using npath_next[of N a "a # xs" x ys a] by simp

lemma sring_Nil [simp]: "sring N a [] \<longleftrightarrow> a \<noteq> NULL \<and> N a = Some a"
  by (auto simp: sring_def npath.simps(2) split: option.splits)

lemma sring_next_last: "sring N a xs \<Longrightarrow> N (last (a # xs)) = Some a"
  by (cases xs rule: rev_cases) (auto dest: sring_next sring_next_head)

lemma sring_insert [ring_rules]:
  assumes "sring N a (xs @ ys)" and "n \<notin> set (a # xs @ ys)" and "n \<noteq> NULL"
  shows "sring (N(n := Some (hd (ys @ [a])), last (a # xs) := Some n)) a (xs @ n # ys)"
proof -
  let ?N = "N(n := Some (hd (ys @ [a])), last (a # xs) := Some n)"
  obtain us l where us: "a # xs = us @ [l]" by (metis list.distinct(1) rev_exhaust)
  have d: "distinct (us @ l # ys)" using assms(1) sring_distinct[of N a "xs @ ys"] us
    by (metis append.assoc append_Cons append_Nil)
  have "n \<notin> set ((us @ [l]) @ ys)" using assms(2) us by (metis append_Cons)
  then have nin: "n \<notin> set us" "n \<noteq> l" "n \<notin> set ys" by auto
  have p: "npath N a (us @ l # ys) a" using assms(1) us
    unfolding sring_def by (metis append.assoc append_Cons append_Nil)
  then obtain r where r: "npath N a (us @ [l]) r" "npath N r ys a"
    using npath_append[of N a "us @ [l]" ys a] by auto
  have l: "last (a # xs) = l" using us by (metis last_snoc)
  have "npath ?N a (us @ [l]) n"
    using r(1) d nin unfolding l by (simp add: npath_snoc)
  moreover have "npath ?N n (n # ys) a"
    using r(2) d nin assms(3) npath_start[OF r(2)] unfolding l by (simp add: npath.simps(2))
  ultimately have "npath ?N a ((us @ [l]) @ n # ys) a"
    by (subst npath_append) blast
  moreover have eq: "(us @ [l]) @ n # ys = a # xs @ n # ys" using us by (metis append_Cons)
  ultimately have "npath ?N a (a # xs @ n # ys) a" by (simp only: eq)
  then show ?thesis using assms(1,2) unfolding sring_def by simp
qed

lemma sring_remove [ring_rules]:
  assumes "sring N a (xs @ n # ys)"
  shows "sring (N(last (a # xs) := Some (hd (ys @ [a])))) a (xs @ ys)"
proof -
  let ?N = "N(last (a # xs) := Some (hd (ys @ [a])))"
  obtain us l where us: "a # xs = us @ [l]" by (metis list.distinct(1) rev_exhaust)
  have eq: "a # xs @ zs = us @ l # zs" for zs
    using us by (metis append.assoc append_Cons append_Nil)
  have l: "last (a # xs) = l" using us by (metis last_snoc)
  have d: "distinct (us @ l # n # ys)" and p: "npath N a (us @ l # n # ys) a"
    using assms eq[of "n # ys"] unfolding sring_def by auto
  have hdp: "npath N (hd (ys @ [a])) ys a"
    using npath_tail[of N a "us @ [l, n]" ys a] p by simp
  have "npath N a us l" "l \<noteq> NULL"
    using p by (auto simp: npath_append npath.simps(2) split: option.splits)
  then have "npath ?N a (us @ [l]) (hd (ys @ [a]))"
    using d unfolding l by (simp add: npath_snoc)
  moreover have "npath ?N (hd (ys @ [a])) ys a" using hdp d unfolding l by simp
  ultimately have "npath ?N a ((us @ [l]) @ ys) a" by (subst npath_append) blast
  moreover have "(us @ [l]) @ ys = a # xs @ ys" using us by (metis append_Cons)
  ultimately have "npath ?N a (a # xs @ ys) a" by (simp only:)
  then show ?thesis using assms unfolding sring_def by simp
qed

subsection \<open>Doubly linked rings\<close>

lemma dring_Nil [simp]: "dring N P a [] \<longleftrightarrow> a \<noteq> NULL \<and> N a = Some a \<and> P a = Some a"
  by (auto simp: dring_def)

lemma dring_distinct: "dring N P a xs \<Longrightarrow> distinct (a # xs)"
  unfolding dring_def using sring_distinct by blast

lemma dring_nonnull: "dring N P a xs \<Longrightarrow> NULL \<notin> set (a # xs)"
  unfolding dring_def using sring_nonnull by blast

lemma dring_live:
  assumes "dring N P a xs" and "x \<in> set (a # xs)"
  shows "\<exists>y. N x = Some y" and "\<exists>y. P x = Some y"
  using assms sring_live[of N a xs x] sring_live[of P a "rev xs" x]
  unfolding dring_def by auto

lemma dring_next_head: "dring N P a xs \<Longrightarrow> N a = Some (hd (xs @ [a]))"
  unfolding dring_def by (blast dest: sring_next_head)

lemma dring_prev_head: "dring N P a xs \<Longrightarrow> P a = Some (last (a # xs))"
  unfolding dring_def using sring_next_head[of P a "rev xs"] by (simp only: hd_rev_snoc)

lemma dring_next: "dring N P a (xs @ x # ys) \<Longrightarrow> N x = Some (hd (ys @ [a]))"
  unfolding dring_def by (blast dest: sring_next)

lemma dring_prev: "dring N P a (xs @ x # ys) \<Longrightarrow> P x = Some (last (a # xs))"
  unfolding dring_def using sring_next[of P a "rev ys" x "rev xs"]
  by (simp del: last.simps add: hd_rev_snoc)

lemma dring_frame:
  assumes "\<And>x. x \<in> set (a # xs) \<Longrightarrow> N' x = N x" and "\<And>x. x \<in> set (a # xs) \<Longrightarrow> P' x = P x"
  shows "dring N' P' a xs = dring N P a xs"
  unfolding dring_def using sring_frame[of a xs N' N] sring_frame[of a "rev xs" P' P] assms by simp

lemma dring_upd [simp]:
  "p \<noteq> a \<Longrightarrow> p \<notin> set xs \<Longrightarrow> dring (N(p := v)) P a xs = dring N P a xs"
  "p \<noteq> a \<Longrightarrow> p \<notin> set xs \<Longrightarrow> dring N (P(p := v)) a xs = dring N P a xs"
  by (auto intro!: dring_frame)

lemma dring_insert [ring_rules]:
  assumes "dring N P a (xs @ ys)" and "n \<notin> set (a # xs @ ys)" and "n \<noteq> NULL"
    and "pr = last (a # xs)" and "nx = hd (ys @ [a])"
  shows "dring (N(n := Some nx, pr := Some n)) (P(n := Some pr, nx := Some n)) a (xs @ n # ys)"
  using assms sring_insert[of N a xs ys n] sring_insert[of P a "rev ys" "rev xs" n]
  unfolding dring_def by (simp del: last.simps add: last_Cons_rev hd_rev_snoc)

lemma dring_remove [ring_rules]:
  assumes "dring N P a (xs @ n # ys)" and "pr = last (a # xs)" and "nx = hd (ys @ [a])"
  shows "dring (N(pr := Some nx)) (P(nx := Some pr)) a (xs @ ys)"
  using assms sring_remove[of N a xs n ys] sring_remove[of P a "rev ys" n "rev xs"]
  unfolding dring_def by (simp del: last.simps add: last_Cons_rev hd_rev_snoc)

end
