(* ===== verification/SlistHeadLoop.thy ===== *)
theory SlistHeadLoop
  imports Links
begin

section \<open>Circular singly linked list with a head node (01Slist/01head_loop_slist.c)\<close>

text \<open>
  The nodes live on a heap of \<open>node_info\<close> structs; the list is the ring of \<open>next\<close> links through
  the head node. Each function of the file is one definition, each of its loops a
  \<open>partial_function\<close> over the loop variables. \<open>slist_inv h phead ps ds\<close> says that \<open>phead\<close> heads a
  ring of the nodes \<open>ps\<close> which hold the values \<open>ds\<close>; the lemmas give the effect of every operation
  on it, so the list is handled as its list of values. Printed output is returned as a list.
\<close>

record node_info =
  data :: cint
  nxt :: ptr

type_synonym sheap = "node_info heap"

definition slist_init :: "sheap \<Rightarrow> (ptr \<times> sheap) option" where
  "slist_init h = (let (phead, h) = malloc h in
     if phead = NULL then Some (NULL, h)
     else do {
       h \<leftarrow> wr h phead (\<lambda>n. n\<lparr>data := 0\<rparr>);
       h \<leftarrow> wr h phead (\<lambda>n. n\<lparr>nxt := phead\<rparr>);
       Some (phead, h)
     })"

definition slist_add :: "sheap \<Rightarrow> ptr \<Rightarrow> cint \<Rightarrow> (int \<times> sheap) option" where
  "slist_add h phead d = (let (new_node, h) = malloc h in
     if new_node = NULL then Some (-1, h)
     else do {
       h \<leftarrow> wr h new_node (\<lambda>n. n\<lparr>data := d\<rparr>);
       first \<leftarrow> rd h nxt phead;
       h \<leftarrow> wr h new_node (\<lambda>n. n\<lparr>nxt := first\<rparr>);
       h \<leftarrow> wr h phead (\<lambda>n. n\<lparr>nxt := new_node\<rparr>);
       Some (-1, h)
     })"

partial_function (option) slist_tail_loop :: "sheap \<Rightarrow> ptr \<Rightarrow> ptr \<Rightarrow> ptr option" where
  "slist_tail_loop h phead tail = do {
     nx \<leftarrow> rd h nxt tail;
     (if nx \<noteq> phead then slist_tail_loop h phead nx else Some tail)
   }"

definition slist_add_tail :: "sheap \<Rightarrow> ptr \<Rightarrow> cint \<Rightarrow> (int \<times> sheap) option" where
  "slist_add_tail h phead d = (let (new_node, h) = malloc h in
     if new_node = NULL then Some (-1, h)
     else do {
       h \<leftarrow> wr h new_node (\<lambda>n. n\<lparr>data := d\<rparr>);
       first \<leftarrow> rd h nxt phead;
       tail \<leftarrow> slist_tail_loop h phead first;
       after \<leftarrow> rd h nxt tail;
       h \<leftarrow> wr h new_node (\<lambda>n. n\<lparr>nxt := after\<rparr>);
       h \<leftarrow> wr h tail (\<lambda>n. n\<lparr>nxt := new_node\<rparr>);
       Some (-1, h)
     })"

partial_function (option) slist_del_loop ::
    "sheap \<Rightarrow> ptr \<Rightarrow> cint \<Rightarrow> ptr \<Rightarrow> ptr \<Rightarrow> (int \<times> sheap) option" where
  "slist_del_loop h phead d cur Prev =
     (if cur = phead then Some (-1, h)
      else do {
        Next \<leftarrow> rd h nxt cur;
        x \<leftarrow> rd h data cur;
        (if x = d then do {
           h \<leftarrow> wr h Prev (\<lambda>n. n\<lparr>nxt := Next\<rparr>);
           h \<leftarrow> wr h cur (\<lambda>n. n\<lparr>nxt := cur\<rparr>);
           h \<leftarrow> free h cur;
           Some (0, h)
         }
         else slist_del_loop h phead d Next cur)
      })"

definition slist_del :: "sheap \<Rightarrow> ptr \<Rightarrow> cint \<Rightarrow> (int \<times> sheap) option" where
  "slist_del h phead d = do { cur \<leftarrow> rd h nxt phead; slist_del_loop h phead d cur phead }"

partial_function (option) slist_for_each_loop :: "sheap \<Rightarrow> ptr \<Rightarrow> ptr \<Rightarrow> cint list option" where
  "slist_for_each_loop h phead cur =
     (if cur = phead then Some []
      else do {
        x \<leftarrow> rd h data cur;
        nx \<leftarrow> rd h nxt cur;
        out \<leftarrow> slist_for_each_loop h phead nx;
        Some (x # out)
      })"

definition slist_for_each :: "sheap \<Rightarrow> ptr \<Rightarrow> cint list option" where
  "slist_for_each h phead = do { cur \<leftarrow> rd h nxt phead; slist_for_each_loop h phead cur }"

partial_function (option) slist_for_each_invert_rec ::
    "sheap \<Rightarrow> ptr \<Rightarrow> ptr \<Rightarrow> cint list option" where
  "slist_for_each_invert_rec h phead node =
     (if node = phead then Some []
      else do {
        nx \<leftarrow> rd h nxt node;
        out \<leftarrow> slist_for_each_invert_rec h phead nx;
        x \<leftarrow> rd h data node;
        Some (out @ [x])
      })"

definition slist_for_each_invert :: "sheap \<Rightarrow> ptr \<Rightarrow> cint list option" where
  "slist_for_each_invert h phead =
     do { first \<leftarrow> rd h nxt phead; slist_for_each_invert_rec h phead first }"

partial_function (option) slist_invert_loop :: "sheap \<Rightarrow> ptr \<Rightarrow> ptr \<Rightarrow> ptr \<Rightarrow> sheap option" where
  "slist_invert_loop h phead cur Prev =
     (if cur = phead then wr h phead (\<lambda>n. n\<lparr>nxt := Prev\<rparr>)
      else do {
        Next \<leftarrow> rd h nxt cur;
        h \<leftarrow> wr h cur (\<lambda>n. n\<lparr>nxt := Prev\<rparr>);
        slist_invert_loop h phead Next cur
      })"

definition slist_invert :: "sheap \<Rightarrow> ptr \<Rightarrow> sheap option" where
  "slist_invert h phead = do { cur \<leftarrow> rd h nxt phead; slist_invert_loop h phead cur phead }"

partial_function (option) slist_destroy_loop :: "sheap \<Rightarrow> ptr \<Rightarrow> ptr \<Rightarrow> (int \<times> sheap) option" where
  "slist_destroy_loop h phead cur =
     (if cur = phead then do { h \<leftarrow> free h cur; Some (0, h) }
      else do {
        Next \<leftarrow> rd h nxt cur;
        h \<leftarrow> wr h cur (\<lambda>n. n\<lparr>nxt := cur\<rparr>);
        h \<leftarrow> free h cur;
        slist_destroy_loop h phead Next
      })"

definition slist_destroy :: "sheap \<Rightarrow> ptr \<Rightarrow> (int \<times> sheap) option" where
  "slist_destroy h phead = do { cur \<leftarrow> rd h nxt phead; slist_destroy_loop h phead cur }"

text \<open>
  \<open>main\<close>: the counting loop passes the values it counts through; the result is the exit status,
  what \<open>slist_for_each\<close> prints and the final heap.
\<close>

fun slist_fill :: "sheap \<Rightarrow> ptr \<Rightarrow> cint list \<Rightarrow> sheap option" where
  "slist_fill h phead [] = Some h"
| "slist_fill h phead (i # is) = do {
     (r, h) \<leftarrow> slist_add_tail h phead i;
     slist_fill h phead is
   }"

definition slist_main :: "sheap \<Rightarrow> (int \<times> cint list \<times> sheap) option" where
  "slist_main h = do {
     (phead, h) \<leftarrow> slist_init h;
     h \<leftarrow> slist_fill h phead [0, 1, 2, 3, 4, 5, 6, 7, 8, 9];
     (r, h) \<leftarrow> slist_del h phead 5;
     (if r < 0 then Some (1, [], h)
      else do {
        h \<leftarrow> slist_invert h phead;
        out \<leftarrow> slist_for_each h phead;
        Some (0, out, h)
      })
   }"

subsection \<open>The representation invariant\<close>

definition slist_inv :: "sheap \<Rightarrow> ptr \<Rightarrow> ptr list \<Rightarrow> cint list \<Rightarrow> bool" where
  "slist_inv h phead ps ds \<longleftrightarrow>
     sring (fld h nxt) phead ps \<and> map (fld h data) ps = map Some ds"

lemma slist_inv_live:
  assumes "slist_inv h phead ps ds" and "p \<in> set (phead # ps)"
  obtains n where "mem h p = Some n" and "p \<noteq> NULL"
  using assms sring_live[of "fld h nxt" phead ps p] sring_nonnull[of "fld h nxt" phead ps]
  by (auto simp: slist_inv_def fld_Some_iff)

lemma slist_inv_frame:
  assumes "slist_inv h phead ps ds" and "\<And>p. p \<in> set (phead # ps) \<Longrightarrow> mem h' p = mem h p"
  shows "slist_inv h' phead ps ds"
proof -
  have "sring (fld h' nxt) phead ps = sring (fld h nxt) phead ps"
    using assms(2) by (intro sring_frame) (simp add: fld_def)
  moreover have "map (fld h' data) ps = map (fld h data) ps"
    using assms(2) by (simp add: fld_def)
  ultimately show ?thesis using assms(1) unfolding slist_inv_def by (simp only:)
qed

lemma slist_inv_fresh:
  "slist_inv h phead ps ds \<Longrightarrow> mem h p = None \<Longrightarrow> p \<notin> set (phead # ps)"
  by (metis option.distinct(1) slist_inv_live)

lemma slist_inv_next_head: "slist_inv h phead ps ds \<Longrightarrow> fld h nxt phead = Some (hd (ps @ [phead]))"
  unfolding slist_inv_def by (blast dest: sring_next_head)

lemma slist_inv_distinct: "slist_inv h phead ps ds \<Longrightarrow> distinct (phead # ps)"
  unfolding slist_inv_def by (blast dest: sring_distinct)

lemma node_info_set [simp]: "n\<lparr>data := d, nxt := v\<rparr> = \<lparr>data = d, nxt = v\<rparr>"
  by simp

lemma node_info_data: "n\<lparr>data := d\<rparr> = \<lparr>data = d, nxt = nxt n\<rparr>"
  by simp

subsection \<open>Insertion\<close>

text \<open>The writes both insertions end with: \<open>p\<close>, freshly allocated, is linked in after \<open>xs\<close>.\<close>

lemma slist_link_in:
  assumes inv: "slist_inv h phead (xs @ ys) (ds @ es)" and len: "length xs = length ds"
    and fresh: "mem h p = None" "p \<noteq> NULL"
    and t: "t = last (phead # xs)" "mem h t = Some nt"
    and h': "mem h' = (mem h)(p := Some \<lparr>data = d, nxt = hd (ys @ [phead])\<rparr>, t := Some (nt\<lparr>nxt := p\<rparr>))"
  shows "slist_inv h' phead (xs @ p # ys) (ds @ d # es)"
proof -
  have p: "p \<notin> set (phead # xs @ ys)" using slist_inv_fresh[OF inv fresh(1)] by simp
  have tin: "t \<in> set (phead # xs)" unfolding t(1) by (metis last_in_set list.distinct(1))
  have eqN: "fld h' nxt = (fld h nxt)(p := Some (hd (ys @ [phead])), last (phead # xs) := Some p)"
    unfolding t(1)[symmetric] by (auto simp: fld_def h' fun_eq_iff)
  have "sring (fld h' nxt) phead (xs @ p # ys)"
    unfolding eqN using inv p fresh(2) by (intro sring_insert) (auto simp: slist_inv_def)
  moreover have eqD: "fld h' data q = fld h data q" if "q \<noteq> p" for q
    using that t(2) by (auto simp: fld_def h')
  have "map (fld h' data) xs = map (fld h data) xs" "map (fld h' data) ys = map (fld h data) ys"
    using p by (auto intro!: eqD)
  moreover have "fld h' data p = Some d" using tin p by (auto simp: fld_def h')
  moreover have "map (fld h data) xs = map Some ds" "map (fld h data) ys = map Some es"
    using inv len by (auto simp: slist_inv_def append_eq_append_conv)
  ultimately show ?thesis by (simp add: slist_inv_def)
qed

lemma slist_init_spec:
  assumes "malloc h = (p, h1)" and "p \<noteq> NULL"
  shows "\<exists>h'. slist_init h = Some (p, h') \<and> slist_inv h' p [] [] \<and> same_out {p} h h' \<and> avail h' = avail h1"
  using assms malloc_Some[OF assms]
  by (auto simp: slist_init_def wr_def slist_inv_def fld_def same_out_def)

lemma slist_add_spec:
  assumes inv: "slist_inv h phead ps ds" and m: "malloc h = (p, h1)" "p \<noteq> NULL"
  shows "\<exists>h'. slist_add h phead d = Some (-1, h') \<and> slist_inv h' phead (p # ps) (d # ds)
           \<and> same_out {p, phead} h h' \<and> avail h' = avail h1"
proof -
  obtain nh where nh: "mem h phead = Some nh" "phead \<noteq> NULL"
    using inv by (auto elim: slist_inv_live)
  have p: "p \<noteq> phead" using nh malloc_Some(1)[OF m] by auto
  have first: "nxt nh = hd (ps @ [phead])"
    using slist_inv_next_head[OF inv] nh by (simp add: fld_def)
  let ?h' = "h1\<lparr>mem := (mem h)(p := Some \<lparr>data = d, nxt = hd (ps @ [phead])\<rparr>,
                 phead := Some (nh\<lparr>nxt := p\<rparr>))\<rparr>"
  have "slist_add h phead d = Some (-1, ?h')"
    using m malloc_Some[OF m] nh p first
    by (simp add: slist_add_def wr_def rd_def fld_def fun_upd_twist)
  moreover have "slist_inv ?h' phead ([] @ p # ps) ([] @ d # ds)"
    using inv malloc_Some(1)[OF m] m(2) nh by (intro slist_link_in) auto
  ultimately show ?thesis by (auto simp: same_out_def)
qed

lemma slist_tail_loop_path:
  "npath (fld h nxt) t (t # xs) phead \<Longrightarrow> phead \<notin> set xs \<Longrightarrow>
     slist_tail_loop h phead t = Some (last (t # xs))"
proof (induction xs arbitrary: t)
  case Nil
  then show ?case
    by (subst slist_tail_loop.simps) (auto simp: npath.simps(2) rd_def split: option.splits)
next
  case (Cons x xs)
  then have "fld h nxt t = Some x" "t \<noteq> NULL" "npath (fld h nxt) x (x # xs) phead"
    by (auto simp: npath.simps(2) split: option.splits)
  with Cons show ?case by (subst slist_tail_loop.simps) (simp add: rd_def)
qed

lemma slist_tail_loop_ring:
  assumes "slist_inv h phead ps ds"
  shows "slist_tail_loop h phead (hd (ps @ [phead])) = Some (last (phead # ps))"
proof (cases ps)
  case Nil
  then show ?thesis using assms slist_tail_loop_path[of h phead "[]" phead]
    by (simp add: slist_inv_def sring_def)
next
  case (Cons x xs)
  then have "npath (fld h nxt) x (x # xs) phead" "phead \<notin> set xs"
    using assms npath_tail[of "fld h nxt" phead "[phead]" "x # xs" phead]
    by (auto simp: slist_inv_def sring_def)
  then show ?thesis using slist_tail_loop_path[of h x xs phead] Cons by simp
qed

lemma slist_add_tail_spec:
  assumes inv: "slist_inv h phead ps ds" and m: "malloc h = (p, h1)" "p \<noteq> NULL"
  shows "\<exists>h'. slist_add_tail h phead d = Some (-1, h') \<and> slist_inv h' phead (ps @ [p]) (ds @ [d])
           \<and> same_out (set (p # phead # ps)) h h' \<and> avail h' = avail h1"
proof -
  note fr = malloc_Some[OF m]
  have pn: "p \<notin> set (phead # ps)" by (rule slist_inv_fresh[OF inv fr(1)])
  let ?t = "last (phead # ps)"
  have tin: "?t \<in> set (phead # ps)" by (rule last_in_set) simp
  obtain nt where nt: "mem h ?t = Some nt" "?t \<noteq> NULL" using slist_inv_live[OF inv tin] .
  obtain nh where nh: "mem h phead = Some nh" "phead \<noteq> NULL"
    using inv by (auto elim: slist_inv_live)
  have first: "nxt nh = hd (ps @ [phead])"
    using slist_inv_next_head[OF inv] nh by (simp add: fld_def)
  have after: "nxt nt = phead"
    using inv sring_next_last[of "fld h nxt" phead ps] nt by (simp add: slist_inv_def fld_def)
  have tp: "?t \<noteq> p" using tin pn by blast
  let ?h1 = "h1\<lparr>mem := (mem h)(p := Some \<lparr>data = d, nxt = nxt (junk h)\<rparr>)\<rparr>"
  let ?h' = "h1\<lparr>mem := (mem h)(p := Some \<lparr>data = d, nxt = phead\<rparr>, ?t := Some (nt\<lparr>nxt := p\<rparr>))\<rparr>"
  have "slist_inv ?h1 phead ps ds"
    by (rule slist_inv_frame[OF inv]) (use pn in auto)
  then have loop: "slist_tail_loop ?h1 phead (hd (ps @ [phead])) = Some ?t"
    by (rule slist_tail_loop_ring)
  have "wr h1 p (\<lambda>n. n\<lparr>data := d\<rparr>) = Some ?h1"
    using fr m(2) by (simp add: wr_def node_info_data)
  moreover have "rd ?h1 nxt phead = Some (hd (ps @ [phead]))"
    using nh pn first by (simp add: rd_def fld_def)
  moreover have "rd ?h1 nxt ?t = Some phead"
    using nt tp after by (simp del: last.simps add: rd_def fld_def)
  moreover have "wr ?h1 p (\<lambda>n. n\<lparr>nxt := phead\<rparr>)
      = Some (h1\<lparr>mem := (mem h)(p := Some \<lparr>data = d, nxt = phead\<rparr>)\<rparr>)"
    using m(2) by (simp add: wr_def)
  moreover have "wr (h1\<lparr>mem := (mem h)(p := Some \<lparr>data = d, nxt = phead\<rparr>)\<rparr>) ?t (\<lambda>n. n\<lparr>nxt := p\<rparr>) = Some ?h'"
    using nt tp by (simp del: last.simps add: wr_def)
  ultimately have "slist_add_tail h phead d = Some (-1, ?h')"
    using m loop by (simp del: last.simps add: slist_add_tail_def)
  moreover have "slist_inv ?h' phead (ps @ p # []) (ds @ d # [])"
    using inv fr(1) m(2) nt by (intro slist_link_in) (auto simp: slist_inv_def dest: map_eq_imp_length_eq)
  ultimately show ?thesis using tin by (auto simp del: last.simps simp: same_out_def)
qed

subsection \<open>Deletion\<close>

text \<open>
  The loop of \<open>slist_del\<close> has walked past the nodes \<open>xs\<close>, none of which holds \<open>d\<close>; it removes and
  frees the first later node that does, and reports -1 when there is none.
\<close>

lemma slist_unlink:
  assumes inv: "slist_inv h phead (xs @ c # ys) (ds @ e # es)" and len: "length xs = length ds"
    and t: "t = last (phead # xs)" "mem h t = Some nt"
    and h': "mem h' = ((mem h)(t := Some (nt\<lparr>nxt := hd (ys @ [phead])\<rparr>)))(c := None)"
  shows "slist_inv h' phead (xs @ ys) (ds @ es)"
proof -
  have dist: "distinct (phead # xs @ c # ys)" by (rule slist_inv_distinct[OF inv])
  have tin: "t \<in> set (phead # xs)" unfolding t(1) by (metis last_in_set list.distinct(1))
  let ?N = "(fld h nxt)(last (phead # xs) := Some (hd (ys @ [phead])))"
  have "sring ?N phead (xs @ ys)"
    using inv by (intro sring_remove[where n = c]) (simp add: slist_inv_def)
  moreover have eqN: "fld h' nxt q = ?N q" if "q \<noteq> c" for q
    unfolding t(1)[symmetric] using that by (auto simp: fld_def h')
  have "sring (fld h' nxt) phead (xs @ ys) = sring ?N phead (xs @ ys)"
    by (intro sring_frame eqN) (use dist in auto)
  moreover have eqD: "fld h' data q = fld h data q" if "q \<noteq> c" for q
    using that t(2) by (auto simp: fld_def h')
  have "map (fld h' data) xs = map (fld h data) xs" "map (fld h' data) ys = map (fld h data) ys"
    using dist by (auto intro!: eqD)
  moreover have "map (fld h data) xs = map Some ds" "map (fld h data) ys = map Some es"
    using inv len by (auto simp: slist_inv_def append_eq_append_conv)
  ultimately show ?thesis unfolding slist_inv_def by simp
qed

lemma slist_del_loop_found:
  assumes "slist_inv h phead (xs @ ys @ c # zs) (ds @ es @ d # fs)"
    and "length xs = length ds" and "length ys = length es" and "d \<notin> set es"
  shows "\<exists>h'. slist_del_loop h phead d (hd (ys @ [c])) (last (phead # xs)) = Some (0, h')
           \<and> slist_inv h' phead (xs @ ys @ zs) (ds @ es @ fs) \<and> mem h' c = None
           \<and> same_out (set (c # phead # xs @ ys)) h h' \<and> avail h' = avail h"
  using assms
proof (induction ys arbitrary: xs ds es)
  case Nil
  then have inv: "slist_inv h phead (xs @ c # zs) (ds @ d # fs)" and [simp]: "es = []" by auto
  have dist: "distinct (phead # xs @ c # zs)" by (rule slist_inv_distinct[OF inv])
  obtain nc where nc: "mem h c = Some nc" "c \<noteq> NULL"
    using slist_inv_live[OF inv, of c] by auto
  have tin: "last (phead # xs) \<in> set (phead # xs)" by (rule last_in_set) simp
  obtain nt where nt: "mem h (last (phead # xs)) = Some nt" "last (phead # xs) \<noteq> NULL"
    using slist_inv_live[OF inv, of "last (phead # xs)"] tin by auto
  have ne: "last (phead # xs) \<noteq> c" "c \<noteq> phead" using tin dist by auto
  have "data nc = d"
    using inv nc Nil.prems(2) by (auto simp: slist_inv_def fld_def append_eq_append_conv)
  moreover have "nxt nc = hd (zs @ [phead])"
    using inv nc sring_next[of "fld h nxt" phead xs c zs] by (simp add: slist_inv_def fld_def)
  ultimately have step: "slist_del_loop h phead d c (last (phead # xs))
      = Some (0, h\<lparr>mem := ((mem h)(last (phead # xs) := Some (nt\<lparr>nxt := hd (zs @ [phead])\<rparr>)))(c := None)\<rparr>)"
    using nc nt ne
    by (subst slist_del_loop.simps) (simp del: last.simps add: rd_def wr_def free_def fld_def)
  have "slist_inv (h\<lparr>mem := ((mem h)(last (phead # xs) := Some (nt\<lparr>nxt := hd (zs @ [phead])\<rparr>)))(c := None)\<rparr>)
      phead (xs @ zs) (ds @ fs)"
    using Nil.prems(2) nt by (intro slist_unlink[OF inv]) auto
  with step tin show ?case by (auto simp del: last.simps simp: same_out_def)
next
  case (Cons y ys)
  then obtain e es' where es: "es = e # es'" by (cases es) auto
  have inv: "slist_inv h phead (xs @ y # ys @ c # zs) (ds @ e # es' @ d # fs)"
    using Cons.prems(1) es by simp
  obtain ny where ny: "mem h y = Some ny" "y \<noteq> NULL"
    using slist_inv_live[OF inv, of y] by auto
  have "y \<noteq> phead" using slist_inv_distinct[OF inv] by simp
  moreover have "data ny = e"
    using inv ny Cons.prems(2) by (auto simp: slist_inv_def fld_def append_eq_append_conv)
  moreover have "nxt ny = hd (ys @ [c])"
    using inv ny sring_next[of "fld h nxt" phead xs y "ys @ c # zs"]
    by (cases ys) (simp_all add: slist_inv_def fld_def)
  ultimately have "slist_del_loop h phead d y (last (phead # xs)) = slist_del_loop h phead d (hd (ys @ [c])) y"
    using ny Cons.prems(4) es by (subst slist_del_loop.simps) (auto simp: rd_def fld_def)
  moreover have "slist_inv h phead ((xs @ [y]) @ ys @ c # zs) ((ds @ [e]) @ es' @ d # fs)"
    using inv by simp
  from Cons.IH[OF this] obtain h' where
    "slist_del_loop h phead d (hd (ys @ [c])) y = Some (0, h')"
    "slist_inv h' phead (xs @ y # ys @ zs) (ds @ e # es' @ fs)" "mem h' c = None"
    "same_out (set (c # phead # xs @ y # ys)) h h'" "avail h' = avail h"
    using Cons.prems es by auto
  ultimately show ?case by (simp add: es)
qed

lemma slist_del_loop_missing:
  assumes "slist_inv h phead (xs @ ys) (ds @ es)"
    and "length xs = length ds" and "d \<notin> set es"
  shows "slist_del_loop h phead d (hd (ys @ [phead])) p = Some (-1, h)"
  using assms
proof (induction ys arbitrary: xs ds es p)
  case Nil
  then show ?case by (subst slist_del_loop.simps) simp
next
  case (Cons y ys)
  then have "map (fld h data) (y # ys) = map Some es"
    by (auto simp: slist_inv_def append_eq_append_conv)
  then obtain e es' where es: "es = e # es'" and e: "fld h data y = Some e" by (cases es) auto
  have ny: "y \<noteq> NULL" using slist_inv_live[OF Cons.prems(1), of y] by auto
  have "y \<noteq> phead" using slist_inv_distinct[OF Cons.prems(1)] by simp
  moreover have "fld h nxt y = Some (hd (ys @ [phead]))"
    using Cons.prems(1) sring_next[of "fld h nxt" phead xs y ys] by (simp add: slist_inv_def)
  ultimately have "slist_del_loop h phead d y p = slist_del_loop h phead d (hd (ys @ [phead])) y"
    using e ny Cons.prems(3) es by (subst slist_del_loop.simps) (auto simp: rd_def)
  then show ?case using Cons.IH[of "xs @ [y]" "ds @ [e]" es' y] Cons.prems es by simp
qed

lemma slist_del_found:
  assumes inv: "slist_inv h phead (ys @ c # zs) (es @ d # fs)"
    and "length ys = length es" and "d \<notin> set es"
  shows "\<exists>h'. slist_del h phead d = Some (0, h') \<and> slist_inv h' phead (ys @ zs) (es @ fs)
           \<and> mem h' c = None \<and> same_out (set (c # phead # ys)) h h' \<and> avail h' = avail h"
proof -
  have "rd h nxt phead = Some (hd (ys @ [c]))"
    using slist_inv_next_head[OF inv] slist_inv_live[OF inv, of phead]
    by (cases ys) (auto simp: rd_def)
  then show ?thesis
    using slist_del_loop_found[of h phead "[]" ys c zs "[]" es d fs] assms by (simp add: slist_del_def)
qed

lemma slist_del_missing:
  assumes inv: "slist_inv h phead ps ds" and "d \<notin> set ds"
  shows "slist_del h phead d = Some (-1, h)"
proof -
  have "rd h nxt phead = Some (hd (ps @ [phead]))"
    using slist_inv_next_head[OF inv] slist_inv_live[OF inv, of phead] by (auto simp: rd_def)
  then show ?thesis
    using slist_del_loop_missing[of h phead "[]" ps "[]" ds d] assms by (simp add: slist_del_def)
qed

subsection \<open>Traversal\<close>

lemma slist_walk:
  assumes "npath (fld h nxt) p ps phead" and "phead \<notin> set ps" and "map (fld h data) ps = map Some ds"
  shows "slist_for_each_loop h phead p = Some ds"
    and "slist_for_each_invert_rec h phead p = Some (rev ds)"
proof -
  have "slist_for_each_loop h phead p = Some ds \<and> slist_for_each_invert_rec h phead p = Some (rev ds)"
    using assms
  proof (induction ps arbitrary: p ds)
    case Nil
    then show ?case
      by (subst slist_for_each_loop.simps, subst slist_for_each_invert_rec.simps) simp
  next
    case (Cons x xs)
    from Cons.prems(3) obtain e es where ds: "ds = e # es" "fld h data x = Some e"
      "map (fld h data) xs = map Some es" by (cases ds) auto
    from Cons.prems(1) obtain y where y: "p = x" "x \<noteq> NULL" "fld h nxt x = Some y"
      "npath (fld h nxt) y xs phead" by (auto simp: npath.simps(2) split: option.splits)
    from Cons.IH[OF y(4) _ ds(3)] Cons.prems(2) show ?case
      using y ds by (subst slist_for_each_loop.simps, subst slist_for_each_invert_rec.simps)
        (simp add: rd_def)
  qed
  then show "slist_for_each_loop h phead p = Some ds"
    and "slist_for_each_invert_rec h phead p = Some (rev ds)" by auto
qed

lemma slist_inv_walk:
  assumes "slist_inv h phead ps ds"
  shows "npath (fld h nxt) (hd (ps @ [phead])) ps phead" and "phead \<notin> set ps"
    and "rd h nxt phead = Some (hd (ps @ [phead]))"
  using assms npath_tail[of "fld h nxt" phead "[phead]" ps phead] slist_inv_next_head[OF assms]
    slist_inv_live[OF assms, of phead]
  by (auto simp: slist_inv_def sring_def rd_def)

lemma slist_for_each_spec: "slist_inv h phead ps ds \<Longrightarrow> slist_for_each h phead = Some ds"
  using slist_walk(1)[OF slist_inv_walk(1,2)] slist_inv_walk(3)
  by (auto simp: slist_for_each_def slist_inv_def)

lemma slist_for_each_invert_spec:
  "slist_inv h phead ps ds \<Longrightarrow> slist_for_each_invert h phead = Some (rev ds)"
  using slist_walk(2)[OF slist_inv_walk(1,2)] slist_inv_walk(3)
  by (auto simp: slist_for_each_invert_def slist_inv_def)

subsection \<open>In-place inversion\<close>

text \<open>
  Loop invariant: the nodes \<open>xs\<close> already visited form the reversed path that ends at the head,
  the nodes \<open>ys\<close> still to visit the original path.
\<close>

lemma slist_invert_loop_spec:
  assumes "npath (fld h nxt) c ys phead" and "npath (fld h nxt) p xs phead"
    and "distinct (phead # xs @ ys)" and "mem h phead = Some nh" "phead \<noteq> NULL"
  shows "\<exists>h'. slist_invert_loop h phead c p = Some h' \<and> sring (fld h' nxt) phead (rev ys @ xs)
           \<and> fld h' data = fld h data \<and> same_out (set (phead # ys)) h h' \<and> avail h' = avail h"
  using assms
proof (induction ys arbitrary: h c p xs)
  case Nil
  let ?h' = "h\<lparr>mem := (mem h)(phead := Some (nh\<lparr>nxt := p\<rparr>))\<rparr>"
  have eq: "fld ?h' nxt = (fld h nxt)(phead := Some p)" by (auto simp: fld_def fun_eq_iff)
  have "sring (fld ?h' nxt) phead xs"
    unfolding eq sring_def using Nil by (simp add: npath.simps(2))
  moreover have "slist_invert_loop h phead c p = Some ?h'"
    using Nil by (subst slist_invert_loop.simps) (simp add: wr_def)
  moreover have "fld ?h' data = fld h data" using Nil by (auto simp: fld_def fun_eq_iff)
  ultimately show ?case by (auto simp: same_out_def)
next
  case (Cons y ys)
  from Cons.prems(1) obtain z where z: "c = y" "y \<noteq> NULL" "fld h nxt y = Some z"
    "npath (fld h nxt) z ys phead" by (auto simp: npath.simps(2) split: option.splits)
  then obtain ny where ny: "mem h y = Some ny" by (auto simp: fld_Some_iff)
  have ne: "y \<noteq> phead" using Cons.prems(3) by auto
  let ?h1 = "h\<lparr>mem := (mem h)(y := Some (ny\<lparr>nxt := p\<rparr>))\<rparr>"
  have eq: "fld ?h1 nxt = (fld h nxt)(y := Some p)" by (auto simp: fld_def fun_eq_iff)
  have "npath (fld ?h1 nxt) z ys phead" "npath (fld ?h1 nxt) y (y # xs) phead"
    unfolding eq using Cons.prems z by (auto simp: npath.simps(2))
  then have "\<exists>h'. slist_invert_loop ?h1 phead z y = Some h' \<and> sring (fld h' nxt) phead (rev ys @ y # xs)
           \<and> fld h' data = fld ?h1 data \<and> same_out (set (phead # ys)) ?h1 h' \<and> avail h' = avail ?h1"
    using Cons.prems ne by (intro Cons.IH) auto
  moreover have "slist_invert_loop h phead c p = slist_invert_loop ?h1 phead z y"
    using z ny ne by (subst slist_invert_loop.simps) (simp add: rd_def wr_def)
  moreover have "fld ?h1 data = fld h data" using ny by (auto simp: fld_def fun_eq_iff)
  ultimately show ?case by (auto simp: same_out_def)
qed

lemma slist_invert_spec:
  assumes inv: "slist_inv h phead ps ds"
  shows "\<exists>h'. slist_invert h phead = Some h' \<and> slist_inv h' phead (rev ps) (rev ds)
           \<and> same_out (set (phead # ps)) h h' \<and> avail h' = avail h"
proof -
  obtain nh where nh: "mem h phead = Some nh" "phead \<noteq> NULL"
    using inv by (auto elim: slist_inv_live)
  from slist_invert_loop_spec[OF slist_inv_walk(1)[OF inv], of phead "[]" nh]
  obtain h' where h': "slist_invert_loop h phead (hd (ps @ [phead])) phead = Some h'"
    "sring (fld h' nxt) phead (rev ps)" "fld h' data = fld h data"
    "same_out (set (phead # ps)) h h'" "avail h' = avail h"
    using slist_inv_distinct[OF inv] nh by auto
  have "map (fld h' data) (rev ps) = map Some (rev ds)"
    using inv h'(3) by (simp add: slist_inv_def flip: rev_map)
  then show ?thesis
    using h' slist_inv_walk(3)[OF inv] by (simp add: slist_invert_def slist_inv_def)
qed

subsection \<open>Destruction\<close>

lemma slist_destroy_loop_spec:
  assumes "npath (fld h nxt) c ys phead" and "distinct (phead # ys)"
    and "mem h phead = Some nh" "phead \<noteq> NULL"
  shows "\<exists>h'. slist_destroy_loop h phead c = Some (0, h')
           \<and> mem h' = (mem h) |` (- set (phead # ys)) \<and> avail h' = avail h"
  using assms
proof (induction ys arbitrary: h c)
  case Nil
  then show ?case
    by (subst slist_destroy_loop.simps) (auto simp: free_def restrict_map_def)
next
  case (Cons y ys)
  from Cons.prems(1) obtain z where z: "c = y" "y \<noteq> NULL" "fld h nxt y = Some z"
    "npath (fld h nxt) z ys phead" by (auto simp: npath.simps(2) split: option.splits)
  then obtain ny where ny: "mem h y = Some ny" by (auto simp: fld_Some_iff)
  let ?h1 = "h\<lparr>mem := (mem h)(y := None)\<rparr>"
  have "npath (fld ?h1 nxt) z ys phead"
    using z(4) Cons.prems(2) npath_upd[of y ys "fld h nxt" None] by (simp add: fld_free)
  then have "\<exists>h'. slist_destroy_loop ?h1 phead z = Some (0, h')
      \<and> mem h' = (mem ?h1) |` (- set (phead # ys)) \<and> avail h' = avail ?h1"
    using Cons.prems by (intro Cons.IH) auto
  moreover have "slist_destroy_loop h phead c = slist_destroy_loop ?h1 phead z"
    using z ny Cons.prems(2) by (subst slist_destroy_loop.simps) (auto simp: rd_def wr_def free_def)
  ultimately show ?case by (auto simp: restrict_map_def fun_eq_iff)
qed

lemma slist_destroy_spec:
  assumes inv: "slist_inv h phead ps ds"
  shows "\<exists>h'. slist_destroy h phead = Some (0, h')
           \<and> mem h' = (mem h) |` (- set (phead # ps)) \<and> avail h' = avail h"
proof -
  obtain nh where nh: "mem h phead = Some nh" "phead \<noteq> NULL"
    using inv by (auto elim: slist_inv_live)
  from slist_destroy_loop_spec[OF slist_inv_walk(1)[OF inv] slist_inv_distinct[OF inv] nh]
  show ?thesis using slist_inv_walk(3)[OF inv] by (simp add: slist_destroy_def)
qed

subsection \<open>The demo program\<close>

text \<open>As long as the allocator delivers, \<open>slist_fill\<close> appends what it is given.\<close>

lemma slist_fill_spec:
  assumes "slist_inv h phead ps ds" and "fresh_avail h" and "length is \<le> length (avail h)"
  shows "\<exists>h' qs. slist_fill h phead is = Some h' \<and> slist_inv h' phead (ps @ qs) (ds @ is)"
  using assms
proof (induction "is" arbitrary: h ps ds)
  case Nil
  then show ?case by (intro exI[of _ h] exI[of _ "[]"]) simp
next
  case (Cons i js)
  then obtain p av where av: "avail h = p # av" by (cases "avail h") auto
  note m = malloc_fresh[OF Cons.prems(2) av]
  let ?h1 = "h\<lparr>mem := (mem h)(p := Some (junk h)), avail := av\<rparr>"
  from slist_add_tail_spec[OF Cons.prems(1) m(1,2), of i] obtain h' where
    h': "slist_add_tail h phead i = Some (-1, h')" "slist_inv h' phead (ps @ [p]) (ds @ [i])"
      "same_out (set (p # phead # ps)) h h'" "avail h' = av" by auto
  have "q = p \<or> mem h q \<noteq> None" if "q \<in> set (p # phead # ps)" for q
    using that slist_inv_live[OF Cons.prems(1), of q] by auto
  with fresh_avail_malloc[OF Cons.prems(2) av h'(3) _ h'(4)] have "fresh_avail h'" by blast
  from Cons.IH[OF h'(2) this] obtain h'' qs where
    "slist_fill h' phead js = Some h''" "slist_inv h'' phead ((ps @ [p]) @ qs) ((ds @ [i]) @ js)"
    using Cons.prems(3) av h'(4) by auto
  with h'(1) show ?case by (intro exI[of _ h''] exI[of _ "p # qs"]) simp
qed

lemma slist_main_spec:
  assumes "fresh_avail h" and "11 \<le> length (avail h)"
  shows "\<exists>h'. slist_main h = Some (0, [9, 8, 7, 6, 4, 3, 2, 1, 0], h')"
proof -
  obtain p av where av: "avail h = p # av" using assms(2) by (cases "avail h") auto
  note m = malloc_fresh[OF assms(1) av]
  from slist_init_spec[OF m(1,2)] obtain h1 where
    h1: "slist_init h = Some (p, h1)" "slist_inv h1 p [] []" "same_out {p} h h1" "avail h1 = av"
    by auto
  have "fresh_avail h1" using fresh_avail_malloc[OF assms(1) av h1(3) _ h1(4)] by simp
  with slist_fill_spec[OF h1(2), of "[0, 1, 2, 3, 4, 5, 6, 7, 8, 9]"] obtain h2 qs where
    h2: "slist_fill h1 p [0, 1, 2, 3, 4, 5, 6, 7, 8, 9] = Some h2"
      "slist_inv h2 p qs [0, 1, 2, 3, 4, 5, 6, 7, 8, 9]"
    using assms(2) av h1(4) by auto
  then have "map (fld h2 data) qs = map Some [0, 1, 2, 3, 4, 5, 6, 7, 8, 9]"
    by (simp add: slist_inv_def)
  from arg_cong[OF this, of length] have len: "length qs = 10" by simp
  obtain ys c zs where qs: "qs = ys @ c # zs" "length ys = 5"
  proof
    show "qs = take 5 qs @ qs ! 5 # drop 6 qs" using id_take_nth_drop[of 5 qs] len by simp
    show "length (take 5 qs) = 5" using len by simp
  qed
  from slist_del_found[of h2 p ys c zs "[0, 1, 2, 3, 4]" 5 "[6, 7, 8, 9]"] obtain h3 where
    h3: "slist_del h2 p 5 = Some (0, h3)" "slist_inv h3 p (ys @ zs) [0, 1, 2, 3, 4, 6, 7, 8, 9]"
    using h2(2) qs by auto
  from slist_invert_spec[OF h3(2)] obtain h4 where
    h4: "slist_invert h3 p = Some h4" "slist_inv h4 p (rev (ys @ zs)) [9, 8, 7, 6, 4, 3, 2, 1, 0]"
    by auto
  from h1(1) h2(1) h3(1) h4(1) slist_for_each_spec[OF h4(2)] show ?thesis
    by (simp del: slist_fill.simps add: slist_main_def)
qed

end
