(* ===== verification/SlistNoLoop.thy ===== *)
theory SlistNoLoop
  imports SlistHeadLoop
begin

section \<open>Singly linked lists that end in NULL (02head_noloop_slist.c, 03nohead_noloop_slist.c)\<close>

text \<open>
  The second list of 01Slist embeds its head node in \<open>struct slist_info\<close> and ends in NULL; the third has
  no head node, its functions take the address of the first pointer. Both link nodes that the caller
  owns. The functions carry the suffixes \<open>_nl\<close> and \<open>_nh\<close>; a failing \<open>assert\<close> is None, what the program
  prints is a result.
\<close>

record slist_info =
  head_data :: cint
  head_next :: ptr
  smem :: "sheap"

definition slist_init_nl :: "slist_info \<Rightarrow> int \<times> slist_info" where
  "slist_init_nl info = (0, info\<lparr>head_data := 0, head_next := NULL\<rparr>)"

definition slist_add_nl :: "slist_info \<Rightarrow> ptr \<Rightarrow> slist_info option" where
  "slist_add_nl info node = (if node = NULL then None else do {
     h \<leftarrow> wr (smem info) node (\<lambda>n. n\<lparr>nxt := head_next info\<rparr>);
     Some (info\<lparr>smem := h, head_next := node\<rparr>)
   })"

partial_function (option) slist_print :: "sheap \<Rightarrow> ptr \<Rightarrow> cint list option" where
  "slist_print h cur =
     (if cur = NULL then Some []
      else do {
        d \<leftarrow> rd h data cur;
        nx \<leftarrow> rd h nxt cur;
        ds \<leftarrow> slist_print h nx;
        Some (d # ds)
      })"

definition slist_for_each_nl :: "slist_info \<Rightarrow> cint list option" where
  "slist_for_each_nl info = slist_print (smem info) (head_next info)"

partial_function (option) slist_last :: "sheap \<Rightarrow> ptr \<Rightarrow> ptr option" where
  "slist_last h cur =
     (if cur = NULL then Some cur
      else do { nx \<leftarrow> rd h nxt cur; (if nx = NULL then Some cur else slist_last h nx) })"

definition slist_add_tail_nl :: "slist_info \<Rightarrow> ptr \<Rightarrow> slist_info option" where
  "slist_add_tail_nl info node = (if node = NULL then None else do {
     cur \<leftarrow> slist_last (smem info) (head_next info);
     h \<leftarrow> wr (smem info) node (\<lambda>n. n\<lparr>nxt := NULL\<rparr>);
     (if cur \<noteq> NULL then do { h \<leftarrow> wr h cur (\<lambda>n. n\<lparr>nxt := node\<rparr>); Some (info\<lparr>smem := h\<rparr>) }
      else Some (info\<lparr>smem := h, head_next := node\<rparr>))
   })"

partial_function (option) slist_search_loop :: "sheap \<Rightarrow> ptr \<Rightarrow> cint \<Rightarrow> ptr option" where
  "slist_search_loop h cur key =
     (if cur = NULL then Some NULL
      else do {
        d \<leftarrow> rd h data cur;
        (if d = key then Some cur else do { nx \<leftarrow> rd h nxt cur; slist_search_loop h nx key })
      })"

definition slist_search_nl :: "slist_info \<Rightarrow> cint \<Rightarrow> ptr option" where
  "slist_search_nl info key =
     (if head_next info = NULL then Some NULL else slist_search_loop (smem info) (head_next info) key)"

partial_function (option) slist_del_nl_loop :: "sheap \<Rightarrow> ptr \<Rightarrow> ptr \<Rightarrow> sheap option" where
  "slist_del_nl_loop h cur key =
     (if cur = NULL then Some h
      else do {
        nx \<leftarrow> rd h nxt cur;
        (if nx \<noteq> key then slist_del_nl_loop h nx key
         else do {
           kn \<leftarrow> rd h nxt key;
           h \<leftarrow> wr h cur (\<lambda>n. n\<lparr>nxt := kn\<rparr>);
           wr h key (\<lambda>n. n\<lparr>nxt := NULL\<rparr>)
         })
      })"

definition slist_del_nl :: "slist_info \<Rightarrow> ptr \<Rightarrow> slist_info option" where
  "slist_del_nl info key = (if key = NULL then None
     else if head_next info = NULL then Some info
     else if head_next info = key then do {
       kn \<leftarrow> rd (smem info) nxt key;
       h \<leftarrow> wr (smem info) key (\<lambda>n. n\<lparr>nxt := key\<rparr>);
       Some (info\<lparr>head_next := kn, smem := h\<rparr>)
     } else do {
       h \<leftarrow> slist_del_nl_loop (smem info) (head_next info) key;
       Some (info\<lparr>smem := h\<rparr>)
     })"

definition slist_destroy_nl :: "slist_info \<Rightarrow> int \<times> slist_info" where
  "slist_destroy_nl info = (0, info)"

fun slist_fill_nl :: "slist_info \<Rightarrow> ptr list \<Rightarrow> slist_info option" where
  "slist_fill_nl info [] = Some info"
| "slist_fill_nl info (p # ps) = do { info \<leftarrow> slist_add_tail_nl info p; slist_fill_nl info ps }"

text \<open>\<open>main\<close> over the array of nodes \<open>ps\<close>: what the search prints (the data found) and the list.\<close>

definition slist_main_nl :: "slist_info \<Rightarrow> ptr list \<Rightarrow> (cint option \<times> cint list) option" where
  "slist_main_nl info ps = do {
     info \<leftarrow> slist_fill_nl (snd (slist_init_nl info)) ps;
     k \<leftarrow> slist_search_nl info 5;
     found \<leftarrow> (if k \<noteq> NULL then do { d \<leftarrow> rd (smem info) data k; Some (Some d) } else Some None);
     info \<leftarrow> slist_del_nl info k;
     out \<leftarrow> slist_for_each_nl info;
     Some (found, out)
   }"

text \<open>The third list: the state is the first pointer and the memory.\<close>

definition slist_add_nh :: "ptr \<times> sheap \<Rightarrow> ptr \<Rightarrow> (ptr \<times> sheap) option" where
  "slist_add_nh s node = (case s of (phead, h) \<Rightarrow>
     (if phead = NULL then do {
        h \<leftarrow> wr h node (\<lambda>n. n\<lparr>nxt := NULL\<rparr>);
        Some (node, h)
      } else do {
        h \<leftarrow> wr h node (\<lambda>n. n\<lparr>nxt := phead\<rparr>);
        Some (node, h)
      }))"

definition slist_for_each_nh :: "ptr \<times> sheap \<Rightarrow> cint list option" where
  "slist_for_each_nh s = slist_print (snd s) (fst s)"

fun slist_fill_nh :: "ptr \<times> sheap \<Rightarrow> ptr list \<Rightarrow> (ptr \<times> sheap) option" where
  "slist_fill_nh s [] = Some s"
| "slist_fill_nh s (p # ps) = do { s \<leftarrow> slist_add_nh s p; slist_fill_nh s ps }"

definition slist_main_nh :: "sheap \<Rightarrow> ptr list \<Rightarrow> cint list option" where
  "slist_main_nh h ps = do { s \<leftarrow> slist_fill_nh (NULL, h) ps; slist_for_each_nh s }"

subsection \<open>The lists as paths to NULL\<close>

definition nl_inv :: "sheap \<Rightarrow> ptr \<Rightarrow> ptr list \<Rightarrow> cint list \<Rightarrow> bool" where
  "nl_inv h p ps ds \<longleftrightarrow> npath (fld h nxt) p ps NULL \<and> map (fld h data) ps = map Some ds"

lemma nl_inv_Nil [simp]: "nl_inv h p [] ds \<longleftrightarrow> p = NULL \<and> ds = []"
  by (auto simp: nl_inv_def)

lemma nl_inv_Cons:
  "nl_inv h p (q # ps) ds \<longleftrightarrow> p = q \<and> q \<noteq> NULL \<and> (\<exists>d es nx. ds = d # es \<and> fld h data q = Some d
     \<and> fld h nxt q = Some nx \<and> nl_inv h nx ps es)"
  by (cases ds) (auto simp: nl_inv_def npath.simps(2) split: option.splits)

lemma nl_inv_distinct: "nl_inv h p ps ds \<Longrightarrow> distinct ps \<and> NULL \<notin> set ps \<and> length ps = length ds"
  using npath_NULL_distinct npath_nonnull by (fastforce simp: nl_inv_def dest: map_eq_imp_length_eq)

lemma nl_inv_frame:
  assumes "nl_inv h p ps ds" and "\<And>q. q \<in> set ps \<Longrightarrow> fld h' nxt q = fld h nxt q \<and> fld h' data q = fld h data q"
  shows "nl_inv h' p ps ds"
proof -
  have "map (fld h' data) ps = map (fld h data) ps" using assms(2) by simp
  moreover have "npath (fld h' nxt) p ps NULL = npath (fld h nxt) p ps NULL"
    by (rule npath_frame) (use assms(2) in simp)
  ultimately show ?thesis using assms(1) by (simp only: nl_inv_def)
qed

lemma nl_inv_live: "nl_inv h p ps ds \<Longrightarrow> q \<in> set ps \<Longrightarrow> live h q"
  by (induction ps arbitrary: p ds) (auto simp: nl_inv_Cons intro: liveI)

lemma slist_print_inv: "nl_inv h p ps ds \<Longrightarrow> slist_print h p = Some ds"
proof (induction ps arbitrary: p ds)
  case Nil
  then show ?case by (subst slist_print.simps) simp
next
  case (Cons q ps)
  then obtain d es nx where c: "p = q" "q \<noteq> NULL" "ds = d # es" "fld h data q = Some d" "fld h nxt q = Some nx"
    "nl_inv h nx ps es" by (auto simp: nl_inv_Cons)
  then show ?case using Cons.IH[OF c(6)] by (subst slist_print.simps) (simp add: rd_def)
qed

lemma slist_last_inv: "nl_inv h p ps ds \<Longrightarrow> slist_last h p = Some (if ps = [] then NULL else last ps)"
proof (induction ps arbitrary: p ds)
  case Nil
  then show ?case by (subst slist_last.simps) simp
next
  case (Cons q ps)
  then obtain d es nx where c: "p = q" "q \<noteq> NULL" "fld h nxt q = Some nx" "nl_inv h nx ps es"
    by (auto simp: nl_inv_Cons)
  moreover have "nx = NULL \<longleftrightarrow> ps = []" using c(4) by (cases ps) (auto simp: nl_inv_Cons)
  ultimately show ?case using Cons.IH[OF c(4)] by (subst slist_last.simps) (simp add: rd_def)
qed

lemma slist_search_loop_inv: "nl_inv h p ps ds \<Longrightarrow> slist_search_loop h p key =
    Some (case filter (\<lambda>(q, d). d = key) (zip ps ds) of [] \<Rightarrow> NULL | (q, d) # _ \<Rightarrow> q)"
proof (induction ps arbitrary: p ds)
  case Nil
  then show ?case by (subst slist_search_loop.simps) simp
next
  case (Cons q ps)
  then obtain d es nx where c: "p = q" "q \<noteq> NULL" "ds = d # es" "fld h data q = Some d" "fld h nxt q = Some nx"
    "nl_inv h nx ps es" by (auto simp: nl_inv_Cons)
  then show ?case using Cons.IH[OF c(6)] by (subst slist_search_loop.simps) (simp add: rd_def)
qed

abbreviation list_nl :: "slist_info \<Rightarrow> ptr list \<Rightarrow> cint list \<Rightarrow> bool" where
  "list_nl info ps ds \<equiv> nl_inv (smem info) (head_next info) ps ds"

lemma slist_search_nl_inv: "list_nl info ps ds \<Longrightarrow> slist_search_nl info key =
    Some (case filter (\<lambda>(q, d). d = key) (zip ps ds) of [] \<Rightarrow> NULL | (q, d) # _ \<Rightarrow> q)"
  using slist_search_loop_inv[of "smem info" "head_next info" ps ds key]
  by (auto simp: slist_search_nl_def slist_search_loop.simps[of _ NULL])

lemma nl_inv_upd_other:
  assumes "nl_inv h p ps ds" and "q \<notin> set ps"
  shows "nl_inv (upd h q (\<lambda>n. n\<lparr>nxt := v\<rparr>)) p ps ds"
  by (rule nl_inv_frame[OF assms(1)]) (use assms(2) in \<open>auto simp: upd_def fld_def\<close>)

lemma slist_add_nl_inv:
  assumes "list_nl info ps ds" and "live (smem info) q" "q \<notin> set ps" "fld (smem info) data q = Some d"
  shows "\<exists>info'. slist_add_nl info q = Some info' \<and> list_nl info' (q # ps) (d # ds)"
  using assms live_nonnull[OF assms(2)] nl_inv_upd_other[OF assms(1,3), of "head_next info"]
  by (auto simp: slist_add_nl_def nl_inv_Cons heap_simps)

lemma nl_inv_snoc:
  "nl_inv h p (ps @ [q]) (ds @ [d]) \<longleftrightarrow> npath (fld h nxt) p ps q \<and> map (fld h data) ps = map Some ds
     \<and> q \<noteq> NULL \<and> fld h nxt q = Some NULL \<and> fld h data q = Some d" if "length ps = length ds"
  using that by (auto simp: nl_inv_def npath_snoc)

lemma slist_add_tail_nl_inv:
  assumes inv: "list_nl info ps ds" and q: "live (smem info) q" "q \<notin> set ps" "fld (smem info) data q = Some d"
  shows "\<exists>info'. slist_add_tail_nl info q = Some info' \<and> list_nl info' (ps @ [q]) (ds @ [d])
    \<and> fld (smem info') data = fld (smem info) data \<and> (\<forall>p. live (smem info') p = live (smem info) p)"
proof (cases ps rule: rev_cases)
  case Nil
  then show ?thesis
    using inv q live_nonnull[OF q(1)] slist_last_inv[OF inv]
    by (auto simp: slist_add_tail_nl_def nl_inv_Cons heap_simps)
next
  case (snoc us l)
  then obtain es e where ds: "ds = es @ [e]"
    using nl_inv_distinct[OF inv] by (cases ds rule: rev_cases) auto
  let ?h1 = "upd (smem info) q (\<lambda>n. n\<lparr>nxt := NULL\<rparr>)"
  let ?h2 = "upd ?h1 l (\<lambda>n. n\<lparr>nxt := q\<rparr>)"
  have l: "live (smem info) l" "l \<noteq> NULL" "l \<notin> set us" "l \<noteq> q" "length us = length es" "q \<notin> set us"
    using nl_inv_live[OF inv, of l] nl_inv_distinct[OF inv] q(2) snoc ds live_nonnull by auto
  have i: "npath (fld (smem info) nxt) (head_next info) us l" "map (fld (smem info) data) us = map Some es"
    "fld (smem info) data l = Some e"
    using inv l(5) unfolding snoc ds by (simp_all add: nl_inv_snoc)
  have "slist_add_tail_nl info q = Some (info\<lparr>smem := ?h2\<rparr>)"
    using q l live_nonnull[OF q(1)] slist_last_inv[OF inv] snoc by (simp add: slist_add_tail_nl_def heap_simps)
  moreover have N: "fld ?h2 nxt = (fld (smem info) nxt)(q := Some NULL, l := Some q)"
    "fld ?h2 data = fld (smem info) data"
    using q(1) l(1) by (simp_all add: heap_simps)
  moreover have "nl_inv ?h2 (head_next info) ((us @ [l]) @ [q]) ((es @ [e]) @ [d])"
    using i l q live_nonnull[OF q(1)] by (subst nl_inv_snoc) (simp_all add: N npath_snoc)
  ultimately show ?thesis by (simp add: snoc ds heap_simps)
qed

lemma slist_fill_nl_inv:
  assumes "list_nl info ps ds" and "distinct qs" "set qs \<inter> set ps = {}"
    and "\<forall>q \<in> set qs. live (smem info) q" and "map (fld (smem info) data) qs = map Some es"
  shows "\<exists>info'. slist_fill_nl info qs = Some info' \<and> list_nl info' (ps @ qs) (ds @ es)"
  using assms
proof (induction qs arbitrary: info ps ds es)
  case Nil
  then show ?case by simp
next
  case (Cons q qs)
  then obtain d fs where es: "es = d # fs" by (cases es) auto
  obtain info1 where 1: "slist_add_tail_nl info q = Some info1" "list_nl info1 (ps @ [q]) (ds @ [d])"
    "fld (smem info1) data = fld (smem info) data" "\<forall>p. live (smem info1) p = live (smem info) p"
    using slist_add_tail_nl_inv[OF Cons.prems(1), of q d] Cons.prems es by auto
  have "\<exists>info'. slist_fill_nl info1 qs = Some info' \<and> list_nl info' ((ps @ [q]) @ qs) ((ds @ [d]) @ fs)"
    by (rule Cons.IH[OF 1(2)]) (use Cons.prems es 1 in auto)
  then show ?case using 1(1) es by auto
qed

subsection \<open>Deletion\<close>

lemma slist_del_nl_loop_inv:
  "nl_inv h p (us @ l # key # vs) (es @ e # d # fs) \<Longrightarrow> length us = length es \<Longrightarrow>
     slist_del_nl_loop h p key = Some (upd (upd h l (\<lambda>n. n\<lparr>nxt := hd (vs @ [NULL])\<rparr>)) key (\<lambda>n. n\<lparr>nxt := NULL\<rparr>))"
proof (induction us arbitrary: p es)
  case Nil
  then have c: "p = l" "l \<noteq> NULL" "fld h nxt l = Some key" "nl_inv h key (key # vs) (d # fs)"
    by (auto simp: nl_inv_Cons)
  moreover from c(4) have "fld h nxt key = Some (hd (vs @ [NULL]))"
    by (cases vs) (auto simp: nl_inv_Cons)
  moreover have "live h l" "live h key" using Nil nl_inv_live by fastforce+
  ultimately show ?case by (subst slist_del_nl_loop.simps) (simp add: heap_simps)
next
  case (Cons u us)
  then obtain d' es' where es: "es = d' # es'" by (cases es) auto
  obtain nx where c: "p = u" "u \<noteq> NULL" "fld h nxt u = Some nx" "nl_inv h nx (us @ l # key # vs) (es' @ e # d # fs)"
    using Cons.prems(1) es by (auto simp: nl_inv_Cons)
  have "nx = hd (us @ l # key # vs)" using c(4) by (cases us) (auto simp: nl_inv_Cons)
  moreover have "distinct (us @ l # key # vs)" using nl_inv_distinct[OF c(4)] by simp
  ultimately have "nx \<noteq> key" by (cases us) auto
  then show ?case
    using Cons.IH[OF c(4)] Cons.prems(2) es c by (subst slist_del_nl_loop.simps) (simp add: rd_def)
qed

lemma slist_del_nl_loop_missing:
  "nl_inv h p ps ds \<Longrightarrow> key \<noteq> NULL \<Longrightarrow> key \<notin> set (tl ps) \<Longrightarrow> slist_del_nl_loop h p key = Some h"
proof (induction ps arbitrary: p ds)
  case Nil
  then show ?case by (subst slist_del_nl_loop.simps) simp
next
  case (Cons q ps)
  then obtain d es nx where c: "p = q" "q \<noteq> NULL" "fld h nxt q = Some nx" "nl_inv h nx ps es"
    by (auto simp: nl_inv_Cons)
  have "nx \<noteq> key" using c(4) Cons.prems(2,3) by (cases ps) (auto simp: nl_inv_Cons)
  moreover have "key \<notin> set (tl ps)" using Cons.prems(3) by (cases ps) auto
  ultimately show ?case
    using Cons.IH[OF c(4)] Cons.prems(2) c by (subst slist_del_nl_loop.simps) (simp add: rd_def)
qed

lemma slist_del_nl_inv:
  assumes inv: "list_nl info (us @ key # vs) (es @ d # fs)" and len: "length us = length es"
  shows "\<exists>info'. slist_del_nl info key = Some info' \<and> list_nl info' (us @ vs) (es @ fs)"
proof -
  have dist: "distinct (us @ key # vs)" "NULL \<notin> set (us @ key # vs)" using nl_inv_distinct[OF inv] by auto
  then have key: "key \<noteq> NULL" "head_next info \<noteq> NULL" "live (smem info) key"
    using inv nl_inv_live[OF inv, of key] by (auto, cases us) (auto simp: nl_inv_Cons)
  show ?thesis
  proof (cases us rule: rev_cases)
    case Nil
    then have "es = []" using len by simp
    then obtain nx where c: "head_next info = key" "fld (smem info) nxt key = Some nx" "nl_inv (smem info) nx vs fs"
      using inv Nil by (auto simp: nl_inv_Cons)
    then show ?thesis
      using key dist nl_inv_upd_other[OF c(3), of key key] Nil \<open>es = []\<close>
      by (auto simp: slist_del_nl_def heap_simps)
  next
    case (snoc ws l)
    then obtain gs e where es: "es = gs @ [e]" using len by (cases es rule: rev_cases) auto
    let ?h1 = "upd (smem info) l (\<lambda>n. n\<lparr>nxt := hd (vs @ [NULL])\<rparr>)"
    let ?h2 = "upd ?h1 key (\<lambda>n. n\<lparr>nxt := NULL\<rparr>)"
    have loop: "slist_del_nl_loop (smem info) (head_next info) key = Some ?h2"
      using slist_del_nl_loop_inv[of "smem info" "head_next info" ws l key vs gs e d fs] inv len snoc es by simp
    have ne: "head_next info \<noteq> key"
      using inv dist snoc by (cases ws) (auto simp: nl_inv_Cons)
    have lv: "live (smem info) l" using nl_inv_live[OF inv, of l] snoc by simp
    have N: "fld ?h2 nxt = (fld (smem info) nxt)(l := Some (hd (vs @ [NULL])), key := Some NULL)"
      "fld ?h2 data = fld (smem info) data"
      using lv key(3) by (simp_all add: heap_simps)
    have p: "npath (fld (smem info) nxt) (head_next info) ((ws @ [l]) @ (key # vs)) NULL"
      "map (fld (smem info) data) (us @ key # vs) = map Some (es @ d # fs)"
      using inv snoc by (simp_all add: nl_inv_def)
    then obtain r where r: "npath (fld (smem info) nxt) (head_next info) (ws @ [l]) r"
      "npath (fld (smem info) nxt) r (key # vs) NULL"
      by (subst (asm) npath_append) blast
    have "npath (fld (smem info) nxt) (hd (vs @ [NULL])) vs NULL"
      using r(2) by (auto simp: npath.simps(2) dest: npath_start split: option.splits)
    then have "npath (fld ?h2 nxt) (hd (vs @ [NULL])) vs NULL"
      using dist snoc unfolding N by (subst npath_frame[of vs _ "fld (smem info) nxt"]) auto
    moreover have "npath (fld ?h2 nxt) (head_next info) (ws @ [l]) (hd (vs @ [NULL]))"
    proof -
      have "npath ((fld (smem info) nxt)(l := Some (hd (vs @ [NULL])))) (head_next info) (ws @ [l]) (hd (vs @ [NULL]))"
        by (rule npath_redirect[OF r(1)]) (use dist snoc in auto)
      then show ?thesis unfolding N using dist snoc by (subst npath_upd) auto
    qed
    ultimately have "npath (fld ?h2 nxt) (head_next info) (us @ vs) NULL"
      unfolding snoc by (subst npath_append) blast
    moreover have "map (fld (smem info) data) (us @ vs) = map Some (es @ fs)"
      using p(2) len by (simp add: append_eq_append_conv)
    ultimately have "nl_inv ?h2 (head_next info) (us @ vs) (es @ fs)" by (simp only: nl_inv_def N(2))
    then show ?thesis using key loop ne by (auto simp: slist_del_nl_def)
  qed
qed

lemma slist_del_nl_missing:
  assumes "list_nl info ps ds" and "key \<noteq> NULL" and "key \<notin> set ps"
  shows "slist_del_nl info key = Some info"
proof -
  have "head_next info \<noteq> key" using assms by (cases ps) (auto simp: nl_inv_Cons)
  moreover have "key \<notin> set (tl ps)" using assms(3) by (cases ps) auto
  ultimately show ?thesis
    using slist_del_nl_loop_missing[OF assms(1,2)] assms(2) by (simp add: slist_del_nl_def)
qed

subsection \<open>The demo programs\<close>

lemma slist_main_nl_spec:
  assumes "distinct ps" and "\<forall>p \<in> set ps. live (smem info) p"
    and "map (fld (smem info) data) ps = map Some [1, 2, 3, 4, 5, 6, 7, 8]"
  shows "slist_main_nl info ps = Some (Some 5, [1, 2, 3, 4, 6, 7, 8])"
proof -
  have "length ps = 8" using arg_cong[OF assms(3), of length] by simp
  then obtain p1 p2 p3 p4 p5 p6 p7 p8 where ps: "ps = [p1, p2, p3, p4, p5, p6, p7, p8]"
    by (auto simp: eval_nat_numeral length_Suc_conv)
  let ?i0 = "snd (slist_init_nl info)"
  have i0: "list_nl ?i0 [] []" "smem ?i0 = smem info" by (simp_all add: slist_init_nl_def)
  have "\<exists>i1. slist_fill_nl ?i0 ps = Some i1 \<and> list_nl i1 ([] @ ps) ([] @ [1, 2, 3, 4, 5, 6, 7, 8])"
    by (rule slist_fill_nl_inv[OF i0(1)]) (use assms i0(2) in simp_all)
  then obtain i1 where i1: "slist_fill_nl ?i0 ps = Some i1" "list_nl i1 ps [1, 2, 3, 4, 5, 6, 7, 8]" by auto
  have s: "slist_search_nl i1 5 = Some p5"
    using slist_search_nl_inv[OF i1(2), of 5] by (simp add: ps)
  have "list_nl i1 ([p1, p2, p3, p4] @ p5 # [p6, p7, p8]) ([1, 2, 3, 4] @ 5 # [6, 7, 8])" using i1(2) by (simp add: ps)
  from slist_del_nl_inv[OF this] obtain i2 where
    i2: "slist_del_nl i1 p5 = Some i2" "list_nl i2 [p1, p2, p3, p4, p6, p7, p8] [1, 2, 3, 4, 6, 7, 8]" by auto
  have "live (smem i1) p5" "fld (smem i1) data p5 = Some 5"
    using nl_inv_live[OF i1(2), of p5] i1(2) by (simp_all add: ps nl_inv_def)
  then have "rd (smem i1) data p5 = Some 5" "p5 \<noteq> NULL" by (auto simp: live_rd live_def)
  then show ?thesis
    using i1(1) s i2(1) slist_print_inv[OF i2(2)] by (simp add: slist_main_nl_def slist_for_each_nl_def)
qed

lemma slist_add_nh_inv:
  assumes "nl_inv h p ps ds" and "live h q" "q \<notin> set ps" "fld h data q = Some d"
  shows "\<exists>h'. slist_add_nh (p, h) q = Some (q, h') \<and> nl_inv h' q (q # ps) (d # ds)
    \<and> fld h' data = fld h data \<and> (\<forall>x. live h' x = live h x)"
  using assms live_nonnull[OF assms(2)] nl_inv_upd_other[OF assms(1,3), of p]
  by (auto simp: slist_add_nh_def nl_inv_Cons heap_simps)

text \<open>Without a head node insertion is at the front: the list is printed in reverse.\<close>

lemma slist_fill_nh_inv:
  assumes "nl_inv h p ps ds" and "distinct qs" "set qs \<inter> set ps = {}" "\<forall>q \<in> set qs. live h q"
    and "map (fld h data) qs = map Some es"
  shows "\<exists>p' h'. slist_fill_nh (p, h) qs = Some (p', h') \<and> nl_inv h' p' (rev qs @ ps) (rev es @ ds)"
  using assms
proof (induction qs arbitrary: h p ps ds es)
  case Nil
  then show ?case by simp
next
  case (Cons q qs)
  then obtain d fs where es: "es = d # fs" by (cases es) auto
  obtain h1 where 1: "slist_add_nh (p, h) q = Some (q, h1)" "nl_inv h1 q (q # ps) (d # ds)"
    "fld h1 data = fld h data" "\<forall>x. live h1 x = live h x"
    using slist_add_nh_inv[OF Cons.prems(1), of q d] Cons.prems es by auto
  have "\<exists>p' h'. slist_fill_nh (q, h1) qs = Some (p', h') \<and> nl_inv h' p' (rev qs @ q # ps) (rev fs @ d # ds)"
    by (rule Cons.IH[OF 1(2)]) (use Cons.prems es 1 in auto)
  then show ?case using 1(1) es by simp
qed

lemma slist_main_nh_spec:
  assumes "distinct ps" and "\<forall>p \<in> set ps. live h p" and "map (fld h data) ps = map Some ds"
  shows "slist_main_nh h ps = Some (rev ds)"
  using slist_fill_nh_inv[of h NULL "[]" "[]" ps ds] assms slist_print_inv
  by (fastforce simp: slist_main_nh_def slist_for_each_nh_def)

end
