(* ===== verification/KernelList.thy ===== *)
theory KernelList
  imports Links
begin

section \<open>The intrusive circular list (04Kernel_list/list.h)\<close>

text \<open>
  \<open>struct list_head\<close> is embedded in the structs of the clients and \<open>container_of\<close> goes from the
  embedded links back to the enclosing struct. Here a client struct is a record that extends
  \<open>list_head\<close> with its own fields, every operation works on any extension, and the record's
  \<open>more\<close> part stands for the enclosing struct, which no list operation may touch.

  The inline functions are definitions with the field writes in the order of the header; each
  iteration macro is the sequence of nodes its loop variable goes through.
\<close>

record list_head =
  prev :: ptr
  nxt :: ptr

definition list_head_init :: "'z list_head_scheme heap \<Rightarrow> ptr \<Rightarrow> 'z list_head_scheme heap option" where
  "list_head_init h node = do {
     h \<leftarrow> wr h node (\<lambda>n. n\<lparr>nxt := node\<rparr>);
     wr h node (\<lambda>n. n\<lparr>prev := node\<rparr>)
   }"

definition list_add_between ::
    "'z list_head_scheme heap \<Rightarrow> ptr \<Rightarrow> ptr \<Rightarrow> ptr \<Rightarrow> 'z list_head_scheme heap option" where
  "list_add_between h node Prev Next = do {
     h \<leftarrow> wr h node (\<lambda>n. n\<lparr>nxt := Next\<rparr>);
     h \<leftarrow> wr h node (\<lambda>n. n\<lparr>prev := Prev\<rparr>);
     h \<leftarrow> wr h Next (\<lambda>n. n\<lparr>prev := node\<rparr>);
     wr h Prev (\<lambda>n. n\<lparr>nxt := node\<rparr>)
   }"

definition list_add ::
    "'z list_head_scheme heap \<Rightarrow> ptr \<Rightarrow> ptr \<Rightarrow> 'z list_head_scheme heap option" where
  "list_add h head node = do { nx \<leftarrow> rd h nxt head; list_add_between h node head nx }"

definition list_add_tail ::
    "'z list_head_scheme heap \<Rightarrow> ptr \<Rightarrow> ptr \<Rightarrow> 'z list_head_scheme heap option" where
  "list_add_tail h head node = do { pr \<leftarrow> rd h prev head; list_add_between h node pr head }"

definition list_is_empty :: "'z list_head_scheme heap \<Rightarrow> ptr \<Rightarrow> bool option" where
  "list_is_empty h head = do {
     nx \<leftarrow> rd h nxt head;
     (if nx = head then do { pr \<leftarrow> rd h prev head; Some (pr = head) } else Some False)
   }"

definition list_del :: "'z list_head_scheme heap \<Rightarrow> ptr \<Rightarrow> 'z list_head_scheme heap option" where
  "list_del h node = do {
     pr \<leftarrow> rd h prev node;
     nx \<leftarrow> rd h nxt node;
     h \<leftarrow> wr h pr (\<lambda>n. n\<lparr>nxt := nx\<rparr>);
     nx' \<leftarrow> rd h nxt node;
     pr' \<leftarrow> rd h prev node;
     wr h nx' (\<lambda>n. n\<lparr>prev := pr'\<rparr>)
   }"

definition list_del_init :: "'z list_head_scheme heap \<Rightarrow> ptr \<Rightarrow> 'z list_head_scheme heap option" where
  "list_del_init h node = do {
     h \<leftarrow> list_del h node;
     h \<leftarrow> wr h node (\<lambda>n. n\<lparr>nxt := node\<rparr>);
     wr h node (\<lambda>n. n\<lparr>prev := node\<rparr>)
   }"

text \<open>\<open>list_for_each_from(cur, head)\<close>: the nodes visited from \<open>cur\<close> on.\<close>

partial_function (option) list_for_each_from ::
    "'z list_head_scheme heap \<Rightarrow> ptr \<Rightarrow> ptr \<Rightarrow> ptr list option" where
  "list_for_each_from h cur head =
     (if cur = head then Some []
      else do {
        nx \<leftarrow> rd h nxt cur;
        vs \<leftarrow> list_for_each_from h nx head;
        Some (cur # vs)
      })"

definition list_for_each :: "'z list_head_scheme heap \<Rightarrow> ptr \<Rightarrow> ptr list option" where
  "list_for_each h head = do { cur \<leftarrow> rd h nxt head; list_for_each_from h cur head }"

definition list_for_each_continue ::
    "'z list_head_scheme heap \<Rightarrow> ptr \<Rightarrow> ptr \<Rightarrow> ptr list option" where
  "list_for_each_continue h cur head = do { cur \<leftarrow> rd h nxt cur; list_for_each_from h cur head }"

partial_function (option) list_for_each_back ::
    "'z list_head_scheme heap \<Rightarrow> ptr \<Rightarrow> ptr \<Rightarrow> ptr list option" where
  "list_for_each_back h cur head =
     (if cur = head then Some []
      else do {
        pr \<leftarrow> rd h prev cur;
        vs \<leftarrow> list_for_each_back h pr head;
        Some (cur # vs)
      })"

definition list_for_each_reverse :: "'z list_head_scheme heap \<Rightarrow> ptr \<Rightarrow> ptr list option" where
  "list_for_each_reverse h head = do { cur \<leftarrow> rd h prev head; list_for_each_back h cur head }"

text \<open>
  \<open>list_for_each_safe\<close> has the loop condition \<open>Next = (cur)->next && cur != (head)\<close>. Assignment binds
  weaker than the conjunction, so \<open>Next\<close> receives the truth value 0 or 1, and the step
  \<open>cur = Next\<close> continues at address 1.
\<close>

partial_function (option) list_for_each_safe_from ::
    "'z list_head_scheme heap \<Rightarrow> ptr \<Rightarrow> ptr \<Rightarrow> ptr list option" where
  "list_for_each_safe_from h cur head = do {
     nx \<leftarrow> rd h nxt cur;
     let Next = (if nx \<noteq> NULL \<and> cur \<noteq> head then 1 else 0);
     (if Next = 0 then Some []
      else do {
        vs \<leftarrow> list_for_each_safe_from h Next head;
        Some (cur # vs)
      })
   }"

definition list_for_each_safe :: "'z list_head_scheme heap \<Rightarrow> ptr \<Rightarrow> ptr list option" where
  "list_for_each_safe h head = do { cur \<leftarrow> rd h nxt head; list_for_each_safe_from h cur head }"

subsection \<open>Rings of list heads\<close>

abbreviation ring :: "'z list_head_scheme heap \<Rightarrow> ptr \<Rightarrow> ptr list \<Rightarrow> bool" where
  "ring h head xs \<equiv> dring (fld h nxt) (fld h prev) head xs"

lemma ring_live: "ring h head xs \<Longrightarrow> x \<in> set (head # xs) \<Longrightarrow> live h x"
  using dring_live(1)[of "fld h nxt" "fld h prev" head xs x] dring_nonnull[of "fld h nxt" "fld h prev" head xs]
  by (metis liveI)

lemma ring_live_head: "ring h head xs \<Longrightarrow> live h head"
  by (rule ring_live) auto

lemma ring_live_around:
  assumes "ring h head (xs @ ys)"
  shows "live h (last (head # xs))" and "live h (hd (ys @ [head]))"
proof -
  show "live h (last (head # xs))"
    by (rule ring_live[OF assms]) (use last_Cons_in[of head xs] in auto)
  show "live h (hd (ys @ [head]))"
    by (rule ring_live[OF assms]) (use hd_snoc_in[of ys head] in auto)
qed

text \<open>
  What an operation does to the links is stated as the exact new link maps, so that other rings in
  the same heap are seen to be untouched; everything else in the structs (\<open>more\<close>) stays.
\<close>

definition links_to ::
    "'z list_head_scheme heap \<Rightarrow> 'z list_head_scheme heap \<Rightarrow>
     (ptr \<Rightarrow> ptr option) \<Rightarrow> (ptr \<Rightarrow> ptr option) \<Rightarrow> bool" where
  "links_to h h' N P \<longleftrightarrow> fld h' nxt = N \<and> fld h' prev = P
     \<and> fld h' more = fld h more \<and> avail h' = avail h \<and> (\<forall>q. live h' q = live h q)"

lemma links_to_more: "links_to h h' N P \<Longrightarrow> fld h' more = fld h more"
  by (simp add: links_to_def)

lemma links_to_live: "links_to h h' N P \<Longrightarrow> live h' q = live h q"
  by (simp add: links_to_def)

lemma fresh_avail_links: "fresh_avail h \<Longrightarrow> links_to h h' N P \<Longrightarrow> fresh_avail h'"
  unfolding fresh_avail_def links_to_def live_def by metis

lemma links_to_trans:
  "links_to h h1 N1 P1 \<Longrightarrow> links_to h1 h2 N P \<Longrightarrow> links_to h h2 N P"
  by (simp add: links_to_def)

lemma list_head_init_links:
  assumes "live h node"
  shows "\<exists>h'. list_head_init h node = Some h'
    \<and> links_to h h' ((fld h nxt)(node := Some node)) ((fld h prev)(node := Some node))"
  using assms by (simp add: list_head_init_def links_to_def heap_simps)

lemma list_add_between_links:
  assumes "live h node" and "live h Prev" and "live h Next" and "node \<noteq> Prev" and "node \<noteq> Next"
  shows "\<exists>h'. list_add_between h node Prev Next = Some h'
    \<and> links_to h h' ((fld h nxt)(node := Some Next, Prev := Some node))
        ((fld h prev)(node := Some Prev, Next := Some node))"
  using assms by (simp add: list_add_between_def links_to_def heap_simps)

lemma list_add_between_ring:
  assumes r: "ring h head (xs @ ys)" and n: "live h node" "node \<notin> set (head # xs @ ys)"
    and pr: "Prev = last (head # xs)" and nx: "Next = hd (ys @ [head])"
  shows "\<exists>h'. list_add_between h node Prev Next = Some h' \<and> ring h' head (xs @ node # ys)
    \<and> links_to h h' ((fld h nxt)(node := Some Next, Prev := Some node))
        ((fld h prev)(node := Some Prev, Next := Some node))"
proof -
  have "node \<noteq> Prev" "node \<noteq> Next"
    using n(2) last_Cons_in[of head xs] hd_snoc_in[of ys head] unfolding pr nx by auto
  with list_add_between_links[OF n(1), of Prev Next] ring_live_around[OF r] obtain h' where
    h': "list_add_between h node Prev Next = Some h'"
    "links_to h h' ((fld h nxt)(node := Some Next, Prev := Some node))
        ((fld h prev)(node := Some Prev, Next := Some node))"
    unfolding pr nx by auto
  moreover have "ring h' head (xs @ node # ys)"
    using dring_insert[OF r n(2) live_nonnull[OF n(1)] pr nx] h'(2) by (simp add: links_to_def)
  ultimately show ?thesis by blast
qed

lemma list_add_ring:
  assumes r: "ring h head xs" and n: "live h node" "node \<notin> set (head # xs)"
  shows "\<exists>h'. list_add h head node = Some h' \<and> ring h' head (node # xs)
    \<and> links_to h h' ((fld h nxt)(node := Some (hd (xs @ [head])), head := Some node))
        ((fld h prev)(node := Some head, hd (xs @ [head]) := Some node))"
  using list_add_between_ring[of h head "[]" xs node head "hd (xs @ [head])"] r n
    dring_next_head[OF r] ring_live_head[OF r]
  by (simp add: list_add_def heap_simps)

lemma list_add_tail_ring:
  assumes r: "ring h head xs" and n: "live h node" "node \<notin> set (head # xs)"
  shows "\<exists>h'. list_add_tail h head node = Some h' \<and> ring h' head (xs @ [node])
    \<and> links_to h h' ((fld h nxt)(node := Some head, last (head # xs) := Some node))
        ((fld h prev)(node := Some (last (head # xs)), head := Some node))"
  using list_add_between_ring[of h head xs "[]" node "last (head # xs)" head] r n
    dring_prev_head[OF r] ring_live_head[OF r]
  by (simp del: last.simps add: list_add_tail_def heap_simps)

lemma list_is_empty_ring:
  assumes r: "ring h head xs"
  shows "list_is_empty h head = Some (xs = [])"
  using dring_next_head[OF r] dring_prev_head[OF r] dring_distinct[OF r] ring_live_head[OF r]
  by (cases xs) (auto simp: list_is_empty_def live_rd)

lemma list_del_links:
  assumes "live h node" and "live h pr" and "live h nx" and "pr \<noteq> node" and "nx \<noteq> node"
    and "fld h nxt node = Some nx" and "fld h prev node = Some pr"
  shows "\<exists>h'. list_del h node = Some h'
    \<and> links_to h h' ((fld h nxt)(pr := Some nx)) ((fld h prev)(nx := Some pr))"
proof -
  let ?h1 = "upd h pr (\<lambda>n. n\<lparr>nxt := nx\<rparr>)"
  have "fld ?h1 nxt node = Some nx" "fld ?h1 prev node = Some pr"
    using assms by (simp_all add: heap_simps)
  then have "list_del h node = Some (upd ?h1 nx (\<lambda>n. n\<lparr>prev := pr\<rparr>))"
    using assms by (simp add: list_del_def heap_simps)
  then show ?thesis using assms by (simp add: links_to_def heap_simps)
qed

lemma list_del_ring:
  assumes r: "ring h head (xs @ node # ys)"
  shows "\<exists>h'. list_del h node = Some h' \<and> ring h' head (xs @ ys)
    \<and> links_to h h' ((fld h nxt)(last (head # xs) := Some (hd (ys @ [head]))))
        ((fld h prev)(hd (ys @ [head]) := Some (last (head # xs))))"
proof -
  have d: "distinct (head # xs @ node # ys)" by (rule dring_distinct[OF r])
  then have ne: "last (head # xs) \<noteq> node" "hd (ys @ [head]) \<noteq> node"
    using last_Cons_in[of head xs] hd_snoc_in[of ys head] by auto
  have lv: "live h (last (head # xs))" "live h (hd (ys @ [head]))" "live h node"
    using ring_live_around[of h head "xs @ [node]" ys] ring_live_around[of h head xs "node # ys"] r by auto
  have f: "fld h nxt node = Some (hd (ys @ [head]))" "fld h prev node = Some (last (head # xs))"
    using dring_next[OF r] dring_prev[OF r] .
  from list_del_links[OF lv(3,1,2) ne f]
  obtain h' where h': "list_del h node = Some h'"
    "links_to h h' ((fld h nxt)(last (head # xs) := Some (hd (ys @ [head]))))
        ((fld h prev)(hd (ys @ [head]) := Some (last (head # xs))))" by blast
  moreover have "ring h' head (xs @ ys)"
    using dring_remove[OF r refl refl] h'(2) by (simp del: last.simps add: links_to_def)
  ultimately show ?thesis by blast
qed

lemma list_del_init_ring:
  assumes r: "ring h head (xs @ node # ys)"
  shows "\<exists>h'. list_del_init h node = Some h' \<and> ring h' head (xs @ ys) \<and> ring h' node []
    \<and> links_to h h' ((fld h nxt)(last (head # xs) := Some (hd (ys @ [head])), node := Some node))
        ((fld h prev)(hd (ys @ [head]) := Some (last (head # xs)), node := Some node))"
proof -
  have d: "distinct (head # xs @ node # ys)" by (rule dring_distinct[OF r])
  have lv: "live h node" by (rule ring_live[OF r]) simp
  obtain h1 where h1: "list_del h node = Some h1" "ring h1 head (xs @ ys)"
    "links_to h h1 ((fld h nxt)(last (head # xs) := Some (hd (ys @ [head]))))
        ((fld h prev)(hd (ys @ [head]) := Some (last (head # xs))))"
    using list_del_ring[OF r] by blast
  let ?h' = "upd (upd h1 node (\<lambda>n. n\<lparr>nxt := node\<rparr>)) node (\<lambda>n. n\<lparr>prev := node\<rparr>)"
  have lv1: "live h1 node" using lv h1(3) by (simp add: links_to_def)
  then have "list_del_init h node = Some ?h'" using h1(1) by (simp add: list_del_init_def heap_simps)
  moreover have eq: "fld ?h' nxt = (fld h1 nxt)(node := Some node)"
    "fld ?h' prev = (fld h1 prev)(node := Some node)"
    using lv1 by (simp_all add: heap_simps)
  moreover have "ring ?h' head (xs @ ys) = ring h1 head (xs @ ys)"
    unfolding eq by (rule dring_frame) (use d in auto)
  moreover have "ring ?h' node []"
    using live_nonnull[OF lv] unfolding eq by simp
  ultimately show ?thesis using h1(2,3) lv1
    by (intro exI[of _ ?h']) (simp del: last.simps add: links_to_def heap_simps)
qed

subsection \<open>Iteration\<close>

lemma list_for_each_from_path:
  "npath (fld h nxt) cur xs head \<Longrightarrow> head \<notin> set xs \<Longrightarrow> list_for_each_from h cur head = Some xs"
proof (induction xs arbitrary: cur)
  case Nil
  then show ?case by (subst list_for_each_from.simps) simp
next
  case (Cons x xs)
  then obtain y where "cur = x" "x \<noteq> NULL" "fld h nxt x = Some y" "npath (fld h nxt) y xs head"
    by (auto simp: npath.simps(2) split: option.splits)
  with Cons show ?case by (subst list_for_each_from.simps) (simp add: rd_def)
qed

lemma list_for_each_back_path:
  "npath (fld h prev) cur xs head \<Longrightarrow> head \<notin> set xs \<Longrightarrow> list_for_each_back h cur head = Some xs"
proof (induction xs arbitrary: cur)
  case Nil
  then show ?case by (subst list_for_each_back.simps) simp
next
  case (Cons x xs)
  then obtain y where "cur = x" "x \<noteq> NULL" "fld h prev x = Some y" "npath (fld h prev) y xs head"
    by (auto simp: npath.simps(2) split: option.splits)
  with Cons show ?case by (subst list_for_each_back.simps) (simp add: rd_def)
qed

lemma ring_path:
  assumes "ring h head (xs @ ys)"
  shows "npath (fld h nxt) (hd (ys @ [head])) ys head"
    and "npath (fld h prev) (last (head # xs)) (rev xs) head"
  using assms npath_tail[of "fld h nxt" head "head # xs" ys head]
    npath_tail[of "fld h prev" head "head # rev ys" "rev xs" head]
  by (simp_all del: last.simps add: dring_def sring_def hd_rev_snoc)

lemma list_for_each_ring:
  assumes r: "ring h head xs"
  shows "list_for_each h head = Some xs"
  using list_for_each_from_path[of h "hd (xs @ [head])" xs head] ring_path(1)[of h head "[]" xs] r
    dring_next_head[OF r] dring_distinct[OF r] ring_live_head[OF r]
  by (simp add: list_for_each_def live_rd)

lemma list_for_each_reverse_ring:
  assumes r: "ring h head xs"
  shows "list_for_each_reverse h head = Some (rev xs)"
  using list_for_each_back_path[of h "last (head # xs)" "rev xs" head] ring_path(2)[of h head xs "[]"] r
    dring_prev_head[OF r] dring_distinct[OF r] ring_live_head[OF r]
  by (simp del: last.simps add: list_for_each_reverse_def live_rd)

lemma list_for_each_continue_ring:
  assumes r: "ring h head (xs @ x # ys)"
  shows "list_for_each_continue h x head = Some ys"
  using ring_path(1)[of h head "xs @ [x]" ys] dring_next[OF r] ring_live[OF r, of x]
    dring_distinct[OF r] r
  by (simp add: list_for_each_continue_def heap_simps list_for_each_from_path)

text \<open>The misplaced precedence makes the "safe" iteration leave any non-empty list.\<close>

lemma list_for_each_safe_faults:
  assumes r: "ring h head xs" and "xs \<noteq> []" and "\<not> live h 1"
  shows "list_for_each_safe h head = None"
proof -
  obtain x ys where xs: "xs = x # ys" using assms(2) by (cases xs) auto
  have x: "live h x" "x \<noteq> head" "fld h nxt head = Some x" "live h head"
    using ring_live[OF r] dring_distinct[OF r] dring_next_head[OF r] xs by auto
  have nx: "fld h nxt x = Some (hd (ys @ [head]))" "hd (ys @ [head]) \<noteq> NULL"
    using dring_next[of "fld h nxt" "fld h prev" head "[]" x ys] r xs
      live_nonnull[OF ring_live_around(2)[of h head "[x]" ys]] by auto
  have "list_for_each_safe_from h 1 head = None"
    using assms(3) by (subst list_for_each_safe_from.simps) (simp del: One_nat_def add: dead_rd)
  then have "list_for_each_safe_from h x head = None"
    using x nx by (subst list_for_each_safe_from.simps) (simp add: heap_simps)
  with x show ?thesis by (simp add: list_for_each_safe_def heap_simps)
qed

text \<open>A field of the enclosing struct is unchanged when \<open>more\<close> is.\<close>

lemma fld_more_cong:
  assumes "fld h' more = fld h more" and "\<And>n n'. more n = more n' \<Longrightarrow> f n = f n'"
  shows "fld h' f = fld h f"
proof
  fix p
  have "map_option more (mem h' p) = map_option more (mem h p)"
    using fun_cong[OF assms(1), of p] by (simp add: fld_def)
  then show "fld h' f p = fld h f p"
    by (cases "mem h p"; cases "mem h' p") (auto simp: fld_def dest: assms(2))
qed

subsection \<open>Filling a list\<close>

text \<open>The loop \<open>for (i = 0; i < n; ++i) list_add_tail(&head, &s[i].list)\<close> of the demo programs.\<close>

fun list_fill ::
    "'z list_head_scheme heap \<Rightarrow> ptr \<Rightarrow> ptr list \<Rightarrow> 'z list_head_scheme heap option" where
  "list_fill h head [] = Some h"
| "list_fill h head (p # ps) = do { h \<leftarrow> list_add_tail h head p; list_fill h head ps }"

lemma list_fill_ring:
  assumes "ring h head xs" and "distinct (xs @ ps)" and "head \<notin> set ps" and "\<forall>p \<in> set ps. live h p"
  shows "\<exists>h'. list_fill h head ps = Some h' \<and> ring h' head (xs @ ps) \<and> fld h' more = fld h more"
  using assms
proof (induction ps arbitrary: h xs)
  case Nil
  then show ?case by simp
next
  case (Cons p ps)
  from list_add_tail_ring[OF Cons.prems(1), of p] Cons.prems obtain h1 N P where
    h1: "list_add_tail h head p = Some h1" "ring h1 head (xs @ [p])" "links_to h h1 N P"
    by auto
  have "\<exists>h'. list_fill h1 head ps = Some h' \<and> ring h' head ((xs @ [p]) @ ps) \<and> fld h' more = fld h1 more"
    using Cons.prems h1(2) links_to_live[OF h1(3)] by (intro Cons.IH) auto
  with h1(1) links_to_more[OF h1(3)] show ?case by auto
qed

end
