(* ===== verification/Joseph.thy ===== *)
theory Joseph
  imports KernelList
begin

section \<open>The Josephus elimination on an intrusive ring (04Kernel_list/joesph.c)\<close>

text \<open>
  \<open>joesph_loop\<close> walks the ring in passes from the head, counts the nodes it visits across passes
  and unlinks every \<open>step\<close>-th one. The abstract machine \<open>jos\<close> is the textbook elimination: a queue
  whose front is rotated to the back \<open>step - 1\<close> times and then dropped. The refinement goes over
  \<open>jpass\<close>, the effect of one pass on the list of nodes.
\<close>

record joseph_node = list_head +
  jdata :: cint

text \<open>The first loop: \<open>list_for_each(head, cur) if (--start == 0) break;\<close>\<close>

partial_function (option) joesph_seek ::
    "'z list_head_scheme heap \<Rightarrow> ptr \<Rightarrow> ptr \<Rightarrow> csize \<Rightarrow> ptr option" where
  "joesph_seek h head cur start =
     (if cur = head then Some cur
      else (let start = start - 1 in
        if start = 0 then Some cur
        else do { nx \<leftarrow> rd h nxt cur; joesph_seek h head nx start }))"

text \<open>One pass of \<open>list_for_each_continue\<close>; a zero \<open>step\<close> traps in the remainder operation.\<close>

partial_function (option) joesph_pass ::
    "'z list_head_scheme heap \<Rightarrow> ptr \<Rightarrow> ptr \<Rightarrow> csize \<Rightarrow> csize \<Rightarrow> (csize \<times> 'z list_head_scheme heap) option" where
  "joesph_pass h head cur n step =
     (if cur = head then Some (n, h)
      else if step = 0 then None
      else do {
        h \<leftarrow> (if (n + 1) mod step = 0 then list_del h cur else Some h);
        nx \<leftarrow> rd h nxt cur;
        joesph_pass h head nx (n + 1) step
      })"

partial_function (option) joesph_rounds ::
    "'z list_head_scheme heap \<Rightarrow> ptr \<Rightarrow> ptr \<Rightarrow> csize \<Rightarrow> csize \<Rightarrow> 'z list_head_scheme heap option" where
  "joesph_rounds h head cur n step = do {
     first \<leftarrow> rd h nxt head;
     second \<leftarrow> rd h nxt first;
     (if second \<noteq> head then do {
        cur \<leftarrow> rd h nxt cur;
        (n, h) \<leftarrow> joesph_pass h head cur n step;
        joesph_rounds h head head n step
      }
      else Some h)
   }"

text \<open>The result is the node whose data \<open>joesph_loop\<close> prints, and the heap it leaves.\<close>

definition joesph_loop ::
    "'z list_head_scheme heap \<Rightarrow> ptr \<Rightarrow> csize \<Rightarrow> csize \<Rightarrow> (ptr \<times> 'z list_head_scheme heap) option" where
  "joesph_loop h head start step = do {
     first \<leftarrow> rd h nxt head;
     cur \<leftarrow> joesph_seek h head first start;
     cur \<leftarrow> rd h prev cur;
     h \<leftarrow> joesph_rounds h head cur 0 step;
     last_one \<leftarrow> rd h nxt head;
     Some (last_one, h)
   }"

text \<open>
  \<open>main\<close>, over the addresses \<open>head\<close> and \<open>ps\<close> the compiler gives to the list head and the array; the
  result is what the program prints: the list, then the survivor.
\<close>

definition joseph_main ::
    "joseph_node heap \<Rightarrow> ptr \<Rightarrow> ptr list \<Rightarrow> (cint option list \<times> cint) option" where
  "joseph_main h head ps = do {
     h \<leftarrow> list_head_init h head;
     h \<leftarrow> list_fill h head ps;
     nodes \<leftarrow> list_for_each h head;
     (p, h') \<leftarrow> joesph_loop h head 4 4;
     x \<leftarrow> rd h' jdata p;
     Some (map (rd h jdata) nodes, x)
   }"

subsection \<open>The abstract elimination\<close>

function jos :: "nat \<Rightarrow> nat \<Rightarrow> 'a list \<Rightarrow> 'a list" where
  "jos s k q = (if length q \<le> 1 then q else jos s 0 (tl (rotate (s - 1 - k) q)))"
  by pat_completeness auto
termination
  by (relation "measure (\<lambda>(s, k, q). length q)") auto

declare jos.simps [simp del]

lemma jos_short: "length q \<le> 1 \<Longrightarrow> jos s k q = q"
  by (simp add: jos.simps[of s k q])

lemma jos_drop:
  assumes "Suc k = s" and "q \<noteq> []"
  shows "jos s k (x # q) = jos s 0 q"
  using assms by (simp add: jos.simps[of s k "x # q"])

lemma jos_rotate:
  assumes "Suc k < s" and "q \<noteq> []"
  shows "jos s k (x # q) = jos s (Suc k) (q @ [x])"
proof -
  obtain m where m: "s - 1 - k = Suc m" "s - 1 - Suc k = m"
    using assms(1) by (metis Suc_diff_Suc diff_Suc_1 diff_Suc_eq_diff_pred less_diff_conv2
      diff_commute Suc_lessD less_Suc_eq_le One_nat_def plus_1_eq_Suc zero_less_diff Suc_lessE)
  then have "rotate (s - 1 - k) (x # q) = rotate m (q @ [x])"
    by (simp add: rotate_Suc rotate1_rotate_swap)
  with m assms(2) show ?thesis
    by (simp add: jos.simps[of s k "x # q"] jos.simps[of s "Suc k" "q @ [x]"])
qed

lemma jos_length: "q \<noteq> [] \<Longrightarrow> length (jos s k q) = 1"
proof (induction s k q rule: jos.induct)
  case (1 s k q)
  show ?case
  proof (cases "length q \<le> 1")
    case True
    with "1.prems" show ?thesis by (cases q) (simp_all add: jos_short)
  next
    case False
    then have "tl (rotate (s - 1 - k) q) \<noteq> []"
      by (metis Suc_eq_plus1 add_diff_cancel_right' diff_is_0_eq length_rotate length_tl list.size(3))
    with False "1.IH" show ?thesis by (simp add: jos.simps[of s k q])
  qed
qed

text \<open>One pass over the nodes \<open>vs\<close> with the count at \<open>n\<close>.\<close>

fun jpass :: "nat \<Rightarrow> nat \<Rightarrow> 'a list \<Rightarrow> 'a list" where
  "jpass s n [] = []"
| "jpass s n (x # xs) = (if Suc n mod s = 0 then jpass s (Suc n) xs else x # jpass s (Suc n) xs)"

lemma jpass_subset: "set (jpass s n vs) \<subseteq> set vs"
  by (induction vs arbitrary: n) auto

lemma jpass_length: "length (jpass s n vs) \<le> length vs"
  by (induction vs arbitrary: n) (auto intro: le_SucI)

lemma jpass_count:
  "0 < s \<Longrightarrow> (n + length vs) div s + length (jpass s n vs) = n div s + length vs"
proof (induction vs arbitrary: n)
  case (Cons x xs)
  from Cons.IH[of "Suc n"] Cons.prems show ?case by (auto simp: div_Suc)
qed simp

lemma jpass_none: "length (jpass s n vs) = length vs \<Longrightarrow> 0 < s \<Longrightarrow>
  (n + length vs) mod s = n mod s + length vs"
proof (induction vs arbitrary: n)
  case (Cons x xs)
  have ne: "Suc n mod s \<noteq> 0"
  proof
    assume "Suc n mod s = 0"
    with Cons.prems(1) have "length (jpass s (Suc n) xs) = Suc (length xs)" by simp
    with jpass_length[of s "Suc n" xs] show False by simp
  qed
  with Cons.IH[of "Suc n"] Cons.prems show ?case by (auto simp: mod_Suc split: if_splits)
qed simp

text \<open>A pass is a run of the machine: what is kept moves to the back of the queue.\<close>

lemma jpass_jos:
  assumes "2 \<le> s" and "us @ vs \<noteq> []" and "length (us @ vs) = 1 \<longrightarrow> n mod s = 0 \<or> vs = []"
  shows "jos s (n mod s) (vs @ us) = jos s ((n + length vs) mod s) (us @ jpass s n vs)
    \<and> us @ jpass s n vs \<noteq> []"
  using assms
proof (induction vs arbitrary: us n)
  case Nil
  then show ?case by simp
next
  case (Cons x xs)
  show ?case
  proof (cases "us @ xs = []")
    case True
    with Cons.prems have "n mod s = 0" by simp
    then have "Suc n mod s = 1" using Cons.prems(1) by (simp add: mod_Suc)
    with True show ?thesis by (simp add: jos_short)
  next
    case False
    show ?thesis
    proof (cases "Suc n mod s = 0")
      case True
      then have k: "Suc (n mod s) = s" using Cons.prems(1) by (simp add: mod_Suc split: if_splits)
      then have "jos s (n mod s) (x # xs @ us) = jos s (Suc n mod s) (xs @ us)"
        using jos_drop[OF k, of "xs @ us" x] False True by auto
      then show ?thesis using Cons.IH[of us "Suc n"] Cons.prems(1) False True by auto
    next
      case kept: False
      then have k2: "Suc (n mod s) \<noteq> s" "Suc n mod s = Suc (n mod s)"
        by (auto simp: mod_Suc split: if_splits)
      have "n mod s < s" using Cons.prems(1) by simp
      with k2 have k: "Suc (n mod s) < s" "Suc n mod s = Suc (n mod s)" by auto
      then have "jos s (n mod s) (x # xs @ us) = jos s (Suc n mod s) (xs @ us @ [x])"
        using jos_rotate[OF k(1), of "xs @ us" x] False by auto
      then show ?thesis using Cons.IH[of "us @ [x]" "Suc n"] Cons.prems(1) False kept by auto
    qed
  qed
qed

subsection \<open>Refinement\<close>

lemma joesph_pass_ring:
  assumes "ring h head (us @ vs)" and "0 < unat step" and "unat n + length vs < 2 ^ 64"
  shows "\<exists>h' m. joesph_pass h head (hd (vs @ [head])) n step = Some (m, h')
    \<and> unat m = unat n + length vs \<and> ring h' head (us @ jpass (unat step) (unat n) vs)
    \<and> fld h' list_head.more = fld h list_head.more"
  using assms
proof (induction vs arbitrary: h us n)
  case Nil
  then show ?case by (subst joesph_pass.simps) simp
next
  case (Cons x xs)
  have n1: "unat (n + 1) = Suc (unat n)"
    using Cons.prems(3) by (simp add: unat_word_ariths)
  have md: "((n + 1) mod step = 0) = (Suc (unat n) mod unat step = 0)"
    by (simp add: n1 unat_mod flip: unat_eq_zero)
  have st: "step \<noteq> 0" using Cons.prems(2) by auto
  have xh: "x \<noteq> head" using dring_distinct[OF Cons.prems(1)] by simp
  have nx: "fld h nxt x = Some (hd (xs @ [head]))" by (rule dring_next[OF Cons.prems(1)])
  have lv: "live h x" by (rule ring_live[OF Cons.prems(1)]) simp
  have bound: "unat (n + 1) + length xs < 2 ^ 64" using Cons.prems(3) n1 by simp
  show ?case
  proof (cases "(n + 1) mod step = 0")
    case True
    obtain h1 where h1: "list_del h x = Some h1" "ring h1 head (us @ xs)"
      "links_to h h1 ((fld h nxt)(last (head # us) := Some (hd (xs @ [head]))))
        ((fld h prev)(hd (xs @ [head]) := Some (last (head # us))))"
      using list_del_ring[OF Cons.prems(1)] by blast
    have "x \<noteq> last (head # us)"
      using dring_distinct[OF Cons.prems(1)] last_Cons_in[of head us] by auto
    then have "rd h1 nxt x = Some (hd (xs @ [head]))"
      using h1(3) lv nx by (simp del: last.simps add: live_rd links_to_def)
    then have "joesph_pass h head x n step = joesph_pass h1 head (hd (xs @ [head])) (n + 1) step"
      using xh st True h1(1) by (subst joesph_pass.simps) simp
    with Cons.IH[OF h1(2) Cons.prems(2) bound] True md n1 links_to_more[OF h1(3)]
    show ?thesis by auto
  next
    case False
    then have "joesph_pass h head x n step = joesph_pass h head (hd (xs @ [head])) (n + 1) step"
      using xh st lv nx by (subst joesph_pass.simps) (simp add: live_rd)
    with Cons.IH[of h "us @ [x]" "n + 1"] Cons.prems(1,2) bound False md n1
    show ?thesis by auto
  qed
qed

lemma joesph_rounds_stop:
  assumes r: "ring h head [x]"
  shows "joesph_rounds h head c n step = Some h"
proof -
  have "rd h nxt head = Some x" "rd h nxt x = Some head"
    using dring_next_head[OF r] ring_live_head[OF r] dring_next[of "fld h nxt" "fld h prev" head "[]" x "[]"]
      ring_live[OF r, of x] r by (simp_all add: live_rd)
  then show ?thesis by (subst joesph_rounds.simps) simp
qed

text \<open>A round from the node before \<open>vs\<close>: one pass, after which the loop variable is at the head.\<close>

lemma joesph_rounds_step:
  assumes r: "ring h head (us @ vs)" and two: "2 \<le> length (us @ vs)"
    and st: "0 < unat step" and bound: "unat n + length vs < 2 ^ 64"
  shows "\<exists>h1 m. joesph_rounds h head (last (head # us)) n step = joesph_rounds h1 head head m step
    \<and> unat m = unat n + length vs \<and> ring h1 head (us @ jpass (unat step) (unat n) vs)
    \<and> fld h1 list_head.more = fld h list_head.more"
proof -
  obtain x y zs where xs: "us @ vs = x # y # zs"
    using two by (cases "us @ vs" rule: remdups_adj.cases) auto
  have dist: "distinct (head # x # y # zs)" using dring_distinct[OF r] xs by simp
  have lv: "live h q" if "q \<in> set (head # us @ vs)" for q using that by (rule ring_live[OF r])
  have "rd h nxt head = Some x" "rd h nxt x = Some y"
    using dring_next_head[OF r] dring_next[of "fld h nxt" "fld h prev" head "[]" x "y # zs"] r xs lv
    by (simp_all add: live_rd)
  moreover have "rd h nxt (last (head # us)) = Some (hd (vs @ [head]))"
  proof (cases us rule: rev_cases)
    case Nil
    then show ?thesis using dring_next_head[OF r] lv by (simp add: live_rd)
  next
    case (snoc ws w)
    then show ?thesis using dring_next[of "fld h nxt" "fld h prev" head ws w vs] r lv
      by (simp add: live_rd)
  qed
  moreover obtain h1 m where "joesph_pass h head (hd (vs @ [head])) n step = Some (m, h1)"
    "unat m = unat n + length vs" "ring h1 head (us @ jpass (unat step) (unat n) vs)"
    "fld h1 list_head.more = fld h list_head.more"
    using joesph_pass_ring[OF r st bound] by blast
  moreover have "y \<noteq> head" using dist by simp
  ultimately show ?thesis
    by (intro exI[of _ h1] exI[of _ m]) (subst joesph_rounds.simps, simp del: last.simps)
qed

text \<open>
  The rounds end with a single node, the survivor of the machine. What decreases is the number of
  nodes or, when a pass removes none, the distance of the count from the next multiple of \<open>step\<close>.
\<close>

lemma joesph_rounds_full:
  assumes "ring h head xs" and "xs \<noteq> []" and "2 \<le> unat step"
    and "unat n div unat step + length xs = L" and "(L + 1) * unat step < 2 ^ 64"
  shows "\<exists>h'. joesph_rounds h head head n step = Some h'
    \<and> ring h' head (jos (unat step) (unat n mod unat step) xs) \<and> fld h' list_head.more = fld h list_head.more"
  using assms
proof (induction "length xs * (unat step + 1) + (unat step - unat n mod unat step)"
    arbitrary: h xs n rule: less_induct)
  case less
  let ?s = "unat step"
  show ?case
  proof (cases "length xs \<le> 1")
    case True
    with less.prems(2) obtain x where x: "xs = [x]" by (cases xs) auto
    show ?thesis
      using joesph_rounds_stop[of h head x] less.prems(1) by (auto simp: x jos_short)
  next
    case False
    have s0: "0 < ?s" using less.prems(3) by simp
    have "unat n < (unat n div ?s + 1) * ?s"
      using s0 by (metis div_less_iff_less_mult less_add_one)
    then have "unat n + length xs < (unat n div ?s + 1) * ?s + length xs * ?s"
      using less.prems(3) by (metis add_less_le_mono le_add2 le_refl mult_le_mono2 mult.right_neutral
        one_le_numeral order_trans)
    also have "\<dots> = (L + 1) * ?s" using less.prems(4) by (simp flip: less.prems(4) add: algebra_simps)
    finally have bound: "unat n + length xs < 2 ^ 64" using less.prems(5) by simp
    obtain h1 m where h1: "joesph_rounds h head head n step = joesph_rounds h1 head head m step"
      "unat m = unat n + length xs" "ring h1 head (jpass ?s (unat n) xs)" "fld h1 list_head.more = fld h list_head.more"
      using joesph_rounds_step[of h head "[]" xs step n] less.prems(1) False s0 bound by auto
    let ?ys = "jpass ?s (unat n) xs"
    have jos: "jos ?s (unat n mod ?s) xs = jos ?s (unat m mod ?s) ?ys" and ne: "?ys \<noteq> []"
      using jpass_jos[of ?s "[]" xs "unat n"] less.prems(2,3) False h1(2) by auto
    have cnt: "unat m div ?s + length ?ys = L"
      using jpass_count[OF s0, of "unat n" xs] h1(2) less.prems(4) by simp
    have "length ?ys * (?s + 1) + (?s - unat m mod ?s) < length xs * (?s + 1) + (?s - unat n mod ?s)"
    proof (cases "length ?ys = length xs")
      case True
      then have "unat m mod ?s = unat n mod ?s + length xs"
        using jpass_none[of ?s "unat n" xs] s0 h1(2) by simp
      moreover have "unat m mod ?s < ?s" using s0 by simp
      ultimately show ?thesis using True False by simp
    next
      case f: False
      then have "Suc (length ?ys) \<le> length xs" using jpass_length[of ?s "unat n" xs] by simp
      then have "Suc (length ?ys) * (?s + 1) \<le> length xs * (?s + 1)" by (rule mult_le_mono1)
      moreover have "unat n mod ?s < ?s" using s0 by simp
      ultimately show ?thesis by simp
    qed
    from less.hyps[OF this h1(3) ne less.prems(3) cnt less.prems(5)] show ?thesis
      using h1(1,4) jos by auto
  qed
qed

lemma joesph_rounds_spec:
  assumes r: "ring h head (us @ vs)" and ne: "us @ vs \<noteq> []" and st: "2 \<le> unat step"
    and bound: "(length (us @ vs) + 1) * unat step < 2 ^ 64"
  shows "\<exists>h'. joesph_rounds h head (last (head # us)) 0 step = Some h'
    \<and> ring h' head (jos (unat step) 0 (vs @ us)) \<and> fld h' list_head.more = fld h list_head.more"
proof (cases "length (us @ vs) \<le> 1")
  case True
  then obtain x where x: "us @ vs = [x]" using ne by (cases "us @ vs") auto
  then have "vs @ us = [x]" by (cases us) auto
  with x show ?thesis using joesph_rounds_stop[of h head x] r by (auto simp: jos_short)
next
  case False
  let ?s = "unat step"
  have "length (us @ vs) * 1 \<le> (length (us @ vs) + 1) * ?s" using st by (intro mult_le_mono) auto
  then have b: "unat (0 :: csize) + length vs < 2 ^ 64" using bound by simp
  obtain h1 m where h1: "joesph_rounds h head (last (head # us)) 0 step = joesph_rounds h1 head head m step"
    "unat m = length vs" "ring h1 head (us @ jpass ?s 0 vs)" "fld h1 list_head.more = fld h list_head.more"
    using joesph_rounds_step[OF r _ _ b, of step] False st by auto
  have "jos ?s (0 mod ?s) (vs @ us) = jos ?s (unat m mod ?s) (us @ jpass ?s 0 vs)"
    and "us @ jpass ?s 0 vs \<noteq> []"
    using jpass_jos[of ?s us vs 0] ne st h1(2) by auto
  moreover have "unat m div ?s + length (us @ jpass ?s 0 vs) = length (us @ vs)"
    using jpass_count[of ?s 0 vs] st h1(2) by simp
  ultimately show ?thesis
    using joesph_rounds_full[OF h1(3) _ st _ bound] h1(1,4) by auto
qed

lemma joesph_seek_path:
  assumes "npath (fld h nxt) cur xs head" and "head \<notin> set xs" and "length xs + 1 < 2 ^ 64"
  shows "joesph_seek h head cur start =
    Some (if start \<noteq> 0 \<and> unat start \<le> length xs then xs ! (unat start - 1) else head)"
  using assms
proof (induction xs arbitrary: cur start)
  case Nil
  then show ?case by (subst joesph_seek.simps) (auto simp: unat_eq_zero)
next
  case (Cons x xs)
  obtain y where y: "cur = x" "x \<noteq> NULL" "fld h nxt x = Some y" "npath (fld h nxt) y xs head"
    using Cons.prems(1) by (auto simp: npath.simps(2) split: option.splits)
  have xh: "x \<noteq> head" using Cons.prems(2) by auto
  show ?case
  proof (cases "start - 1 = 0")
    case True
    then have "start = 1" by simp
    then show ?thesis using xh y(1) by (subst joesph_seek.simps) simp
  next
    case False
    then have step: "joesph_seek h head cur start = joesph_seek h head y (start - 1)"
      using xh y by (subst joesph_seek.simps) (simp add: rd_def)
    have IH: "joesph_seek h head y (start - 1) =
        Some (if start - 1 \<noteq> 0 \<and> unat (start - 1) \<le> length xs then xs ! (unat (start - 1) - 1) else head)"
      using Cons.IH[OF y(4)] Cons.prems(2,3) by simp
    show ?thesis
    proof (cases "start = 0")
      case True
      then have "unat (start - 1) = 2 ^ 64 - 1" by (simp add: unsigned_minus_1_eq_mask mask_eq_exp_minus_1)
      with step IH True Cons.prems(3) show ?thesis by simp
    next
      case nz: False
      then have u: "unat start = Suc (unat (start - 1))"
        using unat_gt_0[of start] by (simp add: unat_minus_one)
      moreover have "unat (start - 1) \<noteq> 0" using False by (simp add: unat_eq_zero)
      ultimately show ?thesis using step IH False nz by (auto simp: nth_Cons')
    qed
  qed
qed

text \<open>
  The whole loop: the survivor is that of the machine started at the \<open>start\<close>-th node; a \<open>start\<close>
  of 0 or beyond the list starts at the first node.
\<close>

definition joseph_offset :: "csize \<Rightarrow> nat \<Rightarrow> nat" where
  "joseph_offset start len = (if start \<noteq> 0 \<and> unat start \<le> len then unat start - 1 else 0)"

lemma joesph_loop_ring:
  assumes r: "ring h head xs" and ne: "xs \<noteq> []" and st: "2 \<le> unat step"
    and bound: "(length xs + 1) * unat step < 2 ^ 64"
  shows "\<exists>p h'. joesph_loop h head start step = Some (p, h') \<and> ring h' head [p]
    \<and> jos (unat step) 0 (rotate (joseph_offset start (length xs)) xs) = [p] \<and> fld h' list_head.more = fld h list_head.more"
proof -
  let ?k = "if start \<noteq> 0 \<and> unat start \<le> length xs then unat start - 1 else length xs"
  let ?us = "take ?k xs" and ?vs = "drop ?k xs"
  have uv: "?us @ ?vs = xs" by (rule append_take_drop_id)
  have "(length xs + 1) * 2 \<le> (length xs + 1) * unat step" using st by (intro mult_le_mono2)
  then have len: "length xs + 1 < 2 ^ 64" using bound by simp
  have lv: "live h q" if "q \<in> set (head # xs)" for q using that by (rule ring_live[OF r])
  have first: "rd h nxt head = Some (hd (xs @ [head]))"
    using dring_next_head[OF r] lv by (simp add: live_rd)
  have path: "npath (fld h nxt) (hd (xs @ [head])) xs head" using ring_path(1)[of h head "[]" xs] r by simp
  have nh: "head \<notin> set xs" using dring_distinct[OF r] by simp
  let ?c = "if start \<noteq> 0 \<and> unat start \<le> length xs then xs ! (unat start - 1) else head"
  have seek: "joesph_seek h head (hd (xs @ [head])) start = Some ?c"
    by (rule joesph_seek_path[OF path nh len])
  have "rd h prev ?c = Some (last (head # ?us))"
  proof (cases "start \<noteq> 0 \<and> unat start \<le> length xs")
    case True
    then have i: "unat start - 1 < length xs" using unat_gt_0[of start] by linarith
    have eq: "?us @ xs ! (unat start - 1) # drop (Suc (unat start - 1)) xs = xs"
      using True id_take_nth_drop[OF i, symmetric] by simp
    have "ring h head (?us @ xs ! (unat start - 1) # drop (Suc (unat start - 1)) xs)"
      unfolding eq by (rule r)
    then have "fld h prev (xs ! (unat start - 1)) = Some (last (head # ?us))"
      by (rule dring_prev)
    then show ?thesis using True i lv by (simp add: live_rd)
  next
    case False
    then show ?thesis using dring_prev_head[OF r] lv by (auto simp: live_rd)
  qed
  moreover obtain h' where h': "joesph_rounds h head (last (head # ?us)) 0 step = Some h'"
    "ring h' head (jos (unat step) 0 (?vs @ ?us))" "fld h' list_head.more = fld h list_head.more"
    using joesph_rounds_spec[of h head ?us ?vs step] r ne st bound uv by auto
  moreover have rot: "?vs @ ?us = rotate (joseph_offset start (length xs)) xs"
  proof (cases "start \<noteq> 0 \<and> unat start \<le> length xs")
    case True
    then have i: "unat start - 1 < length xs" using unat_gt_0[of start] by linarith
    with True show ?thesis by (simp add: joseph_offset_def rotate_drop_take)
  next
    case False
    then show ?thesis by (auto simp: joseph_offset_def)
  qed
  moreover obtain p where p: "jos (unat step) 0 (?vs @ ?us) = [p]"
    using jos_length[of "?vs @ ?us" "unat step" 0] ne rot
    by (metis One_nat_def length_0_conv length_Suc_conv rotate_is_Nil_conv)
  moreover have "rd h' nxt head = Some p"
    using dring_next_head[of "fld h' nxt" "fld h' prev" head "[p]"] h'(2) p ring_live_head[of h' head "[p]"]
    by (simp add: live_rd)
  ultimately have "joesph_loop h head start step = Some (p, h')"
    using first seek unfolding joesph_loop_def by (simp only: Option.bind.bind_lunit)
  then show ?thesis using h'(2,3) p rot by auto
qed

subsection \<open>The demo program\<close>

lemma jos_map: "jos s k (map f q) = map f (jos s k q)"
proof (induction s k q rule: jos.induct)
  case (1 s k q)
  then show ?case
    by (simp add: jos.simps[of s k q] jos.simps[of s k "map f q"] rotate_map flip: map_tl)
qed

lemma jdata_more: "list_head.more n = list_head.more n' \<Longrightarrow> jdata n = jdata (n' :: joseph_node)"
  by (cases n, cases n') simp

lemma jdata_cong:
  "fld h' list_head.more = fld h list_head.more \<Longrightarrow> fld h' jdata = fld (h :: joseph_node heap) jdata"
  by (rule fld_more_cong) (auto intro: jdata_more)

lemma joseph_main_spec:
  assumes d: "distinct (head # ps)" and lv: "\<forall>p \<in> set (head # ps). live h p"
    and xs: "map (fld h jdata) ps = map Some [1, 2, 3, 4, 5, 6, 7, 8, 9]"
  shows "joseph_main h head ps = Some (map Some [1, 2, 3, 4, 5, 6, 7, 8, 9], 4)"
proof -
  have len: "length ps = 9" using arg_cong[OF xs, of length] by simp
  obtain h1 where h1: "list_head_init h head = Some h1"
    "links_to h h1 ((fld h nxt)(head := Some head)) ((fld h prev)(head := Some head))"
    using list_head_init_links[of h head] lv by auto
  have "ring h1 head []" using h1(2) live_nonnull[of h head] lv by (simp add: links_to_def)
  from list_fill_ring[OF this, of ps] obtain h2 where
    h2: "list_fill h1 head ps = Some h2" "ring h2 head ps"
      "fld h2 list_head.more = fld h1 list_head.more"
    using d lv links_to_live[OF h1(2)] by auto
  then have j2: "fld h2 jdata = fld h jdata" using links_to_more[OF h1(2)] by (intro jdata_cong) simp
  obtain p h3 where h3: "joesph_loop h2 head 4 4 = Some (p, h3)" "ring h3 head [p]"
    "jos 4 0 (rotate 3 ps) = [p]" "fld h3 list_head.more = fld h2 list_head.more"
    using joesph_loop_ring[OF h2(2), of 4 4] len
    by (cases "ps = []") (auto simp: joseph_offset_def)
  have "fld h3 jdata = fld h jdata" using jdata_cong[OF h3(4)] j2 by simp
  moreover have "fld h jdata p = Some 4"
  proof -
    have "[fld h jdata p] = map (fld h jdata) (jos 4 0 (rotate 3 ps))" by (simp add: h3(3))
    also have "\<dots> = jos 4 0 (rotate 3 (map (fld h jdata) ps))" by (simp add: jos_map rotate_map)
    also have "\<dots> = jos 4 0 (rotate 3 (map Some [1, 2, 3, 4, 5, 6, 7, 8, 9]))" by (simp only: xs)
    also have "\<dots> = [Some 4]" by (simp add: jos.simps eval_nat_numeral)
    finally show ?thesis by simp
  qed
  moreover have "rd h3 jdata p = fld h3 jdata p"
    using ring_live[OF h3(2), of p] by (simp add: live_rd)
  moreover have "map (rd h2 jdata) ps = map Some [1, 2, 3, 4, 5, 6, 7, 8, 9]"
  proof -
    have "map (rd h2 jdata) ps = map (fld h jdata) ps"
      using ring_live[OF h2(2)] j2 by (auto simp: live_rd)
    then show ?thesis by (simp only: xs)
  qed
  ultimately show ?thesis
    using h1(1) h2(1) h3(1) list_for_each_ring[OF h2(2)]
    unfolding joseph_main_def by (simp only: Option.bind.bind_lunit prod.case)
qed

end
