(* ===== verification/Dlist.thy ===== *)
theory Dlist
  imports KernelList
begin

section \<open>Circular doubly linked list with allocated nodes (02Dlist/stack/dlist.c)\<close>

text \<open>
  A \<open>struct node_info\<close> is the two links followed by the payload \<open>priv\<close>: a record that extends
  \<open>list_head\<close>. Every caller copies objects of one type in and out, so the payload bytes are a value
  of that type. The \<open>struct dlist_info\<close> holds the pointer to the head node (its function pointers
  always hold the functions of this file) and lives in a heap of its own; \<open>dstate\<close> is the two heaps.

  \<open>dlist_inv s info hn ps xs\<close>: the list object at \<open>info\<close> has the head node \<open>hn\<close>, the ring of nodes
  \<open>ps\<close> and the payloads \<open>xs\<close>.
\<close>

record 'a dnode = list_head +
  priv :: 'a

record dlist_info =
  head :: ptr

record 'a dstate =
  nodes :: "'a dnode heap"
  infos :: "dlist_info heap"

definition dlist_is_empty :: "'a dstate \<Rightarrow> ptr \<Rightarrow> bool option" where
  "dlist_is_empty s info = do {
     hn \<leftarrow> rd (infos s) head info;
     nx \<leftarrow> rd (nodes s) nxt hn;
     (if nx = hn then do { pr \<leftarrow> rd (nodes s) prev hn; Some (pr = hn) } else Some False)
   }"

definition dlist_add :: "'a dstate \<Rightarrow> ptr \<Rightarrow> 'a \<Rightarrow> 'a dstate option" where
  "dlist_add s info d = do {
     hn \<leftarrow> rd (infos s) head info;
     let (node, h) = malloc (nodes s);
     (if node = NULL then Some (s\<lparr>nodes := h\<rparr>)
      else do {
        first \<leftarrow> rd h nxt hn;
        h \<leftarrow> wr h node (\<lambda>n. n\<lparr>nxt := first\<rparr>);
        h \<leftarrow> wr h node (\<lambda>n. n\<lparr>prev := hn\<rparr>);
        h \<leftarrow> wr h hn (\<lambda>n. n\<lparr>nxt := node\<rparr>);
        after \<leftarrow> rd h nxt node;
        h \<leftarrow> wr h after (\<lambda>n. n\<lparr>prev := node\<rparr>);
        h \<leftarrow> wr h node (\<lambda>n. n\<lparr>priv := d\<rparr>);
        Some (s\<lparr>nodes := h\<rparr>)
      })
   }"

definition dlist_add_tail :: "'a dstate \<Rightarrow> ptr \<Rightarrow> 'a \<Rightarrow> 'a dstate option" where
  "dlist_add_tail s info d = do {
     hn \<leftarrow> rd (infos s) head info;
     let (node, h) = malloc (nodes s);
     (if node = NULL then Some (s\<lparr>nodes := h\<rparr>)
      else do {
        h \<leftarrow> wr h node (\<lambda>n. n\<lparr>nxt := hn\<rparr>);
        last \<leftarrow> rd h prev hn;
        h \<leftarrow> wr h node (\<lambda>n. n\<lparr>prev := last\<rparr>);
        h \<leftarrow> wr h hn (\<lambda>n. n\<lparr>prev := node\<rparr>);
        before \<leftarrow> rd h prev node;
        h \<leftarrow> wr h before (\<lambda>n. n\<lparr>nxt := node\<rparr>);
        h \<leftarrow> wr h node (\<lambda>n. n\<lparr>priv := d\<rparr>);
        Some (s\<lparr>nodes := h\<rparr>)
      })
   }"

text \<open>
  The callback of the iterations acts on the memory and on a state \<open>'w\<close> of its own. \<open>for_each\<close>
  reads the successor after the callback, \<open>for_each_safe\<close> before it.
\<close>

partial_function (option) dlist_for_each_loop ::
    "ptr \<Rightarrow> ('a dstate \<times> 'w \<Rightarrow> ptr \<Rightarrow> ('a dstate \<times> 'w) option) \<Rightarrow> 'a dstate \<times> 'w \<Rightarrow> ptr \<Rightarrow>
     ('a dstate \<times> 'w) option" where
  "dlist_for_each_loop info todo sw cur = do {
     hn \<leftarrow> rd (infos (fst sw)) head info;
     (if cur = hn then Some sw
      else do {
        sw \<leftarrow> todo sw cur;
        nx \<leftarrow> rd (nodes (fst sw)) nxt cur;
        dlist_for_each_loop info todo sw nx
      })
   }"

definition dlist_for_each ::
    "'a dstate \<times> 'w \<Rightarrow> ptr \<Rightarrow> ('a dstate \<times> 'w \<Rightarrow> ptr \<Rightarrow> ('a dstate \<times> 'w) option) \<Rightarrow>
     ('a dstate \<times> 'w) option" where
  "dlist_for_each sw info todo = do {
     hn \<leftarrow> rd (infos (fst sw)) head info;
     cur \<leftarrow> rd (nodes (fst sw)) nxt hn;
     dlist_for_each_loop info todo sw cur
   }"

partial_function (option) dlist_for_each_safe_loop ::
    "ptr \<Rightarrow> ('a dstate \<Rightarrow> ptr \<Rightarrow> 'a dstate option) \<Rightarrow> 'a dstate \<Rightarrow> ptr \<Rightarrow> 'a dstate option" where
  "dlist_for_each_safe_loop info todo s cur = do {
     hn \<leftarrow> rd (infos s) head info;
     (if cur = hn then Some s
      else do {
        Next \<leftarrow> rd (nodes s) nxt cur;
        s \<leftarrow> todo s cur;
        dlist_for_each_safe_loop info todo s Next
      })
   }"

definition dlist_for_each_safe ::
    "'a dstate \<Rightarrow> ptr \<Rightarrow> ('a dstate \<Rightarrow> ptr \<Rightarrow> 'a dstate option) \<Rightarrow> 'a dstate option" where
  "dlist_for_each_safe s info todo = do {
     hn \<leftarrow> rd (infos s) head info;
     cur \<leftarrow> rd (nodes s) nxt hn;
     dlist_for_each_safe_loop info todo s cur
   }"

definition dlist_del :: "'a dstate \<Rightarrow> ptr \<Rightarrow> 'a dstate option" where
  "dlist_del s node = do {
     nx \<leftarrow> rd (nodes s) nxt node;
     pr \<leftarrow> rd (nodes s) prev node;
     h \<leftarrow> wr (nodes s) nx (\<lambda>n. n\<lparr>prev := pr\<rparr>);
     pr' \<leftarrow> rd h prev node;
     nx' \<leftarrow> rd h nxt node;
     h \<leftarrow> wr h pr' (\<lambda>n. n\<lparr>nxt := nx'\<rparr>);
     h \<leftarrow> wr h node (\<lambda>n. n\<lparr>prev := node\<rparr>);
     h \<leftarrow> wr h node (\<lambda>n. n\<lparr>nxt := node\<rparr>);
     h \<leftarrow> free h node;
     Some (s\<lparr>nodes := h\<rparr>)
   }"

partial_function (option) dlist_find_loop ::
    "'a dstate \<Rightarrow> ptr \<Rightarrow> ('a \<Rightarrow> bool) \<Rightarrow> ptr \<Rightarrow> ptr option" where
  "dlist_find_loop s info match cur = do {
     hn \<leftarrow> rd (infos s) head info;
     (if cur = hn then Some NULL
      else do {
        x \<leftarrow> rd (nodes s) priv cur;
        (if match x then Some cur
         else do { nx \<leftarrow> rd (nodes s) nxt cur; dlist_find_loop s info match nx })
      })
   }"

definition dlist_find :: "'a dstate \<Rightarrow> ptr \<Rightarrow> ('a \<Rightarrow> bool) \<Rightarrow> ptr option" where
  "dlist_find s info match = do {
     hn \<leftarrow> rd (infos s) head info;
     cur \<leftarrow> rd (nodes s) nxt hn;
     dlist_find_loop s info match cur
   }"

definition dlist_init :: "'a dstate \<Rightarrow> ptr \<Rightarrow> (int \<times> 'a dstate) option" where
  "dlist_init s info = (let (p, h) = malloc (nodes s) in do {
     i \<leftarrow> wr (infos s) info (\<lambda>n. n\<lparr>head := p\<rparr>);
     (if p = NULL then Some (-1, s\<lparr>nodes := h, infos := i\<rparr>)
      else do {
        h \<leftarrow> wr h p (\<lambda>n. n\<lparr>nxt := p\<rparr>);
        h \<leftarrow> wr h p (\<lambda>n. n\<lparr>prev := p\<rparr>);
        Some (0, s\<lparr>nodes := h, infos := i\<rparr>)
      })
   })"

definition dlist_destroy :: "'a dstate \<Rightarrow> ptr \<Rightarrow> (int \<times> 'a dstate) option" where
  "dlist_destroy s info = do {
     s \<leftarrow> dlist_for_each_safe s info dlist_del;
     hn \<leftarrow> rd (infos s) head info;
     h \<leftarrow> free (nodes s) hn;
     Some (0, s\<lparr>nodes := h\<rparr>)
   }"

text \<open>The first version of the library (02Dlist/dlist/dlist.c) frees the head node only.\<close>

definition dlist_destroy_head :: "'a dstate \<Rightarrow> ptr \<Rightarrow> (int \<times> 'a dstate) option" where
  "dlist_destroy_head s info = do {
     hn \<leftarrow> rd (infos s) head info;
     h \<leftarrow> free (nodes s) hn;
     Some (0, s\<lparr>nodes := h\<rparr>)
   }"

subsection \<open>The representation invariant\<close>

definition dlist_inv :: "'a dstate \<Rightarrow> ptr \<Rightarrow> ptr \<Rightarrow> ptr list \<Rightarrow> 'a list \<Rightarrow> bool" where
  "dlist_inv s info hn ps xs \<longleftrightarrow> live (infos s) info \<and> fld (infos s) head info = Some hn
     \<and> ring (nodes s) hn ps \<and> map (fld (nodes s) priv) ps = map Some xs \<and> fresh_avail (nodes s)"

lemma dlist_invD:
  assumes "dlist_inv s info hn ps xs"
  shows "rd (infos s) head info = Some hn" and "ring (nodes s) hn ps"
    and "map (fld (nodes s) priv) ps = map Some xs" and "fresh_avail (nodes s)"
    and "live (infos s) info" and "length ps = length xs"
  using assms by (auto simp: dlist_inv_def live_rd dest: map_eq_imp_length_eq)

lemma dlist_inv_empty: "dlist_inv s info hn ps xs \<Longrightarrow> ps = [] \<longleftrightarrow> xs = []"
  by (metis dlist_invD(6) length_0_conv)

lemma dlist_is_empty_inv: "dlist_inv s info hn ps xs \<Longrightarrow> dlist_is_empty s info = Some (xs = [])"
  using list_is_empty_ring[of "nodes s" hn ps]
  by (simp add: dlist_is_empty_def list_is_empty_def dlist_invD(1,2) dlist_inv_empty)

lemma priv_eq:
  assumes "\<And>q. q \<notin> A \<Longrightarrow> fld h' priv q = fld h priv q" and "set ps \<inter> A = {}"
  shows "map (fld h' priv) ps = map (fld h priv) ps"
  using assms by (intro map_cong refl) auto

text \<open>Both insertions write the same links and the payload; only the order of the writes differs.\<close>

lemma dlist_link_in:
  assumes inv: "dlist_inv s info hn (ps @ qs) (xs @ ys)" and len: "length ps = length xs"
    and m: "malloc (nodes s) = (p, h1)" "p \<noteq> NULL"
    and lf: "l = last (hn # ps)" "f = hd (qs @ [hn])"
    and N: "fld h' nxt = (fld h1 nxt)(p := Some f, l := Some p)"
    and P: "fld h' prev = (fld h1 prev)(p := Some l, f := Some p)"
    and V: "fld h' priv = (fld h1 priv)(p := Some d)"
    and A: "avail h' = avail h1" "\<And>q. mem h' q = None \<longleftrightarrow> mem h1 q = None"
  shows "dlist_inv (s\<lparr>nodes := h'\<rparr>) info hn (ps @ p # qs) (xs @ d # ys)"
proof -
  note r = dlist_invD(2)[OF inv] and ml = malloc_live[OF m] and fr = malloc_Some[OF m]
  have p: "p \<notin> set (hn # ps @ qs)" using ring_live[OF r] ml(2) by blast
  have fN: "fld h1 nxt q = fld (nodes s) nxt q" "fld h1 prev q = fld (nodes s) prev q"
    "fld h1 priv q = fld (nodes s) priv q" if "q \<noteq> p" for q
    using that by (simp_all add: ml(4))
  have r1: "ring h1 hn (ps @ qs)"
    using r dring_frame[of hn "ps @ qs" "fld h1 nxt" "fld (nodes s) nxt" "fld h1 prev" "fld (nodes s) prev"]
      fN p by (metis (full_types))
  have "ring h' hn (ps @ p # qs)"
    unfolding N P by (rule dring_insert[OF r1 p m(2) lf])
  moreover have "map (fld h' priv) rs = map (fld (nodes s) priv) rs" if "p \<notin> set rs" for rs
    by (rule priv_eq[where A = "{p}"]) (use that in \<open>auto simp: V fN(3)\<close>)
  then have "map (fld h' priv) ps = map (fld (nodes s) priv) ps"
    "map (fld h' priv) qs = map (fld (nodes s) priv) qs" using p by auto
  moreover have "map (fld (nodes s) priv) ps = map Some xs" "map (fld (nodes s) priv) qs = map Some ys"
    using dlist_invD(3)[OF inv] len by (auto simp: append_eq_append_conv)
  moreover have "fresh_avail h'"
    using dlist_invD(4)[OF inv] fr A m by (auto simp: fresh_avail_def malloc_def split: list.splits if_splits)
  ultimately show ?thesis using inv V by (simp add: dlist_inv_def)
qed

lemma dlist_add_inv:
  assumes inv: "dlist_inv s info hn ps xs" and m: "malloc (nodes s) = (p, h1)" "p \<noteq> NULL"
  shows "\<exists>s'. dlist_add s info d = Some s' \<and> dlist_inv s' info hn (p # ps) (d # xs)
    \<and> avail (nodes s') = avail h1"
proof -
  note r = dlist_invD(2)[OF inv] and ml = malloc_live[OF m]
  let ?f = "hd (ps @ [hn])"
  have p: "p \<notin> set (hn # ps)" using ring_live[OF r] ml(2) by blast
  have ne: "hn \<noteq> p" "?f \<noteq> p" using p hd_snoc_in[of ps hn] by auto
  have lv: "live h1 hn" "live h1 ?f"
    using ml(3) ring_live_head[OF r] ring_live_around(2)[of "nodes s" hn "[]" ps] r by auto
  have first: "rd h1 nxt hn = Some ?f"
    using dring_next_head[OF r] lv ne by (simp add: live_rd ml(4))
  let ?h2 = "upd (upd (upd h1 p (\<lambda>n. n\<lparr>nxt := ?f\<rparr>)) p (\<lambda>n. n\<lparr>prev := hn\<rparr>)) hn (\<lambda>n. n\<lparr>nxt := p\<rparr>)"
  let ?h3 = "upd (upd ?h2 ?f (\<lambda>n. n\<lparr>prev := p\<rparr>)) p (\<lambda>n. n\<lparr>priv := d\<rparr>)"
  have after: "rd ?h2 nxt p = Some ?f"
    using ne lv ml(1) by (simp add: heap_simps)
  have "dlist_add s info d = Some (s\<lparr>nodes := ?h3\<rparr>)"
    using dlist_invD(1)[OF inv] m first after lv ml(1)
    by (simp add: dlist_add_def live_wr live_upd)
  moreover have "dlist_inv (s\<lparr>nodes := ?h3\<rparr>) info hn ([] @ p # ps) ([] @ d # xs)"
    using inv lv ml(1) m ne
    by (intro dlist_link_in[where ?h1.0 = h1 and l = hn and f = ?f])
      (auto simp: heap_simps fun_upd_twist)
  moreover have "avail ?h3 = avail h1" by (simp add: avail_upd)
  ultimately show ?thesis by auto
qed

lemma dlist_add_tail_inv:
  assumes inv: "dlist_inv s info hn ps xs" and m: "malloc (nodes s) = (p, h1)" "p \<noteq> NULL"
  shows "\<exists>s'. dlist_add_tail s info d = Some s' \<and> dlist_inv s' info hn (ps @ [p]) (xs @ [d])
    \<and> avail (nodes s') = avail h1"
proof -
  note r = dlist_invD(2)[OF inv] and ml = malloc_live[OF m]
  define l where "l = last (hn # ps)"
  have p: "p \<notin> set (hn # ps)" using ring_live[OF r] ml(2) by blast
  have ne: "hn \<noteq> p" "l \<noteq> p" using p last_Cons_in[of hn ps] unfolding l_def by auto
  have lv: "live h1 hn" "live h1 l"
    using ml(3) ring_live_head[OF r] ring_live_around(1)[of "nodes s" hn ps "[]"] r
    unfolding l_def by auto
  have first: "fld h1 prev hn = Some l"
    using dring_prev_head[OF r] ne by (simp add: ml(4) l_def)
  let ?h2 = "upd h1 p (\<lambda>n. n\<lparr>nxt := hn\<rparr>)"
  let ?h3 = "upd (upd ?h2 p (\<lambda>n. n\<lparr>prev := l\<rparr>)) hn (\<lambda>n. n\<lparr>prev := p\<rparr>)"
  let ?h4 = "upd (upd ?h3 l (\<lambda>n. n\<lparr>nxt := p\<rparr>)) p (\<lambda>n. n\<lparr>priv := d\<rparr>)"
  have rds: "rd ?h2 prev hn = Some l" "rd ?h3 prev p = Some l"
    using ne lv ml(1) first by (simp_all add: heap_simps)
  have "dlist_add_tail s info d = Some (s\<lparr>nodes := ?h4\<rparr>)"
    using dlist_invD(1)[OF inv] m rds lv ml(1)
    by (simp add: dlist_add_tail_def live_wr live_upd)
  moreover have "dlist_inv (s\<lparr>nodes := ?h4\<rparr>) info hn (ps @ p # []) (xs @ d # [])"
    using inv lv ml(1) m ne dlist_invD(6)[OF inv]
    by (intro dlist_link_in[where ?h1.0 = h1 and l = l and f = hn])
      (auto simp: heap_simps fun_upd_twist l_def)
  moreover have "avail ?h4 = avail h1" by (simp add: avail_upd)
  ultimately show ?thesis by auto
qed

text \<open>When the allocation fails the list stays as it is and the caller is not told.\<close>

lemma dlist_inv_malloc_NULL:
  assumes "dlist_inv s info hn ps xs" and "malloc (nodes s) = (NULL, h1)"
  shows "dlist_inv (s\<lparr>nodes := h1\<rparr>) info hn ps xs" and "avail (nodes s) = []"
proof -
  have av: "avail (nodes s) = []"
    using assms by (auto simp: malloc_def dlist_inv_def fresh_avail_def split: list.splits if_splits)
  then have "h1 = nodes s" using assms(2) by (simp add: malloc_def)
  with assms(1) show "dlist_inv (s\<lparr>nodes := h1\<rparr>) info hn ps xs" by simp
  show "avail (nodes s) = []" by (rule av)
qed

lemma dlist_add_NULL:
  assumes "dlist_inv s info hn ps xs" and "malloc (nodes s) = (NULL, h1)"
  shows "dlist_add s info d = Some (s\<lparr>nodes := h1\<rparr>)"
    and "dlist_add_tail s info d = Some (s\<lparr>nodes := h1\<rparr>)"
  using assms(2) by (simp_all add: dlist_add_def dlist_add_tail_def dlist_invD(1)[OF assms(1)])

subsection \<open>Deletion\<close>

lemma dlist_del_inv:
  assumes inv: "dlist_inv s info hn (ps @ p # qs) (xs @ y # ys)" and len: "length ps = length xs"
  shows "\<exists>s'. dlist_del s p = Some s' \<and> dlist_inv s' info hn (ps @ qs) (xs @ ys)
    \<and> avail (nodes s') = avail (nodes s) \<and> mem (nodes s') p = None
    \<and> infos s' = infos s \<and> (\<forall>q. q \<notin> set (hn # ps @ p # qs) \<longrightarrow> mem (nodes s') q = mem (nodes s) q)"
proof -
  note r = dlist_invD(2)[OF inv]
  define l f where "l = last (hn # ps)" and "f = hd (qs @ [hn])"
  have lf: "l \<in> set (hn # ps)" "f \<in> set (hn # qs)"
    using last_Cons_in[of hn ps] hd_snoc_in[of qs hn] unfolding l_def f_def by auto
  have d: "distinct (hn # ps @ p # qs)" by (rule dring_distinct[OF r])
  have ne: "l \<noteq> p" "f \<noteq> p" using lf d by auto
  have lv: "live (nodes s) q" if "q \<in> set (hn # ps @ p # qs)" for q using that by (rule ring_live[OF r])
  have lv3: "live (nodes s) p" "live (nodes s) l" "live (nodes s) f" using lv lf by auto
  have lk: "fld (nodes s) nxt p = Some f" "fld (nodes s) prev p = Some l"
    using dring_next[OF r] dring_prev[OF r] by (simp_all add: l_def f_def)
  let ?h1 = "upd (nodes s) f (\<lambda>n. n\<lparr>prev := l\<rparr>)"
  let ?h2 = "upd (upd (upd ?h1 l (\<lambda>n. n\<lparr>nxt := f\<rparr>)) p (\<lambda>n. n\<lparr>prev := p\<rparr>)) p (\<lambda>n. n\<lparr>nxt := p\<rparr>)"
  let ?h3 = "?h2\<lparr>mem := (mem ?h2)(p := None)\<rparr>"
  have "rd ?h1 prev p = Some l" "rd ?h1 nxt p = Some f"
    using lk lv3 ne by (simp_all add: heap_simps)
  then have del: "dlist_del s p = Some (s\<lparr>nodes := ?h3\<rparr>)"
    using lk lv3 ne by (simp add: dlist_del_def live_rd live_wr live_upd live_free)
  have N: "fld ?h3 nxt = (fld (nodes s) nxt)(l := Some f, p := None)"
    and P: "fld ?h3 prev = (fld (nodes s) prev)(f := Some l, p := None)"
    and V: "fld ?h3 priv = (fld (nodes s) priv)(p := None)"
    using lv3 ne by (simp_all add: fld_free heap_simps fun_upd_twist)
  have "ring ?h3 hn (ps @ qs)"
    using dring_remove[OF r l_def f_def] d unfolding N P by simp
  moreover have "map (fld ?h3 priv) ps = map (fld (nodes s) priv) ps"
    "map (fld ?h3 priv) qs = map (fld (nodes s) priv) qs"
    using d by (auto intro!: priv_eq[where A = "{p}"] simp: V)
  moreover have "map (fld (nodes s) priv) ps = map Some xs" "map (fld (nodes s) priv) qs = map Some ys"
    using dlist_invD(3)[OF inv] len by (auto simp: append_eq_append_conv)
  moreover have "fresh_avail ?h3"
    using dlist_invD(4)[OF inv] by (intro fresh_avail_dealloc) (simp add: fresh_avail_upd)
  ultimately have "dlist_inv (s\<lparr>nodes := ?h3\<rparr>) info hn (ps @ qs) (xs @ ys)"
    using inv by (simp add: dlist_inv_def)
  moreover have "avail ?h3 = avail (nodes s)" by (simp add: avail_upd)
  moreover have "mem ?h3 q = mem (nodes s) q" if "q \<notin> set (hn # ps @ p # qs)" for q
    using that lf by (auto simp: mem_upd)
  ultimately show ?thesis using del by auto
qed

lemma dlist_del_first:
  assumes inv: "dlist_inv s info hn ps (x # xs)"
  shows "\<exists>p qs s'. ps = p # qs \<and> rd (nodes s) nxt hn = Some p \<and> rd (nodes s) priv p = Some x
    \<and> dlist_del s p = Some s' \<and> dlist_inv s' info hn qs xs \<and> avail (nodes s') = avail (nodes s)"
proof -
  obtain p qs where ps: "ps = p # qs" using dlist_invD(6)[OF inv] by (cases ps) auto
  note r = dlist_invD(2)[OF inv]
  have "rd (nodes s) nxt hn = Some p"
    using dring_next_head[OF r] ring_live_head[OF r] ps by (simp add: live_rd)
  moreover have "rd (nodes s) priv p = Some x"
    using dlist_invD(3)[OF inv] ring_live[OF r, of p] ps by (simp add: live_rd)
  ultimately show ?thesis using dlist_del_inv[of s info hn "[]" p qs "[]" x xs] inv ps by auto
qed

subsection \<open>Search and iteration\<close>

lemma dlist_find_loop_inv:
  assumes inv: "dlist_inv s info hn (ps @ qs) (xs @ ys)" and len: "length ps = length xs"
  shows "dlist_find_loop s info match (hd (qs @ [hn])) =
    Some (case filter (\<lambda>(q, y). match y) (zip qs ys) of [] \<Rightarrow> NULL | (q, y) # _ \<Rightarrow> q)"
  using assms
proof (induction qs arbitrary: ps xs ys)
  case Nil
  then show ?case by (subst dlist_find_loop.simps) (simp add: dlist_invD(1)[OF Nil.prems(1)])
next
  case (Cons q qs)
  then obtain y zs where ys: "ys = y # zs"
    using dlist_invD(6)[OF Cons.prems(1)] by (cases ys) auto
  note r = dlist_invD(2)[OF Cons.prems(1)]
  have q: "q \<noteq> hn" "live (nodes s) q" using dring_distinct[OF r] ring_live[OF r] by auto
  have y: "fld (nodes s) priv q = Some y"
    using dlist_invD(3)[OF Cons.prems(1)] Cons.prems(2) ys by (auto simp: append_eq_append_conv)
  have nx: "fld (nodes s) nxt q = Some (hd (qs @ [hn]))" by (rule dring_next[OF r])
  have IH: "dlist_find_loop s info match (hd (qs @ [hn])) =
      Some (case filter (\<lambda>(q, y). match y) (zip qs zs) of [] \<Rightarrow> NULL | (q, y) # _ \<Rightarrow> q)"
    using Cons.IH[of "ps @ [q]" "xs @ [y]" zs] Cons.prems ys by simp
  show ?case
    using q y nx IH ys
    by (subst dlist_find_loop.simps) (simp add: dlist_invD(1)[OF Cons.prems(1)] live_rd)
qed

text \<open>\<open>dlist_find\<close> returns the first node whose payload matches, NULL when there is none.\<close>

lemma dlist_find_inv:
  assumes inv: "dlist_inv s info hn ps xs"
  shows "dlist_find s info match =
    Some (case filter (\<lambda>(q, y). match y) (zip ps xs) of [] \<Rightarrow> NULL | (q, y) # _ \<Rightarrow> q)"
  using dlist_find_loop_inv[of s info hn "[]" ps "[]" xs match] inv
    dring_next_head[OF dlist_invD(2)[OF inv]] ring_live_head[OF dlist_invD(2)[OF inv]]
  by (simp add: dlist_find_def dlist_invD(1)[OF inv] live_rd)

text \<open>A callback that leaves the memory alone is applied to the payloads from front to back.\<close>

lemma dlist_for_each_loop_inv:
  assumes inv: "dlist_inv s info hn (ps @ qs) (xs @ ys)" and len: "length ps = length xs"
    and todo: "\<And>w q y. rd (nodes s) priv q = Some y \<Longrightarrow> todo (s, w) q = Some (s, f y w)"
  shows "dlist_for_each_loop info todo (s, w) (hd (qs @ [hn])) = Some (s, fold f ys w)"
  using assms(1,2)
proof (induction qs arbitrary: ps xs ys w)
  case Nil
  then show ?case
    using dlist_invD(6)[OF Nil.prems(1)]
    by (subst dlist_for_each_loop.simps) (simp add: dlist_invD(1)[OF Nil.prems(1)])
next
  case (Cons q qs)
  then obtain y zs where ys: "ys = y # zs"
    using dlist_invD(6)[OF Cons.prems(1)] by (cases ys) auto
  note r = dlist_invD(2)[OF Cons.prems(1)]
  have q: "q \<noteq> hn" "live (nodes s) q" using dring_distinct[OF r] ring_live[OF r] by auto
  have y: "rd (nodes s) priv q = Some y"
    using dlist_invD(3)[OF Cons.prems(1)] Cons.prems(2) ys q by (auto simp: append_eq_append_conv live_rd)
  have nx: "rd (nodes s) nxt q = Some (hd (qs @ [hn]))" using dring_next[OF r] q by (simp add: live_rd)
  have "dlist_for_each_loop info todo (s, f y w) (hd (qs @ [hn])) = Some (s, fold f zs (f y w))"
    using Cons.IH[of "ps @ [q]" "xs @ [y]" zs "f y w"] Cons.prems ys by simp
  then show ?case
    using q nx todo[OF y] ys
    by (subst dlist_for_each_loop.simps) (simp add: dlist_invD(1)[OF Cons.prems(1)])
qed

lemma dlist_for_each_inv:
  assumes inv: "dlist_inv s info hn ps xs"
    and todo: "\<And>w q y. rd (nodes s) priv q = Some y \<Longrightarrow> todo (s, w) q = Some (s, f y w)"
  shows "dlist_for_each (s, w) info todo = Some (s, fold f xs w)"
  using dlist_for_each_loop_inv[of s info hn "[]" ps "[]" xs todo f w] assms
    dring_next_head[OF dlist_invD(2)[OF inv]] ring_live_head[OF dlist_invD(2)[OF inv]]
  by (simp add: dlist_for_each_def dlist_invD(1)[OF inv] live_rd)

subsection \<open>Creation and destruction\<close>

lemma dlist_init_inv:
  assumes m: "malloc (nodes s) = (p, h1)" "p \<noteq> NULL" and i: "live (infos s) info"
    and fr: "fresh_avail (nodes s)"
  shows "\<exists>s'. dlist_init s info = Some (0, s') \<and> dlist_inv s' info p [] []
    \<and> avail (nodes s') = avail h1 \<and> (\<forall>q. live (infos s') q = live (infos s) q)"
proof -
  note ml = malloc_live[OF m]
  let ?h = "upd (upd h1 p (\<lambda>n. n\<lparr>nxt := p\<rparr>)) p (\<lambda>n. n\<lparr>prev := p\<rparr>)"
  let ?i = "upd (infos s) info (\<lambda>n. n\<lparr>head := p\<rparr>)"
  have "dlist_init s info = Some (0, s\<lparr>nodes := ?h, infos := ?i\<rparr>)"
    using m i ml(1) by (simp add: dlist_init_def live_wr live_upd)
  moreover have "fresh_avail ?h"
    using fresh_avail_step[OF fr m(1)] by (simp add: fresh_avail_upd)
  then have "dlist_inv (s\<lparr>nodes := ?h, infos := ?i\<rparr>) info p [] []"
    using m(2) i ml(1) by (simp add: dlist_inv_def heap_simps)
  ultimately show ?thesis by (auto simp: heap_simps)
qed

lemma dlist_init_NULL:
  assumes "malloc (nodes s) = (NULL, h1)" and "live (infos s) info"
  shows "dlist_init s info =
    Some (-1, s\<lparr>nodes := h1, infos := upd (infos s) info (\<lambda>n. n\<lparr>head := NULL\<rparr>)\<rparr>)"
  using assms by (simp add: dlist_init_def live_wr)

lemma dlist_destroy_loop_inv:
  assumes "dlist_inv s info hn ps xs"
  shows "\<exists>s'. dlist_for_each_safe_loop info dlist_del s (hd (ps @ [hn])) = Some s'
    \<and> dlist_inv s' info hn [] [] \<and> avail (nodes s') = avail (nodes s)
    \<and> (\<forall>q \<in> set ps. mem (nodes s') q = None)
    \<and> (\<forall>q. q \<notin> set (hn # ps) \<longrightarrow> mem (nodes s') q = mem (nodes s) q)"
  using assms
proof (induction ps arbitrary: s xs)
  case Nil
  then show ?case
    by (subst dlist_for_each_safe_loop.simps) (auto simp: dlist_invD(1)[OF Nil] dlist_inv_def)
next
  case (Cons p ps)
  then obtain x ys where xs: "xs = x # ys" using dlist_invD(6)[OF Cons.prems] by (cases xs) auto
  note r = dlist_invD(2)[OF Cons.prems]
  have p: "p \<noteq> hn" "p \<notin> set ps" "rd (nodes s) nxt p = Some (hd (ps @ [hn]))"
    using dring_distinct[OF r] dring_next[of "fld (nodes s) nxt" "fld (nodes s) prev" hn "[]" p ps] r
      ring_live[OF r, of p] by (auto simp: live_rd)
  obtain s1 where s1: "dlist_del s p = Some s1" "dlist_inv s1 info hn ps ys"
    "avail (nodes s1) = avail (nodes s)" "mem (nodes s1) p = None"
    "\<forall>q. q \<notin> set (hn # p # ps) \<longrightarrow> mem (nodes s1) q = mem (nodes s) q"
    using dlist_del_inv[of s info hn "[]" p ps "[]" x ys] Cons.prems xs by auto
  obtain s' where s': "dlist_for_each_safe_loop info dlist_del s1 (hd (ps @ [hn])) = Some s'"
    "dlist_inv s' info hn [] []" "avail (nodes s') = avail (nodes s1)"
    "\<forall>q \<in> set ps. mem (nodes s') q = None"
    "\<forall>q. q \<notin> set (hn # ps) \<longrightarrow> mem (nodes s') q = mem (nodes s1) q"
    using Cons.IH[OF s1(2)] by blast
  have "dlist_for_each_safe_loop info dlist_del s p = Some s'"
    using p s1(1) s'(1) by (subst dlist_for_each_safe_loop.simps) (simp add: dlist_invD(1)[OF Cons.prems])
  moreover have "mem (nodes s') p = None" using s'(5) s1(4) p by simp
  ultimately show ?case using s' s1 by (intro exI[of _ s']) auto
qed

text \<open>\<open>dlist_destroy\<close> frees the head and every node, and nothing else.\<close>

lemma dlist_destroy_inv:
  assumes inv: "dlist_inv s info hn ps xs"
  shows "\<exists>s'. dlist_destroy s info = Some (0, s') \<and> live (infos s') info
    \<and> mem (nodes s') = (mem (nodes s)) |` (- set (hn # ps))"
proof -
  obtain s1 where s1: "dlist_for_each_safe_loop info dlist_del s (hd (ps @ [hn])) = Some s1"
    "dlist_inv s1 info hn [] []" "\<forall>q \<in> set ps. mem (nodes s1) q = None"
    "\<forall>q. q \<notin> set (hn # ps) \<longrightarrow> mem (nodes s1) q = mem (nodes s) q"
    using dlist_destroy_loop_inv[OF inv] by blast
  have "rd (nodes s) nxt hn = Some (hd (ps @ [hn]))"
    using dring_next_head[OF dlist_invD(2)[OF inv]] ring_live_head[OF dlist_invD(2)[OF inv]]
    by (simp add: live_rd)
  then have "dlist_destroy s info =
      Some (0, s1\<lparr>nodes := (nodes s1)\<lparr>mem := (mem (nodes s1))(hn := None)\<rparr>\<rparr>)"
    using s1(1) ring_live_head[OF dlist_invD(2)[OF s1(2)]]
    by (simp add: dlist_destroy_def dlist_for_each_safe_def dlist_invD(1)[OF inv]
        dlist_invD(1)[OF s1(2)] live_free)
  moreover have "(mem (nodes s1))(hn := None) = (mem (nodes s)) |` (- set (hn # ps))"
    using s1(3,4) by (auto simp: restrict_map_def fun_eq_iff)
  moreover have "live (infos s1) info" by (rule dlist_invD(5)[OF s1(2)])
  ultimately show ?thesis by simp
qed

text \<open>The first version of the library leaks every node but the head.\<close>

lemma dlist_destroy_head_leaks:
  assumes inv: "dlist_inv s info hn ps xs"
  shows "\<exists>s'. dlist_destroy_head s info = Some (0, s')
    \<and> (\<forall>q \<in> set ps. mem (nodes s') q = mem (nodes s) q \<and> mem (nodes s') q \<noteq> None)"
proof -
  note r = dlist_invD(2)[OF inv]
  have "q \<noteq> hn \<and> mem (nodes s) q \<noteq> None" if "q \<in> set ps" for q
    using that dring_distinct[OF r] ring_live[OF r, of q] by (auto simp: live_def)
  then show ?thesis
    using ring_live_head[OF r] by (simp add: dlist_destroy_head_def dlist_invD(1)[OF inv] live_free)
qed

end
