(* ===== verification/Stack.thy ===== *)
theory Stack
  imports Dlist
begin

section \<open>Stack and queue over the doubly linked list (stack.c, queue.c)\<close>

text \<open>
  \<open>struct stack_info\<close> and \<open>struct queue_info\<close> hold a pointer to a list object and a table of function
  pointers. The clients go through that table only, so it is a record of operations \<open>ops\<close>, and what
  they may rely on is the locale \<open>dispenser\<close>: the operations represent a list \<open>xs\<close> of elements, \<open>put\<close>
  says where \<open>push\<close> inserts, and \<open>cap\<close> is the number of pushes the allocator will still serve. A push
  beyond it returns 0 like any other and loses the element, as the source does. \<open>lifo\<close> and \<open>fifo\<close>
  fix the insertion; \<open>stack_ops\<close> and \<open>queue_ops\<close>, the tables that \<open>stack_init\<close> and \<open>queue_init\<close> fill
  in, are shown to satisfy them.
\<close>

record ('s, 'a) container_ops =
  push :: "'s \<Rightarrow> 'a \<Rightarrow> (int \<times> 's) option"
  top :: "'s \<Rightarrow> 'a \<Rightarrow> (int \<times> 'a) option"
  pop :: "'s \<Rightarrow> 'a \<Rightarrow> (int \<times> 'a \<times> 's) option"
  is_empty :: "'s \<Rightarrow> bool option"

record 'a stack_info =
  dlist :: ptr
  dmem :: "'a dstate"

definition stack_is_empty :: "'a stack_info \<Rightarrow> bool option" where
  "stack_is_empty info = dlist_is_empty (dmem info) (dlist info)"

definition stack_push :: "'a stack_info \<Rightarrow> 'a \<Rightarrow> (int \<times> 'a stack_info) option" where
  "stack_push info d = do {
     s \<leftarrow> dlist_add (dmem info) (dlist info) d;
     Some (0, info\<lparr>dmem := s\<rparr>)
   }"

text \<open>\<open>dest\<close> is the contents of the output parameter before the call and, in the result, after it.\<close>

definition stack_top :: "'a stack_info \<Rightarrow> 'a \<Rightarrow> (int \<times> 'a) option" where
  "stack_top info dest = do {
     e \<leftarrow> stack_is_empty info;
     (if e then Some (-1, dest)
      else do {
        hn \<leftarrow> rd (infos (dmem info)) head (dlist info);
        first \<leftarrow> rd (nodes (dmem info)) nxt hn;
        x \<leftarrow> rd (nodes (dmem info)) priv first;
        Some (0, x)
      })
   }"

definition stack_pop :: "'a stack_info \<Rightarrow> 'a \<Rightarrow> (int \<times> 'a \<times> 'a stack_info) option" where
  "stack_pop info dest = do {
     (r, dest) \<leftarrow> stack_top info dest;
     (if r < 0 then Some (-1, dest, info)
      else do {
        hn \<leftarrow> rd (infos (dmem info)) head (dlist info);
        first \<leftarrow> rd (nodes (dmem info)) nxt hn;
        s \<leftarrow> dlist_del (dmem info) first;
        Some (0, dest, info\<lparr>dmem := s\<rparr>)
      })
   }"

definition stack_ops :: "('a stack_info, 'a) container_ops" where
  "stack_ops = \<lparr>push = stack_push, top = stack_top, pop = stack_pop, is_empty = stack_is_empty\<rparr>"

text \<open>
  \<open>stack_init\<close> allocates the list object and initialises it; it does not look at the result of
  \<open>dlist_init\<close>, so a failing allocation of the head node goes unreported.
\<close>

definition stack_init :: "'a stack_info \<Rightarrow> (int \<times> 'a stack_info) option" where
  "stack_init info = (let (p, i) = malloc (infos (dmem info));
       s = (dmem info)\<lparr>infos := i\<rparr> in
     if p = NULL then Some (-1, info\<lparr>dlist := NULL, dmem := s\<rparr>)
     else do {
       (r, s) \<leftarrow> dlist_init s p;
       Some (0, info\<lparr>dlist := p, dmem := s\<rparr>)
     })"

definition stack_destroy :: "'a stack_info \<Rightarrow> (int \<times> 'a stack_info) option" where
  "stack_destroy info = do {
     (r, s) \<leftarrow> dlist_destroy (dmem info) (dlist info);
     i \<leftarrow> free (infos s) (dlist info);
     Some (0, info\<lparr>dmem := s\<lparr>infos := i\<rparr>\<rparr>)
   }"

text \<open>The queue differs from the stack in the end at which it inserts.\<close>

definition queue_is_empty :: "'a stack_info \<Rightarrow> bool option" where
  "queue_is_empty info = dlist_is_empty (dmem info) (dlist info)"

definition queue_push :: "'a stack_info \<Rightarrow> 'a \<Rightarrow> (int \<times> 'a stack_info) option" where
  "queue_push info d = do {
     s \<leftarrow> dlist_add_tail (dmem info) (dlist info) d;
     Some (0, info\<lparr>dmem := s\<rparr>)
   }"

definition queue_top :: "'a stack_info \<Rightarrow> 'a \<Rightarrow> (int \<times> 'a) option" where
  "queue_top info dest = do {
     e \<leftarrow> queue_is_empty info;
     (if e then Some (-1, dest)
      else do {
        hn \<leftarrow> rd (infos (dmem info)) head (dlist info);
        first \<leftarrow> rd (nodes (dmem info)) nxt hn;
        x \<leftarrow> rd (nodes (dmem info)) priv first;
        Some (0, x)
      })
   }"

definition queue_pop :: "'a stack_info \<Rightarrow> 'a \<Rightarrow> (int \<times> 'a \<times> 'a stack_info) option" where
  "queue_pop info dest = do {
     (r, dest) \<leftarrow> queue_top info dest;
     (if r < 0 then Some (-1, dest, info)
      else do {
        hn \<leftarrow> rd (infos (dmem info)) head (dlist info);
        first \<leftarrow> rd (nodes (dmem info)) nxt hn;
        s \<leftarrow> dlist_del (dmem info) first;
        Some (0, dest, info\<lparr>dmem := s\<rparr>)
      })
   }"

definition queue_ops :: "('a stack_info, 'a) container_ops" where
  "queue_ops = \<lparr>push = queue_push, top = queue_top, pop = queue_pop, is_empty = queue_is_empty\<rparr>"

definition queue_init :: "'a stack_info \<Rightarrow> (int \<times> 'a stack_info) option" where
  "queue_init info = (let (p, i) = malloc (infos (dmem info));
       s = (dmem info)\<lparr>infos := i\<rparr> in
     if p = NULL then Some (-1, info\<lparr>dlist := NULL, dmem := s\<rparr>)
     else do {
       (r, s) \<leftarrow> dlist_init s p;
       Some (0, info\<lparr>dlist := p, dmem := s\<rparr>)
     })"

definition queue_destroy :: "'a stack_info \<Rightarrow> (int \<times> 'a stack_info) option" where
  "queue_destroy info = do {
     (r, s) \<leftarrow> dlist_destroy (dmem info) (dlist info);
     i \<leftarrow> free (infos s) (dlist info);
     Some (0, info\<lparr>dmem := s\<lparr>infos := i\<rparr>\<rparr>)
   }"

subsection \<open>The contract\<close>

text \<open>The draining loop of the stack demo: \<open>while (pop(&t) == 0) print t\<close>, over any container.\<close>

partial_function (option) drain ::
    "('s, 'a) container_ops \<Rightarrow> 's \<Rightarrow> 'a \<Rightarrow> ('a list \<times> 's) option" where
  "drain ops s t = do {
     (r, t, s) \<leftarrow> pop ops s t;
     (if r = 0 then do { (out, s) \<leftarrow> drain ops s t; Some (t # out, s) } else Some ([], s))
   }"

fun push_all :: "('s, 'a) container_ops \<Rightarrow> 's \<Rightarrow> 'a list \<Rightarrow> 's option" where
  "push_all ops s [] = Some s"
| "push_all ops s (x # xs) = do { (r, s) \<leftarrow> push ops s x; push_all ops s xs }"

locale dispenser =
  fixes ops :: "('s, 'a) container_ops"
    and rep :: "'s \<Rightarrow> 'a list \<Rightarrow> bool"
    and cap :: "'s \<Rightarrow> nat"
    and put :: "'a \<Rightarrow> 'a list \<Rightarrow> 'a list"
  assumes is_empty_rep: "rep s xs \<Longrightarrow> is_empty ops s = Some (xs = [])"
    and push_rep: "rep s xs \<Longrightarrow> 0 < cap s \<Longrightarrow>
      \<exists>s'. push ops s x = Some (0, s') \<and> rep s' (put x xs) \<and> cap s = Suc (cap s')"
    and push_full: "rep s xs \<Longrightarrow> cap s = 0 \<Longrightarrow>
      \<exists>s'. push ops s x = Some (0, s') \<and> rep s' xs \<and> cap s' = 0"
    and top_empty: "rep s [] \<Longrightarrow> top ops s d = Some (-1, d)"
    and top_rep: "rep s (x # xs) \<Longrightarrow> top ops s d = Some (0, x)"
    and pop_empty: "rep s [] \<Longrightarrow> pop ops s d = Some (-1, d, s)"
    and pop_rep: "rep s (x # xs) \<Longrightarrow> \<exists>s'. pop ops s d = Some (0, x, s') \<and> rep s' xs \<and> cap s' = cap s"
begin

lemma drain_rep: "rep s xs \<Longrightarrow> \<exists>s'. drain ops s d = Some (xs, s') \<and> rep s' []"
proof (induction xs arbitrary: s d)
  case Nil
  then show ?case by (subst drain.simps) (simp add: pop_empty)
next
  case (Cons x xs)
  from pop_rep[OF Cons.prems] obtain s' where "pop ops s d = Some (0, x, s')" "rep s' xs" by blast
  with Cons.IH[of s' x] show ?case by (subst drain.simps) auto
qed

lemma push_all_rep:
  "rep s xs \<Longrightarrow> length ys \<le> cap s \<Longrightarrow>
     \<exists>s'. push_all ops s ys = Some s' \<and> rep s' (fold put ys xs) \<and> cap s = cap s' + length ys"
proof (induction ys arbitrary: s xs)
  case Nil
  then show ?case by simp
next
  case (Cons y ys)
  from push_rep[OF Cons.prems(1), of y] Cons.prems(2) obtain s' where
    "push ops s y = Some (0, s')" "rep s' (put y xs)" "cap s = Suc (cap s')" by auto
  with Cons.IH[of s' "put y xs"] Cons.prems(2) show ?case by auto
qed

end

locale lifo = dispenser ops rep cap "(#)"
  for ops :: "('s, 'a) container_ops" and rep cap
begin

lemma fold_push: "fold (#) ys xs = rev ys @ xs"
  by (induction ys arbitrary: xs) auto

lemma fill_drain_reverses:
  assumes "rep s []" and "length ys \<le> cap s"
  shows "\<exists>s1 s2. push_all ops s ys = Some s1 \<and> drain ops s1 d = Some (rev ys, s2) \<and> rep s2 []"
  using push_all_rep[OF assms] drain_rep[of _ "rev ys" d] by (auto simp: fold_push)

end

locale fifo = dispenser ops rep cap "\<lambda>x xs. xs @ [x]"
  for ops :: "('s, 'a) container_ops" and rep cap
begin

lemma fold_append: "fold (\<lambda>x xs. xs @ [x]) ys xs = xs @ ys"
  by (induction ys arbitrary: xs) auto

lemma fill_drain_keeps:
  assumes "rep s []" and "length ys \<le> cap s"
  shows "\<exists>s1 s2. push_all ops s ys = Some s1 \<and> drain ops s1 d = Some (ys, s2) \<and> rep s2 []"
  using push_all_rep[OF assms] drain_rep[of _ ys d] by (auto simp: fold_append)

end

subsection \<open>The list-backed containers satisfy the contract\<close>

definition stack_rep :: "'a stack_info \<Rightarrow> 'a list \<Rightarrow> bool" where
  "stack_rep info xs \<longleftrightarrow> (\<exists>hn ps. dlist_inv (dmem info) (dlist info) hn ps xs)"

definition stack_cap :: "'a stack_info \<Rightarrow> nat" where
  "stack_cap info = length (avail (nodes (dmem info)))"

lemma stack_repE:
  assumes "stack_rep info xs"
  obtains hn ps where "dlist_inv (dmem info) (dlist info) hn ps xs"
  using assms by (auto simp: stack_rep_def)

lemma stack_repI: "dlist_inv (dmem info) (dlist info) hn ps xs \<Longrightarrow> stack_rep info xs"
  by (auto simp: stack_rep_def)

lemma stack_is_empty_rep: "stack_rep info xs \<Longrightarrow> stack_is_empty info = Some (xs = [])"
  by (auto simp: stack_is_empty_def stack_rep_def dlist_is_empty_inv)

lemma stack_push_rep:
  assumes "stack_rep info xs" and "0 < stack_cap info"
  shows "\<exists>s'. stack_push info x = Some (0, s') \<and> stack_rep s' (x # xs) \<and> stack_cap info = Suc (stack_cap s')"
proof -
  obtain hn ps where inv: "dlist_inv (dmem info) (dlist info) hn ps xs" using assms(1) by (rule stack_repE)
  obtain p h1 where m: "malloc (nodes (dmem info)) = (p, h1)" by fastforce
  note av = malloc_avail[OF dlist_invD(4)[OF inv] m]
  have p: "p \<noteq> NULL" using av(1) assms(2) by (auto simp: stack_cap_def)
  obtain s1 where s1: "dlist_add (dmem info) (dlist info) x = Some s1"
    "dlist_inv s1 (dlist info) hn (p # ps) (x # xs)" "avail (nodes s1) = avail h1"
    using dlist_add_inv[OF inv m p, of x] by blast
  have "stack_rep (info\<lparr>dmem := s1\<rparr>) (x # xs)" using s1(2) by (intro stack_repI) simp
  with s1(1,3) av(2)[OF p] show ?thesis by (auto simp: stack_push_def stack_cap_def)
qed

lemma queue_push_rep:
  assumes "stack_rep info xs" and "0 < stack_cap info"
  shows "\<exists>s'. queue_push info x = Some (0, s') \<and> stack_rep s' (xs @ [x]) \<and> stack_cap info = Suc (stack_cap s')"
proof -
  obtain hn ps where inv: "dlist_inv (dmem info) (dlist info) hn ps xs" using assms(1) by (rule stack_repE)
  obtain p h1 where m: "malloc (nodes (dmem info)) = (p, h1)" by fastforce
  note av = malloc_avail[OF dlist_invD(4)[OF inv] m]
  have p: "p \<noteq> NULL" using av(1) assms(2) by (auto simp: stack_cap_def)
  obtain s1 where s1: "dlist_add_tail (dmem info) (dlist info) x = Some s1"
    "dlist_inv s1 (dlist info) hn (ps @ [p]) (xs @ [x])" "avail (nodes s1) = avail h1"
    using dlist_add_tail_inv[OF inv m p, of x] by blast
  have "stack_rep (info\<lparr>dmem := s1\<rparr>) (xs @ [x])" using s1(2) by (intro stack_repI) simp
  with s1(1,3) av(2)[OF p] show ?thesis by (auto simp: queue_push_def stack_cap_def)
qed

lemma push_full_rep:
  assumes "stack_rep info xs" and "stack_cap info = 0"
  shows "stack_push info x = Some (0, info)" and "queue_push info x = Some (0, info)"
proof -
  obtain hn ps where inv: "dlist_inv (dmem info) (dlist info) hn ps xs" using assms(1) by (rule stack_repE)
  obtain p h1 where m: "malloc (nodes (dmem info)) = (p, h1)" by fastforce
  note av = malloc_avail[OF dlist_invD(4)[OF inv] m]
  have p: "p = NULL" "h1 = nodes (dmem info)" using av assms(2) by (auto simp: stack_cap_def)
  have "dlist_add (dmem info) (dlist info) x = Some (dmem info)"
    "dlist_add_tail (dmem info) (dlist info) x = Some (dmem info)"
    using dlist_add_NULL[OF inv, of h1 x] m p by simp_all
  then show "stack_push info x = Some (0, info)" and "queue_push info x = Some (0, info)"
    by (simp_all add: stack_push_def queue_push_def)
qed

lemma stack_top_rep:
  "stack_rep info [] \<Longrightarrow> stack_top info d = Some (-1, d)"
  "stack_rep info (x # xs) \<Longrightarrow> stack_top info d = Some (0, x)"
proof -
  show "stack_rep info [] \<Longrightarrow> stack_top info d = Some (-1, d)"
    by (simp add: stack_top_def stack_is_empty_rep)
  assume rep: "stack_rep info (x # xs)"
  then obtain hn ps where inv: "dlist_inv (dmem info) (dlist info) hn ps (x # xs)"
    by (rule stack_repE)
  from dlist_del_first[OF inv] show "stack_top info d = Some (0, x)"
    by (auto simp: stack_top_def stack_is_empty_rep[OF rep] dlist_invD(1)[OF inv])
qed

lemma stack_pop_empty: "stack_rep info [] \<Longrightarrow> stack_pop info d = Some (-1, d, info)"
  by (simp add: stack_pop_def stack_top_rep)

lemma stack_pop_rep:
  assumes "stack_rep info (x # xs)"
  shows "\<exists>s'. stack_pop info d = Some (0, x, s') \<and> stack_rep s' xs \<and> stack_cap s' = stack_cap info"
proof -
  obtain hn ps where inv: "dlist_inv (dmem info) (dlist info) hn ps (x # xs)"
    using assms by (rule stack_repE)
  obtain p qs s1 where s1: "rd (nodes (dmem info)) nxt hn = Some p"
    "dlist_del (dmem info) p = Some s1" "dlist_inv s1 (dlist info) hn qs xs"
    "avail (nodes s1) = avail (nodes (dmem info))"
    using dlist_del_first[OF inv] by blast
  have "stack_rep (info\<lparr>dmem := s1\<rparr>) xs" using s1(3) by (intro stack_repI) simp
  with s1(1,2,4) stack_top_rep(2)[OF assms] dlist_invD(1)[OF inv] show ?thesis
    by (simp add: stack_pop_def stack_cap_def)
qed

lemma queue_ops_stack:
  "queue_is_empty info = stack_is_empty info" "queue_top info d = stack_top info d"
  "queue_pop info d = stack_pop info d"
  by (simp_all add: queue_is_empty_def stack_is_empty_def queue_top_def stack_top_def
      queue_pop_def stack_pop_def)

interpretation st: lifo stack_ops stack_rep stack_cap
  by unfold_locales (auto simp: stack_ops_def stack_is_empty_rep stack_top_rep stack_pop_empty
      push_full_rep intro: stack_push_rep stack_pop_rep)

interpretation qu: fifo queue_ops stack_rep stack_cap
  by unfold_locales (auto simp: queue_ops_def queue_ops_stack stack_is_empty_rep stack_top_rep
      stack_pop_empty push_full_rep intro: queue_push_rep stack_pop_rep)

subsection \<open>Creation and destruction\<close>

text \<open>\<open>stack_fresh\<close>: the allocators may serve the list object and the head node of a new container.\<close>

definition stack_fresh :: "'a stack_info \<Rightarrow> bool" where
  "stack_fresh info \<longleftrightarrow> fresh_avail (infos (dmem info)) \<and> avail (infos (dmem info)) \<noteq> []
     \<and> fresh_avail (nodes (dmem info)) \<and> avail (nodes (dmem info)) \<noteq> []"

lemma stack_init_rep:
  assumes "stack_fresh info"
  shows "\<exists>s. stack_init info = Some (0, s) \<and> stack_rep s [] \<and> stack_cap info = Suc (stack_cap s)"
proof -
  note fr = assms[unfolded stack_fresh_def]
  obtain p i where i: "malloc (infos (dmem info)) = (p, i)" by fastforce
  have p: "p \<noteq> NULL" using malloc_avail[OF _ i] fr by auto
  let ?s = "(dmem info)\<lparr>infos := i\<rparr>"
  obtain q h where q: "malloc (nodes (dmem info)) = (q, h)" by fastforce
  have q': "q \<noteq> NULL" "length (avail (nodes (dmem info))) = Suc (length (avail h))"
    using malloc_avail[OF _ q] fr by auto
  obtain s' where s': "dlist_init ?s p = Some (0, s')" "dlist_inv s' p q [] []" "avail (nodes s') = avail h"
    using dlist_init_inv[of ?s q h p] q q' fr malloc_live[OF i p] by auto
  have "stack_rep (info\<lparr>dlist := p, dmem := s'\<rparr>) []" using s'(2) by (intro stack_repI) simp
  then show ?thesis
    using p i s'(1,3) q' by (simp add: stack_init_def stack_cap_def)
qed

lemma stack_destroy_rep:
  assumes "stack_rep info xs"
  shows "\<exists>s hn ps. stack_destroy info = Some (0, s) \<and> dlist_inv (dmem info) (dlist info) hn ps xs
    \<and> mem (nodes (dmem s)) = mem (nodes (dmem info)) |` (- set (hn # ps))
    \<and> mem (infos (dmem s)) (dlist info) = None"
proof -
  obtain hn ps where inv: "dlist_inv (dmem info) (dlist info) hn ps xs" using assms by (rule stack_repE)
  obtain s' where "dlist_destroy (dmem info) (dlist info) = Some (0, s')" "live (infos s') (dlist info)"
    "mem (nodes s') = mem (nodes (dmem info)) |` (- set (hn # ps))"
    using dlist_destroy_inv[OF inv] by blast
  then show ?thesis using inv by (auto simp: stack_destroy_def live_free)
qed

text \<open>A head node that could not be allocated goes unreported, and the container is unusable.\<close>

lemma stack_init_no_head:
  assumes "fresh_avail (infos (dmem info))" and "avail (infos (dmem info)) \<noteq> []"
    and "avail (nodes (dmem info)) = []" and "mem (nodes (dmem info)) NULL = None"
  shows "\<exists>s. stack_init info = Some (0, s) \<and> stack_is_empty s = None \<and> stack_push s x = Some (0, s)"
proof -
  obtain p i where i: "malloc (infos (dmem info)) = (p, i)" by fastforce
  have p: "p \<noteq> NULL" using malloc_avail[OF _ i] assms by auto
  have m: "malloc (nodes (dmem info)) = (NULL, nodes (dmem info))" using assms(3) by (simp add: malloc_def)
  let ?i = "upd i p (\<lambda>n. n\<lparr>head := NULL\<rparr>)"
  let ?s = "info\<lparr>dlist := p, dmem := (dmem info)\<lparr>infos := ?i\<rparr>\<rparr>"
  have lv: "live i p" by (rule malloc_live(1)[OF i p])
  have "stack_init info = Some (0, ?s)"
    using i p m lv by (simp add: stack_init_def dlist_init_NULL[where ?h1.0 = "nodes (dmem info)"])
  moreover have "rd ?i head p = Some NULL" using lv by (simp add: heap_simps)
  then have "stack_is_empty ?s = None" "stack_push ?s x = Some (0, ?s)"
    using m assms(4) by (simp_all add: stack_is_empty_def dlist_is_empty_def stack_push_def dlist_add_def
        rd_def)
  ultimately show ?thesis by blast
qed

lemma queue_init_stack: "queue_init info = stack_init info" "queue_destroy info = stack_destroy info"
  by (simp_all add: queue_init_def stack_init_def queue_destroy_def stack_destroy_def)

end
