(* ===== verification/Calc.thy ===== *)
theory Calc
  imports Stack "HOL-Library.Signed_Division"
begin

section \<open>The calculator (03Calc/calc.c)\<close>

text \<open>
  The calculator scans an expression once, with a stack of numbers and a stack of operators that it
  reaches only through their tables of function pointers. The handlers are therefore functions of two
  tables \<open>N\<close> and \<open>C\<close>; \<open>stack_ops\<close> is what \<open>calc_init\<close> installs. \<open>cur\<close> is the rest of the expression, a
  C string: its end stands for the terminating NUL.

  \<open>num_t\<close> is \<open>int\<close>: \<open>chk\<close> makes an overflow the undefined result None, as are the trap of \<open>a % 0\<close>
  and a loop that does not end. The messages on stderr are not modelled. Every handler returns the
  C result and the new state.
\<close>

datatype flag_t = OPR | NUM

record ('s, 't) calc_info =
  num :: 's
  opr :: 't
  cur :: string
  flag :: flag_t

definition chk :: "int \<Rightarrow> int option" where
  "chk x = (if - (2 ^ 31) \<le> x \<and> x < 2 ^ 31 then Some x else None)"

definition deref :: "string \<Rightarrow> char" where
  "deref s = (case s of [] \<Rightarrow> CHR 0x00 | c # _ \<Rightarrow> c)"

definition num_handle :: "('s, int) container_ops \<Rightarrow> ('s, 't) calc_info \<Rightarrow>
    (int \<times> ('s, 't) calc_info) option" where
  "num_handle N info = do {
     let n = of_char (deref (cur info)) - 48;
     (n, info) \<leftarrow>
       (if flag info = OPR then Some (n, info\<lparr>flag := NUM\<rparr>)
        else do {
          (r, prev_n, s) \<leftarrow> pop N (num info) 0;
          m \<leftarrow> chk (prev_n * 10);
          n \<leftarrow> chk (n + m);
          Some (n, info\<lparr>num := s\<rparr>)
        });
     (r, s) \<leftarrow> push N (num info) n;
     Some (0, info\<lparr>num := s\<rparr>)
   }"

definition opr2level :: "char \<Rightarrow> int" where
  "opr2level c = (if c \<in> {CHR ''*'', CHR ''/'', CHR ''%''} then 2
     else if c \<in> {CHR ''+'', CHR ''-''} then 1 else 0)"

text \<open>
  The switch of \<open>do_stack\<close>: an error code, the value, or None where C leaves it undefined (a trap, an
  overflow, and the default branch, which goes on with an uninitialised \<open>ret\<close>).
\<close>

definition do_opr :: "char \<Rightarrow> int \<Rightarrow> int \<Rightarrow> (int + int) option" where
  "do_opr c a b =
    (if c = CHR ''+'' then map_option Inr (chk (a + b))
     else if c = CHR ''-'' then map_option Inr (chk (a - b))
     else if c = CHR ''*'' then map_option Inr (chk (a * b))
     else if c = CHR ''/'' then (if b = 0 then Some (Inl (-3)) else map_option Inr (chk (a sdiv b)))
     else if c = CHR ''%'' then
       (if b = 0 then None else map_option (\<lambda>_. Inr (a smod b)) (chk (a sdiv b)))
     else None)"

definition do_stack :: "('s, int) container_ops \<Rightarrow> ('t, char) container_ops \<Rightarrow> ('s, 't) calc_info \<Rightarrow>
    (int \<times> ('s, 't) calc_info) option" where
  "do_stack N C info = do {
     (r, b, s) \<leftarrow> pop N (num info) 0;
     (if r < 0 then Some (-1, info\<lparr>num := s\<rparr>)
      else do {
        (r, a, s) \<leftarrow> pop N s 0;
        (if r < 0 then Some (-1, info\<lparr>num := s\<rparr>)
         else do {
           (r, c, t) \<leftarrow> pop C (opr info) (CHR 0x00);
           (if r < 0 then Some (-2, info\<lparr>num := s, opr := t\<rparr>)
            else do {
              v \<leftarrow> do_opr c a b;
              (case v of
                 Inl e \<Rightarrow> Some (e, info\<lparr>num := s, opr := t\<rparr>)
               | Inr ret \<Rightarrow> do {
                   (r, s) \<leftarrow> push N s ret;
                   Some (0, info\<lparr>num := s, opr := t\<rparr>)
                 })
            })
         })
      })
   }"

text \<open>The loop of \<open>opr_handle\<close>: operators of at least the level of \<open>c\<close> are carried out first.\<close>

partial_function (option) opr_loop :: "('s, int) container_ops \<Rightarrow> ('t, char) container_ops \<Rightarrow> char \<Rightarrow>
    ('s, 't) calc_info \<Rightarrow> (int \<times> ('s, 't) calc_info) option" where
  "opr_loop N C c info = do {
     (r, top_c) \<leftarrow> top C (opr info) (CHR 0x00);
     (if r < 0 \<or> opr2level c > opr2level top_c then do {
        (r, t) \<leftarrow> push C (opr info) c;
        Some (0, info\<lparr>opr := t\<rparr>)
      } else do {
        (r, info) \<leftarrow> do_stack N C info;
        (if r < 0 then Some (-1, info) else opr_loop N C c info)
      })
   }"

definition opr_handle :: "('s, int) container_ops \<Rightarrow> ('t, char) container_ops \<Rightarrow> ('s, 't) calc_info \<Rightarrow>
    (int \<times> ('s, 't) calc_info) option" where
  "opr_handle N C info = (let c = deref (cur info) in
     if flag info \<noteq> NUM \<and> c = CHR ''+'' then Some (0, info)
     else if flag info \<noteq> NUM \<and> c = CHR ''-'' then do {
       (r, s) \<leftarrow> push N (num info) 0;
       (r, t) \<leftarrow> push C (opr info) c;
       Some (0, info\<lparr>num := s, opr := t\<rparr>)
     } else do {
       let info = (if flag info = NUM then info\<lparr>flag := OPR\<rparr> else info);
       e \<leftarrow> is_empty C (opr info);
       (if e then do {
          (r, t) \<leftarrow> push C (opr info) c;
          Some (0, info\<lparr>opr := t\<rparr>)
        } else opr_loop N C c info)
     })"

text \<open>
  A \<open>while (1)\<close> whose body, a turn, either leaves the loop with a result or goes on. None is a fault inside a turn as
  well as turns without an end; \<open>endless\<close> is the second: every turn succeeds and goes on.
\<close>

partial_function (option) loop_turns :: "('s \<Rightarrow> ('r + 's) option) \<Rightarrow> 's \<Rightarrow> 'r option" where
  "loop_turns turn s = do {
     r \<leftarrow> turn s;
     (case r of Inl y \<Rightarrow> Some y | Inr s \<Rightarrow> loop_turns turn s)
   }"

definition endless :: "('s \<Rightarrow> ('r + 's) option) \<Rightarrow> (nat \<Rightarrow> 's) \<Rightarrow> bool" where
  "endless turn run \<longleftrightarrow> (\<forall>n. turn (run n) = Some (Inr (run (Suc n))))"

lemma endless_loop: "endless turn run \<Longrightarrow> loop_turns turn (run 0) = None"
proof (rule ccontr)
  assume e: "endless turn run" and "loop_turns turn (run 0) \<noteq> None"
  then obtain y where "loop_turns turn (run 0) = Some y" by blast
  moreover have "loop_turns t s = Some y \<Longrightarrow> \<forall>n. \<not> (t = turn \<and> s = run n)" for t s
  proof (induction rule: loop_turns.raw_induct[rotated, consumes 1, case_names step])
    case (step loop t s y)
    show ?case
    proof (intro allI notI)
      fix n
      assume n: "t = turn \<and> s = run n"
      then have "loop turn (run (Suc n)) = Some y" using step(2) e by (simp add: endless_def)
      then show False using step(1) by blast
    qed
  qed
  ultimately show False by blast
qed

text \<open>An invariant under which every turn goes on.\<close>

lemma endless_inv:
  assumes "I s" and "\<And>s. I s \<Longrightarrow> \<exists>s'. turn s = Some (Inr s') \<and> I s' \<and> R s s'"
  shows "\<exists>run. run 0 = s \<and> endless turn run \<and> (\<forall>n. R (run n) (run (Suc n)))"
proof -
  obtain run where "run 0 = s" "\<And>n. I (run n)" "\<And>n. turn (run n) = Some (Inr (run (Suc n))) \<and> R (run n) (run (Suc n))"
    using dependent_nat_choice[where P = "\<lambda>n x. I x \<and> (n = 0 \<longrightarrow> x = s)"
        and Q = "\<lambda>_ x y. turn x = Some (Inr y) \<and> R x y"] assms by (metis nat.distinct(1))
  then show ?thesis unfolding endless_def by blast
qed

text \<open>\<open>bracket_handle\<close> does not look at the result of \<open>do_stack\<close>.\<close>

definition bracket_turn :: "('s, int) container_ops \<Rightarrow> ('t, char) container_ops \<Rightarrow> ('s, 't) calc_info \<Rightarrow>
    ((int \<times> ('s, 't) calc_info) + ('s, 't) calc_info) option" where
  "bracket_turn N C info = do {
     (r, top_c) \<leftarrow> top C (opr info) (CHR 0x00);
     (if r < 0 then Some (Inl (-1, info))
      else if top_c = CHR ''('' then do {
        (r, top_c, t) \<leftarrow> pop C (opr info) top_c;
        Some (Inl (0, info\<lparr>opr := t\<rparr>))
      } else do {
        (r, info) \<leftarrow> do_stack N C info;
        Some (Inr info)
      })
   }"

definition bracket_loop :: "('s, int) container_ops \<Rightarrow> ('t, char) container_ops \<Rightarrow>
    ('s, 't) calc_info \<Rightarrow> (int \<times> ('s, 't) calc_info) option" where
  "bracket_loop N C = loop_turns (bracket_turn N C)"

lemma bracket_loop_simps:
  "bracket_loop N C info = do {
     r \<leftarrow> bracket_turn N C info;
     (case r of Inl y \<Rightarrow> Some y | Inr info \<Rightarrow> bracket_loop N C info)
   }"
  unfolding bracket_loop_def by (subst loop_turns.simps) (rule refl)

definition bracket_handle :: "('s, int) container_ops \<Rightarrow> ('t, char) container_ops \<Rightarrow>
    ('s, 't) calc_info \<Rightarrow> (int \<times> ('s, 't) calc_info) option" where
  "bracket_handle N C info = (let c = deref (cur info) in
     if c = CHR ''('' then do {
       (r, t) \<leftarrow> push C (opr info) c;
       Some (0, info\<lparr>opr := t\<rparr>)
     } else if c = CHR '')'' then bracket_loop N C info
     else Some (0, info))"

definition is_digit :: "char \<Rightarrow> bool" where
  "is_digit c \<longleftrightarrow> 48 \<le> (of_char c :: int) \<and> (of_char c :: int) \<le> 57"

definition is_blank :: "char \<Rightarrow> bool" where
  "is_blank c \<longleftrightarrow> c \<in> {CHR '' '', CHR 0x0A, CHR 0x09}"

text \<open>One turn of the scanning loop, and the loop: it stops at the first negative result.\<close>

definition calc_step :: "('s, int) container_ops \<Rightarrow> ('t, char) container_ops \<Rightarrow>
    ('s, 't) calc_info \<Rightarrow> (int \<times> ('s, 't) calc_info) option" where
  "calc_step N C info = (let c = deref (cur info) in
     if is_digit c then num_handle N info
     else if c \<in> {CHR ''+'', CHR ''-'', CHR ''*'', CHR ''/'', CHR ''%''} then opr_handle N C info
     else if is_blank c then Some (0, info)
     else if c = CHR ''('' \<or> c = CHR '')'' then bracket_handle N C info
     else Some (-1, info))"

fun calc_scan :: "('s, int) container_ops \<Rightarrow> ('t, char) container_ops \<Rightarrow> ('s, 't) calc_info \<Rightarrow>
    string \<Rightarrow> (int \<times> ('s, 't) calc_info) option" where
  "calc_scan N C info [] = Some (0, info\<lparr>cur := []\<rparr>)"
| "calc_scan N C info (c # cs) = do {
     (iret, info) \<leftarrow> calc_step N C (info\<lparr>cur := c # cs\<rparr>);
     (if iret < 0 then Some (iret, info) else calc_scan N C info cs)
   }"

partial_function (option) calc_unwind :: "('s, int) container_ops \<Rightarrow> ('t, char) container_ops \<Rightarrow>
    ('s, 't) calc_info \<Rightarrow> (int \<times> ('s, 't) calc_info) option" where
  "calc_unwind N C info = do {
     e \<leftarrow> is_empty C (opr info);
     (if e then Some (0, info)
      else do {
        (r, top_c) \<leftarrow> top C (opr info) (CHR 0x00);
        (if top_c = CHR ''('' then Some (-3, info)
         else do {
           (r, info) \<leftarrow> do_stack N C info;
           (if r < 0 then Some (-2, info) else calc_unwind N C info)
         })
      })
   }"

definition calc_main :: "('s, int) container_ops \<Rightarrow> ('t, char) container_ops \<Rightarrow> ('s, 't) calc_info \<Rightarrow>
    string \<Rightarrow> (int \<times> ('s, 't) calc_info) option" where
  "calc_main N C info expr = do {
     (iret, info) \<leftarrow> calc_scan N C info expr;
     (if iret < 0 then Some (iret, info)
      else do {
        (r, info) \<leftarrow> calc_unwind N C info;
        (if r < 0 then Some (r, info)
         else do {
           (r, ret, s) \<leftarrow> pop N (num info) 0;
           Some (ret, info\<lparr>num := s\<rparr>)
         })
      })
   }"

declare opr_loop.simps [code] loop_turns.simps [code] calc_unwind.simps [code]

text \<open>
  \<open>calc_init\<close>: \<open>a\<close> and \<open>b\<close> are what the two \<open>malloc\<close> calls give, NULL or an uninitialised \<open>stack_info\<close>
  and the memory it will live in. The results of \<open>stack_init\<close> are not looked at.
\<close>

definition calc_init :: "int stack_info option \<Rightarrow> char stack_info option \<Rightarrow>
    (int \<times> (int stack_info, char stack_info) calc_info option) option" where
  "calc_init a b = (case (a, b) of
     (Some a, Some b) \<Rightarrow> do {
       (r, a) \<leftarrow> stack_init a;
       (r, b) \<leftarrow> stack_init b;
       Some (0, Some \<lparr>num = a, opr = b, cur = [], flag = OPR\<rparr>)
     }
   | _ \<Rightarrow> Some (-1, None))"

definition calc_destroy :: "(int stack_info, char stack_info) calc_info \<Rightarrow>
    (int \<times> (int stack_info, char stack_info) calc_info) option" where
  "calc_destroy info = do {
     (r, a) \<leftarrow> stack_destroy (num info);
     (r, b) \<leftarrow> stack_destroy (opr info);
     Some (0, info\<lparr>num := a, opr := b\<rparr>)
   }"

subsection \<open>The calculator over list stacks\<close>

text \<open>
  The abstract calculator is the same code over the obvious stacks, HOL lists. Any pair of stacks that
  satisfies the contract \<open>lifo\<close> runs through the same states, as long as the allocator serves the
  pushes. \<open>sim\<close> relates the two; \<open>K\<close> and \<open>L\<close> are the pushes left over: each \<open>do_stack\<close> pushes one
  number for an operator it takes away, so the operators on the stack are counted with the numbers.
\<close>

definition list_ops :: "('a list, 'a) container_ops" where
  "list_ops = \<lparr>push = \<lambda>xs x. Some (0, x # xs),
     top = \<lambda>xs d. Some (case xs of [] \<Rightarrow> (-1, d) | x # _ \<Rightarrow> (0, x)),
     pop = \<lambda>xs d. Some (case xs of [] \<Rightarrow> (-1, d, xs) | x # ys \<Rightarrow> (0, x, ys)),
     is_empty = \<lambda>xs. Some (xs = [])\<rparr>"

lemma list_ops_simps [simp]:
  "push list_ops xs x = Some (0, x # xs)"
  "top list_ops xs d = Some (case xs of [] \<Rightarrow> (-1, d) | x # _ \<Rightarrow> (0, x))"
  "pop list_ops xs d = Some (case xs of [] \<Rightarrow> (-1, d, xs) | x # ys \<Rightarrow> (0, x, ys))"
  "is_empty list_ops xs = Some (xs = [])"
  by (simp_all add: list_ops_def)

type_synonym acalc = "(int list, char list) calc_info"

abbreviation "ado_stack \<equiv> (do_stack list_ops list_ops :: acalc \<Rightarrow> (int \<times> acalc) option)"
abbreviation "aopr_loop \<equiv> (opr_loop list_ops list_ops :: char \<Rightarrow> acalc \<Rightarrow> (int \<times> acalc) option)"
abbreviation "abracket_loop \<equiv> (bracket_loop list_ops list_ops :: acalc \<Rightarrow> (int \<times> acalc) option)"
abbreviation "aunwind \<equiv> (calc_unwind list_ops list_ops :: acalc \<Rightarrow> (int \<times> acalc) option)"
abbreviation "astep \<equiv> (calc_step list_ops list_ops :: acalc \<Rightarrow> (int \<times> acalc) option)"
abbreviation "ascan \<equiv> (calc_scan list_ops list_ops :: acalc \<Rightarrow> string \<Rightarrow> (int \<times> acalc) option)"
abbreviation "amain \<equiv> (calc_main list_ops list_ops :: acalc \<Rightarrow> string \<Rightarrow> (int \<times> acalc) option)"

lemma scan_cur: "ascan (i\<lparr>cur := x\<rparr>) s = ascan i s"
  by (cases s) simp_all

locale calculator = n: lifo N nrep ncap + c: lifo C crep ccap
  for N :: "('s, int) container_ops" and nrep :: "'s \<Rightarrow> int list \<Rightarrow> bool" and ncap :: "'s \<Rightarrow> nat"
    and C :: "('t, char) container_ops" and crep :: "'t \<Rightarrow> string \<Rightarrow> bool" and ccap :: "'t \<Rightarrow> nat"
begin

definition sim :: "nat \<Rightarrow> nat \<Rightarrow> ('s, 't) calc_info \<Rightarrow> acalc \<Rightarrow> bool" where
  "sim K L i a \<longleftrightarrow> nrep (num i) (num a) \<and> crep (opr i) (opr a) \<and> deref (cur i) = deref (cur a) \<and> flag i = flag a
     \<and> K + length (opr a) \<le> ncap (num i) \<and> L \<le> ccap (opr i)"

definition run_sim :: "nat \<Rightarrow> nat \<Rightarrow> (int \<times> ('s, 't) calc_info) option \<Rightarrow> int \<times> acalc \<Rightarrow> bool" where
  "run_sim K L x y \<longleftrightarrow> (\<exists>i. x = Some (fst y, i) \<and> sim K L i (snd y))"

lemma opr_top_sim: "crep s xs \<Longrightarrow> top C s d = top list_ops xs d"
  by (cases xs) (simp_all add: c.top_empty c.top_rep)

lemma num_push_sim:
  assumes "nrep s xs" and "Suc K \<le> ncap s"
  shows "\<exists>s'. push N s x = Some (0, s') \<and> nrep s' (x # xs) \<and> K \<le> ncap s'"
  using n.push_rep[OF assms(1), of x] assms(2) by fastforce

lemma opr_push_sim:
  assumes "crep s xs" and "Suc L \<le> ccap s"
  shows "\<exists>s'. push C s x = Some (0, s') \<and> crep s' (x # xs) \<and> L \<le> ccap s'"
  using c.push_rep[OF assms(1), of x] assms(2) by fastforce

lemma simI:
  "nrep s ns \<Longrightarrow> crep t cs \<Longrightarrow> K + length cs \<le> ncap s \<Longrightarrow> L \<le> ccap t \<Longrightarrow>
     sim K L (i\<lparr>num := s, opr := t\<rparr>) (a\<lparr>num := ns, opr := cs\<rparr>) \<longleftrightarrow> deref (cur i) = deref (cur a) \<and> flag i = flag a"
  by (simp add: sim_def)

lemma do_stack_sim:
  assumes sim: "sim K L i a" and ok: "ado_stack a = Some y"
  shows "run_sim K L (do_stack N C i) y"
proof -
  note rep = sim[unfolded sim_def]
  consider "num a = []" | b where "num a = [b]" | b x ns where "num a = b # x # ns" "opr a = []"
    | b x ns c cs where "num a = b # x # ns" "opr a = c # cs"
    by (metis neq_Nil_conv)
  then show ?thesis
  proof cases
    case 1
    then show ?thesis
      using ok rep n.pop_empty[of "num i" 0]
      by (auto simp: do_stack_def run_sim_def sim_def)
  next
    case 2
    obtain s1 where s1: "pop N (num i) 0 = Some (0, b, s1)" "nrep s1 []" "ncap s1 = ncap (num i)"
      using n.pop_rep[of "num i" b "[]" 0] rep 2 by auto
    show ?thesis
      using ok rep 2 s1 n.pop_empty[OF s1(2), of 0]
      by (auto simp: do_stack_def run_sim_def sim_def)
  next
    case 3
    obtain s1 where s1: "pop N (num i) 0 = Some (0, b, s1)" "nrep s1 (x # ns)" "ncap s1 = ncap (num i)"
      using n.pop_rep[of "num i" b "x # ns" 0] rep 3 by auto
    obtain s2 where s2: "pop N s1 0 = Some (0, x, s2)" "nrep s2 ns" "ncap s2 = ncap s1"
      using n.pop_rep[OF s1(2), of 0] by auto
    show ?thesis
      using ok rep 3 s1 s2 c.pop_empty[of "opr i" "CHR 0x00"]
      by (auto simp: do_stack_def run_sim_def sim_def)
  next
    case 4
    obtain s1 where s1: "pop N (num i) 0 = Some (0, b, s1)" "nrep s1 (x # ns)" "ncap s1 = ncap (num i)"
      using n.pop_rep[of "num i" b "x # ns" 0] rep 4 by auto
    obtain s2 where s2: "pop N s1 0 = Some (0, x, s2)" "nrep s2 ns" "ncap s2 = ncap s1"
      using n.pop_rep[OF s1(2), of 0] by auto
    obtain t where t: "pop C (opr i) (CHR 0x00) = Some (0, c, t)" "crep t cs" "ccap t = ccap (opr i)"
      using c.pop_rep[of "opr i" c cs "CHR 0x00"] rep 4 by auto
    have cap: "Suc (K + length cs) \<le> ncap s2" "L \<le> ccap t" "deref (cur i) = deref (cur a)" "flag i = flag a"
      using rep 4 s1 s2 t by auto
    obtain v where v: "do_opr c x b = Some v" using ok 4 by (cases "do_opr c x b") (auto simp: do_stack_def)
    show ?thesis
    proof (cases v)
      case (Inl e)
      then show ?thesis
        using ok 4 s1 s2 t v cap by (auto simp: do_stack_def run_sim_def simI)
    next
      case (Inr ret)
      obtain s3 where "push N s2 ret = Some (0, s3)" "nrep s3 (ret # ns)" "K + length cs \<le> ncap s3"
        using num_push_sim[OF s2(2) cap(1)] by blast
      then show ?thesis
        using ok 4 s1 s2 t v cap Inr by (auto simp: do_stack_def run_sim_def simI)
    qed
  qed
qed

lemma run_simI: "sim K L i a \<Longrightarrow> run_sim K L (Some (r, i)) (r, a)"
  by (simp add: run_sim_def)

lemma sim_rep:
  assumes "sim K L i a"
  shows "nrep (num i) (num a)" and "crep (opr i) (opr a)" and "flag i = flag a" and "deref (cur i) = deref (cur a)"
    and "K + length (opr a) \<le> ncap (num i)" and "L \<le> ccap (opr i)"
  using assms by (auto simp: sim_def)

lemma sim_push_opr:
  assumes sim: "sim (Suc K) (Suc L) i a"
  shows "\<exists>t. push C (opr i) x = Some (0, t) \<and> sim K L (i\<lparr>opr := t\<rparr>) (a\<lparr>opr := x # opr a\<rparr>)"
  using opr_push_sim[of "opr i" "opr a" L x] sim by (auto simp: sim_def)

lemma run_sim_bind:
  assumes "run_sim K L m y" and "\<And>r i a. m = Some (r, i) \<Longrightarrow> y = (r, a) \<Longrightarrow> sim K L i a \<Longrightarrow> run_sim K' L' (f (r, i)) z"
  shows "run_sim K' L' (m \<bind> f) z"
  using assms by (cases y) (auto simp: run_sim_def)

lemma opr_loop_sim_ind:
  "opr_loop N' C' x a = Some y \<Longrightarrow> N' = list_ops \<and> C' = list_ops \<longrightarrow>
     (\<forall>i. sim (Suc K) (Suc L) i a \<longrightarrow> run_sim K L (opr_loop N C x i) y)"
proof (induction rule: opr_loop.raw_induct[rotated, consumes 1, case_names step])
  case (step loop N' C' x a y)
  show ?case
  proof (intro impI allI)
    fix i assume ops: "N' = list_ops \<and> C' = list_ops" and sim: "sim (Suc K) (Suc L) i a"
    note top = opr_top_sim[OF sim_rep(2)[OF sim], of "CHR 0x00"]
    obtain r c where rc: "top list_ops (opr a) (CHR 0x00) = Some (r, c)" by fastforce
    show "run_sim K L (opr_loop N C x i) y"
    proof (cases "r < 0 \<or> opr2level x > opr2level c")
      case True
      then show ?thesis
        using step(2) ops rc top sim_push_opr[OF sim, of x]
        by (subst opr_loop.simps) (auto simp: run_sim_def)
    next
      case False
      then obtain r' a' where a': "ado_stack a = Some (r', a')"
        "(if r' < 0 then Some (-1, a') else loop list_ops list_ops x a') = Some y"
        using step(2) ops rc by (auto simp: bind_eq_Some_conv)
      show ?thesis
        using False rc top do_stack_sim[OF sim a'(1)] a'(2) step(1) ops
        by (subst opr_loop.simps) (auto simp: run_sim_def sim_def)
    qed
  qed
qed

lemma opr_loop_sim:
  "aopr_loop x a = Some y \<Longrightarrow> sim (Suc K) (Suc L) i a \<Longrightarrow> run_sim K L (opr_loop N C x i) y"
  using opr_loop_sim_ind by blast

lemma sim_pop_opr:
  assumes "sim K L i a" and "opr a = x # cs"
  shows "\<exists>t. pop C (opr i) d = Some (0, x, t) \<and> sim K L (i\<lparr>opr := t\<rparr>) (a\<lparr>opr := cs\<rparr>)"
  using c.pop_rep[of "opr i" x cs d] assms by (auto simp: sim_def)

text \<open>A turn of the bracket loop on lists is one on the represented stacks, with the same way out.\<close>

lemma bracket_turn_sim:
  assumes sim: "sim K L i a" and ok: "bracket_turn list_ops list_ops a = Some y"
  shows "case y of Inl z \<Rightarrow> \<exists>i'. bracket_turn N C i = Some (Inl i') \<and> run_sim K L (Some i') z
    | Inr a' \<Rightarrow> \<exists>i'. bracket_turn N C i = Some (Inr i') \<and> sim K L i' a'"
proof -
  note top = opr_top_sim[OF sim_rep(2)[OF sim], of "CHR 0x00"]
  show ?thesis
  proof (cases "opr a")
    case Nil
    then show ?thesis using ok top sim by (auto simp: bracket_turn_def run_sim_def)
  next
    case (Cons x cs)
    show ?thesis
    proof (cases "x = CHR ''(''")
      case True
      then show ?thesis using ok top sim_pop_opr[OF sim Cons, of x] Cons by (auto simp: bracket_turn_def run_sim_def)
    next
      case False
      then obtain r' a' where "ado_stack a = Some (r', a')" "y = Inr a'"
        using ok Cons by (auto simp: bracket_turn_def bind_eq_Some_conv)
      then show ?thesis using False Cons top do_stack_sim[OF sim, of "(r', a')"] by (auto simp: bracket_turn_def run_sim_def)
    qed
  qed
qed

lemma bracket_loop_sim_ind:
  "loop_turns turn a = Some y \<Longrightarrow> turn = bracket_turn list_ops list_ops \<longrightarrow> (\<forall>i. sim K L i a \<longrightarrow> run_sim K L (bracket_loop N C i) y)"
proof (induction rule: loop_turns.raw_induct[rotated, consumes 1, case_names step])
  case (step loop turn a y)
  show ?case
  proof (intro allI impI)
    fix i assume tu: "turn = bracket_turn list_ops list_ops" and sim: "sim K L i a"
    obtain r where r: "turn a = Some r" "(case r of Inl y \<Rightarrow> Some y | Inr s \<Rightarrow> loop turn s) = Some y"
      using step(2) by (auto simp: bind_eq_Some_conv)
    then have t: "bracket_turn list_ops list_ops a = Some r" using tu by simp
    show "run_sim K L (bracket_loop N C i) y"
    proof (cases r)
      case (Inl z)
      then show ?thesis using bracket_turn_sim[OF sim t] r(2) by (subst bracket_loop_simps) auto
    next
      case (Inr a')
      then show ?thesis using bracket_turn_sim[OF sim t] r(2) step(1) tu by (subst bracket_loop_simps, cases y) auto
    qed
  qed
qed

lemma calc_unwind_sim_ind:
  "calc_unwind N' C' a = Some y \<Longrightarrow> N' = list_ops \<and> C' = list_ops \<longrightarrow>
     (\<forall>i. sim K L i a \<longrightarrow> run_sim K L (calc_unwind N C i) y)"
proof (induction rule: calc_unwind.raw_induct[rotated, consumes 1, case_names step])
  case (step loop N' C' a y)
  show ?case
  proof (intro impI allI)
    fix i assume ops: "N' = list_ops \<and> C' = list_ops" and sim: "sim K L i a"
    note top = opr_top_sim[OF sim_rep(2)[OF sim], of "CHR 0x00"]
      and emp = c.is_empty_rep[OF sim_rep(2)[OF sim]]
    show "run_sim K L (calc_unwind N C i) y"
    proof (cases "opr a = [] \<or> hd (opr a) = CHR ''(''")
      case True
      then show ?thesis
        using step(2) ops top emp sim
        by (subst calc_unwind.simps) (cases "opr a"; auto simp: run_sim_def)
    next
      case False
      then obtain x cs where x: "opr a = x # cs" "x \<noteq> CHR ''(''" by (cases "opr a") auto
      then obtain r' a' where a': "ado_stack a = Some (r', a')"
        "(if r' < 0 then Some (-2, a') else loop list_ops list_ops a') = Some y"
        using step(2) ops by (auto simp: bind_eq_Some_conv)
      show ?thesis
        using x top emp do_stack_sim[OF sim a'(1)] a'(2) step(1) ops
        by (subst calc_unwind.simps) (auto simp: run_sim_def)
    qed
  qed
qed

lemma sim_push_num:
  assumes sim: "sim (Suc K) L i a"
  shows "\<exists>s. push N (num i) x = Some (0, s) \<and> sim K L (i\<lparr>num := s\<rparr>) (a\<lparr>num := x # num a\<rparr>)"
  using num_push_sim[of "num i" "num a" "K + length (opr a)" x] sim by (auto simp: sim_def)

lemma sim_pop_num:
  assumes sim: "sim K L i a"
  shows "\<exists>s. pop N (num i) d = Some (if num a = [] then (-1, d, s) else (0, hd (num a), s))
    \<and> sim K L (i\<lparr>num := s\<rparr>) (a\<lparr>num := tl (num a)\<rparr>)"
  using n.pop_empty[of "num i" d] n.pop_rep[of "num i" _ _ d] sim
  by (cases "num a") (fastforce simp: sim_def)+

lemma sim_more: "sim K L i a \<Longrightarrow> K' \<le> K \<Longrightarrow> L' \<le> L \<Longrightarrow> sim K' L' i a"
  by (auto simp: sim_def)

lemma sim_flag: "sim K L i a \<Longrightarrow> sim K L (i\<lparr>flag := f\<rparr>) (a\<lparr>flag := f\<rparr>)"
  by (auto simp: sim_def)

lemma num_handle_sim:
  assumes sim: "sim (Suc K) L i a" and ok: "num_handle list_ops a = Some y"
  shows "run_sim K L (num_handle N i) y"
proof (cases "flag a")
  case OPR
  then show ?thesis
    using ok sim_push_num[OF sim_flag[OF sim, of NUM], of "of_char (deref (cur a)) - 48"]
      sim_rep(3,4)[OF sim]
    by (auto simp: num_handle_def run_sim_def)
next
  case NUM
  define d :: int where "d = of_char (deref (cur a)) - 48"
  obtain s where s: "pop N (num i) 0 = Some (if num a = [] then (-1, 0, s) else (0, hd (num a), s))"
    "sim (Suc K) L (i\<lparr>num := s\<rparr>) (a\<lparr>num := tl (num a)\<rparr>)"
    using sim_pop_num[OF sim] by blast
  obtain m n where m: "chk ((if num a = [] then 0 else hd (num a)) * 10) = Some m" "chk (d + m) = Some n"
    "y = (0, a\<lparr>num := n # tl (num a)\<rparr>)"
    using ok NUM by (cases "num a") (auto simp: num_handle_def d_def bind_eq_Some_conv)
  show ?thesis
    using s(1) m NUM sim_push_num[OF s(2), of n] sim_rep(3,4)[OF sim]
    by (cases "num a") (auto simp: num_handle_def run_sim_def d_def)
qed

lemma opr_handle_sim:
  assumes sim: "sim (Suc (Suc K)) (Suc L) i a" and ok: "opr_handle list_ops list_ops a = Some y"
  shows "run_sim K L (opr_handle N C i) y"
proof -
  note f = sim_rep(3,4)[OF sim]
  have loop: "run_sim K L (do { e \<leftarrow> is_empty C (opr i);
       (if e then do { (r, t) \<leftarrow> push C (opr i) c; Some (0, i\<lparr>opr := t\<rparr>) } else opr_loop N C c i) }) y"
    if "sim (Suc (Suc K)) (Suc L) i a"
      "(if opr a = [] then do { (r, t) \<leftarrow> push list_ops (opr a) c; Some (0, a\<lparr>opr := t\<rparr>) }
        else aopr_loop c a) = Some y" for i a c
  proof -
    have "sim (Suc K) (Suc L) i a" using sim_more[OF that(1)] by simp
    then show ?thesis
      using that(2) c.is_empty_rep[OF sim_rep(2)[OF that(1)]] sim_push_opr[of K L i a c]
        opr_loop_sim[of c a y K L i]
      by (auto simp: run_sim_def split: if_splits)
  qed
  show ?thesis
  proof (cases "flag a = NUM \<or> deref (cur a) \<notin> {CHR ''+'', CHR ''-''}")
    case True
    show ?thesis
    proof (cases "flag a")
      case NUM
      with ok f loop[OF sim_flag[OF sim, of OPR], of "deref (cur a)"] show ?thesis
        by (simp add: opr_handle_def Let_def)
    next
      case OPR
      with ok f True loop[OF sim, of "deref (cur a)"] show ?thesis
        by (simp add: opr_handle_def Let_def)
    qed
  next
    case False
    obtain s where s: "push N (num i) 0 = Some (0, s)"
      "sim (Suc K) (Suc L) (i\<lparr>num := s\<rparr>) (a\<lparr>num := 0 # num a\<rparr>)"
      using sim_push_num[OF sim] by blast
    show ?thesis
      using ok f False s(1) sim_push_opr[OF s(2), of "CHR ''-''"] sim_more[OF sim, of K L]
      by (auto simp: opr_handle_def Let_def run_sim_def)
  qed
qed

lemma bracket_handle_sim:
  assumes sim: "sim (Suc K) (Suc L) i a" and ok: "bracket_handle list_ops list_ops a = Some y"
  shows "run_sim K L (bracket_handle N C i) y"
proof -
  have "sim K L i a" using sim_more[OF sim] by simp
  then show ?thesis
    using ok sim_push_opr[OF sim, of "deref (cur a)"] sim_rep(4)[OF sim]
      bracket_loop_sim_ind[of "bracket_turn list_ops list_ops" a y K L]
    by (auto simp: bracket_handle_def bracket_loop_def[where N = list_ops] Let_def run_sim_def split: if_splits)
qed

lemma calc_step_sim:
  assumes sim: "sim (Suc (Suc K)) (Suc L) i a" and ok: "astep a = Some y"
  shows "run_sim K L (calc_step N C i) y"
proof -
  have less: "sim (Suc K) L i a" "sim (Suc K) (Suc L) i a" "sim K L i a"
    using sim_more[OF sim] by simp_all
  show ?thesis
    using ok sim_rep(4)[OF sim] num_handle_sim[OF less(1), of y] opr_handle_sim[OF sim, of y]
      bracket_handle_sim[OF less(2), of y] less(3)
    by (auto simp: calc_step_def Let_def run_simI split: if_splits)
qed

text \<open>Blanks are skipped wherever they stand, between the digits of a number too.\<close>

lemma calc_scan_sim:
  "sim (2 * length cs + K) (length cs + L) i a \<Longrightarrow>
     ascan a (filter (\<lambda>c. \<not> is_blank c) cs) = Some y \<Longrightarrow> run_sim K L (calc_scan N C i cs) y"
proof (induction cs arbitrary: i a)
  case Nil
  then show ?case by (auto simp: run_sim_def sim_def)
next
  case (Cons c cs)
  let ?cs = "filter (\<lambda>c. \<not> is_blank c) cs"
  show ?case
  proof (cases "is_blank c")
    case True
    have "calc_step N C (i\<lparr>cur := c # cs\<rparr>) = Some (0, i\<lparr>cur := c # cs\<rparr>)"
      using True by (auto simp: calc_step_def deref_def is_blank_def is_digit_def)
    moreover have "sim (2 * length cs + K) (length cs + L) (i\<lparr>cur := c # cs\<rparr>) (a\<lparr>cur := c # cs\<rparr>)"
      using Cons.prems(1) by (simp add: sim_def)
    then have "run_sim K L (calc_scan N C (i\<lparr>cur := c # cs\<rparr>) cs) y"
      using Cons.IH[of "i\<lparr>cur := c # cs\<rparr>" "a\<lparr>cur := c # cs\<rparr>"] Cons.prems(2) True by (simp add: scan_cur)
    ultimately show ?thesis by simp
  next
    case False
    have "sim (Suc (Suc (2 * length cs + K))) (Suc (length cs + L)) (i\<lparr>cur := c # cs\<rparr>) (a\<lparr>cur := c # ?cs\<rparr>)"
      using Cons.prems(1) by (simp add: sim_def deref_def)
    note st = calc_step_sim[OF this]
    obtain r a' where a': "astep (a\<lparr>cur := c # ?cs\<rparr>) = Some (r, a')"
      "(if r < 0 then Some (r, a') else ascan a' ?cs) = Some y"
      using Cons.prems(2) False by (auto simp: bind_eq_Some_conv)
    obtain i' where i': "calc_step N C (i\<lparr>cur := c # cs\<rparr>) = Some (r, i')"
      "sim (2 * length cs + K) (length cs + L) i' a'"
      using st[OF a'(1)] by (auto simp: run_sim_def)
    show ?thesis
      using i' a'(2) Cons.IH[OF i'(2)] sim_more[OF i'(2), of K L]
      by (auto simp: run_sim_def split: if_splits)
  qed
qed

text \<open>
  The calculator over any stacks computes what it computes over lists: two pushes of numbers and one of
  operators per character have to be served.
\<close>

lemma calc_main_sim:
  assumes sim: "sim (2 * length cs + K) (length cs + L) i a"
    and ok: "amain a (filter (\<lambda>c. \<not> is_blank c) cs) = Some y"
  shows "run_sim K L (calc_main N C i cs) y"
proof -
  obtain r a1 where a1: "ascan a (filter (\<lambda>c. \<not> is_blank c) cs) = Some (r, a1)"
    using ok by (cases "ascan a (filter (\<lambda>c. \<not> is_blank c) cs)") (auto simp: calc_main_def)
  obtain i1 where i1: "calc_scan N C i cs = Some (r, i1)" "sim K L i1 a1"
    using calc_scan_sim[OF sim a1(1)] by (auto simp: run_sim_def)
  show ?thesis
  proof (cases "r < 0")
    case True
    then show ?thesis using a1 i1 ok by (auto simp: calc_main_def run_sim_def)
  next
    case False
    obtain r2 a2 where a2: "aunwind a1 = Some (r2, a2)"
      using ok a1 False by (cases "aunwind a1") (auto simp: calc_main_def)
    obtain i2 where i2: "calc_unwind N C i1 = Some (r2, i2)" "sim K L i2 a2"
      using calc_unwind_sim_ind[OF a2(1), of K L] i1(2) by (auto simp: run_sim_def)
    show ?thesis
      using False i1 i2 a1 a2 ok sim_pop_num[OF i2(2), of 0]
      by (cases "num a2"; cases "r2 < 0") (auto simp: calc_main_def run_sim_def)
  qed
qed

text \<open>
  \<open>bracket_handle\<close> ignores a failing \<open>do_stack\<close>, which leaves the operator where it is: with fewer than
  two numbers below an operator the turns of its loop have no end.
\<close>

lemma bracket_turn_stuck:
  assumes "nrep (num i) ns" and "length ns \<le> 1" and "crep (opr i) (c # cs)" and "c \<noteq> CHR ''(''"
  shows "\<exists>s. do_stack N C i = Some (-1, i\<lparr>num := s\<rparr>) \<and> bracket_turn N C i = Some (Inr (i\<lparr>num := s\<rparr>)) \<and> nrep s []"
proof -
  have "\<exists>s. do_stack N C i = Some (-1, i\<lparr>num := s\<rparr>) \<and> nrep s []"
  proof (cases ns)
    case Nil
    then show ?thesis
      using n.pop_empty[of "num i" 0] assms(1) by (intro exI[of _ "num i"]) (simp add: do_stack_def)
  next
    case (Cons b ms)
    then obtain s where "pop N (num i) 0 = Some (0, b, s)" "nrep s []"
      using n.pop_rep[of "num i" b ms 0] assms(1,2) by auto
    then show ?thesis using n.pop_empty[of s 0] by (auto simp: do_stack_def)
  qed
  then show ?thesis using assms(3,4) c.top_rep[of "opr i" c cs] by (auto simp: bracket_turn_def)
qed

lemma bracket_endless:
  assumes "nrep (num i) ns" and "length ns \<le> 1" and "crep (opr i) (c # cs)" and "c \<noteq> CHR ''(''"
  shows "\<exists>run. run 0 = i \<and> endless (bracket_turn N C) run
    \<and> (\<forall>n. do_stack N C (run n) = Some (-1, run (Suc n)) \<and> opr (run (Suc n)) = opr (run n))"
proof (rule endless_inv[where I = "\<lambda>i. (\<exists>ns. nrep (num i) ns \<and> length ns \<le> 1) \<and> crep (opr i) (c # cs)"
    and R = "\<lambda>i i'. do_stack N C i = Some (-1, i') \<and> opr i' = opr i", simplified conj_assoc])
  show "\<exists>s'. bracket_turn N C i = Some (Inr s') \<and> (\<exists>ns. nrep (num s') ns \<and> length ns \<le> 1) \<and> crep (opr s') (c # cs)
      \<and> do_stack N C i = Some (-1, s') \<and> opr s' = opr i"
    if "(\<exists>ns. nrep (num i) ns \<and> length ns \<le> 1) \<and> crep (opr i) (c # cs)" for i
    using that bracket_turn_stuck[of i _ c cs] assms(4) by fastforce
qed (use assms in blast)

end

subsection \<open>Expressions\<close>

text \<open>
  The reference: expressions with the usual precedences and left association. \<open>expr_show l\<close> writes an
  expression where operators of at least level \<open>l\<close> may stand without brackets. \<open>expr_eval\<close> is None when
  C leaves a step undefined and when a division by zero is reported.
\<close>

datatype expr = Lit string | Bin expr char expr

fun lit_from :: "int \<Rightarrow> string \<Rightarrow> int option" where
  "lit_from n [] = Some n"
| "lit_from n (c # cs) = do { m \<leftarrow> chk (n * 10); n \<leftarrow> chk (of_char c - 48 + m); lit_from n cs }"

fun expr_eval :: "expr \<Rightarrow> int option" where
  "expr_eval (Lit s) = lit_from 0 s"
| "expr_eval (Bin a c b) = do {
     x \<leftarrow> expr_eval a; y \<leftarrow> expr_eval b; r \<leftarrow> do_opr c x y;
     (case r of Inl _ \<Rightarrow> None | Inr v \<Rightarrow> Some v) }"

fun expr_wf :: "expr \<Rightarrow> bool" where
  "expr_wf (Lit s) \<longleftrightarrow> s \<noteq> [] \<and> list_all is_digit s"
| "expr_wf (Bin a c b) \<longleftrightarrow> 0 < opr2level c \<and> expr_wf a \<and> expr_wf b"

fun expr_show :: "int \<Rightarrow> expr \<Rightarrow> string" where
  "expr_show l (Lit s) = s"
| "expr_show l (Bin a c b) = (let k = opr2level c; s = expr_show k a @ c # expr_show (k + 1) b in
     if k < l then CHR ''('' # s @ [CHR '')''] else s)"

abbreviation st :: "int list \<Rightarrow> string \<Rightarrow> flag_t \<Rightarrow> string \<Rightarrow> acalc" where
  "st ns os f x \<equiv> \<lparr>num = ns, opr = os, cur = x, flag = f\<rparr>"

text \<open>
  \<open>pend l v ns os\<close>: the operators \<open>os\<close>, of strictly falling level from the top down and none below \<open>l\<close>,
  applied to the numbers \<open>ns\<close>, leave the one number \<open>v\<close>.
\<close>

inductive pend :: "int \<Rightarrow> int \<Rightarrow> int list \<Rightarrow> string \<Rightarrow> bool" where
  pend_leaf: "pend l v [v] []"
| pend_node: "pend (opr2level c + 1) y ms ps \<Longrightarrow> l \<le> opr2level c \<Longrightarrow> do_opr c x y = Some (Inr v) \<Longrightarrow>
    pend l v (ms @ [x]) (ps @ [c])"

lemma pend_mono: "pend l v ms ps \<Longrightarrow> l' \<le> l \<Longrightarrow> pend l' v ms ps"
  by (induction rule: pend.induct) (auto intro: pend.intros)

lemma ado_stack_ok: "do_opr c x y = Some (Inr v) \<Longrightarrow>
    ado_stack (st (y # x # ns) (c # os) f z) = Some (0, st (v # ns) os f z)"
  by (simp add: do_stack_def)

lemma opr_loop_pend: "pend l v ms ps \<Longrightarrow> opr2level c \<le> l \<Longrightarrow>
    aopr_loop c (st (ms @ ns) (ps @ os) f z) = aopr_loop c (st (v # ns) os f z)"
proof (induction arbitrary: ns os rule: pend.induct)
  case (pend_leaf l v)
  show ?case by simp
next
  case (pend_node d y ms ps l x v)
  have "aopr_loop c (st (ms @ x # ns) (ps @ d # os) f z) = aopr_loop c (st (y # x # ns) (d # os) f z)"
    using pend_node by simp
  also have "\<dots> = aopr_loop c (st (v # ns) os f z)"
    using pend_node.hyps(2,3) pend_node.prems by (subst opr_loop.simps) (simp add: ado_stack_ok)
  finally show ?case by simp
qed

lemma bracket_loop_pend: "pend l v ms ps \<Longrightarrow> 1 \<le> l \<Longrightarrow>
    abracket_loop (st (ms @ ns) (ps @ os) f z) = abracket_loop (st (v # ns) os f z)"
proof (induction arbitrary: ns os rule: pend.induct)
  case (pend_leaf l v)
  show ?case by simp
next
  case (pend_node d y ms ps l x v)
  have "d \<noteq> CHR ''(''" using pend_node.hyps(2) pend_node.prems by (auto simp: opr2level_def)
  then have "abracket_loop (st (y # x # ns) (d # os) f z) = abracket_loop (st (v # ns) os f z)"
    using pend_node.hyps(3) by (subst bracket_loop_simps) (simp add: bracket_turn_def ado_stack_ok)
  then show ?case using pend_node by simp
qed

lemma unwind_pend: "pend l v ms ps \<Longrightarrow> 1 \<le> l \<Longrightarrow>
    aunwind (st (ms @ ns) (ps @ os) f z) = aunwind (st (v # ns) os f z)"
proof (induction arbitrary: ns os rule: pend.induct)
  case (pend_leaf l v)
  show ?case by simp
next
  case (pend_node d y ms ps l x v)
  have "d \<noteq> CHR ''(''" using pend_node.hyps(2) pend_node.prems by (auto simp: opr2level_def)
  then have "aunwind (st (y # x # ns) (d # os) f z) = aunwind (st (v # ns) os f z)"
    using pend_node.hyps(3) by (subst calc_unwind.simps) (simp add: ado_stack_ok)
  then show ?case using pend_node by simp
qed

text \<open>The scan, character by character.\<close>

lemma scan_st: "ascan (st ns os f x) s = ascan (st ns os f []) s"
  using scan_cur[where i = "st ns os f x" and x = "[]" and s = s] by simp

lemma is_digit_other:
  "is_digit c \<Longrightarrow> opr2level c = 0" "\<not> is_digit (CHR ''('')" "\<not> is_digit (CHR '')'')"
  "0 < opr2level c \<Longrightarrow> \<not> is_digit c"
  "0 < opr2level c \<longleftrightarrow> c \<in> {CHR ''+'', CHR ''-'', CHR ''*'', CHR ''/'', CHR ''%''}"
  by (auto simp: is_digit_def opr2level_def split: if_splits)

lemma chk_digit: "is_digit c \<Longrightarrow> chk (of_char c - 48) = Some (of_char c - 48)"
  by (auto simp: is_digit_def chk_def)

lemma chk_0 [simp]: "chk 0 = Some 0"
  by (simp add: chk_def)

lemma scan_digit:
  assumes "is_digit c"
  shows "ascan (st ns os OPR x) (c # s) = ascan (st ((of_char c - 48) # ns) os NUM []) s"
    and "ascan (st [] os NUM x) (c # s) = ascan (st [of_char c - 48] os NUM []) s"
    and "chk (n * 10) = Some m \<Longrightarrow> chk (of_char c - 48 + m) = Some k \<Longrightarrow>
      ascan (st (n # ns) os NUM x) (c # s) = ascan (st (k # ns) os NUM []) s"
  using assms by (simp_all add: calc_step_def num_handle_def deref_def chk_digit scan_st[where x = "c # s"])

lemma scan_open: "ascan (st ns os f x) (CHR ''('' # s) = ascan (st ns (CHR ''('' # os) f []) s"
  by (simp add: calc_step_def bracket_handle_def deref_def is_digit_other is_blank_def Let_def
      scan_st[where x = "CHR ''('' # s"])

lemma scan_close:
  assumes "pend l v ms ps" and "1 \<le> l"
  shows "ascan (st (ms @ ns) (ps @ CHR ''('' # os) f x) (CHR '')'' # s) = ascan (st (v # ns) os f []) s"
  using bracket_loop_pend[OF assms, where ns = ns and os = "CHR ''('' # os" and f = f and z = "CHR '')'' # s"]
  by (subst (asm) (2) bracket_loop_simps)
    (simp add: bracket_turn_def calc_step_def bracket_handle_def deref_def is_digit_other is_blank_def
      scan_st[where x = "CHR '')'' # s"])

lemma scan_opr:
  assumes "pend l v ms ps" and "opr2level c \<le> l" and "0 < opr2level c"
    and "os = [] \<or> opr2level (hd os) < opr2level c"
  shows "ascan (st (ms @ ns) (ps @ os) NUM x) (c # s) = ascan (st (v # ns) (c # os) OPR []) s"
proof -
  have "aopr_loop c (st (v # ns) os OPR z) = Some (0, st (v # ns) (c # os) OPR z)" for z
    using assms(4) by (subst opr_loop.simps) (cases os; auto)
  then have loop: "aopr_loop c (st (ms @ ns) (ps @ os) OPR z) = Some (0, st (v # ns) (c # os) OPR z)" for z
    using opr_loop_pend[OF assms(1,2)] by simp
  moreover have "ps @ os = [] \<Longrightarrow> aopr_loop c (st (ms @ ns) (ps @ os) OPR z) =
     Some (0, st (ms @ ns) [c] OPR z)" for z
    by (subst opr_loop.simps) simp
  ultimately have "astep (st (ms @ ns) (ps @ os) NUM (c # s)) = Some (0, st (v # ns) (c # os) OPR (c # s))"
    using assms(3)
    by (auto simp: calc_step_def opr_handle_def deref_def is_digit_other Let_def)
  then show ?thesis by (simp add: scan_st[where x = "c # s"])
qed

subsection \<open>The calculator evaluates every expression\<close>

lemma scan_lit:
  "list_all is_digit cs \<Longrightarrow> lit_from n cs = Some v \<Longrightarrow>
     ascan (st (n # ns) os NUM []) (cs @ s) = ascan (st (v # ns) os NUM []) s"
proof (induction cs arbitrary: n)
  case (Cons c cs)
  then obtain m k where "chk (n * 10) = Some m" "chk (of_char c - 48 + m) = Some k" "lit_from k cs = Some v"
    by (auto simp: bind_eq_Some_conv)
  with Cons show ?case using scan_digit(3)[of c n m k ns os "[]" "cs @ s"] by simp
qed simp

lemma scan_show:
  assumes "expr_wf e" and "expr_eval e = Some v" and "1 \<le> l" and "os = [] \<or> opr2level (hd os) < l"
  shows "\<exists>ms ps. pend l v ms ps \<and> (\<forall>s. ascan (st ns os OPR []) (expr_show l e @ s)
    = ascan (st (ms @ ns) (ps @ os) NUM []) s)"
  using assms
proof (induction e arbitrary: v l ns os)
  case (Lit cs)
  then obtain c ds where cs: "cs = c # ds" "is_digit c" "list_all is_digit ds" by (cases cs) auto
  have "lit_from (of_char c - 48) ds = Some v" using Lit.prems(2) cs by (simp add: chk_digit)
  then have "ascan (st ns os OPR []) (cs @ s) = ascan (st (v # ns) os NUM []) s" for s
    using scan_lit[OF cs(3)] scan_digit(1)[OF cs(2), of ns os "[]" "ds @ s"] cs(1) by simp
  then show ?case by (intro exI[of _ "[v]"] exI[of _ "[]"]) (auto intro: pend_leaf)
next
  case (Bin a c b)
  define k where "k = opr2level c"
  have k: "1 \<le> k" "expr_wf a" "expr_wf b" using Bin.prems(1) by (auto simp: k_def)
  obtain x y r where xy: "expr_eval a = Some x" "expr_eval b = Some y" and "do_opr c x y = Some r"
    "(case r of Inl _ \<Rightarrow> None | Inr v \<Rightarrow> Some v) = Some v"
    using Bin.prems(2) by (auto simp: bind_eq_Some_conv)
  then have v: "do_opr c x y = Some (Inr v)" by (cases r) auto
  have body: "\<exists>ms ps. pend k v ms ps \<and> (\<forall>s. ascan (st ns os OPR []) ((expr_show k a @ c # expr_show (k + 1) b) @ s)
    = ascan (st (ms @ ns) (ps @ os) NUM []) s)" if top: "os = [] \<or> opr2level (hd os) < k" for ns os
  proof -
    obtain ms ps where 1: "pend k x ms ps" "\<And>s. ascan (st ns os OPR []) (expr_show k a @ s)
        = ascan (st (ms @ ns) (ps @ os) NUM []) s"
      using Bin.IH(1)[OF k(2) xy(1) k(1) top] by blast
    have 2: "ascan (st (ms @ ns) (ps @ os) NUM []) (c # s) = ascan (st (x # ns) (c # os) OPR []) s" for s
      using scan_opr[OF 1(1), of c os ns "[]" s] k(1) top by (simp add: k_def)
    obtain ms' ps' where 3: "pend (k + 1) y ms' ps'" "\<And>s. ascan (st (x # ns) (c # os) OPR []) (expr_show (k + 1) b @ s)
        = ascan (st (ms' @ x # ns) (ps' @ c # os) NUM []) s"
      using Bin.IH(2)[OF k(3) xy(2), of "k + 1" "c # os" "x # ns"] k(1) by (auto simp: k_def)
    show ?thesis
      using pend_node[OF 3(1)[unfolded k_def] order_refl v] 1(2) 2 3(2)
      by (intro exI[of _ "ms' @ [x]"] exI[of _ "ps' @ [c]"]) (simp add: k_def)
  qed
  show ?case
  proof (cases "k < l")
    case False
    then show ?thesis
      using body[of os ns] Bin.prems(4) pend_mono[of k v _ _ l] by (fastforce simp: k_def Let_def)
  next
    case True
    have "opr2level (CHR ''('') < k" using k(1) by (simp add: opr2level_def)
    then obtain ms ps where 1: "pend k v ms ps"
      "\<And>s. ascan (st ns (CHR ''('' # os) OPR []) ((expr_show k a @ c # expr_show (k + 1) b) @ s)
        = ascan (st (ms @ ns) (ps @ CHR ''('' # os) NUM []) s"
      using body[of "CHR ''('' # os" ns] by auto
    have "ascan (st ns os OPR []) (expr_show l (Bin a c b) @ s) = ascan (st (v # ns) os NUM []) s" for s
      using scan_open[of ns os "[]" OPR "(expr_show k a @ c # expr_show (k + 1) b) @ CHR '')'' # s"]
        1(2)[of "CHR '')'' # s"] scan_close[OF 1(1) k(1), of ns os "[]" NUM s] True
      by (simp add: k_def Let_def)
    then show ?thesis by (intro exI[of _ "[v]"] exI[of _ "[]"]) (auto intro: pend_leaf)
  qed
qed

text \<open>
  An expression never begins with an operator, so a \<open>flag\<close> left at NUM by an earlier calculation does
  no harm on an empty stack of numbers.
\<close>

lemma scan_flag: "expr_wf e \<Longrightarrow>
    ascan (st [] os NUM []) (expr_show l e @ s) = ascan (st [] os OPR []) (expr_show l e @ s)"
proof (induction e arbitrary: os l s)
  case (Lit cs)
  then obtain c ds where "cs = c # ds" "is_digit c" by (cases cs) auto
  then show ?case
    using scan_digit(1)[of c "[]" os "[]" "ds @ s"] scan_digit(2)[of c os "[]" "ds @ s"] by simp
next
  case (Bin a c b)
  define k t where "k = opr2level c" and "t = expr_show (k + 1) b"
  have IH: "ascan (st [] os NUM []) (expr_show k a @ r) = ascan (st [] os OPR []) (expr_show k a @ r)" for os r
    using Bin by simp
  show ?case
    using IH[of os "c # t @ s"] IH[of "CHR ''('' # os" "c # t @ CHR '')'' # s"]
      scan_open[of "[]" os "[]" NUM] scan_open[of "[]" os "[]" OPR]
    by (simp add: k_def[symmetric] t_def[symmetric] Let_def)
qed

lemma amain_show:
  assumes "expr_wf e" and "expr_eval e = Some v"
  shows "amain (st [] [] f x) (expr_show 1 e) = Some (v, st [] [] NUM [])"
proof -
  have "\<exists>ms ps. pend 1 v ms ps \<and> (\<forall>s. ascan (st [] [] OPR []) (expr_show 1 e @ s)
    = ascan (st (ms @ []) (ps @ []) NUM []) s)"
    by (rule scan_show[OF assms]) simp_all
  then obtain ms ps where 1: "pend 1 v ms ps" "\<And>s. ascan (st [] [] OPR []) (expr_show 1 e @ s)
    = ascan (st (ms @ []) (ps @ []) NUM []) s" by blast
  have "ascan (st [] [] f x) (expr_show 1 e) = Some (0, st ms ps NUM [])"
    using 1(2)[of "[]"] scan_flag[OF assms(1), of "[]" 1 "[]"] scan_st[of "[]" "[]" x f]
    by (cases f) simp_all
  moreover have "aunwind (st ms ps NUM []) = Some (0, st [v] [] NUM [])"
    using unwind_pend[OF 1(1), where ns = "[]" and os = "[]" and f = NUM and z = "[]"] by (simp add: calc_unwind.simps[of _ _ "st [v] [] NUM []"])
  ultimately show ?thesis by (simp add: calc_main_def)
qed

subsection \<open>On the stacks of stack.c\<close>

interpretation sk: calculator stack_ops stack_rep stack_cap stack_ops stack_rep stack_cap
  by unfold_locales

type_synonym calc = "(int stack_info, char stack_info) calc_info"

text \<open>\<open>calc_ready K L i\<close>: both stacks are empty and can take \<open>K\<close> numbers and \<open>L\<close> operators.\<close>

definition calc_ready :: "nat \<Rightarrow> nat \<Rightarrow> calc \<Rightarrow> bool" where
  "calc_ready K L i \<longleftrightarrow> stack_rep (num i) [] \<and> stack_rep (opr i) [] \<and> K \<le> stack_cap (num i)
     \<and> L \<le> stack_cap (opr i)"

lemma calc_ready_sim:
  "calc_ready K L i \<longleftrightarrow> sk.sim K L i (st [] [] (flag i) (cur i))"
  by (simp add: calc_ready_def sk.sim_def)

lemma calc_main_expr:
  assumes "calc_ready (2 * length s + K) (length s + L) i"
    and "filter (\<lambda>c. \<not> is_blank c) s = expr_show 1 e" and "expr_wf e" and "expr_eval e = Some v"
  shows "\<exists>i'. calc_main stack_ops stack_ops i s = Some (v, i') \<and> calc_ready K L i' \<and> flag i' = NUM"
proof -
  have "sk.run_sim K L (calc_main stack_ops stack_ops i s) (v, st [] [] NUM [])"
    using sk.calc_main_sim[OF assms(1)[unfolded calc_ready_sim]] amain_show[OF assms(3,4)] assms(2)
    by simp
  then show ?thesis by (auto simp: sk.run_sim_def sk.sim_def calc_ready_def)
qed

lemma calc_main_list:
  assumes "calc_ready (2 * length s + K) (length s + L) i" and "amain (st [] [] (flag i) (cur i))
      (filter (\<lambda>c. \<not> is_blank c) s) = Some (r, a)"
  shows "\<exists>i'. calc_main stack_ops stack_ops i s = Some (r, i') \<and> sk.sim K L i' a"
  using sk.calc_main_sim[OF assms(1)[unfolded calc_ready_sim] assms(2)] by (auto simp: sk.run_sim_def)

lemma calc_init_ready:
  assumes "stack_fresh a" and "stack_fresh b"
  shows "\<exists>i. calc_init (Some a) (Some b) = Some (0, Some i) \<and> flag i = OPR
    \<and> calc_ready (stack_cap a - 1) (stack_cap b - 1) i"
  using stack_init_rep[OF assms(1)] stack_init_rep[OF assms(2)]
  by (auto simp: calc_init_def calc_ready_def)

lemma calc_init_NULL: "a = None \<or> b = None \<Longrightarrow> calc_init a b = Some (-1, None)"
  by (auto simp: calc_init_def split: option.splits)

text \<open>The behaviour on some expressions outside the grammar.\<close>

lemma amain_cur: "amain (st ns os f x) s = amain (st ns os f []) s"
  unfolding calc_main_def by (subst scan_st) (rule refl)

lemma amain_unary_minus: "amain (st [] [] OPR []) ''8/-2*3'' = Some (-1, st [] [] NUM [])"
  by code_simp

lemma amain_mod_zero: "amain (st [] [] OPR []) ''1%0'' = None"
  by code_simp

lemma amain_div_zero: "amain (st [] [] OPR []) ''1/0'' = Some (-2, st [] [] NUM [])"
  by code_simp

lemma amain_negative_second:
  "amain (st [] [] OPR []) ''-5'' = Some (-5, st [] [] NUM [])"
  "amain (st [] [] NUM []) ''-5'' = Some (-2, st [] ''-'' NUM [])"
  by code_simp+

lemma amain_bracket_digit: "amain (st [] [] OPR []) ''2(3)'' = Some (23, st [] [] NUM [])"
  by code_simp

lemma astep_bracket_minus:
  "astep (st [] [] OPR ''(-)'') = Some (0, st [] ''('' OPR ''(-)'')"
  "astep (st [] ''('' OPR ''-)'') = Some (0, st [0] ''-('' OPR ''-)'')"
  by code_simp+

text \<open>\<open>(-)\<close> is never answered.\<close>

lemma calc_main_never:
  assumes "calc_ready 4 2 i" and "flag i = OPR"
  shows "\<exists>i1 i2 run. calc_step stack_ops stack_ops (i\<lparr>cur := ''(-)''\<rparr>) = Some (0, i1)
    \<and> calc_step stack_ops stack_ops (i1\<lparr>cur := ''-)''\<rparr>) = Some (0, i2)
    \<and> run 0 = i2\<lparr>cur := '')''\<rparr> \<and> endless (bracket_turn stack_ops stack_ops) run
    \<and> (\<forall>n. do_stack stack_ops stack_ops (run n) = Some (-1, run (Suc n)) \<and> opr (run (Suc n)) = opr (run n))
    \<and> calc_main stack_ops stack_ops i ''(-)'' = None"
proof -
  have "sk.sim (Suc (Suc 2)) (Suc 1) (i\<lparr>cur := ''(-)''\<rparr>) (st [] [] OPR ''(-)'')"
    using assms by (simp add: calc_ready_def sk.sim_def numeral_eq_Suc)
  from sk.calc_step_sim[OF this astep_bracket_minus(1)] obtain i1 where
    i1: "calc_step stack_ops stack_ops (i\<lparr>cur := ''(-)''\<rparr>) = Some (0, i1)"
      "sk.sim 2 1 i1 (st [] ''('' OPR ''(-)'')"
    by (auto simp: sk.run_sim_def)
  have "sk.sim (Suc (Suc 0)) (Suc 0) (i1\<lparr>cur := ''-)''\<rparr>) (st [] ''('' OPR ''-)'')"
    using i1(2) by (simp add: sk.sim_def numeral_eq_Suc)
  from sk.calc_step_sim[OF this astep_bracket_minus(2)] obtain i2 where
    i2: "calc_step stack_ops stack_ops (i1\<lparr>cur := ''-)''\<rparr>) = Some (0, i2)"
      "sk.sim 0 0 i2 (st [0] ''-('' OPR ''-)'')"
    by (auto simp: sk.run_sim_def)
  let ?i = "i2\<lparr>cur := '')''\<rparr>"
  obtain run where run: "run 0 = ?i" "endless (bracket_turn stack_ops stack_ops) run"
      "\<forall>n. do_stack stack_ops stack_ops (run n) = Some (-1, run (Suc n)) \<and> opr (run (Suc n)) = opr (run n)"
    using sk.bracket_endless[of ?i "[0]" "CHR ''-''" "''(''"] sk.sim_rep(1,2)[OF i2(2)] by auto
  have "bracket_handle stack_ops stack_ops ?i = loop_turns (bracket_turn stack_ops stack_ops) (run 0)"
    by (simp add: bracket_handle_def deref_def bracket_loop_def run(1))
  then have "calc_main stack_ops stack_ops i ''(-)'' = None"
    using i1(1) i2(1) endless_loop[OF run(2)] by (simp add: calc_main_def calc_step_def deref_def is_digit_other is_blank_def)
  then show ?thesis using i1(1) i2(1) run by blast
qed

end
