(* ===== verification/Compare.thy ===== *)
theory Compare
  imports Prelude
begin

section \<open>The contract of comparison functions\<close>

text \<open>
  The tree, the sorting routines and the hash table take a comparison from their client, which returns
  a negative, zero or positive \<open>int\<close>. What they rely on: on the keys \<open>K\<close> in use it is antisymmetric in
  sign and transitive, a total preorder. A client may compare a part of its objects: \<open>key\<close> selects it.
\<close>

locale compare =
  fixes K :: "'k set" and cmp :: "'k \<Rightarrow> 'k \<Rightarrow> int"
  assumes cmp_sign: "a \<in> K \<Longrightarrow> b \<in> K \<Longrightarrow> cmp a b < 0 \<longleftrightarrow> 0 < cmp b a"
    and cmp_trans: "a \<in> K \<Longrightarrow> b \<in> K \<Longrightarrow> c \<in> K \<Longrightarrow> cmp a b \<le> 0 \<Longrightarrow> cmp b c \<le> 0 \<Longrightarrow> cmp a c \<le> 0"
begin

lemma cmp_refl: "a \<in> K \<Longrightarrow> cmp a a = 0"
  using cmp_sign[of a a] by linarith

lemma cmp_zero: "a \<in> K \<Longrightarrow> b \<in> K \<Longrightarrow> cmp a b = 0 \<longleftrightarrow> cmp b a = 0"
  using cmp_sign[of a b] cmp_sign[of b a] by linarith

lemma cmp_le_ge: "a \<in> K \<Longrightarrow> b \<in> K \<Longrightarrow> cmp a b \<le> 0 \<longleftrightarrow> 0 \<le> cmp b a"
  using cmp_sign[of b a] by linarith

lemma cmp_total: "a \<in> K \<Longrightarrow> b \<in> K \<Longrightarrow> cmp a b \<le> 0 \<or> cmp b a \<le> 0"
  using cmp_sign[of b a] by linarith

lemma cmp_less_le_trans:
  "a \<in> K \<Longrightarrow> b \<in> K \<Longrightarrow> c \<in> K \<Longrightarrow> cmp a b < 0 \<Longrightarrow> cmp b c \<le> 0 \<Longrightarrow> cmp a c < 0"
  using cmp_trans[of b c a] cmp_sign[of a b] cmp_sign[of a c] cmp_le_ge[of c a] by force

lemma cmp_le_less_trans:
  "a \<in> K \<Longrightarrow> b \<in> K \<Longrightarrow> c \<in> K \<Longrightarrow> cmp a b \<le> 0 \<Longrightarrow> cmp b c < 0 \<Longrightarrow> cmp a c < 0"
  using cmp_trans[of c a b] cmp_sign[of b c] cmp_sign[of a c] cmp_le_ge[of c a] by force

text \<open>Lists in order, and insertion behind the elements that are not greater.\<close>

definition ordered :: "('a \<Rightarrow> 'k) \<Rightarrow> 'a list \<Rightarrow> bool" where
  "ordered key xs \<longleftrightarrow> sorted_wrt (\<lambda>a b. cmp (key a) (key b) \<le> 0) xs"

lemma ordered_append:
  "ordered key (xs @ ys) \<longleftrightarrow> ordered key xs \<and> ordered key ys
     \<and> (\<forall>x \<in> set xs. \<forall>y \<in> set ys. cmp (key x) (key y) \<le> 0)"
  by (auto simp: ordered_def sorted_wrt_append)

lemma ordered_simps [simp]:
  "ordered key []" "ordered key (x # xs) \<longleftrightarrow> (\<forall>y \<in> set xs. cmp (key x) (key y) \<le> 0) \<and> ordered key xs"
  by (auto simp: ordered_def)

lemma ordered_Cons2:
  assumes "key ` set (x # y # xs) \<subseteq> K"
  shows "ordered key (x # y # xs) \<longleftrightarrow> cmp (key x) (key y) \<le> 0 \<and> ordered key (y # xs)"
proof -
  have "cmp (key x) (key z) \<le> 0" if "cmp (key x) (key y) \<le> 0" "cmp (key y) (key z) \<le> 0" "z \<in> set xs" for z
    using cmp_trans[of "key x" "key y" "key z"] assms that by auto
  then show ?thesis by (auto simp: ordered_def)
qed

text \<open>Adjacent elements decide, as the loops of the code compare them.\<close>

lemma ordered_adjacent:
  assumes "key ` set xs \<subseteq> K"
  shows "ordered key xs \<longleftrightarrow> (\<forall>i. Suc i < length xs \<longrightarrow> cmp (key (xs ! i)) (key (xs ! Suc i)) \<le> 0)"
  using assms
proof (induction xs rule: induct_list012)
  case (3 x y zs)
  have "(\<forall>i. Suc i < length (x # y # zs) \<longrightarrow> cmp (key ((x # y # zs) ! i)) (key ((x # y # zs) ! Suc i)) \<le> 0)
    \<longleftrightarrow> cmp (key x) (key y) \<le> 0 \<and> (\<forall>i. Suc i < length (y # zs) \<longrightarrow> cmp (key ((y # zs) ! i)) (key ((y # zs) ! Suc i)) \<le> 0)"
    by (auto simp: nth_Cons' less_Suc_eq_0_disj)
  then show ?case using 3 ordered_Cons2[of key x y zs] by auto
qed (auto simp: ordered_def)

end

definition insert_by :: "('a \<Rightarrow> int) \<Rightarrow> 'a \<Rightarrow> 'a list \<Rightarrow> 'a list" where
  "insert_by k x xs = takeWhile (\<lambda>y. k y \<ge> 0) xs @ x # dropWhile (\<lambda>y. k y \<ge> 0) xs"

lemma insert_by_mset [simp]: "mset (insert_by k x xs) = add_mset x (mset xs)"
  unfolding insert_by_def mset_append mset.simps(2) union_mset_add_mset_right
  by (metis mset_append takeWhile_dropWhile_id)

lemma insert_by_set [simp]: "set (insert_by k x xs) = insert x (set xs)"
  by (metis insert_by_mset set_mset_add_mset_insert set_mset_mset)

context compare
begin

lemma insert_by_ordered:
  assumes "ordered key xs" and "key ` set (x # xs) \<subseteq> K"
  shows "ordered key (insert_by (\<lambda>y. cmp (key x) (key y)) x xs)"
  using assms
proof (induction xs)
  case Nil
  then show ?case by (simp add: insert_by_def)
next
  case (Cons y ys)
  have K: "key x \<in> K" "key y \<in> K" "key ` set ys \<subseteq> K" using Cons.prems(2) by auto
  show ?case
  proof (cases "cmp (key x) (key y) \<ge> 0")
    case True
    then have "cmp (key y) (key x) \<le> 0" using cmp_le_ge K by blast
    moreover have "insert_by (\<lambda>y. cmp (key x) (key y)) x (y # ys) = y # insert_by (\<lambda>y. cmp (key x) (key y)) x ys"
      using True by (simp add: insert_by_def)
    ultimately show ?thesis using Cons by simp
  next
    case False
    then have "cmp (key x) (key z) \<le> 0" if "z \<in> set ys" for z
      using cmp_trans[of "key x" "key y" "key z"] Cons.prems K that by auto
    then show ?thesis using False Cons.prems by (auto simp: insert_by_def)
  qed
qed

lemma ordered_split:
  assumes "ordered key (xs @ y # ys)" and "key ` set (xs @ y # ys) \<subseteq> K" and "a \<in> K"
  shows "cmp a (key y) < 0 \<Longrightarrow> z \<in> set ys \<Longrightarrow> cmp a (key z) < 0"
    and "cmp a (key y) > 0 \<Longrightarrow> z \<in> set xs \<Longrightarrow> cmp a (key z) > 0"
    and "cmp a (key y) \<ge> 0 \<Longrightarrow> z \<in> set xs \<Longrightarrow> cmp a (key z) \<ge> 0"
proof -
  have K: "key y \<in> K" "z \<in> set (xs @ y # ys) \<Longrightarrow> key z \<in> K" using assms(2) by auto
  show "cmp a (key y) < 0 \<Longrightarrow> z \<in> set ys \<Longrightarrow> cmp a (key z) < 0"
    using cmp_less_le_trans[of a "key y" "key z"] assms(1,3) K by (simp add: ordered_append)
  show "cmp a (key y) > 0 \<Longrightarrow> z \<in> set xs \<Longrightarrow> cmp a (key z) > 0"
    using cmp_le_less_trans[of "key z" "key y" a] cmp_sign assms(1,3) K by (auto simp: ordered_append)
  show "cmp a (key y) \<ge> 0 \<Longrightarrow> z \<in> set xs \<Longrightarrow> cmp a (key z) \<ge> 0"
    using cmp_trans[of "key z" "key y" a] cmp_le_ge assms(1,3) K by (auto simp: ordered_append)
qed

end

subsection \<open>The contract of sorting routines\<close>

context compare
begin

text \<open>The client's function \<open>f\<close> computes the comparison on the elements \<open>S\<close>.\<close>

definition agrees :: "('a \<Rightarrow> 'k) \<Rightarrow> ('a \<Rightarrow> 'a \<Rightarrow> int option) \<Rightarrow> 'a set \<Rightarrow> bool" where
  "agrees key f S \<longleftrightarrow> key ` S \<subseteq> K \<and> (\<forall>a \<in> S. \<forall>b \<in> S. f a b = Some (cmp (key a) (key b)))"

lemma agreesD: "agrees key f S \<Longrightarrow> a \<in> S \<Longrightarrow> b \<in> S \<Longrightarrow> f a b = Some (cmp (key a) (key b))"
  by (simp add: agrees_def)

lemma agrees_mono: "agrees key f S \<Longrightarrow> T \<subseteq> S \<Longrightarrow> agrees key f T"
  by (auto simp: agrees_def)

lemma agrees_K: "agrees key f S \<Longrightarrow> a \<in> S \<Longrightarrow> key a \<in> K"
  by (auto simp: agrees_def)

text \<open>What a sort of the range \<open>ys\<close> promises.\<close>

definition sorts :: "('a \<Rightarrow> 'k) \<Rightarrow> 'a list \<Rightarrow> 'a list \<Rightarrow> bool" where
  "sorts key ys zs \<longleftrightarrow> mset zs = mset ys \<and> ordered key zs"

lemma sorts_len: "sorts key ys zs \<Longrightarrow> length zs = length ys"
  unfolding sorts_def by (metis size_mset)

lemma sorts_set: "sorts key ys zs \<Longrightarrow> set zs = set ys"
  unfolding sorts_def by (metis set_mset_mset)

lemma le_total:
  assumes "agrees key f S" and "a \<in> S" and "b \<in> S"
  shows "\<not> cmp (key a) (key b) \<le> 0 \<Longrightarrow> cmp (key b) (key a) \<le> 0"
    and "0 < cmp (key a) (key b) \<Longrightarrow> cmp (key b) (key a) \<le> 0"
    and "0 \<le> cmp (key a) (key b) \<Longrightarrow> cmp (key b) (key a) \<le> 0"
  using cmp_total[of "key a" "key b"] cmp_le_ge[of "key b" "key a"] assms by (auto dest: agrees_K)

lemma le_trans:
  assumes "agrees key f S" and "a \<in> S" and "b \<in> S" and "c \<in> S"
    and "cmp (key a) (key b) \<le> 0" and "cmp (key b) (key c) \<le> 0"
  shows "cmp (key a) (key c) \<le> 0"
  using cmp_trans assms by (meson agrees_K)

lemma last_le:
  assumes "agrees key f (set (x # us))" and "ordered key us" and "us = [] \<or> cmp (key (last us)) (key x) \<le> 0"
  shows "\<forall>u \<in> set us. cmp (key u) (key x) \<le> 0"
proof
  fix u
  assume u: "u \<in> set us"
  then obtain vs l where us: "us = vs @ [l]" by (cases us rule: rev_cases) auto
  show "cmp (key u) (key x) \<le> 0"
  proof (cases "u = l")
    case True
    then show ?thesis using assms(3) us by simp
  next
    case False
    then have "cmp (key u) (key l) \<le> 0" using u us assms(2) by (auto simp: ordered_append)
    then show ?thesis using le_trans[OF assms(1), of u l x] assms(3) u us by simp
  qed
qed

end

text \<open>Comparison by subtraction, when the difference does not overflow.\<close>

interpretation diff: compare UNIV "\<lambda>a b. a - b :: int"
  by unfold_locales auto

end
