(* ===== verification/Btree.thy ===== *)
theory Btree
  imports Stack Compare "HOL-Library.Tree"
begin

section \<open>The search tree (06Btree/btree.c)\<close>

text \<open>
  A node is the three links of \<open>struct bnode_info\<close>; the client's struct that embeds it extends the
  record. \<open>struct btree_info\<close> keeps the root and the comparison; its function pointers always hold the
  functions of this file. A C expression \<open>pparent\<close> of type \<open>struct bnode_info **\<close> is the address of the
  root or of a child link: a \<open>loc\<close>.

  The comparison reads the two nodes, so \<open>cmp\<close> is a function of the memory and the two addresses. The
  callback \<open>todo\<close> of the traversals acts on the memory and on a state \<open>'w\<close> of its own.
\<close>

record bnode_info =
  parent :: ptr
  lchild :: ptr
  rchild :: ptr

record 'n btree_info =
  root :: ptr
  bmem :: "'n heap"

datatype loc = Root | Lchild ptr | Rchild ptr

definition get_loc :: "'z bnode_info_scheme btree_info \<Rightarrow> loc \<Rightarrow> ptr option" where
  "get_loc s pp = (case pp of Root \<Rightarrow> Some (root s) | Lchild q \<Rightarrow> rd (bmem s) lchild q
     | Rchild q \<Rightarrow> rd (bmem s) rchild q)"

definition set_loc :: "'z bnode_info_scheme btree_info \<Rightarrow> loc \<Rightarrow> ptr \<Rightarrow> 'z bnode_info_scheme btree_info option" where
  "set_loc s pp v = (case pp of
     Root \<Rightarrow> Some (s\<lparr>root := v\<rparr>)
   | Lchild q \<Rightarrow> do { h \<leftarrow> wr (bmem s) q (\<lambda>n. n\<lparr>lchild := v\<rparr>); Some (s\<lparr>bmem := h\<rparr>) }
   | Rchild q \<Rightarrow> do { h \<leftarrow> wr (bmem s) q (\<lambda>n. n\<lparr>rchild := v\<rparr>); Some (s\<lparr>bmem := h\<rparr>) })"

definition bnode_init :: "'z bnode_info_scheme heap \<Rightarrow> ptr \<Rightarrow> 'z bnode_info_scheme heap option" where
  "bnode_init h node = do {
     h \<leftarrow> wr h node (\<lambda>n. n\<lparr>parent := NULL\<rparr>);
     h \<leftarrow> wr h node (\<lambda>n. n\<lparr>lchild := NULL\<rparr>);
     wr h node (\<lambda>n. n\<lparr>rchild := NULL\<rparr>)
   }"

partial_function (option) btree_push_loop ::
    "('z bnode_info_scheme heap \<Rightarrow> ptr \<Rightarrow> ptr \<Rightarrow> int option) \<Rightarrow> 'z bnode_info_scheme btree_info \<Rightarrow> ptr \<Rightarrow>
     loc \<Rightarrow> ptr \<Rightarrow> (loc \<times> ptr) option" where
  "btree_push_loop cmp s node pparent cur = do {
     p \<leftarrow> get_loc s pparent;
     (if p = NULL then Some (pparent, cur)
      else do {
        let cur = p;
        c \<leftarrow> cmp (bmem s) node cur;
        btree_push_loop cmp s node (if c \<ge> 0 then Rchild cur else Lchild cur) cur
      })
   }"

definition btree_push ::
    "('z bnode_info_scheme heap \<Rightarrow> ptr \<Rightarrow> ptr \<Rightarrow> int option) \<Rightarrow> 'z bnode_info_scheme btree_info \<Rightarrow> ptr \<Rightarrow>
     'z bnode_info_scheme btree_info option" where
  "btree_push cmp s node = (if node = NULL then None else do {
     h \<leftarrow> bnode_init (bmem s) node;
     let s = s\<lparr>bmem := h\<rparr>;
     (if root s = NULL then Some (s\<lparr>root := node\<rparr>)
      else do {
        (pparent, cur) \<leftarrow> btree_push_loop cmp s node Root NULL;
        s \<leftarrow> set_loc s pparent node;
        h \<leftarrow> wr (bmem s) node (\<lambda>n. n\<lparr>parent := cur\<rparr>);
        Some (s\<lparr>bmem := h\<rparr>)
      })
   })"

type_synonym ('n, 'w) visitor = "'n heap \<times> 'w \<Rightarrow> ptr \<Rightarrow> ('n heap \<times> 'w) option"

partial_function (option) pre_order_rec ::
    "('z bnode_info_scheme, 'w) visitor \<Rightarrow> 'z bnode_info_scheme heap \<times> 'w \<Rightarrow> ptr \<Rightarrow>
     ('z bnode_info_scheme heap \<times> 'w) option" where
  "pre_order_rec todo hw cur =
     (if cur \<noteq> NULL then do {
        hw \<leftarrow> todo hw cur;
        l \<leftarrow> rd (fst hw) lchild cur;
        hw \<leftarrow> pre_order_rec todo hw l;
        r \<leftarrow> rd (fst hw) rchild cur;
        pre_order_rec todo hw r
      } else Some hw)"

partial_function (option) in_order_rec ::
    "('z bnode_info_scheme, 'w) visitor \<Rightarrow> 'z bnode_info_scheme heap \<times> 'w \<Rightarrow> ptr \<Rightarrow>
     ('z bnode_info_scheme heap \<times> 'w) option" where
  "in_order_rec todo hw cur =
     (if cur \<noteq> NULL then do {
        l \<leftarrow> rd (fst hw) lchild cur;
        hw \<leftarrow> in_order_rec todo hw l;
        hw \<leftarrow> todo hw cur;
        r \<leftarrow> rd (fst hw) rchild cur;
        in_order_rec todo hw r
      } else Some hw)"

partial_function (option) post_order_rec ::
    "('z bnode_info_scheme, 'w) visitor \<Rightarrow> 'z bnode_info_scheme heap \<times> 'w \<Rightarrow> ptr \<Rightarrow>
     ('z bnode_info_scheme heap \<times> 'w) option" where
  "post_order_rec todo hw cur =
     (if cur \<noteq> NULL then do {
        l \<leftarrow> rd (fst hw) lchild cur;
        hw \<leftarrow> post_order_rec todo hw l;
        r \<leftarrow> rd (fst hw) rchild cur;
        hw \<leftarrow> post_order_rec todo hw r;
        todo hw cur
      } else Some hw)"

definition btree_pre_order where
  "btree_pre_order s todo w = pre_order_rec todo (bmem s, w) (root s)"

definition btree_in_order where
  "btree_in_order s todo w = in_order_rec todo (bmem s, w) (root s)"

definition btree_post_order where
  "btree_post_order s todo w = post_order_rec todo (bmem s, w) (root s)"

text \<open>
  The loops of the traversals with a queue or a stack go through the table of function pointers. \<open>q0\<close>
  is the \<open>struct queue_info\<close> that \<open>malloc\<close> delivers (the \<open>assert\<close> excludes NULL) with its share of
  the memory.
\<close>

partial_function (option) level_loop ::
    "('q, ptr) container_ops \<Rightarrow> ('z bnode_info_scheme, 'w) visitor \<Rightarrow> 'q \<Rightarrow> ptr \<Rightarrow>
     'z bnode_info_scheme heap \<times> 'w \<Rightarrow> ('q \<times> 'z bnode_info_scheme heap \<times> 'w) option" where
  "level_loop Q todo q cur hw = do {
     e \<leftarrow> is_empty Q q;
     (if e then Some (q, hw)
      else do {
        (r, cur, q) \<leftarrow> pop Q q cur;
        hw \<leftarrow> todo hw cur;
        l \<leftarrow> rd (fst hw) lchild cur;
        (r, q) \<leftarrow> (if l \<noteq> NULL then push Q q l else Some (0, q));
        rc \<leftarrow> rd (fst hw) rchild cur;
        (r, q) \<leftarrow> (if rc \<noteq> NULL then push Q q rc else Some (0, q));
        level_loop Q todo q cur hw
      })
   }"

definition btree_level_order ::
    "ptr stack_info \<Rightarrow> 'z bnode_info_scheme btree_info \<Rightarrow> ('z bnode_info_scheme, 'w) visitor \<Rightarrow> 'w \<Rightarrow>
     ('z bnode_info_scheme heap \<times> 'w) option" where
  "btree_level_order q0 s todo w = do {
     (r, q) \<leftarrow> queue_init q0;
     (r, q) \<leftarrow> push queue_ops q (root s);
     (q, hw) \<leftarrow> level_loop queue_ops todo q (root s) (bmem s, w);
     (r, q) \<leftarrow> queue_destroy q;
     Some hw
   }"

partial_function (option) get_depth_rec :: "'z bnode_info_scheme heap \<Rightarrow> ptr \<Rightarrow> csize option" where
  "get_depth_rec h bnode =
     (if bnode = NULL then Some 0
      else do {
        l \<leftarrow> rd h lchild bnode;
        ldepth \<leftarrow> get_depth_rec h l;
        r \<leftarrow> rd h rchild bnode;
        rdepth \<leftarrow> get_depth_rec h r;
        Some (if ldepth > rdepth then ldepth + 1 else rdepth + 1)
      })"

definition btree_get_depth :: "'z bnode_info_scheme btree_info \<Rightarrow> csize option" where
  "btree_get_depth s = get_depth_rec (bmem s) (root s)"

partial_function (option) btree_find_loop ::
    "('z bnode_info_scheme heap \<Rightarrow> ptr \<Rightarrow> ptr \<Rightarrow> int option) \<Rightarrow> 'z bnode_info_scheme heap \<Rightarrow> ptr \<Rightarrow> ptr \<Rightarrow>
     ptr option" where
  "btree_find_loop cmp h key cur =
     (if cur = NULL then Some NULL
      else do {
        n \<leftarrow> cmp h key cur;
        (if n = 0 then Some cur
         else if n < 0 then do { l \<leftarrow> rd h lchild cur; btree_find_loop cmp h key l }
         else do { r \<leftarrow> rd h rchild cur; btree_find_loop cmp h key r })
      })"

definition btree_find ::
    "('z bnode_info_scheme heap \<Rightarrow> ptr \<Rightarrow> ptr \<Rightarrow> int option) \<Rightarrow> 'z bnode_info_scheme btree_info \<Rightarrow> ptr \<Rightarrow>
     ptr option" where
  "btree_find cmp s key = btree_find_loop cmp (bmem s) key (root s)"

text \<open>The search of the heir: the leftmost node of the right subtree.\<close>

partial_function (option) leftmost_loop :: "'z bnode_info_scheme heap \<Rightarrow> ptr \<Rightarrow> ptr option" where
  "leftmost_loop h cur = do {
     l \<leftarrow> rd h lchild cur;
     (if l \<noteq> NULL then leftmost_loop h l else Some cur)
   }"

definition btree_del :: "'z bnode_info_scheme btree_info \<Rightarrow> ptr \<Rightarrow> (int \<times> 'z bnode_info_scheme btree_info) option" where
  "btree_del s node = (if node = NULL then None
   else if root s = NULL then Some (-1, s)
   else do {
     par \<leftarrow> rd (bmem s) parent node;
     pparent \<leftarrow> (if par = NULL then Some Root
       else do { pl \<leftarrow> rd (bmem s) lchild par; Some (if pl = node then Lchild par else Rchild par) });
     l \<leftarrow> rd (bmem s) lchild node;
     r \<leftarrow> rd (bmem s) rchild node;
     (if l = NULL \<and> r = NULL then do {
        s \<leftarrow> set_loc s pparent NULL;
        h \<leftarrow> wr (bmem s) node (\<lambda>n. n\<lparr>parent := NULL\<rparr>);
        Some (0, s\<lparr>bmem := h\<rparr>)
      } else if l \<noteq> NULL \<and> r = NULL then do {
        h \<leftarrow> wr (bmem s) l (\<lambda>n. n\<lparr>parent := par\<rparr>);
        s \<leftarrow> set_loc (s\<lparr>bmem := h\<rparr>) pparent l;
        h \<leftarrow> wr (bmem s) node (\<lambda>n. n\<lparr>parent := NULL\<rparr>);
        h \<leftarrow> wr h node (\<lambda>n. n\<lparr>lchild := NULL\<rparr>);
        Some (0, s\<lparr>bmem := h\<rparr>)
      } else if r \<noteq> NULL \<and> l = NULL then do {
        h \<leftarrow> wr (bmem s) r (\<lambda>n. n\<lparr>parent := par\<rparr>);
        s \<leftarrow> set_loc (s\<lparr>bmem := h\<rparr>) pparent r;
        h \<leftarrow> wr (bmem s) node (\<lambda>n. n\<lparr>parent := NULL\<rparr>);
        h \<leftarrow> wr h node (\<lambda>n. n\<lparr>rchild := NULL\<rparr>);
        Some (0, s\<lparr>bmem := h\<rparr>)
      } else do {
        cur \<leftarrow> leftmost_loop (bmem s) r;
        cp \<leftarrow> rd (bmem s) parent cur;
        cr \<leftarrow> rd (bmem s) rchild cur;
        h \<leftarrow> (if cp \<noteq> node then wr (bmem s) cp (\<lambda>n. n\<lparr>lchild := cr\<rparr>)
              else wr (bmem s) cp (\<lambda>n. n\<lparr>rchild := cr\<rparr>));
        cr \<leftarrow> rd h rchild cur;
        h \<leftarrow> (if cr \<noteq> NULL then do { cp \<leftarrow> rd h parent cur; wr h cr (\<lambda>n. n\<lparr>parent := cp\<rparr>) } else Some h);
        np \<leftarrow> rd h parent node;
        nl \<leftarrow> rd h lchild node;
        nr \<leftarrow> rd h rchild node;
        h \<leftarrow> wr h cur (\<lambda>n. n\<lparr>parent := np, lchild := nl, rchild := nr\<rparr>);
        s \<leftarrow> set_loc (s\<lparr>bmem := h\<rparr>) pparent cur;
        cl \<leftarrow> rd (bmem s) lchild cur;
        h \<leftarrow> (if cl \<noteq> NULL then wr (bmem s) cl (\<lambda>n. n\<lparr>parent := cur\<rparr>) else Some (bmem s));
        cr \<leftarrow> rd h rchild cur;
        h \<leftarrow> (if cr \<noteq> NULL then wr h cr (\<lambda>n. n\<lparr>parent := cur\<rparr>) else Some h);
        Some (0, s\<lparr>bmem := h\<rparr>)
      })
   })"

partial_function (option) pre_norecur_loop ::
    "('q, ptr) container_ops \<Rightarrow> ('z bnode_info_scheme, 'w) visitor \<Rightarrow> 'q \<Rightarrow> ptr \<Rightarrow>
     'z bnode_info_scheme heap \<times> 'w \<Rightarrow> ('q \<times> 'z bnode_info_scheme heap \<times> 'w) option" where
  "pre_norecur_loop S todo q cur hw = do {
     e \<leftarrow> is_empty S q;
     (if \<not> e \<or> cur \<noteq> NULL then
        (if cur \<noteq> NULL then do {
           (r, q) \<leftarrow> push S q cur;
           hw \<leftarrow> todo hw cur;
           cur \<leftarrow> rd (fst hw) lchild cur;
           pre_norecur_loop S todo q cur hw
         } else do {
           (r, cur, q) \<leftarrow> pop S q cur;
           cur \<leftarrow> rd (fst hw) rchild cur;
           pre_norecur_loop S todo q cur hw
         })
      else Some (q, hw))
   }"

partial_function (option) in_norecur_loop ::
    "('q, ptr) container_ops \<Rightarrow> ('z bnode_info_scheme, 'w) visitor \<Rightarrow> 'q \<Rightarrow> ptr \<Rightarrow>
     'z bnode_info_scheme heap \<times> 'w \<Rightarrow> ('q \<times> 'z bnode_info_scheme heap \<times> 'w) option" where
  "in_norecur_loop S todo q cur hw = do {
     e \<leftarrow> is_empty S q;
     (if \<not> e \<or> cur \<noteq> NULL then
        (if cur \<noteq> NULL then do {
           (r, q) \<leftarrow> push S q cur;
           cur \<leftarrow> rd (fst hw) lchild cur;
           in_norecur_loop S todo q cur hw
         } else do {
           (r, cur, q) \<leftarrow> pop S q cur;
           hw \<leftarrow> todo hw cur;
           cur \<leftarrow> rd (fst hw) rchild cur;
           in_norecur_loop S todo q cur hw
         })
      else Some (q, hw))
   }"

partial_function (option) post_norecur_loop ::
    "('q, ptr) container_ops \<Rightarrow> ('z bnode_info_scheme, 'w) visitor \<Rightarrow> 'q \<Rightarrow> ptr \<Rightarrow> ptr \<Rightarrow>
     'z bnode_info_scheme heap \<times> 'w \<Rightarrow> ('q \<times> 'z bnode_info_scheme heap \<times> 'w) option" where
  "post_norecur_loop S todo q cur prv hw = do {
     e \<leftarrow> is_empty S q;
     (if \<not> e \<or> cur \<noteq> NULL then
        (if cur \<noteq> NULL then do {
           (r, q) \<leftarrow> push S q cur;
           cur \<leftarrow> rd (fst hw) lchild cur;
           post_norecur_loop S todo q cur prv hw
         } else do {
           (r, cur) \<leftarrow> top S q cur;
           rc \<leftarrow> rd (fst hw) rchild cur;
           (if rc \<noteq> NULL \<and> rc \<noteq> prv then post_norecur_loop S todo q rc prv hw
            else do {
              (r, prv, q) \<leftarrow> pop S q prv;
              hw \<leftarrow> todo hw cur;
              post_norecur_loop S todo q NULL prv hw
            })
         })
      else Some (q, hw))
   }"

definition btree_pre_order_norecur ::
    "ptr stack_info \<Rightarrow> 'z bnode_info_scheme btree_info \<Rightarrow> ('z bnode_info_scheme, 'w) visitor \<Rightarrow> 'w \<Rightarrow>
     ('z bnode_info_scheme heap \<times> 'w) option" where
  "btree_pre_order_norecur q0 s todo w = do {
     (r, q) \<leftarrow> stack_init q0;
     (q, hw) \<leftarrow> pre_norecur_loop stack_ops todo q (root s) (bmem s, w);
     (r, q) \<leftarrow> stack_destroy q;
     Some hw
   }"

definition btree_in_order_norecur ::
    "ptr stack_info \<Rightarrow> 'z bnode_info_scheme btree_info \<Rightarrow> ('z bnode_info_scheme, 'w) visitor \<Rightarrow> 'w \<Rightarrow>
     ('z bnode_info_scheme heap \<times> 'w) option" where
  "btree_in_order_norecur q0 s todo w = do {
     (r, q) \<leftarrow> stack_init q0;
     (q, hw) \<leftarrow> in_norecur_loop stack_ops todo q (root s) (bmem s, w);
     (r, q) \<leftarrow> stack_destroy q;
     Some hw
   }"

definition btree_post_order_norecur ::
    "ptr stack_info \<Rightarrow> 'z bnode_info_scheme btree_info \<Rightarrow> ('z bnode_info_scheme, 'w) visitor \<Rightarrow> 'w \<Rightarrow>
     ('z bnode_info_scheme heap \<times> 'w) option" where
  "btree_post_order_norecur q0 s todo w = do {
     (r, q) \<leftarrow> stack_init q0;
     (q, hw) \<leftarrow> post_norecur_loop stack_ops todo q (root s) NULL (bmem s, w);
     (r, q) \<leftarrow> stack_destroy q;
     Some hw
   }"

definition btree_init :: "'n heap \<Rightarrow> 'n btree_info" where
  "btree_init h = \<lparr>root = NULL, bmem = h\<rparr>"

text \<open>The client of test.c: an integer payload, compared by subtraction, which overflows.\<close>

record data_info = bnode_info +
  bdata :: int

definition bnode_cmp :: "data_info heap \<Rightarrow> ptr \<Rightarrow> ptr \<Rightarrow> int option" where
  "bnode_cmp h a b = do {
     x \<leftarrow> rd h bdata a;
     y \<leftarrow> rd h bdata b;
     (if - (2 ^ 31) \<le> x - y \<and> x - y < 2 ^ 31 then Some (x - y) else None)
   }"

definition print_bnode :: "(data_info, int list) visitor" where
  "print_bnode hw node = do { x \<leftarrow> rd (fst hw) bdata node; Some (fst hw, snd hw @ [x]) }"

subsection \<open>Trees of nodes in the memory\<close>

text \<open>
  \<open>bt P L R par t\<close>: the link maps hold the tree \<open>t\<close> of addresses below the node \<open>par\<close>. \<open>rp\<close> is the
  pointer that stands for a tree. \<open>btree_inv\<close> is the representation invariant of the object.
\<close>

fun rp :: "ptr tree \<Rightarrow> ptr" where
  "rp Leaf = NULL"
| "rp (Node l q r) = q"

type_synonym links = "ptr \<Rightarrow> ptr option"

fun bt :: "links \<Rightarrow> links \<Rightarrow> links \<Rightarrow> ptr \<Rightarrow> ptr tree \<Rightarrow> bool" where
  "bt P L R par Leaf \<longleftrightarrow> True"
| "bt P L R par (Node l q r) \<longleftrightarrow> q \<noteq> NULL \<and> P q = Some par \<and> L q = Some (rp l) \<and> R q = Some (rp r)
     \<and> bt P L R q l \<and> bt P L R q r"

definition btree_inv :: "'z bnode_info_scheme btree_info \<Rightarrow> ptr tree \<Rightarrow> bool" where
  "btree_inv s t \<longleftrightarrow> root s = rp t \<and> distinct (inorder t)
     \<and> bt (fld (bmem s) parent) (fld (bmem s) lchild) (fld (bmem s) rchild) NULL t"

lemma bt_frame:
  assumes "bt P L R par t"
    and "\<And>q. q \<in> set_tree t \<Longrightarrow> P' q = P q" "\<And>q. q \<in> set_tree t \<Longrightarrow> L' q = L q"
      "\<And>q. q \<in> set_tree t \<Longrightarrow> R' q = R q"
  shows "bt P' L' R' par t"
  using assms by (induction t arbitrary: par) auto

lemma bt_nonnull: "bt P L R par t \<Longrightarrow> q \<in> set_tree t \<Longrightarrow> q \<noteq> NULL \<and> P q \<noteq> None \<and> L q \<noteq> None \<and> R q \<noteq> None"
  by (induction t arbitrary: par) auto

lemma bt_rp: "bt P L R par t \<Longrightarrow> rp t = NULL \<longleftrightarrow> t = Leaf"
  by (cases t) auto

lemma rp_in: "t \<noteq> Leaf \<Longrightarrow> rp t \<in> set_tree t"
  by (cases t) auto

text \<open>A tree is moved to another parent by one write to its root.\<close>

lemma bt_reparent:
  assumes "bt P L R par t" and "distinct (inorder t)" and "t \<noteq> Leaf \<Longrightarrow> P' (rp t) = Some par'"
    and "\<And>q. q \<in> set_tree t \<Longrightarrow> q \<noteq> rp t \<Longrightarrow> P' q = P q" "\<And>q. q \<in> set_tree t \<Longrightarrow> L' q = L q"
      "\<And>q. q \<in> set_tree t \<Longrightarrow> R' q = R q"
  shows "bt P' L' R' par' t"
proof (cases t)
  case (Node l q r)
  have "q \<notin> set_tree l" "q \<notin> set_tree r" using assms(2) Node by auto
  then show ?thesis
    using assms Node bt_frame[of P L R q l P' L' R'] bt_frame[of P L R q r P' L' R'] by auto
qed simp

text \<open>
  Contexts: the path from a subtree up to the root, innermost frame first. The hole of a context is
  the \<open>loc\<close> that points at the subtree; \<open>bc\<close> is what the memory holds around it, with the pointer
  \<open>v\<close> in the hole.
\<close>

datatype frame = InL ptr "ptr tree" | InR "ptr tree" ptr

fun plug :: "frame list \<Rightarrow> ptr tree \<Rightarrow> ptr tree" where
  "plug [] t = t"
| "plug (InL q r # c) t = plug c (Node t q r)"
| "plug (InR l q # c) t = plug c (Node l q t)"

fun cpar :: "frame list \<Rightarrow> ptr" where
  "cpar [] = NULL"
| "cpar (InL q r # c) = q"
| "cpar (InR l q # c) = q"

fun cloc :: "frame list \<Rightarrow> loc" where
  "cloc [] = Root"
| "cloc (InL q r # c) = Lchild q"
| "cloc (InR l q # c) = Rchild q"

fun cset :: "frame list \<Rightarrow> ptr set" where
  "cset [] = {}"
| "cset (InL q r # c) = insert q (set_tree r \<union> cset c)"
| "cset (InR l q # c) = insert q (set_tree l \<union> cset c)"

fun cdist :: "frame list \<Rightarrow> bool" where
  "cdist [] = True"
| "cdist (InL q r # c) \<longleftrightarrow> q \<notin> set_tree r \<and> q \<notin> cset c \<and> distinct (inorder r) \<and> set_tree r \<inter> cset c = {} \<and> cdist c"
| "cdist (InR l q # c) \<longleftrightarrow> q \<notin> set_tree l \<and> q \<notin> cset c \<and> distinct (inorder l) \<and> set_tree l \<inter> cset c = {} \<and> cdist c"

fun bc :: "ptr \<Rightarrow> links \<Rightarrow> links \<Rightarrow> links \<Rightarrow> frame list \<Rightarrow> ptr \<Rightarrow> bool" where
  "bc rt P L R [] v \<longleftrightarrow> rt = v"
| "bc rt P L R (InL q r # c) v \<longleftrightarrow> q \<noteq> NULL \<and> P q = Some (cpar c) \<and> L q = Some v \<and> R q = Some (rp r)
     \<and> bt P L R q r \<and> bc rt P L R c q"
| "bc rt P L R (InR l q # c) v \<longleftrightarrow> q \<noteq> NULL \<and> P q = Some (cpar c) \<and> L q = Some (rp l) \<and> R q = Some v
     \<and> bt P L R q l \<and> bc rt P L R c q"

lemma plug_set: "set_tree (plug c t) = cset c \<union> set_tree t"
  by (induction c t rule: plug.induct) auto

lemma plug_distinct: "distinct (inorder (plug c t)) \<longleftrightarrow> cdist c \<and> distinct (inorder t) \<and> cset c \<inter> set_tree t = {}"
  by (induction c t rule: plug.induct) auto

lemma plug_bt: "rt = rp (plug c t) \<and> bt P L R NULL (plug c t) \<longleftrightarrow> bc rt P L R c (rp t) \<and> bt P L R (cpar c) t"
  by (induction c t rule: plug.induct) auto

lemma bc_frame:
  assumes "bc rt P L R c v" and "\<And>q. q \<in> cset c \<Longrightarrow> P' q = P q" "\<And>q. q \<in> cset c \<Longrightarrow> L' q = L q"
    "\<And>q. q \<in> cset c \<Longrightarrow> R' q = R q"
  shows "bc rt P' L' R' c v"
  using assms by (induction rt P L R c v rule: bc.induct) (auto intro: bt_frame)

lemma cpar_in: "c \<noteq> [] \<Longrightarrow> cpar c \<in> cset c"
  by (cases c rule: cpar.cases) auto

text \<open>Writing to the hole.\<close>

fun hole_L :: "loc \<Rightarrow> ptr \<Rightarrow> links \<Rightarrow> links" where
  "hole_L (Lchild q) v L = L(q := Some v)"
| "hole_L _ v L = L"

fun hole_R :: "loc \<Rightarrow> ptr \<Rightarrow> links \<Rightarrow> links" where
  "hole_R (Rchild q) v R = R(q := Some v)"
| "hole_R _ v R = R"

definition hole_root :: "loc \<Rightarrow> ptr \<Rightarrow> ptr \<Rightarrow> ptr" where
  "hole_root pp v rt = (if pp = Root then v else rt)"

lemma bc_hole:
  assumes "bc rt P L R c u" and "cdist c"
  shows "bc (hole_root (cloc c) v rt) P (hole_L (cloc c) v L) (hole_R (cloc c) v R) c v"
proof (cases c rule: cloc.cases)
  case (2 q r c')
  then show ?thesis
    using assms by (auto simp: hole_root_def intro: bt_frame bc_frame)
next
  case (3 l q c')
  then show ?thesis
    using assms by (auto simp: hole_root_def intro: bt_frame bc_frame)
qed (simp add: hole_root_def)

text \<open>The same on the object.\<close>

abbreviation "PP s \<equiv> fld (bmem s) parent"
abbreviation "LL s \<equiv> fld (bmem s) lchild"
abbreviation "RR s \<equiv> fld (bmem s) rchild"

lemma btree_inv_plug:
  "btree_inv s (plug c t) \<longleftrightarrow> bc (root s) (PP s) (LL s) (RR s) c (rp t) \<and> bt (PP s) (LL s) (RR s) (cpar c) t
     \<and> cdist c \<and> distinct (inorder t) \<and> cset c \<inter> set_tree t = {}"
  using plug_bt[of "root s" c t "PP s" "LL s" "RR s"] by (auto simp: btree_inv_def plug_distinct)

lemma bt_live: "bt (PP s) (LL s) (RR s) par t \<Longrightarrow> q \<in> set_tree t \<Longrightarrow> live (bmem s) q"
  using bt_nonnull[of "PP s" "LL s" "RR s" par t q] by (auto simp: fld_def live_def)

lemma bc_live: "bc rt (PP s) (LL s) (RR s) c v \<Longrightarrow> q \<in> cset c \<Longrightarrow> live (bmem s) q"
  by (induction rt "PP s" "LL s" "RR s" c v rule: bc.induct) (auto intro: liveI dest: bt_live)

text \<open>\<open>same_data\<close>: the two objects differ in links only.\<close>

definition same_data :: "'z bnode_info_scheme btree_info \<Rightarrow> 'z bnode_info_scheme btree_info \<Rightarrow> bool" where
  "same_data s s' \<longleftrightarrow> fld (bmem s') bnode_info.more = fld (bmem s) bnode_info.more
     \<and> (\<forall>q. live (bmem s') q = live (bmem s) q) \<and> avail (bmem s') = avail (bmem s)"

lemma get_loc_hole: "bc (root s) (PP s) (LL s) (RR s) c v \<Longrightarrow> get_loc s (cloc c) = Some v"
  by (cases c rule: cloc.cases) (auto simp: get_loc_def rd_def)

lemma set_loc_hole:
  assumes "bc (root s) (PP s) (LL s) (RR s) c u"
  shows "\<exists>s'. set_loc s (cloc c) v = Some s' \<and> root s' = hole_root (cloc c) v (root s) \<and> PP s' = PP s
    \<and> LL s' = hole_L (cloc c) v (LL s) \<and> RR s' = hole_R (cloc c) v (RR s) \<and> same_data s s'"
proof (cases c rule: cloc.cases)
  case 1
  then show ?thesis by (simp add: set_loc_def hole_root_def same_data_def)
next
  case (2 q r c')
  then have "live (bmem s) q" using bc_live[OF assms] by simp
  then show ?thesis using 2 by (simp add: set_loc_def hole_root_def same_data_def heap_simps)
next
  case (3 l q c')
  then have "live (bmem s) q" using bc_live[OF assms] by simp
  then show ?thesis using 3 by (simp add: set_loc_def hole_root_def same_data_def heap_simps)
qed

subsection \<open>Insertion\<close>

text \<open>\<open>k q\<close> is the comparison of the new node with \<open>q\<close>; equal keys go to the right.\<close>

fun ins :: "(ptr \<Rightarrow> int) \<Rightarrow> ptr \<Rightarrow> ptr tree \<Rightarrow> ptr tree" where
  "ins k x Leaf = Node Leaf x Leaf"
| "ins k x (Node l q r) = (if k q \<ge> 0 then Node l q (ins k x r) else Node (ins k x l) q r)"

lemma ins_set [simp]: "set_tree (ins k x t) = insert x (set_tree t)"
  by (induction t) auto

lemma push_loop_hole:
  assumes "bc (root s) (PP s) (LL s) (RR s) c (rp t)" and "bt (PP s) (LL s) (RR s) (cpar c) t"
    and "\<And>q. q \<in> set_tree t \<Longrightarrow> cmp (bmem s) node q = Some (k q)"
  shows "\<exists>c'. btree_push_loop cmp s node (cloc c) (cpar c) = Some (cloc c', cpar c')
    \<and> plug c' Leaf = plug c t \<and> plug c' (Node Leaf node Leaf) = plug c (ins k node t)"
  using assms
proof (induction t arbitrary: c)
  case Leaf
  then show ?case
    by (subst btree_push_loop.simps) (auto simp: get_loc_hole intro!: exI[of _ c])
next
  case (Node l q r)
  let ?c = "if k q \<ge> 0 then InR l q # c else InL q r # c"
  have g: "get_loc s (cloc c) = Some q" using get_loc_hole[OF Node.prems(1)] by simp
  have k: "cmp (bmem s) node q = Some (k q)" "q \<noteq> NULL" using Node.prems by auto
  have "btree_push_loop cmp s node (cloc c) (cpar c) = btree_push_loop cmp s node (cloc ?c) (cpar ?c)"
    using g k by (subst btree_push_loop.simps) simp
  moreover have "\<exists>c'. btree_push_loop cmp s node (cloc ?c) (cpar ?c) = Some (cloc c', cpar c')
      \<and> plug c' Leaf = plug ?c (if k q \<ge> 0 then r else l)
      \<and> plug c' (Node Leaf node Leaf) = plug ?c (ins k node (if k q \<ge> 0 then r else l))"
    using Node.IH(1)[of "InL q r # c"] Node.IH(2)[of "InR l q # c"] Node.prems by auto
  ultimately show ?case by (auto split: if_splits)
qed

lemma bnode_init_links:
  assumes "live h x"
  shows "\<exists>h'. bnode_init h x = Some h' \<and> fld h' parent = (fld h parent)(x := Some NULL)
    \<and> fld h' lchild = (fld h lchild)(x := Some NULL) \<and> fld h' rchild = (fld h rchild)(x := Some NULL)
    \<and> fld h' bnode_info.more = fld h bnode_info.more \<and> (\<forall>q. live h' q = live h q) \<and> avail h' = avail h"
  using assms by (simp add: bnode_init_def heap_simps)

lemma btree_push_inv:
  assumes inv: "btree_inv s t" and x: "live (bmem s) x" "x \<notin> set_tree t"
    and cmp: "\<And>h q. q \<in> set_tree t \<Longrightarrow> fld h bnode_info.more = fld (bmem s) bnode_info.more \<Longrightarrow>
      cmp h x q = Some (k q)"
  shows "\<exists>s'. btree_push cmp s x = Some s' \<and> btree_inv s' (ins k x t) \<and> same_data s s'"
proof -
  obtain h1 where h1: "bnode_init (bmem s) x = Some h1" "fld h1 parent = (PP s)(x := Some NULL)"
    "fld h1 lchild = (LL s)(x := Some NULL)" "fld h1 rchild = (RR s)(x := Some NULL)"
    "fld h1 bnode_info.more = fld (bmem s) bnode_info.more" "\<forall>q. live h1 q = live (bmem s) q"
    "avail h1 = avail (bmem s)"
    using bnode_init_links[OF x(1)] by blast
  let ?s = "s\<lparr>bmem := h1\<rparr>"
  have d: "distinct (inorder t)" "root s = rp t" using inv by (auto simp: btree_inv_def)
  have bt: "bt (PP ?s) (LL ?s) (RR ?s) NULL t"
    using inv x(2) by (auto simp: btree_inv_def h1 elim!: bt_frame)
  have nn: "x \<noteq> NULL" using x(1) by (rule live_nonnull)
  show ?thesis
  proof (cases t)
    case Leaf
    then show ?thesis
      using h1 d nn by (auto simp: btree_push_def btree_inv_def same_data_def)
  next
    case (Node l q r)
    then have root: "root s \<noteq> NULL" using d(2) bt by simp
    obtain c where c: "btree_push_loop cmp ?s x Root NULL = Some (cloc c, cpar c)"
      "plug c Leaf = t" "plug c (Node Leaf x Leaf) = ins k x t"
      using push_loop_hole[of ?s "[]" t cmp x k] bt d(2) cmp h1(5) by auto
    have "btree_inv ?s (plug c Leaf)" using bt d c(2) by (simp add: btree_inv_def)
    then have bc: "bc (root ?s) (PP ?s) (LL ?s) (RR ?s) c NULL" and dc: "cdist c"
      by (simp_all add: btree_inv_plug)
    have xc: "x \<notin> cset c" using x(2) c(2) plug_set[of c Leaf] by auto
    obtain s2 where s2: "set_loc ?s (cloc c) x = Some s2" "root s2 = hole_root (cloc c) x (root ?s)"
      "PP s2 = PP ?s" "LL s2 = hole_L (cloc c) x (LL ?s)" "RR s2 = hole_R (cloc c) x (RR ?s)" "same_data ?s s2"
      using set_loc_hole[OF bc] by blast
    let ?s3 = "s2\<lparr>bmem := upd (bmem s2) x (\<lambda>n. n\<lparr>parent := cpar c\<rparr>)\<rparr>"
    have lv: "live (bmem s2) x" using s2(6) h1(6) x(1) by (simp add: same_data_def)
    have "btree_push cmp s x = Some ?s3"
      using nn h1(1) root c(1) s2(1) lv by (simp add: btree_push_def live_wr)
    moreover have bc2: "bc (root s2) (PP s2) (LL s2) (RR s2) c x"
      unfolding s2 by (rule bc_hole[OF bc dc])
    have "LL s2 x = Some NULL" "RR s2 x = Some NULL"
      using xc h1 by (cases c rule: cloc.cases; auto simp: s2)+
    then have "btree_inv ?s3 (plug c (Node Leaf x Leaf))"
      unfolding btree_inv_plug using bc2 dc xc nn lv
      by (auto simp: heap_simps elim!: bc_frame)
    moreover have "same_data s ?s3" using s2(6) h1 by (simp add: same_data_def heap_simps)
    ultimately show ?thesis using c(3) by auto
  qed
qed

subsection \<open>Traversals\<close>

text \<open>\<open>reads todo h A f\<close>: on the nodes \<open>A\<close> the callback leaves the memory \<open>h\<close> alone and does \<open>f\<close> to its own state.\<close>

definition reads :: "('n, 'w) visitor \<Rightarrow> 'n heap \<Rightarrow> ptr set \<Rightarrow> (ptr \<Rightarrow> 'w \<Rightarrow> 'w) \<Rightarrow> bool" where
  "reads todo h A f \<longleftrightarrow> (\<forall>q \<in> A. \<forall>w. todo (h, w) q = Some (h, f q w))"

abbreviation tree_at :: "'z bnode_info_scheme heap \<Rightarrow> ptr \<Rightarrow> ptr tree \<Rightarrow> bool" where
  "tree_at h par t \<equiv> bt (fld h parent) (fld h lchild) (fld h rchild) par t"

lemma tree_at_rd:
  "tree_at h par (Node l q r) \<Longrightarrow> q \<noteq> NULL \<and> rd h lchild q = Some (rp l) \<and> rd h rchild q = Some (rp r)
     \<and> tree_at h q l \<and> tree_at h q r"
  by (simp add: rd_def)

lemma reads_Node:
  "reads todo h (set_tree (Node l q r)) f \<longleftrightarrow> (\<forall>w. todo (h, w) q = Some (h, f q w))
     \<and> reads todo h (set_tree l) f \<and> reads todo h (set_tree r) f"
  by (auto simp: reads_def)

lemma pre_order_rec_tree: "tree_at h par t \<Longrightarrow> reads todo h (set_tree t) f \<Longrightarrow>
    pre_order_rec todo (h, w) (rp t) = Some (h, fold f (preorder t) w)"
proof (induction t arbitrary: par w)
  case Leaf
  then show ?case by (subst pre_order_rec.simps) simp
next
  case (Node l q r)
  show ?case
    using Node.IH[of q] tree_at_rd[OF Node.prems(1)] Node.prems(2)[unfolded reads_Node]
    by (subst pre_order_rec.simps) simp
qed

lemma in_order_rec_tree: "tree_at h par t \<Longrightarrow> reads todo h (set_tree t) f \<Longrightarrow>
    in_order_rec todo (h, w) (rp t) = Some (h, fold f (inorder t) w)"
proof (induction t arbitrary: par w)
  case Leaf
  then show ?case by (subst in_order_rec.simps) simp
next
  case (Node l q r)
  show ?case
    using Node.IH[of q] tree_at_rd[OF Node.prems(1)] Node.prems(2)[unfolded reads_Node]
    by (subst in_order_rec.simps) simp
qed

lemma post_order_rec_tree: "tree_at h par t \<Longrightarrow> reads todo h (set_tree t) f \<Longrightarrow>
    post_order_rec todo (h, w) (rp t) = Some (h, fold f (postorder t) w)"
proof (induction t arbitrary: par w)
  case Leaf
  then show ?case by (subst post_order_rec.simps) simp
next
  case (Node l q r)
  show ?case
    using Node.IH[of q] tree_at_rd[OF Node.prems(1)] Node.prems(2)[unfolded reads_Node]
    by (subst post_order_rec.simps) simp
qed

lemma btree_recursive_orders:
  assumes "btree_inv s t" and "reads todo (bmem s) (set_tree t) f"
  shows "btree_pre_order s todo w = Some (bmem s, fold f (preorder t) w)"
    and "btree_in_order s todo w = Some (bmem s, fold f (inorder t) w)"
    and "btree_post_order s todo w = Some (bmem s, fold f (postorder t) w)"
  using assms pre_order_rec_tree[of "bmem s" NULL t todo f w] in_order_rec_tree[of "bmem s" NULL t todo f w]
    post_order_rec_tree[of "bmem s" NULL t todo f w]
  by (simp_all add: btree_inv_def btree_pre_order_def btree_in_order_def btree_post_order_def)

lemma get_depth_tree: "tree_at h par t \<Longrightarrow> height t < 2 ^ 64 \<Longrightarrow>
    get_depth_rec h (rp t) = Some (of_nat (height t))"
proof (induction t arbitrary: par)
  case Leaf
  then show ?case by (subst get_depth_rec.simps) simp
next
  case (Node l q r)
  have b: "height l < 2 ^ 64" "height r < 2 ^ 64" using Node.prems(2) by auto
  have cmp: "(of_nat (height l) :: csize) > of_nat (height r) \<longleftrightarrow> height l > height r"
    using b by (simp add: word_less_nat_alt unat_of_nat)
  have "get_depth_rec h (rp l) = Some (of_nat (height l))" "get_depth_rec h (rp r) = Some (of_nat (height r))"
    using Node.IH b tree_at_rd[OF Node.prems(1)] by auto
  then show ?case
    using cmp tree_at_rd[OF Node.prems(1)] by (subst get_depth_rec.simps) (simp add: max_def)
qed

subsection \<open>Traversals with an explicit stack\<close>

locale ptr_stack = lifo S srep scap
  for S :: "('q, ptr) container_ops" and srep :: "'q \<Rightarrow> ptr list \<Rightarrow> bool" and scap :: "'q \<Rightarrow> nat"
begin

lemma pre_norecur_subtree:
  "tree_at h par t \<Longrightarrow> reads todo h (set_tree t) f \<Longrightarrow> srep q xs \<Longrightarrow> size t \<le> scap q \<Longrightarrow>
     \<exists>q'. pre_norecur_loop S todo q (rp t) (h, w) = pre_norecur_loop S todo q' NULL (h, fold f (preorder t) w)
       \<and> srep q' xs \<and> scap q = scap q' + size t"
proof (induction t arbitrary: par q xs w)
  case Leaf
  then show ?case by auto
next
  case (Node l x r)
  note rd = tree_at_rd[OF Node.prems(1)] and rds = Node.prems(2)[unfolded reads_Node]
  obtain q1 where q1: "push S q x = Some (0, q1)" "srep q1 (x # xs)" "scap q = Suc (scap q1)"
    using push_rep[OF Node.prems(3), of x] Node.prems(4) by auto
  obtain q2 where q2: "pre_norecur_loop S todo q1 (rp l) (h, f x w) =
      pre_norecur_loop S todo q2 NULL (h, fold f (preorder l) (f x w))" "srep q2 (x # xs)"
    "scap q1 = scap q2 + size l"
    using Node.IH(1)[of x q1 "x # xs" "f x w"] rd rds q1 Node.prems(4) by auto
  obtain q3 where q3: "pop S q2 NULL = Some (0, x, q3)" "srep q3 xs" "scap q3 = scap q2"
    using pop_rep[OF q2(2)] by blast
  obtain q4 where q4: "pre_norecur_loop S todo q3 (rp r) (h, fold f (preorder l) (f x w)) =
      pre_norecur_loop S todo q4 NULL (h, fold f (preorder r) (fold f (preorder l) (f x w)))" "srep q4 xs"
    "scap q3 = scap q4 + size r"
    using Node.IH(2)[of x q3 xs "fold f (preorder l) (f x w)"] rd rds q1 q2 q3 Node.prems(4) by auto
  have "pre_norecur_loop S todo q x (h, w) = pre_norecur_loop S todo q1 (rp l) (h, f x w)"
    using rd rds q1(1) is_empty_rep[OF Node.prems(3)] by (subst pre_norecur_loop.simps) simp
  moreover have "pre_norecur_loop S todo q2 NULL (h, fold f (preorder l) (f x w)) =
      pre_norecur_loop S todo q3 (rp r) (h, fold f (preorder l) (f x w))"
    using rd q3(1) is_empty_rep[OF q2(2)] by (subst pre_norecur_loop.simps) simp
  ultimately show ?case using q1 q2 q3 q4 by (intro exI[of _ q4]) auto
qed

lemma in_norecur_subtree:
  "tree_at h par t \<Longrightarrow> reads todo h (set_tree t) f \<Longrightarrow> srep q xs \<Longrightarrow> size t \<le> scap q \<Longrightarrow>
     \<exists>q'. in_norecur_loop S todo q (rp t) (h, w) = in_norecur_loop S todo q' NULL (h, fold f (inorder t) w)
       \<and> srep q' xs \<and> scap q = scap q' + size t"
proof (induction t arbitrary: par q xs w)
  case Leaf
  then show ?case by auto
next
  case (Node l x r)
  note rd = tree_at_rd[OF Node.prems(1)] and rds = Node.prems(2)[unfolded reads_Node]
  obtain q1 where q1: "push S q x = Some (0, q1)" "srep q1 (x # xs)" "scap q = Suc (scap q1)"
    using push_rep[OF Node.prems(3), of x] Node.prems(4) by auto
  let ?w = "fold f (inorder l) w"
  obtain q2 where q2: "in_norecur_loop S todo q1 (rp l) (h, w) =
      in_norecur_loop S todo q2 NULL (h, ?w)" "srep q2 (x # xs)" "scap q1 = scap q2 + size l"
    using Node.IH(1)[of x q1 "x # xs" w] rd rds q1 Node.prems(4) by auto
  obtain q3 where q3: "pop S q2 NULL = Some (0, x, q3)" "srep q3 xs" "scap q3 = scap q2"
    using pop_rep[OF q2(2)] by blast
  obtain q4 where q4: "in_norecur_loop S todo q3 (rp r) (h, f x ?w) =
      in_norecur_loop S todo q4 NULL (h, fold f (inorder r) (f x ?w))" "srep q4 xs" "scap q3 = scap q4 + size r"
    using Node.IH(2)[of x q3 xs "f x ?w"] rd rds q1 q2 q3 Node.prems(4) by auto
  have "in_norecur_loop S todo q x (h, w) = in_norecur_loop S todo q1 (rp l) (h, w)"
    using rd rds q1(1) is_empty_rep[OF Node.prems(3)] by (subst in_norecur_loop.simps) simp
  moreover have "in_norecur_loop S todo q2 NULL (h, ?w) = in_norecur_loop S todo q3 (rp r) (h, f x ?w)"
    using rd rds q3(1) is_empty_rep[OF q2(2)] by (subst in_norecur_loop.simps) simp
  ultimately show ?case using q1 q2 q3 q4 by (intro exI[of _ q4]) auto
qed

text \<open>\<open>prv\<close> is the node visited last; the right child is entered unless it is that node.\<close>

lemma post_norecur_subtree:
  "tree_at h par t \<Longrightarrow> reads todo h (set_tree t) f \<Longrightarrow> srep q xs \<Longrightarrow> size t \<le> scap q \<Longrightarrow>
     distinct (inorder t) \<Longrightarrow> prv \<notin> set_tree t \<Longrightarrow>
     \<exists>q'. post_norecur_loop S todo q (rp t) prv (h, w) =
         post_norecur_loop S todo q' NULL (if t = Leaf then prv else rp t) (h, fold f (postorder t) w)
       \<and> srep q' xs \<and> scap q = scap q' + size t"
proof (induction t arbitrary: par q xs w prv)
  case Leaf
  then show ?case by auto
next
  case (Node l x r)
  note rd = tree_at_rd[OF Node.prems(1)] and rds = Node.prems(2)[unfolded reads_Node]
  have dist: "distinct (inorder l)" "distinct (inorder r)" "set_tree l \<inter> set_tree r = {}"
    "prv \<notin> set_tree l" "prv \<notin> set_tree r" using Node.prems(5,6) by auto
  obtain q1 where q1: "push S q x = Some (0, q1)" "srep q1 (x # xs)" "scap q = Suc (scap q1)"
    using push_rep[OF Node.prems(3), of x] Node.prems(4) by auto
  define p1 where "p1 = (if l = Leaf then prv else rp l)"
  define w1 where "w1 = fold f (postorder l) w"
  obtain q2 where q2: "post_norecur_loop S todo q1 (rp l) prv (h, w) =
      post_norecur_loop S todo q2 NULL p1 (h, w1)" "srep q2 (x # xs)" "scap q1 = scap q2 + size l"
    using Node.IH(1)[of x q1 "x # xs" prv w] rd rds q1 Node.prems(4) dist unfolding p1_def w1_def by auto
  have p1: "p1 \<notin> set_tree r" using dist rp_in[of l] by (auto simp: p1_def)
  have last: "\<exists>q'. post_norecur_loop S todo q3 NULL p2 (h, w2) = post_norecur_loop S todo q' NULL x (h, f x w2)
      \<and> srep q' xs \<and> scap q3 = scap q'" if q3: "srep q3 (x # xs)" and p2: "r = Leaf \<or> p2 = rp r" for q3 p2 w2
  proof -
    obtain q' where "pop S q3 p2 = Some (0, x, q')" "srep q' xs" "scap q' = scap q3"
      using pop_rep[OF q3] by blast
    then show ?thesis
      using rd rds p2 top_rep[OF q3] is_empty_rep[OF q3]
      by (subst post_norecur_loop.simps) (auto simp del: bt.simps)
  qed
  have first: "post_norecur_loop S todo q x prv (h, w) = post_norecur_loop S todo q1 (rp l) prv (h, w)"
    using rd rds q1(1) is_empty_rep[OF Node.prems(3)] by (subst post_norecur_loop.simps) simp
  show ?case
  proof (cases "r = Leaf")
    case True
    with last[OF q2(2), of p1 w1] obtain q' where
      "post_norecur_loop S todo q2 NULL p1 (h, w1) = post_norecur_loop S todo q' NULL x (h, f x w1)"
      "srep q' xs" "scap q2 = scap q'" by blast
    then show ?thesis using first q1 q2 True by (intro exI[of _ q']) (simp add: w1_def)
  next
    case False
    then have r: "rp r \<noteq> NULL" "rp r \<noteq> p1" using bt_rp rd p1 rp_in[OF False] by (blast, metis)
    have "post_norecur_loop S todo q2 NULL p1 (h, w1) = post_norecur_loop S todo q2 (rp r) p1 (h, w1)"
      using rd r top_rep[OF q2(2)] is_empty_rep[OF q2(2)] by (subst post_norecur_loop.simps) simp
    moreover obtain q3 where q3: "post_norecur_loop S todo q2 (rp r) p1 (h, w1) =
        post_norecur_loop S todo q3 NULL (rp r) (h, fold f (postorder r) w1)" "srep q3 (x # xs)"
      "scap q2 = scap q3 + size r"
      using Node.IH(2)[of x q2 "x # xs" p1 w1] rd rds q1 q2 dist p1 Node.prems(4) False by auto
    moreover obtain q' where "post_norecur_loop S todo q3 NULL (rp r) (h, fold f (postorder r) w1) =
        post_norecur_loop S todo q' NULL x (h, f x (fold f (postorder r) w1))" "srep q' xs" "scap q3 = scap q'"
      using last[OF q3(2), of "rp r"] by blast
    ultimately show ?thesis using first q1 q2 by (intro exI[of _ q']) (simp add: w1_def)
  qed
qed

lemma norecur_stop:
  assumes "srep q []"
  shows "pre_norecur_loop S todo q NULL hw = Some (q, hw)" and "in_norecur_loop S todo q NULL hw = Some (q, hw)"
    and "post_norecur_loop S todo q NULL prv hw = Some (q, hw)"
  using is_empty_rep[OF assms]
  by (simp_all add: pre_norecur_loop.simps in_norecur_loop.simps post_norecur_loop.simps)

lemma norecur_tree:
  assumes t: "tree_at h NULL t" "reads todo h (set_tree t) f" "distinct (inorder t)"
    and q: "srep q []" "size t \<le> scap q"
  shows "\<exists>q'. pre_norecur_loop S todo q (rp t) (h, w) = Some (q', h, fold f (preorder t) w) \<and> srep q' []"
    and "\<exists>q'. in_norecur_loop S todo q (rp t) (h, w) = Some (q', h, fold f (inorder t) w) \<and> srep q' []"
    and "\<exists>q'. post_norecur_loop S todo q (rp t) NULL (h, w) = Some (q', h, fold f (postorder t) w) \<and> srep q' []"
proof -
  show "\<exists>q'. pre_norecur_loop S todo q (rp t) (h, w) = Some (q', h, fold f (preorder t) w) \<and> srep q' []"
    using pre_norecur_subtree[OF t(1,2) q] norecur_stop(1) by metis
  show "\<exists>q'. in_norecur_loop S todo q (rp t) (h, w) = Some (q', h, fold f (inorder t) w) \<and> srep q' []"
    using in_norecur_subtree[OF t(1,2) q] norecur_stop(2) by metis
  have "NULL \<notin> set_tree t" using bt_nonnull[OF t(1)] by blast
  then show "\<exists>q'. post_norecur_loop S todo q (rp t) NULL (h, w) = Some (q', h, fold f (postorder t) w) \<and> srep q' []"
    using post_norecur_subtree[OF t(1,2) q t(3)] norecur_stop(3) by metis
qed

end

interpretation ns: ptr_stack stack_ops stack_rep stack_cap
  by unfold_locales

text \<open>The three traversals with a stack visit what the recursive ones visit, in the same order.\<close>

lemma btree_norecur_orders:
  assumes inv: "btree_inv s t" and todo: "reads todo (bmem s) (set_tree t) f"
    and q0: "stack_fresh q0" "size t < stack_cap q0"
  shows "btree_pre_order_norecur q0 s todo w = btree_pre_order s todo w"
    and "btree_in_order_norecur q0 s todo w = btree_in_order s todo w"
    and "btree_post_order_norecur q0 s todo w = btree_post_order s todo w"
proof -
  obtain q where q: "stack_init q0 = Some (0, q)" "stack_rep q []" "size t \<le> stack_cap q"
    using stack_init_rep[OF q0(1)] q0(2) by force
  have t: "tree_at (bmem s) NULL t" "distinct (inorder t)" "root s = rp t"
    using inv by (simp_all add: btree_inv_def)
  have des: "\<exists>s. stack_destroy q' = Some (0, s)" if "stack_rep q' []" for q' :: "ptr stack_info"
    using stack_destroy_rep[OF that] by blast
  note orders = btree_recursive_orders[OF inv todo]
  show "btree_pre_order_norecur q0 s todo w = btree_pre_order s todo w"
    using ns.norecur_tree(1)[OF t(1) todo t(2) q(2,3), of w] des q(1) t(3)
    by (fastforce simp: btree_pre_order_norecur_def orders)
  show "btree_in_order_norecur q0 s todo w = btree_in_order s todo w"
    using ns.norecur_tree(2)[OF t(1) todo t(2) q(2,3), of w] des q(1) t(3)
    by (fastforce simp: btree_in_order_norecur_def orders)
  show "btree_post_order_norecur q0 s todo w = btree_post_order s todo w"
    using ns.norecur_tree(3)[OF t(1) todo t(2) q(2,3), of w] des q(1) t(3)
    by (fastforce simp: btree_post_order_norecur_def orders)
qed

subsection \<open>Level order\<close>

fun at_depth :: "nat \<Rightarrow> 'a tree \<Rightarrow> 'a list" where
  "at_depth d Leaf = []"
| "at_depth 0 (Node l x r) = [x]"
| "at_depth (Suc d) (Node l x r) = at_depth d l @ at_depth d r"

definition levels :: "'a tree \<Rightarrow> 'a list" where
  "levels t = concat (map (\<lambda>d. at_depth d t) [0..<height t])"

text \<open>The queue discipline: the first tree gives its root and appends its subtrees.\<close>

fun kids :: "'a tree \<Rightarrow> 'a tree list" where
  "kids Leaf = []"
| "kids (Node l x r) = filter (\<lambda>t. t \<noteq> Leaf) [l, r]"

function bfs :: "'a tree list \<Rightarrow> 'a list" where
  "bfs [] = []"
| "bfs (Leaf # ts) = bfs ts"
| "bfs (Node l x r # ts) = x # bfs (ts @ kids (Node l x r))"
  by pat_completeness auto
termination
  by (relation "measure (\<lambda>ts. sum_list (map (\<lambda>t. Suc (2 * size t)) ts))") auto

lemma bfs_round: "bfs (ts @ us) = concat (map (at_depth 0) ts) @ bfs (us @ concat (map kids ts))"
proof (induction ts arbitrary: us)
  case (Cons t ts)
  then show ?case by (cases t) simp_all
qed simp

lemma at_depth_kids: "at_depth (Suc d) t = concat (map (at_depth d) (kids t))"
  by (cases t) auto

lemma at_depth_kids_concat:
  "concat (map (at_depth d) (concat (map kids ts))) = concat (map (at_depth (Suc d)) ts)"
  by (induction ts) (simp_all only: at_depth_kids list.map concat.simps map_append concat_append)

lemma bfs_levels: "\<forall>t \<in> set ts. height t \<le> n \<Longrightarrow>
    bfs ts = concat (map (\<lambda>d. concat (map (at_depth d) ts)) [0..<n])"
proof (induction n arbitrary: ts)
  case 0
  then have "\<forall>t \<in> set ts. t = Leaf" by simp
  then show ?case by (induction ts) auto
next
  case (Suc n)
  let ?us = "concat (map kids ts)"
  have "height u \<le> n" if "t \<in> set ts" "u \<in> set (kids t)" for t u
    using Suc.prems that by (cases t) (force split: if_splits)+
  then have "bfs ?us = concat (map (\<lambda>d. concat (map (at_depth d) ?us)) [0..<n])" by (intro Suc.IH) auto
  also have "\<dots> = concat (map (\<lambda>d. concat (map (at_depth (Suc d)) ts)) [0..<n])"
    by (simp only: at_depth_kids_concat)
  finally show ?case
    using bfs_round[of ts "[]"] by (simp add: upt_rec[of 0] map_Suc_upt[symmetric] comp_def del: upt_Suc)
qed

lemma bfs_tree: "bfs [t] = levels t"
  using bfs_levels[of "[t]" "height t"] by (simp add: levels_def)

locale ptr_queue = fifo Q qrep qcap
  for Q :: "('q, ptr) container_ops" and qrep :: "'q \<Rightarrow> ptr list \<Rightarrow> bool" and qcap :: "'q \<Rightarrow> nat"
begin

lemma push_kid:
  assumes "qrep q xs" and "t = Leaf \<or> 0 < qcap q" and "rp t = NULL \<longleftrightarrow> t = Leaf"
  shows "\<exists>q'. (if rp t \<noteq> NULL then push Q q (rp t) else Some (0, q)) = Some (0, q')
    \<and> qrep q' (xs @ map rp (filter (\<lambda>t. t \<noteq> Leaf) [t])) \<and> qcap q = qcap q' + (if t = Leaf then 0 else 1)"
  using assms push_rep[OF assms(1), of "rp t"] by auto

lemma length_le_sizes: "\<forall>t \<in> set ts. t \<noteq> Leaf \<Longrightarrow> length ts \<le> sum_list (map size ts)" for ts :: "ptr tree list"
  by (induction ts) (auto simp: neq_Leaf_iff)

lemma level_loop_bfs:
  "\<forall>t \<in> set ts. t \<noteq> Leaf \<and> (\<exists>par. tree_at h par t) \<and> reads todo h (set_tree t) f \<Longrightarrow>
     qrep q (map rp ts) \<Longrightarrow> sum_list (map size ts) \<le> qcap q + length ts \<Longrightarrow>
     \<exists>q'. level_loop Q todo q cur (h, w) = Some (q', h, fold f (bfs ts) w) \<and> qrep q' []"
proof (induction ts arbitrary: q cur w rule: bfs.induct)
  case 1
  then show ?case using is_empty_rep[of q "[]"] by (subst level_loop.simps) simp
next
  case (2 ts)
  then show ?case by simp
next
  case (3 l x r ts)
  obtain par where "tree_at h par (Node l x r)" using "3.prems"(1) by auto
  note rd = tree_at_rd[OF this]
  have rds: "\<forall>w. todo (h, w) x = Some (h, f x w)" "reads todo h (set_tree l) f" "reads todo h (set_tree r) f"
    using "3.prems"(1) by (auto simp: reads_def)
  have q: "qrep q (x # map rp ts)" using "3.prems"(2) by simp
  obtain q1 where q1: "pop Q q cur = Some (0, x, q1)" "qrep q1 (map rp ts)" "qcap q1 = qcap q"
    using pop_rep[OF q] by blast
  have cap: "size l + size r + sum_list (map size ts) \<le> qcap q1 + length ts"
    using "3.prems"(3) q1(3) by simp
  have len: "length ts \<le> sum_list (map size ts)" using "3.prems"(1) by (intro length_le_sizes) simp
  have s: "l = Leaf \<or> 0 < size l" "r = Leaf \<or> 0 < size r" by (simp_all add: zero_less_iff_neq_zero)
  obtain q2 where q2: "(if rp l \<noteq> NULL then push Q q1 (rp l) else Some (0, q1)) = Some (0, q2)"
    "qrep q2 (map rp ts @ map rp (filter (\<lambda>t. t \<noteq> Leaf) [l]))" "qcap q1 = qcap q2 + (if l = Leaf then 0 else 1)"
    using push_kid[OF q1(2), of l] s cap len bt_rp rd by fastforce
  obtain q3 where q3: "(if rp r \<noteq> NULL then push Q q2 (rp r) else Some (0, q2)) = Some (0, q3)"
    "qrep q3 ((map rp ts @ map rp (filter (\<lambda>t. t \<noteq> Leaf) [l])) @ map rp (filter (\<lambda>t. t \<noteq> Leaf) [r]))"
    "qcap q2 = qcap q3 + (if r = Leaf then 0 else 1)"
    using push_kid[OF q2(2), of r] s cap len q2(3) bt_rp rd by fastforce
  have "\<exists>q'. level_loop Q todo q3 x (h, f x w) = Some (q', h, fold f (bfs (ts @ kids (Node l x r))) (f x w)) \<and> qrep q' []"
  proof (rule "3.IH")
    show "\<forall>t \<in> set (ts @ kids (Node l x r)). t \<noteq> Leaf \<and> (\<exists>par. tree_at h par t) \<and> reads todo h (set_tree t) f"
      using "3.prems"(1) rd rds by auto
    show "qrep q3 (map rp (ts @ kids (Node l x r)))" using q3(2) by (auto split: if_splits)
    show "sum_list (map size (ts @ kids (Node l x r))) \<le> qcap q3 + length (ts @ kids (Node l x r))"
      using cap q2(3) q3(3) by (auto split: if_splits)
  qed
  moreover have "level_loop Q todo q cur (h, w) = level_loop Q todo q3 x (h, f x w)"
    using is_empty_rep[OF q] q1(1) q2(1) q3(1) rd rds by (subst level_loop.simps) simp
  ultimately show ?case by simp
qed

end

interpretation nq: ptr_queue queue_ops stack_rep stack_cap
  by unfold_locales

lemma btree_level_order_levels:
  assumes inv: "btree_inv s t" and todo: "reads todo (bmem s) (set_tree t) f" and ne: "t \<noteq> Leaf"
    and q0: "stack_fresh q0" "size t < stack_cap q0"
  shows "btree_level_order q0 s todo w = Some (bmem s, fold f (levels t) w)"
proof -
  obtain q where q: "stack_init q0 = Some (0, q)" "stack_rep q []" "size t \<le> stack_cap q"
    using stack_init_rep[OF q0(1)] q0(2) by force
  have t: "tree_at (bmem s) NULL t" "root s = rp t" using inv by (simp_all add: btree_inv_def)
  have "0 < stack_cap q" using q(3) ne by (cases t) auto
  then obtain q1 where q1: "push queue_ops q (rp t) = Some (0, q1)" "stack_rep q1 [rp t]" "stack_cap q = Suc (stack_cap q1)"
    using qu.push_rep[OF q(2), of "rp t"] by auto
  obtain q2 where "level_loop queue_ops todo q1 (rp t) (bmem s, w) = Some (q2, bmem s, fold f (bfs [t]) w)" "stack_rep q2 []"
    using nq.level_loop_bfs[of "[t]" "bmem s" todo f q1 "rp t" w] t todo q1 q(3) ne by auto
  moreover have "\<exists>s. queue_destroy q2 = Some (0, s)"
    using stack_destroy_rep[OF calculation(2)] by (auto simp: queue_init_stack)
  ultimately show ?thesis
    using q(1) q1(1) t(2) by (auto simp: btree_level_order_def queue_init_stack bfs_tree)
qed

text \<open>On an empty tree the NULL root is pushed, popped and handed to the callback.\<close>

lemma btree_level_order_empty:
  assumes "btree_inv s Leaf" and "todo (bmem s, w) NULL = None" and q0: "stack_fresh q0" "1 < stack_cap q0"
  shows "btree_level_order q0 s todo w = None"
proof -
  obtain q where q: "stack_init q0 = Some (0, q)" "stack_rep q []" "0 < stack_cap q"
    using stack_init_rep[OF q0(1)] q0(2) by force
  obtain q1 where q1: "push queue_ops q NULL = Some (0, q1)" "stack_rep q1 [NULL]"
    using qu.push_rep[OF q(2), of NULL] q(3) by auto
  obtain q2 where q2: "pop queue_ops q1 NULL = Some (0, NULL, q2)" using qu.pop_rep[OF q1(2)] by blast
  have "level_loop queue_ops todo q1 NULL (bmem s, w) = None"
    using qu.is_empty_rep[OF q1(2)] q2 assms(2) by (subst level_loop.simps) simp
  then show ?thesis
    using q(1) q1(1) assms(1) by (simp add: btree_level_order_def queue_init_stack btree_inv_def)
qed

subsection \<open>Order and search\<close>

text \<open>\<open>separates k t\<close>: where the comparison \<open>k\<close> sends the search to one side, the key is not on the other.\<close>

fun separates :: "(ptr \<Rightarrow> int) \<Rightarrow> ptr tree \<Rightarrow> bool" where
  "separates k Leaf \<longleftrightarrow> True"
| "separates k (Node l q r) \<longleftrightarrow> (k q < 0 \<longrightarrow> (\<forall>p \<in> set_tree r. k p \<noteq> 0))
     \<and> (k q > 0 \<longrightarrow> (\<forall>p \<in> set_tree l. k p \<noteq> 0)) \<and> separates k l \<and> separates k r"

lemma find_loop_tree:
  assumes "tree_at h par t" and "\<And>q. q \<in> set_tree t \<Longrightarrow> cmp h key q = Some (k q)"
    and "separates k t"
  shows "\<exists>q. btree_find_loop cmp h key (rp t) = Some q
    \<and> (if \<exists>p \<in> set_tree t. k p = 0 then q \<in> set_tree t \<and> k q = 0 else q = NULL)"
  using assms
proof (induction t arbitrary: par)
  case Leaf
  then show ?case by (subst btree_find_loop.simps) simp
next
  case (Node l q r)
  note rd = tree_at_rd[OF Node.prems(1)]
  have k: "cmp h key q = Some (k q)" using Node.prems(2) by simp
  note split = Node.prems(3)[simplified]
  have IHl: "\<exists>p. btree_find_loop cmp h key (rp l) = Some p
      \<and> (if \<exists>p \<in> set_tree l. k p = 0 then p \<in> set_tree l \<and> k p = 0 else p = NULL)"
    by (rule Node.IH(1)[of q]) (use Node.prems rd in auto)
  have IHr: "\<exists>p. btree_find_loop cmp h key (rp r) = Some p
      \<and> (if \<exists>p \<in> set_tree r. k p = 0 then p \<in> set_tree r \<and> k p = 0 else p = NULL)"
    by (rule Node.IH(2)[of q]) (use Node.prems rd in auto)
  consider "k q = 0" | "k q < 0" | "k q > 0" by linarith
  then show ?case
  proof cases
    case 1
    then show ?thesis using rd k by (subst btree_find_loop.simps) auto
  next
    case 2
    then have "btree_find_loop cmp h key q = btree_find_loop cmp h key (rp l)"
      using rd k by (subst btree_find_loop.simps) simp
    then show ?thesis using IHl split 2 by (auto split: if_splits)
  next
    case 3
    then have "btree_find_loop cmp h key q = btree_find_loop cmp h key (rp r)"
      using rd k by (subst btree_find_loop.simps) simp
    then show ?thesis using IHr split 3 by (auto split: if_splits)
  qed
qed

context compare
begin

lemma inorder_ins:
  assumes "ordered key (inorder t)" and "key ` insert x (set_tree t) \<subseteq> K"
  shows "inorder (ins (\<lambda>q. cmp (key x) (key q)) x t) = insert_by (\<lambda>q. cmp (key x) (key q)) x (inorder t)"
  using assms
proof (induction t)
  case Leaf
  then show ?case by (simp add: insert_by_def)
next
  case (Node l q r)
  let ?k = "\<lambda>q. cmp (key x) (key q)"
  have o: "ordered key (inorder l @ q # inorder r)" "key ` set (inorder l @ q # inorder r) \<subseteq> K" "key x \<in> K"
    using Node.prems by auto
  have IH: "inorder (ins ?k x l) = insert_by ?k x (inorder l)" "inorder (ins ?k x r) = insert_by ?k x (inorder r)"
    using Node by (auto simp: ordered_append)
  show ?case
  proof (cases "?k q \<ge> 0")
    case True
    then have "\<forall>z \<in> set (inorder l). ?k z \<ge> 0" using ordered_split(3)[OF o] by blast
    then show ?thesis using True IH by (simp add: insert_by_def takeWhile_append dropWhile_append)
  next
    case False
    then have "dropWhile (\<lambda>q. ?k q \<ge> 0) (inorder l @ q # inorder r) = dropWhile (\<lambda>q. ?k q \<ge> 0) (inorder l) @ q # inorder r"
      "takeWhile (\<lambda>q. ?k q \<ge> 0) (inorder l @ q # inorder r) = takeWhile (\<lambda>q. ?k q \<ge> 0) (inorder l)"
      by (auto simp: dropWhile_append takeWhile_append takeWhile_eq_all_conv[THEN iffD2])
    then show ?thesis using False IH by (simp add: insert_by_def)
  qed
qed

text \<open>The search finds a node with the key exactly when there is one.\<close>

lemma btree_find_inv:
  assumes inv: "btree_inv s t" and o: "ordered key (inorder t)" "key ` set_tree t \<subseteq> K" "a \<in> K"
    and c: "\<And>q. q \<in> set_tree t \<Longrightarrow> c (bmem s) x q = Some (cmp a (key q))"
  shows "\<exists>q. btree_find c s x = Some q
    \<and> (if \<exists>p \<in> set_tree t. cmp a (key p) = 0 then q \<in> set_tree t \<and> cmp a (key q) = 0 else q = NULL)"
proof -
  have "separates (\<lambda>q. cmp a (key q)) t"
    using o
  proof (induction t)
    case (Node l q r)
    have "ordered key (inorder l @ q # inorder r)" "key ` set (inorder l @ q # inorder r) \<subseteq> K"
      using Node.prems by auto
    note split = ordered_split[OF this Node.prems(3)]
    have "separates (\<lambda>q. cmp a (key q)) l" "separates (\<lambda>q. cmp a (key q)) r"
      using Node by (auto simp: ordered_append)
    then show ?case using split by fastforce
  qed simp
  from find_loop_tree[of "bmem s" NULL t c x "\<lambda>q. cmp a (key q)", OF _ c this] inv show ?thesis
    by (auto simp: btree_find_def btree_inv_def)
qed

end

subsection \<open>Deletion\<close>

text \<open>The reference: the node is replaced by its only subtree, or by the leftmost node on its right.\<close>

fun split_min :: "ptr tree \<Rightarrow> ptr \<times> ptr tree" where
  "split_min Leaf = (NULL, Leaf)"
| "split_min (Node l q r) = (if l = Leaf then (q, r) else let (m, l') = split_min l in (m, Node l' q r))"

definition del_root :: "ptr tree \<Rightarrow> ptr tree \<Rightarrow> ptr tree" where
  "del_root l r = (if l = Leaf then r else if r = Leaf then l
     else let (m, r') = split_min r in Node l m r')"

lemma split_min_inorder: "t \<noteq> Leaf \<Longrightarrow> split_min t = (m, t') \<Longrightarrow> inorder t = m # inorder t'"
  by (induction t arbitrary: m t') (auto split: prod.splits if_splits)

lemma del_root_inorder: "inorder (del_root l r) = inorder l @ inorder r"
  by (auto simp: del_root_def split_min_inorder split: prod.splits)

lemma plug_inorder: "\<exists>xs ys. \<forall>t. inorder (plug c t) = xs @ inorder t @ ys"
proof (induction c rule: cset.induct)
  case 1
  show ?case by (intro exI[of _ "[]"]) simp
next
  case (2 q r c)
  then obtain xs ys where "\<forall>t. inorder (plug c t) = xs @ inorder t @ ys" by blast
  then show ?case by (intro exI[of _ xs] exI[of _ "q # inorder r @ ys"]) simp
next
  case (3 l q c)
  then obtain xs ys where "\<forall>t. inorder (plug c t) = xs @ inorder t @ ys" by blast
  then show ?case by (intro exI[of _ "xs @ inorder l @ [q]"] exI[of _ ys]) simp
qed

lemma plug_ex: "x \<in> set_tree t \<Longrightarrow> \<exists>c l r. t = plug c (Node l x r)"
proof -
  have "x \<in> set_tree t \<Longrightarrow> \<exists>c' l r. plug c t = plug c' (Node l x r)" for c
  proof (induction t arbitrary: c)
    case (Node a q b)
    then consider "x = q" | "x \<in> set_tree a" | "x \<in> set_tree b" by auto
    then show ?case
    proof cases
      case 2
      then show ?thesis using Node.IH(1)[of "InL q b # c"] by simp
    next
      case 3
      then show ?thesis using Node.IH(2)[of "InR a q # c"] by simp
    qed blast
  qed simp
  from this[of "[]"] show "x \<in> set_tree t \<Longrightarrow> ?thesis" by simp
qed

text \<open>The leftmost node: all frames on the way down go to the left.\<close>

fun lefts :: "(ptr \<times> ptr tree) list \<Rightarrow> frame list" where
  "lefts [] = []"
| "lefts ((q, r) # fs) = InL q r # lefts fs"

lemma leftmost_tree: "tree_at h par t \<Longrightarrow> t \<noteq> Leaf \<Longrightarrow>
    \<exists>fs m r. leftmost_loop h (rp t) = Some m \<and> plug (lefts gs) t = plug (lefts (fs @ gs)) (Node Leaf m r)
      \<and> split_min t = (m, plug (lefts fs) r)"
proof (induction t arbitrary: par gs)
  case (Node l q r)
  note rd = tree_at_rd[OF Node.prems(1)]
  show ?case
  proof (cases "l = Leaf")
    case True
    then show ?thesis
      using rd by (intro exI[of _ "[]"] exI[of _ q] exI[of _ r]) (simp add: leftmost_loop.simps[of h q])
  next
    case False
    then obtain fs m r' where 1: "leftmost_loop h (rp l) = Some m"
      "plug (lefts ((q, r) # gs)) l = plug (lefts (fs @ (q, r) # gs)) (Node Leaf m r')"
      "split_min l = (m, plug (lefts fs) r')"
      using Node.IH(1)[of q "(q, r) # gs"] rd by auto
    have "plug (lefts (fs @ [(q, r)])) t = Node (plug (lefts fs) t) q r" for t
      by (induction fs arbitrary: t) auto
    moreover have "rp l \<noteq> NULL" using bt_rp rd False by blast
    ultimately show ?thesis
      using 1 rd False
      by (intro exI[of _ "fs @ [(q, r)]"] exI[of _ m] exI[of _ r']) (simp add: leftmost_loop.simps[of h q])
  qed
qed simp

text \<open>The address of the link to the node, as \<open>btree_del\<close> computes it from the parent.\<close>

lemma pparent_hole:
  assumes "bc (root s) (PP s) (LL s) (RR s) c x" and "cdist c" and "x \<notin> cset c" and "PP s x = Some (cpar c)"
    and "x \<noteq> NULL"
  shows "(if cpar c = NULL then Some Root
       else do { pl \<leftarrow> rd (bmem s) lchild (cpar c); Some (if pl = x then Lchild (cpar c) else Rchild (cpar c)) })
    = Some (cloc c)"
proof (cases c rule: cloc.cases)
  case (3 l q c')
  have "rp l \<noteq> x"
    using assms(3,5) 3 rp_in[of l] by (cases "l = Leaf") auto
  then show ?thesis using assms 3 by (simp add: rd_def)
qed (use assms in \<open>simp_all add: rd_def\<close>)

lemma same_data_trans: "same_data s s1 \<Longrightarrow> same_data s1 s2 \<Longrightarrow> same_data s s2"
  by (simp add: same_data_def)

lemma same_data_upd:
  "(\<And>n. bnode_info.more (g n) = bnode_info.more n) \<Longrightarrow> same_data s s1 \<Longrightarrow> same_data s (s1\<lparr>bmem := upd (bmem s1) q g\<rparr>)"
  by (simp add: same_data_def heap_simps)

lemma plug_append: "plug (a @ b) t = plug b (plug a t)"
  by (induction a t rule: plug.induct) auto

text \<open>What the invariant says around the node to be deleted.\<close>

lemma del_context:
  assumes "btree_inv s (plug c (Node l x r))"
  shows "bc (root s) (PP s) (LL s) (RR s) c x" and "cdist c" and "x \<notin> cset c" and "PP s x = Some (cpar c)"
    and "x \<noteq> NULL" and "tree_at (bmem s) x l" and "tree_at (bmem s) x r" and "live (bmem s) x"
    and "rd (bmem s) parent x = Some (cpar c)" and "rd (bmem s) lchild x = Some (rp l)"
    and "rd (bmem s) rchild x = Some (rp r)" and "root s \<noteq> NULL"
    and "x \<notin> set_tree l" and "x \<notin> set_tree r" and "distinct (inorder l)" and "distinct (inorder r)"
    and "set_tree l \<inter> set_tree r = {}" and "cset c \<inter> set_tree l = {}" and "cset c \<inter> set_tree r = {}"
proof -
  have p: "bc (root s) (PP s) (LL s) (RR s) c x \<and> tree_at (bmem s) (cpar c) (Node l x r)
     \<and> cdist c \<and> distinct (inorder (Node l x r)) \<and> cset c \<inter> set_tree (Node l x r) = {}"
    using assms by (simp only: btree_inv_plug rp.simps)
  then show "bc (root s) (PP s) (LL s) (RR s) c x" and "cdist c" and "x \<notin> cset c" and "PP s x = Some (cpar c)"
    and "x \<noteq> NULL" and "tree_at (bmem s) x l" and "tree_at (bmem s) x r"
    and "rd (bmem s) parent x = Some (cpar c)" and "rd (bmem s) lchild x = Some (rp l)"
    and "rd (bmem s) rchild x = Some (rp r)"
    and "x \<notin> set_tree l" and "x \<notin> set_tree r" and "distinct (inorder l)" and "distinct (inorder r)"
    and "set_tree l \<inter> set_tree r = {}" and "cset c \<inter> set_tree l = {}" and "cset c \<inter> set_tree r = {}"
    by (auto simp: rd_def)
  show "live (bmem s) x" using p bt_live[of s "cpar c" "Node l x r" x] by auto
  have "bt (PP s) (LL s) (RR s) NULL (plug c (Node l x r))" "root s = rp (plug c (Node l x r))"
    "plug c (Node l x r) \<noteq> Leaf"
    using assms plug_set[of c "Node l x r"] by (auto simp: btree_inv_def)
  then show "root s \<noteq> NULL" using bt_rp by metis
qed

lemma cpar_hole [simp]:
  "hole_L (cloc c) v L q = (if cloc c = Lchild q then Some v else L q)"
  "hole_R (cloc c) v R q = (if cloc c = Rchild q then Some v else R q)"
  by (cases c rule: cloc.cases; auto)+

lemma cloc_in: "cloc c = Lchild q \<Longrightarrow> q \<in> cset c" "cloc c = Rchild q \<Longrightarrow> q \<in> cset c"
  by (cases c rule: cloc.cases; auto)+

text \<open>A subtree takes the place of the node: the first three cases of \<open>btree_del\<close>.\<close>

lemma del_lift:
  assumes inv: "btree_inv s (plug c (Node l x r))" and t: "t = l \<or> t = r"
    and h1: "h1 = (if t = Leaf then bmem s else upd (bmem s) (rp t) (\<lambda>n. n\<lparr>parent := cpar c\<rparr>))"
  shows "\<exists>s2. set_loc (s\<lparr>bmem := h1\<rparr>) (cloc c) (rp t) = Some s2 \<and> same_data s s2 \<and> live (bmem s2) x
    \<and> (\<forall>h3. (\<forall>q. q \<noteq> x \<longrightarrow> fld h3 parent q = PP s2 q \<and> fld h3 lchild q = LL s2 q \<and> fld h3 rchild q = RR s2 q)
        \<longrightarrow> btree_inv (s2\<lparr>bmem := h3\<rparr>) (plug c t))"
proof -
  note dc = del_context[OF inv]
  let ?s1 = "s\<lparr>bmem := h1\<rparr>"
  have ta: "tree_at (bmem s) x t" "distinct (inorder t)" "x \<notin> set_tree t" "cset c \<inter> set_tree t = {}"
    using t dc by auto
  have P1: "PP ?s1 = (if t = Leaf then PP s else (PP s)(rp t := Some (cpar c)))"
    "LL ?s1 = LL s" "RR ?s1 = RR s" "same_data s ?s1"
    using bt_live[OF ta(1) rp_in] by (auto simp: h1 heap_simps same_data_def)
  have bc1: "bc (root ?s1) (PP ?s1) (LL ?s1) (RR ?s1) c x"
    using dc(1) ta(4) rp_in[of t] unfolding P1 by (auto elim!: bc_frame)
  obtain s2 where s2: "set_loc ?s1 (cloc c) (rp t) = Some s2" "root s2 = hole_root (cloc c) (rp t) (root ?s1)"
    "PP s2 = PP ?s1" "LL s2 = hole_L (cloc c) (rp t) (LL ?s1)" "RR s2 = hole_R (cloc c) (rp t) (RR ?s1)"
    "same_data ?s1 s2"
    using set_loc_hole[OF bc1] by blast
  have bc2: "bc (root s2) (PP s2) (LL s2) (RR s2) c (rp t)"
    unfolding s2 by (rule bc_hole[OF bc1 dc(2)])
  have "btree_inv (s2\<lparr>bmem := h3\<rparr>) (plug c t)"
    if h3: "\<forall>q. q \<noteq> x \<longrightarrow> fld h3 parent q = PP s2 q \<and> fld h3 lchild q = LL s2 q \<and> fld h3 rchild q = RR s2 q" for h3
    unfolding btree_inv_plug
  proof (intro conjI)
    let ?s3 = "s2\<lparr>bmem := h3\<rparr>"
    have out: "fld h3 parent q = PP ?s1 q \<and> fld h3 lchild q = LL s q \<and> fld h3 rchild q = RR s q"
      if "q \<in> set_tree t" for q
    proof -
      have "q \<noteq> x" "q \<notin> cset c" using that ta by auto
      then have "cloc c \<noteq> Lchild q" "cloc c \<noteq> Rchild q" using cloc_in[of c q] by auto
      then have "LL s2 q = LL s q" "RR s2 q = RR s q" using s2(4,5) P1(2,3) by simp_all
      then show ?thesis using h3 \<open>q \<noteq> x\<close> s2(3) by simp
    qed
    show "bc (root ?s3) (PP ?s3) (LL ?s3) (RR ?s3) c (rp t)"
      using bc2 h3 dc(3) by (auto elim!: bc_frame)
    show "bt (PP ?s3) (LL ?s3) (RR ?s3) (cpar c) t"
      by (rule bt_reparent[OF ta(1,2)])
        (use out rp_in[of t] P1(1) in \<open>auto split: if_splits\<close>)
  qed (use dc(2) ta in auto)
  moreover have "same_data s s2" using P1(4) s2(6) by (rule same_data_trans)
  moreover from this have "live (bmem s2) x" using dc(8) by (simp add: same_data_def)
  ultimately show ?thesis using s2(1) by blast
qed

lemma btree_del_lift:
  assumes inv: "btree_inv s (plug c (Node l x r))" and leaf: "l = Leaf \<or> r = Leaf"
  shows "\<exists>s'. btree_del s x = Some (0, s') \<and> btree_inv s' (plug c (del_root l r)) \<and> same_data s s'"
proof -
  note dc = del_context[OF inv]
  note pp = pparent_hole[OF dc(1-5)]
  define t where "t = del_root l r"
  have t: "t = l \<or> t = r" "t = (if l = Leaf then r else l)" using leaf by (auto simp: t_def del_root_def)
  define h1 where "h1 = (if t = Leaf then bmem s else upd (bmem s) (rp t) (\<lambda>n. n\<lparr>parent := cpar c\<rparr>))"
  obtain s2 where s2: "set_loc (s\<lparr>bmem := h1\<rparr>) (cloc c) (rp t) = Some s2" "same_data s s2" "live (bmem s2) x"
    "\<And>h3. (\<forall>q. q \<noteq> x \<longrightarrow> fld h3 parent q = PP s2 q \<and> fld h3 lchild q = LL s2 q \<and> fld h3 rchild q = RR s2 q)
        \<Longrightarrow> btree_inv (s2\<lparr>bmem := h3\<rparr>) (plug c t)"
    using del_lift[OF inv t(1) h1_def] by blast
  have lv: "t \<noteq> Leaf \<Longrightarrow> live (bmem s) (rp t)"
    using t(1) dc(6,7) bt_live[OF dc(6) rp_in] bt_live[OF dc(7) rp_in] by auto
  have nn: "rp l = NULL \<longleftrightarrow> l = Leaf" "rp r = NULL \<longleftrightarrow> r = Leaf"
    using bt_rp[OF dc(6)] bt_rp[OF dc(7)] by simp_all
  let ?h2 = "upd (bmem s2) x (\<lambda>n. n\<lparr>parent := NULL\<rparr>)"
  let ?h3 = "if t = Leaf then ?h2 else if l = Leaf then upd ?h2 x (\<lambda>n. n\<lparr>rchild := NULL\<rparr>)
    else upd ?h2 x (\<lambda>n. n\<lparr>lchild := NULL\<rparr>)"
  have del: "btree_del s x = Some (0, s2\<lparr>bmem := ?h3\<rparr>)"
  proof (cases "t = Leaf")
    case True
    then have "l = Leaf" "r = Leaf" using t(2) leaf by (auto split: if_splits)
    then show ?thesis
      using dc(5,9-12) pp s2(1,3) True by (simp add: btree_del_def h1_def heap_simps)
  next
    case False
    then have "set_loc (s\<lparr>bmem := upd (bmem s) (rp t) (\<lambda>n. n\<lparr>parent := cpar c\<rparr>)\<rparr>) (cloc c) (rp t) = Some s2"
      using s2(1) by (simp add: h1_def)
    then show ?thesis
      using dc(5,9-12) pp s2(3) False lv t(2) leaf nn
      by (cases "l = Leaf") (auto simp: btree_del_def heap_simps)
  qed
  have "btree_inv (s2\<lparr>bmem := ?h3\<rparr>) (plug c t)"
    by (rule s2(4)) (use s2(3) in \<open>simp add: heap_simps\<close>)
  moreover have "same_data s (s2\<lparr>bmem := ?h3\<rparr>)"
    using s2(2) by (auto simp: same_data_def heap_simps)
  ultimately show ?thesis using del by (auto simp: t_def)
qed

text \<open>The fourth case: first the heir \<open>m\<close> is taken out, then it replaces the node.\<close>

lemma del_replace:
  assumes inv: "btree_inv s (plug c (Node l x r))" and l: "l \<noteq> Leaf"
    and m: "live (bmem s) m" "m \<notin> set_tree (plug c (Node l x r))"
    and h2: "h2 = upd (bmem s) m (\<lambda>n. n\<lparr>parent := cpar c, lchild := rp l, rchild := rp r\<rparr>)"
  shows "\<exists>s2 h3 h4. set_loc (s\<lparr>bmem := h2\<rparr>) (cloc c) m = Some s2
    \<and> rd (bmem s2) lchild m = Some (rp l) \<and> wr (bmem s2) (rp l) (\<lambda>n. n\<lparr>parent := m\<rparr>) = Some h3
    \<and> rd h3 rchild m = Some (rp r)
    \<and> (if rp r \<noteq> NULL then wr h3 (rp r) (\<lambda>n. n\<lparr>parent := m\<rparr>) else Some h3) = Some h4
    \<and> btree_inv (s2\<lparr>bmem := h4\<rparr>) (plug c (Node l m r)) \<and> same_data s (s2\<lparr>bmem := h4\<rparr>)"
proof -
  note dc = del_context[OF inv]
  have mo: "m \<notin> cset c" "m \<noteq> x" "m \<notin> set_tree l" "m \<notin> set_tree r" "m \<noteq> NULL"
    using m(2) plug_set[of c "Node l x r"] live_nonnull[OF m(1)] by auto
  let ?s1 = "s\<lparr>bmem := h2\<rparr>"
  have P1: "PP ?s1 = (PP s)(m := Some (cpar c))" "LL ?s1 = (LL s)(m := Some (rp l))"
    "RR ?s1 = (RR s)(m := Some (rp r))" "same_data s ?s1"
    using m(1) by (simp_all add: h2 heap_simps same_data_def)
  have bc1: "bc (root ?s1) (PP ?s1) (LL ?s1) (RR ?s1) c x"
    using dc(1) mo(1) unfolding P1 by (auto elim!: bc_frame)
  obtain s2 where s2: "set_loc ?s1 (cloc c) m = Some s2" "root s2 = hole_root (cloc c) m (root ?s1)"
    "PP s2 = PP ?s1" "LL s2 = hole_L (cloc c) m (LL ?s1)" "RR s2 = hole_R (cloc c) m (RR ?s1)" "same_data ?s1 s2"
    using set_loc_hole[OF bc1] by blast
  have bc2: "bc (root s2) (PP s2) (LL s2) (RR s2) c m"
    unfolding s2 by (rule bc_hole[OF bc1 dc(2)])
  have out: "LL s2 q = LL ?s1 q \<and> RR s2 q = RR ?s1 q" if "q \<notin> cset c" for q
    using that cloc_in[of c q] s2(4,5) by auto
  have lv: "live (bmem s2) q = live (bmem s) q" for q
    using s2(6) P1(4) by (simp add: same_data_def)
  have lv': "live (bmem s2) m" "live (bmem s2) (rp l)" "rp r \<noteq> NULL \<Longrightarrow> live (bmem s2) (rp r)"
    unfolding lv using m(1) bt_live[OF dc(6) rp_in[OF l]] bt_live[OF dc(7) rp_in] bt_rp[OF dc(7)] by auto
  let ?h3 = "upd (bmem s2) (rp l) (\<lambda>n. n\<lparr>parent := m\<rparr>)"
  let ?h4 = "if rp r \<noteq> NULL then upd ?h3 (rp r) (\<lambda>n. n\<lparr>parent := m\<rparr>) else ?h3"
  define s4 where "s4 = s2\<lparr>bmem := ?h4\<rparr>"
  have P4: "PP s4 = (if rp r \<noteq> NULL then (PP s2)(rp l := Some m, rp r := Some m) else (PP s2)(rp l := Some m))"
    "LL s4 = LL s2" "RR s4 = RR s2"
    using lv' by (simp_all add: s4_def heap_simps)
  have rin: "rp l \<in> set_tree l" "rp r \<noteq> NULL \<Longrightarrow> rp r \<in> set_tree r"
    using rp_in[OF l] rp_in[of r] bt_rp[OF dc(7)] by auto
  have inv4: "btree_inv s4 (plug c (Node l m r))"
    unfolding btree_inv_plug
  proof (intro conjI)
    have "root s4 = root s2" by (simp add: s4_def)
    then show "bc (root s4) (PP s4) (LL s4) (RR s4) c (rp \<langle>l, m, r\<rangle>)"
      using bc2 dc(18,19) rin unfolding P4 by (auto elim!: bc_frame)
    have keep: "LL s2 q = LL s q \<and> RR s2 q = RR s q" if "q \<in> set_tree l \<or> q \<in> set_tree r" for q
    proof -
      have "q \<notin> cset c" "q \<noteq> m" using that dc(18,19) mo(3,4) by auto
      then show ?thesis using out[of q] P1(2,3) by simp
    qed
    have tl: "bt (PP s4) (LL s4) (RR s4) m l"
      by (rule bt_reparent[OF dc(6,15)])
        (use rin dc(17,18) mo(3) keep P1(1) s2(3) in \<open>auto simp: P4\<close>)
    have tr: "bt (PP s4) (LL s4) (RR s4) m r"
      by (rule bt_reparent[OF dc(7,16)])
        (use rin bt_rp[OF dc(7)] dc(17,19) mo(4) keep P1(1) s2(3) in \<open>auto simp: P4\<close>)
    have "PP s4 m = Some (cpar c)" "LL s4 m = Some (rp l)" "RR s4 m = Some (rp r)"
      using rin mo out[of m] P1 s2(3) by (auto simp: P4)
    then show "bt (PP s4) (LL s4) (RR s4) (cpar c) \<langle>l, m, r\<rangle>" using tl tr mo(5) by simp
  qed (use dc mo in auto)
  have "rd (bmem s2) lchild m = Some (rp l)" "rd ?h3 rchild m = Some (rp r)"
    using lv'(1) out[OF mo(1)] P1 by (simp_all add: heap_simps)
  moreover have "same_data s s4"
    using same_data_trans[OF P1(4) s2(6)] by (simp add: s4_def same_data_def heap_simps)
  ultimately show ?thesis
    using s2(1) lv' inv4 unfolding s4_def
    by (intro exI[of _ s2] exI[of _ ?h3] exI[of _ ?h4]) (simp add: live_wr live_upd)
qed

text \<open>Taking the heir out: the hole \<open>g\<close> that points at it receives its right subtree.\<close>

lemma del_unlink:
  assumes inv: "btree_inv s (plug g (Node Leaf m rr))" and g: "g \<noteq> []"
  shows "\<exists>s1 h2. set_loc s (cloc g) (rp rr) = Some s1 \<and> rd (bmem s1) rchild m = Some (rp rr)
    \<and> rd (bmem s1) parent m = Some (cpar g)
    \<and> (if rp rr \<noteq> NULL then wr (bmem s1) (rp rr) (\<lambda>n. n\<lparr>parent := cpar g\<rparr>) else Some (bmem s1)) = Some h2
    \<and> btree_inv (s\<lparr>bmem := h2\<rparr>) (plug g rr) \<and> same_data s (s\<lparr>bmem := h2\<rparr>) \<and> s1 = s\<lparr>bmem := bmem s1\<rparr>"
proof -
  note dc = del_context[OF inv]
  obtain s1 where s1: "set_loc s (cloc g) (rp rr) = Some s1" "root s1 = hole_root (cloc g) (rp rr) (root s)"
    "PP s1 = PP s" "LL s1 = hole_L (cloc g) (rp rr) (LL s)" "RR s1 = hole_R (cloc g) (rp rr) (RR s)" "same_data s s1"
    using set_loc_hole[OF dc(1)] by blast
  have root: "root s1 = root s" using s1(2) g by (cases g rule: cloc.cases) (auto simp: hole_root_def)
  have eq: "s1 = s\<lparr>bmem := bmem s1\<rparr>" using root by (cases s, cases s1) simp
  have bc1: "bc (root s) (PP s1) (LL s1) (RR s1) g (rp rr)"
    using bc_hole[OF dc(1,2), of "rp rr"] s1(2-5) root by simp
  have out: "LL s1 q = LL s q \<and> RR s1 q = RR s q" if "q \<notin> cset g" for q
    using that cloc_in[of g q] s1(4,5) by auto
  have lv: "rp rr \<noteq> NULL \<Longrightarrow> live (bmem s1) (rp rr)" "live (bmem s1) m"
    using bt_live[OF dc(7) rp_in] bt_rp[OF dc(7)] dc(8) s1(6) by (auto simp: same_data_def)
  let ?h2 = "if rp rr \<noteq> NULL then upd (bmem s1) (rp rr) (\<lambda>n. n\<lparr>parent := cpar g\<rparr>) else bmem s1"
  define s2 where "s2 = s\<lparr>bmem := ?h2\<rparr>"
  have P2: "PP s2 = (if rp rr \<noteq> NULL then (PP s)(rp rr := Some (cpar g)) else PP s)" "LL s2 = LL s1" "RR s2 = RR s1"
    using lv by (simp_all add: s2_def heap_simps s1(3))
  have rin: "rp rr \<noteq> NULL \<Longrightarrow> rp rr \<in> set_tree rr" using rp_in[of rr] bt_rp[OF dc(7)] by auto
  have "btree_inv s2 (plug g rr)"
    unfolding btree_inv_plug
  proof (intro conjI)
    have "root s2 = root s" by (simp add: s2_def)
    then show "bc (root s2) (PP s2) (LL s2) (RR s2) g (rp rr)"
      using bc1 dc(19) rin unfolding P2 s1(3) by (auto elim!: bc_frame)
    show "bt (PP s2) (LL s2) (RR s2) (cpar g) rr"
    proof (rule bt_reparent[OF dc(7,16)])
      show "rr \<noteq> Leaf \<Longrightarrow> PP s2 (rp rr) = Some (cpar g)" using bt_rp[OF dc(7)] by (simp add: P2)
      show "PP s2 q = PP s q" if "q \<noteq> rp rr" for q using that by (simp add: P2)
      show "LL s2 q = LL s q" "RR s2 q = RR s q" if "q \<in> set_tree rr" for q
        using that out[of q] dc(19) by (auto simp: P2)
    qed
  qed (use dc in auto)
  moreover have "rd (bmem s1) rchild m = Some (rp rr)" "rd (bmem s1) parent m = Some (cpar g)"
    using lv(2) out[OF dc(3)] s1(3) dc(4,9,11) dc(8) by (simp_all add: live_rd)
  moreover have "same_data s s2" using s1(6) by (simp add: s2_def same_data_def heap_simps)
  ultimately show ?thesis
    using s1(1) lv eq unfolding s2_def by (intro exI[of _ s1] exI[of _ ?h2]) (simp add: live_wr)
qed

lemma btree_del_heir:
  assumes inv: "btree_inv s (plug c (Node l x r))" and lr: "l \<noteq> Leaf" "r \<noteq> Leaf"
  shows "\<exists>s'. btree_del s x = Some (0, s') \<and> btree_inv s' (plug c (del_root l r)) \<and> same_data s s'"
proof -
  note dc = del_context[OF inv]
  note pp = pparent_hole[OF dc(1-5)]
  obtain fs m rr where fs: "leftmost_loop (bmem s) (rp r) = Some m"
    "r = plug (lefts fs) (Node Leaf m rr)" "split_min r = (m, plug (lefts fs) rr)"
    using leftmost_tree[OF dc(7) lr(2), of "[]"] by auto
  let ?g = "lefts fs @ InR l x # c" and ?r' = "plug (lefts fs) rr"
  have plugs: "plug ?g t = plug c (Node l x (plug (lefts fs) t))" for t by (simp add: plug_append)
  have invg: "btree_inv s (plug ?g (Node Leaf m rr))" using inv fs(2) by (simp add: plugs)
  note dg = del_context[OF invg]
  define cp where "cp = cpar ?g"
  have cp: "cloc ?g = (if cp \<noteq> x then Lchild cp else Rchild cp)"
  proof (cases fs)
    case (Cons f gs)
    then obtain q t where f: "lefts fs = InL q t # lefts gs" by (cases f) auto
    then have "q \<in> set_tree r" using fs(2) plug_set[of "lefts fs"] by simp
    then show ?thesis using f dc(14) by (auto simp: cp_def)
  qed (simp add: cp_def)
  obtain s1 h2 where s1: "set_loc s (cloc ?g) (rp rr) = Some s1" "rd (bmem s1) rchild m = Some (rp rr)"
    "rd (bmem s1) parent m = Some cp"
    "(if rp rr \<noteq> NULL then wr (bmem s1) (rp rr) (\<lambda>n. n\<lparr>parent := cp\<rparr>) else Some (bmem s1)) = Some h2"
    "btree_inv (s\<lparr>bmem := h2\<rparr>) (plug ?g rr)" "same_data s (s\<lparr>bmem := h2\<rparr>)" "s1 = s\<lparr>bmem := bmem s1\<rparr>"
    using del_unlink[OF invg] unfolding cp_def by blast
  have unlink: "(if cp \<noteq> x then wr (bmem s) cp (\<lambda>n. n\<lparr>lchild := rp rr\<rparr>)
      else wr (bmem s) cp (\<lambda>n. n\<lparr>rchild := rp rr\<rparr>)) = Some (bmem s1)"
    using s1(1) cp by (auto simp: set_loc_def bind_eq_Some_conv split: if_splits)
  let ?s2 = "s\<lparr>bmem := h2\<rparr>"
  have inv2: "btree_inv ?s2 (plug c (Node l x ?r'))" using s1(5) by (simp add: plugs)
  note d2 = del_context[OF inv2]
  have m: "live (bmem ?s2) m" "m \<notin> set_tree (plug c (Node l x ?r'))"
    using dg(8) s1(6) dg(3,14) plug_set[of ?g rr] by (auto simp: same_data_def plugs)
  obtain s3 h3 h4 where s3: "set_loc (?s2\<lparr>bmem := upd (bmem ?s2) m (\<lambda>n. n\<lparr>parent := cpar c, lchild := rp l, rchild := rp ?r'\<rparr>)\<rparr>) (cloc c) m = Some s3"
    "rd (bmem s3) lchild m = Some (rp l)" "wr (bmem s3) (rp l) (\<lambda>n. n\<lparr>parent := m\<rparr>) = Some h3"
    "rd h3 rchild m = Some (rp ?r')" "(if rp ?r' \<noteq> NULL then wr h3 (rp ?r') (\<lambda>n. n\<lparr>parent := m\<rparr>) else Some h3) = Some h4"
    "btree_inv (s3\<lparr>bmem := h4\<rparr>) (plug c (Node l m ?r'))" "same_data ?s2 (s3\<lparr>bmem := h4\<rparr>)"
    using del_replace[OF inv2 lr(1) m refl] by blast
  have w: "wr h2 m (\<lambda>n. n\<lparr>parent := cpar c, lchild := rp l, rchild := rp ?r'\<rparr>)
      = Some (upd h2 m (\<lambda>n. n\<lparr>parent := cpar c, lchild := rp l, rchild := rp ?r'\<rparr>))"
    using m(1) by (simp add: live_wr)
  have nn: "rp l \<noteq> NULL" "rp r \<noteq> NULL" using bt_rp[OF dc(6)] bt_rp[OF dc(7)] lr by simp_all
  have up: "(if rp rr \<noteq> NULL then do { cp \<leftarrow> rd (bmem s1) parent m; wr (bmem s1) (rp rr) (\<lambda>n. n\<lparr>parent := cp\<rparr>) }
      else Some (bmem s1)) = Some h2"
    using s1(3,4) by (auto split: if_splits)
  have "btree_del s x = Some (0, s3\<lparr>bmem := h4\<rparr>)"
    using nn dc(5,9-12) pp fs(1) dg(9,11)[folded cp_def] unlink s1(2) up d2(9-11) w s3(1-5)
    by (simp add: btree_del_def)
  moreover have "del_root l r = Node l m ?r'" using lr fs(3) by (simp add: del_root_def)
  ultimately show ?thesis using s3(6) same_data_trans[OF s1(6) s3(7)] by simp
qed

text \<open>Deleting a node of the tree takes exactly that node out of the order.\<close>

lemma btree_del_inv:
  assumes inv: "btree_inv s t" and x: "x \<in> set_tree t"
  shows "\<exists>s' t'. btree_del s x = Some (0, s') \<and> btree_inv s' t' \<and> inorder t' = remove1 x (inorder t) \<and> same_data s s'"
proof -
  obtain c l r where t: "t = plug c (Node l x r)" using plug_ex[OF x] by blast
  obtain s' where s': "btree_del s x = Some (0, s')" "btree_inv s' (plug c (del_root l r))" "same_data s s'"
    using btree_del_lift[of s c l x r] btree_del_heir[of s c l x r] inv unfolding t by blast
  obtain xs ys where xy: "\<And>t. inorder (plug c t) = xs @ inorder t @ ys" using plug_inorder by blast
  have "distinct (inorder t)" using inv by (simp add: btree_inv_def)
  then have "remove1 x (inorder t) = inorder (plug c (del_root l r))"
    by (simp add: t xy del_root_inorder remove1_append)
  then show ?thesis using s' by auto
qed

lemma btree_del_empty: "root s = NULL \<Longrightarrow> x \<noteq> NULL \<Longrightarrow> btree_del s x = Some (-1, s)"
  by (simp add: btree_del_def)

text \<open>
  A node that is not in the tree but has a NULL parent, for instance one that was deleted before, is
  taken for the root: its deletion empties the tree.
\<close>

lemma btree_del_foreign:
  assumes inv: "btree_inv s t" and t: "t \<noteq> Leaf" and x: "live (bmem s) x" "PP s x = Some NULL"
    "LL s x = Some NULL" "RR s x = Some NULL"
  shows "\<exists>s'. btree_del s x = Some (0, s') \<and> root s' = NULL"
proof -
  have "root s \<noteq> NULL" using inv t bt_rp by (metis btree_inv_def)
  then show ?thesis
    using x live_nonnull[OF x(1)] by (simp add: btree_del_def set_loc_def heap_simps)
qed

subsection \<open>The client\<close>

text \<open>The loop of \<open>main\<close> in test.c that pushes an array of nodes.\<close>

fun btree_fill ::
    "('z bnode_info_scheme heap \<Rightarrow> ptr \<Rightarrow> ptr \<Rightarrow> int option) \<Rightarrow> 'z bnode_info_scheme btree_info \<Rightarrow> ptr list \<Rightarrow>
     'z bnode_info_scheme btree_info option" where
  "btree_fill cmp s [] = Some s"
| "btree_fill cmp s (x # xs) = do { s \<leftarrow> btree_push cmp s x; btree_fill cmp s xs }"

context compare
begin

lemma btree_push_ordered:
  assumes inv: "btree_inv s t" and o: "ordered key (inorder t)" "key ` insert x (set_tree t) \<subseteq> K"
    and x: "live (bmem s) x" "x \<notin> set_tree t"
    and c: "\<And>h q. q \<in> set_tree t \<Longrightarrow> fld h bnode_info.more = fld (bmem s) bnode_info.more \<Longrightarrow>
      c h x q = Some (cmp (key x) (key q))"
  shows "\<exists>s' t'. btree_push c s x = Some s' \<and> btree_inv s' t' \<and> same_data s s'
    \<and> inorder t' = insert_by (\<lambda>q. cmp (key x) (key q)) x (inorder t) \<and> ordered key (inorder t')"
proof -
  obtain s' where "btree_push c s x = Some s'" "btree_inv s' (ins (\<lambda>q. cmp (key x) (key q)) x t)" "same_data s s'"
    using btree_push_inv[OF inv x, of c "\<lambda>q. cmp (key x) (key q)"] c by blast
  moreover have "key ` set (x # inorder t) \<subseteq> K" using o(2) by simp
  ultimately show ?thesis
    using inorder_ins[OF o] insert_by_ordered[OF o(1)] by auto
qed

lemma btree_fill_ordered:
  assumes "btree_inv s t" and "ordered key (inorder t)" and "key ` (set xs \<union> set_tree t) \<subseteq> K"
    and "\<forall>x \<in> set xs. live (bmem s) x" and "distinct xs" and "set xs \<inter> set_tree t = {}"
    and "\<And>h a b. a \<in> set xs \<Longrightarrow> b \<in> set xs \<union> set_tree t \<Longrightarrow>
      fld h bnode_info.more = fld (bmem s) bnode_info.more \<Longrightarrow> c h a b = Some (cmp (key a) (key b))"
  shows "\<exists>s' t'. btree_fill c s xs = Some s' \<and> btree_inv s' t' \<and> same_data s s'
    \<and> ordered key (inorder t') \<and> mset (inorder t') = mset xs + mset (inorder t)"
  using assms
proof (induction xs arbitrary: s t)
  case Nil
  then show ?case by (intro exI[of _ s] exI[of _ t]) (simp add: same_data_def)
next
  case (Cons x xs)
  obtain s1 t1 where 1: "btree_push c s x = Some s1" "btree_inv s1 t1" "same_data s s1"
    "inorder t1 = insert_by (\<lambda>q. cmp (key x) (key q)) x (inorder t)" "ordered key (inorder t1)"
  proof -
    have "key ` insert x (set_tree t) \<subseteq> K" using Cons.prems(3) by auto
    from btree_push_ordered[OF Cons.prems(1,2) this, of c] show ?thesis
      using Cons.prems(4-7) that by auto
  qed
  have set1: "set_tree t1 = insert x (set_tree t)"
    using arg_cong[OF 1(4), of set] by simp
  have "\<exists>s' t'. btree_fill c s1 xs = Some s' \<and> btree_inv s' t' \<and> same_data s1 s'
    \<and> ordered key (inorder t') \<and> mset (inorder t') = mset xs + mset (inorder t1)"
  proof (rule Cons.IH[OF 1(2,5)])
    show "\<forall>x \<in> set xs. live (bmem s1) x" using Cons.prems(4) 1(3) by (simp add: same_data_def)
    show "c h a b = Some (cmp (key a) (key b))"
      if "a \<in> set xs" "b \<in> set xs \<union> set_tree t1" "fld h bnode_info.more = fld (bmem s1) bnode_info.more" for h a b
      using Cons.prems(7)[of a b h] that set1 1(3) by (auto simp: same_data_def)
  qed (use Cons.prems set1 in auto)
  then show ?case using 1 same_data_trans[OF 1(3)] by (auto simp: union_mset_add_mset_left)
qed

end

lemma bdata_more: "bnode_info.more n = bnode_info.more n' \<Longrightarrow> bdata n = bdata (n' :: data_info)"
  by (cases n, cases n') simp

lemma fld_bdata:
  assumes "fld h' bnode_info.more = fld (h :: data_info heap) bnode_info.more"
  shows "fld h' bdata = fld h bdata"
proof (rule ext)
  fix q
  have "fld h' bnode_info.more q = fld h bnode_info.more q" using assms by simp
  then show "fld h' bdata q = fld h bdata q"
    by (cases "mem h q"; cases "mem h' q") (auto simp: fld_def intro: bdata_more)
qed

text \<open>After filling a tree with the nodes of an array: the payloads of the nodes.\<close>

lemma btree_fill_data:
  assumes inv: "btree_inv s Leaf" and xs: "distinct xs" "map (fld (bmem s) bdata) xs = map Some ds" "NULL \<notin> set xs"
    and range: "\<forall>a \<in> set ds. \<forall>b \<in> set ds. - (2 ^ 31) \<le> a - b \<and> a - b < 2 ^ 31"
  obtains s' t d where "btree_fill bnode_cmp s xs = Some s'" "btree_inv s' t" "same_data s s'" "map d xs = ds"
    "\<And>q. q \<in> set xs \<Longrightarrow> rd (bmem s') bdata q = Some (d q)" "diff.ordered d (inorder t)" "mset (inorder t) = mset xs"
proof -
  define d where "d q = the (fld (bmem s) bdata q)" for q
  have ds: "map d xs = ds"
    using arg_cong[OF xs(2), of "map the"] by (simp add: d_def[abs_def] comp_def)
  have fd: "fld (bmem s) bdata q = Some (d q)" if "q \<in> set xs" for q
  proof -
    have "fld (bmem s) bdata q \<in> set (map Some ds)" using that by (simp flip: xs(2))
    then show ?thesis by (auto simp: d_def)
  qed
  have lv: "live (bmem s) q" if "q \<in> set xs" for q using liveI[OF fd[OF that]] that xs(3) by (metis (full_types))
  have cmp: "bnode_cmp h a b = Some (d a - d b)"
    if "a \<in> set xs" "b \<in> set xs" "fld h bnode_info.more = fld (bmem s) bnode_info.more" for h a b
  proof -
    have "fld h bdata a = Some (d a)" "fld h bdata b = Some (d b)" using fld_bdata[OF that(3)] fd that by auto
    moreover have "a \<noteq> NULL" "b \<noteq> NULL" using that xs(3) by metis+
    moreover have "d a \<in> set ds" "d b \<in> set ds" using that ds by (metis image_eqI list.set_map)+
    ultimately show ?thesis using range by (auto simp: bnode_cmp_def rd_def)
  qed
  obtain s' t where s': "btree_fill bnode_cmp s xs = Some s'" "btree_inv s' t" "same_data s s'"
    "diff.ordered d (inorder t)" "mset (inorder t) = mset xs"
    using diff.btree_fill_ordered[of s Leaf d xs bnode_cmp] inv xs(1) lv cmp by auto
  have "rd (bmem s') bdata q = Some (d q)" if "q \<in> set xs" for q
    using fld_bdata[of "bmem s'" "bmem s"] s'(3) fd[OF that] lv[OF that] by (simp add: same_data_def live_rd)
  then show ?thesis using that s' ds by blast
qed

lemma fold_snoc: "fold (\<lambda>q w. w @ [d q]) qs w = w @ map d qs"
  by (induction qs arbitrary: w) auto

text \<open>Pushing all elements of an array and walking in order sorts it.\<close>

lemma btree_sorts:
  assumes inv: "btree_inv s Leaf" and xs: "distinct xs" "map (fld (bmem s) bdata) xs = map Some ds" "NULL \<notin> set xs"
    and range: "\<forall>a \<in> set ds. \<forall>b \<in> set ds. - (2 ^ 31) \<le> a - b \<and> a - b < 2 ^ 31"
  shows "\<exists>s'. btree_fill bnode_cmp s xs = Some s' \<and> btree_in_order s' print_bnode [] = Some (bmem s', sort ds)"
proof -
  obtain s' t d where s': "btree_fill bnode_cmp s xs = Some s'" "btree_inv s' t" "map d xs = ds"
    "\<And>q. q \<in> set xs \<Longrightarrow> rd (bmem s') bdata q = Some (d q)" "diff.ordered d (inorder t)" "mset (inorder t) = mset xs"
    using btree_fill_data[OF assms] by metis
  have "reads print_bnode (bmem s') (set_tree t) (\<lambda>q w. w @ [d q])"
    using s'(4) mset_eq_setD[OF s'(6)] by (simp add: reads_def print_bnode_def)
  from btree_recursive_orders(2)[OF s'(2) this, of "[]"]
  have "btree_in_order s' print_bnode [] = Some (bmem s', map d (inorder t))" by (simp add: fold_snoc)
  moreover have "map d (inorder t) = sort ds"
  proof (rule properties_for_sort[symmetric])
    show "mset (map d (inorder t)) = mset ds" using s'(3,6) by (metis mset_map)
    show "sorted (map d (inorder t))" using s'(5) by (simp add: diff.ordered_def sorted_map)
  qed
  ultimately show ?thesis using s'(1) by auto
qed

end
