(* ===== verification/HashTable.thy ===== *)
theory HashTable
  imports KernelList
begin

section \<open>The hash table (05HashTable/hashtable.c)\<close>

text \<open>
  The table is an array of list heads, one ring per bucket; the elements are client structs with a
  \<open>list_head\<close> inside. The head of bucket \<open>i\<close> is at \<open>table + i\<close>: addresses count cells. The client's
  \<open>hash\<close> and \<open>hash_cmp\<close> read the memory, so they take it as an argument; \<open>hash_cmp\<close> is true for equal
  keys. The index of the loops is an \<open>int\<close> that is compared with a \<open>size_t\<close>: \<open>inc\<close> is undefined where it
  would overflow.

  \<open>hash_find\<close> keeps its cursor in a \<open>static\<close> variable: it is an argument and a result here.
\<close>

record 'n hashtable =
  table :: ptr
  nmemb :: csize
  hmem :: "'n heap"

text \<open>\<open>malloc(sizeof(struct list_head) * nmemb)\<close>: the size is computed modulo \<open>2 ^ 64\<close>.\<close>

definition cells :: "csize \<Rightarrow> nat" where
  "cells n = unat (16 * n) div 16"

definition malloc_array :: "'n heap \<Rightarrow> nat \<Rightarrow> ptr \<times> 'n heap" where
  "malloc_array h n = (case avail h of
       [] \<Rightarrow> (NULL, h)
     | p # ps \<Rightarrow>
         if p = NULL \<or> (\<exists>i<n. mem h (p + i) \<noteq> None) then (NULL, h\<lparr>avail := ps\<rparr>)
         else (p, h\<lparr>mem := (\<lambda>q. if p \<le> q \<and> q < p + n then Some (junk h) else mem h q), avail := ps\<rparr>))"

definition free_array :: "'n heap \<Rightarrow> ptr \<Rightarrow> nat \<Rightarrow> 'n heap" where
  "free_array h p n = h\<lparr>mem := (\<lambda>q. if p \<le> q \<and> q < p + n then None else mem h q)\<rparr>"

partial_function (option) hash_init_loop ::
    "'z list_head_scheme heap \<Rightarrow> ptr \<Rightarrow> csize \<Rightarrow> nat \<Rightarrow> 'z list_head_scheme heap option" where
  "hash_init_loop h tab n i =
     (if of_nat i < n then do {
        h \<leftarrow> list_head_init h (tab + i);
        i \<leftarrow> inc i;
        hash_init_loop h tab n i
      } else Some h)"

definition hashtable_init ::
    "'z list_head_scheme heap \<Rightarrow> csize \<Rightarrow> (int \<times> 'z list_head_scheme hashtable) option" where
  "hashtable_init h n = (let (p, h) = malloc_array h (cells n) in
     if p = NULL then Some (-1, \<lparr>table = NULL, nmemb = 0, hmem = h\<rparr>)
     else do {
       h \<leftarrow> hash_init_loop h p n 0;
       Some (0, \<lparr>table = p, nmemb = n, hmem = h\<rparr>)
     })"

text \<open>\<open>hash(node) % nmemb\<close>; a table without buckets traps.\<close>

definition bucket ::
    "('z list_head_scheme heap \<Rightarrow> ptr \<Rightarrow> csize option) \<Rightarrow> 'z list_head_scheme hashtable \<Rightarrow> ptr \<Rightarrow> csize option" where
  "bucket hash info node = do {
     v \<leftarrow> hash (hmem info) node;
     (if nmemb info = 0 then None else Some (v mod nmemb info))
   }"

definition hash_push ::
    "('z list_head_scheme heap \<Rightarrow> ptr \<Rightarrow> csize option) \<Rightarrow> 'z list_head_scheme hashtable \<Rightarrow> ptr \<Rightarrow>
     'z list_head_scheme hashtable option" where
  "hash_push hash info node = (if node = NULL then None else do {
     v \<leftarrow> bucket hash info node;
     h \<leftarrow> list_add_tail (hmem info) (table info + unat v) node;
     Some (info\<lparr>hmem := h\<rparr>)
   })"

partial_function (option) hash_find_loop ::
    "('z list_head_scheme heap \<Rightarrow> ptr \<Rightarrow> ptr \<Rightarrow> bool option) \<Rightarrow> 'z list_head_scheme heap \<Rightarrow> ptr \<Rightarrow> ptr \<Rightarrow> ptr \<Rightarrow>
     (ptr \<times> ptr) option" where
  "hash_find_loop hash_cmp h cur head key =
     (if cur = head then Some (NULL, cur)
      else do {
        b \<leftarrow> hash_cmp h cur key;
        (if b then Some (cur, cur)
         else do { nx \<leftarrow> rd h nxt cur; hash_find_loop hash_cmp h nx head key })
      })"

text \<open>The result is the node that is returned and the new value of the static variable.\<close>

definition hash_find ::
    "('z list_head_scheme heap \<Rightarrow> ptr \<Rightarrow> csize option) \<Rightarrow> ('z list_head_scheme heap \<Rightarrow> ptr \<Rightarrow> ptr \<Rightarrow> bool option) \<Rightarrow>
     'z list_head_scheme hashtable \<Rightarrow> ptr \<Rightarrow> ptr \<Rightarrow> (ptr \<times> ptr) option" where
  "hash_find hash hash_cmp info key cur = (if key = NULL then None else do {
     v \<leftarrow> bucket hash info key;
     restart \<leftarrow> (if cur = NULL then Some True
       else do { b \<leftarrow> hash_cmp (hmem info) cur key; Some (\<not> b) });
     let head = table info + unat v;
     let cur = (if restart then head else cur);
     nx \<leftarrow> rd (hmem info) nxt cur;
     hash_find_loop hash_cmp (hmem info) nx head key
   })"

type_synonym ('n, 'w) hvisitor = "'n heap \<times> 'w \<Rightarrow> ptr \<Rightarrow> ('n heap \<times> 'w) option"

partial_function (option) bucket_loop ::
    "('z list_head_scheme, 'w) hvisitor \<Rightarrow> 'z list_head_scheme heap \<times> 'w \<Rightarrow> ptr \<Rightarrow> ptr \<Rightarrow>
     ('z list_head_scheme heap \<times> 'w) option" where
  "bucket_loop todo hw cur head =
     (if cur = head then Some hw
      else do {
        hw \<leftarrow> todo hw cur;
        nx \<leftarrow> rd (fst hw) nxt cur;
        bucket_loop todo hw nx head
      })"

partial_function (option) hash_for_each_loop ::
    "('z list_head_scheme, 'w) hvisitor \<Rightarrow> ptr \<Rightarrow> csize \<Rightarrow> 'z list_head_scheme heap \<times> 'w \<Rightarrow> nat \<Rightarrow>
     ('z list_head_scheme heap \<times> 'w) option" where
  "hash_for_each_loop todo tab n hw i =
     (if of_nat i < n then do {
        cur \<leftarrow> rd (fst hw) nxt (tab + i);
        hw \<leftarrow> bucket_loop todo hw cur (tab + i);
        i \<leftarrow> inc i;
        hash_for_each_loop todo tab n hw i
      } else Some hw)"

definition hash_for_each ::
    "'z list_head_scheme hashtable \<Rightarrow> ('z list_head_scheme, 'w) hvisitor \<Rightarrow> 'w \<Rightarrow>
     ('z list_head_scheme heap \<times> 'w) option" where
  "hash_for_each info todo w = hash_for_each_loop todo (table info) (nmemb info) (hmem info, w) 0"

partial_function (option) hash_is_empty_loop :: "'z list_head_scheme hashtable \<Rightarrow> nat \<Rightarrow> int option" where
  "hash_is_empty_loop info i =
     (if of_nat i < nmemb info then do {
        e \<leftarrow> list_is_empty (hmem info) (table info + i);
        (if e then do { i \<leftarrow> inc i; hash_is_empty_loop info i } else Some 0)
      } else Some 1)"

definition hash_is_empty :: "'z list_head_scheme hashtable \<Rightarrow> int option" where
  "hash_is_empty info = hash_is_empty_loop info 0"

partial_function (option) hash_is_full_loop :: "'z list_head_scheme hashtable \<Rightarrow> nat \<Rightarrow> int option" where
  "hash_is_full_loop info i =
     (if of_nat i < nmemb info then do {
        e \<leftarrow> list_is_empty (hmem info) (table info + i);
        (if \<not> e then do { i \<leftarrow> inc i; hash_is_full_loop info i } else Some 1)
      } else Some 0)"

definition hash_is_full :: "'z list_head_scheme hashtable \<Rightarrow> int option" where
  "hash_is_full info = hash_is_full_loop info 0"

partial_function (option) bucket_clear_loop ::
    "'z list_head_scheme heap \<Rightarrow> ptr \<Rightarrow> 'z list_head_scheme heap option" where
  "bucket_clear_loop h head = do {
     e \<leftarrow> list_is_empty h head;
     (if e then Some h
      else do {
        first \<leftarrow> rd h nxt head;
        h \<leftarrow> list_del_init h first;
        bucket_clear_loop h head
      })
   }"

partial_function (option) hash_destroy_loop ::
    "ptr \<Rightarrow> csize \<Rightarrow> 'z list_head_scheme heap \<Rightarrow> nat \<Rightarrow> 'z list_head_scheme heap option" where
  "hash_destroy_loop tab n h i =
     (if of_nat i < n then do {
        h \<leftarrow> bucket_clear_loop h (tab + i);
        i \<leftarrow> inc i;
        hash_destroy_loop tab n h i
      } else Some h)"

definition hashtable_destroy :: "'z list_head_scheme hashtable \<Rightarrow> (int \<times> 'z list_head_scheme hashtable) option" where
  "hashtable_destroy info = do {
     h \<leftarrow> hash_destroy_loop (table info) (nmemb info) (hmem info) 0;
     Some (0, info\<lparr>hmem := free_array h (table info) (cells (nmemb info))\<rparr>)
   }"

text \<open>The client of test.c: persons with a name, hashed by the sum of its (signed) bytes.\<close>

record person = list_head +
  name :: string
  age :: int

fun sum_chars :: "csize \<Rightarrow> string \<Rightarrow> csize" where
  "sum_chars val [] = val"
| "sum_chars val (c # cs) = sum_chars (val + scast (of_char c :: 8 word)) cs"

definition hash_xx :: "person heap \<Rightarrow> ptr \<Rightarrow> csize option" where
  "hash_xx h node = do { s \<leftarrow> rd h name node; Some (sum_chars 0 s) }"

definition hashcmp_xx :: "person heap \<Rightarrow> ptr \<Rightarrow> ptr \<Rightarrow> bool option" where
  "hashcmp_xx h a b = do { s \<leftarrow> rd h name a; t \<leftarrow> rd h name b; Some (s = t) }"

subsection \<open>The representation invariant\<close>

text \<open>\<open>hash_inv info bs\<close>: bucket \<open>i\<close> is the ring of the nodes \<open>bs ! i\<close>, and no node is shared.\<close>

definition heads :: "'n hashtable \<Rightarrow> ptr list" where
  "heads info = map (\<lambda>i. table info + i) [0..<unat (nmemb info)]"

definition hash_inv :: "'z list_head_scheme hashtable \<Rightarrow> ptr list list \<Rightarrow> bool" where
  "hash_inv info bs \<longleftrightarrow> length bs = unat (nmemb info) \<and> unat (nmemb info) < 2 ^ 31
     \<and> (\<forall>i < length bs. ring (hmem info) (table info + i) (bs ! i))
     \<and> distinct (concat bs) \<and> set (concat bs) \<inter> set (heads info) = {}"

lemma hash_invD:
  assumes "hash_inv info bs"
  shows "length bs = unat (nmemb info)" and "unat (nmemb info) < 2 ^ 31"
    and "i < length bs \<Longrightarrow> ring (hmem info) (table info + i) (bs ! i)"
    and "distinct (concat bs)" and "set (concat bs) \<inter> set (heads info) = {}"
  using assms by (auto simp: hash_inv_def)

lemma bucket_disjoint_less:
  assumes "distinct (concat bs)" and "i < j" and "j < length bs"
  shows "set (bs ! i) \<inter> set (bs ! j) = {}"
proof -
  have "concat bs = concat (take j bs) @ bs ! j @ concat (drop (Suc j) bs)"
    using id_take_nth_drop[OF assms(3)] by (metis append.simps concat.simps(2) concat_append)
  moreover have "bs ! i \<in> set (take j bs)" using assms(2,3) by (auto simp: in_set_conv_nth intro!: exI[of _ i])
  then have "set (bs ! i) \<subseteq> set (concat (take j bs))" by auto
  ultimately have "distinct (concat (take j bs) @ bs ! j @ concat (drop (Suc j) bs))"
    "set (bs ! i) \<subseteq> set (concat (take j bs))" using assms(1) by metis+
  then show ?thesis by (simp only: distinct_append set_append) blast
qed

lemma bucket_disjoint:
  assumes "distinct (concat bs)" and "i < length bs" and "j < length bs" and "i \<noteq> j"
  shows "set (bs ! i) \<inter> set (bs ! j) = {}"
  using bucket_disjoint_less[OF assms(1), of i j] bucket_disjoint_less[OF assms(1), of j i] assms(2-4)
  by (cases i j rule: linorder_cases) auto

lemma bucket_in: "i < length bs \<Longrightarrow> x \<in> set (bs ! i) \<Longrightarrow> x \<in> set (concat bs)"
  by (auto intro: nth_mem)

lemma head_in: "hash_inv info bs \<Longrightarrow> i < length bs \<Longrightarrow> table info + i \<in> set (heads info)"
  by (simp add: hash_inv_def heads_def)

lemma head_no_node:
  "hash_inv info bs \<Longrightarrow> i < length bs \<Longrightarrow> j < length bs \<Longrightarrow> table info + i \<notin> set (bs ! j)"
  using head_in[of info bs i] hash_invD(5)[of info bs] bucket_in[of j bs "table info + i"] by blast

lemma bucket_mod:
  assumes "hash (hmem info) x = Some v" and "nmemb info \<noteq> 0"
  shows "bucket hash info x = Some (v mod nmemb info)" and "unat (v mod nmemb info) < unat (nmemb info)"
  using assms by (auto simp: bucket_def unat_mod intro!: mod_less_divisor dest: unat_gt_0[THEN iffD2])

subsection \<open>Insertion and search\<close>

text \<open>\<open>hash_push\<close> appends the node to the ring of its bucket and touches no other ring.\<close>

lemma hash_push_inv:
  assumes inv: "hash_inv info bs" and x: "live (hmem info) x" "x \<notin> set (concat bs)" "x \<notin> set (heads info)"
    and h: "hash (hmem info) x = Some v" "nmemb info \<noteq> 0"
  defines "b \<equiv> unat (v mod nmemb info)"
  shows "\<exists>info'. hash_push hash info x = Some info' \<and> hash_inv info' (bs[b := bs ! b @ [x]])
    \<and> fld (hmem info') list_head.more = fld (hmem info) list_head.more
    \<and> (\<forall>q. live (hmem info') q = live (hmem info) q) \<and> table info' = table info \<and> nmemb info' = nmemb info"
proof -
  note bu = bucket_mod[where hash = hash and info = info and x = x and v = v, OF h]
  have b: "b < length bs" using bu(2) hash_invD(1)[OF inv] by (simp add: b_def)
  have xb: "x \<notin> set ((table info + b) # bs ! b)"
    using x b bucket_in[of b bs x] hash_invD(1)[OF inv] by (auto simp: heads_def)
  let ?hd = "table info + b"
  obtain h' where h': "list_add_tail (hmem info) ?hd x = Some h'" "ring h' ?hd (bs ! b @ [x])"
    "links_to (hmem info) h' ((fld (hmem info) nxt)(x := Some ?hd, last (?hd # bs ! b) := Some x))
        ((fld (hmem info) prev)(x := Some (last (?hd # bs ! b)), ?hd := Some x))"
    using list_add_tail_ring[OF hash_invD(3)[OF inv b] x(1) xb] by blast
  let ?info = "info\<lparr>hmem := h'\<rparr>"
  have other: "ring h' (table info + i) (bs ! i)" if i: "i < length bs" "i \<noteq> b" for i
  proof -
    have "set (bs ! i) \<inter> set (bs ! b) = {}" by (rule bucket_disjoint[OF hash_invD(4)[OF inv] i(1) b i(2)])
    moreover have "table info + i \<notin> set (bs ! b)" "?hd \<notin> set (bs ! i)" "x \<noteq> table info + i"
      using head_no_node[OF inv] head_in[OF inv i(1)] i(1) b x(3) by auto
    moreover have "x \<notin> set (bs ! i)" using x(2) bucket_in[OF i(1)] by blast
    moreover have "last (?hd # bs ! b) \<in> set (?hd # bs ! b)" by (rule last_in_set) simp
    ultimately have l: "last (?hd # bs ! b) \<noteq> table info + i" "last (?hd # bs ! b) \<notin> set (bs ! i)"
      and x': "x \<noteq> table info + i" "x \<notin> set (bs ! i)" "?hd \<noteq> table info + i" "?hd \<notin> set (bs ! i)"
      using i(2) by auto
    have "fld h' nxt = (fld (hmem info) nxt)(x := Some ?hd, last (?hd # bs ! b) := Some x)"
      "fld h' prev = (fld (hmem info) prev)(x := Some (last (?hd # bs ! b)), ?hd := Some x)"
      using h'(3) by (simp_all only: links_to_def)
    then show ?thesis
      using hash_invD(3)[OF inv i(1)] by (simp only: dring_upd l x' not_False_eq_True simp_thms)
  qed
  have "hash_push hash info x = Some ?info"
    using bu(1) h'(1) live_nonnull[OF x(1)] by (simp add: hash_push_def b_def)
  moreover have "hash_inv ?info (bs[b := bs ! b @ [x]])"
  proof -
    have eq: "concat bs = concat (take b bs) @ bs ! b @ concat (drop (Suc b) bs)"
      "concat (bs[b := bs ! b @ [x]]) = concat (take b bs) @ (bs ! b @ [x]) @ concat (drop (Suc b) bs)"
      using id_take_nth_drop[OF b] upd_conv_take_nth_drop[OF b, of "bs ! b @ [x]"]
      by (metis append.simps concat.simps(2) concat_append)+
    have "distinct (concat (bs[b := bs ! b @ [x]]))"
      using hash_invD(4)[OF inv] x(2) unfolding eq by auto
    moreover have "set (concat (bs[b := bs ! b @ [x]])) \<inter> set (heads ?info) = {}"
      using hash_invD(5)[OF inv] x(3) unfolding eq by (auto simp: heads_def)
    ultimately show ?thesis
      using hash_invD(1,2)[OF inv] other h'(2) b by (auto simp: hash_inv_def nth_list_update)
  qed
  ultimately show ?thesis
    using links_to_more[OF h'(3)] links_to_live[OF h'(3)] by auto
qed

text \<open>The first match behind the cursor, or NULL; the cursor stops there or at the head.\<close>

definition first_match :: "(ptr \<Rightarrow> bool) \<Rightarrow> ptr list \<Rightarrow> ptr" where
  "first_match m xs = (case dropWhile (\<lambda>x. \<not> m x) xs of [] \<Rightarrow> NULL | x # _ \<Rightarrow> x)"

lemma hash_find_loop_path:
  "npath (fld h nxt) p xs hd0 \<Longrightarrow> hd0 \<notin> set xs \<Longrightarrow> (\<And>x. x \<in> set xs \<Longrightarrow> hash_cmp h x key = Some (m x)) \<Longrightarrow>
     hash_find_loop hash_cmp h p hd0 key =
       Some (first_match m xs, if first_match m xs = NULL then hd0 else first_match m xs)"
proof (induction xs arbitrary: p)
  case Nil
  then show ?case by (subst hash_find_loop.simps) (simp add: first_match_def)
next
  case (Cons x xs)
  then obtain y where y: "p = x" "x \<noteq> NULL" "fld h nxt x = Some y" "npath (fld h nxt) y xs hd0"
    by (auto simp: npath.simps(2) split: option.splits)
  then show ?case
    using Cons.IH[OF y(4)] Cons.prems
    by (subst hash_find_loop.simps) (auto simp: first_match_def rd_def)
qed

text \<open>
  The search starts at the head, or behind the cursor of the last search when that is a node with the
  same key: repeated calls enumerate the nodes with the key.
\<close>

lemma hash_find_from:
  assumes inv: "hash_inv info bs" and key: "key \<noteq> NULL" "hash (hmem info) key = Some v" "nmemb info \<noteq> 0"
    and m: "\<And>x. x \<in> set (concat bs) \<Longrightarrow> hash_cmp (hmem info) x key = Some (m x)"
    and b: "b = unat (v mod nmemb info)" and bs: "bs ! b = xs @ ys"
    and c: "xs = [] \<and> (cur = NULL \<or> hash_cmp (hmem info) cur key = Some False)
      \<or> xs \<noteq> [] \<and> last xs = cur \<and> m cur"
  shows "hash_find hash hash_cmp info key cur = Some (first_match m ys,
    if first_match m ys = NULL then table info + b else first_match m ys)"
proof -
  note bu = bucket_mod[where hash = hash and info = info and x = key and v = v, OF key(2,3)]
  have bl: "b < length bs" using bu(2) hash_invD(1)[OF inv] by (simp add: b)
  let ?hd = "table info + b"
  have r: "ring (hmem info) ?hd (xs @ ys)" using hash_invD(3)[OF inv bl] by (simp add: bs)
  have mb: "hash_cmp (hmem info) x key = Some (m x)" if "x \<in> set xs \<union> set ys" for x
    using m bucket_in[OF bl, of x] that by (simp add: bs)
  have "?hd \<notin> set ys" using dring_distinct[OF r] by simp
  from hash_find_loop_path[where hash_cmp = hash_cmp and m = m and key = key, OF ring_path(1)[OF r] this mb]
  have loop: "hash_find_loop hash_cmp (hmem info) (hd (ys @ [?hd])) ?hd key =
      Some (first_match m ys, if first_match m ys = NULL then ?hd else first_match m ys)" by simp
  show ?thesis
  proof (cases "xs = []")
    case True
    then have "rd (hmem info) nxt ?hd = Some (hd (ys @ [?hd]))"
      using dring_next_head[OF r] ring_live_head[OF r] by (simp add: live_rd)
    then show ?thesis
      using c True loop key(1) bu(1) by (auto simp: hash_find_def Let_def b)
  next
    case False
    then have xs: "xs = butlast xs @ [cur]" and mc: "m cur" using c append_butlast_last_id[OF False] by auto
    then have "cur \<in> set xs" by (metis in_set_conv_decomp)
    then have lv: "live (hmem info) cur" using ring_live[OF r] by simp
    have r': "ring (hmem info) ?hd (butlast xs @ cur # ys)" using r xs by (metis append.assoc append_Cons append_Nil)
    have "rd (hmem info) nxt cur = Some (hd (ys @ [?hd]))"
      using dring_next[OF r'] lv by (simp add: live_rd)
    then show ?thesis
      using mc mb[of cur] \<open>cur \<in> set xs\<close> loop key(1) bu(1) live_nonnull[OF lv]
      by (simp add: hash_find_def Let_def b)
  qed
qed

text \<open>
  After a search without a result the cursor is the head of the bucket. The next search hands this
  head, which is not inside a client's struct, to \<open>hash_cmp\<close>.
\<close>

lemma hash_find_after_miss:
  assumes "key \<noteq> NULL" and "hash (hmem info) key = Some v" and "nmemb info \<noteq> 0"
    and "cur \<noteq> NULL" and "hash_cmp (hmem info) cur key = None"
  shows "hash_find hash hash_cmp info key cur = None"
  using bucket_mod(1)[where hash = hash and info = info and x = key and v = v, OF assms(2,3)] assms(1,4,5)
  by (simp add: hash_find_def)

subsection \<open>Iteration and the tests\<close>

lemma bucket_loop_path:
  "npath (fld h nxt) p xs hd0 \<Longrightarrow> hd0 \<notin> set xs \<Longrightarrow> (\<And>x w. x \<in> set xs \<Longrightarrow> todo (h, w) x = Some (h, f x w)) \<Longrightarrow>
     bucket_loop todo (h, w) p hd0 = Some (h, fold f xs w)"
proof (induction xs arbitrary: p w)
  case Nil
  then show ?case by (subst bucket_loop.simps) simp
next
  case (Cons x xs)
  then obtain y where y: "p = x" "x \<noteq> NULL" "fld h nxt x = Some y" "npath (fld h nxt) y xs hd0"
    by (auto simp: npath.simps(2) split: option.splits)
  then show ?case
    using Cons.IH[OF y(4)] Cons.prems by (subst bucket_loop.simps) (auto simp: rd_def)
qed

lemma bucket_ring_at:
  assumes inv: "hash_inv info bs" and i: "i < length bs"
  shows "rd (hmem info) nxt (table info + i) = Some (hd (bs ! i @ [table info + i]))"
    and "npath (fld (hmem info) nxt) (hd (bs ! i @ [table info + i])) (bs ! i) (table info + i)"
    and "table info + i \<notin> set (bs ! i)"
    and "list_is_empty (hmem info) (table info + i) = Some (bs ! i = [])"
proof -
  note r = hash_invD(3)[OF inv i]
  show "rd (hmem info) nxt (table info + i) = Some (hd (bs ! i @ [table info + i]))"
    using dring_next_head[OF r] ring_live_head[OF r] by (simp add: live_rd)
  show "npath (fld (hmem info) nxt) (hd (bs ! i @ [table info + i])) (bs ! i) (table info + i)"
    using ring_path(1)[of _ _ "[]" "bs ! i"] r by simp
  show "table info + i \<notin> set (bs ! i)" using dring_distinct[OF r] by simp
  show "list_is_empty (hmem info) (table info + i) = Some (bs ! i = [])" by (rule list_is_empty_ring[OF r])
qed

lemma hash_for_each_loop_inv:
  assumes inv: "hash_inv info bs" and todo: "\<And>x w. x \<in> set (concat bs) \<Longrightarrow> todo (hmem info, w) x = Some (hmem info, f x w)"
  shows "i \<le> length bs \<Longrightarrow> hash_for_each_loop todo (table info) (nmemb info) (hmem info, w) i =
    Some (hmem info, fold f (concat (drop i bs)) w)"
proof (induction "length bs - i" arbitrary: i w)
  case 0
  then show ?case
    using index_less(1)[of "nmemb info" i] hash_invD(1,2)[OF inv]
    by (subst hash_for_each_loop.simps) simp
next
  case (Suc n)
  then have i: "i < length bs" by simp
  have ix: "(of_nat i :: csize) < nmemb info" "inc i = Some (Suc i)"
    using index_less[of "nmemb info" i] hash_invD(1,2)[OF inv] i by simp_all
  note at = bucket_ring_at[OF inv i]
  have "bucket_loop todo (hmem info, w) (hd (bs ! i @ [table info + i])) (table info + i) =
      Some (hmem info, fold f (bs ! i) w)"
    by (rule bucket_loop_path[OF at(2,3)]) (use todo bucket_in[OF i] in blast)
  moreover have "hash_for_each_loop todo (table info) (nmemb info) (hmem info, fold f (bs ! i) w) (Suc i) =
      Some (hmem info, fold f (concat (drop (Suc i) bs)) (fold f (bs ! i) w))"
    using Suc by simp
  ultimately show ?case
    using at(1) ix Cons_nth_drop_Suc[OF i, symmetric] by (subst hash_for_each_loop.simps) simp
qed

lemma hash_for_each_inv:
  assumes "hash_inv info bs" and "\<And>x w. x \<in> set (concat bs) \<Longrightarrow> todo (hmem info, w) x = Some (hmem info, f x w)"
  shows "hash_for_each info todo w = Some (hmem info, fold f (concat bs) w)"
  using hash_for_each_loop_inv[where f = f and todo = todo and i = 0, OF assms] by (simp add: hash_for_each_def)

lemma hash_is_empty_loop_inv:
  assumes inv: "hash_inv info bs"
  shows "i \<le> length bs \<Longrightarrow> hash_is_empty_loop info i = Some (if \<forall>xs \<in> set (drop i bs). xs = [] then 1 else 0)"
    and "i \<le> length bs \<Longrightarrow> hash_is_full_loop info i = Some (if \<exists>xs \<in> set (drop i bs). xs = [] then 1 else 0)"
proof -
  have ix: "(of_nat i :: csize) < nmemb info" "inc i = Some (Suc i)" if "i < length bs" for i
    using index_less[of "nmemb info" i] hash_invD(1,2)[OF inv] that by simp_all
  have iend: "\<not> (of_nat i :: csize) < nmemb info" if "length bs = i" for i
    using index_less(1)[of "nmemb info" i] hash_invD(1,2)[OF inv] that by simp
  show "i \<le> length bs \<Longrightarrow> hash_is_empty_loop info i = Some (if \<forall>xs \<in> set (drop i bs). xs = [] then 1 else 0)"
  proof (induction "length bs - i" arbitrary: i)
    case 0
    then show ?case using iend by (subst hash_is_empty_loop.simps) simp
  next
    case (Suc n)
    then have i: "i < length bs" by simp
    show ?case
      using Suc ix[OF i] bucket_ring_at(4)[OF inv i] Cons_nth_drop_Suc[OF i, symmetric]
      by (subst hash_is_empty_loop.simps) simp
  qed
  show "i \<le> length bs \<Longrightarrow> hash_is_full_loop info i = Some (if \<exists>xs \<in> set (drop i bs). xs = [] then 1 else 0)"
  proof (induction "length bs - i" arbitrary: i)
    case 0
    then show ?case using iend by (subst hash_is_full_loop.simps) simp
  next
    case (Suc n)
    then have i: "i < length bs" by simp
    show ?case
      using Suc ix[OF i] bucket_ring_at(4)[OF inv i] Cons_nth_drop_Suc[OF i, symmetric]
      by (subst hash_is_full_loop.simps) simp
  qed
qed

lemma hash_is_empty_inv: "hash_inv info bs \<Longrightarrow> hash_is_empty info = Some (if concat bs = [] then 1 else 0)"
  using hash_is_empty_loop_inv(1)[of info bs 0] by (simp add: hash_is_empty_def)

text \<open>\<open>hash_is_full\<close> is 1 when some bucket is empty.\<close>

lemma hash_is_full_inv: "hash_inv info bs \<Longrightarrow> hash_is_full info = Some (if [] \<in> set bs then 1 else 0)"
  using hash_is_empty_loop_inv(2)[of info bs 0] by (simp add: hash_is_full_def)

subsection \<open>Creation and destruction\<close>

text \<open>\<open>agree A h h'\<close>: outside \<open>A\<close> the links are the same; the same cells are in use.\<close>

definition agree :: "ptr set \<Rightarrow> 'z list_head_scheme heap \<Rightarrow> 'z list_head_scheme heap \<Rightarrow> bool" where
  "agree A h h' \<longleftrightarrow> (\<forall>q. q \<notin> A \<longrightarrow> fld h' nxt q = fld h nxt q \<and> fld h' prev q = fld h prev q)
     \<and> (\<forall>q. live h' q = live h q)"

lemma agree_trans: "agree A h h1 \<Longrightarrow> agree B h1 h2 \<Longrightarrow> agree (A \<union> B) h h2"
  by (simp add: agree_def)

lemma agree_mono: "agree A h h' \<Longrightarrow> A \<subseteq> B \<Longrightarrow> agree B h h'"
  by (auto simp: agree_def)

lemma agree_ring: "agree A h h' \<Longrightarrow> set (p # xs) \<inter> A = {} \<Longrightarrow> ring h p xs \<Longrightarrow> ring h' p xs"
  using dring_frame[of p xs "fld h' nxt" "fld h nxt" "fld h' prev" "fld h prev"]
  by (auto simp: agree_def)

lemma links_to_agree:
  "links_to h h' N P \<Longrightarrow> (\<And>q. q \<notin> A \<Longrightarrow> N q = fld h nxt q \<and> P q = fld h prev q) \<Longrightarrow> agree A h h'"
  by (simp add: links_to_def agree_def)

lemma hash_init_loop_rings:
  assumes "unat n < 2 ^ 31" and "i \<le> unat n" and "\<forall>j < unat n. live h (tab + j)"
  shows "\<exists>h'. hash_init_loop h tab n i = Some h' \<and> (\<forall>j. i \<le> j \<and> j < unat n \<longrightarrow> ring h' (tab + j) [])
    \<and> agree {tab + i..<tab + unat n} h h'"
  using assms(2,3)
proof (induction "unat n - i" arbitrary: i h)
  case 0
  then show ?case
    using index_less(1)[OF assms(1), of i] by (subst hash_init_loop.simps) (simp add: agree_def)
next
  case (Suc k)
  then have i: "i < unat n" by simp
  obtain h1 where h1: "list_head_init h (tab + i) = Some h1"
    "links_to h h1 ((fld h nxt)(tab + i := Some (tab + i))) ((fld h prev)(tab + i := Some (tab + i)))"
    using list_head_init_links[of h "tab + i"] Suc.prems(2) i by blast
  have a1: "agree {tab + i} h h1" by (rule links_to_agree[OF h1(2)]) simp
  have "\<exists>h'. hash_init_loop h1 tab n (Suc i) = Some h' \<and> (\<forall>j. Suc i \<le> j \<and> j < unat n \<longrightarrow> ring h' (tab + j) [])
    \<and> agree {tab + Suc i..<tab + unat n} h1 h'"
    by (rule Suc.hyps(1)) (use Suc i a1 in \<open>auto simp: agree_def\<close>)
  then obtain h' where h': "hash_init_loop h1 tab n (Suc i) = Some h'"
    "\<And>j. Suc i \<le> j \<Longrightarrow> j < unat n \<Longrightarrow> ring h' (tab + j) []" "agree {tab + Suc i..<tab + unat n} h1 h'" by auto
  have "ring h1 (tab + i) []"
    using h1(2) Suc.prems(2) i live_nonnull[of h "tab + i"] by (simp add: links_to_def)
  then have "ring h' (tab + i) []" by (rule agree_ring[OF h'(3), rotated]) auto
  then have "\<forall>j. i \<le> j \<and> j < unat n \<longrightarrow> ring h' (tab + j) []"
    using h'(2) by (metis le_neq_implies_less Suc_leI)
  moreover have "agree {tab + i..<tab + unat n} h h'"
    by (rule agree_mono[OF agree_trans[OF a1 h'(3)]]) (use i in auto)
  moreover have "hash_init_loop h tab n i = Some h'"
    using index_less[OF assms(1), of i] i h1(1) h'(1) by (subst hash_init_loop.simps) simp
  ultimately show ?case by blast
qed

lemma cells_exact: "unat n < 2 ^ 31 \<Longrightarrow> cells n = unat n"
  by (simp add: cells_def unat_mult_lem[THEN iffD1])

lemma hashtable_init_inv:
  assumes n: "unat n < 2 ^ 31" and m: "malloc_array h (unat n) = (p, h1)" "p \<noteq> NULL"
  shows "\<exists>info. hashtable_init h n = Some (0, info) \<and> hash_inv info (replicate (unat n) []) \<and> nmemb info = n
    \<and> table info = p"
proof -
  have "\<forall>j < unat n. live h1 (p + j)"
    using m by (auto simp: malloc_array_def live_def split: list.splits if_splits)
  then obtain h' where h': "hash_init_loop h1 p n 0 = Some h'" "\<And>j. j < unat n \<Longrightarrow> ring h' (p + j) []"
    using hash_init_loop_rings[OF n, of 0 h1 p] by auto
  have "hash_inv \<lparr>table = p, nmemb = n, hmem = h'\<rparr> (replicate (unat n) [])"
    using n h'(2) by (simp add: hash_inv_def)
  then show ?thesis using m h'(1) cells_exact[OF n] by (simp add: hashtable_init_def)
qed

lemma bucket_clear_ring:
  "ring h hd0 xs \<Longrightarrow> \<exists>h'. bucket_clear_loop h hd0 = Some h' \<and> ring h' hd0 [] \<and> (\<forall>x \<in> set xs. ring h' x [])
     \<and> agree (set (hd0 # xs)) h h'"
proof (induction xs arbitrary: h)
  case Nil
  then show ?case
    using list_is_empty_ring[OF Nil] by (subst bucket_clear_loop.simps) (simp add: agree_def)
next
  case (Cons x xs)
  obtain h1 where h1: "list_del_init h x = Some h1" "ring h1 hd0 xs" "ring h1 x []"
    "links_to h h1 ((fld h nxt)(hd0 := Some (hd (xs @ [hd0])), x := Some x))
        ((fld h prev)(hd (xs @ [hd0]) := Some hd0, x := Some x))"
    using list_del_init_ring[of h hd0 "[]" x xs] Cons.prems by auto
  have a1: "agree (set (hd0 # x # xs)) h h1"
    by (rule links_to_agree[OF h1(4)]) (use hd_snoc_in[of xs hd0] in auto)
  obtain h' where h': "bucket_clear_loop h1 hd0 = Some h'" "ring h' hd0 []" "\<forall>x \<in> set xs. ring h' x []"
    "agree (set (hd0 # xs)) h1 h'"
    using Cons.IH[OF h1(2)] by blast
  have "x \<notin> set (hd0 # xs)" using dring_distinct[OF Cons.prems] by auto
  then have "ring h' x []" by (intro agree_ring[OF h'(4) _ h1(3)]) auto
  moreover have "rd h nxt hd0 = Some x"
    using dring_next_head[OF Cons.prems] ring_live_head[OF Cons.prems] by (simp add: live_rd)
  then have "bucket_clear_loop h hd0 = Some h'"
    using list_is_empty_ring[OF Cons.prems] h1(1) h'(1) by (subst bucket_clear_loop.simps) simp
  moreover have "agree (set (hd0 # x # xs)) h h'"
    by (rule agree_mono[OF agree_trans[OF a1 h'(4)]]) auto
  ultimately show ?case using h'(2,3) by auto
qed

lemma hash_destroy_loop_rings:
  assumes inv: "hash_inv info bs"
  shows "i \<le> length bs \<Longrightarrow> \<forall>j. i \<le> j \<and> j < length bs \<longrightarrow> ring h (table info + j) (bs ! j) \<Longrightarrow>
    \<exists>h'. hash_destroy_loop (table info) (nmemb info) h i = Some h'
      \<and> (\<forall>x \<in> set (concat (drop i bs)). ring h' x [])
      \<and> agree (\<Union>j \<in> {i..<length bs}. set ((table info + j) # bs ! j)) h h'"
proof (induction "length bs - i" arbitrary: i h)
  case 0
  then show ?case
    using index_less(1)[of "nmemb info" i] hash_invD(1,2)[OF inv]
    by (subst hash_destroy_loop.simps) (simp add: agree_def)
next
  case (Suc n)
  then have i: "i < length bs" by simp
  have ix: "(of_nat i :: csize) < nmemb info" "inc i = Some (Suc i)"
    using index_less[of "nmemb info" i] hash_invD(1,2)[OF inv] i by simp_all
  obtain h1 where h1: "bucket_clear_loop h (table info + i) = Some h1" "\<forall>x \<in> set (bs ! i). ring h1 x []"
    "agree (set ((table info + i) # bs ! i)) h h1"
    using bucket_clear_ring[of h "table info + i" "bs ! i"] Suc.prems i by blast
  have apart: "set ((table info + j) # bs ! j) \<inter> set ((table info + i) # bs ! i) = {}"
    if "j < length bs" "j \<noteq> i" for j
    using bucket_disjoint[OF hash_invD(4)[OF inv] that(1) i that(2)] head_no_node[OF inv] that i by auto
  have "ring h1 (table info + j) (bs ! j)" if "Suc i \<le> j" "j < length bs" for j
    using agree_ring[OF h1(3) apart] Suc.prems(2) that by simp
  then have later: "\<forall>j. Suc i \<le> j \<and> j < length bs \<longrightarrow> ring h1 (table info + j) (bs ! j)" by blast
  have "n = length bs - Suc i" "Suc i \<le> length bs" using Suc.hyps(2) i by simp_all
  from Suc.hyps(1)[OF this later] obtain h' where
    h': "hash_destroy_loop (table info) (nmemb info) h1 (Suc i) = Some h'"
    "\<forall>x \<in> set (concat (drop (Suc i) bs)). ring h' x []"
    "agree (\<Union>j \<in> {Suc i..<length bs}. set ((table info + j) # bs ! j)) h1 h'" by blast
  have "ring h' x []" if x: "x \<in> set (bs ! i)" for x
  proof (rule agree_ring[OF h'(3)])
    show "ring h1 x []" using h1(2) x by blast
    show "set [x] \<inter> (\<Union>j \<in> {Suc i..<length bs}. set ((table info + j) # bs ! j)) = {}"
      using apart x by fastforce
  qed
  then have "\<forall>x \<in> set (concat (drop i bs)). ring h' x []"
    using h'(2) by (simp add: Cons_nth_drop_Suc[OF i, symmetric] ball_Un)
  moreover have "agree (\<Union>j \<in> {i..<length bs}. set ((table info + j) # bs ! j)) h h'"
  proof (rule agree_mono[OF agree_trans[OF h1(3) h'(3)]])
    have "{i..<length bs} = insert i {Suc i..<length bs}" using i by auto
    then show "set ((table info + i) # bs ! i) \<union> (\<Union>j \<in> {Suc i..<length bs}. set ((table info + j) # bs ! j))
      \<subseteq> (\<Union>j \<in> {i..<length bs}. set ((table info + j) # bs ! j))" by (simp only: UN_insert subset_refl)
  qed
  moreover have "hash_destroy_loop (table info) (nmemb info) h i = Some h'"
    using ix h1(1) h'(1) by (subst hash_destroy_loop.simps) simp
  ultimately show ?case by blast
qed

text \<open>Destroying the table frees the heads and leaves every element a ring of its own.\<close>

lemma hashtable_destroy_inv:
  assumes inv: "hash_inv info bs"
  shows "\<exists>info'. hashtable_destroy info = Some (0, info') \<and> (\<forall>x \<in> set (concat bs). ring (hmem info') x [])
    \<and> (\<forall>p \<in> set (heads info). mem (hmem info') p = None)"
proof -
  obtain h' where h': "hash_destroy_loop (table info) (nmemb info) (hmem info) 0 = Some h'"
    "\<forall>x \<in> set (concat bs). ring h' x []"
    using hash_destroy_loop_rings[OF inv, of 0 "hmem info"] hash_invD(3)[OF inv] by auto
  define h2 where "h2 = free_array h' (table info) (cells (nmemb info))"
  have c: "cells (nmemb info) = length bs" using cells_exact hash_invD(1,2)[OF inv] by simp
  have "ring h2 x []" if x: "x \<in> set (concat bs)" for x
  proof -
    have "x \<notin> set (heads info)" using hash_invD(5)[OF inv] x by blast
    then have "\<not> (table info \<le> x \<and> x < table info + length bs)"
      using hash_invD(1)[OF inv] by (auto simp: heads_def)
    then show ?thesis using h'(2) x by (auto simp: h2_def free_array_def fld_def c)
  qed
  moreover have "mem h2 p = None" if "p \<in> set (heads info)" for p
    using that hash_invD(1)[OF inv] by (auto simp: h2_def heads_def free_array_def c)
  moreover have "hashtable_destroy info = Some (0, info\<lparr>hmem := h2\<rparr>)"
    using h'(1) by (simp add: hashtable_destroy_def h2_def)
  ultimately show ?thesis by (intro exI[of _ "info\<lparr>hmem := h2\<rparr>"]) simp
qed

end
