(* ===== verification/SortArray.thy ===== *)
theory SortArray
  imports Compare
begin

section \<open>Sorting arrays (07Sort/sort_arrary.c)\<close>

text \<open>
  The routines sort \<open>nmemb\<close> elements of \<open>size\<close> bytes through \<open>memcpy\<close>; the bytes of an element are only
  moved as a whole and read by the comparison, so an array is a list of elements and \<open>NtoPTR(i)\<close> the
  index \<open>i\<close>; an index out of range is None. \<open>cmp\<close> is the client's comparison, which may be undefined.
  \<open>ok\<close> says whether the allocator serves the scratch element: \<open>swap\<close> writes through NULL when it does
  not, the other routines stop in an \<open>assert\<close>.

  An index of type \<open>int\<close> that stays non-negative is a natural number, and \<open>inc\<close> is undefined where it
  would overflow; where the code lets an index run to -1 or below, the model keeps the index of the
  free position above it instead, as the comments say.
\<close>

definition get :: "'a list \<Rightarrow> nat \<Rightarrow> 'a option" where
  "get xs i = (if i < length xs then Some (xs ! i) else None)"

definition put :: "'a list \<Rightarrow> nat \<Rightarrow> 'a \<Rightarrow> 'a list option" where
  "put xs i x = (if i < length xs then Some (xs[i := x]) else None)"

definition swap :: "bool \<Rightarrow> 'a list \<Rightarrow> nat \<Rightarrow> nat \<Rightarrow> 'a list option" where
  "swap ok xs i j = (if \<not> ok then None else do {
     tmp \<leftarrow> get xs i;
     b \<leftarrow> get xs j;
     xs \<leftarrow> put xs i b;
     put xs j tmp
   })"

function bubble_inner :: "bool \<Rightarrow> ('a \<Rightarrow> 'a \<Rightarrow> int option) \<Rightarrow> 'a list \<Rightarrow> nat \<Rightarrow> nat \<Rightarrow> 'a list option" where
  "bubble_inner ok cmp xs start end0 =
     (if start < end0 then do {
        a \<leftarrow> get xs start;
        b \<leftarrow> get xs (start + 1);
        r \<leftarrow> cmp a b;
        xs \<leftarrow> (if r > 0 then swap ok xs start (start + 1) else Some xs);
        bubble_inner ok cmp xs (start + 1) end0
      } else Some xs)"
  by pat_completeness auto
termination
  by (relation "measure (\<lambda>(ok, cmp, xs, start, end0). end0 - start)") auto

declare bubble_inner.simps [simp del]

text \<open>\<open>for (end = nmemb - 1; end >= 1; --end)\<close>; \<open>end\<close> is an \<open>int\<close>.\<close>

fun bubble_outer :: "bool \<Rightarrow> ('a \<Rightarrow> 'a \<Rightarrow> int option) \<Rightarrow> 'a list \<Rightarrow> nat \<Rightarrow> 'a list option" where
  "bubble_outer ok cmp xs 0 = Some xs"
| "bubble_outer ok cmp xs (Suc e) = do {
     xs \<leftarrow> bubble_inner ok cmp xs 0 (Suc e);
     bubble_outer ok cmp xs e
   }"

definition bubble_sort :: "bool \<Rightarrow> ('a \<Rightarrow> 'a \<Rightarrow> int option) \<Rightarrow> csize \<Rightarrow> 'a list \<Rightarrow> 'a list option" where
  "bubble_sort ok cmp nmemb xs = bubble_outer ok cmp xs (nat (sint (ucast (nmemb - 1) :: cint)))"

function select_min :: "('a \<Rightarrow> 'a \<Rightarrow> int option) \<Rightarrow> 'a list \<Rightarrow> nat \<Rightarrow> nat \<Rightarrow> nat \<Rightarrow> nat option" where
  "select_min cmp xs min0 j n =
     (if j < n then do {
        a \<leftarrow> get xs j;
        b \<leftarrow> get xs min0;
        r \<leftarrow> cmp a b;
        select_min cmp xs (if r < 0 then j else min0) (j + 1) n
      } else Some min0)"
  by pat_completeness auto
termination
  by (relation "measure (\<lambda>(cmp, xs, min0, j, n). n - j)") auto

declare select_min.simps [simp del]

text \<open>The bound \<open>nmemb - 1\<close> wraps for an empty array.\<close>

function select_loop :: "bool \<Rightarrow> ('a \<Rightarrow> 'a \<Rightarrow> int option) \<Rightarrow> 'a list \<Rightarrow> nat \<Rightarrow> csize \<Rightarrow> 'a list option" where
  "select_loop ok cmp xs i nmemb =
     (if i < unat (nmemb - 1) then do {
        min0 \<leftarrow> select_min cmp xs i (i + 1) (unat nmemb);
        xs \<leftarrow> (if min0 \<noteq> i then swap ok xs i min0 else Some xs);
        select_loop ok cmp xs (i + 1) nmemb
      } else Some xs)"
  by pat_completeness auto
termination
  by (relation "measure (\<lambda>(ok, cmp, xs, i, nmemb). unat (nmemb - 1) - i)") auto

declare select_loop.simps [simp del]

definition select_sort :: "bool \<Rightarrow> ('a \<Rightarrow> 'a \<Rightarrow> int option) \<Rightarrow> csize \<Rightarrow> 'a list \<Rightarrow> 'a list option" where
  "select_sort ok cmp nmemb xs = select_loop ok cmp xs 0 nmemb"

text \<open>
  The inner loop of \<open>insert_sort\<close>, \<open>for (; j >= 0; --j)\<close>: the argument is \<open>j + 1\<close>, the free position. The
  scratch buffer is not freed.
\<close>

fun insert_shift :: "('a \<Rightarrow> 'a \<Rightarrow> int option) \<Rightarrow> 'a list \<Rightarrow> 'a \<Rightarrow> nat \<Rightarrow> ('a list \<times> nat) option" where
  "insert_shift cmp xs buf 0 = Some (xs, 0)"
| "insert_shift cmp xs buf (Suc j) = do {
     a \<leftarrow> get xs j;
     r \<leftarrow> cmp a buf;
     (if r > 0 then do { xs \<leftarrow> put xs (Suc j) a; insert_shift cmp xs buf j }
      else Some (xs, Suc j))
   }"

partial_function (option) insert_loop :: "('a \<Rightarrow> 'a \<Rightarrow> int option) \<Rightarrow> 'a list \<Rightarrow> nat \<Rightarrow> csize \<Rightarrow> 'a list option" where
  "insert_loop cmp xs i nmemb =
     (if of_nat i < nmemb then do {
        x \<leftarrow> get xs i;
        a \<leftarrow> get xs (i - 1);
        r \<leftarrow> cmp x a;
        xs \<leftarrow> (if r \<ge> 0 then Some xs
          else do { (xs, p) \<leftarrow> insert_shift cmp xs x i; put xs p x });
        i \<leftarrow> inc i;
        insert_loop cmp xs i nmemb
      } else Some xs)"

definition insert_sort :: "bool \<Rightarrow> ('a \<Rightarrow> 'a \<Rightarrow> int option) \<Rightarrow> csize \<Rightarrow> 'a list \<Rightarrow> 'a list option" where
  "insert_sort ok cmp nmemb xs = (if \<not> ok then None else insert_loop cmp xs 1 nmemb)"

text \<open>
  \<open>shell_sort\<close> sorts the elements at distance 3, then 2, then 1. In \<open>for (; k >= offset; k -= step[i])\<close>
  the index \<open>k\<close> runs below 0; the argument is the free position \<open>p = k + step[i]\<close>, and \<open>k >= offset\<close> is
  \<open>offset + step[i] <= p\<close>. \<open>j += step[i]\<close> converts back to \<open>int\<close>.
\<close>

function shell_shift :: "('a \<Rightarrow> 'a \<Rightarrow> int option) \<Rightarrow> 'a list \<Rightarrow> 'a \<Rightarrow> nat \<Rightarrow> nat \<Rightarrow> nat \<Rightarrow> ('a list \<times> nat) option" where
  "shell_shift cmp xs buf offset step p =
     (if offset + step \<le> p \<and> 0 < step then do {
        a \<leftarrow> get xs (p - step);
        r \<leftarrow> cmp a buf;
        (if r > 0 then do { xs \<leftarrow> put xs p a; shell_shift cmp xs buf offset step (p - step) }
         else Some (xs, p))
      } else Some (xs, p))"
  by pat_completeness auto
termination
  by (relation "measure (\<lambda>(cmp, xs, buf, offset, step, p). p)") auto

declare shell_shift.simps [simp del]

partial_function (option) shell_loop ::
    "('a \<Rightarrow> 'a \<Rightarrow> int option) \<Rightarrow> 'a list \<Rightarrow> nat \<Rightarrow> nat \<Rightarrow> nat \<Rightarrow> csize \<Rightarrow> 'a list option" where
  "shell_loop cmp xs offset step j nmemb =
     (if of_nat j < nmemb then do {
        x \<leftarrow> get xs j;
        a \<leftarrow> get xs (j - step);
        r \<leftarrow> cmp x a;
        xs \<leftarrow> (if r \<ge> 0 then Some xs
          else do { (xs, p) \<leftarrow> shell_shift cmp xs x offset step j; put xs p x });
        (if j + step < 2 ^ 31 then shell_loop cmp xs offset step (j + step) nmemb else None)
      } else Some xs)"

fun shell_offsets :: "('a \<Rightarrow> 'a \<Rightarrow> int option) \<Rightarrow> 'a list \<Rightarrow> nat list \<Rightarrow> nat \<Rightarrow> csize \<Rightarrow> 'a list option" where
  "shell_offsets cmp xs [] step nmemb = Some xs"
| "shell_offsets cmp xs (offset # os) step nmemb = do {
     xs \<leftarrow> shell_loop cmp xs offset step (offset + step) nmemb;
     shell_offsets cmp xs os step nmemb
   }"

fun shell_steps :: "('a \<Rightarrow> 'a \<Rightarrow> int option) \<Rightarrow> 'a list \<Rightarrow> nat list \<Rightarrow> csize \<Rightarrow> 'a list option" where
  "shell_steps cmp xs [] nmemb = Some xs"
| "shell_steps cmp xs (step # ss) nmemb = do {
     xs \<leftarrow> shell_offsets cmp xs [0..<step] step nmemb;
     shell_steps cmp xs ss nmemb
   }"

definition shell_sort :: "bool \<Rightarrow> ('a \<Rightarrow> 'a \<Rightarrow> int option) \<Rightarrow> csize \<Rightarrow> 'a list \<Rightarrow> 'a list option" where
  "shell_sort ok cmp nmemb xs = (if \<not> ok then None else shell_steps cmp xs [3, 2, 1] nmemb)"

text \<open>
  \<open>__merge_sort(base, nmemb)\<close> on the part of the array from \<open>b\<close> on; \<open>buf\<close> is the second array. \<open>copy\<close> is
  a \<open>memcpy\<close> of several elements.
\<close>

fun copy :: "'a list \<Rightarrow> nat \<Rightarrow> 'a list \<Rightarrow> nat \<Rightarrow> nat \<Rightarrow> 'a list option" where
  "copy dst d src s 0 = Some dst"
| "copy dst d src s (Suc n) = do { x \<leftarrow> get src s; dst \<leftarrow> put dst d x; copy dst (Suc d) src (Suc s) n }"

function merge_loop ::
    "('a \<Rightarrow> 'a \<Rightarrow> int option) \<Rightarrow> 'a list \<Rightarrow> nat \<Rightarrow> nat \<Rightarrow> 'a list \<Rightarrow> nat \<Rightarrow> nat \<Rightarrow> nat \<Rightarrow>
     ('a list \<times> nat \<times> nat \<times> nat) option" where
  "merge_loop cmp xs b n buf l r i =
     (if l < n div 2 \<and> r < n then do {
        x \<leftarrow> get xs (b + l);
        y \<leftarrow> get xs (b + r);
        c \<leftarrow> cmp x y;
        (if c < 0 then do { buf \<leftarrow> put buf i x; merge_loop cmp xs b n buf (l + 1) r (i + 1) }
         else do { buf \<leftarrow> put buf i y; merge_loop cmp xs b n buf l (r + 1) (i + 1) })
      } else Some (buf, l, r, i))"
  by pat_completeness auto
termination
  by (relation "measure (\<lambda>(cmp, xs, b, n, buf, l, r, i). (n - l) + (n - r))") auto

declare merge_loop.simps [simp del]

function merge_rec ::
    "('a \<Rightarrow> 'a \<Rightarrow> int option) \<Rightarrow> 'a list \<Rightarrow> 'a list \<Rightarrow> nat \<Rightarrow> nat \<Rightarrow> ('a list \<times> 'a list) option" where
  "merge_rec cmp xs buf b n =
     (if n \<le> 1 then Some (xs, buf)
      else do {
        (xs, buf) \<leftarrow> merge_rec cmp xs buf b (n div 2);
        (xs, buf) \<leftarrow> merge_rec cmp xs buf (b + n div 2) (n - n div 2);
        (buf, l, r, i) \<leftarrow> merge_loop cmp xs b n buf 0 (n div 2) 0;
        buf \<leftarrow> (if l < n div 2 then copy buf i xs (b + l) (n div 2 - l) else copy buf i xs (b + r) (n - r));
        xs \<leftarrow> copy xs b buf 0 n;
        Some (xs, buf)
      })"
  by pat_completeness auto
termination
  by (relation "measure (\<lambda>(cmp, xs, buf, b, n). n)") auto

declare merge_rec.simps [simp del]

text \<open>\<open>zero\<close> is the element of zero bytes that \<open>calloc\<close> delivers.\<close>

definition merge_sort :: "'a \<Rightarrow> bool \<Rightarrow> ('a \<Rightarrow> 'a \<Rightarrow> int option) \<Rightarrow> csize \<Rightarrow> 'a list \<Rightarrow> 'a list option" where
  "merge_sort zero ok cmp nmemb xs = (if \<not> ok then None else do {
     (xs, buf) \<leftarrow> merge_rec cmp xs (replicate (unat nmemb) zero) 0 (unat nmemb);
     Some xs
   })"

function quick_right ::
    "('a \<Rightarrow> 'a \<Rightarrow> int option) \<Rightarrow> 'a list \<Rightarrow> nat \<Rightarrow> 'a \<Rightarrow> nat \<Rightarrow> nat \<Rightarrow> ('a list \<times> nat \<times> nat) option" where
  "quick_right cmp xs b buf l r =
     (if l < r then do {
        x \<leftarrow> get xs (b + r);
        c \<leftarrow> cmp x buf;
        (if c < 0 then do { xs \<leftarrow> put xs (b + l) x; Some (xs, l + 1, r) }
         else quick_right cmp xs b buf l (r - 1))
      } else Some (xs, l, r))"
  by pat_completeness auto
termination
  by (relation "measure (\<lambda>(cmp, xs, b, buf, l, r). r)") auto

function quick_left ::
    "('a \<Rightarrow> 'a \<Rightarrow> int option) \<Rightarrow> 'a list \<Rightarrow> nat \<Rightarrow> 'a \<Rightarrow> nat \<Rightarrow> nat \<Rightarrow> ('a list \<times> nat \<times> nat) option" where
  "quick_left cmp xs b buf l r =
     (if l < r then do {
        x \<leftarrow> get xs (b + l);
        c \<leftarrow> cmp x buf;
        (if c > 0 then do { xs \<leftarrow> put xs (b + r) x; Some (xs, l, r - 1) }
         else quick_left cmp xs b buf (l + 1) r)
      } else Some (xs, l, r))"
  by pat_completeness auto
termination
  by (relation "measure (\<lambda>(cmp, xs, b, buf, l, r). r - l)") auto

declare quick_right.simps [simp del] quick_left.simps [simp del]

partial_function (option) quick_part ::
    "('a \<Rightarrow> 'a \<Rightarrow> int option) \<Rightarrow> 'a list \<Rightarrow> nat \<Rightarrow> 'a \<Rightarrow> nat \<Rightarrow> nat \<Rightarrow> ('a list \<times> nat) option" where
  "quick_part cmp xs b buf l r =
     (if l < r then do {
        (xs, l, r) \<leftarrow> quick_right cmp xs b buf l r;
        (xs, l, r) \<leftarrow> quick_left cmp xs b buf l r;
        quick_part cmp xs b buf l r
      } else Some (xs, l))"

partial_function (option) quick_rec ::
    "('a \<Rightarrow> 'a \<Rightarrow> int option) \<Rightarrow> 'a list \<Rightarrow> nat \<Rightarrow> nat \<Rightarrow> 'a list option" where
  "quick_rec cmp xs b n =
     (if n < 2 then Some xs
      else do {
        buf \<leftarrow> get xs b;
        (xs, l) \<leftarrow> quick_part cmp xs b buf 0 (n - 1);
        xs \<leftarrow> put xs (b + l) buf;
        xs \<leftarrow> quick_rec cmp xs b l;
        quick_rec cmp xs (b + (l + 1)) (n - l - 1)
      })"

definition quick_sort :: "bool \<Rightarrow> ('a \<Rightarrow> 'a \<Rightarrow> int option) \<Rightarrow> csize \<Rightarrow> 'a list \<Rightarrow> 'a list option" where
  "quick_sort ok cmp nmemb xs = (if \<not> ok then None else quick_rec cmp xs 0 (unat nmemb))"

text \<open>The client: persons compared by age.\<close>

record person_info =
  pname :: string
  page :: int

definition cmp_age :: "person_info \<Rightarrow> person_info \<Rightarrow> int option" where
  "cmp_age a b = (let d = page a - page b in if - (2 ^ 31) \<le> d \<and> d < 2 ^ 31 then Some d else None)"


subsection \<open>Array accesses\<close>

lemma ucast_mask_m1: "(ucast (- 1 :: csize) :: cint) = - 1"
  by (simp add: unsigned_minus_1_eq_mask) (transfer, simp add: mask_eq_exp_minus_1)

lemma sint_ucast_small:
  assumes "unat (w :: csize) < 2 ^ 31"
  shows "sint (ucast w :: cint) = int (unat w)"
proof -
  have "int (unat w) < int (2 ^ 31)" using assms by (simp only: of_nat_less_iff)
  then have "uint w < 2 ^ 31" by simp
  then have "uint (ucast w :: cint) = uint w" by (simp add: unsigned_ucast_eq take_bit_int_eq_self)
  then show ?thesis
    using \<open>uint w < 2 ^ 31\<close> order_trans[of "- (2 ^ 31)" 0 "uint w"]
    by (simp add: sint_uint signed_take_bit_int_eq_self)
qed

lemma get_mid [simp]: "i = length pre \<Longrightarrow> get (pre @ x # post) i = Some x"
  by (simp add: get_def)

lemma get_mid2 [simp]: "i = Suc (length pre) \<Longrightarrow> get (pre @ x # y # post) i = Some y"
  by (simp add: get_def nth_append)

lemma put_mid [simp]: "i = length pre \<Longrightarrow> put (pre @ x # post) i y = Some (pre @ y # post)"
  by (simp add: put_def list_update_append)

lemma get_nth: "i < length xs \<Longrightarrow> get xs i = Some (xs ! i)"
  by (simp add: get_def)

lemma put_nth: "i < length xs \<Longrightarrow> put xs i x = Some (xs[i := x])"
  by (simp add: put_def)

lemma swap_nth:
  "i < length xs \<Longrightarrow> j < length xs \<Longrightarrow> swap True xs i j = Some (xs[i := xs ! j, j := xs ! i])"
  by (simp add: swap_def get_def put_def)

lemma swap_mset:
  "i < length xs \<Longrightarrow> j < length xs \<Longrightarrow> mset (xs[i := xs ! j, j := xs ! i]) = mset xs"
  by (metis mset_swap)

lemma swap_mid: "i = length pre \<Longrightarrow> swap True (pre @ x # y # post) i (Suc i) = Some (pre @ y # x # post)"
  by (simp add: swap_def list_update_append nth_append get_def put_def)

text \<open>The array with the saved element put back into its free position is a permutation.\<close>

lemma hole_move:
  assumes "p < length xs" and "q < length xs" and "p \<noteq> q"
  shows "mset (xs[p := xs ! q, q := x]) = mset (xs[p := x])"
  using swap_mset[of p "xs[p := x]" q] assms by (simp add: nth_list_update)

context compare
begin

subsection \<open>Bubble sort\<close>

lemma bubble_inner_max:
  assumes "agrees key f (set (x # ys))" and "i = length pre" and "e = length pre + length ys"
  shows "\<exists>zs m. bubble_inner True f (pre @ x # ys @ post) i e = Some (pre @ zs @ m # post)
    \<and> mset (zs @ [m]) = mset (x # ys) \<and> (\<forall>z \<in> set zs. cmp (key z) (key m) \<le> 0)"
  using assms
proof (induction ys arbitrary: x pre i)
  case Nil
  then show ?case by (auto simp: bubble_inner.simps intro: exI[of _ "[]"])
next
  case (Cons y ys)
  have f: "f x y = Some (cmp (key x) (key y))" using agreesD[OF Cons.prems(1)] by simp
  define a b where "a = (if cmp (key x) (key y) > 0 then y else x)" and "b = (if cmp (key x) (key y) > 0 then x else y)"
  have ab: "cmp (key a) (key b) \<le> 0" "{a, b} = {x, y}" "add_mset a {#b#} = {#x, y#}"
    unfolding a_def b_def using le_total(2)[OF Cons.prems(1), of x y] by auto
  have ag: "agrees key f (set (b # ys))" using Cons.prems(1) ab(2) unfolding agrees_def by fastforce
  obtain zs m where zs: "bubble_inner True f ((pre @ [a]) @ b # ys @ post) (Suc i) e = Some ((pre @ [a]) @ zs @ m # post)"
      "mset (zs @ [m]) = mset (b # ys)" "\<forall>z \<in> set zs. cmp (key z) (key m) \<le> 0"
    using Cons.IH[OF ag, of "Suc i" "pre @ [a]"] Cons.prems(2,3) by auto
  have sets: "insert m (set zs) = insert b (set ys)"
    using arg_cong[OF zs(2), of set_mset] by simp
  have bm: "cmp (key b) (key m) \<le> 0"
  proof (cases "b = m")
    case True
    then show ?thesis using cmp_refl agrees_K[OF ag, of b] by simp
  next
    case False
    then show ?thesis using sets zs(3) by blast
  qed
  have inS: "a \<in> set (x # y # ys)" "b \<in> set (x # y # ys)" "m \<in> set (x # y # ys)"
    using ab(2) sets by auto
  have "bubble_inner True f (pre @ x # (y # ys) @ post) i e = Some (pre @ (a # zs) @ m # post)"
    using zs(1) Cons.prems(2,3) f by (subst bubble_inner.simps) (auto simp: swap_mid a_def b_def split: if_splits)
  moreover have "mset ((a # zs) @ [m]) = mset (x # y # ys)"
  proof -
    have "mset ((a # zs) @ [m]) = add_mset a {#b#} + mset ys" using zs(2) by simp
    then show ?thesis by (simp add: ab(3))
  qed
  moreover have "\<forall>z \<in> set (a # zs). cmp (key z) (key m) \<le> 0"
    using zs(3) le_trans[OF Cons.prems(1) inS ab(1) bm] by simp
  ultimately show ?case by blast
qed

lemma bubble_outer_sorts:
  assumes "agrees key f (set (ys @ post))" and "ordered key post"
    and "\<forall>y \<in> set ys. \<forall>z \<in> set post. cmp (key y) (key z) \<le> 0" and "length ys = Suc e"
  shows "\<exists>zs. bubble_outer True f (ys @ post) e = Some zs \<and> sorts key (ys @ post) zs"
  using assms
proof (induction e arbitrary: ys post)
  case 0
  then obtain y where "ys = [y]" by (cases ys) auto
  then show ?case using 0 by (auto simp: sorts_def)
next
  case (Suc e)
  obtain x us where ys: "ys = x # us" using Suc.prems(4) by (cases ys) auto
  have "agrees key f (set (x # us))" using Suc.prems(1) ys by (auto simp: agrees_def)
  then obtain zs m where zs: "bubble_inner True f ([] @ x # us @ post) 0 (Suc e) = Some ([] @ zs @ m # post)"
      "mset (zs @ [m]) = mset ys" "\<forall>z \<in> set zs. cmp (key z) (key m) \<le> 0"
    using bubble_inner_max[of key f x us 0 "[]" "Suc e" post] Suc.prems(4) ys by auto
  have sets: "set ys = insert m (set zs)" using arg_cong[OF zs(2), of set_mset] by simp
  have len: "length zs = Suc e" using arg_cong[OF zs(2), of size] Suc.prems(4) by simp
  obtain rs where rs: "bubble_outer True f (zs @ m # post) e = Some rs" "sorts key (zs @ m # post) rs"
    using Suc.IH[of zs "m # post"] Suc.prems zs(3) sets len by auto
  have "mset (zs @ m # post) = mset (ys @ post)" using zs(2) by (simp flip: zs(2))
  then show ?case using rs zs(1) ys by (auto simp: sorts_def)
qed

lemma bubble_sort_sorts:
  assumes "agrees key f (set xs)" and "unat n = length xs" and "length xs < 2 ^ 31"
  shows "\<exists>zs. bubble_sort True f n xs = Some zs \<and> sorts key xs zs"
proof (cases xs)
  case Nil
  then have "n = 0" using assms(2) by (simp add: unat_eq_zero)
  then have "sint (ucast (n - 1) :: cint) = -1" using ucast_mask_m1 by simp
  then show ?thesis using Nil by (simp add: bubble_sort_def sorts_def)
next
  case (Cons y ys)
  have "n \<noteq> 0" using assms(2) Cons by auto
  then have u: "unat (n - 1) = length ys" using assms(2) Cons by (simp add: unat_minus_one)
  have "sint (ucast (n - 1) :: cint) = int (length ys)" using sint_ucast_small[of "n - 1"] unfolding u using assms(3) Cons by simp
  then show ?thesis
    using bubble_outer_sorts[of key f xs "[]" "length ys"] assms Cons by (simp add: bubble_sort_def)
qed

subsection \<open>Selection sort\<close>

lemma select_min_least:
  assumes "agrees key f (set xs)" and "i \<le> m" and "m < j" and "j \<le> length xs"
    and "\<forall>k \<in> {i..<j}. cmp (key (xs ! m)) (key (xs ! k)) \<le> 0"
  shows "\<exists>m'. select_min f xs m j (length xs) = Some m' \<and> i \<le> m' \<and> m' < length xs
    \<and> (\<forall>k \<in> {i..<length xs}. cmp (key (xs ! m')) (key (xs ! k)) \<le> 0)"
  using assms
proof (induction "length xs - j" arbitrary: j m)
  case 0
  then show ?case by (auto simp: select_min.simps)
next
  case (Suc d)
  have j: "j < length xs" using Suc.hyps(2) by simp
  have f: "f (xs ! j) (xs ! m) = Some (cmp (key (xs ! j)) (key (xs ! m)))"
    using agreesD[OF Suc.prems(1)] j Suc.prems(3) by simp
  define m' where "m' = (if cmp (key (xs ! j)) (key (xs ! m)) < 0 then j else m)"
  have inS: "\<And>k. k < length xs \<Longrightarrow> xs ! k \<in> set xs" by simp
  have le: "cmp (key (xs ! m')) (key (xs ! k)) \<le> 0" if "k \<in> {i..<Suc j}" for k
  proof (cases "k = j")
    case True
    then show ?thesis
      using cmp_refl[of "key (xs ! j)"] le_total(3)[OF Suc.prems(1), of "xs ! j" "xs ! m"] j Suc.prems(3)
        agrees_K[OF Suc.prems(1) inS[OF j]] by (auto simp: m'_def)
  next
    case False
    then have "cmp (key (xs ! m)) (key (xs ! k)) \<le> 0" using Suc.prems(5) that by simp
    then show ?thesis
      using le_trans[OF Suc.prems(1), of "xs ! j" "xs ! m" "xs ! k"] j Suc.prems(3) that False
      by (auto simp: m'_def)
  qed
  have "\<exists>m''. select_min f xs m' (Suc j) (length xs) = Some m'' \<and> i \<le> m'' \<and> m'' < length xs
      \<and> (\<forall>k \<in> {i..<length xs}. cmp (key (xs ! m'')) (key (xs ! k)) \<le> 0)"
    using Suc.hyps(1)[of "Suc j" m'] Suc.hyps(2) Suc.prems(1-4) le j unfolding m'_def
    by (auto split: if_splits)
  moreover have "select_min f xs m j (length xs) = select_min f xs m' (Suc j) (length xs)"
    using j Suc.prems(3) f by (subst select_min.simps) (simp add: get_nth m'_def)
  ultimately show ?case by simp
qed

lemma select_loop_sorts:
  assumes "agrees key f (set xs)" and "unat n = length xs" and "0 < length xs" and "i < length xs"
    and "ordered key (take i xs)" and "\<forall>x \<in> set (take i xs). \<forall>y \<in> set (drop i xs). cmp (key x) (key y) \<le> 0"
  shows "\<exists>zs. select_loop True f xs i n = Some zs \<and> sorts key xs zs"
  using assms
proof (induction "length xs - i" arbitrary: i xs)
  case 0
  then show ?case by simp
next
  case (Suc d)
  have "n \<noteq> 0" using Suc.prems(2,3) by auto
  then have u: "unat (n - 1) = length xs - 1" using Suc.prems(2) by (simp add: unat_minus_one)
  show ?case
  proof (cases "i < length xs - 1")
    case False
    then have "i = length xs - 1" using Suc.prems(4) by simp
    then obtain x where "drop i xs = [x]" using Suc.prems(3) by (metis Cons_nth_drop_Suc Suc.prems(4) Suc_pred' drop_all order_refl)
    then have "ordered key (take i xs @ drop i xs)"
      using Suc.prems(5,6) by (simp add: ordered_append)
    then show ?thesis using False u by (subst select_loop.simps) (simp add: sorts_def)
  next
    case True
    obtain m where m: "select_min f xs i (i + 1) (length xs) = Some m" "i \<le> m" "m < length xs"
        "\<forall>k \<in> {i..<length xs}. cmp (key (xs ! m)) (key (xs ! k)) \<le> 0"
      using select_min_least[of key f xs i i "i + 1"] Suc.prems(1) True cmp_refl[of "key (xs ! i)"] agrees_K
      by fastforce
    define ys where "ys = xs[i := xs ! m, m := xs ! i]"
    have ys: "length ys = length xs" "take i ys = take i xs" "mset ys = mset xs" "ys ! i = xs ! m"
      using m True swap_mset[of i xs m] by (auto simp: ys_def nth_list_update)
    have sets: "set ys = set xs" using ys(3) by (metis set_mset_mset)
    have dr: "mset (drop i ys) = mset (drop i xs)"
      using ys(2,3) by (metis append_take_drop_id mset_append add_left_cancel)
    have le: "cmp (key (xs ! m)) (key y) \<le> 0" if "y \<in> set (drop i ys)" for y
    proof -
      have "y \<in> set (drop i xs)" using that dr by (metis set_mset_mset)
      then show ?thesis using m(4) by (auto simp: in_set_conv_nth)
    qed
    have d: "d = length xs - Suc i" using Suc.hyps(2) by arith
    have tk: "take (Suc i) ys = take i xs @ [xs ! m]"
      using ys True by (simp add: take_Suc_conv_app_nth)
    have "xs ! m \<in> set (drop i xs)" using m(2,3) by (auto simp: in_set_conv_nth intro!: exI[of _ "m - i"])
    then have "ordered key (take (Suc i) ys)" using Suc.prems(5,6) tk by (simp add: ordered_append)
    moreover have below: "\<forall>x \<in> set (take (Suc i) ys). \<forall>y \<in> set (drop (Suc i) ys). cmp (key x) (key y) \<le> 0"
    proof -
      have "set (drop (Suc i) ys) \<subseteq> set (drop i ys)" by (simp add: set_drop_subset_set_drop)
      moreover have "set (drop i ys) = set (drop i xs)" using dr by (metis set_mset_mset)
      ultimately show ?thesis using Suc.prems(6) le tk by auto
    qed
    ultimately obtain zs where zs: "select_loop True f ys (Suc i) n = Some zs" "sorts key ys zs"
      using Suc.hyps(1)[of ys "Suc i"] d Suc.prems(1,2,3) less_diff_conv[of i "length xs" 1] True
        ys(1) sets below by auto
    have "select_loop True f xs i n = select_loop True f ys (Suc i) n"
      using True u m(1,2,3) Suc.prems(2)
      by (subst select_loop.simps) (simp add: swap_nth ys_def)
    then show ?thesis using zs ys(3) by (simp add: sorts_def)
  qed
qed

text \<open>The empty array is left alone, after \<open>2 ^ 64 - 1\<close> rounds of the outer loop.\<close>

lemma select_loop_zero: "select_loop ok f xs i 0 = Some xs"
proof (induction "unat (- 1 :: csize) - i" arbitrary: i rule: less_induct)
  case less
  have "select_loop ok f xs (Suc i) 0 = Some xs" if "i < unat (- 1 :: csize)"
    using less[of "Suc i"] that by simp
  then show ?case by (subst select_loop.simps) (simp add: select_min.simps)
qed

lemma select_sort_sorts:
  assumes "agrees key f (set xs)" and "unat n = length xs"
  shows "\<exists>zs. select_sort True f n xs = Some zs \<and> sorts key xs zs"
proof (cases "xs = []")
  case True
  then have "n = 0" using assms(2) by (simp add: unat_eq_zero)
  then show ?thesis using True by (simp add: select_sort_def select_loop_zero sorts_def)
next
  case False
  then show ?thesis using select_loop_sorts[of key f xs n 0] assms by (simp add: select_sort_def)
qed

subsection \<open>Insertion sort and Shell sort\<close>

lemma insert_shift_split:
  assumes "agrees key f (set (x # us))" and "p = length us"
  shows "\<exists>us1 us2 h. us = us1 @ us2 \<and> insert_shift f (us @ y # vs) x p = Some (us1 @ h # us2 @ vs, length us1)
    \<and> (\<forall>u \<in> set us2. 0 < cmp (key u) (key x)) \<and> (us1 = [] \<or> cmp (key (last us1)) (key x) \<le> 0)"
  using assms
proof (induction us arbitrary: y vs p rule: rev_induct)
  case Nil
  then show ?case by (intro exI[of _ "[]"]) auto
next
  case (snoc u us)
  have f: "f u x = Some (cmp (key u) (key x))" using agreesD[OF snoc.prems(1)] by simp
  show ?case
  proof (cases "0 < cmp (key u) (key x)")
    case True
    have "agrees key f (set (x # us))" using snoc.prems(1) by (auto simp: agrees_def)
    then obtain us1 us2 h where r: "us = us1 @ us2"
        "insert_shift f (us @ u # u # vs) x (length us) = Some (us1 @ h # us2 @ u # vs, length us1)"
        "\<forall>v \<in> set us2. 0 < cmp (key v) (key x)" "us1 = [] \<or> cmp (key (last us1)) (key x) \<le> 0"
      using snoc.IH[OF _ refl, of u "u # vs"] by blast
    have "insert_shift f ((us @ [u]) @ y # vs) x p = insert_shift f (us @ u # u # vs) x (length us)"
      using True f snoc.prems(2) put_mid[of "Suc (length us)" "us @ [u]"] by simp
    then show ?thesis using r True by (intro exI[of _ us1] exI[of _ "us2 @ [u]"] exI[of _ h]) auto
  next
    case False
    then show ?thesis
      using f snoc.prems(2) by (intro exI[of _ "us @ [u]"] exI[of _ "[]"] exI[of _ y]) auto
  qed
qed

lemma insert_loop_sorts:
  assumes "agrees key f (set (us @ vs))" and "unat n = length us + length vs" and "unat n < 2 ^ 31"
    and "ordered key us" and "us \<noteq> []" and "i = length us"
  shows "\<exists>zs. insert_loop f (us @ vs) i n = Some zs \<and> sorts key (us @ vs) zs"
  using assms
proof (induction vs arbitrary: us i)
  case Nil
  then show ?case
    using index_less(1)[of n i] by (subst insert_loop.simps) (simp add: sorts_def)
next
  case (Cons x vs)
  have i: "(of_nat i :: csize) < n" "inc i = Some (Suc i)"
    using index_less[of n i] Cons.prems(2,3,6) by auto
  obtain ws l where us: "us = ws @ [l]" using Cons.prems(5) by (cases us rule: rev_cases) auto
  have ag: "agrees key f (set (x # us))" using Cons.prems(1) by (auto simp: agrees_def)
  have f: "f x l = Some (cmp (key x) (key l))" using agreesD[OF ag] us by simp
  have gets: "get (us @ x # vs) i = Some x" "get (us @ x # vs) (i - 1) = Some l"
    using Cons.prems(6) us by (auto simp: get_def nth_append)
  show ?case
  proof (cases "0 \<le> cmp (key x) (key l)")
    case True
    then have "\<forall>u \<in> set us. cmp (key u) (key x) \<le> 0"
      using last_le[OF ag Cons.prems(4)] le_total(3)[OF ag, of x l] us by simp
    then obtain zs where "insert_loop f ((us @ [x]) @ vs) (Suc i) n = Some zs" "sorts key ((us @ [x]) @ vs) zs"
      using Cons.IH[of "us @ [x]" "Suc i"] Cons.prems by (auto simp: ordered_append)
    then show ?thesis using i gets f True by (subst insert_loop.simps) simp
  next
    case False
    obtain us1 us2 h where r: "us = us1 @ us2" "insert_shift f (us @ x # vs) x i = Some (us1 @ h # us2 @ vs, length us1)"
        "\<forall>v \<in> set us2. 0 < cmp (key v) (key x)" "us1 = [] \<or> cmp (key (last us1)) (key x) \<le> 0"
      using insert_shift_split[OF ag Cons.prems(6)] by blast
    have "agrees key f (set (x # us1))" using ag r(1) by (auto simp: agrees_def)
    then have "\<forall>u \<in> set us1. cmp (key u) (key x) \<le> 0"
      using last_le[of key f x us1] Cons.prems(4) r(1,4) by (simp add: ordered_append)
    moreover have "\<forall>u \<in> set us2. cmp (key x) (key u) \<le> 0"
      using r(1,3) le_total(2)[OF ag, of _ x] by auto
    ultimately have "ordered key (us1 @ x # us2)" using Cons.prems(4) r(1) by (simp add: ordered_append)
    then obtain zs where "insert_loop f ((us1 @ x # us2) @ vs) (Suc i) n = Some zs" "sorts key ((us1 @ x # us2) @ vs) zs"
      using Cons.IH[of "us1 @ x # us2" "Suc i"] Cons.prems(1,2,3,6) r(1) by auto
    moreover have "insert_loop f (us @ x # vs) i n = insert_loop f ((us1 @ x # us2) @ vs) (Suc i) n"
      using i gets f False r(2) by (subst insert_loop.simps) simp
    ultimately show ?thesis using r(1) by (simp add: sorts_def)
  qed
qed

lemma insert_sort_sorts:
  assumes "agrees key f (set xs)" and "unat n = length xs" and "length xs < 2 ^ 31"
  shows "\<exists>zs. insert_sort True f n xs = Some zs \<and> sorts key xs zs"
proof (cases xs)
  case Nil
  then have "n = 0" using assms(2) by (simp add: unat_eq_zero)
  then show ?thesis using Nil by (simp add: insert_sort_def insert_loop.simps sorts_def)
next
  case (Cons x vs)
  then show ?thesis
    using insert_loop_sorts[of key f "[x]" vs n 1] assms by (simp add: insert_sort_def)
qed

end

lemma shell_shift_one: "shell_shift f xs buf 0 1 p = insert_shift f xs buf p"
proof (induction p arbitrary: xs)
  case 0
  then show ?case by (simp add: shell_shift.simps)
next
  case (Suc p)
  have "Suc p - 1 = p" by simp
  then show ?case by (subst shell_shift.simps) (simp only: Suc.IH insert_shift.simps, simp)
qed

lemma shell_loop_one:
  assumes "unat n < 2 ^ 31" and "j \<le> unat n"
  shows "shell_loop f xs 0 1 j n = insert_loop f xs j n"
  using assms
proof (induction "unat n - j" arbitrary: j xs)
  case 0
  then show ?case
    using index_less(1)[of n j] by (simp add: shell_loop.simps[of _ _ _ _ j] insert_loop.simps[of _ _ j])
next
  case (Suc d)
  then have j: "j < unat n" by simp
  then have i: "(of_nat j :: csize) < n" "inc j = Some (Suc j)" "j + 1 < 2 ^ 31"
    using index_less[of n j] Suc.prems by auto
  have "shell_loop f ys 0 1 (j + 1) n = insert_loop f ys (Suc j) n" for ys
    using Suc.hyps(1)[of "Suc j"] Suc.hyps(2) Suc.prems j by simp
  then show ?case
    unfolding shell_loop.simps[of f xs 0 1 j] insert_loop.simps[of f xs j] shell_shift_one using i by simp
qed

context compare
begin

lemma shell_shift_perm:
  assumes "agrees key f S" and "set xs \<subseteq> S" and "buf \<in> S" and "0 < step" and "p < length xs"
  shows "\<exists>ys q. shell_shift f xs buf offset step p = Some (ys, q) \<and> q < length ys
    \<and> mset (ys[q := buf]) = mset (xs[p := buf])"
  using assms
proof (induction p arbitrary: xs rule: less_induct)
  case (less p)
  show ?case
  proof (cases "offset + step \<le> p")
    case False
    then show ?thesis using less.prems by (subst shell_shift.simps) auto
  next
    case True
    define a where "a = xs ! (p - step)"
    have a: "a \<in> set xs" "get xs (p - step) = Some a" using less.prems(5) by (auto simp: a_def get_def)
    have f: "f a buf = Some (cmp (key a) (key buf))" using agreesD[OF less.prems(1)] less.prems(2,3) a(1) by blast
    show ?thesis
    proof (cases "0 < cmp (key a) (key buf)")
      case False
      then show ?thesis using less.prems True f a by (subst shell_shift.simps) auto
    next
      case gt: True
      have "set (xs[p := a]) \<subseteq> S" using set_update_subset_insert[of xs p a] less.prems(2) a(1) by blast
      then obtain ys q where ys: "shell_shift f (xs[p := a]) buf offset step (p - step) = Some (ys, q)"
          "q < length ys" "mset (ys[q := buf]) = mset (xs[p := a, p - step := buf])"
        using less.IH[of "p - step" "xs[p := a]"] less.prems True diff_less[of step p] less_imp_diff_less by auto
      have "mset (xs[p := a, p - step := buf]) = mset (xs[p := buf])"
        using hole_move[of p xs "p - step" buf] less.prems(4,5) True unfolding a_def by simp
      moreover have "shell_shift f xs buf offset step p = shell_shift f (xs[p := a]) buf offset step (p - step)"
        using less.prems(4,5) True f a gt by (subst shell_shift.simps) (simp add: put_def)
      ultimately show ?thesis using ys by auto
    qed
  qed
qed

lemma shell_loop_perm:
  assumes "agrees key f (set xs)" and "unat n = length xs" and "length xs + step < 2 ^ 31"
    and "0 < step" and "step \<le> j" and "j < 2 ^ 31"
  shows "\<exists>ys. shell_loop f xs offset step j n = Some ys \<and> mset ys = mset xs"
  using assms
proof (induction "length xs - j" arbitrary: j xs rule: less_induct)
  case less
  have nj: "(of_nat j :: csize) < n \<longleftrightarrow> j < length xs"
    using less.prems(2,6) by (simp add: word_less_nat_alt unat_of_nat)
  show ?case
  proof (cases "j < length xs")
    case False
    then show ?thesis using nj by (subst shell_loop.simps) simp
  next
    case True
    define x a where "x = xs ! j" and "a = xs ! (j - step)"
    have gets: "get xs j = Some x" "get xs (j - step) = Some a" "x \<in> set xs" "a \<in> set xs"
      using True by (auto simp: x_def a_def get_def)
    have f: "f x a = Some (cmp (key x) (key a))" using agreesD[OF less.prems(1)] gets(3,4) by blast
    have rest: "\<exists>zs. shell_loop f ys offset step (j + step) n = Some zs \<and> mset zs = mset xs"
      if m: "mset ys = mset xs" for ys
    proof -
      have "length ys = length xs" "set ys = set xs" using m by (metis size_mset, metis set_mset_mset)
      then show ?thesis using less.hyps[of ys "j + step"] less.prems True m by simp
    qed
    show ?thesis
    proof (cases "0 \<le> cmp (key x) (key a)")
      case True
      then show ?thesis
        using rest[of xs] nj \<open>j < length xs\<close> gets f less.prems(3) by (subst shell_loop.simps) simp
    next
      case False
      obtain ys q where ys: "shell_shift f xs x offset step j = Some (ys, q)" "q < length ys"
          "mset (ys[q := x]) = mset (xs[j := x])"
        using shell_shift_perm[OF less.prems(1) order_refl gets(3) less.prems(4) True] by blast
      have "mset (ys[q := x]) = mset xs" using ys(3) by (simp add: x_def)
      then show ?thesis
        using rest[of "ys[q := x]"] nj \<open>j < length xs\<close> gets f False less.prems(3) ys
        by (subst shell_loop.simps) (simp add: put_def)
    qed
  qed
qed

lemma shell_offsets_perm:
  assumes "agrees key f (set xs)" and "unat n = length xs" and "length xs + step < 2 ^ 31" and "0 < step"
    and "\<forall>k \<in> set os. k + step < 2 ^ 31"
  shows "\<exists>ys. shell_offsets f xs os step n = Some ys \<and> mset ys = mset xs"
  using assms
proof (induction os arbitrary: xs)
  case (Cons k os)
  obtain ys where ys: "shell_loop f xs k step (k + step) n = Some ys" "mset ys = mset xs"
    using shell_loop_perm[of key f xs n step "k + step" k] Cons.prems by auto
  have "length ys = length xs" "set ys = set xs" using ys(2) by (metis size_mset, metis set_mset_mset)
  then show ?case using Cons.IH[of ys] Cons.prems ys by auto
qed auto

lemma shell_sort_sorts:
  assumes "agrees key f (set xs)" and "unat n = length xs" and "length xs + 3 < 2 ^ 31"
  shows "\<exists>zs. shell_sort True f n xs = Some zs \<and> sorts key xs zs"
proof -
  obtain ys where ys: "shell_offsets f xs [0..<3] 3 n = Some ys" "mset ys = mset xs"
    using shell_offsets_perm[of key f xs n 3 "[0..<3]"] assms by auto
  have l1: "length ys = length xs" "set ys = set xs" using ys(2) by (metis size_mset, metis set_mset_mset)
  obtain zs where zs: "shell_offsets f ys [0..<2] 2 n = Some zs" "mset zs = mset xs"
    using shell_offsets_perm[of key f ys n 2 "[0..<2]"] assms l1 ys(2) by auto
  have l2: "length zs = length xs" "set zs = set xs" using zs(2) by (metis size_mset, metis set_mset_mset)
  obtain ws where ws: "insert_sort True f n zs = Some ws" "sorts key zs ws"
    using insert_sort_sorts[of key f zs n] assms l2 by auto
  have "shell_loop f zs 0 1 1 n = Some ws"
  proof (cases "xs = []")
    case True
    then have "n = 0" using assms(2) by (simp add: unat_eq_zero)
    then show ?thesis using ws(1) by (simp add: insert_sort_def insert_loop.simps shell_loop.simps)
  next
    case False
    then have "1 \<le> unat n" using assms(2) by (cases xs) auto
    then show ?thesis using shell_loop_one[of n 1 f zs] ws(1) assms(2,3) by (simp add: insert_sort_def)
  qed
  then have "shell_offsets f zs [0..<1] 1 n = Some ws" by simp
  then have "shell_sort True f n xs = Some ws"
    unfolding shell_sort_def by (simp only: shell_steps.simps ys(1) zs(1) Option.bind.bind_lunit simp_thms if_False)
  then show ?thesis using ws(2) zs(2) by (simp add: sorts_def)
qed

subsection \<open>Merge sort\<close>

lemma copy_range:
  assumes "length ds = length ss" and "d = length ds1" and "s = length ss1" and "n = length ss"
  shows "copy (ds1 @ ds @ ds2) d (ss1 @ ss @ ss2) s n = Some (ds1 @ ss @ ds2)"
  using assms
proof (induction ds ss arbitrary: ds1 ss1 d s n rule: list_induct2)
  case (Cons y ys x xs)
  then show ?case using Cons.IH[of "Suc d" "ds1 @ [x]" "Suc s" "ss1 @ [x]" "length xs"] by simp
qed simp

lemma merge_loop_merges:
  assumes "agrees key f (set (us1 @ vs1))" and "ordered key us1" and "ordered key vs1"
    and "n div 2 = length (us0 @ us1)" and "n = length (us0 @ us1 @ vs0 @ vs1)"
    and "length us1 + length vs1 \<le> length rest"
    and "b = length pre" and "l = length us0" and "r = n div 2 + length vs0" and "i = length pfx"
  shows "\<exists>out rest' us2 us3 vs2 vs3. us0 @ us1 = us2 @ us3 \<and> vs0 @ vs1 = vs2 @ vs3 \<and> (us3 = [] \<or> vs3 = [])
    \<and> merge_loop f (pre @ us0 @ us1 @ vs0 @ vs1 @ post) b n (pfx @ rest) l r i
      = Some (pfx @ out @ rest', length us2, n div 2 + length vs2, length pfx + length out)
    \<and> length rest' + length out = length rest \<and> mset (out @ us3 @ vs3) = mset (us1 @ vs1)
    \<and> ordered key (out @ us3 @ vs3)"
  using assms
proof (induction "length us1 + length vs1" arbitrary: us0 us1 vs0 vs1 pfx rest l r i rule: less_induct)
  case less
  show ?case
  proof (cases "us1 = [] \<or> vs1 = []")
    case True
    then have "\<not> (l < n div 2 \<and> r < n)" using less.prems by auto
    then have "merge_loop f (pre @ us0 @ us1 @ vs0 @ vs1 @ post) b n (pfx @ rest) l r i = Some (pfx @ rest, l, r, i)"
      by (subst merge_loop.simps) (simp only: if_False)
    moreover have "ordered key ([] @ us1 @ vs1)" using True less.prems(2,3) by auto
    ultimately show ?thesis using True unfolding less.prems(8,9,10)
      by (intro exI[of _ "[]"] exI[of _ rest] exI[of _ us0] exI[of _ us1] exI[of _ vs0] exI[of _ vs1] conjI)
        (simp_all only: append_Nil list.size add_0_right add_0)
  next
    case False
    then obtain x us y vs where eq: "us1 = x # us" "vs1 = y # vs" by (meson neq_Nil_conv)
    obtain z rs where rest: "rest = z # rs" using less.prems(6) eq by (cases rest) auto
    note prems = less.prems[unfolded eq rest]
    have f: "f x y = Some (cmp (key x) (key y))" using agreesD[OF prems(1)] by simp
    have lr: "l < n div 2" "r < n" using prems(4,5,8,9) by auto
    have gets: "get (pre @ us0 @ us1 @ vs0 @ vs1 @ post) (b + l) = Some x"
        "get (pre @ us0 @ us1 @ vs0 @ vs1 @ post) (b + r) = Some y"
      using get_mid[of "b + l" "pre @ us0" x "us @ vs0 @ vs1 @ post"]
        get_mid[of "b + r" "pre @ us0 @ us1 @ vs0" y "vs @ post"] prems(4,7,8,9) eq by auto
    have inS: "x \<in> set ((x # us) @ y # vs)" "y \<in> set ((x # us) @ y # vs)" by auto
    show ?thesis
    proof (cases "cmp (key x) (key y) < 0")
      case True
      have ag: "agrees key f (set (us @ y # vs))" using prems(1) by (auto simp: agrees_def)
      have ord: "ordered key us" "ordered key (y # vs)" using prems(2,3) by auto
      have c: "length us + length (y # vs) < length us1 + length vs1" "n div 2 = length ((us0 @ [x]) @ us)"
          "n = length ((us0 @ [x]) @ us @ vs0 @ y # vs)" "length us + length (y # vs) \<le> length rs"
          "l + 1 = length (us0 @ [x])" "r = n div 2 + length vs0" "i + 1 = length (pfx @ [x])"
        using prems(4,5,6,8-10) eq by simp_all
      obtain out rest' us2 us3 vs2 vs3 where r: "(us0 @ [x]) @ us = us2 @ us3" "vs0 @ y # vs = vs2 @ vs3"
          "us3 = [] \<or> vs3 = []" "merge_loop f (pre @ (us0 @ [x]) @ us @ vs0 @ (y # vs) @ post) b n ((pfx @ [x]) @ rs) (l + 1) r (i + 1)
            = Some ((pfx @ [x]) @ out @ rest', length us2, n div 2 + length vs2, length (pfx @ [x]) + length out)"
          "length rest' + length out = length rs" "mset (out @ us3 @ vs3) = mset (us @ y # vs)" "ordered key (out @ us3 @ vs3)"
        using less.hyps[OF c(1) ag ord c(2-4) prems(7) c(5-7)] by blast
      have "set (out @ us3 @ vs3) = set (us @ y # vs)" using r(6) by (metis set_mset_mset)
      moreover have "cmp (key x) (key w) \<le> 0" if "w \<in> set vs" for w
        using le_trans[OF prems(1) inS, of w] True prems(3) that by simp
      ultimately have lo: "\<forall>w \<in> set (out @ us3 @ vs3). cmp (key x) (key w) \<le> 0" using True prems(2) by auto
      have step: "merge_loop f (pre @ us0 @ us1 @ vs0 @ vs1 @ post) b n (pfx @ rest) l r i
          = merge_loop f (pre @ us0 @ us1 @ vs0 @ vs1 @ post) b n (pfx @ x # rs) (l + 1) r (i + 1)"
        using True f gets lr rest prems(10) by (subst merge_loop.simps) simp
      have us: "us0 @ us1 = us2 @ us3" and vs: "vs0 @ vs1 = vs2 @ vs3" using r(1,2) eq by simp_all
      have "merge_loop f (pre @ us0 @ us1 @ vs0 @ vs1 @ post) b n (pfx @ rest) l r i
          = Some (pfx @ (x # out) @ rest', length us2, n div 2 + length vs2, length pfx + length (x # out))"
        unfolding step using r(4) eq by simp
      moreover have "length rest' + length (x # out) = length rest" using r(5) rest by simp
      moreover have "mset ((x # out) @ us3 @ vs3) = mset (us1 @ vs1)" using r(6) eq by simp
      moreover have "ordered key ((x # out) @ us3 @ vs3)" using r(7) lo by simp
      ultimately show ?thesis using us vs r(3) by blast
    next
      case False
      then have yx: "cmp (key y) (key x) \<le> 0" using le_total(3)[OF prems(1) inS] by simp
      have ag: "agrees key f (set ((x # us) @ vs))" using prems(1) by (auto simp: agrees_def)
      have ord: "ordered key (x # us)" "ordered key vs" using prems(2,3) by auto
      have c: "length (x # us) + length vs < length us1 + length vs1" "n div 2 = length (us0 @ x # us)"
          "n = length (us0 @ (x # us) @ (vs0 @ [y]) @ vs)" "length (x # us) + length vs \<le> length rs"
          "l = length us0" "r + 1 = n div 2 + length (vs0 @ [y])" "i + 1 = length (pfx @ [y])"
        using prems(4,5,6,8-10) eq by simp_all
      obtain out rest' us2 us3 vs2 vs3 where r: "us0 @ x # us = us2 @ us3" "(vs0 @ [y]) @ vs = vs2 @ vs3"
          "us3 = [] \<or> vs3 = []" "merge_loop f (pre @ us0 @ (x # us) @ (vs0 @ [y]) @ vs @ post) b n ((pfx @ [y]) @ rs) l (r + 1) (i + 1)
            = Some ((pfx @ [y]) @ out @ rest', length us2, n div 2 + length vs2, length (pfx @ [y]) + length out)"
          "length rest' + length out = length rs" "mset (out @ us3 @ vs3) = mset ((x # us) @ vs)" "ordered key (out @ us3 @ vs3)"
        using less.hyps[OF c(1) ag ord c(2-4) prems(7) c(5-7)] by blast
      have "set (out @ us3 @ vs3) = set ((x # us) @ vs)" using r(6) by (metis set_mset_mset)
      moreover have "cmp (key y) (key w) \<le> 0" if "w \<in> set us" for w
        using le_trans[OF prems(1) inS(2,1), of w] yx prems(2) that by simp
      ultimately have lo: "\<forall>w \<in> set (out @ us3 @ vs3). cmp (key y) (key w) \<le> 0" using yx prems(3) by auto
      have step: "merge_loop f (pre @ us0 @ us1 @ vs0 @ vs1 @ post) b n (pfx @ rest) l r i
          = merge_loop f (pre @ us0 @ us1 @ vs0 @ vs1 @ post) b n (pfx @ y # rs) l (r + 1) (i + 1)"
        using False f gets lr rest prems(10) by (subst merge_loop.simps) simp
      have us: "us0 @ us1 = us2 @ us3" and vs: "vs0 @ vs1 = vs2 @ vs3" using r(1,2) eq by simp_all
      have "merge_loop f (pre @ us0 @ us1 @ vs0 @ vs1 @ post) b n (pfx @ rest) l r i
          = Some (pfx @ (y # out) @ rest', length us2, n div 2 + length vs2, length pfx + length (y # out))"
        unfolding step using r(4) eq by simp
      moreover have "length rest' + length (y # out) = length rest" using r(5) rest by simp
      moreover have "mset ((y # out) @ us3 @ vs3) = mset (us1 @ vs1)" using r(6) eq by simp
      moreover have "ordered key ((y # out) @ us3 @ vs3)" using r(7) lo by simp
      ultimately show ?thesis using us vs r(3) by blast
    qed
  qed
qed

lemma merge_rec_sorts:
  assumes "agrees key f (set ys)" and "n = length ys" and "n \<le> length buf" and "b = length pre"
  shows "\<exists>zs buf'. merge_rec f (pre @ ys @ post) buf b n = Some (pre @ zs @ post, buf')
    \<and> length buf' = length buf \<and> sorts key ys zs"
  using assms
proof (induction n arbitrary: ys buf b pre post rule: less_induct)
  case (less n)
  show ?case
  proof (cases "n \<le> 1")
    case True
    then have "ys = [] \<or> (\<exists>x. ys = [x])" using less.prems(2) by (cases ys) auto
    then show ?thesis using True by (auto simp: merge_rec.simps sorts_def)
  next
    case False
    define h where "h = n div 2"
    have h: "h < n" "n - h < n" "h \<le> length ys" using False less.prems(2) by (auto simp: h_def)
    define us vs where "us = take h ys" and "vs = drop h ys"
    have uv: "ys = us @ vs" "length us = h" "length vs = n - h" using h less.prems(2) by (auto simp: us_def vs_def)
    have ag: "agrees key f (set us)" "agrees key f (set vs)"
      using less.prems(1) uv(1) by (auto simp: agrees_def)
    obtain us' b1 where u: "merge_rec f (pre @ us @ vs @ post) buf b h = Some (pre @ us' @ vs @ post, b1)"
        "length b1 = length buf" "sorts key us us'"
      using less.IH[OF h(1) ag(1) _ _ less.prems(4), of buf "vs @ post"] uv(2) less.prems(3) h(1) by auto
    have lu: "length us' = h" using sorts_len[OF u(3)] uv(2) by simp
    obtain vs' b2 where v: "merge_rec f ((pre @ us') @ vs @ post) b1 (b + h) (n - h) = Some ((pre @ us') @ vs' @ post, b2)"
        "length b2 = length buf" "sorts key vs vs'"
      using less.IH[OF h(2) ag(2), of b1 "b + h" "pre @ us'" post] uv(3) u(2) order_trans[OF diff_le_self less.prems(3)] less.prems(4) lu by auto
    have lv: "length vs' = n - h" using sorts_len[OF v(3)] uv(3) by simp
    have ag': "agrees key f (set (us' @ vs'))"
      using less.prems(1) uv(1) sorts_set[OF u(3)] sorts_set[OF v(3)] by simp
    have ord: "ordered key us'" "ordered key vs'" using u(3) v(3) by (auto simp: sorts_def)
    have len: "n div 2 = length ([] @ us')" "n = length ([] @ us' @ [] @ vs')" "length us' + length vs' \<le> length b2"
      using lu lv h(1) less.prems(3) v(2) by (auto simp: h_def)
    obtain out rest us2 us3 vs2 vs3 where m: "us' = us2 @ us3" "vs' = vs2 @ vs3" "us3 = [] \<or> vs3 = []"
        "merge_loop f (pre @ us' @ vs' @ post) b n b2 0 h 0 = Some (out @ rest, length us2, h + length vs2, length out)"
        "length rest + length out = length b2" "mset (out @ us3 @ vs3) = mset (us' @ vs')" "ordered key (out @ us3 @ vs3)"
      using merge_loop_merges[OF ag' ord len less.prems(4), of 0 "h + 0" 0 "[]" post, unfolded append_Nil list.size add_0_right add_0]
      unfolding h_def by blast
    define zs where "zs = out @ us3 @ vs3"
    have zs: "length zs = n" "sorts key ys zs"
    proof -
      have eq: "mset zs = mset ys" using m(6) u(3) v(3) uv(1) unfolding zs_def by (simp add: sorts_def)
      then show "length zs = n" using less.prems(2) by (metis size_mset)
      show "sorts key ys zs" using eq m(7) unfolding zs_def sorts_def by simp
    qed
    define rs where "rs = drop (n - length out) rest"
    have lout: "length out + length us3 + length vs3 = n" using zs(1) by (simp add: zs_def)
    obtain ts where rst: "rest = ts @ rs" "length ts = n - length out"
      using that[of "take (n - length out) rest"] m(5) v(2) less.prems(3) lout by (simp add: rs_def)
    have c1: "(if length us2 < h then copy (out @ rest) (length out) (pre @ us' @ vs' @ post) (b + length us2) (h - length us2)
        else copy (out @ rest) (length out) (pre @ us' @ vs' @ post) (b + (h + length vs2)) (n - (h + length vs2)))
        = Some (zs @ rs)"
    proof (cases "us3 = []")
      case True
      then have "length us2 = h" "n - (h + length vs2) = length vs3" using m(1,2) lu lv by auto
      then show ?thesis
        using copy_range[of ts vs3 "length out" out "b + (h + length vs2)" "pre @ us' @ vs2" "length vs3" rs post]
          rst lout lu True m(2) less.prems(4) by (simp add: zs_def)
    next
      case False
      then have "vs3 = []" "length us2 < h" "h - length us2 = length us3" using m(1,3) lu by auto
      then show ?thesis
        using copy_range[of ts us3 "length out" out "b + length us2" "pre @ us2" "length us3" rs "vs' @ post"]
          rst lout m(1) less.prems(4) by (simp add: zs_def)
    qed
    have c2: "copy (pre @ us' @ vs' @ post) b (zs @ rs) 0 n = Some (pre @ zs @ post)"
    proof -
      have l: "length (us' @ vs') = length zs" using lu lv h(1) zs(1) by simp
      show ?thesis using copy_range[OF l less.prems(4), of 0 "[]" n post rs] zs(1) by (simp only: append_assoc append_Nil list.size simp_thms)
    qed
    have u': "merge_rec f (pre @ ys @ post) buf b h = Some (pre @ us' @ vs @ post, b1)"
      using u(1) by (simp add: uv(1))
    have v': "merge_rec f (pre @ us' @ vs @ post) b1 (b + h) (n - h) = Some (pre @ us' @ vs' @ post, b2)"
      using v(1) by simp
    have "merge_rec f (pre @ ys @ post) buf b n = Some (pre @ zs @ post, zs @ rs)"
      unfolding merge_rec.simps[of f "pre @ ys @ post" buf b n] h_def[symmetric]
      by (simp only: u' v' m(4) c1 c2 False if_False Option.bind.bind_lunit prod.case)
    moreover have "length (zs @ rs) = length buf" using rst m(5) v(2) lout zs(1) by simp
    ultimately show ?thesis using zs(2) by blast
  qed
qed

lemma merge_sort_sorts:
  assumes "agrees key f (set xs)" and "unat n = length xs"
  shows "\<exists>zs. merge_sort zero True f n xs = Some zs \<and> sorts key xs zs"
  using merge_rec_sorts[of key f xs "unat n" "replicate (unat n) zero" 0 "[]" "[]"] assms
  by (auto simp: merge_sort_def)

subsection \<open>Quick sort\<close>

lemma quick_right_part:
  assumes "agrees key f (set (x # M))" and "b = length pre" and "l = length A" and "r = length A + length M"
    and "\<forall>a \<in> set A. cmp (key a) (key x) \<le> 0" and "\<forall>c \<in> set C. cmp (key x) (key c) \<le> 0"
  shows "\<exists>A' M' C' h'. quick_right f (pre @ A @ h # M @ C @ post) b x l r
      = Some (pre @ A' @ M' @ h' # C' @ post, length A', length A' + length M')
    \<and> mset (A' @ M' @ C') = mset (A @ M @ C) \<and> length M' \<le> length M - 1
    \<and> (\<forall>a \<in> set A'. cmp (key a) (key x) \<le> 0) \<and> (\<forall>c \<in> set C'. cmp (key x) (key c) \<le> 0)"
  using assms
proof (induction M arbitrary: C r rule: rev_induct)
  case Nil
  then show ?case
    by (intro exI[of _ A] exI[of _ "[]"] exI[of _ C] exI[of _ h]) (simp add: quick_right.simps)
next
  case (snoc y M)
  have g: "get (pre @ A @ h # (M @ [y]) @ C @ post) (b + r) = Some y"
    using get_mid[of "b + r" "pre @ A @ h # M" y "C @ post"] snoc.prems by simp
  have f: "f y x = Some (cmp (key y) (key x))" using agreesD[OF snoc.prems(1)] by simp
  show ?case
  proof (cases "cmp (key y) (key x) < 0")
    case True
    have "put (pre @ A @ h # (M @ [y]) @ C @ post) (b + l) y = Some (pre @ A @ y # (M @ [y]) @ C @ post)"
      using put_mid[of "b + l" "pre @ A" h "(M @ [y]) @ C @ post" y] snoc.prems by simp
    then have "quick_right f (pre @ A @ h # (M @ [y]) @ C @ post) b x l r
        = Some (pre @ A @ y # (M @ [y]) @ C @ post, l + 1, r)"
      using True g f snoc.prems(3,4) by (subst quick_right.simps) simp
    then show ?thesis using True snoc.prems
      by (intro exI[of _ "A @ [y]"] exI[of _ M] exI[of _ C] exI[of _ y]) auto
  next
    case False
    then have "cmp (key x) (key y) \<le> 0" using le_total(3)[OF snoc.prems(1), of y x] by simp
    moreover have "agrees key f (set (x # M))" using snoc.prems(1) by (auto simp: agrees_def)
    ultimately obtain A' M' C' h' where r: "quick_right f (pre @ A @ h # M @ (y # C) @ post) b x l (r - 1)
          = Some (pre @ A' @ M' @ h' # C' @ post, length A', length A' + length M')"
        "mset (A' @ M' @ C') = mset (A @ M @ y # C)" "length M' \<le> length M - 1"
        "\<forall>a \<in> set A'. cmp (key a) (key x) \<le> 0" "\<forall>c \<in> set C'. cmp (key x) (key c) \<le> 0"
      using snoc.IH[of "r - 1" "y # C"] snoc.prems by auto
    have "quick_right f (pre @ A @ h # (M @ [y]) @ C @ post) b x l r = quick_right f (pre @ A @ h # M @ (y # C) @ post) b x l (r - 1)"
      using False g f snoc.prems(3,4) by (subst quick_right.simps) simp
    then show ?thesis using r by (intro exI[of _ A'] exI[of _ M'] exI[of _ C'] exI[of _ h']) auto
  qed
qed

lemma quick_left_part:
  assumes "agrees key f (set (x # M))" and "b = length pre" and "l = length A" and "r = length A + length M"
    and "\<forall>a \<in> set A. cmp (key a) (key x) \<le> 0" and "\<forall>c \<in> set C. cmp (key x) (key c) \<le> 0"
  shows "\<exists>A' M' C' h'. quick_left f (pre @ A @ M @ h # C @ post) b x l r
      = Some (pre @ A' @ h' # M' @ C' @ post, length A', length A' + length M')
    \<and> mset (A' @ M' @ C') = mset (A @ M @ C) \<and> length M' \<le> length M
    \<and> (\<forall>a \<in> set A'. cmp (key a) (key x) \<le> 0) \<and> (\<forall>c \<in> set C'. cmp (key x) (key c) \<le> 0)"
  using assms
proof (induction M arbitrary: A l)
  case Nil
  then show ?case
    by (intro exI[of _ A] exI[of _ "[]"] exI[of _ C] exI[of _ h]) (simp add: quick_left.simps)
next
  case (Cons y M)
  have g: "get (pre @ A @ (y # M) @ h # C @ post) (b + l) = Some y"
    using get_mid[of "b + l" "pre @ A" y "M @ h # C @ post"] Cons.prems by simp
  have f: "f y x = Some (cmp (key y) (key x))" using agreesD[OF Cons.prems(1)] by simp
  show ?case
  proof (cases "0 < cmp (key y) (key x)")
    case True
    have "put (pre @ A @ (y # M) @ h # C @ post) (b + r) y = Some (pre @ A @ (y # M) @ y # C @ post)"
      using put_mid[of "b + r" "pre @ A @ y # M" h "C @ post" y] Cons.prems by simp
    then have "quick_left f (pre @ A @ (y # M) @ h # C @ post) b x l r
        = Some (pre @ A @ (y # M) @ y # C @ post, l, r - 1)"
      using True g f Cons.prems(3,4) by (subst quick_left.simps) simp
    then show ?thesis using le_total(2)[OF Cons.prems(1), of y x] True Cons.prems
      by (intro exI[of _ A] exI[of _ M] exI[of _ "y # C"] exI[of _ y]) auto
  next
    case False
    have "agrees key f (set (x # M))" using Cons.prems(1) by (auto simp: agrees_def)
    then obtain A' M' C' h' where r: "quick_left f (pre @ (A @ [y]) @ M @ h # C @ post) b x (l + 1) r
          = Some (pre @ A' @ h' # M' @ C' @ post, length A', length A' + length M')"
        "mset (A' @ M' @ C') = mset ((A @ [y]) @ M @ C)" "length M' \<le> length M"
        "\<forall>a \<in> set A'. cmp (key a) (key x) \<le> 0" "\<forall>c \<in> set C'. cmp (key x) (key c) \<le> 0"
      using Cons.IH[of "l + 1" "A @ [y]"] Cons.prems False by auto
    have "quick_left f (pre @ A @ (y # M) @ h # C @ post) b x l r = quick_left f (pre @ (A @ [y]) @ M @ h # C @ post) b x (l + 1) r"
      using False g f Cons.prems(3,4) by (subst quick_left.simps) simp
    then show ?thesis using r by (intro exI[of _ A'] exI[of _ M'] exI[of _ C'] exI[of _ h']) auto
  qed
qed

lemma quick_part_splits:
  assumes "agrees key f (set (x # A @ M @ C))" and "b = length pre" and "l = length A" and "r = length A + length M"
    and "\<forall>a \<in> set A. cmp (key a) (key x) \<le> 0" and "\<forall>c \<in> set C. cmp (key x) (key c) \<le> 0"
  shows "\<exists>A' C' h'. quick_part f (pre @ A @ h # M @ C @ post) b x l r = Some (pre @ A' @ h' # C' @ post, length A')
    \<and> mset (A' @ C') = mset (A @ M @ C)
    \<and> (\<forall>a \<in> set A'. cmp (key a) (key x) \<le> 0) \<and> (\<forall>c \<in> set C'. cmp (key x) (key c) \<le> 0)"
  using assms
proof (induction "length M" arbitrary: A M C h l r rule: less_induct)
  case less
  show ?case
  proof (cases "M = []")
    case True
    then show ?thesis using less.prems by (subst quick_part.simps) auto
  next
    case False
    have "agrees key f (set (x # M))" using less.prems(1) by (auto simp: agrees_def)
    then obtain A1 M1 C1 h1 where r: "quick_right f (pre @ A @ h # M @ C @ post) b x l r
          = Some (pre @ A1 @ M1 @ h1 # C1 @ post, length A1, length A1 + length M1)"
        "mset (A1 @ M1 @ C1) = mset (A @ M @ C)" "length M1 \<le> length M - 1"
        "\<forall>a \<in> set A1. cmp (key a) (key x) \<le> 0" "\<forall>c \<in> set C1. cmp (key x) (key c) \<le> 0"
      using quick_right_part[OF _ less.prems(2-6)] by blast
    have S1: "set (A1 @ M1 @ C1) = set (A @ M @ C)" using r(2) by (metis set_mset_mset)
    then have "agrees key f (set (x # M1))" by (intro agrees_mono[OF less.prems(1)]) auto
    then obtain A2 M2 C2 h2 where q: "quick_left f (pre @ A1 @ M1 @ h1 # C1 @ post) b x (length A1) (length A1 + length M1)
          = Some (pre @ A2 @ h2 # M2 @ C2 @ post, length A2, length A2 + length M2)"
        "mset (A2 @ M2 @ C2) = mset (A1 @ M1 @ C1)" "length M2 \<le> length M1"
        "\<forall>a \<in> set A2. cmp (key a) (key x) \<le> 0" "\<forall>c \<in> set C2. cmp (key x) (key c) \<le> 0"
      using quick_left_part[OF _ less.prems(2) refl refl r(4,5)] by blast
    have S2: "set (x # A2 @ M2 @ C2) = set (x # A @ M @ C)"
      using arg_cong[OF q(2), of set_mset] arg_cong[OF r(2), of set_mset] by simp
    have m: "length M2 < length M" using r(3) q(3) False by (cases M) auto
    have "quick_part f (pre @ A @ h # M @ C @ post) b x l r
        = quick_part f (pre @ A2 @ h2 # M2 @ C2 @ post) b x (length A2) (length A2 + length M2)"
      using False less.prems(3,4) r(1) q(1) by (subst quick_part.simps) simp
    then show ?thesis
      using less.hyps[OF m _ less.prems(2) refl refl q(4,5), of h2] less.prems(1) r(2) q(2)
      unfolding S2 by simp
  qed
qed

lemma quick_rec_sorts:
  assumes "agrees key f (set ys)" and "n = length ys" and "b = length pre"
  shows "\<exists>zs. quick_rec f (pre @ ys @ post) b n = Some (pre @ zs @ post) \<and> sorts key ys zs"
  using assms
proof (induction n arbitrary: ys b pre post rule: less_induct)
  case (less n)
  show ?case
  proof (cases "n < 2")
    case True
    then have "ys = [] \<or> (\<exists>x. ys = [x])" using less.prems(2) by (auto simp: less_2_cases_iff length_Suc_conv)
    then show ?thesis using True by (auto simp: quick_rec.simps sorts_def)
  next
    case False
    then obtain x M where ys: "ys = x # M" using less.prems(2) by (cases ys) auto
    have x: "get (pre @ ys @ post) b = Some x" using ys less.prems(3) by simp
    obtain A C h where p: "quick_part f (pre @ ys @ post) b x 0 (n - 1) = Some (pre @ A @ h # C @ post, length A)"
        "mset (A @ C) = mset M" "\<forall>a \<in> set A. cmp (key a) (key x) \<le> 0" "\<forall>c \<in> set C. cmp (key x) (key c) \<le> 0"
      using quick_part_splits[of key f x "[]" M "[]" b pre 0 "n - 1" x post] less.prems ys by auto
    have len: "length A + length C = length M" using arg_cong[OF p(2), of size] by simp
    have S: "set A \<union> set C = set M" using arg_cong[OF p(2), of set_mset] by simp
    have ag: "agrees key f (set A)" "agrees key f (set C)"
      using S ys by (auto intro!: agrees_mono[OF less.prems(1)])
    have "length A < n" using len ys less.prems(2) by simp
    then obtain A' where A: "quick_rec f (pre @ A @ (x # C @ post)) b (length A) = Some (pre @ A' @ (x # C @ post))" "sorts key A A'"
      using less.IH[OF _ ag(1) refl less.prems(3)] by blast
    have "n - length A - 1 < n" "n - length A - 1 = length C" "b + (length A + 1) = length (pre @ A' @ [x])"
      using len ys less.prems(2,3) sorts_len[OF A(2)] by auto
    then obtain C' where C: "quick_rec f ((pre @ A' @ [x]) @ C @ post) (b + (length A + 1)) (n - length A - 1)
        = Some ((pre @ A' @ [x]) @ C' @ post)" "sorts key C C'"
      using less.IH[OF _ ag(2)] by blast
    have put: "put (pre @ A @ h # C @ post) (b + length A) x = Some (pre @ A @ x # C @ post)"
      using put_mid[of "b + length A" "pre @ A" h "C @ post" x] less.prems(3) by simp
    have "quick_rec f (pre @ ys @ post) b n = Some (pre @ (A' @ x # C') @ post)"
      unfolding quick_rec.simps[of f "pre @ ys @ post"] using False x p(1) put A(1) C(1) by simp
    moreover have "ordered key (A' @ x # C')"
    proof -
      have S: "set A' = set A" "set C' = set C" using sorts_set A(2) C(2) by blast+
      have "cmp (key a) (key c) \<le> 0" if "a \<in> set A" "c \<in> set C" for a c
        using le_trans[OF less.prems(1), of a x c] p(3,4) that ys \<open>set A \<union> set C = set M\<close> by auto
      then show ?thesis using A(2) C(2) p(3,4) S by (simp add: ordered_append sorts_def)
    qed
    moreover have "mset (A' @ x # C') = mset ys" using A(2) C(2) p(2) ys by (simp add: sorts_def)
    ultimately show ?thesis by (auto simp: sorts_def)
  qed
qed

lemma quick_sort_sorts:
  assumes "agrees key f (set xs)" and "unat n = length xs"
  shows "\<exists>zs. quick_sort True f n xs = Some zs \<and> sorts key xs zs"
  using quick_rec_sorts[of key f xs "unat n" 0 "[]" "[]"] assms by (simp add: quick_sort_def)

end

text \<open>Persons compared by age: in the range of \<open>int\<close> differences.\<close>

lemma cmp_age_agrees:
  assumes "\<forall>p \<in> set ps. 0 \<le> page p \<and> page p < 2 ^ 31"
  shows "diff.agrees page cmp_age (set ps)"
proof -
  have "cmp_age a b = Some (page a - page b)" if "a \<in> set ps" "b \<in> set ps" for a b
  proof -
    have "- (2 ^ 31) \<le> page a - page b \<and> page a - page b < 2 ^ 31"
      using bspec[OF assms that(1)] bspec[OF assms that(2)] by linarith
    then show ?thesis by (simp add: cmp_age_def)
  qed
  then show ?thesis by (simp add: diff.agrees_def)
qed

subsection \<open>The table of sorting routines\<close>

text \<open>What the client of the table relies on.\<close>

locale array_sort =
  fixes srt :: "csize \<Rightarrow> person_info list \<Rightarrow> person_info list option"
  assumes srt_sorts: "\<forall>p \<in> set ps. 0 \<le> page p \<and> page p < 2 ^ 31 \<Longrightarrow> unat n = length ps
    \<Longrightarrow> length ps + 3 < 2 ^ 31 \<Longrightarrow> \<exists>qs. srt n ps = Some qs \<and> diff.sorts page ps qs"
begin

lemma srt_ages:
  assumes "\<forall>p \<in> set ps. 0 \<le> page p \<and> page p < 2 ^ 31" and "unat n = length ps" and "length ps + 3 < 2 ^ 31"
  shows "\<exists>qs. srt n ps = Some qs \<and> map page qs = sort (map page ps)"
proof -
  obtain qs where qs: "srt n ps = Some qs" "diff.sorts page ps qs" using srt_sorts[OF assms] by blast
  have "sorted (map page qs)" "mset (map page qs) = mset (map page ps)"
    using qs(2) by (auto simp: diff.sorts_def diff.ordered_def sorted_map)
  then have "map page qs = sort (map page ps)" by (metis properties_for_sort)
  then show ?thesis using qs(1) by blast
qed

end

lemmas age_sorts = diff.bubble_sort_sorts diff.select_sort_sorts diff.insert_sort_sorts
  diff.shell_sort_sorts diff.merge_sort_sorts diff.quick_sort_sorts

interpretation bubble: array_sort "bubble_sort True cmp_age"
  by unfold_locales (auto intro!: age_sorts cmp_age_agrees)
interpretation select: array_sort "select_sort True cmp_age"
  by unfold_locales (auto intro!: age_sorts cmp_age_agrees)
interpretation insert: array_sort "insert_sort True cmp_age"
  by unfold_locales (auto intro!: age_sorts cmp_age_agrees)
interpretation shell: array_sort "shell_sort True cmp_age"
  by unfold_locales (auto intro!: age_sorts cmp_age_agrees)
interpretation merge: array_sort "merge_sort zero True cmp_age" for zero
  by unfold_locales (auto intro!: age_sorts cmp_age_agrees)
interpretation quick: array_sort "quick_sort True cmp_age"
  by unfold_locales (auto intro!: age_sorts cmp_age_agrees)

text \<open>\<open>p_sort\<close> of \<open>main\<close>; its first entry is the \<open>qsort\<close> of the C library, a parameter; \<open>ok\<close>: there is memory.\<close>

type_synonym 'a sorter = "('a \<Rightarrow> 'a \<Rightarrow> int option) \<Rightarrow> csize \<Rightarrow> 'a list \<Rightarrow> 'a list option"

definition p_sort :: "bool \<Rightarrow> 'a sorter \<Rightarrow> 'a \<Rightarrow> 'a sorter list" where
  "p_sort ok qsort zero = [qsort, bubble_sort ok, select_sort ok, insert_sort ok, shell_sort ok,
     merge_sort zero ok, quick_sort ok]"

lemma p_sort_ages:
  assumes "\<forall>p \<in> set ps. 0 \<le> page p \<and> page p < 2 ^ 31" and "unat n = length ps" and "length ps + 3 < 2 ^ 31"
    and "0 < i" and "i < length (p_sort True qsort zero)"
  shows "\<exists>qs. (p_sort True qsort zero ! i) cmp_age n ps = Some qs \<and> map page qs = sort (map page ps)"
proof -
  have "i \<in> {1, 2, 3, 4, 5, 6}" using assms(4,5) by (auto simp: p_sort_def)
  then show ?thesis
    using bubble.srt_ages[OF assms(1-3)] select.srt_ages[OF assms(1-3)] insert.srt_ages[OF assms(1-3)]
      shell.srt_ages[OF assms(1-3)] merge.srt_ages[OF assms(1-3)] quick.srt_ages[OF assms(1-3)]
    by (auto simp: p_sort_def)
qed

end
