(* ===== verification/SortList.thy ===== *)
theory SortList
  imports KernelList Compare
begin

section \<open>Sorting rings (07Sort/sort_list.c)\<close>

text \<open>
  The same three quadratic routines as for arrays, on a kernel list: elements are exchanged by relinking
  their nodes. \<open>08Huffman/sort_list.c\<close> is the same file without its \<open>main\<close>; the compression tool uses
  its \<open>insert_sort\<close>. \<open>cmp\<close> reads the two nodes, so it is a function of the memory and two addresses.

  \<open>swap\<close> keeps a list head of its own on the stack; \<open>tmp\<close> is its address. It is part of the memory as
  long as the function runs.
\<close>

type_synonym 'n node_cmp = "'n heap \<Rightarrow> ptr \<Rightarrow> ptr \<Rightarrow> int option"

definition list_swap ::
    "ptr \<Rightarrow> 'z list_head_scheme heap \<Rightarrow> ptr \<Rightarrow> ptr \<Rightarrow> 'z list_head_scheme heap option" where
  "list_swap tmp h pa pb = do {
     let h = h\<lparr>mem := (mem h)(tmp \<mapsto> (junk h)\<lparr>prev := tmp, nxt := tmp\<rparr>)\<rparr>;
     nx \<leftarrow> rd h nxt pa;
     h \<leftarrow> list_add_between h tmp pa nx;
     h \<leftarrow> list_del h pa;
     nx \<leftarrow> rd h nxt pb;
     h \<leftarrow> list_add_between h pa pb nx;
     h \<leftarrow> list_del h pb;
     nx \<leftarrow> rd h nxt tmp;
     h \<leftarrow> list_add_between h pb tmp nx;
     h \<leftarrow> list_del h tmp;
     Some (h\<lparr>mem := (mem h)(tmp := None)\<rparr>)
   }"

text \<open>The inner loop of \<open>bubble_sort\<close> returns the new value of \<open>end\<close>, which it moves.\<close>

partial_function (option) list_bubble_inner ::
    "ptr \<Rightarrow> 'z list_head_scheme node_cmp \<Rightarrow> ptr \<Rightarrow> 'z list_head_scheme heap \<Rightarrow> ptr \<Rightarrow> ptr \<Rightarrow>
     ('z list_head_scheme heap \<times> ptr) option" where
  "list_bubble_inner tmp cmp head h start end0 =
     (if start \<noteq> head \<and> start \<noteq> end0 then do {
        nx \<leftarrow> rd h nxt start;
        r \<leftarrow> cmp h start nx;
        (h, start, end0) \<leftarrow> (if r > 0 then do {
            nx \<leftarrow> rd h nxt start;
            h \<leftarrow> list_swap tmp h start nx;
            start \<leftarrow> rd h prev start;
            end0 \<leftarrow> (if start = end0 then rd h nxt end0 else Some end0);
            Some (h, start, end0)
          } else Some (h, start, end0));
        start \<leftarrow> rd h nxt start;
        list_bubble_inner tmp cmp head h start end0
      } else Some (h, end0))"

partial_function (option) list_bubble_outer ::
    "ptr \<Rightarrow> 'z list_head_scheme node_cmp \<Rightarrow> ptr \<Rightarrow> 'z list_head_scheme heap \<Rightarrow> ptr \<Rightarrow>
     'z list_head_scheme heap option" where
  "list_bubble_outer tmp cmp head h end0 =
     (if end0 \<noteq> head then do {
        start \<leftarrow> rd h nxt head;
        (h, end0) \<leftarrow> list_bubble_inner tmp cmp head h start end0;
        end0 \<leftarrow> rd h prev end0;
        list_bubble_outer tmp cmp head h end0
      } else Some h)"

definition list_bubble_sort ::
    "ptr \<Rightarrow> 'z list_head_scheme node_cmp \<Rightarrow> 'z list_head_scheme heap \<Rightarrow> ptr \<Rightarrow> 'z list_head_scheme heap option" where
  "list_bubble_sort tmp cmp h head = do {
     end0 \<leftarrow> rd h prev head;
     list_bubble_outer tmp cmp head h end0
   }"

partial_function (option) list_select_min ::
    "'z list_head_scheme node_cmp \<Rightarrow> ptr \<Rightarrow> 'z list_head_scheme heap \<Rightarrow> ptr \<Rightarrow> ptr \<Rightarrow> ptr option" where
  "list_select_min cmp head h min0 j =
     (if j \<noteq> head then do {
        r \<leftarrow> cmp h j min0;
        let min0 = (if r < 0 then j else min0);
        j \<leftarrow> rd h nxt j;
        list_select_min cmp head h min0 j
      } else Some min0)"

partial_function (option) list_select_loop ::
    "ptr \<Rightarrow> 'z list_head_scheme node_cmp \<Rightarrow> ptr \<Rightarrow> 'z list_head_scheme heap \<Rightarrow> ptr \<Rightarrow>
     'z list_head_scheme heap option" where
  "list_select_loop tmp cmp head h i = do {
     e \<leftarrow> rd h prev head;
     (if i \<noteq> e then do {
        j \<leftarrow> rd h nxt i;
        min0 \<leftarrow> list_select_min cmp head h i j;
        (h, i) \<leftarrow> (if min0 \<noteq> i then do { h \<leftarrow> list_swap tmp h min0 i; Some (h, min0) } else Some (h, i));
        i \<leftarrow> rd h nxt i;
        list_select_loop tmp cmp head h i
      } else Some h)
   }"

definition list_select_sort ::
    "ptr \<Rightarrow> 'z list_head_scheme node_cmp \<Rightarrow> 'z list_head_scheme heap \<Rightarrow> ptr \<Rightarrow> 'z list_head_scheme heap option" where
  "list_select_sort tmp cmp h head = do {
     i \<leftarrow> rd h nxt head;
     list_select_loop tmp cmp head h i
   }"

text \<open>The backward search of \<open>insert_sort\<close> for the place of \<open>i\<close>, with both insertions.\<close>

partial_function (option) list_insert_back ::
    "'z list_head_scheme node_cmp \<Rightarrow> ptr \<Rightarrow> 'z list_head_scheme heap \<Rightarrow> ptr \<Rightarrow> ptr \<Rightarrow> 'z list_head_scheme heap option" where
  "list_insert_back cmp head h i j =
     (if j \<noteq> head then do {
        r \<leftarrow> cmp h j i;
        (if r \<le> 0 then do { nx \<leftarrow> rd h nxt j; list_add_between h i j nx }
         else do { pr \<leftarrow> rd h prev j; list_insert_back cmp head h i pr })
      } else do { nx \<leftarrow> rd h nxt j; list_add_between h i j nx })"

partial_function (option) list_insert_loop ::
    "'z list_head_scheme node_cmp \<Rightarrow> ptr \<Rightarrow> 'z list_head_scheme heap \<Rightarrow> ptr \<Rightarrow> 'z list_head_scheme heap option" where
  "list_insert_loop cmp head h i =
     (if i \<noteq> head then do {
        j \<leftarrow> rd h prev i;
        Next \<leftarrow> rd h nxt i;
        r \<leftarrow> cmp h i j;
        h \<leftarrow> (if r \<ge> 0 then Some h
          else do { h \<leftarrow> list_del h i; list_insert_back cmp head h i j });
        list_insert_loop cmp head h Next
      } else Some h)"

definition list_insert_sort ::
    "'z list_head_scheme node_cmp \<Rightarrow> 'z list_head_scheme heap \<Rightarrow> ptr \<Rightarrow> 'z list_head_scheme heap option" where
  "list_insert_sort cmp h head = do {
     nx \<leftarrow> rd h nxt head;
     i \<leftarrow> rd h nxt nx;
     list_insert_loop cmp head h i
   }"

text \<open>The demo compares the numbers of its nodes by subtraction.\<close>

record sort_node = list_head +
  sdata :: int

definition cmp_list :: "sort_node node_cmp" where
  "cmp_list h pa pb = do {
     a \<leftarrow> rd h sdata pa;
     b \<leftarrow> rd h sdata pb;
     (if - (2 ^ 31) \<le> a - b \<and> a - b < 2 ^ 31 then Some (a - b) else None)
   }"

subsection \<open>Relinking\<close>

text \<open>What the operations leave alone: the objects and their contents other than the links.\<close>

definition kept :: "'z list_head_scheme heap \<Rightarrow> 'z list_head_scheme heap \<Rightarrow> bool" where
  "kept h h' \<longleftrightarrow> fld h' list_head.more = fld h list_head.more \<and> (\<forall>q. live h' q = live h q)"

lemma kept_refl [simp]: "kept h h"
  by (simp add: kept_def)

lemma kept_trans: "kept h h1 \<Longrightarrow> kept h1 h2 \<Longrightarrow> kept h h2"
  by (simp add: kept_def)

lemma links_kept: "links_to h h' N P \<Longrightarrow> kept h h'"
  by (simp add: links_to_def kept_def)

lemma kept_live: "kept h h' \<Longrightarrow> live h' q = live h q"
  by (simp add: kept_def)

lemma add_after:
  assumes "ring h head (us @ ys)" and "p = last (head # us)" and "live h n" and "n \<notin> set (head # us @ ys)"
  shows "\<exists>nx h'. rd h nxt p = Some nx \<and> list_add_between h n p nx = Some h' \<and> ring h' head (us @ n # ys) \<and> kept h h'"
proof -
  have "fld h nxt p = Some (hd (ys @ [head]))"
  proof (cases us rule: rev_cases)
    case Nil
    then show ?thesis using dring_next_head[OF assms(1)] assms(2) by simp
  next
    case (snoc vs l)
    then show ?thesis using dring_next[of "fld h nxt" "fld h prev" head vs l ys] assms(1,2) by simp
  qed
  moreover have "live h p"
    using ring_live_around(1)[OF assms(1)] assms(2) by simp
  moreover obtain h' where "list_add_between h n p (hd (ys @ [head])) = Some h'" "ring h' head (us @ n # ys)" "kept h h'"
    using list_add_between_ring[OF assms(1,3,4,2) refl] links_kept by blast
  ultimately show ?thesis by (auto simp: live_rd)
qed

lemma del_node:
  assumes "ring h head (us @ n # ys)"
  shows "\<exists>h'. list_del h n = Some h' \<and> ring h' head (us @ ys) \<and> kept h h'"
  using list_del_ring[OF assms] links_kept by blast

lemma ring_rds:
  assumes "ring h head (us @ x # ys)"
  shows "rd h nxt x = Some (hd (ys @ [head]))" and "rd h prev x = Some (last (head # us))"
  using dring_next[OF assms] dring_prev[OF assms] ring_live[OF assms, of x] by (auto simp: live_rd)

lemma ring_rds_head:
  assumes "ring h head xs"
  shows "rd h nxt head = Some (hd (xs @ [head]))" and "rd h prev head = Some (last (head # xs))"
  using dring_next_head[OF assms] dring_prev_head[OF assms] ring_live_head[OF assms] by (auto simp: live_rd)

text \<open>The stack slot of \<open>list_swap\<close> comes and goes.\<close>

definition slot :: "ptr \<Rightarrow> 'z list_head_scheme heap \<Rightarrow> 'z list_head_scheme heap" where
  "slot tmp h = h\<lparr>mem := (mem h)(tmp \<mapsto> (junk h)\<lparr>prev := tmp, nxt := tmp\<rparr>)\<rparr>"

lemma slot_enter:
  assumes "ring h head xs" and "tmp \<noteq> NULL" and "mem h tmp = None"
  shows "ring (slot tmp h) head xs" and "live (slot tmp h) tmp" and "tmp \<notin> set (head # xs)"
proof -
  show t: "tmp \<notin> set (head # xs)" using ring_live[OF assms(1), of tmp] assms(3) by (auto simp: live_def)
  have "ring (slot tmp h) head xs = ring h head xs"
    by (rule dring_frame) (use t in \<open>auto simp: slot_def fld_def\<close>)
  then show "ring (slot tmp h) head xs" using assms(1) by simp
  show "live (slot tmp h) tmp" using assms(2) by (simp add: slot_def live_def)
qed

lemma slot_leave:
  assumes "kept (slot tmp h) h'" and "ring h' head xs" and "mem h tmp = None" and "tmp \<notin> set (head # xs)"
  shows "ring (h'\<lparr>mem := (mem h')(tmp := None)\<rparr>) head xs" and "kept h (h'\<lparr>mem := (mem h')(tmp := None)\<rparr>)"
proof -
  have "ring (h'\<lparr>mem := (mem h')(tmp := None)\<rparr>) head xs = ring h' head xs"
    by (rule dring_frame) (use assms(4) in \<open>auto simp: fld_def\<close>)
  then show "ring (h'\<lparr>mem := (mem h')(tmp := None)\<rparr>) head xs" using assms(2) by simp
  have m: "fld h' list_head.more = fld (slot tmp h) list_head.more" using assms(1) by (simp add: kept_def)
  have "fld (h'\<lparr>mem := (mem h')(tmp := None)\<rparr>) list_head.more q = fld h list_head.more q" for q
    using fun_cong[OF m, of q] assms(3) by (simp add: slot_def fld_def split: if_splits)
  moreover have "live (h'\<lparr>mem := (mem h')(tmp := None)\<rparr>) q = live h q" for q
    using assms(1,3) unfolding kept_def by (simp add: live_dealloc) (simp add: slot_def live_def)
  ultimately show "kept h (h'\<lparr>mem := (mem h')(tmp := None)\<rparr>)" by (auto simp: kept_def)
qed

lemma list_swap_adjacent:
  assumes r: "ring h head (us @ a # b # ws)" and t: "tmp \<noteq> NULL" "mem h tmp = None"
  shows "\<exists>h'. list_swap tmp h a b = Some h' \<and> ring h' head (us @ b # a # ws) \<and> kept h h'"
proof -
  have d: "distinct (head # us @ a # b # ws)" by (rule dring_distinct[OF r])
  note s0 = slot_enter[OF r t]
  obtain n1 h1 where h1: "rd (slot tmp h) nxt a = Some n1" "list_add_between (slot tmp h) tmp a n1 = Some h1"
      "ring h1 head ((us @ [a]) @ tmp # b # ws)" "kept (slot tmp h) h1"
    using add_after[of "slot tmp h" head "us @ [a]" "b # ws" a tmp] s0 by auto
  obtain h2 where h2: "list_del h1 a = Some h2" "ring h2 head (us @ tmp # b # ws)" "kept h1 h2"
    using del_node[of h1 head us a "tmp # b # ws"] h1(3) by auto
  have lv2: "live h2 q = live (slot tmp h) q" for q using h1(4) h2(3) by (simp add: kept_def)
  have la: "live (slot tmp h) a" "live (slot tmp h) b" using ring_live[OF s0(1)] by auto
  obtain n3 h3 where h3: "rd h2 nxt b = Some n3" "list_add_between h2 a b n3 = Some h3"
      "ring h3 head ((us @ [tmp, b]) @ a # ws)" "kept h2 h3"
    using add_after[of h2 head "us @ [tmp, b]" ws b a] h2(2) lv2 la d s0(3) by auto
  obtain h4 where h4: "list_del h3 b = Some h4" "ring h4 head ((us @ [tmp]) @ a # ws)" "kept h3 h4"
    using del_node[of h3 head "us @ [tmp]" b "a # ws"] h3(3) by auto
  have lv4: "live h4 q = live (slot tmp h) q" for q using lv2 h3(4) h4(3) by (simp add: kept_def)
  obtain n5 h5 where h5: "rd h4 nxt tmp = Some n5" "list_add_between h4 b tmp n5 = Some h5"
      "ring h5 head ((us @ [tmp]) @ b # a # ws)" "kept h4 h5"
    using add_after[of h4 head "us @ [tmp]" "a # ws" tmp b] h4(2) lv4 la d s0(3) by auto
  obtain h6 where h6: "list_del h5 tmp = Some h6" "ring h6 head (us @ b # a # ws)" "kept h5 h6"
    using del_node[of h5 head us tmp "b # a # ws"] h5(3) by auto
  have "kept (slot tmp h) h6"
    using h1(4) h2(3) h3(4) h4(3) h5(4) h6(3) by (meson kept_trans)
  from slot_leave[OF this h6(2) t(2)] s0(3)
  have "ring (h6\<lparr>mem := (mem h6)(tmp := None)\<rparr>) head (us @ b # a # ws)" "kept h (h6\<lparr>mem := (mem h6)(tmp := None)\<rparr>)"
    by auto
  moreover have "list_swap tmp h a b = Some (h6\<lparr>mem := (mem h6)(tmp := None)\<rparr>)"
    unfolding list_swap_def Let_def slot_def[symmetric] by (simp add: h1(1,2) h2(1) h3(1,2) h4(1) h5(1,2) h6(1))
  ultimately show ?thesis by blast
qed

lemma list_swap_apart:
  assumes r: "ring h head (us @ i # vs @ m # ws)" and t: "tmp \<noteq> NULL" "mem h tmp = None"
  shows "\<exists>h'. list_swap tmp h m i = Some h' \<and> ring h' head (us @ m # vs @ i # ws) \<and> kept h h'"
proof -
  have d: "distinct (head # us @ i # vs @ m # ws)" by (rule dring_distinct[OF r])
  note s0 = slot_enter[OF r t]
  obtain n1 h1 where h1: "rd (slot tmp h) nxt m = Some n1" "list_add_between (slot tmp h) tmp m n1 = Some h1"
      "ring h1 head ((us @ i # vs @ [m]) @ tmp # ws)" "kept (slot tmp h) h1"
    using add_after[of "slot tmp h" head "us @ i # vs @ [m]" ws m tmp] s0 by auto
  obtain h2 where h2: "list_del h1 m = Some h2" "ring h2 head ((us @ i # vs) @ tmp # ws)" "kept h1 h2"
    using del_node[of h1 head "us @ i # vs" m "tmp # ws"] h1(3) by auto
  have lv2: "live h2 q = live (slot tmp h) q" for q using h1(4) h2(3) by (simp add: kept_def)
  have la: "live (slot tmp h) i" "live (slot tmp h) m" using ring_live[OF s0(1)] by auto
  obtain n3 h3 where h3: "rd h2 nxt i = Some n3" "list_add_between h2 m i n3 = Some h3"
      "ring h3 head ((us @ [i]) @ m # vs @ tmp # ws)" "kept h2 h3"
    using add_after[of h2 head "us @ [i]" "vs @ tmp # ws" i m] h2(2) lv2 la d s0(3) by auto
  obtain h4 where h4: "list_del h3 i = Some h4" "ring h4 head (us @ m # vs @ tmp # ws)" "kept h3 h4"
    using del_node[of h3 head us i "m # vs @ tmp # ws"] h3(3) by auto
  have lv4: "live h4 q = live (slot tmp h) q" for q using lv2 h3(4) h4(3) by (simp add: kept_def)
  obtain n5 h5 where h5: "rd h4 nxt tmp = Some n5" "list_add_between h4 i tmp n5 = Some h5"
      "ring h5 head ((us @ m # vs @ [tmp]) @ i # ws)" "kept h4 h5"
    using add_after[of h4 head "us @ m # vs @ [tmp]" ws tmp i] h4(2) lv4 la d s0(3) by auto
  obtain h6 where h6: "list_del h5 tmp = Some h6" "ring h6 head ((us @ m # vs) @ i # ws)" "kept h5 h6"
    using del_node[of h5 head "us @ m # vs" tmp "i # ws"] h5(3) by auto
  have "kept (slot tmp h) h6"
    using h1(4) h2(3) h3(4) h4(3) h5(4) h6(3) by (meson kept_trans)
  from slot_leave[OF this h6(2) t(2)] s0(3)
  have "ring (h6\<lparr>mem := (mem h6)(tmp := None)\<rparr>) head (us @ m # vs @ i # ws)" "kept h (h6\<lparr>mem := (mem h6)(tmp := None)\<rparr>)"
    by auto
  moreover have "list_swap tmp h m i = Some (h6\<lparr>mem := (mem h6)(tmp := None)\<rparr>)"
    unfolding list_swap_def Let_def slot_def[symmetric] by (simp add: h1(1,2) h2(1) h3(1,2) h4(1) h5(1,2) h6(1))
  ultimately show ?thesis by blast
qed

subsection \<open>Insertion sort\<close>

text \<open>
  The comparison reads what \<open>kept\<close> protects, so it stays the same while nodes are relinked.
\<close>

context compare
begin

definition node_agrees :: "(ptr \<Rightarrow> 'k) \<Rightarrow> 'z list_head_scheme node_cmp \<Rightarrow> 'z list_head_scheme heap \<Rightarrow> ptr set \<Rightarrow> bool" where
  "node_agrees key c h S \<longleftrightarrow> (\<forall>h'. kept h h' \<longrightarrow> agrees key (c h') S)"

lemma node_agrees_kept: "node_agrees key c h S \<Longrightarrow> kept h h' \<Longrightarrow> node_agrees key c h' S"
  unfolding node_agrees_def by (meson kept_trans)

lemma node_agrees_here: "node_agrees key c h S \<Longrightarrow> agrees key (c h) S"
  by (simp add: node_agrees_def)

lemma node_agreesD: "node_agrees key c h S \<Longrightarrow> a \<in> S \<Longrightarrow> b \<in> S \<Longrightarrow> c h a b = Some (cmp (key a) (key b))"
  by (rule agreesD[OF node_agrees_here])

lemma list_insert_back_place:
  assumes "ring h head (us @ vs)" and "node_agrees key c h (set (x # us))"
    and "live h x" and "x \<notin> set (head # us @ vs)" and "j = last (head # us)"
  shows "\<exists>us1 us2 h'. us = us1 @ us2 \<and> list_insert_back c head h x j = Some h' \<and> ring h' head (us1 @ x # us2 @ vs)
    \<and> kept h h' \<and> (\<forall>u \<in> set us2. 0 < cmp (key u) (key x)) \<and> (us1 = [] \<or> cmp (key (last us1)) (key x) \<le> 0)"
  using assms
proof (induction us arbitrary: vs j rule: rev_induct)
  case Nil
  obtain nx h' where "rd h nxt j = Some nx" "list_add_between h x j nx = Some h'" "ring h' head ([] @ x # vs)" "kept h h'"
    using add_after[of h head "[]" vs j x] Nil.prems by auto
  moreover have "list_insert_back c head h x j = Some h'"
    using calculation(1,2) Nil.prems(5) by (subst list_insert_back.simps) simp
  ultimately show ?case by (intro exI[of _ "[]"] exI[of _ h']) simp
next
  case (snoc u us)
  have j: "j = u" "u \<noteq> head" using snoc.prems(5) dring_distinct[OF snoc.prems(1)] by auto
  have f: "c h u x = Some (cmp (key u) (key x))" using node_agreesD[OF snoc.prems(2)] by simp
  show ?case
  proof (cases "cmp (key u) (key x) \<le> 0")
    case True
    obtain nx h' where "rd h nxt u = Some nx" "list_add_between h x u nx = Some h'" "ring h' head ((us @ [u]) @ x # vs)" "kept h h'"
      using add_after[of h head "us @ [u]" vs u x] snoc.prems by auto
    moreover have "list_insert_back c head h x j = Some h'"
      using calculation(1,2) f True j by (subst list_insert_back.simps) simp
    ultimately show ?thesis using True by (intro exI[of _ "us @ [u]"] exI[of _ "[]"] exI[of _ h']) simp
  next
    case False
    have pr: "rd h prev u = Some (last (head # us))" using ring_rds(2)[of h head us u vs] snoc.prems(1) by simp
    have r: "ring h head (us @ u # vs)" using snoc.prems(1) by simp
    have x: "x \<notin> set (head # us @ u # vs)" using snoc.prems(4) by simp
    have a: "node_agrees key c h (set (x # us))"
      using snoc.prems(2) unfolding node_agrees_def by (auto intro: agrees_mono)
    obtain us1 us2 h' where h': "us = us1 @ us2" "list_insert_back c head h x (last (head # us)) = Some h'"
        "ring h' head (us1 @ x # us2 @ u # vs)" "kept h h'" "\<forall>v \<in> set us2. 0 < cmp (key v) (key x)"
        "us1 = [] \<or> cmp (key (last us1)) (key x) \<le> 0"
      using snoc.IH[OF r a snoc.prems(3) x refl] by blast
    have "list_insert_back c head h x j = Some h'"
      using f False j pr h'(2) by (subst list_insert_back.simps) simp
    then show ?thesis using h' False by (intro exI[of _ us1] exI[of _ "us2 @ [u]"] exI[of _ h']) auto
  qed
qed

lemma list_insert_loop_sorts:
  assumes "ring h head (us @ vs)" and "node_agrees key c h (set (us @ vs))" and "ordered key us" and "us \<noteq> []"
    and "i = hd (vs @ [head])"
  shows "\<exists>zs h'. list_insert_loop c head h i = Some h' \<and> ring h' head zs \<and> kept h h' \<and> sorts key (us @ vs) zs"
  using assms
proof (induction vs arbitrary: us h i)
  case Nil
  then show ?case
    by (intro exI[of _ us] exI[of _ h]) (simp add: list_insert_loop.simps sorts_def)
next
  case (Cons x vs)
  obtain ws l where us: "us = ws @ [l]" using Cons.prems(4) by (cases us rule: rev_cases) auto
  have i: "i = x" "x \<noteq> head" "x \<notin> set (head # us @ vs)" using Cons.prems(5) dring_distinct[OF Cons.prems(1)] by auto
  have rds: "rd h nxt x = Some (hd (vs @ [head]))" "rd h prev x = Some l"
    using ring_rds[OF Cons.prems(1)] us by auto
  have ag: "agrees key (c h) (set (x # us))"
    using agrees_mono[OF node_agrees_here[OF Cons.prems(2)], of "set (x # us)"] by auto
  have f: "c h x l = Some (cmp (key x) (key l))" using agreesD[OF ag] us by simp
  show ?case
  proof (cases "0 \<le> cmp (key x) (key l)")
    case True
    then have "\<forall>u \<in> set us. cmp (key u) (key x) \<le> 0"
      using last_le[OF ag Cons.prems(3)] le_total(3)[OF ag, of x l] us by simp
    then obtain zs h' where "list_insert_loop c head h (hd (vs @ [head])) = Some h'" "ring h' head zs" "kept h h'"
        "sorts key ((us @ [x]) @ vs) zs"
      using Cons.IH[of h "us @ [x]"] Cons.prems by (auto simp: ordered_append)
    moreover have "list_insert_loop c head h i = list_insert_loop c head h (hd (vs @ [head]))"
      using i rds f True by (subst list_insert_loop.simps) simp
    ultimately show ?thesis by auto
  next
    case False
    obtain h1 where h1: "list_del h x = Some h1" "ring h1 head (us @ vs)" "kept h h1"
      using del_node[OF Cons.prems(1)] by blast
    have a1: "node_agrees key c h1 (set (x # us))"
      using node_agrees_kept[OF Cons.prems(2) h1(3)] unfolding node_agrees_def by (auto intro: agrees_mono)
    have l1: "live h1 x" using kept_live[OF h1(3)] ring_live[OF Cons.prems(1), of x] by simp
    obtain us1 us2 h2 where h2: "us = us1 @ us2" "list_insert_back c head h1 x (last (head # us)) = Some h2"
        "ring h2 head (us1 @ x # us2 @ vs)" "kept h1 h2" "\<forall>v \<in> set us2. 0 < cmp (key v) (key x)"
        "us1 = [] \<or> cmp (key (last us1)) (key x) \<le> 0"
      using list_insert_back_place[OF h1(2) a1 l1 i(3) refl] by blast
    have k: "kept h h2" by (rule kept_trans[OF h1(3) h2(4)])
    have "agrees key (c h) (set (x # us1))" using agrees_mono[OF ag, of "set (x # us1)"] h2(1) by auto
    then have "\<forall>u \<in> set us1. cmp (key u) (key x) \<le> 0"
      using last_le[of key "c h" x us1] Cons.prems(3) h2(1,6) by (simp add: ordered_append)
    moreover have "\<forall>u \<in> set us2. cmp (key x) (key u) \<le> 0"
      using h2(1,5) le_total(2)[OF ag, of _ x] by auto
    ultimately have o: "ordered key (us1 @ x # us2)" using Cons.prems(3) h2(1) by (simp add: ordered_append)
    have "node_agrees key c h2 (set ((us1 @ x # us2) @ vs))"
      using node_agrees_kept[OF Cons.prems(2) k] h2(1) by (simp add: insert_commute Un_assoc)
    then obtain zs h' where z: "list_insert_loop c head h2 (hd (vs @ [head])) = Some h'" "ring h' head zs" "kept h2 h'"
        "sorts key ((us1 @ x # us2) @ vs) zs"
      using Cons.IH[of h2 "us1 @ x # us2"] h2(3) o by auto
    have "list_insert_loop c head h i = Some h'"
      using i rds f False h1(1) h2(2) z(1) us by (subst list_insert_loop.simps) simp
    then show ?thesis using z kept_trans[OF k z(3)] h2(1) by (auto simp: sorts_def)
  qed
qed

lemma list_insert_sort_sorts:
  assumes "ring h head xs" and "node_agrees key c h (set xs)"
  shows "\<exists>zs h'. list_insert_sort c h head = Some h' \<and> ring h' head zs \<and> kept h h' \<and> sorts key xs zs"
proof (cases xs)
  case Nil
  then show ?thesis
    using ring_rds_head[OF assms(1)] assms(1)
    by (intro exI[of _ "[]"] exI[of _ h]) (simp add: list_insert_sort_def list_insert_loop.simps sorts_def)
next
  case (Cons x vs)
  have "rd h nxt head = Some x" "rd h nxt x = Some (hd (vs @ [head]))"
    using ring_rds_head[OF assms(1)] ring_rds(1)[of h head "[]" x vs] assms(1) Cons by auto
  then show ?thesis
    using list_insert_loop_sorts[of h head "[x]" vs key c "hd (vs @ [head])"] assms Cons
    by (simp add: list_insert_sort_def)
qed

subsection \<open>Bubble sort\<close>

lemma list_bubble_inner_max:
  assumes "ring h head (us @ x # ys @ post)" and "node_agrees key c h (set (x # ys))"
    and "tmp \<noteq> NULL" and "mem h tmp = None"
  shows "\<exists>zs m h'. list_bubble_inner tmp c head h x (last (x # ys)) = Some (h', m)
    \<and> ring h' head (us @ zs @ m # post) \<and> kept h h' \<and> mset (zs @ [m]) = mset (x # ys)
    \<and> (\<forall>z \<in> set zs. cmp (key z) (key m) \<le> 0)"
  using assms
proof (induction ys arbitrary: x us h)
  case Nil
  then show ?case by (intro exI[of _ "[]"] exI[of _ x] exI[of _ h]) (simp add: list_bubble_inner.simps)
next
  case (Cons y ys)
  have d: "distinct (head # us @ x # y # ys @ post)" using dring_distinct[OF Cons.prems(1)] by simp
  have ne: "x \<noteq> head" "x \<noteq> last (x # y # ys)" using d by auto
  have ag: "agrees key (c h) (set (x # y # ys))" by (rule node_agrees_here[OF Cons.prems(2)])
  have f: "c h x y = Some (cmp (key x) (key y))" using agreesD[OF ag] by simp
  have nx: "rd h nxt x = Some y" using ring_rds(1)[of h head us x "y # ys @ post"] Cons.prems(1) by simp
  define a b where "a = (if cmp (key x) (key y) > 0 then y else x)" and "b = (if cmp (key x) (key y) > 0 then x else y)"
  have ab: "cmp (key a) (key b) \<le> 0" "a \<in> {x, y}" "b \<in> {x, y}" "add_mset a {#b#} = {#x, y#}"
    unfolding a_def b_def using le_total(2)[OF ag, of x y] by auto
  obtain h1 where h1: "ring h1 head ((us @ [a]) @ b # ys @ post)" "kept h h1"
      "list_bubble_inner tmp c head h x (last (x # y # ys)) = list_bubble_inner tmp c head h1 b (last (b # ys))"
  proof (cases "cmp (key x) (key y) > 0")
    case True
    obtain h1 where h1: "list_swap tmp h x y = Some h1" "ring h1 head (us @ y # x # ys @ post)" "kept h h1"
      using list_swap_adjacent[of h head us x y "ys @ post" tmp] Cons.prems by auto
    have "rd h1 prev x = Some y" "rd h1 nxt y = Some x"
      using ring_rds(2)[of h1 head "us @ [y]" x "ys @ post"] ring_rds(1)[of h1 head us y "x # ys @ post"] h1(2) by auto
    then have "list_bubble_inner tmp c head h x (last (x # y # ys)) = list_bubble_inner tmp c head h1 x (last (x # ys))"
      using ne True f nx h1(1) d by (subst list_bubble_inner.simps) auto
    then show ?thesis using that[of h1] h1(2,3) True by (simp add: a_def b_def)
  next
    case False
    then have "list_bubble_inner tmp c head h x (last (x # y # ys)) = list_bubble_inner tmp c head h y (last (y # ys))"
      using ne f nx by (subst list_bubble_inner.simps) simp
    then show ?thesis using that[of h] Cons.prems(1) False by (simp add: a_def b_def)
  qed
  have a1: "node_agrees key c h1 (set (b # ys))"
    using node_agrees_kept[OF Cons.prems(2) h1(2)] ab(3) unfolding node_agrees_def
    by (auto intro: agrees_mono)
  have t1: "mem h1 tmp = None" using kept_live[OF h1(2), of tmp] Cons.prems(3,4) by (simp add: live_def)
  obtain zs m h' where r: "list_bubble_inner tmp c head h1 b (last (b # ys)) = Some (h', m)"
      "ring h' head ((us @ [a]) @ zs @ m # post)" "kept h1 h'" "mset (zs @ [m]) = mset (b # ys)"
      "\<forall>z \<in> set zs. cmp (key z) (key m) \<le> 0"
    using Cons.IH[OF h1(1) a1 Cons.prems(3) t1] by blast
  have sets: "insert m (set zs) = insert b (set ys)" using arg_cong[OF r(4), of set_mset] by simp
  have inS: "a \<in> set (x # y # ys)" "b \<in> set (x # y # ys)" "m \<in> set (x # y # ys)" using ab(2,3) sets by auto
  have "cmp (key b) (key m) \<le> 0"
  proof (cases "b = m")
    case True
    then show ?thesis using cmp_refl agrees_K[OF ag inS(2)] by simp
  next
    case False
    then show ?thesis using sets r(5) by blast
  qed
  then have "\<forall>z \<in> set (a # zs). cmp (key z) (key m) \<le> 0" using r(5) le_trans[OF ag inS ab(1)] by simp
  moreover have "mset ((a # zs) @ [m]) = mset (x # y # ys)"
  proof -
    have "mset ((a # zs) @ [m]) = add_mset a {#b#} + mset ys" using r(4) by simp
    then show ?thesis by (simp add: ab(4))
  qed
  ultimately show ?case using h1(3) r(1,2) kept_trans[OF h1(2) r(3)]
    by (intro exI[of _ "a # zs"] exI[of _ m] exI[of _ h']) simp
qed

lemma list_bubble_outer_sorts:
  assumes "ring h head (ys @ post)" and "node_agrees key c h (set (ys @ post))" and "ordered key post"
    and "\<forall>y \<in> set ys. \<forall>z \<in> set post. cmp (key y) (key z) \<le> 0" and "tmp \<noteq> NULL" and "mem h tmp = None"
  shows "\<exists>zs h'. list_bubble_outer tmp c head h (last (head # ys)) = Some h' \<and> ring h' head zs \<and> kept h h'
    \<and> sorts key (ys @ post) zs"
  using assms
proof (induction "length ys" arbitrary: ys post h)
  case 0
  then show ?case by (intro exI[of _ post] exI[of _ h]) (simp add: list_bubble_outer.simps sorts_def)
next
  case (Suc n)
  obtain x us where ys: "ys = x # us" using Suc.hyps(2) by (cases ys) auto
  have "last ys \<in> set ys" using ys by simp
  then have ne: "last (head # ys) = last ys" "last ys \<noteq> head"
    using ys dring_distinct[OF Suc.prems(1)] by auto
  have nx: "rd h nxt head = Some x" using ring_rds_head(1)[OF Suc.prems(1)] ys by simp
  have "node_agrees key c h (set (x # us))"
    using Suc.prems(2) ys unfolding node_agrees_def by (auto intro: agrees_mono)
  then obtain zs m h1 where r: "list_bubble_inner tmp c head h x (last (x # us)) = Some (h1, m)"
      "ring h1 head ([] @ zs @ m # post)" "kept h h1" "mset (zs @ [m]) = mset ys"
      "\<forall>z \<in> set zs. cmp (key z) (key m) \<le> 0"
    using list_bubble_inner_max[of h head "[]" x us post key c tmp] Suc.prems(1,5,6) ys by auto
  have sets: "set ys = insert m (set zs)" using arg_cong[OF r(4), of set_mset] by simp
  have len: "n = length zs" using arg_cong[OF r(4), of size] Suc.hyps(2) by simp
  have pr: "rd h1 prev m = Some (last (head # zs))" using ring_rds(2)[of h1 head zs m post] r(2) by simp
  have t1: "mem h1 tmp = None" using kept_live[OF r(3), of tmp] Suc.prems(5,6) by (simp add: live_def)
  have "node_agrees key c h1 (set (zs @ m # post))"
    using node_agrees_kept[OF Suc.prems(2) r(3)] sets by simp
  then obtain ws h' where w: "list_bubble_outer tmp c head h1 (last (head # zs)) = Some h'" "ring h' head ws"
      "kept h1 h'" "sorts key (zs @ m # post) ws"
    using Suc.hyps(1)[OF len, of h1 "m # post"] r(2,5) Suc.prems(3,4,5) sets t1 by auto
  have "list_bubble_outer tmp c head h (last (head # ys)) = Some h'"
    using ne nx r(1) pr w(1) ys by (subst list_bubble_outer.simps) simp
  moreover have "mset (zs @ m # post) = mset (ys @ post)" by (simp flip: r(4))
  ultimately show ?case using w(2,4) kept_trans[OF r(3) w(3)] by (auto simp: sorts_def)
qed

lemma list_bubble_sort_sorts:
  assumes "ring h head xs" and "node_agrees key c h (set xs)" and "tmp \<noteq> NULL" and "mem h tmp = None"
  shows "\<exists>zs h'. list_bubble_sort tmp c h head = Some h' \<and> ring h' head zs \<and> kept h h' \<and> sorts key xs zs"
  using list_bubble_outer_sorts[of h head xs "[]" key c tmp] ring_rds_head(2)[OF assms(1)] assms
  by (simp add: list_bubble_sort_def)

subsection \<open>Selection sort\<close>

lemma list_select_min_least:
  assumes "ring h head (us @ ys)" and "node_agrees key c h S" and "set ys \<subseteq> S" and "m \<in> S" and "j = hd (ys @ [head])"
  shows "\<exists>m'. list_select_min c head h m j = Some m' \<and> m' \<in> insert m (set ys)
    \<and> (\<forall>y \<in> insert m (set ys). cmp (key m') (key y) \<le> 0)"
  using assms
proof (induction ys arbitrary: us m j)
  case Nil
  then show ?case
    using cmp_refl agrees_K[OF node_agrees_here[OF Nil.prems(2)] Nil.prems(4)]
    by (simp add: list_select_min.simps)
next
  case (Cons y ys)
  have j: "j = y" "y \<noteq> head" using Cons.prems(5) dring_distinct[OF Cons.prems(1)] by auto
  have ag: "agrees key (c h) S" by (rule node_agrees_here[OF Cons.prems(2)])
  have yS: "y \<in> S" using Cons.prems(3) by simp
  have f: "c h y m = Some (cmp (key y) (key m))" using agreesD[OF ag yS Cons.prems(4)] .
  have nx: "rd h nxt y = Some (hd (ys @ [head]))" by (rule ring_rds(1)[OF Cons.prems(1)])
  define m0 where "m0 = (if cmp (key y) (key m) < 0 then y else m)"
  have m0: "m0 \<in> S" "cmp (key m0) (key y) \<le> 0" "cmp (key m0) (key m) \<le> 0"
    using yS Cons.prems(4) le_total(3)[OF ag yS Cons.prems(4)] cmp_refl agrees_K[OF ag] by (auto simp: m0_def)
  obtain m' where m': "list_select_min c head h m0 (hd (ys @ [head])) = Some m'" "m' \<in> insert m0 (set ys)"
      "\<forall>z \<in> insert m0 (set ys). cmp (key m') (key z) \<le> 0"
    using Cons.IH[of "us @ [y]" m0 "hd (ys @ [head])"] Cons.prems m0(1) by auto
  have mS: "m' \<in> S" using m'(2) m0(1) Cons.prems(3) by auto
  have "cmp (key m') (key z) \<le> 0" if "z \<in> {y, m}" for z
    using le_trans[OF ag mS m0(1), of z] m'(3) m0(2,3) that yS Cons.prems(4) by auto
  moreover have "m' \<in> insert m (set (y # ys))" using m'(2) by (auto simp: m0_def)
  moreover have "list_select_min c head h m j = Some m'"
    using j f nx m'(1) by (subst list_select_min.simps) (auto simp: m0_def Let_def split: if_splits)
  ultimately show ?case using m'(3) by auto
qed

lemma list_select_loop_sorts:
  assumes "ring h head (us @ vs)" and "node_agrees key c h (set (us @ vs))" and "ordered key us"
    and "\<forall>u \<in> set us. \<forall>v \<in> set vs. cmp (key u) (key v) \<le> 0" and "vs \<noteq> []" and "i = hd vs"
    and "tmp \<noteq> NULL" and "mem h tmp = None"
  shows "\<exists>zs h'. list_select_loop tmp c head h i = Some h' \<and> ring h' head zs \<and> kept h h' \<and> sorts key (us @ vs) zs"
  using assms
proof (induction "length vs" arbitrary: us vs h i)
  case 0
  then show ?case by simp
next
  case (Suc n)
  obtain ws where vs: "vs = i # ws" using Suc.prems(5,6) by (cases vs) auto
  have d: "distinct (head # us @ i # ws)" using dring_distinct[OF Suc.prems(1)] vs by simp
  have e: "rd h prev head = Some (last (i # ws))" using ring_rds_head(2)[OF Suc.prems(1)] vs by simp
  have r0: "ring h head (us @ i # ws)" using Suc.prems(1) vs by simp
  show ?case
  proof (cases "ws = []")
    case True
    then have "ordered key (us @ vs)" using Suc.prems(3,4) vs by (simp add: ordered_append)
    then show ?thesis using e True Suc.prems(1)
      by (intro exI[of _ "us @ vs"] exI[of _ h]) (simp add: list_select_loop.simps sorts_def)
  next
    case False
    then have ne: "i \<noteq> last (i # ws)" using d by auto
    have nx: "rd h nxt i = Some (hd (ws @ [head]))" by (rule ring_rds(1)[OF r0])
    obtain m where m: "list_select_min c head h i (hd (ws @ [head])) = Some m" "m \<in> set vs"
        "\<forall>v \<in> set vs. cmp (key m) (key v) \<le> 0"
      using list_select_min_least[of h head "us @ [i]" ws key c "set (us @ vs)" i] Suc.prems(1,2) vs by auto
    obtain xs h1 where x: "ring h1 head ((us @ [m]) @ xs)" "kept h h1" "mset (m # xs) = mset vs" "xs \<noteq> []"
        "list_select_loop tmp c head h i = list_select_loop tmp c head h1 (hd xs)"
    proof (cases "m = i")
      case True
      then have "list_select_loop tmp c head h i = list_select_loop tmp c head h (hd ws)"
        using e ne nx m(1) False by (subst list_select_loop.simps) simp
      then show ?thesis using that[of h ws] r0 True vs False by simp
    next
      case mi: False
      then obtain vs1 vs2 where w: "ws = vs1 @ m # vs2" using m(2) vs by (auto dest: split_list)
      obtain h1 where h1: "list_swap tmp h m i = Some h1" "ring h1 head (us @ m # vs1 @ i # vs2)" "kept h h1"
        using list_swap_apart[of h head us i vs1 m vs2 tmp] r0 w Suc.prems(7,8) by auto
      have n1: "rd h1 nxt m = Some (hd (vs1 @ i # vs2))"
        using ring_rds(1)[OF h1(2)] by (cases vs1) auto
      have "list_select_loop tmp c head h i = list_select_loop tmp c head h1 (hd (vs1 @ i # vs2))"
        using e ne nx m(1) mi h1(1) n1 by (subst list_select_loop.simps) simp
      then show ?thesis using that[of h1 "vs1 @ i # vs2"] h1(2,3) vs w by simp
    qed
    have sets: "insert m (set xs) = set vs" using arg_cong[OF x(3), of set_mset] by simp
    have len: "n = length xs" using arg_cong[OF x(3), of size] Suc.hyps(2) by simp
    have "node_agrees key c h1 (set ((us @ [m]) @ xs))"
      using node_agrees_kept[OF Suc.prems(2) x(2)] sets by simp
    moreover have "ordered key (us @ [m])" using Suc.prems(3,4) m(2) by (simp add: ordered_append)
    moreover have "\<forall>u \<in> set (us @ [m]). \<forall>v \<in> set xs. cmp (key u) (key v) \<le> 0" using Suc.prems(4) m(3) sets by auto
    moreover have "mem h1 tmp = None" using kept_live[OF x(2), of tmp] Suc.prems(7,8) by (simp add: live_def)
    ultimately obtain zs h' where z: "list_select_loop tmp c head h1 (hd xs) = Some h'" "ring h' head zs" "kept h1 h'"
        "sorts key ((us @ [m]) @ xs) zs"
      using Suc.hyps(1)[OF len x(1) _ _ _ x(4) refl Suc.prems(7)] by blast
    have "mset ((us @ [m]) @ xs) = mset (us @ vs)" by (simp flip: x(3))
    then show ?thesis using z x(5) kept_trans[OF x(2) z(3)] by (auto simp: sorts_def)
  qed
qed

lemma list_select_sort_sorts:
  assumes "ring h head xs" and "node_agrees key c h (set xs)" and "tmp \<noteq> NULL" and "mem h tmp = None"
  shows "\<exists>zs h'. list_select_sort tmp c h head = Some h' \<and> ring h' head zs \<and> kept h h' \<and> sorts key xs zs"
proof (cases "xs = []")
  case True
  then show ?thesis
    using ring_rds_head[OF assms(1)] assms(1)
    by (intro exI[of _ "[]"] exI[of _ h]) (simp add: list_select_sort_def list_select_loop.simps sorts_def)
next
  case False
  then show ?thesis
    using list_select_loop_sorts[of h head "[]" xs key c "hd xs" tmp] ring_rds_head(1)[OF assms(1)] assms
    by (simp add: list_select_sort_def)
qed

end

text \<open>The comparison of the demo.\<close>

lemma kept_sdata:
  assumes "kept (h :: sort_node heap) h'"
  shows "fld h' sdata = fld h sdata"
proof (rule fld_more_cong)
  show "fld h' list_head.more = fld h list_head.more" using assms by (simp add: kept_def)
  show "sdata n = sdata n'" if "list_head.more n = list_head.more n'" for n n' :: sort_node
    using that by (cases n; cases n') simp
qed

lemma cmp_list_agrees:
  assumes "map (fld h sdata) xs = map (\<lambda>p. Some (d p)) xs" and "NULL \<notin> set xs"
    and "\<forall>a \<in> set xs. \<forall>b \<in> set xs. - (2 ^ 31) \<le> d a - d b \<and> d a - d b < 2 ^ 31"
  shows "diff.node_agrees d cmp_list h (set xs)"
proof -
  have "cmp_list h' a b = Some (d a - d b)" if k: "kept h h'" and a: "a \<in> set xs" "b \<in> set xs" for h' a b
  proof -
    have "fld h' sdata = fld h sdata" by (rule kept_sdata[OF k])
    then have "fld h' sdata a = Some (d a)" "fld h' sdata b = Some (d b)" using assms(1) a by auto
    moreover have "a \<noteq> NULL" "b \<noteq> NULL" using assms(2) a by metis+
    ultimately show ?thesis using assms(3) a by (simp add: cmp_list_def rd_def)
  qed
  then show ?thesis by (simp add: diff.node_agrees_def diff.agrees_def)
qed

text \<open>What the program that calls a sorting routine relies on, and what it prints.\<close>

locale ring_sort =
  fixes srt :: "ptr \<Rightarrow> sort_node heap \<Rightarrow> ptr \<Rightarrow> sort_node heap option"
  assumes srt_sorts: "ring h head xs \<Longrightarrow> diff.node_agrees d cmp_list h (set xs) \<Longrightarrow> tmp \<noteq> NULL \<Longrightarrow> mem h tmp = None \<Longrightarrow>
    \<exists>zs h'. srt tmp h head = Some h' \<and> ring h' head zs \<and> kept h h' \<and> diff.sorts d xs zs"
begin

lemma srt_prints:
  assumes "ring h head xs" and "map (fld h sdata) xs = map Some ds" and "tmp \<noteq> NULL" and "mem h tmp = None"
    and "\<forall>a \<in> set ds. \<forall>b \<in> set ds. - (2 ^ 31) \<le> a - b \<and> a - b < 2 ^ 31"
  shows "\<exists>h' zs. srt tmp h head = Some h' \<and> list_for_each h' head = Some zs
    \<and> map (fld h' sdata) zs = map Some (sort ds)"
proof -
  define d where "d = (\<lambda>p. the (fld h sdata p))"
  have ds: "ds = map d xs" and fd: "map (fld h sdata) xs = map (\<lambda>p. Some (d p)) xs"
    using assms(2) unfolding d_def by (induction xs arbitrary: ds) auto
  have "NULL \<notin> set xs" using dring_nonnull[OF assms(1)] by simp
  then have "diff.node_agrees d cmp_list h (set xs)"
    using cmp_list_agrees[OF fd] assms(5) ds by simp
  then obtain zs h' where z: "srt tmp h head = Some h'" "ring h' head zs" "kept h h'" "diff.sorts d xs zs"
    using srt_sorts[OF assms(1) _ assms(3,4)] by blast
  have "sorted (map d zs)" "mset (map d zs) = mset ds"
    using z(4) ds by (auto simp: diff.sorts_def diff.ordered_def sorted_map)
  then have s: "map d zs = sort ds" by (metis properties_for_sort)
  have "set zs = set xs" using diff.sorts_set[OF z(4)] .
  then have "\<forall>p \<in> set zs. fld h sdata p = Some (d p)" using fd by auto
  then have "map (fld h' sdata) zs = map Some (map d zs)" using kept_sdata[OF z(3)] by simp
  then show ?thesis using z(1) list_for_each_ring[OF z(2)] s by auto
qed

end

interpretation ring_bubble: ring_sort "\<lambda>tmp. list_bubble_sort tmp cmp_list"
  by unfold_locales (rule diff.list_bubble_sort_sorts)
interpretation ring_select: ring_sort "\<lambda>tmp. list_select_sort tmp cmp_list"
  by unfold_locales (rule diff.list_select_sort_sorts)
interpretation ring_insert: ring_sort "\<lambda>tmp. list_insert_sort cmp_list"
  by unfold_locales (rule diff.list_insert_sort_sorts)

text \<open>\<open>main\<close>: fill the list, sort it, print it.\<close>

definition sort_list_main :: "sort_node heap \<Rightarrow> ptr \<Rightarrow> ptr list \<Rightarrow> int list option" where
  "sort_list_main h head ps = do {
     h \<leftarrow> list_head_init h head;
     h \<leftarrow> list_fill h head ps;
     h \<leftarrow> list_insert_sort cmp_list h head;
     qs \<leftarrow> list_for_each h head;
     those (map (fld h sdata) qs)
   }"

lemma those_map_Some: "those (map Some xs) = Some xs"
  by (induction xs) auto

lemma sort_list_main_sorts:
  assumes "distinct (head # ps)" and "\<forall>p \<in> set (head # ps). live h p" and "map (fld h sdata) ps = map Some ds"
    and "\<forall>a \<in> set ds. \<forall>b \<in> set ds. - (2 ^ 31) \<le> a - b \<and> a - b < 2 ^ 31" and "NULL \<noteq> tmp" "mem h tmp = None"
  shows "sort_list_main h head ps = Some (sort ds)"
proof -
  obtain h1 where h1: "list_head_init h head = Some h1"
      "links_to h h1 ((fld h nxt)(head := Some head)) ((fld h prev)(head := Some head))"
    using list_head_init_links[of h head] assms(2) by auto
  have k1: "kept h h1" by (rule links_kept[OF h1(2)])
  have "ring h1 head []" using h1(2) assms(2) live_nonnull[of h head] by (simp add: links_to_def)
  then obtain h2 where h2: "list_fill h1 head ps = Some h2" "ring h2 head ps" "fld h2 list_head.more = fld h1 list_head.more"
    using list_fill_ring[of h1 head "[]" ps] assms(1,2) kept_live[OF k1] by auto
  have more: "fld h2 list_head.more = fld h list_head.more" using h2(3) k1 by (simp add: kept_def)
  have lv: "live h2 q = live h q" for q
    using fun_cong[OF more, of q] by (auto simp: live_def fld_def map_option_case split: option.splits)
  have k2: "kept h h2" using more lv by (simp add: kept_def)
  have t: "mem h2 tmp = None" using lv[of tmp] assms(5,6) by (auto simp: live_def)
  have d2: "map (fld h2 sdata) ps = map Some ds" using kept_sdata[OF k2] assms(3) by simp
  obtain h' zs where "list_insert_sort cmp_list h2 head = Some h'" "list_for_each h' head = Some zs"
      "map (fld h' sdata) zs = map Some (sort ds)"
    using ring_insert.srt_prints[OF h2(2) d2 _ t assms(4)] assms(5) by auto
  then show ?thesis using h1(1) h2(1) by (simp add: sort_list_main_def those_map_Some)
qed

end
