(* ===== verification/Huffman.thy ===== *)
theory Huffman
  imports SortList
begin

section \<open>The Huffman compressor (08Huffman/huff.c)\<close>

text \<open>
  \<open>struct huff_info\<close> holds the array \<open>table\<close> of 511 nodes, the list head and the root. Entry \<open>i\<close> of the
  table is the object at the address \<open>tab + i\<close>, so \<open>LIST(i)\<close> and the entry have one address; \<open>ent\<close>
  checks the bounds of the array, and an index out of range is None. The nodes extend \<open>list_head\<close>, so
  the operations and the sorting of kernel lists apply to them.

  The \<open>uint16_t\<close> fields that hold indices are natural numbers: the code stores none above 511 in them.
  Weights, codes and code lengths keep their width. A source file is its list of bytes.
\<close>

record huff_node = list_head +
  tparent :: nat
  tlchild :: nat
  trchild :: nat
  weight :: csize
  code :: cushort
  code_len :: cuchar

record huff_info =
  hm :: "huff_node heap"
  tab :: ptr
  hhead :: ptr
  hroot :: nat
  hsize :: csize

definition LEAF_NUM :: nat where "LEAF_NUM = 256"
definition ALL_NUM :: nat where "ALL_NUM = 511"
definition UNUSED :: nat where "UNUSED = 511"

definition ent :: "huff_info \<Rightarrow> nat \<Rightarrow> ptr option" where
  "ent info i = (if i < ALL_NUM then Some (tab info + i) else None)"

definition get_ent :: "huff_info \<Rightarrow> (huff_node \<Rightarrow> 'f) \<Rightarrow> nat \<Rightarrow> 'f option" where
  "get_ent info f i = do { p \<leftarrow> ent info i; rd (hm info) f p }"

definition put_ent :: "huff_info \<Rightarrow> nat \<Rightarrow> (huff_node \<Rightarrow> huff_node) \<Rightarrow> huff_info option" where
  "put_ent info i g = do { p \<leftarrow> ent info i; h \<leftarrow> wr (hm info) p g; Some (info\<lparr>hm := h\<rparr>) }"

definition hf_tree_node_init :: "huff_node \<Rightarrow> huff_node" where
  "hf_tree_node_init n = n\<lparr>tparent := UNUSED, tlchild := UNUSED, trchild := UNUSED\<rparr>"

fun huff_init_loop :: "huff_info \<Rightarrow> nat list \<Rightarrow> huff_info option" where
  "huff_init_loop info [] = Some info"
| "huff_init_loop info (i # is) = do {
     info \<leftarrow> put_ent info i (\<lambda>n. n\<lparr>weight := 0\<rparr>);
     info \<leftarrow> put_ent info i (\<lambda>n. n\<lparr>code := 0\<rparr>);
     info \<leftarrow> put_ent info i (\<lambda>n. n\<lparr>code_len := 0\<rparr>);
     p \<leftarrow> ent info i;
     h \<leftarrow> list_head_init (hm info) p;
     info \<leftarrow> put_ent (info\<lparr>hm := h\<rparr>) i hf_tree_node_init;
     huff_init_loop info is
   }"

definition huff_init :: "huff_info \<Rightarrow> (int \<times> huff_info) option" where
  "huff_init info = do {
     info \<leftarrow> huff_init_loop info [0..<ALL_NUM];
     h \<leftarrow> list_head_init (hm info) (hhead info);
     Some (0, info\<lparr>hm := h, hroot := UNUSED\<rparr>)
   }"

fun hf_statistic_weight :: "huff_info \<Rightarrow> cuchar list \<Rightarrow> (int \<times> huff_info) option" where
  "hf_statistic_weight info [] = Some (0, info)"
| "hf_statistic_weight info (rbuf # src) = do {
     info \<leftarrow> put_ent info (unat rbuf) (\<lambda>n. n\<lparr>weight := weight n + 1\<rparr>);
     hf_statistic_weight info src
   }"

text \<open>The difference of the weights is converted to \<open>int\<close>.\<close>

definition list_node_cmp :: "huff_node node_cmp" where
  "list_node_cmp h a b = do {
     x \<leftarrow> rd h weight a;
     y \<leftarrow> rd h weight b;
     Some (sint (ucast (x - y) :: cint))
   }"

fun sort_list_fill :: "huff_info \<Rightarrow> nat list \<Rightarrow> huff_info option" where
  "sort_list_fill info [] = Some info"
| "sort_list_fill info (i # is) = do {
     w \<leftarrow> get_ent info weight i;
     info \<leftarrow> (if w \<noteq> 0 then do {
         p \<leftarrow> ent info i;
         h \<leftarrow> list_add_tail (hm info) (hhead info) p;
         Some (info\<lparr>hm := h\<rparr>)
       } else Some info);
     sort_list_fill info is
   }"

definition hf_build_sort_list :: "huff_info \<Rightarrow> (int \<times> huff_info) option" where
  "hf_build_sort_list info = do {
     info \<leftarrow> sort_list_fill info [0..<LEAF_NUM];
     h \<leftarrow> list_insert_sort list_node_cmp (hm info) (hhead info);
     Some (0, info\<lparr>hm := h\<rparr>)
   }"

partial_function (option) add_with_sort_loop ::
    "huff_node heap \<Rightarrow> ptr \<Rightarrow> ptr \<Rightarrow> ptr \<Rightarrow> ptr option" where
  "add_with_sort_loop h head node cur =
     (if cur \<noteq> head then do {
        r \<leftarrow> list_node_cmp h node cur;
        (if r > 0 then do { nx \<leftarrow> rd h nxt cur; add_with_sort_loop h head node nx }
         else Some cur)
      } else Some cur)"

definition list_add_with_sort :: "huff_node heap \<Rightarrow> ptr \<Rightarrow> ptr \<Rightarrow> huff_node heap option" where
  "list_add_with_sort h head node = do {
     cur \<leftarrow> rd h nxt head;
     cur \<leftarrow> add_with_sort_loop h head node cur;
     pr \<leftarrow> rd h prev cur;
     list_add_between h node pr cur
   }"

partial_function (option) hufftree_loop :: "huff_info \<Rightarrow> nat \<Rightarrow> (huff_info \<times> nat) option" where
  "hufftree_loop info index = do {
     a \<leftarrow> rd (hm info) nxt (hhead info);
     b \<leftarrow> rd (hm info) nxt a;
     (if b = hhead info then Some (info, index)
      else do {
        let pan = a - tab info;
        let pbn = b - tab info;
        wa \<leftarrow> rd (hm info) weight a;
        wb \<leftarrow> rd (hm info) weight b;
        info \<leftarrow> put_ent info index (\<lambda>n. n\<lparr>weight := wa + wb\<rparr>);
        info \<leftarrow> put_ent info index (\<lambda>n. n\<lparr>tlchild := pan\<rparr>);
        info \<leftarrow> put_ent info index (\<lambda>n. n\<lparr>trchild := pbn\<rparr>);
        info \<leftarrow> put_ent info pan (\<lambda>n. n\<lparr>tparent := index\<rparr>);
        info \<leftarrow> put_ent info pbn (\<lambda>n. n\<lparr>tparent := index\<rparr>);
        h \<leftarrow> list_del_init (hm info) a;
        h \<leftarrow> list_del_init h b;
        p \<leftarrow> ent info index;
        h \<leftarrow> list_add_with_sort h (hhead info) p;
        hufftree_loop (info\<lparr>hm := h\<rparr>) (index + 1)
      })
   }"

definition hf_build_hufftree :: "huff_info \<Rightarrow> (int \<times> huff_info) option" where
  "hf_build_hufftree info = do {
     (info, index) \<leftarrow> hufftree_loop info LEAF_NUM;
     Some (0, info\<lparr>hroot := (if index \<noteq> 256 then index - 1 else 256)\<rparr>)
   }"

partial_function (option) fill_code_loop :: "huff_info \<Rightarrow> nat \<Rightarrow> nat \<Rightarrow> huff_info option" where
  "fill_code_loop info i cur =
     (if cur \<noteq> hroot info then do {
        info \<leftarrow> put_ent info i (\<lambda>n. n\<lparr>code := push_bit 1 (code n)\<rparr>);
        par \<leftarrow> get_ent info tparent cur;
        r \<leftarrow> get_ent info trchild par;
        info \<leftarrow> (if r = cur then put_ent info i (\<lambda>n. n\<lparr>code := or (code n) 1\<rparr>) else Some info);
        cur \<leftarrow> get_ent info tparent cur;
        info \<leftarrow> put_ent info i (\<lambda>n. n\<lparr>code_len := code_len n + 1\<rparr>);
        fill_code_loop info i cur
      } else Some info)"

fun fill_codes :: "huff_info \<Rightarrow> nat list \<Rightarrow> huff_info option" where
  "fill_codes info [] = Some info"
| "fill_codes info (i # is) = do {
     w \<leftarrow> get_ent info weight i;
     info \<leftarrow> (if w = 0 then Some info else fill_code_loop info i i);
     fill_codes info is
   }"

definition hf_fill_code :: "huff_info \<Rightarrow> (int \<times> huff_info) option" where
  "hf_fill_code info = do { info \<leftarrow> fill_codes info [0..<LEAF_NUM]; Some (0, info) }"

definition huff_prepare :: "huff_info \<Rightarrow> cuchar list \<Rightarrow> (int \<times> huff_info) option" where
  "huff_prepare info src = do {
     (r, info) \<leftarrow> hf_statistic_weight info src;
     (if r < 0 then Some (-1, info) else do {
        (r, info) \<leftarrow> hf_build_sort_list info;
        (if r < 0 then Some (-2, info) else do {
           (r, info) \<leftarrow> hf_build_hufftree info;
           (if r < 0 then Some (-3, info) else do {
              (r, info) \<leftarrow> hf_fill_code info;
              (if r < 0 then Some (-4, info) else Some (0, info))
            })
         })
      })
   }"

text \<open>
  A compressed file: the header with the magic number, the type, the root, the size of the original,
  the entries of the table up to the root, byte for byte as in memory, and the packed codes.
\<close>

record huff_file =
  magic :: "32 word"
  ftype :: cushort
  froot :: nat
  file_size :: csize
  ftable :: "huff_node list"
  body :: "cuchar list"

definition HUFF_MAGIC :: "32 word" where "HUFF_MAGIC = 0x88888888"

fun read_table :: "huff_info \<Rightarrow> nat list \<Rightarrow> huff_node list option" where
  "read_table info [] = Some []"
| "read_table info (i # is) = do {
     n \<leftarrow> get_ent info (\<lambda>n. n) i;
     ns \<leftarrow> read_table info is;
     Some (n # ns)
   }"

definition hf_make_huff_head :: "huff_info \<Rightarrow> cuchar list \<Rightarrow> (int \<times> huff_file) option" where
  "hf_make_huff_head info src = do {
     ns \<leftarrow> read_table info [0..<hroot info + 1];
     Some (0, \<lparr>magic = HUFF_MAGIC, ftype = 0x33, froot = hroot info, file_size = of_nat (length src),
       ftable = ns, body = []\<rparr>)
   }"

text \<open>
  The bit loop of \<open>huff_compress\<close>: the state is \<open>wbuf\<close>, \<open>count\<close> and the bytes written. \<open>CODE(rbuf) >> i\<close>
  is a shift of an \<open>int\<close>, undefined from 32 on.
\<close>

type_synonym wstate = "cuchar \<times> nat \<times> cuchar list"

fun enc_bits :: "cushort \<Rightarrow> nat list \<Rightarrow> wstate \<Rightarrow> wstate option" where
  "enc_bits c [] s = Some s"
| "enc_bits c (i # is) (wbuf, cnt, out) =
     (if i \<ge> 32 then None
      else do {
        let wbuf = or (push_bit 1 wbuf) (if bit c i then 1 else 0);
        let cnt = cnt + 1;
        (if cnt = 8 then enc_bits c is (0, 0, out @ [wbuf]) else enc_bits c is (wbuf, cnt, out))
      })"

fun enc_bytes :: "huff_info \<Rightarrow> cuchar list \<Rightarrow> wstate \<Rightarrow> wstate option" where
  "enc_bytes info [] s = Some s"
| "enc_bytes info (rbuf # src) s = do {
     n \<leftarrow> get_ent info code_len (unat rbuf);
     c \<leftarrow> get_ent info code (unat rbuf);
     s \<leftarrow> enc_bits c [0..<unat n] s;
     enc_bytes info src s
   }"

text \<open>\<open>src\<close> and \<open>dst\<close> say what \<open>fopen\<close> delivers; the program aborts when it fails.\<close>

definition huff_compress ::
    "huff_info \<Rightarrow> cuchar list option \<Rightarrow> bool \<Rightarrow> (int \<times> huff_file option \<times> huff_info) option" where
  "huff_compress info src dst = do {
     src \<leftarrow> src;
     (if \<not> dst then None else do {
        (r, info) \<leftarrow> huff_prepare info src;
        (if r < 0 then Some (-1, None, info) else do {
           (r, f) \<leftarrow> hf_make_huff_head info src;
           (if r < 0 then Some (-2, None, info) else do {
              (wbuf, cnt, out) \<leftarrow> enc_bytes info src (0, 0, []);
              let out = (if cnt \<noteq> 0 then out @ [push_bit (8 - cnt) wbuf] else out);
              Some (0, Some (f\<lparr>body := out\<rparr>), info)
            })
         })
      })
   }"

text \<open>\<open>fread\<close> of the table stops at the end of the file and is not checked against the size of the array.\<close>

fun write_table :: "huff_info \<Rightarrow> nat \<Rightarrow> huff_node list \<Rightarrow> huff_info option" where
  "write_table info i [] = Some info"
| "write_table info i (n # ns) = do { info \<leftarrow> put_ent info i (\<lambda>_. n); write_table info (i + 1) ns }"

definition hf_unpack_huff_head :: "huff_info \<Rightarrow> huff_file \<Rightarrow> (int \<times> huff_info) option" where
  "hf_unpack_huff_head info f = do {
     let info = info\<lparr>hroot := froot f, hsize := file_size f\<rparr>;
     (if magic f \<noteq> HUFF_MAGIC then Some (-1, info)
      else do {
        info \<leftarrow> write_table info 0 (take (hroot info + 1) (ftable f));
        Some (0, info)
      })
   }"

text \<open>The decoder's state: the current node, the number of bytes written, and the bytes; the flag says \<open>goto out\<close>.\<close>

type_synonym rstate = "nat \<times> csize \<times> cuchar list"

fun dec_bits :: "huff_info \<Rightarrow> cuchar \<Rightarrow> nat list \<Rightarrow> rstate \<Rightarrow> (bool \<times> rstate) option" where
  "dec_bits info rbuf [] s = Some (False, s)"
| "dec_bits info rbuf (i # is) (cur, n, out) = do {
     cur \<leftarrow> (if bit rbuf (7 - i) then get_ent info trchild cur else get_ent info tlchild cur);
     (if cur < LEAF_NUM then
        (if n + 1 = hsize info then Some (True, (hroot info, n + 1, out @ [of_nat cur]))
         else dec_bits info rbuf is (hroot info, n + 1, out @ [of_nat cur]))
      else dec_bits info rbuf is (cur, n, out))
   }"

fun dec_bytes :: "huff_info \<Rightarrow> cuchar list \<Rightarrow> rstate \<Rightarrow> rstate option" where
  "dec_bytes info [] s = Some s"
| "dec_bytes info (rbuf # bs) s = do {
     (out, s) \<leftarrow> dec_bits info rbuf [0..<8] s;
     (if out then Some s else dec_bytes info bs s)
   }"

definition huff_decompress ::
    "huff_info \<Rightarrow> huff_file option \<Rightarrow> bool \<Rightarrow> (int \<times> cuchar list \<times> huff_info) option" where
  "huff_decompress info src dst = do {
     f \<leftarrow> src;
     (if \<not> dst then None else do {
        (r, info) \<leftarrow> hf_unpack_huff_head info f;
        (if r < 0 then Some (-1, [], info) else do {
           (cur, n, out) \<leftarrow> dec_bytes info (body f) (hroot info, 0, []);
           Some (0, out, info)
         })
      })
   }"

subsection \<open>The table in the memory\<close>

definition huff_mem :: "huff_info \<Rightarrow> bool" where
  "huff_mem info \<longleftrightarrow> (\<forall>i<ALL_NUM. live (hm info) (tab info + i)) \<and> live (hm info) (hhead info)
     \<and> (\<forall>i<ALL_NUM. hhead info \<noteq> tab info + i)"

text \<open>The value of a field of entry \<open>i\<close>, and the update of an entry, as total functions.\<close>

definition tnode :: "huff_info \<Rightarrow> nat \<Rightarrow> huff_node" where
  "tnode info i = the (mem (hm info) (tab info + i))"

definition tabf :: "huff_info \<Rightarrow> (huff_node \<Rightarrow> 'f) \<Rightarrow> nat \<Rightarrow> 'f" where
  "tabf info f i = f (tnode info i)"

definition pute :: "huff_info \<Rightarrow> nat \<Rightarrow> (huff_node \<Rightarrow> huff_node) \<Rightarrow> huff_info" where
  "pute info i g = info\<lparr>hm := upd (hm info) (tab info + i) g\<rparr>"

lemma ent_in [simp]: "i < ALL_NUM \<Longrightarrow> ent info i = Some (tab info + i)"
  by (simp add: ent_def)

lemma huff_mem_live: "huff_mem info \<Longrightarrow> i < ALL_NUM \<Longrightarrow> live (hm info) (tab info + i)"
  by (simp add: huff_mem_def)

lemma tabf_fld: "huff_mem info \<Longrightarrow> i < ALL_NUM \<Longrightarrow> fld (hm info) f (tab info + i) = Some (tabf info f i)"
  using huff_mem_live[of info i] by (auto simp: live_def fld_def tabf_def tnode_def)

lemma get_ent_tabf [simp]: "huff_mem info \<Longrightarrow> i < ALL_NUM \<Longrightarrow> get_ent info f i = Some (tabf info f i)"
  using tabf_fld[of info i f] huff_mem_live[of info i] by (simp add: get_ent_def live_rd)

lemma rd_tabf: "huff_mem info \<Longrightarrow> i < ALL_NUM \<Longrightarrow> rd (hm info) f (tab info + i) = Some (tabf info f i)"
  using tabf_fld[of info i f] huff_mem_live[of info i] by (simp add: live_rd)

lemma put_ent_pute [simp]: "huff_mem info \<Longrightarrow> i < ALL_NUM \<Longrightarrow> put_ent info i g = Some (pute info i g)"
  using huff_mem_live[of info i] by (simp add: put_ent_def pute_def live_wr)

lemma pute_simps [simp]:
  "tab (pute info i g) = tab info" "hhead (pute info i g) = hhead info" "hroot (pute info i g) = hroot info"
  "hsize (pute info i g) = hsize info" "huff_mem (pute info i g) = huff_mem info"
  by (auto simp: pute_def huff_mem_def live_upd)

lemma tabf_pute [simp]: "huff_mem info \<Longrightarrow> j < ALL_NUM \<Longrightarrow>
    tabf (pute info i g) f j = (if j = i then f (g (tnode info i)) else tabf info f j)"
  using huff_mem_live[of info j] by (auto simp: pute_def tabf_def tnode_def mem_upd live_def)

lemma tabf_node [simp]:
  "tparent (tnode info i) = tabf info tparent i" "tlchild (tnode info i) = tabf info tlchild i"
  "trchild (tnode info i) = tabf info trchild i" "weight (tnode info i) = tabf info weight i"
  "code (tnode info i) = tabf info code i" "code_len (tnode info i) = tabf info code_len i"
  by (simp_all add: tabf_def)

lemma pute_pute: "pute (pute info i g) i g' = pute info i (\<lambda>n. g' (g n))"
  by (simp add: pute_def upd_def option.map_comp comp_def)

lemma hm_pute: "hm (pute info i g) = upd (hm info) (tab info + i) g"
  by (simp add: pute_def)

lemma pute_ring: "(\<And>n. prev (g n) = prev n) \<Longrightarrow> (\<And>n. nxt (g n) = nxt n) \<Longrightarrow>
    ring (hm (pute info i g)) p xs = ring (hm info) p xs"
  by (simp add: hm_pute heap_simps)

lemma tabf_static [simp]:
  "tabf (info\<lparr>hroot := r\<rparr>) f = tabf info f" "tabf (info\<lparr>hsize := n\<rparr>) f = tabf info f"
  "huff_mem (info\<lparr>hroot := r\<rparr>) = huff_mem info" "huff_mem (info\<lparr>hsize := n\<rparr>) = huff_mem info"
  by (simp_all add: tabf_def tnode_def huff_mem_def fun_eq_iff)

text \<open>The list operations leave the fields of the entries alone.\<close>

lemma more_fields:
  fixes n n' :: huff_node
  assumes "list_head.more n = list_head.more n'"
  shows "tparent n = tparent n'" "tlchild n = tlchild n'" "trchild n = trchild n'" "weight n = weight n'"
    "code n = code n'" "code_len n = code_len n'"
  using assms by (cases n; cases n'; simp)+

lemma kept_more:
  assumes "kept (hm info) h" and "huff_mem info" and "i < ALL_NUM"
  shows "list_head.more (tnode (info\<lparr>hm := h\<rparr>) i) = list_head.more (tnode info i)"
proof -
  have "fld h list_head.more (tab info + i) = fld (hm info) list_head.more (tab info + i)"
    using assms(1) by (simp add: kept_def)
  moreover have "live h (tab info + i)" using kept_live[OF assms(1)] huff_mem_live[OF assms(2,3)] by simp
  ultimately show ?thesis using huff_mem_live[OF assms(2,3)]
    by (auto simp: tnode_def fld_def live_def map_option_case split: option.splits)
qed

lemma tabf_kept:
  assumes "kept (hm info) h" and "huff_mem info" and "i < ALL_NUM"
  shows "tabf (info\<lparr>hm := h\<rparr>) tparent i = tabf info tparent i" "tabf (info\<lparr>hm := h\<rparr>) tlchild i = tabf info tlchild i"
    "tabf (info\<lparr>hm := h\<rparr>) trchild i = tabf info trchild i" "tabf (info\<lparr>hm := h\<rparr>) weight i = tabf info weight i"
    "tabf (info\<lparr>hm := h\<rparr>) code i = tabf info code i" "tabf (info\<lparr>hm := h\<rparr>) code_len i = tabf info code_len i"
  using more_fields[OF kept_more[OF assms]] by simp_all

lemma huff_mem_kept: "kept (hm info) h \<Longrightarrow> huff_mem (info\<lparr>hm := h\<rparr>) = huff_mem info"
  by (simp add: huff_mem_def kept_def)

text \<open>What the phases do not touch: where the table is, the objects in use, the fields \<open>fs\<close>.\<close>

definition huff_same :: "huff_info \<Rightarrow> huff_info \<Rightarrow> bool" where
  "huff_same info info' \<longleftrightarrow> tab info' = tab info \<and> hhead info' = hhead info \<and> hroot info' = hroot info \<and> huff_mem info'"

lemma huff_same_trans: "huff_same a b \<Longrightarrow> huff_same b c \<Longrightarrow> huff_same a c"
  by (simp add: huff_same_def)

subsection \<open>Counting\<close>

lemma byte_less: "unat (b :: cuchar) < 256"
proof -
  have "unat b < 2 ^ LENGTH(8)" by (rule unsigned_less)
  then show ?thesis by simp
qed

lemma hf_statistic_weight_counts:
  assumes "huff_mem info"
  shows "\<exists>info'. hf_statistic_weight info src = Some (0, info') \<and> huff_same info info'
    \<and> (\<forall>xs. ring (hm info) (hhead info) xs \<longrightarrow> ring (hm info') (hhead info) xs)
    \<and> (\<forall>i<ALL_NUM. tabf info' weight i = tabf info weight i + of_nat (count_list (map unat src) i)
      \<and> tabf info' code i = tabf info code i \<and> tabf info' code_len i = tabf info code_len i
      \<and> tabf info' tparent i = tabf info tparent i)"
  using assms
proof (induction src arbitrary: info)
  case Nil
  then show ?case by (simp add: huff_same_def)
next
  case (Cons b src)
  have b: "unat b < ALL_NUM" using byte_less[of b] by (simp add: ALL_NUM_def)
  let ?i = "pute info (unat b) (\<lambda>n. n\<lparr>weight := weight n + 1\<rparr>)"
  have m: "huff_mem ?i" using Cons.prems by simp
  obtain info' where r: "hf_statistic_weight ?i src = Some (0, info')" "huff_same ?i info'"
      "\<forall>xs. ring (hm ?i) (hhead ?i) xs \<longrightarrow> ring (hm info') (hhead ?i) xs"
      "\<forall>i<ALL_NUM. tabf info' weight i = tabf ?i weight i + of_nat (count_list (map unat src) i)
      \<and> tabf info' code i = tabf ?i code i \<and> tabf info' code_len i = tabf ?i code_len i
      \<and> tabf info' tparent i = tabf ?i tparent i"
    using Cons.IH[OF m] by blast
  have "ring (hm ?i) (hhead info) xs = ring (hm info) (hhead info) xs" for xs by (rule pute_ring) auto
  moreover have "tabf info' weight i = tabf info weight i + of_nat (count_list (map unat (b # src)) i)
      \<and> tabf info' code i = tabf info code i \<and> tabf info' code_len i = tabf info code_len i
      \<and> tabf info' tparent i = tabf info tparent i" if "i < ALL_NUM" for i
    using r(4) that Cons.prems by auto
  moreover have "hf_statistic_weight info (b # src) = Some (0, info')" using Cons.prems b r(1) by simp
  ultimately show ?case using r(2,3) by (auto simp: huff_same_def)
qed

subsection \<open>The sorted list of leaves\<close>

abbreviation LIST :: "huff_info \<Rightarrow> nat list \<Rightarrow> ptr list" where
  "LIST info is \<equiv> map (\<lambda>i. tab info + i) is"

lemma in_LIST: "huff_mem info \<Longrightarrow> \<forall>i \<in> set is. i < ALL_NUM \<Longrightarrow> hhead info \<notin> set (LIST info is)"
  by (auto simp: huff_mem_def)

lemma distinct_LIST [simp]: "distinct (LIST info is) = distinct is"
  by (auto simp: distinct_map inj_on_def)

lemma sort_list_fill_ring:
  assumes "huff_mem info" and "ring (hm info) (hhead info) (LIST info js)" and "distinct (js @ is)"
    and "\<forall>i \<in> set (js @ is). i < ALL_NUM"
  shows "\<exists>h. sort_list_fill info is = Some (info\<lparr>hm := h\<rparr>) \<and> kept (hm info) h
    \<and> ring h (hhead info) (LIST info (js @ filter (\<lambda>i. tabf info weight i \<noteq> 0) is))"
  using assms
proof (induction "is" arbitrary: info js)
  case Nil
  then show ?case by (intro exI[of _ "hm info"]) simp
next
  case (Cons i "is")
  have i: "i < ALL_NUM" using Cons.prems(4) by simp
  show ?case
  proof (cases "tabf info weight i = 0")
    case True
    obtain h where h: "sort_list_fill info is = Some (info\<lparr>hm := h\<rparr>)" "kept (hm info) h"
        "ring h (hhead info) (LIST info (js @ filter (\<lambda>i. tabf info weight i \<noteq> 0) is))"
      using Cons.IH[OF Cons.prems(1,2)] Cons.prems(3,4) by auto
    then show ?thesis using True Cons.prems(1) i by (intro exI[of _ h]) simp
  next
    case False
    have n: "tab info + i \<notin> set (hhead info # LIST info js)"
      using Cons.prems(1,3,4) i by (auto simp: huff_mem_def)
    obtain h1 N P where h1: "list_add_tail (hm info) (hhead info) (tab info + i) = Some h1"
        "ring h1 (hhead info) (LIST info js @ [tab info + i])" "links_to (hm info) h1 N P"
      using list_add_tail_ring[OF Cons.prems(2) huff_mem_live[OF Cons.prems(1) i] n] by blast
    have k: "kept (hm info) h1" by (rule links_kept[OF h1(3)])
    let ?i = "info\<lparr>hm := h1\<rparr>"
    have "\<exists>h. sort_list_fill ?i is = Some (?i\<lparr>hm := h\<rparr>) \<and> kept (hm ?i) h
      \<and> ring h (hhead ?i) (LIST ?i ((js @ [i]) @ filter (\<lambda>i. tabf ?i weight i \<noteq> 0) is))"
      by (rule Cons.IH) (use Cons.prems h1(2) huff_mem_kept[OF k] in auto)
    moreover have "filter (\<lambda>i. tabf ?i weight i \<noteq> 0) is = filter (\<lambda>i. tabf info weight i \<noteq> 0) is"
      using tabf_kept(4)[OF k Cons.prems(1)] Cons.prems(4) by (intro filter_cong) auto
    ultimately show ?thesis using False Cons.prems(1) i h1(1) kept_trans[OF k] by auto
  qed
qed

text \<open>The conversion of a difference of weights to \<open>int\<close> is exact below \<open>2 ^ 31\<close>.\<close>

lemma weight_diff:
  assumes "unat (x :: csize) < 2 ^ 31" and "unat y < 2 ^ 31"
  shows "sint (ucast (x - y) :: cint) = int (unat x) - int (unat y)"
proof -
  have eq: "(ucast (x - y) :: cint) = word_of_int (uint x - uint y)"
  proof -
    have "(ucast (x - y) :: cint) = word_of_int (uint (x - y))" by simp
    moreover have "take_bit LENGTH(32) (uint (x - y)) = take_bit LENGTH(32) (uint x - uint y)"
      unfolding uint_word_ariths(2) take_bit_eq_mod by (rule mod_mod_cancel) simp
    ultimately show ?thesis by (simp only: word_of_int_eq_iff)
  qed
  have "int (unat x) < int (2 ^ 31)" "int (unat y) < int (2 ^ 31)" using assms by (simp_all only: of_nat_less_iff)
  then have "uint x < 2 ^ 31" "uint y < 2 ^ 31" by simp_all
  moreover have "0 \<le> uint x" "0 \<le> uint y" by simp_all
  ultimately have "- (2 ^ 31) \<le> uint x - uint y" "uint x - uint y < 2 ^ 31" by linarith+
  then show ?thesis
    unfolding eq sint_sbintrunc' by (subst signed_take_bit_int_eq_self) simp_all
qed

definition wkey :: "huff_info \<Rightarrow> ptr \<Rightarrow> int" where
  "wkey info p = int (unat (tabf info weight (p - tab info)))"

lemma list_node_cmp_tabf:
  assumes "huff_mem info" and "i < ALL_NUM" and "j < ALL_NUM"
    and "unat (tabf info weight i) < 2 ^ 31" and "unat (tabf info weight j) < 2 ^ 31"
  shows "list_node_cmp (hm info) (tab info + i) (tab info + j)
    = Some (int (unat (tabf info weight i)) - int (unat (tabf info weight j)))"
  using rd_tabf[OF assms(1,2), of weight] rd_tabf[OF assms(1,3), of weight] weight_diff[OF assms(4,5)]
  by (simp add: list_node_cmp_def)

lemma list_node_cmp_agrees:
  assumes "huff_mem info" and "\<forall>i \<in> set is. i < ALL_NUM \<and> unat (tabf info weight i) < 2 ^ 31"
  shows "diff.node_agrees (wkey info) list_node_cmp (hm info) (set (LIST info is))"
proof -
  have "list_node_cmp h (tab info + i) (tab info + j) = Some (wkey info (tab info + i) - wkey info (tab info + j))"
    if k: "kept (hm info) h" and ij: "i \<in> set is" "j \<in> set is" for h i j
    using list_node_cmp_tabf[of "info\<lparr>hm := h\<rparr>" i j] huff_mem_kept[OF k] assms ij tabf_kept(4)[OF k assms(1)]
    by (simp add: wkey_def)
  then show ?thesis by (auto simp: diff.node_agrees_def diff.agrees_def)
qed

lemma hf_build_sort_list_ring:
  assumes "huff_mem info" and "ring (hm info) (hhead info) []" and "\<forall>i<256. unat (tabf info weight i) < 2 ^ 31"
  shows "\<exists>h is. hf_build_sort_list info = Some (0, info\<lparr>hm := h\<rparr>) \<and> kept (hm info) h
    \<and> ring h (hhead info) (LIST info is) \<and> mset is = mset (filter (\<lambda>i. tabf info weight i \<noteq> 0) [0..<256])
    \<and> sorted (map (\<lambda>i. unat (tabf info weight i)) is)"
proof -
  let ?js = "filter (\<lambda>i. tabf info weight i \<noteq> 0) [0..<256]"
  obtain h where h: "sort_list_fill info [0..<256] = Some (info\<lparr>hm := h\<rparr>)" "kept (hm info) h" "ring h (hhead info) (LIST info ?js)"
    using sort_list_fill_ring[of info "[]" "[0..<256]"] assms(1,2) by (auto simp: ALL_NUM_def)
  let ?i = "info\<lparr>hm := h\<rparr>"
  have m: "huff_mem ?i" using assms(1) huff_mem_kept[OF h(2)] by simp
  have w: "tabf ?i weight i = tabf info weight i" if "i < 256" for i
    using tabf_kept(4)[OF h(2) assms(1)] that by (simp add: ALL_NUM_def)
  have "diff.node_agrees (wkey ?i) list_node_cmp (hm ?i) (set (LIST ?i ?js))"
    by (rule list_node_cmp_agrees[OF m]) (use assms(3) w in \<open>auto simp: ALL_NUM_def\<close>)
  then have ag: "diff.node_agrees (wkey ?i) list_node_cmp h (set (LIST info ?js))" by simp
  obtain zs h' where z: "list_insert_sort list_node_cmp h (hhead info) = Some h'" "ring h' (hhead info) zs" "kept h h'"
      "diff.sorts (wkey ?i) (LIST info ?js) zs"
    using diff.list_insert_sort_sorts[OF h(3) ag] by blast
  define ks where "ks = map (\<lambda>p. p - tab info) zs"
  have zset: "set zs = set (LIST info ?js)" by (rule diff.sorts_set[OF z(4)])
  have zs: "zs = LIST info ks" unfolding ks_def using zset by (intro nth_equalityI) (auto dest!: nth_mem)
  have mz: "mset zs = mset (LIST info ?js)" "sorted (map (wkey ?i) zs)"
    using z(4) by (auto simp: diff.sorts_def diff.ordered_def sorted_map)
  have "mset ks = image_mset (\<lambda>p. p - tab info) (mset zs)" by (simp add: ks_def)
  also have "\<dots> = mset ?js" unfolding mz(1) by (simp add: image_mset.compositionality comp_def)
  finally have mk: "mset ks = mset ?js" .
  then have "set ks = set ?js" by (metis set_mset_mset)
  then have "map (wkey ?i) zs = map (\<lambda>i. int (unat (tabf info weight i))) ks"
    unfolding zs using w by (auto simp: wkey_def)
  then have "sorted (map (\<lambda>i. int (unat (tabf info weight i))) ks)" using mz(2) by simp
  then have "sorted (map (\<lambda>i. unat (tabf info weight i)) ks)"
    by (simp add: sorted_map word_le_nat_alt flip: word_le_def)
  then show ?thesis
    using h(1) z(1,2) kept_trans[OF h(2) z(3)] zs mk
    by (intro exI[of _ h'] exI[of _ ks]) (simp add: hf_build_sort_list_def LEAF_NUM_def)
qed

subsection \<open>Building the tree\<close>

text \<open>A tree over the entries of the table; leaves are bytes.\<close>

datatype htree = HLeaf nat | HNode nat htree htree

fun idx :: "htree \<Rightarrow> nat" where
  "idx (HLeaf i) = i"
| "idx (HNode i l r) = i"

fun inds :: "htree \<Rightarrow> nat list" where
  "inds (HLeaf i) = [i]"
| "inds (HNode i l r) = i # inds l @ inds r"

fun hleaves :: "htree \<Rightarrow> nat list" where
  "hleaves (HLeaf i) = [i]"
| "hleaves (HNode i l r) = hleaves l @ hleaves r"

fun wt :: "(nat \<Rightarrow> nat) \<Rightarrow> htree \<Rightarrow> nat" where
  "wt w (HLeaf i) = w i"
| "wt w (HNode i l r) = wt w l + wt w r"

text \<open>
  The reference algorithm on a list of trees sorted by weight: the first two are combined, and the
  result goes before the first tree that is not lighter.
\<close>

definition hins :: "(nat \<Rightarrow> nat) \<Rightarrow> htree \<Rightarrow> htree list \<Rightarrow> htree list" where
  "hins w t ts = takeWhile (\<lambda>s. wt w s < wt w t) ts @ t # dropWhile (\<lambda>s. wt w s < wt w t) ts"

lemma hins_length [simp]: "length (hins w t ts) = Suc (length ts)"
  by (simp add: hins_def) (metis length_append takeWhile_dropWhile_id)

lemma hins_mset [simp]: "mset (hins w t ts) = add_mset t (mset ts)"
  by (simp add: hins_def) (metis mset_append takeWhile_dropWhile_id)

lemma hins_set [simp]: "set (hins w t ts) = insert t (set ts)"
  by (metis hins_mset set_mset_mset set_mset_add_mset_insert)

lemma hins_sum: "(\<Sum>s \<leftarrow> hins w t ts. f s) = f t + (\<Sum>s \<leftarrow> ts. f s :: 'a :: comm_monoid_add)"
proof -
  have "(\<Sum>s \<leftarrow> ts. f s) = (\<Sum>s \<leftarrow> takeWhile (\<lambda>s. wt w s < wt w t) ts. f s) + (\<Sum>s \<leftarrow> dropWhile (\<lambda>s. wt w s < wt w t) ts. f s)"
    by (metis map_append sum_list_append takeWhile_dropWhile_id)
  then show ?thesis by (simp add: hins_def ac_simps)
qed

lemma mset_concat_map: "mset (concat (map f ts)) = (\<Sum>t \<leftarrow> ts. mset (f t))"
  by (simp add: mset_concat comp_def)

function hbuild :: "(nat \<Rightarrow> nat) \<Rightarrow> nat \<Rightarrow> htree list \<Rightarrow> htree" where
  "hbuild w k [] = HLeaf k"
| "hbuild w k [t] = t"
| "hbuild w k (a # b # ts) = hbuild w (k + 1) (hins w (HNode k a b) ts)"
  by pat_completeness auto
termination
  by (relation "measure (\<lambda>(w, k, ts). length ts)") auto

text \<open>The table holds a tree.\<close>

fun repr :: "(nat \<Rightarrow> nat) \<Rightarrow> (nat \<Rightarrow> nat) \<Rightarrow> (nat \<Rightarrow> nat) \<Rightarrow> htree \<Rightarrow> bool" where
  "repr P L R (HLeaf i) \<longleftrightarrow> i < 256"
| "repr P L R (HNode i l r) \<longleftrightarrow> 256 \<le> i \<and> i < 511 \<and> L i = idx l \<and> R i = idx r \<and> P (idx l) = i \<and> P (idx r) = i
     \<and> repr P L R l \<and> repr P L R r"

lemma idx_inds [simp]: "idx t \<in> set (inds t)"
  by (cases t) auto

lemma inds_less: "repr P L R t \<Longrightarrow> i \<in> set (inds t) \<Longrightarrow> i < 511"
  by (induction t) auto

lemma repr_frame:
  assumes "repr P L R t" and "distinct (inds t)"
    and "\<And>i. i \<in> set (inds t) \<Longrightarrow> i \<noteq> idx t \<Longrightarrow> P' i = P i"
    and "\<And>i. i \<in> set (inds t) \<Longrightarrow> L' i = L i" "\<And>i. i \<in> set (inds t) \<Longrightarrow> R' i = R i"
  shows "repr P' L' R' t"
  using assms
proof (induction t)
  case (HNode i l r)
  have n: "idx l \<noteq> i" "idx r \<noteq> i" using HNode.prems(2) idx_inds[of l] idx_inds[of r] by auto
  have dl: "j \<noteq> i" if "j \<in> set (inds l) \<or> j \<in> set (inds r)" for j using HNode.prems(2) that by auto
  have "repr P' L' R' l" "repr P' L' R' r"
    using HNode.IH HNode.prems dl by auto
  then show ?case using HNode.prems(1) HNode.prems(3)[of "idx l"] HNode.prems(3)[of "idx r"]
      HNode.prems(4)[of i] HNode.prems(5)[of i] n by simp
qed simp

lemma add_with_sort_loop_ring:
  assumes "ring h head (us @ vs)" and "\<forall>x \<in> set vs. list_node_cmp h n x = Some (r x)"
  shows "add_with_sort_loop h head n (hd (vs @ [head])) = Some (hd (dropWhile (\<lambda>x. r x > 0) vs @ [head]))"
  using assms
proof (induction vs arbitrary: us)
  case Nil
  then show ?case by (subst add_with_sort_loop.simps) simp
next
  case (Cons x vs)
  have "x \<noteq> head" "rd h nxt x = Some (hd (vs @ [head]))"
    using dring_distinct[OF Cons.prems(1)] ring_rds(1)[OF Cons.prems(1)] by auto
  then show ?case using Cons.IH[of "us @ [x]"] Cons.prems by (subst add_with_sort_loop.simps) simp
qed

lemma list_add_with_sort_ring:
  assumes r: "ring h head xs" and c: "\<forall>x \<in> set xs. list_node_cmp h n x = Some (r x)"
    and n: "live h n" "n \<notin> set (head # xs)"
  shows "\<exists>h'. list_add_with_sort h head n = Some h' \<and> kept h h'
    \<and> ring h' head (takeWhile (\<lambda>x. r x > 0) xs @ n # dropWhile (\<lambda>x. r x > 0) xs)"
proof -
  let ?t = "takeWhile (\<lambda>x. r x > 0) xs" and ?d = "dropWhile (\<lambda>x. r x > 0) xs"
  have r': "ring h head (?t @ ?d)" using r by simp
  have cur: "add_with_sort_loop h head n (hd (xs @ [head])) = Some (hd (?d @ [head]))"
    using add_with_sort_loop_ring[of h head "[]" xs n r] r c by simp
  have pr: "rd h prev (hd (?d @ [head])) = Some (last (head # ?t))"
  proof (cases ?d)
    case Nil
    show ?thesis
      using ring_rds_head(2)[OF r'] unfolding Nil by (simp only: append_Nil append_Nil2 list.sel)
  next
    case (Cons y ys)
    then show ?thesis using ring_rds(2)[of h head ?t y ys] r' by simp
  qed
  have nin: "n \<notin> set (head # ?t @ ?d)" using n(2) by simp
  obtain h' where "list_add_between h n (last (head # ?t)) (hd (?d @ [head])) = Some h'" "ring h' head (?t @ n # ?d)" "kept h h'"
    using list_add_between_ring[OF r' n(1) nin refl refl] links_kept by blast
  then show ?thesis using cur pr ring_rds_head(1)[OF r] by (simp add: list_add_with_sort_def)
qed

text \<open>The forest under construction: the list holds the roots, and the next free entry is \<open>k\<close>.\<close>

abbreviation tree_of :: "huff_info \<Rightarrow> htree \<Rightarrow> bool" where
  "tree_of info t \<equiv> repr (tabf info tparent) (tabf info tlchild) (tabf info trchild) t"

definition forest :: "(nat \<Rightarrow> nat) \<Rightarrow> huff_info \<Rightarrow> nat \<Rightarrow> htree list \<Rightarrow> bool" where
  "forest w info k ts \<longleftrightarrow> huff_mem info \<and> ring (hm info) (hhead info) (LIST info (map idx ts))
     \<and> (\<forall>t \<in> set ts. tree_of info t \<and> unat (tabf info weight (idx t)) = wt w t)
     \<and> distinct (concat (map inds ts)) \<and> (\<forall>t \<in> set ts. \<forall>i \<in> set (inds t). i < k)
     \<and> 256 \<le> k \<and> k + length ts \<le> 512 \<and> sum_list (map (wt w) ts) < 2 ^ 31"

lemma forestD:
  assumes "forest w info k ts"
  shows "huff_mem info" "ring (hm info) (hhead info) (LIST info (map idx ts))"
    "\<And>t. t \<in> set ts \<Longrightarrow> tree_of info t" "\<And>t. t \<in> set ts \<Longrightarrow> unat (tabf info weight (idx t)) = wt w t"
    "distinct (concat (map inds ts))" "\<And>t i. t \<in> set ts \<Longrightarrow> i \<in> set (inds t) \<Longrightarrow> i < k"
    "256 \<le> k" "k + length ts \<le> 512" "sum_list (map (wt w) ts) < 2 ^ 31"
  using assms by (auto simp: forest_def)

text \<open>One round: the new values of the table, then the relinking.\<close>

definition combine :: "huff_info \<Rightarrow> nat \<Rightarrow> nat \<Rightarrow> nat \<Rightarrow> huff_info" where
  "combine info k i j = pute (pute (pute info k (\<lambda>n. n\<lparr>weight := tabf info weight i + tabf info weight j, tlchild := i, trchild := j\<rparr>))
     i (\<lambda>n. n\<lparr>tparent := k\<rparr>)) j (\<lambda>n. n\<lparr>tparent := k\<rparr>)"

lemma combine_static [simp]:
  "tab (combine info k i j) = tab info" "hhead (combine info k i j) = hhead info" "hroot (combine info k i j) = hroot info"
  "huff_mem (combine info k i j) = huff_mem info"
  by (simp_all add: combine_def)

lemma combine_ring: "ring (hm (combine info k i j)) p xs = ring (hm info) p xs"
  by (simp add: combine_def pute_ring)

lemma combine_tabf:
  assumes "huff_mem info" and "x < ALL_NUM"
  shows "tabf (combine info k i j) tparent x = (if x = i \<or> x = j then k else tabf info tparent x)"
    "tabf (combine info k i j) tlchild x = (if x = k then i else tabf info tlchild x)"
    "tabf (combine info k i j) trchild x = (if x = k then j else tabf info trchild x)"
    "tabf (combine info k i j) weight x = (if x = k then tabf info weight i + tabf info weight j else tabf info weight x)"
    "tabf (combine info k i j) code x = tabf info code x"
    "tabf (combine info k i j) code_len x = tabf info code_len x"
  using assms by (auto simp: combine_def)

text \<open>The body of the loop as one step.\<close>

definition tree_round :: "huff_info \<Rightarrow> nat \<Rightarrow> nat \<Rightarrow> nat \<Rightarrow> huff_info option" where
  "tree_round info k i j = do {
     let a = tab info + i;
     let b = tab info + j;
     wa \<leftarrow> rd (hm info) weight a;
     wb \<leftarrow> rd (hm info) weight b;
     info \<leftarrow> put_ent info k (\<lambda>n. n\<lparr>weight := wa + wb\<rparr>);
     info \<leftarrow> put_ent info k (\<lambda>n. n\<lparr>tlchild := i\<rparr>);
     info \<leftarrow> put_ent info k (\<lambda>n. n\<lparr>trchild := j\<rparr>);
     info \<leftarrow> put_ent info i (\<lambda>n. n\<lparr>tparent := k\<rparr>);
     info \<leftarrow> put_ent info j (\<lambda>n. n\<lparr>tparent := k\<rparr>);
     h \<leftarrow> list_del_init (hm info) a;
     h \<leftarrow> list_del_init h b;
     p \<leftarrow> ent info k;
     h \<leftarrow> list_add_with_sort h (hhead info) p;
     Some (info\<lparr>hm := h\<rparr>)
   }"

lemma hufftree_loop_step:
  assumes "rd (hm info) nxt (hhead info) = Some (tab info + i)" and "rd (hm info) nxt (tab info + i) = Some (tab info + j)"
    and "tab info + j \<noteq> hhead info"
  shows "hufftree_loop info k = tree_round info k i j \<bind> (\<lambda>info. hufftree_loop info (k + 1))"
  by (subst hufftree_loop.simps) (simp add: assms tree_round_def Let_def)

lemma combine_round:
  assumes f: "forest w info k (a # b # ts)"
  shows "\<exists>h. tree_round info k (idx a) (idx b) = Some ((combine info k (idx a) (idx b))\<lparr>hm := h\<rparr>)
    \<and> kept (hm (combine info k (idx a) (idx b))) h
    \<and> ring h (hhead info) (LIST info (map idx (hins w (HNode k a b) ts)))"
proof -
  note fD = forestD[OF f]
  let ?i = "combine info k (idx a) (idx b)"
  have lt: "idx a < ALL_NUM" "idx b < ALL_NUM" "k < ALL_NUM"
    using inds_less[OF fD(3), of a "idx a"] inds_less[OF fD(3), of b "idx b"] fD(8) by (auto simp: ALL_NUM_def)
  have ne: "idx a \<noteq> k" "idx b \<noteq> k" using fD(6)[of a "idx a"] fD(6)[of b "idx b"] by auto
  have m: "huff_mem ?i" using fD(1) by simp
  have r: "ring (hm ?i) (hhead info) ((tab info + idx a) # (tab info + idx b) # LIST info (map idx ts))"
    using fD(2) by (simp add: combine_ring)
  obtain h1 where h1: "list_del_init (hm ?i) (tab info + idx a) = Some h1" "kept (hm ?i) h1"
      "ring h1 (hhead info) ((tab info + idx b) # LIST info (map idx ts))"
    using list_del_init_ring[of "hm ?i" "hhead info" "[]"] r links_kept by fastforce
  obtain h2 where h2: "list_del_init h1 (tab info + idx b) = Some h2" "kept h1 h2"
      "ring h2 (hhead info) (LIST info (map idx ts))"
    using list_del_init_ring[of h1 "hhead info" "[]"] h1(3) links_kept by fastforce
  have k2: "kept (hm ?i) h2" by (rule kept_trans[OF h1(2) h2(2)])
  define r where "r = (\<lambda>p. int (wt w (HNode k a b)) - wkey info p)"
  have tl: "idx t < ALL_NUM" "idx t \<noteq> k" "unat (tabf info weight (idx t)) = wt w t" if "t \<in> set ts" for t
    using that inds_less[OF fD(3), of t "idx t"] fD(4)[of t] fD(6)[of t "idx t"] by (auto simp: ALL_NUM_def)
  have sm: "wt w a + wt w b + wt w t < 2 ^ 31" if "t \<in> set ts" for t
    using fD(9) member_le_sum_list[of "wt w t" "map (wt w) ts"] that by simp
  have ab: "wt w a + wt w b < 2 ^ 31" using fD(9) by simp
  have wk: "unat (tabf ?i weight k) = wt w (HNode k a b)"
  proof -
    have "unat (tabf info weight (idx a) + tabf info weight (idx b)) = unat (tabf info weight (idx a)) + unat (tabf info weight (idx b))"
      by (rule unat_add_lem[THEN iffD1]) (use fD(4)[of a] fD(4)[of b] ab in simp)
    then show ?thesis using fD(1,4) lt by (simp add: combine_tabf)
  qed
  have c: "\<forall>x \<in> set (LIST info (map idx ts)). list_node_cmp h2 (tab info + k) x = Some (r x)"
  proof
    fix x
    assume "x \<in> set (LIST info (map idx ts))"
    then obtain t where t: "t \<in> set ts" "x = tab info + idx t" by auto
    let ?j = "?i\<lparr>hm := h2\<rparr>"
    have mj: "huff_mem ?j" using huff_mem_kept[OF k2] m by simp
    have wj: "unat (tabf ?j weight k) = wt w (HNode k a b)" "unat (tabf ?j weight (idx t)) = wt w t"
      using tabf_kept(4)[OF k2 m] wk lt tl[OF t(1)] fD(1) by (auto simp: combine_tabf)
    have "list_node_cmp (hm ?j) (tab ?j + k) (tab ?j + idx t)
        = Some (int (unat (tabf ?j weight k)) - int (unat (tabf ?j weight (idx t))))"
      by (rule list_node_cmp_tabf[OF mj]) (use lt tl[OF t(1)] wj ab sm[OF t(1)] in auto)
    then show "list_node_cmp h2 (tab info + k) x = Some (r x)"
      unfolding wj r_def t(2) wkey_def using tl[OF t(1)] by simp
  qed
  have "k \<notin> idx ` set ts" using tl(2) by blast
  then have "tab info + k \<notin> set (hhead info # LIST info (map idx ts))"
    using fD(1) lt(3) by (auto simp: huff_mem_def)
  moreover have "live h2 (tab info + k)" using kept_live[OF k2] huff_mem_live[OF m lt(3)] by simp
  ultimately obtain h3 where h3: "list_add_with_sort h2 (hhead info) (tab info + k) = Some h3" "kept h2 h3"
      "ring h3 (hhead info) (takeWhile (\<lambda>x. r x > 0) (LIST info (map idx ts)) @ (tab info + k) # dropWhile (\<lambda>x. r x > 0) (LIST info (map idx ts)))"
    using list_add_with_sort_ring[OF h2(3) c] by blast
  have "r (tab info + idx t) > 0 \<longleftrightarrow> wt w t < wt w (HNode k a b)" if "t \<in> set ts" for t
  proof -
    have "wkey info (tab info + idx t) = int (wt w t)" unfolding wkey_def by (simp only: add_diff_cancel_left' tl(3)[OF that])
    then have "r (tab info + idx t) > 0 \<longleftrightarrow> int (wt w t) < int (wt w (HNode k a b))" by (simp add: r_def)
    then show ?thesis by (simp only: of_nat_less_iff)
  qed
  then have "takeWhile (\<lambda>x. r x > 0) (LIST info (map idx ts)) = LIST info (map idx (takeWhile (\<lambda>s. wt w s < wt w (HNode k a b)) ts))"
    "dropWhile (\<lambda>x. r x > 0) (LIST info (map idx ts)) = LIST info (map idx (dropWhile (\<lambda>s. wt w s < wt w (HNode k a b)) ts))"
    by (auto simp: takeWhile_map dropWhile_map comp_def intro!: arg_cong[where f = "map _"] takeWhile_cong dropWhile_cong)
  then have "ring h3 (hhead info) (LIST info (map idx (hins w (HNode k a b) ts)))"
    using h3(3) by (simp add: hins_def)
  moreover have "?i = pute (pute (pute (pute (pute info k (\<lambda>n. n\<lparr>weight := tabf info weight (idx a) + tabf info weight (idx b)\<rparr>))
      k (\<lambda>n. n\<lparr>tlchild := idx a\<rparr>)) k (\<lambda>n. n\<lparr>trchild := idx b\<rparr>)) (idx a) (\<lambda>n. n\<lparr>tparent := k\<rparr>)) (idx b) (\<lambda>n. n\<lparr>tparent := k\<rparr>)"
    by (simp add: combine_def pute_pute)
  ultimately show ?thesis
    using fD(1) lt h1(1) h2(1) h3(1) kept_trans[OF k2 h3(2)]
    by (intro exI[of _ h3]) (simp add: tree_round_def rd_tabf Let_def)
qed

lemma hbuild_tree:
  assumes "ts \<noteq> []" and "distinct (concat (map inds ts))" and "\<forall>t \<in> set ts. \<forall>i \<in> set (inds t). i < k"
  shows "distinct (inds (hbuild w k ts))" and "mset (hleaves (hbuild w k ts)) = (\<Sum>t \<leftarrow> ts. mset (hleaves t))"
    and "2 \<le> length ts \<Longrightarrow> idx (hbuild w k ts) = k + length ts - 2"
    and "i \<in> set (inds (hbuild w k ts)) \<Longrightarrow> i < k + length ts - 1"
proof -
  have "distinct (inds (hbuild w k ts)) \<and> mset (hleaves (hbuild w k ts)) = (\<Sum>t \<leftarrow> ts. mset (hleaves t))
    \<and> (2 \<le> length ts \<longrightarrow> idx (hbuild w k ts) = k + length ts - 2)
    \<and> (\<forall>i \<in> set (inds (hbuild w k ts)). i < k + length ts - 1)"
    using assms
  proof (induction w k ts rule: hbuild.induct)
    case (3 w k a b ts)
    let ?h = "hins w (HNode k a b) ts"
    have mi: "mset (concat (map inds ?h)) = mset (concat (map inds (HNode k a b # ts)))"
      unfolding mset_concat_map hins_sum by simp
    have "k \<notin> set (concat (map inds (a # b # ts)))" using "3.prems"(3) by auto
    then have "distinct (concat (map inds (HNode k a b # ts)))" using "3.prems"(2) by auto
    then have d: "distinct (concat (map inds ?h))" using mi by (metis mset_eq_imp_distinct_iff)
    have "(\<Sum>t \<leftarrow> ?h. mset (hleaves t)) = (\<Sum>t \<leftarrow> HNode k a b # ts. mset (hleaves t))"
      unfolding hins_sum by simp
    moreover have "\<forall>t \<in> set ?h. \<forall>i \<in> set (inds t). i < k + 1" using "3.prems"(3) by fastforce
    moreover have "?h \<noteq> []" by (metis hins_length list.size(3) nat.distinct(1))
    ultimately have IH: "distinct (inds (hbuild w (k + 1) ?h)) \<and> mset (hleaves (hbuild w (k + 1) ?h)) = (\<Sum>t \<leftarrow> HNode k a b # ts. mset (hleaves t))
      \<and> (2 \<le> length ?h \<longrightarrow> idx (hbuild w (k + 1) ?h) = k + 1 + length ?h - 2)
      \<and> (\<forall>i \<in> set (inds (hbuild w (k + 1) ?h)). i < k + 1 + length ?h - 1)"
      using "3.IH" d by metis
    have "idx (hbuild w k (a # b # ts)) = k + length (a # b # ts) - 2"
    proof (cases ts)
      case Nil
      then show ?thesis by (simp add: hins_def)
    next
      case (Cons t us)
      then show ?thesis using IH by simp
    qed
    then show ?case using IH by (simp add: add.assoc)
  qed auto
  then show "distinct (inds (hbuild w k ts))" and "mset (hleaves (hbuild w k ts)) = (\<Sum>t \<leftarrow> ts. mset (hleaves t))"
    and "2 \<le> length ts \<Longrightarrow> idx (hbuild w k ts) = k + length ts - 2"
    and "i \<in> set (inds (hbuild w k ts)) \<Longrightarrow> i < k + length ts - 1" by blast+
qed

lemma forest_round:
  assumes f: "forest w info k (a # b # ts)"
  shows "\<exists>info'. tree_round info k (idx a) (idx b) = Some info' \<and> forest w info' (k + 1) (hins w (HNode k a b) ts)
    \<and> huff_same info info' \<and> (\<forall>i<ALL_NUM. tabf info' code i = tabf info code i \<and> tabf info' code_len i = tabf info code_len i
      \<and> (i \<noteq> k \<longrightarrow> tabf info' weight i = tabf info weight i))"
proof -
  note fD = forestD[OF f]
  let ?i = "combine info k (idx a) (idx b)" and ?h = "hins w (HNode k a b) ts"
  obtain h where h: "tree_round info k (idx a) (idx b) = Some (?i\<lparr>hm := h\<rparr>)" "kept (hm ?i) h"
      "ring h (hhead info) (LIST info (map idx ?h))"
    using combine_round[OF f] by blast
  let ?j = "?i\<lparr>hm := h\<rparr>"
  have m: "huff_mem ?i" using fD(1) by simp
  have mj: "huff_mem ?j" using huff_mem_kept[OF h(2)] m by simp
  note tj = tabf_kept[OF h(2) m]
  have lt: "idx a < ALL_NUM" "idx b < ALL_NUM" "k < ALL_NUM"
    using inds_less[OF fD(3), of a "idx a"] inds_less[OF fD(3), of b "idx b"] fD(8) by (auto simp: ALL_NUM_def)
  have k: "k \<notin> set (inds t)" if "t \<in> set (a # b # ts)" for t using fD(6)[OF that] by auto
  have il: "i < ALL_NUM" if "t \<in> set (a # b # ts)" "i \<in> set (inds t)" for t i
    using inds_less[OF fD(3) that(2)] that(1) by (simp add: ALL_NUM_def)
  have ne: "idx a \<noteq> k" "idx b \<noteq> k" using k[of a] k[of b] idx_inds[of a] idx_inds[of b] by auto
  have d: "set (inds a) \<inter> set (inds b) = {}" "t \<in> set ts \<Longrightarrow> set (inds a) \<inter> set (inds t) = {}"
      "t \<in> set ts \<Longrightarrow> set (inds b) \<inter> set (inds t) = {}" for t
    using fD(5) by auto
  have dj: "i \<noteq> idx a \<and> i \<noteq> idx b" if t: "t \<in> set (a # b # ts)" "i \<in> set (inds t)" "i \<noteq> idx t" for t i
  proof -
    consider "t = a" | "t = b" | "t \<in> set ts" using t(1) by auto
    then show ?thesis using d t(2,3) idx_inds[of a] idx_inds[of b] by cases blast+
  qed
  have keep: "tree_of ?j t" if "t \<in> set (a # b # ts)" for t
  proof (rule repr_frame[OF fD(3)[OF that]])
    show "distinct (inds t)" using fD(5) that by (auto simp: distinct_concat_iff)
  qed (use k[OF that] il[OF that] dj[OF that] tj fD(1) in \<open>auto simp: combine_tabf\<close>)
  have wt': "unat (tabf ?j weight (idx t)) = wt w t" if "t \<in> set ts" for t
  proof -
    have "idx t \<noteq> k" "idx t < ALL_NUM" using k[of t] il[of t "idx t"] that by auto
    then show ?thesis using tj(4) fD(1) fD(4)[of t] that by (simp add: combine_tabf)
  qed
  have "unat (tabf info weight (idx a) + tabf info weight (idx b)) = unat (tabf info weight (idx a)) + unat (tabf info weight (idx b))"
    by (rule unat_add_lem[THEN iffD1]) (use fD(4)[of a] fD(4)[of b] fD(9) in simp)
  then have new: "tree_of ?j (HNode k a b)" "unat (tabf ?j weight k) = wt w (HNode k a b)"
    using keep[of a] keep[of b] tj lt fD(1,4,7) ne by (auto simp: combine_tabf ALL_NUM_def)
  have mi: "mset (concat (map inds ?h)) = mset (concat (map inds (HNode k a b # ts)))"
    unfolding mset_concat_map hins_sum by simp
  have "distinct (concat (map inds (HNode k a b # ts)))" using fD(5) k by auto
  then have "distinct (concat (map inds ?h))" using mi by (metis mset_eq_imp_distinct_iff)
  moreover have "sum_list (map (wt w) ?h) = sum_list (map (wt w) (a # b # ts))"
    unfolding hins_sum by simp
  moreover have "\<forall>t \<in> set ?h. \<forall>i \<in> set (inds t). i < k + 1" using fD(6) by fastforce
  ultimately have "forest w ?j (k + 1) ?h"
    using mj h(3) keep wt' new fD(7,8,9) unfolding forest_def by simp
  moreover have "huff_same info ?j" using mj by (simp add: huff_same_def)
  moreover have "\<forall>i<ALL_NUM. tabf ?j code i = tabf info code i \<and> tabf ?j code_len i = tabf info code_len i
      \<and> (i \<noteq> k \<longrightarrow> tabf ?j weight i = tabf info weight i)"
    using tj fD(1) by (simp add: combine_tabf)
  ultimately show ?thesis using h(1) by blast
qed

lemma hufftree_loop_builds:
  assumes "forest w info k ts" and "ts \<noteq> []"
  shows "\<exists>info'. hufftree_loop info k = Some (info', k + length ts - 1) \<and> huff_same info info'
    \<and> tree_of info' (hbuild w k ts) \<and> (\<forall>i<ALL_NUM. tabf info' code i = tabf info code i
      \<and> tabf info' code_len i = tabf info code_len i \<and> (i < k \<longrightarrow> tabf info' weight i = tabf info weight i))"
  using assms
proof (induction w k ts arbitrary: info rule: hbuild.induct)
  case (2 w k t)
  note fD = forestD[OF "2.prems"(1)]
  have r: "ring (hm info) (hhead info) [tab info + idx t]" using fD(2) by simp
  have "rd (hm info) nxt (hhead info) = Some (tab info + idx t)" "rd (hm info) nxt (tab info + idx t) = Some (hhead info)"
    using ring_rds_head(1)[OF r] ring_rds(1)[of "hm info" "hhead info" "[]" "tab info + idx t" "[]"] r by auto
  then show ?case using fD(1,3)
    by (intro exI[of _ info]) (simp add: hufftree_loop.simps huff_same_def)
next
  case (3 w k a b ts)
  note fD = forestD[OF "3.prems"(1)]
  let ?xs = "LIST info (map idx ts)"
  have r: "ring (hm info) (hhead info) ((tab info + idx a) # (tab info + idx b) # ?xs)" using fD(2) by simp
  have rds: "rd (hm info) nxt (hhead info) = Some (tab info + idx a)"
      "rd (hm info) nxt (tab info + idx a) = Some (tab info + idx b)" "tab info + idx b \<noteq> hhead info"
    using ring_rds_head(1)[OF r] ring_rds(1)[of "hm info" "hhead info" "[]" "tab info + idx a"] r dring_distinct[OF r] by auto
  obtain i1 where i1: "tree_round info k (idx a) (idx b) = Some i1" "forest w i1 (k + 1) (hins w (HNode k a b) ts)"
      "huff_same info i1" "\<forall>i<ALL_NUM. tabf i1 code i = tabf info code i \<and> tabf i1 code_len i = tabf info code_len i
      \<and> (i \<noteq> k \<longrightarrow> tabf i1 weight i = tabf info weight i)"
    using forest_round[OF "3.prems"(1)] by blast
  have "hins w (HNode k a b) ts \<noteq> []" by (metis hins_length list.size(3) nat.distinct(1))
  then obtain info' where r': "hufftree_loop i1 (k + 1) = Some (info', k + 1 + length (hins w (HNode k a b) ts) - 1)"
      "huff_same i1 info'" "tree_of info' (hbuild w (k + 1) (hins w (HNode k a b) ts))"
      "\<forall>i<ALL_NUM. tabf info' code i = tabf i1 code i
      \<and> tabf info' code_len i = tabf i1 code_len i \<and> (i < k + 1 \<longrightarrow> tabf info' weight i = tabf i1 weight i)"
    using "3.IH"[OF i1(2)] by blast
  have "hufftree_loop info k = Some (info', k + length (a # b # ts) - 1)"
    using hufftree_loop_step[OF rds, of k] i1(1) r'(1) by simp
  then show ?case using r'(2,3,4) i1(3,4) huff_same_trans by fastforce
qed simp

subsection \<open>The codes\<close>

fun codes :: "htree \<Rightarrow> (nat \<times> bool list) list" where
  "codes (HLeaf i) = [(i, [])]"
| "codes (HNode i l r) = map (\<lambda>(c, p). (c, False # p)) (codes l) @ map (\<lambda>(c, p). (c, True # p)) (codes r)"

lemma codes_leaves: "map fst (codes t) = hleaves t"
  by (induction t) (auto simp: comp_def case_prod_beta)

lemma hleaves_nonempty [simp]: "hleaves t \<noteq> []"
  by (induction t) auto

text \<open>A path is shorter than the number of leaves.\<close>

lemma codes_length: "(c, p) \<in> set (codes t) \<Longrightarrow> length p < length (hleaves t)"
proof (induction t arbitrary: p)
  case (HNode i l r)
  obtain q where "p = False # q \<and> (c, q) \<in> set (codes l) \<or> p = True # q \<and> (c, q) \<in> set (codes r)"
    using HNode.prems by auto
  then have "length p = Suc (length q)" "length q < length (hleaves l) \<or> length q < length (hleaves r)"
    using HNode.IH[of q] by auto
  moreover have "length (hleaves l) \<noteq> 0" "length (hleaves r) \<noteq> 0" by simp_all
  ultimately show ?case unfolding hleaves.simps length_append by linarith
qed simp

definition pushb :: "cushort \<Rightarrow> bool \<Rightarrow> cushort" where
  "pushb c b = or (push_bit 1 c) (if b then 1 else 0)"

text \<open>The bits are pushed from the leaf to the root, so that the code holds the path from the root in its low bits.\<close>

lemma bit_pushb: "bit (pushb c b) k \<longleftrightarrow> k < 16 \<and> (if k = 0 then b else bit c (k - 1))"
  unfolding pushb_def bit_or_iff bit_push_bit_iff by (cases k) auto

lemma bit_path: "bit (foldl pushb 0 (rev p)) k \<longleftrightarrow> k < 16 \<and> k < length p \<and> p ! k"
proof (induction p arbitrary: k)
  case (Cons b p)
  show ?case by (cases k) (auto simp: bit_pushb Cons.IH)
qed simp

text \<open>One turn of the walk towards the root, and the walk out of a tree.\<close>

lemma fill_code_step:
  assumes "huff_mem info" and "i < ALL_NUM" and "cur < ALL_NUM" and "tabf info tparent cur < ALL_NUM" and "cur \<noteq> hroot info"
  shows "fill_code_loop info i cur
    = fill_code_loop (pute info i (\<lambda>n. n\<lparr>code := pushb (code n) (tabf info trchild (tabf info tparent cur) = cur), code_len := code_len n + 1\<rparr>))
        i (tabf info tparent cur)"
proof -
  define b where "b \<longleftrightarrow> tabf info trchild (tabf info tparent cur) = cur"
  define par where "par = tabf info tparent cur"
  define i1 where "i1 = pute info i (\<lambda>n. n\<lparr>code := push_bit 1 (code n)\<rparr>)"
  define i2 where "i2 = pute info i (\<lambda>n. n\<lparr>code := pushb (code n) b\<rparr>)"
  have m: "huff_mem i1" "huff_mem i2" using assms(1) by (simp_all add: i1_def i2_def)
  have g1: "get_ent i1 tparent cur = Some par" "get_ent i1 trchild par = Some (tabf info trchild par)"
    using assms m by (auto simp: i1_def par_def)
  have g2: "get_ent i2 tparent cur = Some par" using assms m by (auto simp: i2_def par_def)
  have p1: "put_ent info i (\<lambda>n. n\<lparr>code := push_bit 1 (code n)\<rparr>) = Some i1"
    unfolding i1_def by (rule put_ent_pute[OF assms(1,2)])
  have p2: "(if b then put_ent i1 i (\<lambda>n. n\<lparr>code := or (code n) 1\<rparr>) else Some i1) = Some i2"
    using put_ent_pute[OF m(1) assms(2)] by (auto simp: i1_def i2_def pute_pute pushb_def)
  have p3: "put_ent i2 i (\<lambda>n. n\<lparr>code_len := code_len n + 1\<rparr>)
      = Some (pute info i (\<lambda>n. n\<lparr>code := pushb (code n) b, code_len := code_len n + 1\<rparr>))"
    using put_ent_pute[OF m(2) assms(2)] by (simp add: i2_def pute_pute)
  have b: "tabf info trchild par = cur \<longleftrightarrow> b" by (simp add: b_def par_def)
  show ?thesis
    unfolding fill_code_loop.simps[of info i cur] p1
    by (simp only: assms(5) not_False_eq_True if_True Option.bind.bind_lunit g1 b p2 g2 p3 flip: b_def par_def)
qed

lemma fill_code_walk:
  assumes "huff_mem info" and "i < ALL_NUM" and "tree_of info t" and "distinct (inds t)" and "(c, p) \<in> set (codes t)"
    and "hroot info \<notin> set (inds t) - {idx t}"
  shows "fill_code_loop info i c
    = fill_code_loop (pute info i (\<lambda>n. n\<lparr>code := foldl pushb (code n) (rev p), code_len := code_len n + of_nat (length p)\<rparr>)) i (idx t)"
  using assms
proof (induction t arbitrary: p)
  case (HLeaf j)
  have "pute info i (\<lambda>n. n\<lparr>code := code n, code_len := code_len n\<rparr>) = info"
    by (simp add: pute_def upd_def option.map_ident)
  then show ?case using HLeaf by simp
next
  case (HNode j l r)
  have j: "j < ALL_NUM" "idx l < ALL_NUM" "idx r < ALL_NUM"
    using HNode.prems(3) inds_less[OF HNode.prems(3), of "idx l"] inds_less[OF HNode.prems(3), of "idx r"]
    by (auto simp: ALL_NUM_def)
  have side: "fill_code_loop info i c = fill_code_loop (pute info i (\<lambda>n. n\<lparr>code := foldl pushb (code n) (rev (b # q)),
        code_len := code_len n + of_nat (length (b # q))\<rparr>)) i j"
    if s: "s \<in> {l, r}" "b = (s = r)" "l \<noteq> r \<and> idx l \<noteq> idx r" "(c, q) \<in> set (codes s)"
      and IH: "fill_code_loop info i c = fill_code_loop (pute info i (\<lambda>n. n\<lparr>code := foldl pushb (code n) (rev q),
        code_len := code_len n + of_nat (length q)\<rparr>)) i (idx s)" for s b q
  proof -
    let ?i = "pute info i (\<lambda>n. n\<lparr>code := foldl pushb (code n) (rev q), code_len := code_len n + of_nat (length q)\<rparr>)"
    have f: "tabf ?i tparent (idx s) = j" "tabf ?i trchild j = idx r" "idx s < ALL_NUM" "huff_mem ?i"
      using HNode.prems(1,3) j s(1) by auto
    have "idx s \<in> set (inds (HNode j l r)) - {j}" using HNode.prems(4) s(1) idx_inds[of l] idx_inds[of r] by auto
    then have ne: "idx s \<noteq> hroot ?i" using HNode.prems(6) by auto
    have b: "(idx r = idx s) = b" using s by auto
    have "fill_code_loop ?i i (idx s) = fill_code_loop (pute ?i i (\<lambda>n. n\<lparr>code := pushb (code n) b, code_len := code_len n + 1\<rparr>)) i j"
      using fill_code_step[OF f(4) HNode.prems(2) f(3) _ ne] f(1,2) j(1) b by simp
    then show ?thesis using IH by (simp add: pute_pute ac_simps)
  qed
  have "set (inds l) \<inter> set (inds r) = {}" using HNode.prems(4) by auto
  then have lr: "l \<noteq> r \<and> idx l \<noteq> idx r" by (metis disjoint_iff idx_inds)
  obtain q where q: "p = False # q \<and> (c, q) \<in> set (codes l) \<or> p = True # q \<and> (c, q) \<in> set (codes r)"
    using HNode.prems(5) by auto
  then show ?case
  proof
    assume p: "p = False # q \<and> (c, q) \<in> set (codes l)"
    have "fill_code_loop info i c = fill_code_loop (pute info i (\<lambda>n. n\<lparr>code := foldl pushb (code n) (rev q),
        code_len := code_len n + of_nat (length q)\<rparr>)) i (idx l)"
      using HNode.IH(1)[OF HNode.prems(1,2)] HNode.prems(3,4,6) p by auto
    then show ?thesis using side[of l False q] p lr by simp
  next
    assume p: "p = True # q \<and> (c, q) \<in> set (codes r)"
    have "fill_code_loop info i c = fill_code_loop (pute info i (\<lambda>n. n\<lparr>code := foldl pushb (code n) (rev q),
        code_len := code_len n + of_nat (length q)\<rparr>)) i (idx r)"
      using HNode.IH(2)[OF HNode.prems(1,2)] HNode.prems(3,4,6) p by auto
    then show ?thesis using side[of r True q] p lr by simp
  qed
qed

text \<open>What the last phase leaves alone.\<close>

definition same_tree :: "huff_info \<Rightarrow> huff_info \<Rightarrow> bool" where
  "same_tree info info' \<longleftrightarrow> huff_same info info' \<and> (\<forall>i<ALL_NUM. tabf info' tparent i = tabf info tparent i
     \<and> tabf info' tlchild i = tabf info tlchild i \<and> tabf info' trchild i = tabf info trchild i
     \<and> tabf info' weight i = tabf info weight i)"

lemma same_tree_trans: "same_tree a b \<Longrightarrow> same_tree b c \<Longrightarrow> same_tree a c"
  by (auto simp: same_tree_def huff_same_def)

lemma same_tree_of:
  assumes "same_tree info info'" and "tree_of info t" and "distinct (inds t)"
  shows "tree_of info' t"
  by (rule repr_frame[OF assms(2,3)])
    (use assms(1) inds_less[OF assms(2)] in \<open>auto simp: same_tree_def ALL_NUM_def\<close>)

lemma leaf_code: "c \<in> set (hleaves t) \<Longrightarrow> \<exists>p. (c, p) \<in> set (codes t)"
  unfolding codes_leaves[symmetric] by auto

definition coded :: "huff_info \<Rightarrow> htree \<Rightarrow> nat \<Rightarrow> bool" where
  "coded info t i \<longleftrightarrow> (\<forall>p. (i, p) \<in> set (codes t) \<longrightarrow>
     tabf info code i = foldl pushb 0 (rev p) \<and> tabf info code_len i = of_nat (length p))"

lemma fill_codes_coded:
  assumes "huff_mem info" and "tree_of info t" and "distinct (inds t)" and "hroot info = idx t" and "distinct is"
    and "\<forall>i \<in> set is. i < 256 \<and> (tabf info weight i \<noteq> 0 \<longrightarrow> i \<in> set (hleaves t))
      \<and> tabf info code i = 0 \<and> tabf info code_len i = 0"
  shows "\<exists>info'. fill_codes info is = Some info' \<and> same_tree info info'
    \<and> (\<forall>i \<in> set is. tabf info weight i \<noteq> 0 \<longrightarrow> coded info' t i)
    \<and> (\<forall>i<ALL_NUM. i \<notin> set is \<longrightarrow> tabf info' code i = tabf info code i \<and> tabf info' code_len i = tabf info code_len i)"
  using assms
proof (induction "is" arbitrary: info)
  case Nil
  then show ?case by (simp add: same_tree_def huff_same_def)
next
  case (Cons i "is")
  have i: "i < ALL_NUM" using Cons.prems(6) by (simp add: ALL_NUM_def)
  obtain i1 where i1: "(if tabf info weight i = 0 then Some info else fill_code_loop info i i) = Some i1"
      "same_tree info i1" "tabf info weight i \<noteq> 0 \<longrightarrow> coded i1 t i"
      "\<forall>j<ALL_NUM. j \<noteq> i \<longrightarrow> tabf i1 code j = tabf info code j \<and> tabf i1 code_len j = tabf info code_len j"
  proof (cases "tabf info weight i = 0")
    case True
    then show ?thesis using that[of info] Cons.prems(1) by (simp add: same_tree_def huff_same_def)
  next
    case False
    have walk: "fill_code_loop info i i = Some (pute info i (\<lambda>n. n\<lparr>code := foldl pushb (code n) (rev p), code_len := code_len n + of_nat (length p)\<rparr>))"
      if "(i, p) \<in> set (codes t)" for p
      using fill_code_walk[OF Cons.prems(1) i Cons.prems(2,3) that] Cons.prems(4)
      by (simp add: fill_code_loop.simps[of "pute info i g" i "idx t" for g])
    have "i \<in> set (hleaves t)" using Cons.prems(6) False by simp
    then obtain p where p: "(i, p) \<in> set (codes t)" using leaf_code by blast
    let ?j = "pute info i (\<lambda>n. n\<lparr>code := foldl pushb (code n) (rev p), code_len := code_len n + of_nat (length p)\<rparr>)"
    have "coded ?j t i" unfolding coded_def
    proof (intro allI impI)
      fix q
      assume "(i, q) \<in> set (codes t)"
      then have "?j = pute info i (\<lambda>n. n\<lparr>code := foldl pushb (code n) (rev q), code_len := code_len n + of_nat (length q)\<rparr>)"
        using walk[OF p] walk[of q] by simp
      then show "tabf ?j code i = foldl pushb 0 (rev q) \<and> tabf ?j code_len i = of_nat (length q)"
        using Cons.prems(1,6) i by (simp add: tabf_pute[OF Cons.prems(1) i])
    qed
    then show ?thesis using that[of ?j] walk[OF p] False Cons.prems(1) i by (simp add: same_tree_def huff_same_def)
  qed
  have w: "tabf i1 weight j = tabf info weight j" if "j < ALL_NUM" for j using i1(2) that by (simp add: same_tree_def)
  have st: "huff_mem i1" "hroot i1 = idx t" using i1(2) Cons.prems(4) by (auto simp: same_tree_def huff_same_def)
  have "\<forall>j \<in> set is. j < 256 \<and> (tabf i1 weight j \<noteq> 0 \<longrightarrow> j \<in> set (hleaves t)) \<and> tabf i1 code j = 0 \<and> tabf i1 code_len j = 0"
  proof
    fix j
    assume j: "j \<in> set is"
    then have "j \<noteq> i" "j < ALL_NUM" using Cons.prems(5,6) by (auto simp: ALL_NUM_def)
    then show "j < 256 \<and> (tabf i1 weight j \<noteq> 0 \<longrightarrow> j \<in> set (hleaves t)) \<and> tabf i1 code j = 0 \<and> tabf i1 code_len j = 0"
      using i1(4) w Cons.prems(6) j by simp
  qed
  then obtain info' where r: "fill_codes i1 is = Some info'" "same_tree i1 info'"
      "\<forall>j \<in> set is. tabf i1 weight j \<noteq> 0 \<longrightarrow> coded info' t j"
      "\<forall>j<ALL_NUM. j \<notin> set is \<longrightarrow> tabf info' code j = tabf i1 code j \<and> tabf info' code_len j = tabf i1 code_len j"
    using Cons.IH[OF st(1) same_tree_of[OF i1(2) Cons.prems(2,3)] Cons.prems(3) st(2)] Cons.prems(5) by auto
  have "tabf info' code i = tabf i1 code i" "tabf info' code_len i = tabf i1 code_len i" using r(4) Cons.prems(5) i by auto
  then have "tabf info weight i \<noteq> 0 \<longrightarrow> coded info' t i" using i1(3) by (simp add: coded_def)
  moreover have "\<forall>j \<in> set is. tabf info weight j \<noteq> 0 \<longrightarrow> coded info' t j"
    using r(3) w Cons.prems(6) by (auto simp: ALL_NUM_def)
  moreover have "fill_codes info (i # is) = Some info'" using Cons.prems(1) i i1(1) r(1) by simp
  ultimately show ?case using same_tree_trans[OF i1(2) r(2)] i1(4) r(4) by auto
qed

subsection \<open>Packing and unpacking bits\<close>

definition byte_bits :: "cuchar \<Rightarrow> bool list" where
  "byte_bits b = map (\<lambda>i. bit b (7 - i)) [0..<8]"

text \<open>\<open>packed s bs\<close>: the writer's state holds the bits \<open>bs\<close>, the last incomplete byte in \<open>wbuf\<close>.\<close>

definition packed :: "wstate \<Rightarrow> bool list \<Rightarrow> bool" where
  "packed s bs \<longleftrightarrow> (case s of (wbuf, cnt, out) \<Rightarrow> cnt < 8
     \<and> bs = concat (map byte_bits out) @ map (\<lambda>i. bit wbuf (cnt - 1 - i)) [0..<cnt])"

lemma bit_shift_in: "bit (or (push_bit 1 w) (if b then 1 else 0) :: cuchar) k \<longleftrightarrow> k < 8 \<and> (if k = 0 then b else bit w (k - 1))"
  unfolding bit_or_iff bit_push_bit_iff by (cases k) auto

lemma shift_in_bits:
  assumes "n < 8"
  shows "map (\<lambda>i. bit (or (push_bit 1 w) (if b then 1 else 0) :: cuchar) (n - i)) [0..<Suc n]
    = map (\<lambda>i. bit w (n - 1 - i)) [0..<n] @ [b]"
proof -
  have "bit (or (push_bit 1 w) (if b then 1 else 0) :: cuchar) (n - i) = bit w (n - 1 - i)" if "i < n" for i
    using that assms by (subst bit_shift_in) auto
  moreover have "bit (or (push_bit 1 w) (if b then 1 else 0) :: cuchar) 0 = b" by (subst bit_shift_in) simp
  ultimately show ?thesis by simp
qed

lemma enc_bits_packed:
  assumes "packed s bs" and "\<forall>i \<in> set is. i < 32"
  shows "\<exists>s'. enc_bits c is s = Some s' \<and> packed s' (bs @ map (bit c) is)"
  using assms
proof (induction "is" arbitrary: s bs)
  case (Cons i "is")
  obtain w n out where s: "s = (w, n, out)" by (cases s)
  let ?w = "or (push_bit 1 w) (if bit c i then 1 else 0) :: cuchar"
  have n: "n < 8" and bs: "bs = concat (map byte_bits out) @ map (\<lambda>i. bit w (n - 1 - i)) [0..<n]"
    using Cons.prems(1) s by (auto simp: packed_def)
  have new: "bs @ [bit c i] = concat (map byte_bits out) @ map (\<lambda>i. bit ?w (n - i)) [0..<Suc n]"
    using shift_in_bits[OF n, of w "bit c i"] bs by simp
  show ?case
  proof (cases "n = 7")
    case True
    have "packed (0, 0, out @ [?w]) (bs @ [bit c i])"
      unfolding new True by (simp add: packed_def byte_bits_def upt_rec numeral_eq_Suc)
    from Cons.IH[OF this] Cons.prems(2) show ?thesis using True s by (simp add: Let_def)
  next
    case False
    have "packed (?w, Suc n, out) (bs @ [bit c i])"
      unfolding new using n False by (simp add: packed_def)
    from Cons.IH[OF this] Cons.prems(2) show ?thesis using False n s by (simp add: Let_def)
  qed
qed (auto simp: packed_def)

text \<open>The last byte is filled up with zeros.\<close>

lemma packed_flush:
  assumes "packed (w, n, out) bs"
  shows "\<exists>pad. concat (map byte_bits (if n \<noteq> 0 then out @ [push_bit (8 - n) w] else out)) = bs @ pad"
proof (cases "n = 0")
  case True
  then show ?thesis using assms by (simp add: packed_def)
next
  case False
  have n: "n < 8" and bs: "bs = concat (map byte_bits out) @ map (\<lambda>i. bit w (n - 1 - i)) [0..<n]"
    using assms by (auto simp: packed_def)
  have "byte_bits (push_bit (8 - n) w) = map (\<lambda>i. bit (push_bit (8 - n) w) (7 - i)) ([0..<n] @ [n..<8])"
    using upt_add_eq_append[of 0 n "8 - n"] n by (simp add: byte_bits_def)
  moreover have "map (\<lambda>i. bit (push_bit (8 - n) w) (7 - i)) [0..<n] = map (\<lambda>i. bit w (n - 1 - i)) [0..<n]"
  proof (rule map_cong[OF refl])
    fix i
    assume "i \<in> set [0..<n]"
    then have "8 - n \<le> 7 - i" "7 - i - (8 - n) = n - 1 - i" "7 - i < 8" using n by auto
    then show "bit (push_bit (8 - n) w) (7 - i) = bit w (n - 1 - i)" by (simp add: bit_push_bit_iff)
  qed
  ultimately show ?thesis using False bs by simp
qed

text \<open>The reader goes through the bits one by one.\<close>

fun dec_stream :: "huff_info \<Rightarrow> bool list \<Rightarrow> rstate \<Rightarrow> (bool \<times> rstate) option" where
  "dec_stream info [] s = Some (False, s)"
| "dec_stream info (b # bs) (cur, n, out) = do {
     cur \<leftarrow> (if b then get_ent info trchild cur else get_ent info tlchild cur);
     (if cur < LEAF_NUM then
        (if n + 1 = hsize info then Some (True, (hroot info, n + 1, out @ [of_nat cur]))
         else dec_stream info bs (hroot info, n + 1, out @ [of_nat cur]))
      else dec_stream info bs (cur, n, out))
   }"

lemma dec_bits_stream: "dec_bits info b is s = dec_stream info (map (\<lambda>i. bit b (7 - i)) is) s"
proof (induction "is" arbitrary: s)
  case (Cons i "is")
  obtain cur n out where s: "s = (cur, n, out)" by (cases s)
  show ?case
    by (cases "if bit b (7 - i) then get_ent info trchild cur else get_ent info tlchild cur") (auto simp: s Cons.IH)
qed simp

lemma dec_stream_append:
  "dec_stream info (xs @ ys) s = do { (f, s) \<leftarrow> dec_stream info xs s; (if f then Some (True, s) else dec_stream info ys s) }"
proof (induction info xs s rule: dec_stream.induct)
  case (2 info b bs cur n out)
  show ?case
    by (cases "if b then get_ent info trchild cur else get_ent info tlchild cur") (auto simp: 2)
qed simp

lemma dec_bytes_stream: "dec_bytes info bs s = map_option snd (dec_stream info (concat (map byte_bits bs)) s)"
proof (induction bs arbitrary: s)
  case (Cons b bs)
  show ?case
    by (cases "dec_stream info (byte_bits b) s")
      (auto simp: dec_bits_stream dec_stream_append byte_bits_def[symmetric] Cons.IH split: prod.splits)
qed simp

lemma dec_stream_path:
  assumes "huff_mem info" and "tree_of info t" and "(c, p) \<in> set (codes t)" and "p \<noteq> []"
  shows "dec_stream info (p @ rest) (idx t, n, out) =
    (if n + 1 = hsize info then Some (True, (hroot info, n + 1, out @ [of_nat c]))
     else dec_stream info rest (hroot info, n + 1, out @ [of_nat c]))"
  using assms
proof (induction t arbitrary: p)
  case (HNode i l r)
  have i: "i < ALL_NUM" using HNode.prems(2) by (simp add: ALL_NUM_def)
  obtain b q s where p: "p = b # q" "s = (if b then r else l)" "(c, q) \<in> set (codes s)"
  proof -
    from HNode.prems(3) obtain q where "p = False # q \<and> (c, q) \<in> set (codes l) \<or> p = True # q \<and> (c, q) \<in> set (codes r)"
      by auto
    then show thesis using that[of False q l] that[of True q r] by auto
  qed
  have step: "(if b then get_ent info trchild i else get_ent info tlchild i) = Some (idx s)"
    using HNode.prems(1,2) i p(2) by simp
  have s: "tree_of info s" using HNode.prems(2) p(2) by auto
  show ?case
  proof (cases s)
    case (HLeaf j)
    then show ?thesis using p s step by (simp add: LEAF_NUM_def)
  next
    case (HNode j l' r')
    then have "q \<noteq> []" "\<not> idx s < LEAF_NUM" using p(3) s by (auto simp: LEAF_NUM_def)
    moreover from this have "dec_stream info (q @ rest) (idx s, n, out) =
      (if n + 1 = hsize info then Some (True, (hroot info, n + 1, out @ [of_nat c]))
       else dec_stream info rest (hroot info, n + 1, out @ [of_nat c]))"
      using HNode.IH HNode.prems(1) s p(2,3) by (cases b) auto
    ultimately show ?thesis using p(1) step by simp
  qed
qed simp

definition pth :: "htree \<Rightarrow> cuchar \<Rightarrow> bool list" where
  "pth t b = the (map_of (codes t) (unat b))"

lemma pth_codes: "unat b \<in> set (hleaves t) \<Longrightarrow> (unat b, pth t b) \<in> set (codes t)"
  using map_of_SomeD by (fastforce simp: pth_def codes_leaves[symmetric] dest: weak_map_of_SomeI)

lemma pth_nonempty: "unat b \<in> set (hleaves t) \<Longrightarrow> 256 \<le> idx t \<Longrightarrow> tree_of info t \<Longrightarrow> pth t b \<noteq> []"
  using pth_codes[of b t] by (cases t) auto

lemma dec_stream_all:
  assumes "huff_mem info" and "tree_of info t" and "256 \<le> idx t" and "hroot info = idx t"
    and "\<forall>b \<in> set src. unat b \<in> set (hleaves t)" and "hsize info = of_nat (m + length src)"
    and "m + length src < 2 ^ 64" and "src \<noteq> []"
  shows "dec_stream info (concat (map (pth t) src) @ pad) (idx t, of_nat m, out)
    = Some (True, (idx t, of_nat (m + length src), out @ src))"
  using assms
proof (induction src arbitrary: m out)
  case (Cons b src)
  have b: "unat b \<in> set (hleaves t)" using Cons.prems(5) by simp
  note path = dec_stream_path[OF Cons.prems(1,2) pth_codes[OF b] pth_nonempty[OF b Cons.prems(3,2)],
      of "concat (map (pth t) src) @ pad" "of_nat m" out]
  have eq: "of_nat m + 1 = hsize info \<longleftrightarrow> src = []"
  proof -
    have "(of_nat (Suc m) :: csize) = of_nat (m + length (b # src)) \<longleftrightarrow> Suc m = m + length (b # src)"
      using Cons.prems(7) by (subst word_of_nat_eq_iff) (simp add: take_bit_nat_eq_self)
    then show ?thesis using Cons.prems(6) by (simp add: add.commute)
  qed
  show ?case
  proof (cases "src = []")
    case True
    then show ?thesis using path eq Cons.prems(4) by (simp add: add.commute)
  next
    case False
    have "dec_stream info (concat (map (pth t) src) @ pad) (idx t, of_nat (Suc m), out @ [b])
      = Some (True, (idx t, of_nat (Suc m + length src), (out @ [b]) @ src))"
      by (rule Cons.IH) (use Cons.prems False in \<open>auto simp: add.commute\<close>)
    then show ?thesis using path eq False Cons.prems(4) by (simp add: add.commute)
  qed
qed simp

lemma enc_bytes_packed:
  assumes "huff_mem info" and "packed s bs"
    and "\<forall>b \<in> set src. unat b \<in> set (hleaves t) \<and> coded info t (unat b) \<and> length (pth t b) \<le> 16"
  shows "\<exists>s'. enc_bytes info src s = Some s' \<and> packed s' (bs @ concat (map (pth t) src))"
  using assms
proof (induction src arbitrary: s bs)
  case (Cons b src)
  have b: "unat b < ALL_NUM" using byte_less[of b] by (simp add: ALL_NUM_def)
  let ?p = "pth t b"
  have p: "(unat b, ?p) \<in> set (codes t)" "length ?p \<le> 16" using pth_codes[of b t] Cons.prems(3) by auto
  have c: "tabf info code (unat b) = foldl pushb 0 (rev ?p)" "tabf info code_len (unat b) = of_nat (length ?p)"
    using Cons.prems(3) p(1) by (auto simp: coded_def)
  have n: "unat (of_nat (length ?p) :: cuchar) = length ?p" using p(2) by (simp add: unat_of_nat)
  have m: "map (bit (foldl pushb 0 (rev ?p))) [0..<length ?p] = ?p"
    using p(2) by (intro nth_equalityI) (auto simp: bit_path)
  obtain s1 where s1: "enc_bits (foldl pushb 0 (rev ?p)) [0..<length ?p] s = Some s1" "packed s1 (bs @ ?p)"
    using enc_bits_packed[OF Cons.prems(2), of "[0..<length ?p]" "foldl pushb 0 (rev ?p)"] p(2) m by auto
  obtain s' where "enc_bytes info src s1 = Some s'" "packed s' ((bs @ ?p) @ concat (map (pth t) src))"
    using Cons.IH[OF Cons.prems(1) s1(2)] Cons.prems(3) by auto
  then show ?case using Cons.prems(1) b c n s1(1) by simp
qed simp


subsection \<open>The initial state\<close>

definition fresh_ent :: "huff_info \<Rightarrow> nat \<Rightarrow> bool" where
  "fresh_ent info i \<longleftrightarrow> tabf info weight i = 0 \<and> tabf info code i = 0 \<and> tabf info code_len i = 0
     \<and> tabf info tparent i = UNUSED \<and> tabf info tlchild i = UNUSED \<and> tabf info trchild i = UNUSED"

definition huff_ready :: "huff_info \<Rightarrow> bool" where
  "huff_ready info \<longleftrightarrow> huff_mem info \<and> ring (hm info) (hhead info) [] \<and> (\<forall>i<ALL_NUM. fresh_ent info i) \<and> hroot info = UNUSED"

lemma huff_init_round:
  assumes "huff_mem info" and "i < ALL_NUM"
  shows "\<exists>info1. huff_init_loop info (i # is) = huff_init_loop info1 is \<and> huff_same info info1
    \<and> (\<forall>j<ALL_NUM. fresh_ent info1 j \<longleftrightarrow> j = i \<or> fresh_ent info j)"
proof -
  let ?a = "pute info i (\<lambda>n. n\<lparr>weight := 0, code := 0, code_len := 0\<rparr>)"
  have a: "pute (pute (pute info i (\<lambda>n. n\<lparr>weight := 0\<rparr>)) i (\<lambda>n. n\<lparr>code := 0\<rparr>)) i (\<lambda>n. n\<lparr>code_len := 0\<rparr>) = ?a"
    by (simp add: pute_pute)
  have ma: "huff_mem ?a" using assms(1) by simp
  obtain h where h: "list_head_init (hm ?a) (tab info + i) = Some h" "kept (hm ?a) h"
    using list_head_init_links[OF huff_mem_live[OF ma assms(2)]] links_kept by fastforce
  let ?b = "?a\<lparr>hm := h\<rparr>"
  have mb: "huff_mem ?b" using huff_mem_kept[OF h(2)] ma by simp
  note tb = tabf_kept[OF h(2) ma]
  let ?c = "pute ?b i hf_tree_node_init"
  have "huff_init_loop info (i # is) = huff_init_loop ?c is"
    using assms ma h(1) put_ent_pute[OF mb assms(2)] by (simp add: a)
  moreover have "huff_same info ?c" using mb by (simp add: huff_same_def)
  moreover have "fresh_ent ?c j \<longleftrightarrow> j = i \<or> fresh_ent info j" if "j < ALL_NUM" for j
    using that assms mb tb by (cases "j = i") (simp_all add: fresh_ent_def hf_tree_node_init_def)
  ultimately show ?thesis by blast
qed

lemma huff_init_loop_fresh:
  assumes "huff_mem info" and "\<forall>i \<in> set is. i < ALL_NUM"
  shows "\<exists>info'. huff_init_loop info is = Some info' \<and> huff_same info info'
    \<and> (\<forall>j<ALL_NUM. fresh_ent info' j \<longleftrightarrow> j \<in> set is \<or> fresh_ent info j)"
  using assms
proof (induction "is" arbitrary: info)
  case Nil
  then show ?case by (simp add: huff_same_def)
next
  case (Cons i "is")
  have i: "i < ALL_NUM" using Cons.prems(2) by simp
  obtain i1 where i1: "huff_init_loop info (i # is) = huff_init_loop i1 is" "huff_same info i1"
      "\<forall>j<ALL_NUM. fresh_ent i1 j \<longleftrightarrow> j = i \<or> fresh_ent info j"
    using huff_init_round[OF Cons.prems(1) i] by blast
  have m: "huff_mem i1" using i1(2) by (simp add: huff_same_def)
  obtain i2 where "huff_init_loop i1 is = Some i2" "huff_same i1 i2"
      "\<forall>j<ALL_NUM. fresh_ent i2 j \<longleftrightarrow> j \<in> set is \<or> fresh_ent i1 j"
    using Cons.IH[OF m] Cons.prems(2) by auto
  then show ?case using i1 huff_same_trans[OF i1(2)] by auto
qed

lemma huff_init_ready:
  assumes "huff_mem info"
  shows "\<exists>info'. huff_init info = Some (0, info') \<and> huff_ready info' \<and> tab info' = tab info \<and> hhead info' = hhead info"
proof -
  obtain i1 where i1: "huff_init_loop info [0..<ALL_NUM] = Some i1" "huff_same info i1" "\<forall>j<ALL_NUM. fresh_ent i1 j"
    using huff_init_loop_fresh[OF assms, of "[0..<ALL_NUM]"] by auto
  have m: "huff_mem i1" using i1(2) by (simp add: huff_same_def)
  obtain h where h: "list_head_init (hm i1) (hhead i1) = Some h" "ring h (hhead i1) []" "kept (hm i1) h"
  proof -
    have lv: "live (hm i1) (hhead i1)" using m by (simp add: huff_mem_def)
    obtain h where h: "list_head_init (hm i1) (hhead i1) = Some h"
        "links_to (hm i1) h ((fld (hm i1) nxt)(hhead i1 := Some (hhead i1))) ((fld (hm i1) prev)(hhead i1 := Some (hhead i1)))"
      using list_head_init_links[OF lv] by blast
    have "ring h (hhead i1) []" using h(2) live_nonnull[OF lv] by (simp add: links_to_def)
    then show thesis using that h(1) links_kept[OF h(2)] by blast
  qed
  let ?i = "i1\<lparr>hm := h, hroot := UNUSED\<rparr>"
  have "\<forall>j<ALL_NUM. fresh_ent ?i j" using i1(3) tabf_kept[OF h(3) m] by (simp add: fresh_ent_def)
  moreover have "huff_mem ?i" using huff_mem_kept[OF h(3)] m by (simp add: huff_mem_def)
  ultimately show ?thesis using h i1(1,2) by (simp add: huff_init_def huff_ready_def huff_same_def)
qed


subsection \<open>The four phases together\<close>

text \<open>The bytes of a source, and their number of occurrences.\<close>

abbreviation occurs :: "cuchar list \<Rightarrow> nat \<Rightarrow> nat" where
  "occurs src \<equiv> count_list (map unat src)"

definition bytes_of :: "cuchar list \<Rightarrow> nat list" where
  "bytes_of src = filter (\<lambda>i. occurs src i \<noteq> 0) [0..<256]"

definition leaf_order :: "cuchar list \<Rightarrow> nat list \<Rightarrow> bool" where
  "leaf_order src is \<longleftrightarrow> mset is = mset (bytes_of src) \<and> sorted (map (occurs src) is)"

definition huff_tree :: "cuchar list \<Rightarrow> nat list \<Rightarrow> htree" where
  "huff_tree src is = hbuild (occurs src) 256 (map HLeaf is)"

lemma bytes_of_src: "b \<in> set src \<Longrightarrow> unat b \<in> set (bytes_of src)"
  using byte_less[of b] by (simp add: bytes_of_def count_list_0_iff)

lemma bytes_of_card: "length (bytes_of src) = card (set src)"
proof -
  have "set (bytes_of src) = unat ` set src" using byte_less by (auto simp: bytes_of_def count_list_0_iff)
  moreover have "distinct (bytes_of src)" by (simp add: bytes_of_def)
  moreover have "inj_on unat (set src)" by (auto simp: inj_on_def dest: unsigned_word_eqI)
  ultimately show ?thesis by (metis card_image distinct_card)
qed

lemma leaf_order_set: "leaf_order src is \<Longrightarrow> set is = set (bytes_of src)"
  unfolding leaf_order_def using mset_eq_setD by blast

lemma leaf_order_facts:
  assumes "leaf_order src is"
  shows "distinct is" and "length is = length (bytes_of src)" and "sum_list (map (occurs src) is) = length src"
    and "\<And>i. i \<in> set is \<Longrightarrow> i < 256"
proof -
  have "distinct (bytes_of src)" by (simp add: bytes_of_def)
  then show d: "distinct is" using assms mset_eq_imp_distinct_iff by (auto simp: leaf_order_def)
  show "length is = length (bytes_of src)" using assms by (metis leaf_order_def size_mset)
  show lt: "\<And>i. i \<in> set is \<Longrightarrow> i < 256" using leaf_order_set[OF assms] by (simp add: bytes_of_def)
  have "set (map unat src) \<subseteq> set is" using bytes_of_src leaf_order_set[OF assms] by auto
  then have "sum (occurs src) (set is) = length (map unat src)" using sum_count_set by blast
  then show "sum_list (map (occurs src) is) = length src" using d by (simp add: sum_list_distinct_conv_sum_set)
qed

lemma huff_tree_facts:
  assumes "leaf_order src is" and "2 \<le> length is"
  shows "distinct (inds (huff_tree src is))" and "mset (hleaves (huff_tree src is)) = mset is"
    and "idx (huff_tree src is) = 254 + length is" and "\<And>i. i \<in> set (inds (huff_tree src is)) \<Longrightarrow> i < 255 + length is"
    and "length is \<le> 256" and "length (hleaves (huff_tree src is)) = length is"
proof -
  have c: "concat (map inds (map HLeaf is)) = is" "(\<Sum>t \<leftarrow> map HLeaf is. mset (hleaves t)) = mset is"
    by (induction "is") auto
  have ts: "map HLeaf is \<noteq> []" "distinct (concat (map inds (map HLeaf is)))" "\<forall>t \<in> set (map HLeaf is). \<forall>i \<in> set (inds t). i < 256"
    unfolding c using leaf_order_facts[OF assms(1)] assms(2) by auto
  note h = hbuild_tree[OF ts, where w = "occurs src", folded huff_tree_def]
  show "distinct (inds (huff_tree src is))" by (rule h(1))
  show m: "mset (hleaves (huff_tree src is)) = mset is" using h(2) unfolding c .
  show "idx (huff_tree src is) = 254 + length is" using h(3) assms(2) by simp
  show "\<And>i. i \<in> set (inds (huff_tree src is)) \<Longrightarrow> i < 255 + length is" using h(4) by simp
  have "length (bytes_of src) \<le> length [0..<256::nat]" unfolding bytes_of_def by (rule length_filter_le)
  then show "length is \<le> 256" using leaf_order_facts(2)[OF assms(1)] by simp
  show "length (hleaves (huff_tree src is)) = length is" using m by (metis size_mset)
qed

lemma huff_prepare_sorts:
  assumes "huff_ready info" and "length src < 2 ^ 31"
  shows "\<exists>info1 info2 is. hf_statistic_weight info src = Some (0, info1) \<and> hf_build_sort_list info1 = Some (0, info2)
    \<and> leaf_order src is \<and> huff_same info info2 \<and> ring (hm info2) (hhead info2) (LIST info2 is)
    \<and> (\<forall>i<ALL_NUM. unat (tabf info2 weight i) = occurs src i \<and> tabf info2 code i = 0 \<and> tabf info2 code_len i = 0
      \<and> tabf info2 tparent i = UNUSED)"
proof -
  have rdy: "huff_mem info" "ring (hm info) (hhead info) []" "\<forall>i<ALL_NUM. fresh_ent info i"
    using assms(1) by (auto simp: huff_ready_def)
  obtain i1 where i1: "hf_statistic_weight info src = Some (0, i1)" "huff_same info i1" "ring (hm i1) (hhead info) []"
      "\<forall>i<ALL_NUM. tabf i1 weight i = of_nat (occurs src i) \<and> tabf i1 code i = 0 \<and> tabf i1 code_len i = 0 \<and> tabf i1 tparent i = UNUSED"
    using hf_statistic_weight_counts[OF rdy(1), of src] rdy(2,3) by (fastforce simp: fresh_ent_def)
  have m1: "huff_mem i1" using i1(2) by (simp add: huff_same_def)
  have le: "occurs src i \<le> length src" for i using count_le_length[of "map unat src" i] by simp
  have w: "unat (tabf i1 weight i) = occurs src i" if "i < ALL_NUM" for i
  proof -
    have "occurs src i < 2 ^ 64" using le[of i] assms(2) by simp
    then show ?thesis using i1(4) that by (simp add: unat_of_nat take_bit_nat_eq_self)
  qed
  have bd: "\<forall>i<256. unat (tabf i1 weight i) < 2 ^ 31" using w le assms(2) by (fastforce simp: ALL_NUM_def intro: le_less_trans)
  obtain h ks where h: "hf_build_sort_list i1 = Some (0, i1\<lparr>hm := h\<rparr>)" "kept (hm i1) h" "ring h (hhead i1) (LIST i1 ks)"
      "mset ks = mset (filter (\<lambda>i. tabf i1 weight i \<noteq> 0) [0..<256])" "sorted (map (\<lambda>i. unat (tabf i1 weight i)) ks)"
    using hf_build_sort_list_ring[OF m1 _ bd] i1(2,3) by (auto simp: huff_same_def)
  have z: "tabf i1 weight i \<noteq> 0 \<longleftrightarrow> occurs src i \<noteq> 0" if "i < 256" for i
    using w[of i] that by (simp add: ALL_NUM_def flip: unat_eq_0)
  then have "filter (\<lambda>i. tabf i1 weight i \<noteq> 0) [0..<256] = bytes_of src" unfolding bytes_of_def by (intro filter_cong) auto
  then have mk: "mset ks = mset (bytes_of src)" using h(4) by simp
  then have "set ks = set (bytes_of src)" by (rule mset_eq_setD)
  then have eq: "map (\<lambda>i. unat (tabf i1 weight i)) ks = map (occurs src) ks"
    using w by (auto simp: bytes_of_def ALL_NUM_def)
  have "leaf_order src ks" using mk h(5) unfolding leaf_order_def eq by blast
  moreover have "huff_same info (i1\<lparr>hm := h\<rparr>)" using i1(2) huff_mem_kept[OF h(2)] by (simp add: huff_same_def)
  ultimately show ?thesis using i1(1,4) h(1,3) w tabf_kept[OF h(2) m1]
    by (intro exI[of _ i1] exI[of _ "i1\<lparr>hm := h\<rparr>"] exI[of _ ks]) simp
qed


lemma huff_prepare_builds:
  assumes "huff_ready info" and "length src < 2 ^ 31" and "2 \<le> length (bytes_of src)"
  shows "\<exists>info' is. huff_prepare info src = Some (0, info') \<and> leaf_order src is \<and> huff_mem info'
    \<and> tree_of info' (huff_tree src is) \<and> hroot info' = idx (huff_tree src is)
    \<and> (\<forall>i \<in> set (bytes_of src). coded info' (huff_tree src is) i)"
proof -
  obtain i1 i2 ks where i: "hf_statistic_weight info src = Some (0, i1)" "hf_build_sort_list i1 = Some (0, i2)"
      "leaf_order src ks" "huff_same info i2" "ring (hm i2) (hhead i2) (LIST i2 ks)"
      "\<forall>i<ALL_NUM. unat (tabf i2 weight i) = occurs src i \<and> tabf i2 code i = 0 \<and> tabf i2 code_len i = 0
      \<and> tabf i2 tparent i = UNUSED"
    using huff_prepare_sorts[OF assms(1,2)] by blast
  note lo = leaf_order_facts[OF i(3)]
  have len: "2 \<le> length ks" using assms(3) lo(2) by simp
  note tr = huff_tree_facts[OF i(3) len]
  have c: "concat (map inds (map HLeaf ks)) = ks" "map idx (map HLeaf ks) = ks" "map (wt (occurs src)) (map HLeaf ks) = map (occurs src) ks"
    by (induction ks) auto
  have lt: "j < ALL_NUM" if "j \<in> set ks" for j using lo(4)[OF that] by (simp add: ALL_NUM_def)
  have "forest (occurs src) i2 256 (map HLeaf ks)"
    unfolding forest_def c using i(4,5,6) lt lo tr(5) assms(2) by (auto simp: huff_same_def)
  moreover have "map HLeaf ks \<noteq> []" using len by auto
  ultimately obtain i3 where i3: "hufftree_loop i2 256 = Some (i3, 256 + length (map HLeaf ks) - 1)" "huff_same i2 i3"
      "tree_of i3 (huff_tree src ks)" "\<forall>i<ALL_NUM. tabf i3 code i = tabf i2 code i
      \<and> tabf i3 code_len i = tabf i2 code_len i \<and> (i < 256 \<longrightarrow> tabf i3 weight i = tabf i2 weight i)"
    unfolding huff_tree_def using hufftree_loop_builds by blast
  let ?i4 = "i3\<lparr>hroot := idx (huff_tree src ks)\<rparr>"
  have b: "hf_build_hufftree i2 = Some (0, ?i4)"
    using i3(1) len tr(3) by (simp add: hf_build_hufftree_def LEAF_NUM_def)
  have m4: "huff_mem ?i4" using i3(2) by (simp add: huff_same_def)
  have t4: "tree_of ?i4 (huff_tree src ks)" using i3(3) by simp
  have lv: "set (hleaves (huff_tree src ks)) = set ks" using tr(2) by (rule mset_eq_setD)
  have w4: "tabf ?i4 weight j \<noteq> 0 \<longleftrightarrow> j \<in> set ks" if "j < 256" for j
    using that i3(4) i(6) leaf_order_set[OF i(3)] by (auto simp: ALL_NUM_def bytes_of_def simp flip: unat_eq_0)
  have "\<forall>j \<in> set [0..<256]. j < 256 \<and> (tabf ?i4 weight j \<noteq> 0 \<longrightarrow> j \<in> set (hleaves (huff_tree src ks)))
      \<and> tabf ?i4 code j = 0 \<and> tabf ?i4 code_len j = 0"
    using w4 i3(4) i(6) lv by (auto simp: ALL_NUM_def)
  then obtain i5 where i5: "fill_codes ?i4 [0..<256] = Some i5" "same_tree ?i4 i5"
      "\<forall>j \<in> set [0..<256]. tabf ?i4 weight j \<noteq> 0 \<longrightarrow> coded i5 (huff_tree src ks) j"
    using fill_codes_coded[OF m4 t4 tr(1), of "[0..<256]"] by auto
  have "huff_prepare info src = Some (0, i5)"
    using i(1,2) b i5(1) by (simp add: huff_prepare_def hf_fill_code_def LEAF_NUM_def)
  moreover have "huff_mem i5 \<and> hroot i5 = idx (huff_tree src ks)" using i5(2) by (simp add: same_tree_def huff_same_def)
  moreover have "tree_of i5 (huff_tree src ks)" by (rule same_tree_of[OF i5(2) t4 tr(1)])
  moreover have "\<forall>j \<in> set (bytes_of src). coded i5 (huff_tree src ks) j"
    using i5(3) w4 leaf_order_set[OF i(3)] lo(4) by auto
  ultimately show ?thesis using i(3) by blast
qed

subsection \<open>The table in the archive\<close>

lemma read_table_nodes:
  assumes "huff_mem info" and "\<forall>i \<in> set is. i < ALL_NUM"
  shows "read_table info is = Some (map (tnode info) is)"
  using assms by (induction "is") (auto simp: tabf_def)

lemma node_pute [simp]: "huff_mem info \<Longrightarrow> j < ALL_NUM \<Longrightarrow>
    tnode (pute info i g) j = (if j = i then g (tnode info i) else tnode info j)"
  using huff_mem_live[of info j] by (auto simp: pute_def tnode_def mem_upd live_def)

lemma write_table_nodes:
  assumes "huff_mem info" and "k + length ns \<le> ALL_NUM"
  shows "\<exists>info'. write_table info k ns = Some info' \<and> huff_mem info' \<and> hroot info' = hroot info \<and> hsize info' = hsize info
    \<and> (\<forall>i<ALL_NUM. tnode info' i = (if k \<le> i \<and> i < k + length ns then ns ! (i - k) else tnode info i))"
  using assms
proof (induction ns arbitrary: info k)
  case (Cons n ns)
  let ?i = "pute info k (\<lambda>_. n)"
  obtain i' where i': "write_table ?i (k + 1) ns = Some i'" "huff_mem i'" "hroot i' = hroot info" "hsize i' = hsize info"
      "\<forall>i<ALL_NUM. tnode i' i = (if k + 1 \<le> i \<and> i < k + 1 + length ns then ns ! (i - (k + 1)) else tnode ?i i)"
    using Cons.IH[of ?i "k + 1"] Cons.prems by auto
  have "tnode i' i = (if k \<le> i \<and> i < k + length (n # ns) then (n # ns) ! (i - k) else tnode info i)" if "i < ALL_NUM" for i
    using i'(5) that Cons.prems(1) by (auto simp: nth_Cons')
  then show ?case using i' Cons.prems by auto
next
  case Nil
  then show ?case by auto
qed

text \<open>The decoder sees the same tree.\<close>

lemma unpacked_tree:
  assumes "huff_mem info" and "huff_mem info2" and "tree_of info t" and "distinct (inds t)" and "r < ALL_NUM"
    and "\<And>i. i \<in> set (inds t) \<Longrightarrow> i \<le> r" and "magic f = HUFF_MAGIC" and "froot f = r"
    and "ftable f = map (tnode info) [0..<r + 1]"
  shows "\<exists>info3. hf_unpack_huff_head info2 f = Some (0, info3) \<and> huff_mem info3 \<and> tree_of info3 t
    \<and> hroot info3 = r \<and> hsize info3 = file_size f"
proof -
  let ?i = "info2\<lparr>hroot := r, hsize := file_size f\<rparr>"
  have m: "huff_mem ?i" using assms(2) by simp
  obtain i3 where i3: "write_table ?i 0 (map (tnode info) [0..<r + 1]) = Some i3" "huff_mem i3" "hroot i3 = r" "hsize i3 = file_size f"
      "\<forall>i<ALL_NUM. tnode i3 i = (if i < r + 1 then map (tnode info) [0..<r + 1] ! i else tnode ?i i)"
    using write_table_nodes[OF m, of 0 "map (tnode info) [0..<r + 1]"] assms(5) by auto
  have "tnode i3 i = tnode info i" if "i \<le> r" for i using i3(5) that assms(5) by (auto simp del: upt_Suc)
  then have "tabf i3 g i = tabf info g i" if "i \<le> r" for g :: "huff_node \<Rightarrow> nat" and i using that by (simp add: tabf_def)
  then have "tree_of i3 t" using assms(6) by (intro repr_frame[OF assms(3,4)]) auto
  moreover have "take (r + 1) (map (tnode info) [0..<r + 1]) = map (tnode info) [0..<r + 1]" by simp
  ultimately show ?thesis using i3(1-4) assms(7-9) by (intro exI[of _ i3]) (simp only: hf_unpack_huff_head_def Let_def, simp)
qed


subsection \<open>Round trip\<close>

lemma coded_length:
  assumes "coded info t i" and "(i, p) \<in> set (codes t)" and "length (hleaves t) \<le> 256"
  shows "unat (tabf info code_len i) = length p"
  using assms codes_length[OF assms(2)] by (simp add: coded_def unat_of_nat)

lemma compress_decompress:
  assumes prep: "huff_prepare info src = Some (0, i1)" and m: "huff_mem i1" "huff_mem info2"
    and t: "tree_of i1 t" "distinct (inds t)" "hroot i1 = idx t" "256 \<le> idx t" "idx t < ALL_NUM"
      "\<And>i. i \<in> set (inds t) \<Longrightarrow> i \<le> idx t"
    and src: "\<forall>b \<in> set src. unat b \<in> set (hleaves t) \<and> coded i1 t (unat b) \<and> length (pth t b) \<le> 16"
      "src \<noteq> []" "length src < 2 ^ 31"
  shows "\<exists>arc info3. huff_compress info (Some src) True = Some (0, Some arc, i1)
    \<and> huff_decompress info2 (Some arc) True = Some (0, src, info3)"
proof -
  let ?f = "\<lparr>magic = HUFF_MAGIC, ftype = 0x33, froot = idx t, file_size = of_nat (length src),
       ftable = map (tnode i1) [0..<idx t + 1], body = []\<rparr>"
  have f: "hf_make_huff_head i1 src = Some (0, ?f)"
    using read_table_nodes[OF m(1), of "[0..<idx t + 1]"] t(3,5) by (simp add: hf_make_huff_head_def)
  have "packed (0, 0, []) []" by (simp add: packed_def)
  then obtain w n out where e: "enc_bytes i1 src (0, 0, []) = Some (w, n, out)"
      "packed (w, n, out) ([] @ concat (map (pth t) src))"
    using enc_bytes_packed[OF m(1) _ src(1)] by (metis prod_cases3)
  define out' where "out' = (if n \<noteq> 0 then out @ [push_bit (8 - n) w] else out)"
  let ?arc = "?f\<lparr>body := out'\<rparr>"
  have c: "huff_compress info (Some src) True = Some (0, Some ?arc, i1)"
    using prep f e(1) by (simp add: huff_compress_def out'_def Let_def)
  obtain pad where pad: "concat (map byte_bits out') = concat (map (pth t) src) @ pad"
    using packed_flush[OF e(2)] by (auto simp: out'_def)
  obtain i3 where i3: "hf_unpack_huff_head info2 ?arc = Some (0, i3)" "huff_mem i3" "tree_of i3 t" "hroot i3 = idx t"
      "hsize i3 = of_nat (length src)"
    using unpacked_tree[OF m t(1,2,5,6), of ?arc] by auto
  have "dec_stream i3 (concat (map (pth t) src) @ pad) (idx t, of_nat 0, []) = Some (True, (idx t, of_nat (0 + length src), [] @ src))"
    by (rule dec_stream_all[OF i3(2,3) t(4) i3(4)]) (use i3(5) src in auto)
  then have "dec_bytes i3 out' (idx t, 0, []) = Some (idx t, of_nat (length src), src)"
    by (simp add: dec_bytes_stream pad)
  then have "huff_decompress info2 (Some ?arc) True = Some (0, src, i3)"
    using i3(1,4) by (simp add: huff_decompress_def)
  then show ?thesis using c by blast
qed

lemma huff_roundtrip_coded:
  assumes "huff_ready info" and "huff_mem info2" and "length src < 2 ^ 31" and "2 \<le> length (bytes_of src)"
  shows "\<exists>info'. huff_prepare info src = Some (0, info') \<and>
    ((\<forall>b \<in> set src. unat (tabf info' code_len (unat b)) \<le> 16) \<longrightarrow>
      (\<exists>arc info3. huff_compress info (Some src) True = Some (0, Some arc, info')
        \<and> huff_decompress info2 (Some arc) True = Some (0, src, info3)))
    \<and> (\<forall>b \<in> set src. unat (tabf info' code_len (unat b)) < length (bytes_of src))"
proof -
  obtain i1 ks where p: "huff_prepare info src = Some (0, i1)" "leaf_order src ks" "huff_mem i1" "tree_of i1 (huff_tree src ks)"
      "hroot i1 = idx (huff_tree src ks)" "\<forall>i \<in> set (bytes_of src). coded i1 (huff_tree src ks) i"
    using huff_prepare_builds[OF assms(1,3,4)] by blast
  let ?t = "huff_tree src ks"
  have len: "2 \<le> length ks" using leaf_order_facts(2)[OF p(2)] assms(4) by simp
  note tr = huff_tree_facts[OF p(2) len]
  have lv: "unat b \<in> set (hleaves ?t)" if "b \<in> set src" for b
    using bytes_of_src[OF that] leaf_order_set[OF p(2)] mset_eq_setD[OF tr(2)] by simp
  have cl: "unat (tabf i1 code_len (unat b)) = length (pth ?t b) \<and> length (pth ?t b) < length (bytes_of src)" if "b \<in> set src" for b
    using coded_length[OF _ pth_codes[OF lv[OF that]], of i1] codes_length[OF pth_codes[OF lv[OF that]]] tr(5,6) p(6)
      bytes_of_src[OF that] leaf_order_facts(2)[OF p(2)] by simp
  have ne: "src \<noteq> []" using assms(4) by (auto simp: bytes_of_def)
  have ix: "256 \<le> idx ?t" "idx ?t < ALL_NUM" using tr(3,5) len by (simp_all add: ALL_NUM_def)
  have ub: "i \<le> idx ?t" if "i \<in> set (inds ?t)" for i using tr(3) tr(4)[OF that] by simp
  have "\<exists>arc info3. huff_compress info (Some src) True = Some (0, Some arc, i1)
        \<and> huff_decompress info2 (Some arc) True = Some (0, src, info3)"
    if "\<forall>b \<in> set src. unat (tabf i1 code_len (unat b)) \<le> 16"
    using compress_decompress[OF p(1,3) assms(2) p(4) tr(1) p(5) ix ub _ ne assms(3)] lv cl p(6) bytes_of_src that by auto
  then show ?thesis using p(1) cl by auto
qed


lemma huff_prepare_code:
  assumes "leaf_order src ks" and "\<forall>i \<in> set (bytes_of src). coded info (huff_tree src ks) i" and "2 \<le> card (set src)"
    and "b \<in> set src" and "(unat b, p) \<in> set (codes (huff_tree src ks))"
  shows "unat (tabf info code_len (unat b)) = length p \<and> length p < card (set src)
    \<and> (\<forall>k<16. bit (tabf info code (unat b)) k \<longleftrightarrow> k < length p \<and> p ! k)"
proof -
  have len: "2 \<le> length ks" "length ks = card (set src)" using leaf_order_facts(2)[OF assms(1)] assms(3) by (simp_all add: bytes_of_card)
  note tr = huff_tree_facts[OF assms(1) len(1)]
  have c: "coded info (huff_tree src ks) (unat b)" using assms(2) bytes_of_src[OF assms(4)] by blast
  then have "tabf info code (unat b) = foldl pushb 0 (rev p)" using assms(5) by (simp add: coded_def)
  then show ?thesis
    using coded_length[OF c assms(5)] codes_length[OF assms(5)] tr(5,6) len(2) by (simp add: bit_path)
qed

subsection \<open>Sources with one byte or none\<close>

text \<open>A table with one leaf: the leaf has no parent, and the walk to the root leaves the table.\<close>

lemma huff_prepare_single:
  assumes "huff_ready info" and "length src < 2 ^ 31" and "length (bytes_of src) = 1"
  shows "huff_prepare info src = None"
proof -
  obtain i1 i2 ks where i: "hf_statistic_weight info src = Some (0, i1)" "hf_build_sort_list i1 = Some (0, i2)"
      "leaf_order src ks" "huff_same info i2" "ring (hm i2) (hhead i2) (LIST i2 ks)"
      "\<forall>i<ALL_NUM. unat (tabf i2 weight i) = occurs src i \<and> tabf i2 code i = 0 \<and> tabf i2 code_len i = 0
      \<and> tabf i2 tparent i = UNUSED"
    using huff_prepare_sorts[OF assms(1,2)] by blast
  obtain j where j: "ks = [j]" using leaf_order_facts(2)[OF i(3)] assms(3) by (auto simp: length_Suc_conv)
  have jl: "j < 256" "bytes_of src = [j]" using leaf_order_facts(4)[OF i(3)] i(3) by (auto simp: j leaf_order_def)
  let ?i = "i2\<lparr>hroot := 256\<rparr>"
  have m: "huff_mem ?i" using i(4) by (simp add: huff_same_def)
  have r: "ring (hm i2) (hhead i2) [tab i2 + j]" using i(5) j by simp
  have "rd (hm i2) nxt (hhead i2) = Some (tab i2 + j)" "rd (hm i2) nxt (tab i2 + j) = Some (hhead i2)"
    using ring_rds_head(1)[OF r] ring_rds(1)[of "hm i2" "hhead i2" "[]" "tab i2 + j" "[]"] r by auto
  then have b: "hf_build_hufftree i2 = Some (0, ?i)" by (simp add: hf_build_hufftree_def hufftree_loop.simps LEAF_NUM_def)
  have w: "tabf i2 weight k = 0 \<longleftrightarrow> k \<noteq> j" if "k < 256" for k
  proof -
    have "tabf ?i weight k \<noteq> 0 \<longleftrightarrow> k \<in> set (bytes_of src)"
      using i(6) that by (simp add: ALL_NUM_def bytes_of_def flip: unat_eq_0)
    then show ?thesis by (auto simp: jl(2))
  qed
  have f: "fill_code_loop ?i j j = None"
    using m i(6) jl(1) by (subst fill_code_loop.simps) (simp add: ALL_NUM_def UNUSED_def get_ent_def[of _ trchild] ent_def)
  have "fill_codes ?i ks = None" if "j \<in> set ks" "\<forall>k \<in> set ks. k < 256" for ks
    using that by (induction ks) (auto simp: m[simplified] ALL_NUM_def w f)
  then have "fill_codes ?i [0..<256] = None" using jl(1) by simp
  then show ?thesis using i(1,2) b by (simp add: huff_prepare_def hf_fill_code_def LEAF_NUM_def)
qed

lemma huff_prepare_empty:
  assumes "huff_ready info"
  shows "\<exists>info'. huff_prepare info [] = Some (0, info') \<and> huff_mem info' \<and> hroot info' = 256"
proof -
  obtain i1 i2 ks where i: "hf_statistic_weight info [] = Some (0, i1)" "hf_build_sort_list i1 = Some (0, i2)"
      "leaf_order [] ks" "huff_same info i2" "ring (hm i2) (hhead i2) (LIST i2 ks)"
      "\<forall>i<ALL_NUM. unat (tabf i2 weight i) = occurs [] i \<and> tabf i2 code i = 0 \<and> tabf i2 code_len i = 0
      \<and> tabf i2 tparent i = UNUSED"
    using huff_prepare_sorts[OF assms, of "[]"] by auto
  have ks: "ks = []" using i(3) by (simp add: leaf_order_def bytes_of_def)
  let ?i = "i2\<lparr>hroot := 256\<rparr>"
  have m: "huff_mem ?i" using i(4) by (simp add: huff_same_def)
  have r: "ring (hm i2) (hhead i2) []" using i(5) ks by simp
  then have "rd (hm i2) nxt (hhead i2) = Some (hhead i2)" using ring_rds_head(1)[OF r] by simp
  then have b: "hf_build_hufftree i2 = Some (0, ?i)" by (simp add: hf_build_hufftree_def hufftree_loop.simps LEAF_NUM_def)
  have "tabf ?i weight k = 0" if "k < 256" for k using i(6) that by (simp add: ALL_NUM_def flip: unat_eq_0)
  then have "fill_codes ?i ks = Some ?i" if "\<forall>k \<in> set ks. k < 256" for ks
    using that by (induction ks) (auto simp: m[simplified] ALL_NUM_def)
  then have "fill_codes ?i [0..<256] = Some ?i" by simp
  then show ?thesis using i(1,2) b m by (intro exI[of _ ?i]) (simp add: huff_prepare_def hf_fill_code_def LEAF_NUM_def)
qed

lemma huff_roundtrip_empty:
  assumes "huff_ready info" and "huff_mem info2"
  shows "\<exists>arc info' info3. huff_compress info (Some []) True = Some (0, Some arc, info') \<and> body arc = []
    \<and> length (ftable arc) = 257 \<and> huff_decompress info2 (Some arc) True = Some (0, [], info3)"
proof -
  obtain i1 where i1: "huff_prepare info [] = Some (0, i1)" "huff_mem i1" "hroot i1 = 256"
    using huff_prepare_empty[OF assms(1)] by blast
  let ?f = "\<lparr>magic = HUFF_MAGIC, ftype = 0x33, froot = 256, file_size = 0,
       ftable = map (tnode i1) [0..<257], body = []\<rparr>"
  have f: "hf_make_huff_head i1 [] = Some (0, ?f)"
    using read_table_nodes[OF i1(2), of "[0..<257]"] i1(3) by (simp add: hf_make_huff_head_def ALL_NUM_def)
  obtain i3 where "hf_unpack_huff_head info2 ?f = Some (0, i3)"
    using unpacked_tree[OF i1(2) assms(2), of "HLeaf 0" 256 ?f] by (auto simp: ALL_NUM_def)
  then have "huff_decompress info2 (Some ?f) True = Some (0, [], i3)" by (simp add: huff_decompress_def)
  moreover have "huff_compress info (Some []) True = Some (0, Some ?f, i1)"
    using i1(1) f by (simp add: huff_compress_def Let_def)
  ultimately show ?thesis by (intro exI[of _ ?f]) (simp del: upt_conv_Nil)
qed

text \<open>An archive with another magic number is refused, and nothing is written.\<close>

lemma huff_decompress_magic:
  "magic f \<noteq> HUFF_MAGIC \<Longrightarrow> \<exists>info'. huff_decompress info (Some f) True = Some (-1, [], info')"
  by (simp add: huff_decompress_def hf_unpack_huff_head_def Let_def)

text \<open>The root of the archive is not checked: from 511 on the table of the reader overflows.\<close>

lemma write_table_overflow:
  assumes "huff_mem info" and "k \<le> ALL_NUM" and "ALL_NUM < k + length ns"
  shows "write_table info k ns = None"
  using assms
proof (induction ns arbitrary: info k)
  case (Cons n ns)
  show ?case
  proof (cases "k < ALL_NUM")
    case True
    then show ?thesis using Cons.IH[of "pute info k (\<lambda>_. n)" "k + 1"] Cons.prems by simp
  next
    case False
    then show ?thesis by (simp add: put_ent_def ent_def)
  qed
qed simp

lemma huff_decompress_overflow:
  assumes "huff_mem info" and "magic f = HUFF_MAGIC" and "ALL_NUM \<le> froot f" and "ALL_NUM < length (ftable f)"
  shows "huff_decompress info (Some f) True = None"
proof -
  have "huff_mem (info\<lparr>hroot := froot f, hsize := file_size f\<rparr>)" using assms(1) by simp
  moreover have "ALL_NUM < length (take (froot f + 1) (ftable f))" using assms(3,4) by simp
  ultimately have "write_table (info\<lparr>hroot := froot f, hsize := file_size f\<rparr>) 0 (take (froot f + 1) (ftable f)) = None"
    using write_table_overflow[of "info\<lparr>hroot := froot f, hsize := file_size f\<rparr>" 0] by simp
  then show ?thesis using assms(2) by (simp add: huff_decompress_def hf_unpack_huff_head_def Let_def)
qed

end
