(* ===== verification/Posix.thy ===== *)
theory Posix
  imports Prelude
begin

section \<open>What the system delivers to a read or a write\<close>

text \<open>
  The coming results of \<open>read\<close> on a descriptor are a list of events: bytes that have arrived, a signal
  that interrupts the call, an error. No bytes is the end of the input (a timeout on a terminal, the end of
  the connection on a socket); so is the end of the list. A write may take only part of the bytes.
\<close>

datatype rd_event = Got "cuchar list" | RdIntr | RdFail
datatype wr_event = Room nat | WrIntr | WrFail

text \<open>What a function does: return a value, or end the process.\<close>

datatype 'a outcome = Returns 'a | Exits int

text \<open>What arrives before the end of the input or an error.\<close>

fun payload :: "rd_event list \<Rightarrow> cuchar list" where
  "payload [] = []"
| "payload (RdIntr # es) = payload es"
| "payload (RdFail # es) = []"
| "payload (Got bs # es) = (if bs = [] then [] else bs @ payload es)"

text \<open>The loop around \<open>read\<close> that every program here has: an interrupted call is repeated.\<close>

fun read_retry :: "rd_event list \<Rightarrow> nat \<Rightarrow> cuchar list option" where
  "read_retry [] len = Some []"
| "read_retry (RdIntr # es) len = read_retry es len"
| "read_retry (RdFail # es) len = None"
| "read_retry (Got bs # es) len = Some (take len bs)"

lemma read_retry_len: "read_retry es len = Some bs \<Longrightarrow> length bs \<le> len"
  by (induction es len rule: read_retry.induct) auto

text \<open>A C string in a buffer, and \<open>toupper\<close> in the C locale.\<close>

definition cstr :: "cuchar list \<Rightarrow> cuchar list" where
  "cstr buf = takeWhile (\<lambda>b. b \<noteq> 0) buf"

definition toupper :: "cuchar \<Rightarrow> cuchar" where
  "toupper b = (if 97 \<le> b \<and> b \<le> 122 then b - 32 else b)"

text \<open>\<open>%s\<close> of an array: without a terminating zero the call reads behind it.\<close>

definition fmt_s :: "cuchar list \<Rightarrow> cuchar list option" where
  "fmt_s buf = (if 0 \<in> set buf then Some (cstr buf) else None)"

lemma cstr_append: "0 \<notin> set xs \<Longrightarrow> cstr (xs @ 0 # ys) = xs"
  by (induction xs) (auto simp: cstr_def)

text \<open>\<open>strstr\<close>: the offset of the first match.\<close>

fun strstr_at :: "cuchar list \<Rightarrow> cuchar list \<Rightarrow> nat \<Rightarrow> nat option" where
  "strstr_at pat [] i = (if pat = [] then Some i else None)"
| "strstr_at pat (b # bs) i = (if take (length pat) (b # bs) = pat then Some i else strstr_at pat bs (i + 1))"

text \<open>Storing bytes at the front of a buffer.\<close>

definition store :: "cuchar list \<Rightarrow> cuchar list \<Rightarrow> cuchar list" where
  "store bs buf = bs @ drop (length bs) buf"

lemma length_store [simp]: "length bs \<le> length buf \<Longrightarrow> length (store bs buf) = length buf"
  by (simp add: store_def)


subsection \<open>Strings and numbers\<close>

text \<open>A literal as bytes, \<open>%d\<close> and \<open>atoi\<close>.\<close>

definition lit :: "string \<Rightarrow> cuchar list" where
  "lit cs = map of_char cs"

fun dec :: "nat \<Rightarrow> cuchar list" where
  "dec n = (if n < 10 then [48 + of_nat n] else dec (n div 10) @ [48 + of_nat (n mod 10)])"

declare dec.simps [simp del]

definition dec_int :: "int \<Rightarrow> cuchar list" where
  "dec_int i = (if i < 0 then lit ''-'' @ dec (nat (- i)) else dec (nat i))"

definition digit :: "cuchar \<Rightarrow> bool" where
  "digit b \<longleftrightarrow> 48 \<le> b \<and> b \<le> 57"

definition blank :: "cuchar \<Rightarrow> bool" where
  "blank b \<longleftrightarrow> b = 32 \<or> (9 \<le> b \<and> b \<le> 13)"

definition digits_value :: "cuchar list \<Rightarrow> int" where
  "digits_value bs = foldl (\<lambda>v b. 10 * v + int (unat (b - 48))) 0 bs"

definition atoi :: "cuchar list \<Rightarrow> int" where
  "atoi s = (case dropWhile blank s of
     [] \<Rightarrow> 0
   | b # bs \<Rightarrow>
     (if b = 45 then - digits_value (takeWhile digit bs)
      else if b = 43 then digits_value (takeWhile digit bs)
      else digits_value (takeWhile digit (b # bs))))"

lemma digit_char:
  assumes "d < 10"
  shows "digit (48 + of_nat d)" and "unat ((48 + of_nat d :: cuchar) - 48) = d"
    and "(48 + of_nat d :: cuchar) \<notin> {45, 43, 35, 36, 58, 0}" and "\<not> blank (48 + of_nat d)"
proof -
  have "d \<in> {0, 1, 2, 3, 4, 5, 6, 7, 8, 9}" using assms by auto
  then have "digit (48 + of_nat d) \<and> unat ((48 + of_nat d :: cuchar) - 48) = d
    \<and> (48 + of_nat d :: cuchar) \<notin> {45, 43, 35, 36, 58, 0} \<and> \<not> blank (48 + of_nat d)"
    by (elim insertE emptyE) (simp_all add: digit_def blank_def word_less_nat_alt word_le_nat_alt)
  then show "digit (48 + of_nat d)" and "unat ((48 + of_nat d :: cuchar) - 48) = d"
    and "(48 + of_nat d :: cuchar) \<notin> {45, 43, 35, 36, 58, 0}" and "\<not> blank (48 + of_nat d)" by blast+
qed

lemma dec_digits: "\<forall>b \<in> set (dec n). digit b \<and> b \<notin> {45, 43, 35, 36, 58, 0} \<and> \<not> blank b"
proof (induction n rule: dec.induct)
  case (1 n)
  then show ?case using digit_char[of n] digit_char[of "n mod 10"] by (subst dec.simps) auto
qed

lemma dec_value: "digits_value (dec n) = int n"
proof (induction n rule: dec.induct)
  case (1 n)
  show ?case
  proof (cases "n < 10")
    case True
    then show ?thesis using digit_char(2)[OF True]
      by (subst dec.simps) (simp only: if_True digits_value_def foldl.simps mult_zero_right add_0)
  next
    case False
    then have "digits_value (dec (n div 10)) = int (n div 10)" by (rule 1)
    moreover have "unat ((48 + of_nat (n mod 10) :: cuchar) - 48) = n mod 10" by (rule digit_char(2)) simp
    ultimately have "digits_value (dec (n div 10) @ [48 + of_nat (n mod 10)]) = 10 * int (n div 10) + int (n mod 10)"
      by (simp only: digits_value_def foldl_append foldl.simps)
    also have "\<dots> = int n" by presburger
    finally show ?thesis using False by (subst dec.simps) simp
  qed
qed

lemma dec_nonempty [simp]: "dec n \<noteq> []"
  by (subst dec.simps) simp

text \<open>Reading back a printed number.\<close>

lemma atoi_dec:
  assumes "rest = [] \<or> \<not> digit (hd rest)"
  shows "atoi (dec n @ rest) = int n"
proof -
  obtain b bs where d: "dec n = b # bs" by (cases "dec n") auto
  have b: "digit b" "b \<notin> {45, 43}" "\<not> blank b" using dec_digits[of n] d by auto
  have "takeWhile digit (dec n @ rest) = dec n"
    using assms dec_digits[of n] by (cases rest) (auto simp: takeWhile_append2)
  then show ?thesis using b d dec_value[of n] by (simp add: atoi_def)
qed

lemma atoi_dec_str: "atoi (dec n) = int n"
  using atoi_dec[of "[]" n] by simp

end
