(* ===== verification/Termios.thy ===== *)
theory Termios
  imports Posix
begin

section \<open>The serial terminal (03Termios/term.c)\<close>

text \<open>
  \<open>struct term_t\<close> holds a file descriptor and a pointer to the attributes of the device. The
  attribute words have 32 bits, with the flag values of Linux. \<open>NDEBUG\<close> is defined, so the assertions of
  the file are no statements.

  The operating system is a state next to the program: the attributes of the device, whether the calls for them
  succeed, what \<open>open\<close> returns, and what the coming calls of \<open>read\<close> and \<open>write\<close> will do. The
  function pointers of \<open>term_init\<close> always hold the functions of this file.
\<close>

unbundle bit_operations_syntax

record termios =
  c_iflag :: "32 word"
  c_oflag :: "32 word"
  c_cflag :: "32 word"
  c_lflag :: "32 word"
  c_cc :: "cuchar list"

record term_t =
  fd_dev :: int
  attrs :: "termios option"

record os =
  tty :: termios
  get_ok :: bool
  set_ok :: bool
  dev_fd :: int
  rds :: "rd_event list"
  wrs :: "wr_event list"
  outq :: "cuchar list"

subsection \<open>Flags\<close>

definition CBAUD :: "32 word" where "CBAUD = 0x100f"
definition CSIZE :: "32 word" where "CSIZE = 0x30"
definition CS7 :: "32 word" where "CS7 = 0x20"
definition CS8 :: "32 word" where "CS8 = 0x30"
definition CSTOPB :: "32 word" where "CSTOPB = 0x40"
definition PARENB :: "32 word" where "PARENB = 0x100"
definition PARODD :: "32 word" where "PARODD = 0x200"
definition CRTSCTS :: "32 word" where "CRTSCTS = 0x80000000"
definition INPCK :: "32 word" where "INPCK = 0x10"
definition IXON :: "32 word" where "IXON = 0x400"
definition IXANY :: "32 word" where "IXANY = 0x800"
definition IXOFF :: "32 word" where "IXOFF = 0x1000"
definition ISIG :: "32 word" where "ISIG = 1"
definition ICANON :: "32 word" where "ICANON = 2"
definition ECHO :: "32 word" where "ECHO = 8"
definition ECHOE :: "32 word" where "ECHOE = 0x10"
definition OPOST :: "32 word" where "OPOST = 1"
definition IBAUD0 :: "32 word" where "IBAUD0 = 0x80000000"
definition VTIME :: nat where "VTIME = 5"
definition VMIN :: nat where "VMIN = 6"

lemmas tty_flags =
  CBAUD_def CSIZE_def CS7_def CS8_def CSTOPB_def PARENB_def PARODD_def CRTSCTS_def INPCK_def IXON_def IXANY_def
  IXOFF_def ISIG_def ICANON_def ECHO_def ECHOE_def OPOST_def

text \<open>\<open>B230400\<close> to \<open>B4800\<close>.\<close>

definition speed_arr :: "(32 word) list" where
  "speed_arr = [0x1003, 0x1002, 0x1001, 0xf, 0xe, 0xd, 0xc]"

definition name_arr :: "int list" where
  "name_arr = [230400, 115200, 57600, 38400, 19200, 9600, 4800]"

subsection \<open>System calls\<close>

definition tcgetattr :: "os \<Rightarrow> termios \<Rightarrow> int \<times> termios" where
  "tcgetattr env t = (if get_ok env then (0, tty env) else (-1, t))"

definition tcsetattr :: "os \<Rightarrow> termios \<Rightarrow> int \<times> os" where
  "tcsetattr env t = (if set_ok env then (0, env\<lparr>tty := t\<rparr>) else (-1, env))"

definition cfsetospeed :: "32 word \<Rightarrow> termios \<Rightarrow> termios" where
  "cfsetospeed speed t = t\<lparr>c_cflag := (c_cflag t AND NOT CBAUD) OR speed\<rparr>"

definition cfsetispeed :: "32 word \<Rightarrow> termios \<Rightarrow> termios" where
  "cfsetispeed speed t = (if speed = 0 then t\<lparr>c_iflag := c_iflag t OR IBAUD0\<rparr>
     else t\<lparr>c_iflag := c_iflag t AND NOT IBAUD0, c_cflag := (c_cflag t AND NOT CBAUD) OR speed\<rparr>)"

text \<open>
  \<open>tcflush\<close> throws away input that has arrived and output that has not left. The events of \<open>rds\<close> are
  the results of later reads; an empty list says that no byte arrives any more.
\<close>

definition tcoflush :: "os \<Rightarrow> os" where
  "tcoflush env = env\<lparr>outq := []\<rparr>"

subsection \<open>Opening and attributes\<close>

definition term_open_dev :: "os \<Rightarrow> term_t \<Rightarrow> int \<times> term_t" where
  "term_open_dev env info = (let info = info\<lparr>fd_dev := dev_fd env\<rparr> in
     if fd_dev info = -1 then (-1, info) else (0, info))"

text \<open>The loop returns its index, and whether \<open>tcsetattr\<close> succeeded; \<open>break\<close> ends it.\<close>

fun speed_loop :: "os \<Rightarrow> termios \<Rightarrow> int \<Rightarrow> nat list \<Rightarrow> nat \<times> bool \<times> termios \<times> os" where
  "speed_loop env t speed [] = (length speed_arr, True, t, env)"
| "speed_loop env t speed (i # is) =
     (if speed \<noteq> name_arr ! i then speed_loop env t speed is
      else
        (let env = tcoflush env;
             t = cfsetispeed (speed_arr ! i) t;
             t = cfsetospeed (speed_arr ! i) t;
             (status, env) = tcsetattr env t in
         (i, status = 0, t, env)))"

text \<open>\<open>LOG_PRINT\<close> reads \<open>name_arr[i]\<close> before the check of \<open>i\<close>.\<close>

definition term_set_speed :: "os \<Rightarrow> term_t \<Rightarrow> int \<Rightarrow> (int \<times> term_t \<times> os) option" where
  "term_set_speed env info speed = do {
     t \<leftarrow> attrs info;
     let t = snd (tcgetattr env t);
     let (i, ok, t, env) = speed_loop env t speed [0..<length speed_arr];
     let info = info\<lparr>attrs := Some t\<rparr>;
     (if \<not> ok then Some (-1, info, env)
      else if i \<ge> length name_arr then None
      else if length speed_arr = i then Some (-1, info, env)
      else Some (0, info, tcoflush env))
   }"

text \<open>The label \<open>defalut\<close> is no \<open>default\<close>: an unknown number of data bits leaves the switch.\<close>

definition set_data_bit :: "int \<Rightarrow> termios \<Rightarrow> termios" where
  "set_data_bit data_bit t = (
     let t = t\<lparr>c_cflag := c_cflag t AND NOT CSIZE\<rparr> in
     if data_bit = 7 then t\<lparr>c_cflag := c_cflag t OR CS7\<rparr>
     else if data_bit = 8 then t\<lparr>c_cflag := c_cflag t OR CS8\<rparr>
     else t)"

definition set_stop_bit :: "int \<Rightarrow> termios \<Rightarrow> termios option" where
  "set_stop_bit stop_bit t =
     (if stop_bit = 1 then Some (t\<lparr>c_cflag := c_cflag t AND NOT CSTOPB\<rparr>)
      else if stop_bit = 2 then Some (t\<lparr>c_cflag := c_cflag t OR CSTOPB\<rparr>)
      else None)"

definition set_parity :: "char \<Rightarrow> termios \<Rightarrow> termios option" where
  "set_parity parity t =
     (if parity \<in> {CHR ''n'', CHR ''N''} then
        Some (t\<lparr>c_cflag := c_cflag t AND NOT PARENB, c_iflag := c_iflag t AND NOT INPCK\<rparr>)
      else if parity \<in> {CHR ''o'', CHR ''O''} then
        Some (t\<lparr>c_cflag := c_cflag t AND (PARODD OR PARENB), c_iflag := c_iflag t OR INPCK\<rparr>)
      else if parity \<in> {CHR ''e'', CHR ''E''} then
        Some (t\<lparr>c_cflag := (c_cflag t AND NOT PARODD) OR PARENB, c_iflag := c_iflag t OR INPCK\<rparr>)
      else None)"

definition set_raw :: "termios \<Rightarrow> termios" where
  "set_raw t = t\<lparr>c_iflag := c_iflag t AND NOT (IXON OR IXOFF OR IXANY),
     c_cflag := c_cflag t AND NOT (ICANON OR ECHO OR ECHOE OR ISIG OR CRTSCTS),
     c_oflag := c_oflag t AND NOT OPOST,
     c_cc := (c_cc t)[VTIME := 150, VMIN := 0]\<rparr>"

definition term_set_attr :: "os \<Rightarrow> term_t \<Rightarrow> int \<Rightarrow> int \<Rightarrow> char \<Rightarrow> (int \<times> term_t \<times> os) outcome option" where
  "term_set_attr env info data_bit stop_bit parity = do {
     t \<leftarrow> attrs info;
     let (r, t) = tcgetattr env t;
     (if r \<noteq> 0 then Some (Returns (-1, info\<lparr>attrs := Some t\<rparr>, env))
      else do {
        let t = set_data_bit data_bit t;
        (case set_stop_bit stop_bit t of
           None \<Rightarrow> Some (Exits 1)
         | Some t \<Rightarrow>
           (case set_parity parity t of
              None \<Rightarrow> Some (Returns (-1, info\<lparr>attrs := Some t\<rparr>, env))
            | Some t \<Rightarrow> do {
                let t = set_raw t;
                let info = info\<lparr>attrs := Some t\<rparr>;
                let env = tcoflush env;
                let (r, env) = tcsetattr env t;
                Some (Returns (if r \<noteq> 0 then -1 else 0, info, env))
              }))
      })
   }"

subsection \<open>Reading and writing\<close>

text \<open>One \<open>read\<close>; a signal is retried. A result of no bytes is a timeout.\<close>

fun term_read_dev :: "os \<Rightarrow> nat \<Rightarrow> rd_event list \<Rightarrow> int \<times> cuchar list \<times> os" where
  "term_read_dev env len [] = (0, [], env\<lparr>rds := []\<rparr>)"
| "term_read_dev env len (RdIntr # es) = term_read_dev env len es"
| "term_read_dev env len (RdFail # es) = (-1, [], env\<lparr>rds := es\<rparr>)"
| "term_read_dev env len (Got bs # es) =
     (if length bs \<le> len then (int (length bs), bs, env\<lparr>rds := es\<rparr>)
      else (int len, take len bs, env\<lparr>rds := Got (drop len bs) # es\<rparr>))"

text \<open>A write that does not take everything is given up: what is still queued is dropped.\<close>

fun term_write_dev :: "os \<Rightarrow> cuchar list \<Rightarrow> wr_event list \<Rightarrow> int \<times> os" where
  "term_write_dev env buf [] = (int (length buf), env\<lparr>wrs := [], outq := outq env @ buf\<rparr>)"
| "term_write_dev env buf (WrIntr # es) = term_write_dev env buf es"
| "term_write_dev env buf (WrFail # es) = (-1, env\<lparr>wrs := es\<rparr>)"
| "term_write_dev env buf (Room n # es) =
     (let n = min n (length buf); env = env\<lparr>wrs := es, outq := outq env @ take n buf\<rparr> in
      if n = length buf then (int n, env) else (-1, tcoflush env))"

lemma term_read_dev_len:
  "term_read_dev env len es = (r, bs, env') \<Longrightarrow> r = -1 \<and> bs = [] \<or> r = int (length bs) \<and> length bs \<le> len"
  by (induction env len es rule: term_read_dev.induct) (auto split: if_splits)

text \<open>Reading on until \<open>len\<close> bytes have come: the result and the bytes put into the buffer.\<close>

function term_read_nbytes :: "os \<Rightarrow> nat \<Rightarrow> int \<times> cuchar list \<times> os" where
  "term_read_nbytes env nleft =
     (if nleft > 0 then
        (case term_read_dev env nleft (rds env) of (cnt, bs, env) \<Rightarrow>
           if cnt < 0 then (cnt, [], env)
           else if cnt = 0 then (0, [], env)
           else (case term_read_nbytes env (nleft - nat cnt) of (r, cs, env) \<Rightarrow>
             (if r < 0 then r else cnt + r, bs @ cs, env)))
      else (0, [], env))"
  by pat_completeness auto
termination by (relation "measure snd") auto

declare term_read_nbytes.simps [simp del]

function term_write_nbytes :: "os \<Rightarrow> cuchar list \<Rightarrow> int \<times> os" where
  "term_write_nbytes env buf =
     (if length buf > 0 then
        (case term_write_dev env buf (wrs env) of (cnt, env) \<Rightarrow>
           if cnt < 0 then (-1, env)
           else if cnt = 0 then (0, env)
           else (case term_write_nbytes env (drop (nat cnt) buf) of (r, env) \<Rightarrow>
             (if r < 0 then -1 else cnt + r, env)))
      else (0, env))"
  by pat_completeness auto
termination by (relation "measure (\<lambda>(env, buf). length buf)") auto

declare term_write_nbytes.simps [simp del]

text \<open>
  Reading a line: \<open>tmp\<close> keeps its value over a timeout. The state of the loop is \<open>tmp\<close>, the buffer
  and \<open>count\<close>; a store behind the buffer is undefined.
\<close>

function read_line_loop :: "os \<Rightarrow> cuchar \<Rightarrow> cuchar list \<Rightarrow> nat \<Rightarrow> int \<Rightarrow> (int \<times> cuchar list \<times> os) option" where
  "read_line_loop env tmp buf cnt mx =
     (case term_read_dev env 1 (rds env) of (r, bs, env) \<Rightarrow>
        if r < 0 then Some (-1, buf, env)
        else if cnt < length buf then
          (let tmp = (case bs of [] \<Rightarrow> tmp | b # _ \<Rightarrow> b);
               buf = buf[cnt := tmp] in
           if tmp = 10 \<or> tmp = 13 then Some (0, buf, env)
           else if int (cnt + 1) \<noteq> mx then read_line_loop env tmp buf (cnt + 1) mx
           else Some (0, buf, env))
        else None)"
  by pat_completeness auto
termination by (relation "measure (\<lambda>(env, tmp, buf, cnt, mx). length buf - cnt)") auto

declare read_line_loop.simps [simp del]

definition term_read_line :: "os \<Rightarrow> cuchar list \<Rightarrow> int \<Rightarrow> (int \<times> cuchar list \<times> os) option" where
  "term_read_line env buf mx = read_line_loop env 0 buf 0 mx"

text \<open>\<open>malloc\<close> delivers memory with arbitrary contents or NULL.\<close>

definition term_init :: "termios option \<Rightarrow> term_t outcome" where
  "term_init mem = (case mem of None \<Rightarrow> Exits 1 | Some t \<Rightarrow> Returns \<lparr>fd_dev = -1, attrs = Some t\<rparr>)"

definition term_destroy :: "term_t \<Rightarrow> term_t" where
  "term_destroy info = info\<lparr>attrs := None\<rparr>"


subsection \<open>Reading a number of bytes\<close>

lemma term_read_dev_payload:
  assumes "term_read_dev env n es = (r, bs, env')" and "0 < n"
  shows "bs = [] \<Longrightarrow> payload es = []" and "bs \<noteq> [] \<Longrightarrow> r = int (length bs) \<and> length bs \<le> n \<and> payload es = bs @ payload (rds env')"
  using assms by (induction env n es rule: term_read_dev.induct) (auto split: if_splits)

lemma term_read_nbytes_0 [simp]: "term_read_nbytes env 0 = (0, [], env)"
  by (simp add: term_read_nbytes.simps)

lemma term_read_nbytes_stop:
  assumes "0 < n" and "term_read_dev env n (rds env) = (c, [], e)"
  shows "term_read_nbytes env n = (c, [], e)"
  using assms term_read_dev_len[OF assms(2)] by (subst term_read_nbytes.simps) auto

lemma term_read_nbytes_more:
  assumes "0 < n" and "term_read_dev env n (rds env) = (c, bs, e)" and "bs \<noteq> []"
    and "term_read_nbytes e (n - length bs) = (r, cs, e2)"
  shows "term_read_nbytes env n = (if r < 0 then r else int (length bs) + r, bs @ cs, e2)"
proof -
  have c: "c = int (length bs)" using term_read_dev_len[OF assms(2)] assms(3) by auto
  then have "\<not> c < 0" "c \<noteq> 0" "nat c = length bs" using assms(3) by auto
  then show ?thesis using assms c by (subst term_read_nbytes.simps) simp
qed

lemma term_read_nbytes_enough:
  assumes "n \<le> length (payload (rds env))"
  shows "\<exists>env'. term_read_nbytes env n = (int n, take n (payload (rds env)), env') \<and> payload (rds env') = drop n (payload (rds env))"
  using assms
proof (induction n arbitrary: env rule: less_induct)
  case (less n)
  show ?case
  proof (cases "n = 0")
    case False
    obtain c bs e where r: "term_read_dev env n (rds env) = (c, bs, e)" by (metis prod_cases3)
    have ne: "bs \<noteq> []" using term_read_dev_payload(1)[OF r] less.prems False by auto
    have p: "length bs \<le> n" "payload (rds env) = bs @ payload (rds e)" using term_read_dev_payload(2)[OF r _ ne] False by auto
    have "n - length bs < n" "n - length bs \<le> length (payload (rds e))" using False ne p less.prems by auto
    then obtain e2 where "term_read_nbytes e (n - length bs) = (int (n - length bs), take (n - length bs) (payload (rds e)), e2)"
        "payload (rds e2) = drop (n - length bs) (payload (rds e))"
      using less.IH by blast
    then show ?thesis using term_read_nbytes_more[OF _ r ne] False p by simp
  qed simp
qed

lemma term_read_nbytes_short:
  assumes "length (payload (rds env)) < n"
  shows "\<exists>r bs env'. term_read_nbytes env n = (r, bs, env') \<and> (r = -1 \<or> r = int (length bs)) \<and> bs = payload (rds env)"
  using assms
proof (induction n arbitrary: env rule: less_induct)
  case (less n)
  obtain c bs e where r: "term_read_dev env n (rds env) = (c, bs, e)" by (metis prod_cases3)
  show ?case
  proof (cases "bs = []")
    case True
    then show ?thesis using term_read_nbytes_stop[of n env c e] r less.prems term_read_dev_payload(1)[OF r] term_read_dev_len[OF r]
      by auto
  next
    case ne: False
    have p: "length bs \<le> n" "payload (rds env) = bs @ payload (rds e)" using term_read_dev_payload(2)[OF r _ ne] less.prems by auto
    have "n - length bs < n" "length (payload (rds e)) < n - length bs" using ne p less.prems by auto
    then obtain r2 cs e2 where "term_read_nbytes e (n - length bs) = (r2, cs, e2)" "r2 = -1 \<or> r2 = int (length cs)" "cs = payload (rds e)"
      using less.IH by blast
    then show ?thesis using term_read_nbytes_more[OF _ r ne] less.prems p by auto
  qed
qed

subsection \<open>Writing\<close>

lemma term_write_dev_all: "term_write_dev env buf es = (r, env') \<Longrightarrow> r = -1 \<or> r = int (length buf)"
  by (induction env buf es rule: term_write_dev.induct) (auto simp: Let_def split: if_splits)

text \<open>A short write is an error already in \<open>term_write_dev\<close>, so the loop has one turn.\<close>

lemma term_write_nbytes_once:
  "term_write_nbytes env buf = (if buf = [] then (0, env) else term_write_dev env buf (wrs env))"
proof (cases "buf = []")
  case True
  then show ?thesis by (simp add: term_write_nbytes.simps)
next
  case False
  obtain r e where r: "term_write_dev env buf (wrs env) = (r, e)" by fastforce
  have "term_write_nbytes e [] = (0, e)" by (simp add: term_write_nbytes.simps)
  then show ?thesis using False r term_write_dev_all[OF r] by (subst term_write_nbytes.simps) auto
qed


subsection \<open>Reading a line\<close>

lemma read_one:
  assumes "payload es = b # bs"
  shows "\<exists>env'. term_read_dev env 1 es = (1, [b], env') \<and> payload (rds env') = bs"
  using assms
proof (induction es)
  case (Cons e es)
  show ?case
  proof (cases e)
    case (Got cs)
    then obtain ds where "cs = b # ds" "bs = ds @ payload es" using Cons.prems by (cases cs) auto
    then show ?thesis using Got by auto
  qed (use Cons in auto)
qed simp

lemma read_line_step:
  assumes "payload (rds env) = b # bs" and "cnt < length buf"
  shows "\<exists>env'. payload (rds env') = bs \<and> read_line_loop env tmp buf cnt mx =
    (if b = 10 \<or> b = 13 \<or> int (cnt + 1) = mx then Some (0, buf[cnt := b], env')
     else read_line_loop env' b (buf[cnt := b]) (cnt + 1) mx)"
proof -
  obtain env' where "term_read_dev env 1 (rds env) = (1, [b], env')" "payload (rds env') = bs"
    using read_one[OF assms(1)] by blast
  then show ?thesis using assms(2) by (intro exI[of _ env']) (subst read_line_loop.simps, simp add: Let_def)
qed

lemma read_line_loop_line:
  assumes "payload (rds env) = line @ c # rest" and "\<forall>b \<in> set line. b \<noteq> 10 \<and> b \<noteq> 13" and "c = 10 \<or> c = 13"
    and "cnt + length line < length buf" and "int (cnt + length line) < mx"
  shows "\<exists>env'. read_line_loop env tmp buf cnt mx = Some (0, take cnt buf @ line @ [c] @ drop (cnt + length line + 1) buf, env')
    \<and> payload (rds env') = rest"
  using assms
proof (induction line arbitrary: env tmp buf cnt)
  case Nil
  then obtain env' where "payload (rds env') = rest" "read_line_loop env tmp buf cnt mx = Some (0, buf[cnt := c], env')"
    using read_line_step[of env c rest cnt buf tmp mx] by auto
  then show ?case using Nil.prems(4) by (auto simp: upd_conv_take_nth_drop)
next
  case (Cons b line)
  have pl: "payload (rds env) = b # (line @ c # rest)" "cnt < length buf" using Cons.prems by auto
  obtain e where e: "payload (rds e) = line @ c # rest"
      "read_line_loop env tmp buf cnt mx = read_line_loop e b (buf[cnt := b]) (cnt + 1) mx"
    using read_line_step[OF pl, of tmp mx] Cons.prems by auto
  obtain env' where "read_line_loop e b (buf[cnt := b]) (cnt + 1) mx
      = Some (0, take (cnt + 1) (buf[cnt := b]) @ line @ [c] @ drop (cnt + 1 + length line + 1) (buf[cnt := b]), env')"
      "payload (rds env') = rest"
    using Cons.IH[OF e(1), of "cnt + 1" "buf[cnt := b]" b] Cons.prems by auto
  moreover have "take (cnt + 1) (buf[cnt := b]) = take cnt buf @ [b]"
    using pl(2) by (simp add: take_Suc_conv_app_nth)
  ultimately show ?case using e(2) by (simp add: add.commute)
qed

text \<open>When nothing arrives any more, the last byte is stored again and again.\<close>

lemma read_line_silent:
  assumes "rds env = []" and "tmp \<noteq> 10" and "tmp \<noteq> 13" and "cnt \<le> length buf"
  shows "int cnt < mx \<Longrightarrow> mx \<le> int (length buf) \<Longrightarrow>
      \<exists>env'. read_line_loop env tmp buf cnt mx = Some (0, take cnt buf @ replicate (nat mx - cnt) tmp @ drop (nat mx) buf, env')"
    and "mx \<le> int cnt \<Longrightarrow> read_line_loop env tmp buf cnt mx = None"
proof -
  have step: "read_line_loop env tmp buf cnt mx = (if cnt < length buf then
      if int (cnt + 1) \<noteq> mx then read_line_loop env tmp (buf[cnt := tmp]) (cnt + 1) mx else Some (0, buf[cnt := tmp], env) else None)"
    if "rds env = []" for env :: os and cnt buf
  proof -
    have eq: "env\<lparr>rds := []\<rparr> = env" using that by (cases env) simp
    show ?thesis using that assms(2,3) by (subst read_line_loop.simps) (simp add: Let_def eq)
  qed
  show "\<exists>env'. read_line_loop env tmp buf cnt mx = Some (0, take cnt buf @ replicate (nat mx - cnt) tmp @ drop (nat mx) buf, env')"
    if "int cnt < mx" "mx \<le> int (length buf)"
    using that assms(4)
  proof (induction "nat mx - cnt" arbitrary: cnt buf)
    case (Suc k)
    have c: "cnt < length buf" using Suc.prems by linarith
    then have t: "take (Suc cnt) (buf[cnt := tmp]) = take cnt buf @ [tmp]" by (simp add: take_Suc_conv_app_nth)
    show ?case
    proof (cases "int (cnt + 1) = mx")
      case True
      then have "nat mx = Suc cnt" by linarith
      then show ?thesis using c True step[OF assms(1), where cnt = cnt and buf = buf] by (auto simp: upd_conv_take_nth_drop)
    next
      case False
      then have lt: "int (cnt + 1) < mx" using Suc.prems by simp
      have k: "k = nat mx - (cnt + 1)" using Suc.hyps(2) by simp
      obtain env' where "read_line_loop env tmp (buf[cnt := tmp]) (cnt + 1) mx
          = Some (0, take (cnt + 1) (buf[cnt := tmp]) @ replicate (nat mx - (cnt + 1)) tmp @ drop (nat mx) (buf[cnt := tmp]), env')"
        using Suc.hyps(1)[OF k, of "buf[cnt := tmp]"] lt Suc.prems c by auto
      moreover have "replicate (nat mx - cnt) tmp = tmp # replicate (nat mx - (cnt + 1)) tmp"
        using Suc.hyps(2) k by (metis replicate_Suc)
      moreover have "cnt < nat mx" using Suc.prems by linarith
      ultimately show ?thesis using step[OF assms(1), where cnt = cnt and buf = buf] c False t by simp
    qed
  qed simp
  show "read_line_loop env tmp buf cnt mx = None" if "mx \<le> int cnt"
    using that assms(4)
  proof (induction "length buf - cnt" arbitrary: cnt buf)
    case (Suc k)
    then have "read_line_loop env tmp (buf[cnt := tmp]) (cnt + 1) mx = None" by (simp add: Suc.hyps(1))
    then show ?case using step[OF assms(1), where cnt = cnt and buf = buf] Suc.prems by auto
  qed (use step[OF assms(1)] in simp)
qed

subsection \<open>Speed and attributes\<close>

lemma speed_loop_found:
  assumes "i < length speed_arr" and "set_ok env"
  shows "\<exists>t' env'. speed_loop env t (name_arr ! i) [0..<length speed_arr] = (i, True, t', env') \<and> tty env' = t'
    \<and> c_cflag t' AND CBAUD = speed_arr ! i \<and> c_cflag t' AND NOT CBAUD = c_cflag t AND NOT CBAUD
    \<and> get_ok env' = get_ok env \<and> set_ok env'"
proof -
  have up: "[0..<length speed_arr] = [0, 1, 2, 3, 4, 5, 6]" by (simp add: speed_arr_def upt_rec)
  have "i \<in> {0, 1, 2, 3, 4, 5, 6}" using assms(1) by (auto simp: speed_arr_def)
  then have b: "speed_arr ! i \<noteq> 0 \<and> speed_arr ! i AND CBAUD = speed_arr ! i \<and> speed_arr ! i AND NOT CBAUD = 0"
    by (elim insertE emptyE) (simp_all add: speed_arr_def CBAUD_def)
  let ?t = "cfsetospeed (speed_arr ! i) (cfsetispeed (speed_arr ! i) t)"
  have "speed_loop env t (name_arr ! i) [0..<length speed_arr]
      = (let (status, env) = tcsetattr (tcoflush env) ?t in (i, status = 0, ?t, env))"
    using \<open>i \<in> _\<close> by (elim insertE emptyE) (simp_all add: up name_arr_def Let_def)
  moreover have "c_cflag ?t = (c_cflag t AND NOT CBAUD) OR speed_arr ! i"
    using b by (simp add: cfsetospeed_def cfsetispeed_def bit.conj_disj_distrib2 and.assoc)
  ultimately show ?thesis
    using assms(2) b by (simp add: tcsetattr_def tcoflush_def bit.conj_disj_distrib2 and.assoc)
qed


lemma term_set_speed_ok:
  assumes "attrs info = Some t" and "get_ok env" and "set_ok env" and "i < length speed_arr"
  shows "\<exists>t' env'. term_set_speed env info (name_arr ! i) = Some (0, info\<lparr>attrs := Some t'\<rparr>, env') \<and> tty env' = t'
    \<and> c_cflag t' AND CBAUD = speed_arr ! i \<and> c_cflag t' AND NOT CBAUD = c_cflag (tty env) AND NOT CBAUD
    \<and> get_ok env' \<and> set_ok env'"
proof -
  obtain t' e where "speed_loop env (tty env) (name_arr ! i) [0..<length speed_arr] = (i, True, t', e)" "tty e = t'"
      "c_cflag t' AND CBAUD = speed_arr ! i" "c_cflag t' AND NOT CBAUD = c_cflag (tty env) AND NOT CBAUD"
      "get_ok e = get_ok env" "set_ok e"
    using speed_loop_found[OF assms(4,3)] by blast
  then show ?thesis using assms
    by (auto simp: term_set_speed_def tcgetattr_def tcoflush_def Let_def speed_arr_def name_arr_def)
qed

lemma speed_loop_unknown: "speed \<notin> set name_arr \<Longrightarrow> set is \<subseteq> {..<length name_arr} \<Longrightarrow>
    speed_loop env t speed is = (length speed_arr, True, t, env)"
  by (induction "is") auto

text \<open>An unknown speed reads behind \<open>name_arr\<close>.\<close>

lemma term_set_speed_unknown: "speed \<notin> set name_arr \<Longrightarrow> term_set_speed env info speed = None"
  using speed_loop_unknown[of speed "[0..<length speed_arr]"]
  by (cases "attrs info") (auto simp: term_set_speed_def Let_def name_arr_def speed_arr_def)

text \<open>
  The local flags \<open>ICANON\<close>, \<open>ECHO\<close>, \<open>ECHOE\<close> and \<open>ISIG\<close> are cleared in the control flags, where their bits
  belong to the speed and the number of data bits.
\<close>

lemma cflag_set_raw: "c_cflag (set_raw t) = c_cflag t AND NOT 0x8000001B"
  by (simp add: set_raw_def tty_flags)

lemma term_set_attr_cflag:
  assumes "attrs info = Some t0" and "get_ok env" and "set_ok env" and "set_stop_bit stop (set_data_bit bits (tty env)) = Some t1"
    and "set_parity parity t1 = Some t2"
  shows "\<exists>info' env'. term_set_attr env info bits stop parity = Some (Returns (0, info', env'))
    \<and> tty env' = set_raw t2 \<and> attrs info' = Some (set_raw t2)"
  using assms by (simp add: term_set_attr_def tcgetattr_def tcsetattr_def tcoflush_def Let_def)

lemma term_set_attr_8N1:
  assumes "attrs info = Some t0" and "get_ok env" and "set_ok env"
  shows "\<exists>info' env'. term_set_attr env info 8 1 CHR ''N'' = Some (Returns (0, info', env'))
    \<and> c_cflag (tty env') AND CSIZE = CS7 \<and> c_cflag (tty env') AND CBAUD = c_cflag (tty env) AND 0x1004
    \<and> c_cflag (tty env') AND CSTOPB = 0 \<and> c_cflag (tty env') AND PARENB = 0"
proof -
  let ?c = "((((c_cflag (tty env) AND NOT CSIZE) OR CS8) AND NOT CSTOPB) AND NOT PARENB) AND NOT 0x8000001B"
  let ?t1 = "(set_data_bit 8 (tty env))\<lparr>c_cflag := c_cflag (set_data_bit 8 (tty env)) AND NOT CSTOPB\<rparr>"
  let ?t2 = "?t1\<lparr>c_cflag := c_cflag ?t1 AND NOT PARENB, c_iflag := c_iflag ?t1 AND NOT INPCK\<rparr>"
  have "set_stop_bit 1 (set_data_bit 8 (tty env)) = Some ?t1" "set_parity CHR ''N'' ?t1 = Some ?t2"
    by (simp_all add: set_stop_bit_def set_parity_def)
  from term_set_attr_cflag[OF assms this] obtain info' env' where
    r: "term_set_attr env info 8 1 CHR ''N'' = Some (Returns (0, info', env'))" "tty env' = set_raw ?t2"
    by blast
  have c: "c_cflag (tty env') = ?c" unfolding r(2) cflag_set_raw by (simp add: set_data_bit_def Let_def)
  have "?c AND CSIZE = CS7" "?c AND CBAUD = c_cflag (tty env) AND 0x1004" "?c AND CSTOPB = 0" "?c AND PARENB = 0"
    by (simp_all add: tty_flags bit.conj_disj_distrib bit.conj_disj_distrib2 and.assoc)
  then show ?thesis using r(1) c by auto
qed

lemma term_set_attr_odd:
  assumes "attrs info = Some t0" and "get_ok env" and "set_ok env" and "bits = 7 \<or> bits = 8"
  shows "\<exists>info' env'. term_set_attr env info bits 1 CHR ''O'' = Some (Returns (0, info', env'))
    \<and> c_cflag (tty env') = c_cflag (tty env) AND (PARENB OR PARODD)"
proof -
  let ?t1 = "(set_data_bit bits (tty env))\<lparr>c_cflag := c_cflag (set_data_bit bits (tty env)) AND NOT CSTOPB\<rparr>"
  let ?t2 = "?t1\<lparr>c_cflag := c_cflag ?t1 AND (PARODD OR PARENB), c_iflag := c_iflag ?t1 OR INPCK\<rparr>"
  have "set_stop_bit 1 (set_data_bit bits (tty env)) = Some ?t1" "set_parity CHR ''O'' ?t1 = Some ?t2"
    by (simp_all add: set_stop_bit_def set_parity_def)
  from term_set_attr_cflag[OF assms(1-3) this] obtain info' env' where
    r: "term_set_attr env info bits 1 CHR ''O'' = Some (Returns (0, info', env'))" "tty env' = set_raw ?t2"
    by blast
  have "c_cflag (tty env') = c_cflag (tty env) AND (PARENB OR PARODD)" unfolding r(2) cflag_set_raw
    using assms(4) by (auto simp: set_data_bit_def Let_def tty_flags bit.conj_disj_distrib bit.conj_disj_distrib2 and.assoc)
  then show ?thesis using r(1) by blast
qed

end
