(* ===== verification/SelectServer.thy ===== *)
theory SelectServer
  imports Posix
begin

section \<open>The servers around select (06Socket/03Tcp_select, 03Tcp_select_enhanced, 04File_Server)\<close>

text \<open>
  Three versions of one program. \<open>cli_fds\<close> holds the descriptors of the clients, -1 for a free place, and
  \<open>ol_con\<close> their number. One round of \<open>main\<close> collects the descriptors, calls \<open>select\<close>, accepts a client and
  serves the ready ones. The versions differ in where a new client goes and in the handler of a request.

  \<open>opened\<close> is what the system knows of the descriptors; \<open>select\<close> fails when it is given a closed one.
  \<open>FD_SET\<close> and \<open>FD_ISSET\<close> are defined for descriptors from 0 to 1023 only, an index outside \<open>cli_fds\<close> is
  undefined: both are None. What happens in a round is an event. The first version uses \<open>MAX_CLI_NUM\<close> before
  it defines it; the model has the value of the definition.
\<close>

record srv =
  cli_fds :: "int list"
  ol_con :: int
  nfds :: int
  rd_set :: "int set"
  sbuf :: "cuchar list"
  n_handlers :: csize
  opened :: "int set"
  sent :: "(int \<times> cuchar list) list"

record event =
  sel_fail :: bool
  ready :: "int set"
  conn :: "int option"
  input :: "int \<Rightarrow> rd_event list"

definition BUF_SIZE :: nat where "BUF_SIZE = 4096"
definition FD_SETSIZE :: int where "FD_SETSIZE = 1024"

text \<open>\<open>FD_SET\<close> and \<open>FD_ISSET\<close>.\<close>

definition fd_add :: "int \<Rightarrow> int set \<Rightarrow> int set option" where
  "fd_add fd S = (if 0 \<le> fd \<and> fd < FD_SETSIZE then Some (insert fd S) else None)"

definition fd_isset :: "int \<Rightarrow> int set \<Rightarrow> bool option" where
  "fd_isset fd S = (if 0 \<le> fd \<and> fd < FD_SETSIZE then Some (fd \<in> S) else None)"

definition srv_close :: "int \<Rightarrow> srv \<Rightarrow> srv" where
  "srv_close fd s = s\<lparr>opened := opened s - {fd}\<rparr>"

definition srv_write :: "int \<Rightarrow> cuchar list \<Rightarrow> srv \<Rightarrow> srv" where
  "srv_write fd r s = s\<lparr>sent := sent s @ [(fd, r)]\<rparr>"

text \<open>The message for a client that finds no place, with its terminating zero, as \<open>snprintf\<close> cuts it.\<close>

definition warn_msg :: "int \<Rightarrow> int \<Rightarrow> cuchar list" where
  "warn_msg n m = take (BUF_SIZE - 2) (lit ''Warn, connect nums has over the limits: '' @ dec_int n @ lit '', max:('' @ dec_int m
     @ lit '')'' @ [10]) @ [0]"

subsection \<open>One round\<close>

text \<open>The descriptors to watch, and the greatest.\<close>

fun watch_loop :: "int list \<Rightarrow> int set \<Rightarrow> int \<Rightarrow> (int set \<times> int) option" where
  "watch_loop [] S n = Some (S, n)"
| "watch_loop (fd # fds) S n = do {
     S \<leftarrow> (if fd > 0 then fd_add fd S else Some S);
     watch_loop fds S (if fd > n then fd else n)
   }"

text \<open>\<open>select\<close>: an error, or the ready descriptors below the given bound.\<close>

definition select_call :: "srv \<Rightarrow> event \<Rightarrow> int set option" where
  "select_call s ev = (let W = {fd \<in> rd_set s. fd \<le> nfds s} in
     if sel_fail ev \<or> \<not> W \<subseteq> opened s then None else Some (W \<inter> ready ev))"

type_synonym add_op = "int \<Rightarrow> srv \<Rightarrow> srv option"
type_synonym handler = "event \<Rightarrow> int \<Rightarrow> srv \<Rightarrow> srv option"

text \<open>The flag says that the loop of \<open>main\<close> goes on.\<close>

definition accept_conn :: "add_op \<Rightarrow> nat \<Rightarrow> event \<Rightarrow> srv \<Rightarrow> (bool \<times> srv) option" where
  "accept_conn add MAXC ev s = (case conn ev of
     None \<Rightarrow> Some (False, s)
   | Some fd \<Rightarrow>
     (let s = s\<lparr>opened := insert fd (opened s)\<rparr> in
      if ol_con s = int MAXC then
        (let s = s\<lparr>sbuf := store (warn_msg (ol_con s) (int MAXC)) (sbuf s)\<rparr> in
         Some (True, srv_close fd (srv_write fd (warn_msg (ol_con s) (int MAXC)) s)))
      else do { s \<leftarrow> add fd s; Some (True, s) }))"

function serve_loop :: "handler \<Rightarrow> nat \<Rightarrow> event \<Rightarrow> nat \<Rightarrow> srv \<Rightarrow> srv option" where
  "serve_loop handle MAXC ev i s =
     (if int i < ol_con s then
        (if i < MAXC then do {
           b \<leftarrow> fd_isset (cli_fds s ! i) (rd_set s);
           s \<leftarrow> (if b then handle ev (cli_fds s ! i) s else Some s);
           serve_loop handle MAXC ev (i + 1) s
         } else None)
      else Some s)"
  by pat_completeness auto
termination by (relation "measure (\<lambda>(handle, MAXC, ev, i, s). MAXC - i)") auto

declare serve_loop.simps [simp del]

definition srv_round :: "add_op \<Rightarrow> handler \<Rightarrow> nat \<Rightarrow> int \<Rightarrow> event \<Rightarrow> srv \<Rightarrow> (bool \<times> srv) option" where
  "srv_round add handle MAXC sock ev s = do {
     S \<leftarrow> fd_add sock {};
     (S, n) \<leftarrow> watch_loop (cli_fds s) S (nfds s);
     let s = s\<lparr>rd_set := S, nfds := n\<rparr>;
     (case select_call s ev of
        None \<Rightarrow> Some (False, s)
      | Some R \<Rightarrow>
        (let s = s\<lparr>rd_set := R\<rparr> in
         if R = {} then Some (True, s)
         else do {
           (go, s) \<leftarrow> (if sock \<in> R then accept_conn add MAXC ev s else Some (True, s));
           (if go then do { s \<leftarrow> serve_loop handle MAXC ev 0 s; Some (True, s) } else Some (False, s))
         }))
   }"

definition srv_start :: "nat \<Rightarrow> int \<Rightarrow> srv" where
  "srv_start MAXC sock = \<lparr>cli_fds = replicate MAXC (-1), ol_con = 0, nfds = sock, rd_set = {}, sbuf = replicate BUF_SIZE 0,
     n_handlers = 0, opened = {sock}, sent = []\<rparr>"

subsection \<open>The first version\<close>

text \<open>Bytes are answered in upper case. The buffer keeps the answer and the terminating zero.\<close>

definition upper_reply :: "int \<Rightarrow> cuchar list \<Rightarrow> srv \<Rightarrow> srv" where
  "upper_reply fd bs s = srv_write fd ((map toupper bs)) (s\<lparr>sbuf := store (map toupper bs @ [0]) (sbuf s)\<rparr>)"

definition MAX_PLAIN :: nat where "MAX_PLAIN = 2"

definition plain_add :: add_op where
  "plain_add fd s = (if 0 \<le> ol_con s \<and> ol_con s < int (length (cli_fds s)) then
     Some (s\<lparr>cli_fds := (cli_fds s)[nat (ol_con s) := fd], ol_con := ol_con s + 1\<rparr>) else None)"

definition plain_handler :: handler where
  "plain_handler ev fd s = (case read_retry (input ev fd) (BUF_SIZE - 1) of
     None \<Rightarrow> Some (srv_close fd s)
   | Some bs \<Rightarrow>
     (if bs = [] then Some (srv_close fd (s\<lparr>ol_con := ol_con s - 1\<rparr>))
      else Some (upper_reply fd bs s)))"

definition plain_round :: "int \<Rightarrow> event \<Rightarrow> srv \<Rightarrow> (bool \<times> srv) option" where
  "plain_round = srv_round plain_add plain_handler MAX_PLAIN"

subsection \<open>The enhanced version\<close>

definition MAX_ENH :: nat where "MAX_ENH = 20"

text \<open>A new client takes the first free place; \<open>ol_con\<close> is incremented in any case.\<close>

fun first_free :: "int list \<Rightarrow> nat \<Rightarrow> nat option" where
  "first_free [] i = None"
| "first_free (fd # fds) i = (if fd < 0 then Some i else first_free fds (i + 1))"

definition enh_add :: add_op where
  "enh_add fd s =
     Some (s\<lparr>cli_fds := (case first_free (cli_fds s) 0 of None \<Rightarrow> cli_fds s | Some i \<Rightarrow> (cli_fds s)[i := fd]),
       ol_con := ol_con s + 1\<rparr>)"

text \<open>The loop that frees the place of a client goes up to and including \<open>ol_con\<close>.\<close>

fun clear_loop :: "int \<Rightarrow> nat list \<Rightarrow> int list \<Rightarrow> int list option" where
  "clear_loop fd [] fds = Some fds"
| "clear_loop fd (n # ns) fds =
     (if n < length fds then clear_loop fd ns (if fds ! n = fd then fds[n := -1] else fds) else None)"

definition enh_handler :: handler where
  "enh_handler ev fd s = (case read_retry (input ev fd) (BUF_SIZE - 1) of
     None \<Rightarrow> Some (srv_close fd s)
   | Some bs \<Rightarrow>
     (if bs = [] then do {
        fds \<leftarrow> clear_loop fd [0..<nat (ol_con s + 1)] (cli_fds s);
        Some (srv_close fd (s\<lparr>cli_fds := fds, ol_con := ol_con s - 1\<rparr>))
      } else Some (upper_reply fd bs s)))"

definition enh_round :: "int \<Rightarrow> event \<Rightarrow> srv \<Rightarrow> (bool \<times> srv) option" where
  "enh_round = srv_round enh_add enh_handler MAX_ENH"


subsection \<open>The file server\<close>

definition MAX_FILE :: nat where "MAX_FILE = 2000"

text \<open>\<open>strchr\<close>: the offset of the first match.\<close>

fun strchr_at :: "cuchar \<Rightarrow> cuchar list \<Rightarrow> nat \<Rightarrow> nat option" where
  "strchr_at c [] i = None"
| "strchr_at c (b # bs) i = (if b = c then Some i else strchr_at c bs (i + 1))"

text \<open>\<open>"GET /"\<close> and a blank in ASCII.\<close>

definition GET :: "cuchar list" where "GET = [71, 69, 84, 32, 47]"
definition BLANK :: cuchar where "BLANK = 32"

text \<open>The name is terminated inside the buffer.\<close>

definition get_filename :: "cuchar list \<Rightarrow> cuchar list option \<times> cuchar list" where
  "get_filename str = (case strstr_at GET (cstr str) 0 of
     None \<Rightarrow> (None, str)
   | Some i \<Rightarrow>
     (let k = i + length GET in
      case strchr_at BLANK (drop k (cstr str)) 0 of
        None \<Rightarrow> (None, str)
      | Some j \<Rightarrow> (Some (take j (drop k (cstr str))), str[k + j := 0])))"

text \<open>
  \<open>file_send2\<close>: open, map and write the file. An empty file cannot be mapped. \<open>wr\<close> says whether the
  write succeeds.
\<close>

type_synonym files = "cuchar list \<Rightarrow> cuchar list option"

definition file_send2 :: "files \<Rightarrow> (int \<Rightarrow> bool) \<Rightarrow> int \<Rightarrow> cuchar list \<Rightarrow> srv \<Rightarrow> int \<times> srv" where
  "file_send2 fs wr fd file s = (case fs file of
     None \<Rightarrow> (-1, s)
   | Some bs \<Rightarrow>
     (if bs = [] then (-1, s)
      else if wr fd then (0, srv_write fd bs s)
      else (-1, s)))"

text \<open>
  \<open>file_send\<close>, the version with a buffer, is not called. It sends the file in pieces of the size of the
  buffer and leaves the last piece in it.
\<close>

function send_pieces :: "int \<Rightarrow> cuchar list \<Rightarrow> srv \<Rightarrow> srv" where
  "send_pieces fd bs s =
     (if bs = [] then s
      else (let b = take BUF_SIZE bs in
        send_pieces fd (drop BUF_SIZE bs) (srv_write fd b (s\<lparr>sbuf := store b (sbuf s)\<rparr>))))"
  by pat_completeness auto
termination by (relation "measure (\<lambda>(fd, bs, s). length bs)") (auto simp: BUF_SIZE_def)

declare send_pieces.simps [simp del]

definition file_send :: "files \<Rightarrow> int \<Rightarrow> cuchar list \<Rightarrow> srv \<Rightarrow> int \<times> srv" where
  "file_send fs fd file s = (case fs file of
     None \<Rightarrow> (-1, s)
   | Some bs \<Rightarrow> (0, send_pieces fd bs (s\<lparr>sbuf := replicate BUF_SIZE 0\<rparr>)))"

definition server_close :: "int \<Rightarrow> srv \<Rightarrow> srv option" where
  "server_close fd s = do {
     fds \<leftarrow> clear_loop fd [0..<nat (ol_con s + 1)] (cli_fds s);
     let s = (if fds \<noteq> cli_fds s then s\<lparr>rd_set := rd_set s - {fd}\<rparr> else s);
     Some (srv_close fd (s\<lparr>cli_fds := fds, ol_con := ol_con s - 1\<rparr>))
   }"

text \<open>A name of 255 bytes or more is not terminated in \<open>file\<close>, and printing it is undefined.\<close>

definition file_handler :: "files \<Rightarrow> (int \<Rightarrow> bool) \<Rightarrow> handler" where
  "file_handler fs wr ev fd s = (case read_retry (input ev fd) (BUF_SIZE - 1) of
     None \<Rightarrow> do { s \<leftarrow> server_close fd s; Some (srv_close fd s) }
   | Some bs \<Rightarrow>
     (if bs = [] then server_close fd s
      else do {
        let s = s\<lparr>sbuf := store bs (sbuf s), n_handlers := n_handlers s + 1\<rparr>;
        let (p, buf) = get_filename (sbuf s);
        let s = s\<lparr>sbuf := buf\<rparr>;
        (case p of
           None \<Rightarrow> do { s \<leftarrow> server_close fd s; Some (srv_close fd s) }
         | Some file \<Rightarrow>
           (if length file \<ge> 255 then None
            else (let (r, s) = file_send2 fs wr fd file s in
              if r < 0 then server_close fd s else Some s)))
      }))"

definition file_round :: "files \<Rightarrow> (int \<Rightarrow> bool) \<Rightarrow> int \<Rightarrow> event \<Rightarrow> srv \<Rightarrow> (bool \<times> srv) option" where
  "file_round fs wr = srv_round enh_add (file_handler fs wr) MAX_FILE"


subsection \<open>The main programs\<close>

text \<open>
  The results of \<open>socket\<close>, \<open>setsockopt\<close>, \<open>bind\<close> and \<open>listen\<close>; the program ends at the first that
  fails. The loop runs over a list of events, until it breaks or the list ends; the flag tells which.
  The closing after the loop is left out.
\<close>

definition srv_listen :: "int \<Rightarrow> int \<Rightarrow> int \<Rightarrow> int \<Rightarrow> int outcome" where
  "srv_listen so opt bi li =
     (if so = -1 then Exits (-1) else if opt = -1 then Exits (-1) else if bi = -1 then Exits (-1)
      else if li = -1 then Exits (-1) else Returns so)"

fun srv_run :: "(event \<Rightarrow> srv \<Rightarrow> (bool \<times> srv) option) \<Rightarrow> event list \<Rightarrow> srv \<Rightarrow> (bool \<times> srv) option" where
  "srv_run step [] s = Some (True, s)"
| "srv_run step (ev # evs) s = do {
     (go, s) \<leftarrow> step ev s;
     (if go then srv_run step evs s else Some (False, s))
   }"

definition srv_main :: "(int \<Rightarrow> event \<Rightarrow> srv \<Rightarrow> (bool \<times> srv) option) \<Rightarrow> nat \<Rightarrow> int outcome \<Rightarrow> event list \<Rightarrow> (bool \<times> srv) outcome option" where
  "srv_main step MAXC l evs = (case l of
     Exits k \<Rightarrow> Some (Exits k)
   | Returns sock \<Rightarrow> do { r \<leftarrow> srv_run (step sock) evs (srv_start MAXC sock); Some (Returns r) })"

definition plain_main :: "int \<Rightarrow> int \<Rightarrow> int \<Rightarrow> int \<Rightarrow> event list \<Rightarrow> (bool \<times> srv) outcome option" where
  "plain_main so opt bi li = srv_main plain_round MAX_PLAIN (srv_listen so opt bi li)"

definition enh_main :: "int \<Rightarrow> int \<Rightarrow> int \<Rightarrow> int \<Rightarrow> event list \<Rightarrow> (bool \<times> srv) outcome option" where
  "enh_main so opt bi li = srv_main enh_round MAX_ENH (srv_listen so opt bi li)"

definition file_main :: "files \<Rightarrow> (int \<Rightarrow> bool) \<Rightarrow> int \<Rightarrow> int \<Rightarrow> int \<Rightarrow> int \<Rightarrow> event list \<Rightarrow> (bool \<times> srv) outcome option" where
  "file_main fs wr so opt bi li = srv_main (file_round fs wr) MAX_FILE (srv_listen so opt bi li)"

subsection \<open>Reachable states\<close>

text \<open>A run is a sequence of rounds that go on; \<open>ok\<close> restricts the events.\<close>

inductive srv_reach :: "(event \<Rightarrow> srv \<Rightarrow> (bool \<times> srv) option) \<Rightarrow> (event \<Rightarrow> srv \<Rightarrow> bool) \<Rightarrow> srv \<Rightarrow> srv \<Rightarrow> bool"
  for step ok s0 where
  start: "srv_reach step ok s0 s0"
| round: "srv_reach step ok s0 s \<Longrightarrow> ok ev s \<Longrightarrow> step ev s = Some (True, s') \<Longrightarrow> srv_reach step ok s0 s'"

text \<open>\<open>accept\<close> returns a descriptor that is not in use, above the standard input.\<close>

definition fresh_conn :: "event \<Rightarrow> srv \<Rightarrow> bool" where
  "fresh_conn ev s \<longleftrightarrow> (\<forall>fd. conn ev = Some fd \<longrightarrow> 0 < fd \<and> fd \<notin> opened s)"

abbreviation taken :: "int list \<Rightarrow> int list" where
  "taken fds \<equiv> filter (\<lambda>fd. fd \<noteq> -1) fds"

text \<open>
  The invariant: the array has its size, every place is free or holds a descriptor, no descriptor twice; the open
  descriptors are the listening one and those in the array; \<open>ol_con\<close> counts them; the buffer has its size and ends
  with a zero, so that it holds a string.
\<close>

definition buf_ok :: "cuchar list \<Rightarrow> bool" where
  "buf_ok b \<longleftrightarrow> length b = BUF_SIZE \<and> last b = 0"

definition srv_inv :: "int \<Rightarrow> nat \<Rightarrow> srv \<Rightarrow> bool" where
  "srv_inv sock MAXC s \<longleftrightarrow> length (cli_fds s) = MAXC \<and> (\<forall>fd \<in> set (cli_fds s). fd = -1 \<or> 0 < fd)
     \<and> opened s = insert sock (set (taken (cli_fds s))) \<and> sock \<notin> set (taken (cli_fds s)) \<and> distinct (taken (cli_fds s)) \<and> ol_con s = int (length (taken (cli_fds s))) \<and> buf_ok (sbuf s)"

lemma srv_inv_bound: "srv_inv sock MAXC s \<Longrightarrow> 0 \<le> ol_con s \<and> ol_con s \<le> int MAXC"
  using length_filter_le[of "\<lambda>fd. fd \<noteq> -1" "cli_fds s"] by (auto simp: srv_inv_def)

lemma srv_inv_opened: "srv_inv sock MAXC s \<Longrightarrow> opened s - {sock} = set (cli_fds s) - {-1}"
  by (auto simp: srv_inv_def)

lemma srv_start_inv: "srv_inv sock MAXC (srv_start MAXC sock)"
  by (simp add: srv_inv_def srv_start_def buf_ok_def BUF_SIZE_def)

lemma srv_inv_irrelevant [simp]:
  "srv_inv sock MAXC (s\<lparr>rd_set := S\<rparr>) = srv_inv sock MAXC s" "srv_inv sock MAXC (s\<lparr>nfds := n\<rparr>) = srv_inv sock MAXC s"
  "srv_inv sock MAXC (s\<lparr>n_handlers := k\<rparr>) = srv_inv sock MAXC s" "srv_inv sock MAXC (srv_write fd r s) = srv_inv sock MAXC s"
  by (simp_all add: srv_inv_def srv_write_def)

lemma srv_inv_buf: "srv_inv sock MAXC s \<Longrightarrow> buf_ok b \<Longrightarrow> srv_inv sock MAXC (s\<lparr>sbuf := b\<rparr>)"
  by (simp add: srv_inv_def)

lemma srv_close_closed: "fd \<notin> opened s \<Longrightarrow> srv_close fd s = s"
  by (simp add: srv_close_def)

lemma last_store: "buf \<noteq> [] \<Longrightarrow> length bs < length buf \<Longrightarrow> last (store bs buf) = last buf"
  by (simp add: store_def)

lemma buf_ok_store: "buf_ok buf \<Longrightarrow> length bs \<le> BUF_SIZE - 1 \<Longrightarrow> buf_ok (store bs buf)"
  by (auto simp: buf_ok_def BUF_SIZE_def intro: last_store[THEN trans])

lemma buf_ok_store0: "buf_ok buf \<Longrightarrow> length bs \<le> BUF_SIZE - 1 \<Longrightarrow> buf_ok (store (bs @ [0]) buf)"
  by (cases "length bs = BUF_SIZE - 1") (auto simp: buf_ok_def BUF_SIZE_def store_def)

text \<open>Freeing a place.\<close>

lemma clear_loop_nth:
  "clear_loop fd ns fds = Some fds' \<Longrightarrow> length fds' = length fds
    \<and> (\<forall>k<length fds. fds' ! k = (if k \<in> set ns \<and> fds ! k = fd then -1 else fds ! k))"
  by (induction fd ns fds rule: clear_loop.induct) (auto split: if_splits simp: nth_list_update)

lemma clear_loop_Some: "\<forall>n \<in> set ns. n < length fds \<Longrightarrow> \<exists>fds'. clear_loop fd ns fds = Some fds'"
  by (induction fd ns fds rule: clear_loop.induct) auto

lemma taken_nth_less:
  assumes "distinct (taken fds)" and "i < k" and "k < length fds" and "fds ! i \<noteq> -1"
  shows "fds ! k \<noteq> fds ! i"
proof
  assume e: "fds ! k = fds ! i"
  have i: "i < length fds" using assms(2,3) by simp
  have "taken fds = taken (take i fds @ fds ! i # drop (Suc i) fds)" by (rule arg_cong[OF id_take_nth_drop[OF i]])
  also have "\<dots> = taken (take i fds) @ fds ! i # taken (drop (Suc i) fds)" using assms(4) by simp
  finally have "taken fds = taken (take i fds) @ fds ! i # taken (drop (Suc i) fds)" .
  then have "fds ! i \<notin> set (drop (Suc i) fds)" using assms(1,4) by simp
  moreover have "drop (Suc i) fds ! (k - Suc i) = fds ! k" "k - Suc i < length (drop (Suc i) fds)"
    using assms(2,3) by simp_all
  ultimately show False using e nth_mem by metis
qed

lemma taken_distinct_nth:
  assumes "distinct (taken fds)" and "i < length fds" and "k < length fds" and "fds ! i = fds ! k" and "fds ! i \<noteq> -1"
  shows "i = k"
proof (rule ccontr)
  assume "i \<noteq> k"
  then consider "i < k" | "k < i" by linarith
  then show False using taken_nth_less[OF assms(1), of i k] taken_nth_less[OF assms(1), of k i] assms(2-5) by cases auto
qed

lemma clear_loop_one:
  assumes "clear_loop fd [0..<n] fds = Some fds'" and "distinct (taken fds)" and "i < length fds" and "i < n"
    and "fds ! i = fd" and "fd \<noteq> -1"
  shows "fds' = fds[i := -1]"
proof (rule nth_equalityI)
  show "length fds' = length (fds[i := -1])" using clear_loop_nth[OF assms(1)] by simp
  fix k
  assume "k < length fds'"
  then have k: "k < length fds" using clear_loop_nth[OF assms(1)] by simp
  have v: "fds' ! k = (if k < n \<and> fds ! k = fd then -1 else fds ! k)"
    using conjunct2[OF clear_loop_nth[OF assms(1)], rule_format, OF k] by simp
  show "fds' ! k = fds[i := -1] ! k"
  proof (cases "k = i")
    case True
    then show ?thesis using v assms(3,4,5) by simp
  next
    case False
    then have "fds ! k \<noteq> fd" using taken_distinct_nth[OF assms(2,3) k] assms(5,6) by metis
    then show ?thesis using v False by simp
  qed
qed

lemma taken_update:
  assumes "i < length fds"
  shows "fds ! i \<noteq> -1 \<Longrightarrow> \<exists>xs ys. taken fds = xs @ fds ! i # ys \<and> taken (fds[i := -1]) = xs @ ys"
    and "fds ! i = -1 \<Longrightarrow> fd \<noteq> -1 \<Longrightarrow> \<exists>xs ys. taken fds = xs @ ys \<and> taken (fds[i := fd]) = xs @ fd # ys"
proof -
  let ?xs = "taken (take i fds)" and ?ys = "taken (drop (Suc i) fds)"
  have "taken fds = taken (take i fds @ fds ! i # drop (Suc i) fds)" by (rule arg_cong[OF id_take_nth_drop[OF assms]])
  also have "\<dots> = ?xs @ taken (fds ! i # drop (Suc i) fds)" by (rule filter_append)
  finally have t: "taken fds = ?xs @ taken (fds ! i # drop (Suc i) fds)" .
  have u: "taken (fds[i := c]) = ?xs @ taken (c # drop (Suc i) fds)" for c
    unfolding upd_conv_take_nth_drop[OF assms] by simp
  show "\<exists>xs ys. taken fds = xs @ fds ! i # ys \<and> taken (fds[i := -1]) = xs @ ys" if "fds ! i \<noteq> -1"
    unfolding t u using that by (intro exI[of _ ?xs] exI[of _ ?ys]) simp
  show "\<exists>xs ys. taken fds = xs @ ys \<and> taken (fds[i := fd]) = xs @ fd # ys" if "fds ! i = -1" "fd \<noteq> -1"
    unfolding t u using that by (intro exI[of _ ?xs] exI[of _ ?ys]) simp
qed

lemma srv_inv_clear:
  assumes "srv_inv sock MAXC s" and "i < MAXC" and "cli_fds s ! i = fd" and "0 \<le> fd"
  shows "srv_inv sock MAXC (srv_close fd (s\<lparr>cli_fds := (cli_fds s)[i := -1], ol_con := ol_con s - 1\<rparr>))"
proof -
  have i: "i < length (cli_fds s)" "cli_fds s ! i \<noteq> -1" using assms by (auto simp: srv_inv_def)
  obtain xs ys where t: "taken (cli_fds s) = xs @ fd # ys" "taken ((cli_fds s)[i := -1]) = xs @ ys"
    using taken_update(1)[OF i] assms(3) by auto
  have d: "distinct (xs @ fd # ys)" using assms(1) t(1) by (simp add: srv_inv_def)
  have "\<forall>c \<in> set ((cli_fds s)[i := -1]). c = -1 \<or> 0 < c"
    using set_update_subset_insert[of "cli_fds s" i "-1"] assms(1) unfolding srv_inv_def by blast
  then show ?thesis using assms(1) t d by (auto simp: srv_inv_def srv_close_def simp del: set_filter)
qed


subsection \<open>The contract of a server\<close>

text \<open>
  What the loop needs: putting a new client into the array and handling a request of a client at a place
  below \<open>ol_con\<close> keep the invariant. \<open>good\<close> restricts what a client may send.
\<close>

locale select_server =
  fixes sock :: int and add :: add_op and handle :: handler and MAXC :: nat and good :: "rd_event list \<Rightarrow> bool"
  assumes add_keeps: "srv_inv sock MAXC s \<Longrightarrow> 0 < fd \<Longrightarrow> fd \<notin> opened s \<Longrightarrow> ol_con s \<noteq> int MAXC \<Longrightarrow>
      add fd (s\<lparr>opened := insert fd (opened s)\<rparr>) = Some s' \<Longrightarrow> srv_inv sock MAXC s'"
    and handle_keeps: "srv_inv sock MAXC s \<Longrightarrow> good (input ev fd) \<Longrightarrow> i < MAXC \<Longrightarrow> int i < ol_con s \<Longrightarrow> cli_fds s ! i = fd \<Longrightarrow> 0 \<le> fd \<Longrightarrow>
      handle ev fd s = Some s' \<Longrightarrow> srv_inv sock MAXC s'"
begin

definition admissible :: "event \<Rightarrow> srv \<Rightarrow> bool" where
  "admissible ev s \<longleftrightarrow> fresh_conn ev s \<and> (\<forall>fd. good (input ev fd))"

lemma serve_loop_keeps:
  assumes "srv_inv sock MAXC s" and "\<forall>fd. good (input ev fd)" and "serve_loop handle MAXC ev i s = Some s'"
  shows "srv_inv sock MAXC s'"
  using assms
proof (induction "MAXC - i" arbitrary: i s rule: less_induct)
  case less
  show ?case
  proof (cases "int i < ol_con s")
    case True
    then obtain b s1 where i: "i < MAXC" "fd_isset (cli_fds s ! i) (rd_set s) = Some b"
        "(if b then handle ev (cli_fds s ! i) s else Some s) = Some s1" "serve_loop handle MAXC ev (i + 1) s1 = Some s'"
      using less.prems(3) by (subst (asm) serve_loop.simps) (auto split: if_splits dest!: bind_eq_SomeD)
    have "srv_inv sock MAXC s1"
      using i(2,3) less.prems(1,2) handle_keeps[OF less.prems(1) _ i(1) True refl] by (cases b) (auto simp: fd_isset_def split: if_splits)
    then show ?thesis using less.hyps[of "i + 1" s1] i(1,4) less.prems(2) by auto
  next
    case False
    then show ?thesis using less.prems by (simp add: serve_loop.simps[of handle MAXC ev i s])
  qed
qed

lemma accept_conn_keeps:
  assumes "srv_inv sock MAXC s" and "fresh_conn ev s" and "accept_conn add MAXC ev s = Some (go, s')"
  shows "srv_inv sock MAXC s'"
proof (cases "conn ev")
  case (Some fd)
  let ?s = "s\<lparr>opened := insert fd (opened s)\<rparr>"
  have f: "0 < fd" "fd \<notin> opened s" using Some assms(2) by (auto simp: fresh_conn_def)
  show ?thesis
  proof (cases "ol_con s = int MAXC")
    case True
    let ?m = "warn_msg (ol_con s) (int MAXC)"
    have l: "length (take (BUF_SIZE - 2) x) \<le> BUF_SIZE - 1" for x :: "cuchar list" by (simp add: BUF_SIZE_def)
    have "buf_ok (sbuf s)" using assms(1) by (simp add: srv_inv_def)
    then have "buf_ok (store ?m (sbuf s))" unfolding warn_msg_def by (rule buf_ok_store0[OF _ l])
    then have "srv_inv sock MAXC (srv_write fd ?m (s\<lparr>sbuf := store ?m (sbuf s)\<rparr>))" using srv_inv_buf[OF assms(1)] by simp
    moreover have "insert fd (opened s) - {fd} = opened s" using f(2) by simp
    ultimately show ?thesis using True Some assms(3) by (auto simp: accept_conn_def Let_def srv_write_def srv_close_def)
  next
    case False
    then have "add fd ?s = Some s'" using Some assms(3) by (auto simp: accept_conn_def Let_def dest!: bind_eq_SomeD)
    then show ?thesis using add_keeps[OF assms(1) f False] by simp
  qed
qed (use assms in \<open>simp add: accept_conn_def\<close>)

lemma round_keeps:
  assumes "srv_inv sock MAXC s" and "admissible ev s" and "srv_round add handle MAXC sock ev s = Some (go, s')"
  shows "srv_inv sock MAXC s'"
proof -
  obtain S S' n where S: "fd_add sock {} = Some S" "watch_loop (cli_fds s) S (nfds s) = Some (S', n)"
    using assms(3) by (auto simp: srv_round_def dest!: bind_eq_SomeD)
  let ?s = "s\<lparr>rd_set := S', nfds := n\<rparr>"
  have inv: "srv_inv sock MAXC ?s" and fr: "\<And>R. fresh_conn ev (?s\<lparr>rd_set := R\<rparr>)" using assms(1,2) by (simp_all add: admissible_def fresh_conn_def)
  show ?thesis
  proof (cases "select_call ?s ev")
    case None
    then show ?thesis using assms(3) S inv by (simp add: srv_round_def)
  next
    case (Some R)
    let ?r = "?s\<lparr>rd_set := R\<rparr>"
    have invr: "srv_inv sock MAXC ?r" using inv by simp
    show ?thesis
    proof (cases "R = {}")
      case True
      then show ?thesis using assms(3) S invr Some by (simp add: srv_round_def Let_def)
    next
      case False
      then have eq: "do {
          (go, s) \<leftarrow> (if sock \<in> R then accept_conn add MAXC ev ?r else Some (True, ?r));
          (if go then do { s \<leftarrow> serve_loop handle MAXC ev 0 s; Some (True, s) } else Some (False, s))
        } = Some (go, s')"
        using assms(3) S Some by (cases "sock \<in> R") (simp_all add: srv_round_def Let_def)
      then obtain go1 s1 where s1: "(if sock \<in> R then accept_conn add MAXC ev ?r else Some (True, ?r)) = Some (go1, s1)"
          "(if go1 then do { s \<leftarrow> serve_loop handle MAXC ev 0 s1; Some (True, s) } else Some (False, s1)) = Some (go, s')"
        by (auto dest!: bind_eq_SomeD)
      have inv1: "srv_inv sock MAXC s1"
      proof (cases "sock \<in> R")
        case True
        then have "accept_conn add MAXC ev ?r = Some (go1, s1)" using s1(1) by simp
        then show ?thesis by (rule accept_conn_keeps[OF invr fr])
      qed (use s1(1) invr in simp)
      have g: "\<forall>fd. good (input ev fd)" using assms(2) by (simp add: admissible_def)
      show ?thesis
      proof (cases go1)
        case True
        then have "serve_loop handle MAXC ev 0 s1 = Some s'" using s1(2) by (auto dest!: bind_eq_SomeD)
        then show ?thesis by (rule serve_loop_keeps[OF inv1 g])
      qed (use s1(2) inv1 in simp)
    qed
  qed
qed

lemma reach_keeps: "srv_reach (srv_round add handle MAXC sock) admissible (srv_start MAXC sock) s \<Longrightarrow> srv_inv sock MAXC s"
  by (induction rule: srv_reach.induct) (auto intro: srv_start_inv round_keeps)

end

subsection \<open>The versions that keep it\<close>

lemma first_free_Some: "first_free fds k = Some i \<Longrightarrow> k \<le> i \<and> i - k < length fds \<and> fds ! (i - k) < 0"
  by (induction fds k rule: first_free.induct) (auto split: if_splits simp: nth_Cons')

lemma first_free_None: "first_free fds k = None \<Longrightarrow> \<forall>fd \<in> set fds. 0 \<le> fd"
  by (induction fds k rule: first_free.induct) (auto split: if_splits)

lemma enh_add_keeps:
  assumes inv: "srv_inv sock MAXC s" and fd: "0 < fd" "fd \<notin> opened s" and "ol_con s \<noteq> int MAXC"
    and "enh_add fd (s\<lparr>opened := insert fd (opened s)\<rparr>) = Some s'"
  shows "srv_inv sock MAXC s'"
proof (cases "first_free (cli_fds s) 0")
  case None
  then have "taken (cli_fds s) = cli_fds s" using first_free_None[OF None] by (intro filter_True) auto
  then show ?thesis using inv assms(4) by (simp add: srv_inv_def)
next
  case (Some i)
  have i: "i < length (cli_fds s)" "cli_fds s ! i = -1"
    using first_free_Some[OF Some] inv by (auto simp: srv_inv_def dest!: nth_mem)
  obtain xs ys where t: "taken (cli_fds s) = xs @ ys" "taken ((cli_fds s)[i := fd]) = xs @ fd # ys"
    using taken_update(2)[OF i, of fd] fd(1) by auto
  have "fd \<notin> insert sock (set (xs @ ys))" using inv fd(2) t(1) by (simp add: srv_inv_def del: set_filter)
  moreover have "distinct (xs @ ys)" using inv t(1) by (simp add: srv_inv_def)
  moreover have "\<forall>c \<in> set ((cli_fds s)[i := fd]). c = -1 \<or> 0 < c"
    using set_update_subset_insert[of "cli_fds s" i fd] inv fd(1) unfolding srv_inv_def by blast
  ultimately show ?thesis using inv assms(5) Some t by (auto simp: srv_inv_def enh_add_def simp del: set_filter)
qed

text \<open>A client of the enhanced server that only sends or leaves: no read fails.\<close>

definition no_fail :: "rd_event list \<Rightarrow> bool" where
  "no_fail es \<longleftrightarrow> RdFail \<notin> set es"

lemma no_fail_retry: "no_fail es \<Longrightarrow> read_retry es n \<noteq> None"
  by (induction es n rule: read_retry.induct) (auto simp: no_fail_def)

lemma enh_handler_keeps:
  assumes inv: "srv_inv sock MAXC s" and "no_fail (input ev fd)" and i: "i < MAXC" "int i < ol_con s" "cli_fds s ! i = fd" "0 \<le> fd"
    and "enh_handler ev fd s = Some s'"
  shows "srv_inv sock MAXC s'"
proof -
  obtain bs where bs: "read_retry (input ev fd) (BUF_SIZE - 1) = Some bs" using no_fail_retry[OF assms(2)] by blast
  show ?thesis
  proof (cases "bs = []")
    case True
    then obtain fds' where f: "clear_loop fd [0..<nat (ol_con s + 1)] (cli_fds s) = Some fds'"
        "s' = srv_close fd (s\<lparr>cli_fds := fds', ol_con := ol_con s - 1\<rparr>)"
      using assms(7) bs by (auto simp: enh_handler_def dest!: bind_eq_SomeD)
    have "fds' = (cli_fds s)[i := -1]"
      by (rule clear_loop_one[OF f(1)]) (use inv i in \<open>auto simp: srv_inv_def\<close>)
    then show ?thesis using srv_inv_clear[OF inv i(1,3,4)] f(2) by simp
  next
    case False
    have "length (map toupper bs) \<le> BUF_SIZE - 1" using read_retry_len[OF bs] by simp
    then have "buf_ok (store (map toupper bs @ [0]) (sbuf s))" using inv buf_ok_store0 by (simp only: srv_inv_def)
    then show ?thesis using False bs assms(7) srv_inv_buf[OF inv] by (auto simp: enh_handler_def upper_reply_def)
  qed
qed

interpretation enh: select_server sock enh_add enh_handler MAX_ENH no_fail
  for sock :: int
  by unfold_locales (rule enh_add_keeps enh_handler_keeps; assumption)+

lemma server_close_keeps:
  assumes inv: "srv_inv sock MAXC s" and i: "i < MAXC" "int i < ol_con s" "cli_fds s ! i = fd" "0 \<le> fd"
    and "server_close fd s = Some s'"
  shows "srv_inv sock MAXC s' \<and> fd \<notin> opened s'"
proof -
  obtain fds' where f: "clear_loop fd [0..<nat (ol_con s + 1)] (cli_fds s) = Some fds'"
    using assms(6) by (auto simp: server_close_def dest!: bind_eq_SomeD)
  let ?t = "if fds' \<noteq> cli_fds s then s\<lparr>rd_set := rd_set s - {fd}\<rparr> else s"
  have t: "s' = srv_close fd (?t\<lparr>cli_fds := fds', ol_con := ol_con s - 1\<rparr>)"
    using assms(6) f by (auto simp: server_close_def Let_def)
  have e: "fds' = (cli_fds s)[i := -1]"
    by (rule clear_loop_one[OF f]) (use inv i in \<open>auto simp: srv_inv_def\<close>)
  have "srv_inv sock MAXC ?t" using inv by simp
  from srv_inv_clear[OF this i(1), of fd] have "srv_inv sock MAXC s'" using i(3,4) t e by (simp split: if_splits)
  then show ?thesis using t by (simp add: srv_close_def)
qed

lemma update_buf_ok: "buf_ok b \<Longrightarrow> buf_ok (b[k := 0])"
  by (cases "b = []") (auto simp: buf_ok_def BUF_SIZE_def last_list_update)

lemma get_filename_buf: "get_filename buf = (p, buf') \<Longrightarrow> buf_ok buf \<Longrightarrow> buf_ok buf'"
  by (auto simp: get_filename_def Let_def update_buf_ok split: option.splits)

lemma file_send2_keeps: "file_send2 fs wr fd file s = (r, s') \<Longrightarrow> srv_inv sock MAXC s \<Longrightarrow> srv_inv sock MAXC s'
    \<and> cli_fds s' = cli_fds s \<and> ol_con s' = ol_con s"
  by (auto simp: file_send2_def srv_write_def srv_inv_def split: option.splits if_splits)

text \<open>The handler of the file server frees the place on every path that closes the connection.\<close>

lemma file_handler_keeps:
  assumes inv: "srv_inv sock MAXC s" and i: "i < MAXC" "int i < ol_con s" "cli_fds s ! i = fd" "0 \<le> fd"
    and h: "file_handler fs wr ev fd s = Some s'"
  shows "srv_inv sock MAXC s'"
proof -
  have closed: "srv_inv sock MAXC s2 \<and> srv_inv sock MAXC (srv_close fd s2)"
    if "server_close fd s1 = Some s2" "srv_inv sock MAXC s1" "cli_fds s1 = cli_fds s" "ol_con s1 = ol_con s" for s1 s2
    using server_close_keeps[OF that(2) i(1) _ _ i(4) that(1)] srv_close_closed[of fd s2] i that by simp
  show ?thesis
  proof (cases "read_retry (input ev fd) (BUF_SIZE - 1)")
    case None
    then show ?thesis using h closed inv by (auto simp: file_handler_def dest!: bind_eq_SomeD)
  next
    case (Some bs)
    show ?thesis
    proof (cases "bs = []")
      case True
      then show ?thesis using h closed inv Some by (auto simp: file_handler_def)
    next
      case False
      obtain p buf where gf: "get_filename (store bs (sbuf s)) = (p, buf)" by fastforce
      let ?s = "s\<lparr>n_handlers := n_handlers s + 1, sbuf := buf\<rparr>"
      have "buf_ok (sbuf s)" using inv by (simp add: srv_inv_def)
      then have "buf_ok buf" using get_filename_buf[OF gf] buf_ok_store read_retry_len[OF Some] by blast
      then have invs: "srv_inv sock MAXC ?s" using srv_inv_buf[of sock MAXC "s\<lparr>n_handlers := n_handlers s + 1\<rparr>" buf] inv by simp
      show ?thesis
      proof (cases p)
        case None
        then show ?thesis using h closed[of ?s] invs Some False gf
          by (auto simp: file_handler_def Let_def dest!: bind_eq_SomeD)
      next
        case p: (Some nm)
        obtain r s2 where r: "file_send2 fs wr fd nm ?s = (r, s2)" by fastforce
        have "(if r < 0 then server_close fd s2 else Some s2) = Some s'"
          using h Some False gf p r by (simp add: file_handler_def Let_def split: if_splits)
        then show ?thesis using file_send2_keeps[OF r invs] closed[of s2] by (auto split: if_splits)
      qed
    qed
  qed
qed

interpretation filesrv: select_server sock enh_add "file_handler fs wr" MAX_FILE "\<lambda>_. True"
  for sock :: int and fs :: files and wr :: "int \<Rightarrow> bool"
  by unfold_locales (rule enh_add_keeps file_handler_keeps; assumption)+

subsection \<open>Rounds that serve\<close>

text \<open>The clients fill the first places.\<close>

definition in_front :: "srv \<Rightarrow> int list \<Rightarrow> bool" where
  "in_front s cs \<longleftrightarrow> (\<exists>k. cli_fds s = cs @ replicate k (-1)) \<and> ol_con s = int (length cs)
     \<and> (\<forall>fd \<in> set cs. 0 < fd \<and> fd < FD_SETSIZE)"

definition sends :: "event \<Rightarrow> int \<Rightarrow> cuchar list \<Rightarrow> bool" where
  "sends ev fd bs \<longleftrightarrow> bs \<noteq> [] \<and> read_retry (input ev fd) (BUF_SIZE - 1) = Some bs"

text \<open>A server that answers in upper case: what the two versions share.\<close>

definition answers :: "handler \<Rightarrow> bool" where
  "answers handle \<longleftrightarrow> (\<forall>ev fd s bs. sends ev fd bs \<longrightarrow> handle ev fd s = Some (upper_reply fd bs s))"

lemma plain_answers: "answers plain_handler"
  by (simp add: answers_def sends_def plain_handler_def)

lemma enh_answers: "answers enh_handler"
  by (simp add: answers_def sends_def enh_handler_def)

lemma serve_loop_answers:
  assumes "answers handle" and "in_front s cs" and "length cs \<le> MAXC" and "i \<le> length cs"
    and "\<forall>fd \<in> set cs \<inter> rd_set s. sends ev fd (f fd)"
  shows "\<exists>buf. serve_loop handle MAXC ev i s = Some (s\<lparr>sbuf := buf, sent := sent s @
    map (\<lambda>fd. (fd, (map toupper (f fd)))) (filter (\<lambda>fd. fd \<in> rd_set s) (drop i cs))\<rparr>)"
  using assms
proof (induction "length cs - i" arbitrary: i s)
  case 0
  then have "serve_loop handle MAXC ev i s = Some s" by (simp add: serve_loop.simps[of handle MAXC ev i s] in_front_def)
  then show ?case using 0 by (intro exI[of _ "sbuf s"]) simp
next
  case (Suc n)
  then have i: "i < length cs" by simp
  obtain k where k: "cli_fds s = cs @ replicate k (-1)" using Suc.prems(2) by (auto simp: in_front_def)
  let ?fd = "cs ! i"
  have "0 < ?fd" "?fd < FD_SETSIZE" using Suc.prems(2) nth_mem[OF i] unfolding in_front_def by blast+
  then have fd: "cli_fds s ! i = ?fd" "?fd \<in> set cs" "fd_isset ?fd (rd_set s) = Some (?fd \<in> rd_set s)"
    using i k by (auto simp: fd_isset_def nth_append)
  let ?s = "if ?fd \<in> rd_set s then upper_reply ?fd (f ?fd) s else s"
  have "int i < ol_con s" using Suc.prems(2) i by (simp add: in_front_def)
  moreover have "handle ev ?fd s = Some (upper_reply ?fd (f ?fd) s)" if "?fd \<in> rd_set s"
    using Suc.prems(1,5) fd(2) that unfolding answers_def by blast
  ultimately have step: "serve_loop handle MAXC ev i s = serve_loop handle MAXC ev (i + 1) ?s"
    using fd i Suc.prems(3) by (subst serve_loop.simps) simp
  have nn: "n = length cs - (i + 1)" using Suc.hyps(2) by simp
  have "in_front ?s cs" "rd_set ?s = rd_set s" using Suc.prems(2) by (simp_all add: in_front_def upper_reply_def srv_write_def)
  then obtain buf where "serve_loop handle MAXC ev (i + 1) ?s = Some (?s\<lparr>sbuf := buf, sent := sent ?s @
      map (\<lambda>fd. (fd, (map toupper (f fd)))) (filter (\<lambda>fd. fd \<in> rd_set s) (drop (i + 1) cs))\<rparr>)"
    using Suc.hyps(1)[of "i + 1" ?s] nn Suc.prems(1,3,5) i by auto
  moreover have "drop i cs = ?fd # drop (i + 1) cs" using i by (simp add: Cons_nth_drop_Suc)
  ultimately show ?case using step by (intro exI[of _ buf]) (simp add: upper_reply_def srv_write_def)
qed

lemma watch_loop_front:
  assumes "\<forall>fd \<in> set cs. 0 < fd \<and> fd < FD_SETSIZE"
  shows "\<exists>n'. watch_loop (cs @ replicate k (-1)) S n = Some (S \<union> set cs, n') \<and> n \<le> n' \<and> (\<forall>fd \<in> set cs. fd \<le> n')"
  using assms
proof (induction cs arbitrary: S n)
  case Nil
  have "\<exists>n'. watch_loop (replicate k (-1)) S n = Some (S, n') \<and> n \<le> n'"
    by (induction k arbitrary: n) force+
  then show ?case by simp
next
  case (Cons fd cs)
  obtain n' where "watch_loop (cs @ replicate k (-1)) (insert fd S) (if fd > n then fd else n) = Some (insert fd S \<union> set cs, n')"
      "(if fd > n then fd else n) \<le> n'" "\<forall>fd \<in> set cs. fd \<le> n'"
    using Cons.IH[of "insert fd S" "if fd > n then fd else n"] Cons.prems by auto
  then show ?case using Cons.prems by (intro exI[of _ n']) (auto simp: fd_add_def split: if_splits)
qed


text \<open>What the loop sees: every client below the bound, all open.\<close>

definition sound :: "int \<Rightarrow> srv \<Rightarrow> int list \<Rightarrow> bool" where
  "sound sock s cs \<longleftrightarrow> in_front s cs \<and> set cs \<subseteq> opened s \<and> sock \<in> opened s \<and> sock \<notin> set cs \<and> 0 \<le> sock
     \<and> sock < FD_SETSIZE \<and> sock \<le> nfds s"

lemma srv_round_front:
  assumes "sound sock s cs" and "\<not> sel_fail ev" and "R = (insert sock (set cs)) \<inter> ready ev"
  shows "\<exists>n. sock \<le> n \<and> srv_round add handle MAXC sock ev s = (let s = s\<lparr>nfds := n, rd_set := R\<rparr> in
     if R = {} then Some (True, s)
     else do {
       (go, s) \<leftarrow> (if sock \<in> R then accept_conn add MAXC ev s else Some (True, s));
       (if go then do { s \<leftarrow> serve_loop handle MAXC ev 0 s; Some (True, s) } else Some (False, s))
     })"
proof -
  obtain k where k: "cli_fds s = cs @ replicate k (-1)" using assms(1) by (auto simp: sound_def in_front_def)
  obtain n where n: "watch_loop (cli_fds s) {sock} (nfds s) = Some ({sock} \<union> set cs, n)" "nfds s \<le> n" "\<forall>fd \<in> set cs. fd \<le> n"
    using watch_loop_front[of cs k "{sock}" "nfds s"] assms(1) unfolding k by (auto simp: sound_def in_front_def)
  have "sock \<le> n" using n(2) assms(1) by (auto simp: sound_def)
  then have "{fd \<in> insert sock (set cs). fd \<le> n} = insert sock (set cs)" using n(3) by auto
  then have "select_call (s\<lparr>rd_set := insert sock (set cs), nfds := n\<rparr>) ev = Some R"
    using assms by (auto simp: select_call_def Let_def sound_def)
  moreover have "fd_add sock {} = Some {sock}" using assms(1) by (simp add: fd_add_def sound_def)
  ultimately show ?thesis using n(1) \<open>sock \<le> n\<close> by (intro exI[of _ n]) (simp add: srv_round_def Let_def)
qed

text \<open>A round without new clients: every ready client gets its bytes back in upper case, in the order of the array.\<close>

lemma round_answers:
  assumes "answers handle" and "sound sock s cs" and "length cs \<le> MAXC" and "\<not> sel_fail ev" and "sock \<notin> ready ev"
    and "\<forall>fd \<in> set cs \<inter> ready ev. sends ev fd (f fd)"
  shows "\<exists>s'. srv_round add handle MAXC sock ev s = Some (True, s') \<and> sound sock s' cs
    \<and> sent s' = sent s @ map (\<lambda>fd. (fd, (map toupper (f fd)))) (filter (\<lambda>fd. fd \<in> ready ev) cs)"
proof -
  let ?R = "insert sock (set cs) \<inter> ready ev"
  obtain n where n: "sock \<le> n" "srv_round add handle MAXC sock ev s = (let s = s\<lparr>nfds := n, rd_set := ?R\<rparr> in
     if ?R = {} then Some (True, s)
     else do {
       (go, s) \<leftarrow> (if sock \<in> ?R then accept_conn add MAXC ev s else Some (True, s));
       (if go then do { s \<leftarrow> serve_loop handle MAXC ev 0 s; Some (True, s) } else Some (False, s))
     })"
    using srv_round_front[OF assms(2,4) refl] by blast
  let ?s = "s\<lparr>nfds := n, rd_set := ?R\<rparr>"
  have fr: "in_front ?s cs" using assms(2) by (simp add: sound_def in_front_def)
  have fl: "filter (\<lambda>fd. fd \<in> ?R) cs = filter (\<lambda>fd. fd \<in> ready ev) cs" by (rule filter_cong) auto
  show ?thesis
  proof (cases "?R = {}")
    case True
    then have "filter (\<lambda>fd. fd \<in> ready ev) cs = []" using assms(5) by (auto simp: filter_empty_conv)
    then show ?thesis using n True assms(2) by (intro exI[of _ ?s]) (simp add: sound_def in_front_def Let_def)
  next
    case False
    obtain buf where "serve_loop handle MAXC ev 0 ?s = Some (?s\<lparr>sbuf := buf, sent := sent ?s @
        map (\<lambda>fd. (fd, (map toupper (f fd)))) (filter (\<lambda>fd. fd \<in> rd_set ?s) (drop 0 cs))\<rparr>)"
      using serve_loop_answers[OF assms(1) fr assms(3), of 0 ev f] assms(5,6) by auto
    then show ?thesis using n False assms(2,5) fl by (auto simp: sound_def in_front_def Let_def)
  qed
qed


text \<open>A new client goes behind the others; when all places are taken it gets the warning and is closed.\<close>

definition appends :: "add_op \<Rightarrow> bool" where
  "appends add \<longleftrightarrow> (\<forall>s cs fd. in_front s cs \<longrightarrow> length cs < length (cli_fds s) \<longrightarrow>
     (\<exists>k. add fd s = Some (s\<lparr>cli_fds := (cs @ [fd]) @ replicate k (-1), ol_con := int (length (cs @ [fd]))\<rparr>)))"

lemma plain_appends: "appends plain_add"
proof (unfold appends_def, intro allI impI)
  fix s cs fd
  assume a: "in_front s cs" "length cs < length (cli_fds s)"
  then obtain k where k: "cli_fds s = cs @ replicate k (-1)" by (auto simp: in_front_def)
  then obtain j where j: "k = Suc j" using a(2) by (cases k) auto
  show "\<exists>k. plain_add fd s = Some (s\<lparr>cli_fds := (cs @ [fd]) @ replicate k (-1), ol_con := int (length (cs @ [fd]))\<rparr>)"
    using a k j by (intro exI[of _ j]) (simp add: plain_add_def in_front_def list_update_append)
qed

lemma first_free_front: "\<forall>fd \<in> set cs. 0 < fd \<Longrightarrow> first_free (cs @ -1 # fds) i = Some (i + length cs)"
  by (induction cs arbitrary: i) auto

lemma enh_appends: "appends enh_add"
proof (unfold appends_def, intro allI impI)
  fix s cs fd
  assume a: "in_front s cs" "length cs < length (cli_fds s)"
  then obtain k where k: "cli_fds s = cs @ replicate k (-1)" by (auto simp: in_front_def)
  then obtain j where j: "k = Suc j" using a(2) by (cases k) auto
  have "first_free (cli_fds s) 0 = Some (length cs)"
    using first_free_front[of cs "replicate j (-1)" 0] a(1) k j by (auto simp: in_front_def)
  then show "\<exists>k. enh_add fd s = Some (s\<lparr>cli_fds := (cs @ [fd]) @ replicate k (-1), ol_con := int (length (cs @ [fd]))\<rparr>)"
    using a k j by (intro exI[of _ j]) (simp add: enh_add_def in_front_def list_update_append)
qed

lemma round_accepts:
  assumes "answers handle" and "appends add" and "sound sock s cs" and "length (cli_fds s) = MAXC" and "\<not> sel_fail ev"
    and "sock \<in> ready ev" and "conn ev = Some fd" and "fresh_conn ev s" and "fd < FD_SETSIZE"
    and "\<forall>fd \<in> set cs \<inter> ready ev. sends ev fd (f fd)"
  shows "\<exists>s'. srv_round add handle MAXC sock ev s = Some (True, s')
    \<and> sound sock s' (if length cs < MAXC then cs @ [fd] else cs)
    \<and> sent s' = sent s @ (if length cs < MAXC then [] else [(fd, warn_msg (int MAXC) (int MAXC))])
      @ map (\<lambda>fd. (fd, (map toupper (f fd)))) (filter (\<lambda>fd. fd \<in> ready ev) cs)"
proof -
  let ?R = "insert sock (set cs) \<inter> ready ev"
  obtain n where n: "sock \<le> n" "srv_round add handle MAXC sock ev s = (let s = s\<lparr>nfds := n, rd_set := ?R\<rparr> in
     if ?R = {} then Some (True, s)
     else do {
       (go, s) \<leftarrow> (if sock \<in> ?R then accept_conn add MAXC ev s else Some (True, s));
       (if go then do { s \<leftarrow> serve_loop handle MAXC ev 0 s; Some (True, s) } else Some (False, s))
     })"
    using srv_round_front[OF assms(3,5) refl] by blast
  let ?s = "s\<lparr>nfds := n, rd_set := ?R\<rparr>"
  have fd: "0 < fd" "fd \<notin> opened s" using assms(7,8) by (auto simp: fresh_conn_def)
  then have nin: "fd \<notin> set cs" "fd \<noteq> sock" using assms(3) by (auto simp: sound_def)
  have len: "length cs \<le> MAXC" using assms(3,4) by (auto simp: sound_def in_front_def)
  have fl: "filter (\<lambda>c. c \<in> ?R) cs = filter (\<lambda>c. c \<in> ready ev) cs" by (rule filter_cong) auto
  let ?cs = "if length cs < MAXC then cs @ [fd] else cs"
  obtain s1 where s1: "accept_conn add MAXC ev ?s = Some (True, s1)" "sound sock s1 ?cs" "rd_set s1 = ?R"
      "sent s1 = sent s @ (if length cs < MAXC then [] else [(fd, warn_msg (int MAXC) (int MAXC))])"
  proof (cases "length cs < MAXC")
    case True
    let ?o = "?s\<lparr>opened := insert fd (opened s)\<rparr>"
    have "in_front ?o cs" using assms(3) by (simp add: sound_def in_front_def)
    moreover have "length cs < length (cli_fds ?o)" using True assms(4) by simp
    ultimately obtain k where k: "add fd ?o = Some (?o\<lparr>cli_fds := (cs @ [fd]) @ replicate k (-1), ol_con := int (length (cs @ [fd]))\<rparr>)"
      using assms(2) unfolding appends_def by blast
    show thesis
      using that[of "?o\<lparr>cli_fds := (cs @ [fd]) @ replicate k (-1), ol_con := int (length (cs @ [fd]))\<rparr>"]
        k True assms(3,7,9) fd nin n(1) by (auto simp: accept_conn_def Let_def sound_def in_front_def)
  next
    case False
    then have "ol_con s = int MAXC" using len assms(3) by (simp add: sound_def in_front_def)
    then show thesis
      using that[of "srv_close fd (srv_write fd (warn_msg (int MAXC) (int MAXC))
          (?s\<lparr>opened := insert fd (opened s), sbuf := store (warn_msg (int MAXC) (int MAXC)) (sbuf s)\<rparr>))"]
        False assms(3,7) fd nin n(1) by (auto simp: accept_conn_def Let_def sound_def in_front_def srv_close_def srv_write_def)
  qed
  have "in_front s1 ?cs" "length ?cs \<le> MAXC" "\<forall>c \<in> set ?cs \<inter> rd_set s1. sends ev c (f c)"
    using s1(2,3) len assms(10) nin by (auto simp: sound_def)
  from serve_loop_answers[OF assms(1) this(1,2) _ this(3), of 0] obtain buf where
    b: "serve_loop handle MAXC ev 0 s1 = Some (s1\<lparr>sbuf := buf, sent := sent s1 @
        map (\<lambda>fd. (fd, (map toupper (f fd)))) (filter (\<lambda>c. c \<in> ?R) ?cs)\<rparr>)"
    using s1(3) by auto
  have fc: "filter (\<lambda>c. c \<in> ?R) ?cs = filter (\<lambda>c. c \<in> ready ev) cs" using fl nin by simp
  have r: "sock \<in> ?R" "?R \<noteq> {}" using assms(6) by auto
  let ?s2 = "s1\<lparr>sbuf := buf, sent := sent s1 @ map (\<lambda>fd. (fd, (map toupper (f fd)))) (filter (\<lambda>c. c \<in> ?R) ?cs)\<rparr>"
  have "srv_round add handle MAXC sock ev s = Some (True, ?s2)"
    unfolding n(2) Let_def using r s1(1) b by (simp only: if_False if_True Option.bind.bind_lunit prod.case)
  moreover have "sound sock ?s2 ?cs" using s1(2) by (simp add: sound_def in_front_def)
  moreover have "sent ?s2 = sent s @ (if length cs < MAXC then [] else [(fd, warn_msg (int MAXC) (int MAXC))])
      @ map (\<lambda>fd. (fd, (map toupper (f fd)))) (filter (\<lambda>fd. fd \<in> ready ev) cs)"
    unfolding fc using s1(4) by simp
  ultimately show ?thesis by blast
qed

subsection \<open>Clients that leave\<close>

definition leaves :: "event \<Rightarrow> int \<Rightarrow> bool" where
  "leaves ev fd \<longleftrightarrow> read_retry (input ev fd) (BUF_SIZE - 1) = Some []"

text \<open>One ready client: the round is its handler.\<close>

lemma round_single:
  assumes "sound sock s (fd # cs)" and "Suc (length cs) \<le> MAXC" and "\<not> sel_fail ev" and "insert sock (set (fd # cs)) \<inter> ready ev = {fd}"
    and "\<And>n. handle ev fd (s\<lparr>nfds := n, rd_set := {fd}\<rparr>) = h n"
  shows "\<exists>n. sock \<le> n \<and> srv_round add handle MAXC sock ev s = do { s \<leftarrow> h n; s \<leftarrow> serve_loop handle MAXC ev 1 s; Some (True, s) }"
proof -
  obtain n where n: "sock \<le> n" "srv_round add handle MAXC sock ev s = (let s = s\<lparr>nfds := n, rd_set := {fd}\<rparr> in
     if {fd} = {} then Some (True, s)
     else do {
       (go, s) \<leftarrow> (if sock \<in> {fd} then accept_conn add MAXC ev s else Some (True, s));
       (if go then do { s \<leftarrow> serve_loop handle MAXC ev 0 s; Some (True, s) } else Some (False, s))
     })"
    using srv_round_front[OF assms(1,3) assms(4)[symmetric]] by blast
  let ?s = "s\<lparr>nfds := n, rd_set := {fd}\<rparr>"
  have f: "0 < fd" "fd < FD_SETSIZE" "sock \<noteq> fd" "cli_fds ?s ! 0 = fd" "0 < ol_con ?s" using assms(1) by (auto simp: sound_def in_front_def)
  have "serve_loop handle MAXC ev 0 ?s = h n \<bind> serve_loop handle MAXC ev 1"
    using f assms(2,5) by (subst serve_loop.simps) (simp add: fd_isset_def)
  then show ?thesis using n f(3) by (intro exI[of _ n]) (simp add: Let_def)
qed


lemma serve_loop_skip:
  assumes "\<forall>k\<ge>i. int k < ol_con s \<longrightarrow> k < MAXC \<and> fd_isset (cli_fds s ! k) (rd_set s) = Some False"
  shows "serve_loop handle MAXC ev i s = Some s"
  using assms
proof (induction "MAXC - i" arbitrary: i rule: less_induct)
  case less
  show ?case
  proof (cases "int i < ol_con s")
    case True
    then show ?thesis using less.hyps[of "i + 1"] less.prems by (subst serve_loop.simps) auto
  qed (simp add: serve_loop.simps[of handle MAXC ev i s])
qed

lemma sound_places:
  assumes "sound sock s (fd # cs)"
  shows "\<exists>k. cli_fds s = (fd # cs) @ replicate k (-1)" and "0 < fd" and "fd < FD_SETSIZE"
    and "i < length cs \<Longrightarrow> 0 < cs ! i \<and> cs ! i < FD_SETSIZE \<and> cli_fds s ! Suc i = cs ! i"
  using assms by (auto simp: sound_def in_front_def nth_append)

text \<open>The first version keeps the closed descriptor: the next \<open>select\<close> fails, and the server ends.\<close>

lemma plain_leave_ends:
  assumes "sound sock s (fd # cs)" and "length (cli_fds s) = MAX_PLAIN" and "\<not> sel_fail ev"
    and "insert sock (set (fd # cs)) \<inter> ready ev = {fd}" and "leaves ev fd"
  shows "\<exists>s'. plain_round sock ev s = Some (True, s') \<and> (\<forall>ev'. \<exists>s2. plain_round sock ev' s' = Some (False, s2))"
proof -
  have len: "length cs \<le> 1" using assms(1,2) sound_places(1)[OF assms(1)] by (auto simp: MAX_PLAIN_def)
  have h: "plain_handler ev fd (s\<lparr>nfds := n, rd_set := {fd}\<rparr>) = Some (srv_close fd (s\<lparr>nfds := n, rd_set := {fd}, ol_con := ol_con s - 1\<rparr>))" for n
    using assms(5) by (simp add: plain_handler_def leaves_def)
  obtain n where n: "sock \<le> n" "plain_round sock ev s = do {
      s \<leftarrow> Some (srv_close fd (s\<lparr>nfds := n, rd_set := {fd}, ol_con := ol_con s - 1\<rparr>)); s \<leftarrow> serve_loop plain_handler MAX_PLAIN ev 1 s; Some (True, s) }"
    using round_single[where handle = plain_handler and MAXC = MAX_PLAIN and add = plain_add and
        h = "\<lambda>n. Some (srv_close fd (s\<lparr>nfds := n, rd_set := {fd}, ol_con := ol_con s - 1\<rparr>))", OF assms(1) _ assms(3,4) h] len
    unfolding plain_round_def by (auto simp: MAX_PLAIN_def)
  let ?s = "srv_close fd (s\<lparr>nfds := n, rd_set := {fd}, ol_con := ol_con s - 1\<rparr>)"
  have "ol_con s = int (length (fd # cs))" using assms(1) by (simp add: sound_def in_front_def)
  then have "serve_loop plain_handler MAX_PLAIN ev 1 ?s = Some ?s"
    using len by (intro serve_loop_skip) (auto simp: srv_close_def)
  then have r: "plain_round sock ev s = Some (True, ?s)" using n(2) by simp
  have "\<exists>s2. plain_round sock ev' ?s = Some (False, s2)" for ev'
  proof -
    obtain k where k: "cli_fds s = (fd # cs) @ replicate k (-1)" using sound_places(1)[OF assms(1)] by blast
    have lt: "\<forall>c \<in> set (fd # cs). 0 < c \<and> c < FD_SETSIZE" using assms(1) unfolding sound_def in_front_def by blast
    obtain m where m: "watch_loop (cli_fds s) {sock} n = Some ({sock} \<union> set (fd # cs), m)" "\<forall>c \<in> set (fd # cs). c \<le> m"
      using watch_loop_front[OF lt, of k "{sock}" n] unfolding k by blast
    have sk: "fd_add sock {} = Some {sock}" using assms(1) by (simp add: fd_add_def sound_def)
    let ?t = "?s\<lparr>rd_set := {sock} \<union> set (fd # cs), nfds := m\<rparr>"
    have "fd \<in> {c \<in> rd_set ?t. c \<le> nfds ?t}" "fd \<notin> opened ?t" using m(2) by (simp_all add: srv_close_def)
    then have "\<not> {c \<in> rd_set ?t. c \<le> nfds ?t} \<subseteq> opened ?t" by blast
    then have "select_call ?t ev' = None" unfolding select_call_def Let_def by simp
    moreover have "cli_fds ?s = cli_fds s" "nfds ?s = n" by (simp_all add: srv_close_def)
    ultimately have "plain_round sock ev' ?s = Some (False, ?t)"
      using sk m(1) unfolding plain_round_def srv_round_def by (simp add: Let_def)
    then show ?thesis by blast
  qed
  then show ?thesis using r by blast
qed

text \<open>
  The enhanced version frees the place, but looks at the first \<open>ol_con\<close> places only: with a hole at the
  front the next request makes it test the descriptor -1.
\<close>

lemma enh_leave_hole:
  assumes "sound sock s (fd # cs)" and "length (cli_fds s) = MAX_ENH" and "Suc (length cs) < MAX_ENH" and "distinct (fd # cs)" and "\<not> sel_fail ev"
    and "insert sock (set (fd # cs)) \<inter> ready ev = {fd}" and "leaves ev fd"
  shows "\<exists>s' k. enh_round sock ev s = Some (True, s') \<and> cli_fds s' = -1 # cs @ replicate k (-1) \<and> ol_con s' = int (length cs)
    \<and> opened s' = opened s - {fd}
    \<and> (\<forall>ev'. \<not> sel_fail ev' \<and> sock \<notin> ready ev' \<and> set cs \<inter> ready ev' \<noteq> {} \<longrightarrow> enh_round sock ev' s' = None
      \<and> (\<exists>t. cli_fds t = cli_fds s' \<and> ol_con t = ol_con s' \<and> rd_set t = set cs \<inter> ready ev'
        \<and> enh_round sock ev' s' = map_option (Pair True) (serve_loop enh_handler MAX_ENH ev' 0 t)
        \<and> fd_isset (cli_fds t ! 0) (rd_set t) = None
        \<and> (set cs \<inter> ready ev' = {last cs} \<longrightarrow> serve_loop enh_handler MAX_ENH ev' 1 t = Some t)))"
proof -
  obtain k where k: "cli_fds s = (fd # cs) @ replicate k (-1)" using sound_places(1)[OF assms(1)] by blast
  have ol: "ol_con s = int (length (fd # cs))" using assms(1) by (simp add: sound_def in_front_def)
  have fd0: "0 < fd" using sound_places(2)[OF assms(1)] .
  obtain fds' where f: "clear_loop fd [0..<nat (ol_con s + 1)] (cli_fds s) = Some fds'"
  proof -
    have "nat (ol_con s + 1) = Suc (Suc (length cs))" using ol by simp
    then show thesis using that clear_loop_Some[of "[0..<nat (ol_con s + 1)]" "cli_fds s" fd] assms(2,3) by auto
  qed
  have f': "fds' = (-1 # cs) @ replicate k (-1)"
  proof (rule nth_equalityI)
    fix i
    assume "i < length fds'"
    then have i: "i < length (cli_fds s)" using clear_loop_nth[OF f] by simp
    have "fds' ! i = (if i < nat (ol_con s + 1) \<and> cli_fds s ! i = fd then -1 else cli_fds s ! i)"
      using conjunct2[OF clear_loop_nth[OF f], rule_format, OF i] by simp
    moreover have "cli_fds s ! i = fd \<longleftrightarrow> i = 0"
      using i assms(4) fd0 unfolding k by (cases i) (auto simp: nth_append)
    ultimately show "fds' ! i = ((-1 # cs) @ replicate k (-1)) ! i" using ol unfolding k by (cases i) auto
  qed (use clear_loop_nth[OF f] k in simp)
  let ?h = "\<lambda>n. srv_close fd (s\<lparr>nfds := n, rd_set := {fd}, cli_fds := fds', ol_con := ol_con s - 1\<rparr>)"
  have h: "enh_handler ev fd (s\<lparr>nfds := n, rd_set := {fd}\<rparr>) = Some (?h n)" for n
    using assms(7) f by (simp add: enh_handler_def leaves_def)
  obtain n where n: "sock \<le> n" "enh_round sock ev s = do { s \<leftarrow> Some (?h n); s \<leftarrow> serve_loop enh_handler MAX_ENH ev 1 s; Some (True, s) }"
    using round_single[where handle = enh_handler and MAXC = MAX_ENH and add = enh_add and h = "\<lambda>n. Some (?h n)",
        OF assms(1) _ assms(5,6) h] assms(3)
    unfolding enh_round_def by auto
  let ?s = "?h n"
  have "serve_loop enh_handler MAX_ENH ev 1 ?s = Some ?s"
  proof (rule serve_loop_skip, intro allI impI)
    fix i
    assume i: "1 \<le> i" "int i < ol_con ?s"
    then obtain j where j: "i = Suc j" by (cases i) auto
    then have jl: "j < length cs" using i(2) ol by (simp add: srv_close_def)
    then have "cli_fds ?s ! i = cs ! j" using f' j by (simp add: srv_close_def nth_append)
    then show "i < MAX_ENH \<and> fd_isset (cli_fds ?s ! i) (rd_set ?s) = Some False"
      using sound_places(4)[OF assms(1) jl] nth_mem[OF jl] jl j assms(3,4) by (auto simp: fd_isset_def srv_close_def)
  qed
  then have r: "enh_round sock ev s = Some (True, ?s)" using n(2) by simp
  have cl: "cli_fds ?s = -1 # cs @ replicate k (-1)" "ol_con ?s = int (length cs)" "opened ?s = opened s - {fd}"
    using f' ol by (simp_all add: srv_close_def)
  have front: "\<exists>t. cli_fds t = cli_fds ?s \<and> ol_con t = ol_con ?s \<and> rd_set t = set cs \<inter> ready ev'
        \<and> enh_round sock ev' ?s = map_option (Pair True) (serve_loop enh_handler MAX_ENH ev' 0 t)"
    if e: "\<not> sel_fail ev'" "sock \<notin> ready ev'" "set cs \<inter> ready ev' \<noteq> {}" for ev'
  proof -
    have lt: "\<forall>c \<in> set cs. 0 < c \<and> c < FD_SETSIZE" using assms(1) by (auto simp: sound_def in_front_def)
    obtain m where m: "watch_loop fds' {sock} n = Some ({sock} \<union> set cs, m)" "n \<le> m" "\<forall>c \<in> set cs. c \<le> m"
      using watch_loop_front[OF lt, of k "{sock}" n] assms(1) n(1) unfolding f' by (auto simp: sound_def)
    have sk: "fd_add sock {} = Some {sock}" using assms(1) by (simp add: fd_add_def sound_def)
    let ?t = "?s\<lparr>rd_set := {sock} \<union> set cs, nfds := m\<rparr>"
    have W: "{c \<in> rd_set ?t. c \<le> nfds ?t} = {sock} \<union> set cs" using m(2,3) n(1) by auto
    moreover have "{sock} \<union> set cs \<subseteq> opened ?t" using assms(1,4) by (auto simp: sound_def srv_close_def)
    ultimately have sel: "select_call ?t ev' = Some (({sock} \<union> set cs) \<inter> ready ev')" using e(1) by (simp add: select_call_def)
    have R: "({sock} \<union> set cs) \<inter> ready ev' = set cs \<inter> ready ev'" using e(2) by auto
    have "enh_round sock ev' ?s = do { s \<leftarrow> serve_loop enh_handler MAX_ENH ev' 0 (?t\<lparr>rd_set := set cs \<inter> ready ev'\<rparr>); Some (True, s) }"
      using sk m(1) sel R e(2,3) unfolding enh_round_def srv_round_def by (simp add: Let_def srv_close_def)
    then have "enh_round sock ev' ?s = map_option (Pair True) (serve_loop enh_handler MAX_ENH ev' 0 (?t\<lparr>rd_set := set cs \<inter> ready ev'\<rparr>))"
      by (cases "serve_loop enh_handler MAX_ENH ev' 0 (?t\<lparr>rd_set := set cs \<inter> ready ev'\<rparr>)") simp_all
    then show ?thesis by (intro exI[of _ "?t\<lparr>rd_set := set cs \<inter> ready ev'\<rparr>"]) (simp add: srv_close_def)
  qed
  have hole: "fd_isset (cli_fds t ! 0) (rd_set t) = None" "serve_loop enh_handler MAX_ENH ev' 0 t = None"
    if "cli_fds t = cli_fds ?s" "ol_con t = ol_con ?s" "cs \<noteq> []" for t ev'
    using that cl by (subst serve_loop.simps | simp add: fd_isset_def)+
  have skip: "serve_loop enh_handler MAX_ENH ev' 1 t = Some t"
    if "cli_fds t = cli_fds ?s" "ol_con t = ol_con ?s" "rd_set t = {last cs}" "cs \<noteq> []" for t ev'
  proof (rule serve_loop_skip, intro allI impI)
    fix i
    assume i: "1 \<le> i" "int i < ol_con t"
    then obtain j where j: "i = Suc j" by (cases i) auto
    then have jl: "j < length cs - 1" using i(2) that(2) cl(2) by simp
    then have "cli_fds t ! i = cs ! j" using that(1) cl(1) j by (auto simp: nth_append)
    moreover have "cs ! j \<noteq> cs ! (length cs - 1)"
      using assms(4) jl that(4) by (subst nth_eq_iff_index_eq) auto
    then have "cs ! j \<noteq> last cs" using that(4) by (simp add: last_conv_nth)
    moreover have "j < length cs" "i < MAX_ENH" using jl j assms(3) by simp_all
    moreover have "0 < cs ! j" "cs ! j < FD_SETSIZE" using sound_places(4)[OF assms(1) \<open>j < length cs\<close>] by simp_all
    ultimately show "i < MAX_ENH \<and> fd_isset (cli_fds t ! i) (rd_set t) = Some False"
      using that(3) by (simp add: fd_isset_def)
  qed
  have second: "enh_round sock ev' ?s = None
      \<and> (\<exists>t. cli_fds t = cli_fds ?s \<and> ol_con t = ol_con ?s \<and> rd_set t = set cs \<inter> ready ev'
        \<and> enh_round sock ev' ?s = map_option (Pair True) (serve_loop enh_handler MAX_ENH ev' 0 t)
        \<and> fd_isset (cli_fds t ! 0) (rd_set t) = None
        \<and> (set cs \<inter> ready ev' = {last cs} \<longrightarrow> serve_loop enh_handler MAX_ENH ev' 1 t = Some t))"
    if e: "\<not> sel_fail ev' \<and> sock \<notin> ready ev' \<and> set cs \<inter> ready ev' \<noteq> {}" for ev'
  proof -
    obtain t where t: "cli_fds t = cli_fds ?s" "ol_con t = ol_con ?s" "rd_set t = set cs \<inter> ready ev'"
        "enh_round sock ev' ?s = map_option (Pair True) (serve_loop enh_handler MAX_ENH ev' 0 t)"
      using front e by blast
    have "cs \<noteq> []" using e by auto
    then show ?thesis using t hole[OF t(1,2)] skip[OF t(1,2)] by (intro conjI exI[of _ t]) simp_all
  qed
  show ?thesis
    by (rule exI[of _ ?s], rule exI[of _ k], intro conjI) (rule r cl allI impI second | assumption)+
qed

text \<open>With all places taken the loop that frees a place runs behind the array.\<close>

lemma enh_leave_full:
  assumes "sound sock s (fd # cs)" and "length (cli_fds s) = MAX_ENH" and "Suc (length cs) = MAX_ENH" and "\<not> sel_fail ev"
    and "insert sock (set (fd # cs)) \<inter> ready ev = {fd}" and "leaves ev fd"
  shows "enh_round sock ev s = None"
proof -
  have ol: "ol_con s = int MAX_ENH" using assms(1,3) by (simp add: sound_def in_front_def)
  have cl: "clear_loop fd (ns @ [length fds]) fds = None" for fds ns
    by (induction ns arbitrary: fds) (auto, metis length_list_update)
  have "[0..<nat (ol_con s + 1)] = [0..<MAX_ENH] @ [length (cli_fds s)]" using ol assms(2) by (simp add: nat_add_distrib)
  then have "clear_loop fd [0..<nat (ol_con s + 1)] (cli_fds s) = None" using cl by simp
  then have h: "enh_handler ev fd (s\<lparr>nfds := n, rd_set := {fd}\<rparr>) = None" for n
    using assms(6) by (simp add: enh_handler_def leaves_def)
  show ?thesis
    using round_single[where handle = enh_handler and MAXC = MAX_ENH and add = enh_add and h = "\<lambda>n. None", OF assms(1) _ assms(4,5) h] assms(3)
    unfolding enh_round_def by auto
qed


subsection \<open>Requests to the file server\<close>

lemma strchr_at_first: "c \<notin> set us \<Longrightarrow> strchr_at c (us @ c # vs) i = Some (i + length us)"
  by (induction us arbitrary: i) auto

text \<open>Whatever stands behind the blank: the name is what stands between \<open>"GET /"\<close> and the first blank.\<close>

lemma get_filename_request:
  assumes "0 \<notin> set nm" and "BLANK \<notin> set nm"
  shows "fst (get_filename (GET @ nm @ BLANK # rest)) = Some nm"
proof -
  have nz: "0 \<notin> set (GET @ nm @ [BLANK])" using assms(1) by (simp add: GET_def BLANK_def)
  have "cstr ((GET @ nm @ [BLANK]) @ rest) = (GET @ nm @ [BLANK]) @ cstr rest"
    unfolding cstr_def using nz by (intro takeWhile_append2) auto
  then have c: "cstr (GET @ nm @ BLANK # rest) = GET @ nm @ BLANK # cstr rest" by simp
  have "strstr_at GET (GET @ us) 0 = Some 0" for us by (simp add: GET_def)
  moreover have "strchr_at BLANK (nm @ BLANK # cstr rest) 0 = Some (length nm)"
    using strchr_at_first[OF assms(2), of "cstr rest" 0] by simp
  ultimately show ?thesis unfolding get_filename_def c by (simp add: Let_def)
qed

text \<open>The file is sent and the connection stays open.\<close>

lemma file_handler_serves:
  assumes "read_retry (input ev fd) (BUF_SIZE - 1) = Some (GET @ nm @ BLANK # rest)" and "0 \<notin> set nm" and "BLANK \<notin> set nm"
    and "length nm < 255" and "fs nm = Some bs" and "bs \<noteq> []" and "wr fd"
  shows "\<exists>s'. file_handler fs wr ev fd s = Some s' \<and> sent s' = sent s @ [(fd, bs)] \<and> opened s' = opened s \<and> cli_fds s' = cli_fds s"
proof -
  let ?b = "GET @ nm @ BLANK # rest"
  obtain buf where g: "get_filename (store ?b (sbuf s)) = (Some nm, buf)"
    using get_filename_request[OF assms(2,3), of "rest @ drop (length ?b) (sbuf s)"] by (cases "get_filename (store ?b (sbuf s))") (simp add: store_def)
  have "?b \<noteq> []" by simp
  then show ?thesis using assms g by (simp add: file_handler_def Let_def file_send2_def srv_write_def)
qed


text \<open>The relation describes the runs of the program.\<close>

lemma srv_run_append: "srv_run step evs s = Some (True, s') \<Longrightarrow> srv_run step (evs @ fs) s = srv_run step fs s'"
  by (induction evs arbitrary: s) (auto dest!: bind_eq_SomeD split: if_splits)

lemma srv_run_reach:
  "srv_run step evs s = Some (True, s') \<Longrightarrow> srv_reach step (\<lambda>_ _. True) s0 s \<Longrightarrow> srv_reach step (\<lambda>_ _. True) s0 s'"
proof (induction evs arbitrary: s)
  case (Cons ev evs)
  then obtain s1 where s1: "step ev s = Some (True, s1)" "srv_run step evs s1 = Some (True, s')"
    by (auto dest!: bind_eq_SomeD split: if_splits)
  show ?case by (rule Cons.IH[OF s1(2) srv_reach.round[OF Cons.prems(2) TrueI s1(1)]])
qed simp

lemma srv_reach_run: "srv_reach step (\<lambda>_ _. True) s0 s \<longleftrightarrow> (\<exists>evs. srv_run step evs s0 = Some (True, s))"
proof
  assume "srv_reach step (\<lambda>_ _. True) s0 s"
  then show "\<exists>evs. srv_run step evs s0 = Some (True, s)"
  proof (induction rule: srv_reach.induct)
    case start
    then show ?case by (intro exI[of _ "[]"]) simp
  next
    case (round s ev s')
    then obtain evs where "srv_run step evs s0 = Some (True, s)" by blast
    then show ?case using round.hyps(3) by (intro exI[of _ "evs @ [ev]"]) (simp add: srv_run_append)
  qed
next
  assume "\<exists>evs. srv_run step evs s0 = Some (True, s)"
  then show "srv_reach step (\<lambda>_ _. True) s0 s" using srv_run_reach[OF _ srv_reach.start] by blast
qed

end
