(* ===== verification/Chatroom.thy ===== *)
theory Chatroom
  imports Posix SortList
begin

section \<open>The chat room (04Project/chatroom: server.c, client.c)\<close>

text \<open>
  Server and clients share one message queue. The server keeps its users in a kernel list; the list.h of this
  directory has the functions of KernelList with the parameters in another order. A message is its type and
  its bytes with the terminating zero. The globals of the server are the fields of the record: the list, the queue
  and the text of the message buffer, which keeps what earlier messages left in it.

  \<open>m_chat\<close> copies a part of that buffer to its front with \<open>strncpy\<close>, source and target overlapping, which C leaves
  undefined. \<open>overlapping\<close> is whatever comes of it: for the buffer and the offsets of target and source, None for a
  crash or the bytes found from the target on. \<open>forward_copy\<close> is the usual one.

  \<open>msgrcv\<close> of the server asks for type 0: it takes the first message, whoever it is meant for.
\<close>

record user_info = list_head +
  uid :: int
  uname :: "cuchar list"

type_synonym message = "int \<times> cuchar list"

record chat =
  um :: "user_info heap"
  uhead :: ptr
  mq :: "message list"
  mtext :: "cuchar list"
  overlapping :: "cuchar list \<Rightarrow> nat \<Rightarrow> nat \<Rightarrow> cuchar list option"

definition TEXT_SIZE :: nat where "TEXT_SIZE = 255"
definition MAX_NAME :: nat where "MAX_NAME = 20"
definition MY_TYPE :: int where "MY_TYPE = 1"

text \<open>The string at an offset of the buffer; \<open>snprintf\<close> and \<open>strncpy\<close> into an array.\<close>

definition str_at :: "cuchar list \<Rightarrow> nat \<Rightarrow> cuchar list" where
  "str_at buf k = cstr (drop k buf)"

definition snprintf :: "nat \<Rightarrow> cuchar list \<Rightarrow> cuchar list" where
  "snprintf n s = take (n - 1) s"

definition strncpy :: "nat \<Rightarrow> cuchar list \<Rightarrow> cuchar list" where
  "strncpy n s = take n (s @ replicate n 0)"

definition forward_copy :: "cuchar list \<Rightarrow> nat \<Rightarrow> nat \<Rightarrow> cuchar list option" where
  "forward_copy buf d k = Some (strncpy TEXT_SIZE (str_at buf k))"

text \<open>\<open>msgsnd\<close> refuses a type that is not positive; its result is not checked.\<close>

definition send_msg :: "int \<Rightarrow> cuchar list \<Rightarrow> chat \<Rightarrow> chat" where
  "send_msg cid text s = (if cid > 0 then s\<lparr>mq := mq s @ [(cid, text @ [0])]\<rparr> else s)"

subsection \<open>The server\<close>

fun send_all :: "ptr list \<Rightarrow> cuchar list \<Rightarrow> chat \<Rightarrow> chat option" where
  "send_all [] text s = Some s"
| "send_all (p # ps) text s = do {
     i \<leftarrow> rd (um s) uid p;
     send_all ps text (send_msg i text s)
   }"

definition m_user_online_broadcast :: "chat \<Rightarrow> chat option" where
  "m_user_online_broadcast s = do {
     plast \<leftarrow> rd (um s) prev (uhead s);
     name \<leftarrow> rd (um s) uname plast;
     i \<leftarrow> rd (um s) uid plast;
     n \<leftarrow> fmt_s name;
     let text = snprintf TEXT_SIZE (lit ''B:00:'' @ n @ lit '' is online, id('' @ dec_int i @ lit '')'' @ [10]);
     ps \<leftarrow> list_for_each (um s) (uhead s);
     send_all ps text s
   }"

text \<open>\<open>strncat\<close> is given the size of the whole buffer, so it may write behind its end.\<close>

fun list_users :: "user_info heap \<Rightarrow> ptr list \<Rightarrow> cuchar list \<Rightarrow> cuchar list option" where
  "list_users h [] text = Some text"
| "list_users h (p # ps) text = do {
     i \<leftarrow> rd h uid p;
     name \<leftarrow> rd h uname p;
     n \<leftarrow> fmt_s name;
     let tmp = lit ''#'' @ dec_int i @ lit ''#'' @ n @ lit ''$'';
     (if length text + length tmp < TEXT_SIZE then list_users h ps (text @ tmp) else None)
   }"

definition m_list_user :: "int \<Rightarrow> chat \<Rightarrow> chat option" where
  "m_list_user i s = do {
     ps \<leftarrow> list_for_each (um s) (uhead s);
     text \<leftarrow> list_users (um s) ps (snprintf TEXT_SIZE (lit ''L:00:''));
     Some (send_msg i text s)
   }"

text \<open>The argument of a handler is an offset into the buffer, which it also writes.\<close>

definition m_login :: "nat \<Rightarrow> chat \<Rightarrow> (int \<times> chat) option" where
  "m_login k s = do {
     let (user, h) = malloc (um s);
     (if user = NULL then None
      else do {
        let buf = (mtext s)[k + 2 := 0];
        h \<leftarrow> wr h user (\<lambda>n. n\<lparr>uid := atoi (str_at buf k)\<rparr>);
        h \<leftarrow> wr h user (\<lambda>n. n\<lparr>uname := strncpy MAX_NAME (str_at buf (k + 3))\<rparr>);
        h \<leftarrow> list_add_tail h (uhead s) user;
        s \<leftarrow> m_user_online_broadcast (s\<lparr>um := h, mtext := buf\<rparr>);
        Some (0, s)
      })
   }"

text \<open>
  Source and target of the copy always overlap, since the target is the whole buffer. The length of the message is
  that of the string the copy left, so there must be one.
\<close>

definition m_chat :: "nat \<Rightarrow> chat \<Rightarrow> chat option" where
  "m_chat k s = (
     let buf = (mtext s)[k + 2 := 0];
         dst = atoi (str_at buf k) in
     do {
       bs \<leftarrow> overlapping s buf 0 (k + 3);
       let buf = store (take (length buf) bs) buf;
       text \<leftarrow> fmt_s buf;
       Some (send_msg dst text (s\<lparr>mtext := buf\<rparr>))
     })"

definition msg_handler :: "chat \<Rightarrow> (int \<times> chat) option" where
  "msg_handler s = (let c = mtext s ! 0 in
     if c = of_char CHR ''l'' then do { (_, s) \<leftarrow> m_login 5 s; Some (0, s) }
     else if c = of_char CHR ''L'' then do { s \<leftarrow> m_list_user (atoi (str_at (mtext s) 2)) s; Some (0, s) }
     else if c = of_char CHR ''Q'' then Some (0, s)
     else if c = of_char CHR ''C'' then do { s \<leftarrow> m_chat 3 s; Some (0, s) }
     else if c = of_char CHR ''B'' then Some (0, s)
     else if c = of_char CHR ''F'' then Some (0, s)
     else Some (-1, s))"

text \<open>
  One turn of the loop of \<open>main\<close>: a message that does not fit makes \<open>msgrcv\<close> fail, and the server ends; the
  flag says that it goes on. The server blocks on an empty queue.
\<close>

definition server_turn :: "chat \<Rightarrow> (bool \<times> chat) option" where
  "server_turn s = (case mq s of
     [] \<Rightarrow> Some (True, s)
   | (t, text) # q \<Rightarrow>
     (if length text > TEXT_SIZE then Some (False, s)
      else do {
        (r, s) \<leftarrow> msg_handler (s\<lparr>mq := q, mtext := store text (mtext s)\<rparr>);
        Some (True, s)
      }))"

text \<open>
  Setting up and the loop. \<open>init_msq\<close> is given the results of \<open>ftok\<close> and \<open>msgget\<close>. \<open>server_init\<close> initialises a
  head of its own, not the one the handlers use, and returns -1 on every path; \<open>main\<close> does not look at it.
  \<open>server_destroy\<close> returns the truth value of the comparison. A signal interrupts \<open>msgrcv\<close>.
\<close>

definition SIGINT :: int where "SIGINT = 2"
definition SIGQUIT :: int where "SIGQUIT = 3"

definition init_msq :: "int \<Rightarrow> int \<Rightarrow> int" where
  "init_msq key q = (if key < 0 then -1 else if q < 0 then -1 else q)"

definition server_init :: "int \<Rightarrow> int \<Rightarrow> chat \<Rightarrow> (int \<times> int \<times> ptr \<times> chat) option" where
  "server_init key q s = (let msg_id = init_msq key q in
     if msg_id < 0 then Some (-1, msg_id, NULL, s)
     else (let (phead, h) = malloc (um s) in
       if phead = NULL then None
       else do { h \<leftarrow> list_head_init h phead; Some (-1, msg_id, phead, s\<lparr>um := h\<rparr>) }))"

definition server_destroy :: "int \<Rightarrow> int" where
  "server_destroy r = (let n = (if r < 0 then 1 else 0) in n)"

definition sig_handler :: "int \<Rightarrow> bool \<Rightarrow> bool" where
  "sig_handler signo srv_shutdown = (if signo = SIGINT \<or> signo = SIGQUIT then True else srv_shutdown)"

datatype srv_event = Receive | Signal int

fun server_loop :: "srv_event list \<Rightarrow> bool \<Rightarrow> chat \<Rightarrow> (bool \<times> chat) option" where
  "server_loop [] srv_shutdown s = Some (\<not> srv_shutdown, s)"
| "server_loop (e # es) srv_shutdown s = (if srv_shutdown then Some (False, s)
     else case e of
       Signal signo \<Rightarrow> server_loop es (sig_handler signo srv_shutdown) s
     | Receive \<Rightarrow> do {
         (on, s) \<leftarrow> server_turn s;
         (if on then server_loop es srv_shutdown s else Some (False, s))
       })"

definition server_main :: "int \<Rightarrow> int \<Rightarrow> srv_event list \<Rightarrow> chat \<Rightarrow> (bool \<times> chat) option" where
  "server_main key q es s = do {
     (r, msg_id, phead, s) \<leftarrow> server_init key q s;
     server_loop es False s
   }"

subsection \<open>The client\<close>

text \<open>\<open>scanf\<close> stores the name without regard to the size of the array.\<close>

definition login_text :: "int \<Rightarrow> cuchar list \<Rightarrow> cuchar list option" where
  "login_text pid name = (if length name < MAX_NAME then
     Some (snprintf TEXT_SIZE (lit ''l:00:'' @ dec_int (pid mod 100) @ lit ''#'' @ name)) else None)"

definition list_text :: "int \<Rightarrow> cuchar list" where
  "list_text i = snprintf TEXT_SIZE (lit ''L:'' @ dec_int i @ lit '':'')"

definition chat_text :: "int \<Rightarrow> cuchar list \<Rightarrow> cuchar list" where
  "chat_text dst text = snprintf TEXT_SIZE (lit ''C:'' @ dec_int dst @ lit '':'' @ text)"

text \<open>
  The messages a client puts on the queue. \<open>t\<close> is the type its buffer has: 1 before the first message
  arrived, then its own number. A chat message has the type of the other client.
\<close>

definition client_login :: "int \<Rightarrow> int \<Rightarrow> cuchar list \<Rightarrow> chat \<Rightarrow> chat option" where
  "client_login t pid name s = do { text \<leftarrow> login_text pid name; Some (send_msg t text s) }"

definition client_list :: "int \<Rightarrow> int \<Rightarrow> chat \<Rightarrow> chat" where
  "client_list t i s = send_msg t (list_text i) s"

definition client_chat :: "int \<Rightarrow> cuchar list \<Rightarrow> chat \<Rightarrow> chat" where
  "client_chat dst text s = send_msg dst (chat_text dst text) s"

text \<open>
  \<open>msgrcv\<close> of a client takes the first message of its type, or the first of all for the number 0; a message that
  does not fit stays in the queue.
\<close>

definition client_receive :: "int \<Rightarrow> chat \<Rightarrow> (message \<times> chat) option" where
  "client_receive i s = (case filter (\<lambda>m. i = 0 \<or> fst m = i) (mq s) of
     [] \<Rightarrow> None
   | m # _ \<Rightarrow> (if length (snd m) > TEXT_SIZE then None else Some (m, s\<lparr>mq := remove1 m (mq s)\<rparr>)))"

text \<open>
  A client: the type in its buffer, what it printed, and whether it waits for the list. A turn of its loop first
  looks for a message, then does what the user chose; a client that waits does nothing else.
\<close>

record client =
  cid :: int
  ctype :: int
  printed :: "cuchar list list"
  waits :: bool

datatype choice = Login "cuchar list" | List_users | Chat_to int "cuchar list" | Other_key

definition client_start :: "int \<Rightarrow> client" where
  "client_start pid = \<lparr>cid = pid mod 100, ctype = MY_TYPE, printed = [], waits = False\<rparr>"

definition client_poll :: "client \<Rightarrow> chat \<Rightarrow> client \<times> chat" where
  "client_poll c s = (case client_receive (cid c) s of
     None \<Rightarrow> (c, s)
   | Some (m, s) \<Rightarrow> (c\<lparr>ctype := fst m, printed := printed c @ [snd m], waits := False\<rparr>, s))"

definition client_turn :: "int \<Rightarrow> choice \<Rightarrow> client \<Rightarrow> chat \<Rightarrow> (client \<times> chat) option" where
  "client_turn pid key c s = (if waits c then Some (client_poll c s)
     else let (c, s) = client_poll c s in case key of
       Login name \<Rightarrow> do { s \<leftarrow> client_login (ctype c) pid name s; Some (c, s) }
     | List_users \<Rightarrow> Some (c\<lparr>waits := True\<rparr>, client_list (ctype c) (cid c) s)
     | Chat_to dst text \<Rightarrow> Some (c\<lparr>ctype := dst\<rparr>, client_chat dst text s)
     | Other_key \<Rightarrow> Some (c, s))"


subsection \<open>The users\<close>

text \<open>The ring holds the users in the order of their login; every name is terminated.\<close>

definition users :: "user_info heap \<Rightarrow> ptr list \<Rightarrow> (int \<times> cuchar list) list \<Rightarrow> bool" where
  "users h ps us \<longleftrightarrow> map (fld h uid) ps = map (Some \<circ> fst) us
     \<and> map (fld h uname) ps = map (Some \<circ> strncpy MAX_NAME \<circ> snd) us"

definition name_ok :: "cuchar list \<Rightarrow> bool" where
  "name_ok nm \<longleftrightarrow> 0 \<notin> set nm \<and> length nm < MAX_NAME"

definition chat_inv :: "chat \<Rightarrow> (int \<times> cuchar list) list \<Rightarrow> bool" where
  "chat_inv s us \<longleftrightarrow> (\<exists>ps. ring (um s) (uhead s) ps \<and> users (um s) ps us) \<and> (\<forall>u \<in> set us. name_ok (snd u))
     \<and> fresh_avail (um s) \<and> length (mtext s) = TEXT_SIZE"

definition online_text :: "int \<Rightarrow> cuchar list \<Rightarrow> cuchar list" where
  "online_text i nm = snprintf TEXT_SIZE (lit ''B:00:'' @ nm @ lit '' is online, id('' @ dec_int i @ lit '')'' @ [10])"

lemma fmt_s_name: "name_ok nm \<Longrightarrow> fmt_s (strncpy MAX_NAME nm) = Some nm"
proof -
  assume n: "name_ok nm"
  then obtain k where k: "MAX_NAME - length nm = Suc k" by (metis name_ok_def Suc_diff_Suc)
  have "strncpy MAX_NAME nm = nm @ replicate (MAX_NAME - length nm) 0"
    using n by (simp add: strncpy_def name_ok_def min_def)
  then have "strncpy MAX_NAME nm = nm @ 0 # replicate k 0" using k by simp
  then show ?thesis using n cstr_append[of nm] by (simp add: fmt_s_def name_ok_def)
qed

lemma users_rd:
  assumes "users h ps us" and "\<forall>p \<in> set ps. live h p"
  shows "map (rd h uid) ps = map (Some \<circ> fst) us" and "map (rd h uname) ps = map (Some \<circ> strncpy MAX_NAME \<circ> snd) us"
  using assms live_rd[of h] unfolding users_def by (metis (no_types, lifting) map_cong)+

lemma send_all_ids:
  assumes "map (rd (um s) uid) ps = map Some is"
  shows "send_all ps text s = Some (s\<lparr>mq := mq s @ map (\<lambda>i. (i, text @ [0])) (filter (\<lambda>i. 0 < i) is)\<rparr>)"
  using assms
proof (induction ps arbitrary: s "is")
  case (Cons p ps)
  then obtain i js where i: "is = i # js" "rd (um s) uid p = Some i" "map (rd (um s) uid) ps = map Some js"
    by (cases "is") auto
  have "um (send_msg i text s) = um s" by (simp add: send_msg_def)
  then show ?case using Cons.IH[of "send_msg i text s" js] i by (simp add: send_msg_def)
qed simp

text \<open>After a login: the last user of the ring is announced to everybody.\<close>

lemma broadcast_users:
  assumes r: "ring (um s) (uhead s) ps" and u: "users (um s) ps (us @ [(i, nm)])" and n: "name_ok nm"
  shows "m_user_online_broadcast s = Some (s\<lparr>mq := mq s @ map (\<lambda>j. (j, online_text i nm @ [0]))
    (filter (\<lambda>j. 0 < j) (map fst (us @ [(i, nm)])))\<rparr>)"
proof -
  have lv: "\<forall>p \<in> set ps. live (um s) p" using ring_live[OF r] by simp
  note rds = users_rd[OF u lv]
  obtain qs p where ps: "ps = qs @ [p]" using rds(1) by (cases ps rule: rev_cases) auto
  have p: "rd (um s) uid p = Some i" "rd (um s) uname p = Some (strncpy MAX_NAME nm)"
    using rds unfolding ps by simp_all
  have l: "rd (um s) prev (uhead s) = Some p"
    using dring_prev_head[OF r] ring_live_head[OF r] ps by (simp add: heap_simps)
  have "map (rd (um s) uid) ps = map Some (map fst (us @ [(i, nm)]))" using rds(1) by simp
  note se = send_all_ids[OF this]
  show ?thesis
    unfolding m_user_online_broadcast_def l p fmt_s_name[OF n] list_for_each_ring[OF r] Option.bind.bind_lunit Let_def
      online_text_def[symmetric] se by (rule refl)
qed

text \<open>What \<open>m_login\<close> reads: two characters of the number, one that it overwrites, then the name.\<close>

lemma login_fields:
  assumes "length pre = 5" and "0 \<notin> {x, y}" and "0 \<notin> set nm" and "buf = (pre @ x # y # z # nm @ 0 # rest)[5 + 2 := 0]"
  shows "str_at buf 5 = [x, y]" and "str_at buf (5 + 3) = nm"
proof -
  have "buf = pre @ x # y # 0 # nm @ 0 # rest" using assms(1,4) by (simp add: list_update_append)
  then have "drop 5 buf = [x, y] @ 0 # nm @ 0 # rest" "drop (5 + 3) buf = nm @ 0 # rest" using assms(1) by simp_all
  then show "str_at buf 5 = [x, y]" "str_at buf (5 + 3) = nm"
    using cstr_append[of "[x, y]"] cstr_append[of nm] assms(2,3) by (simp_all add: str_at_def)
qed

lemma user_more:
  fixes n n' :: user_info
  assumes "list_head.more n = list_head.more n'"
  shows "uid n = uid n'" and "uname n = uname n'"
  using assms by (cases n; cases n'; simp)+

lemma m_login_registers:
  assumes inv: "chat_inv s us" and av: "avail (um s) \<noteq> []" and n: "name_ok nm"
    and buf: "length pre = 5" "0 \<notin> {x, y}" "mtext s = pre @ x # y # z # nm @ 0 # rest"
  shows "\<exists>s'. m_login 5 s = Some (0, s') \<and> chat_inv s' (us @ [(atoi [x, y], nm)])
    \<and> mq s' = mq s @ map (\<lambda>j. (j, online_text (atoi [x, y]) nm @ [0])) (filter (\<lambda>j. 0 < j) (map fst us @ [atoi [x, y]]))"
proof -
  obtain ps where ps: "ring (um s) (uhead s) ps" "users (um s) ps us" using inv by (auto simp: chat_inv_def)
  have fa: "fresh_avail (um s)" using inv by (simp add: chat_inv_def)
  obtain p h1 where m: "malloc (um s) = (p, h1)" by fastforce
  then have p: "p \<noteq> NULL" using malloc_avail(1)[OF fa] av by auto
  note ml = malloc_live[OF m p]
  let ?b = "(mtext s)[5 + 2 := 0]"
  have sf: "str_at ?b 5 = [x, y]" "str_at ?b (5 + 3) = nm"
    using login_fields[OF buf(1,2), of nm ?b z rest] n buf(3) by (auto simp: name_ok_def)
  let ?h2 = "upd h1 p (\<lambda>n. n\<lparr>uid := atoi [x, y]\<rparr>)"
  let ?h3 = "upd ?h2 p (\<lambda>n. n\<lparr>uname := strncpy MAX_NAME nm\<rparr>)"
  have lv: "live ?h3 p" "\<And>q. live (um s) q \<Longrightarrow> live ?h3 q" using ml by (auto simp: heap_simps)
  have pin: "p \<notin> set (uhead s # ps)" using ml(2) ring_live[OF ps(1)] by blast
  have "fld ?h3 nxt = (fld (um s) nxt)(p := Some (nxt (junk (um s))))" "fld ?h3 prev = (fld (um s) prev)(p := Some (prev (junk (um s))))"
    using ml(4) by (auto simp: heap_simps)
  then have r3: "ring ?h3 (uhead s) ps" using ps(1) pin by simp
  have f3: "fld ?h3 uid = (fld (um s) uid)(p := Some (atoi [x, y]))"
      "fld ?h3 uname = (fld (um s) uname)(p := Some (strncpy MAX_NAME nm))"
    using ml(1) by (simp_all add: heap_simps ml(4))
  obtain h4 N P where h4: "list_add_tail ?h3 (uhead s) p = Some h4" "ring h4 (uhead s) (ps @ [p])" "links_to ?h3 h4 N P"
    using list_add_tail_ring[OF r3 lv(1) pin] by blast
  have k4: "fld h4 uid = fld ?h3 uid" "fld h4 uname = fld ?h3 uname"
    by (rule fld_more_cong[OF links_to_more[OF h4(3)]], erule user_more)+
  have u4: "users h4 (ps @ [p]) (us @ [(atoi [x, y], nm)])"
    using ps(2) pin unfolding users_def k4 f3 by (auto simp: map_fun_upd)
  let ?s = "s\<lparr>um := h4, mtext := ?b\<rparr>"
  have b: "m_user_online_broadcast ?s = Some (?s\<lparr>mq := mq s @ map (\<lambda>j. (j, online_text (atoi [x, y]) nm @ [0]))
    (filter (\<lambda>j. 0 < j) (map fst us @ [atoi [x, y]]))\<rparr>)"
    using broadcast_users[of ?s "ps @ [p]" us "atoi [x, y]" nm] h4(2) u4 n by simp
  have "fresh_avail ?h3" using fresh_avail_step[OF fa m] by (simp add: heap_simps)
  then have fr: "fresh_avail h4" by (rule fresh_avail_links[OF _ h4(3)])
  have "wr h1 p (\<lambda>n. n\<lparr>uid := atoi (str_at ?b 5)\<rparr>) = Some ?h2" using ml(1) sf by (simp add: live_wr)
  moreover have "wr ?h2 p (\<lambda>n. n\<lparr>uname := strncpy MAX_NAME (str_at ?b (5 + 3))\<rparr>) = Some ?h3"
    using ml(1) sf by (simp add: heap_simps)
  ultimately have "m_login 5 s = Some (0, ?s\<lparr>mq := mq s @ map (\<lambda>j. (j, online_text (atoi [x, y]) nm @ [0]))
      (filter (\<lambda>j. 0 < j) (map fst us @ [atoi [x, y]]))\<rparr>)"
    using m p h4(1) b by (simp add: m_login_def Let_def)
  moreover have "chat_inv (?s\<lparr>mq := q\<rparr>) (us @ [(atoi [x, y], nm)])" for q
    using h4(2) u4 fr n inv unfolding chat_inv_def by auto
  ultimately show ?thesis by (intro exI) (rule conjI, assumption, simp)
qed

subsection \<open>The texts of the client\<close>

lemma dec_small: "n < 10 \<Longrightarrow> dec n = [48 + of_nat n]"
  by (subst dec.simps) simp

lemma dec_two: "10 \<le> n \<Longrightarrow> n < 100 \<Longrightarrow> dec n = [48 + of_nat (n div 10), 48 + of_nat (n mod 10)]"
  by (subst dec.simps) (simp add: dec_small)

lemma atoi_digit: "d < 10 \<Longrightarrow> rest = [] \<or> \<not> digit (hd rest) \<Longrightarrow> atoi ((48 + of_nat d) # rest) = int d"
  using atoi_dec[of rest d] dec_small[of d] by simp

text \<open>The message of a login; a number below 10 has one digit only.\<close>

lemma login_text_two:
  assumes "name_ok nm" and "10 \<le> i" and "i < 100" and "int i = pid mod 100"
  shows "login_text pid nm = Some (lit ''l:00:'' @ [48 + of_nat (i div 10), 48 + of_nat (i mod 10), 35] @ nm)"
  using assms by (simp add: login_text_def name_ok_def snprintf_def dec_int_def dec_two TEXT_SIZE_def MAX_NAME_def lit_def
    flip: assms(4))

lemma login_text_one:
  assumes "name_ok nm" and "i < 10" and "int i = pid mod 100"
  shows "login_text pid nm = Some (lit ''l:00:'' @ [48 + of_nat i, 35] @ nm)"
  using assms by (simp add: login_text_def name_ok_def snprintf_def dec_int_def dec_small TEXT_SIZE_def MAX_NAME_def lit_def
    flip: assms(3))

lemma chat_inv_mono:
  "chat_inv s us \<Longrightarrow> length (mtext s') = TEXT_SIZE \<Longrightarrow> um s' = um s \<Longrightarrow> uhead s' = uhead s \<Longrightarrow> chat_inv s' us"
  by (simp add: chat_inv_def)

text \<open>The server on a login message: the two characters of the number, and the name behind the next one.\<close>

lemma server_turn_login:
  assumes inv: "chat_inv s us" and av: "avail (um s) \<noteq> []" and n: "name_ok nm" and q: "mq s = (t, m) # q"
    and m: "m = lit ''l:00:'' @ x # y # z # nm @ [0]" and xy: "0 \<notin> {x, y}"
  shows "\<exists>s'. server_turn s = Some (True, s') \<and> chat_inv s' (us @ [(atoi [x, y], nm)])
    \<and> mq s' = q @ map (\<lambda>j. (j, online_text (atoi [x, y]) nm @ [0])) (filter (\<lambda>j. 0 < j) (map fst us @ [atoi [x, y]]))"
proof -
  let ?s = "s\<lparr>mq := q, mtext := store m (mtext s)\<rparr>"
  have len: "length m \<le> TEXT_SIZE" using n m by (simp add: name_ok_def MAX_NAME_def TEXT_SIZE_def lit_def)
  have b: "mtext ?s = lit ''l:00:'' @ x # y # z # nm @ 0 # drop (length m) (mtext s)" by (simp add: store_def m)
  have "length (store m (mtext s)) = TEXT_SIZE" using len inv by (simp add: chat_inv_def)
  then have "chat_inv ?s us" using chat_inv_mono[OF inv, of ?s] by simp
  then obtain s' where s': "m_login 5 ?s = Some (0, s')" "chat_inv s' (us @ [(atoi [x, y], nm)])"
    "mq s' = q @ map (\<lambda>j. (j, online_text (atoi [x, y]) nm @ [0])) (filter (\<lambda>j. 0 < j) (map fst us @ [atoi [x, y]]))"
    using m_login_registers[of ?s us nm "lit ''l:00:''" x y z "drop (length m) (mtext s)"] av n xy b by (auto simp: lit_def)
  have "mtext ?s ! 0 = of_char CHR ''l''" unfolding b by (simp add: lit_def)
  then have "msg_handler ?s = Some (0, s')" using s'(1) by (simp add: msg_handler_def Let_def)
  then show ?thesis using s' q len by (simp add: server_turn_def)
qed

text \<open>Client and server together: who logs in is registered, but below 10 the first letter of the name is lost.\<close>

lemma login_registered:
  assumes inv: "chat_inv s us" and av: "avail (um s) \<noteq> []" and n: "name_ok nm" "nm \<noteq> []" and q: "mq s = []" and t: "0 < t"
  shows "\<exists>s1 s2. client_login t pid nm s = Some s1 \<and> server_turn s1 = Some (True, s2) \<and>
    (let i = pid mod 100; nm' = (if i < 10 then tl nm else nm) in chat_inv s2 (us @ [(i, nm')])
      \<and> mq s2 = map (\<lambda>j. (j, online_text i nm' @ [0])) (filter (\<lambda>j. 0 < j) (map fst us @ [i])))"
proof -
  obtain i where i: "int i = pid mod 100" "i < 100" by (metis int_ops(3) of_nat_less_iff of_nat_numeral pos_mod_bound
        zero_less_numeral zero_le_imp_eq_int pos_mod_sign)
  have cl: "client_login t pid nm s = Some (s\<lparr>mq := [(t, m @ [0])]\<rparr>)" if "login_text pid nm = Some m" for m
    using that q t by (simp add: client_login_def send_msg_def)
  have inv': "chat_inv (s\<lparr>mq := qs\<rparr>) us" for qs
    using inv by (simp add: chat_inv_def)
  show ?thesis
  proof (cases "i < 10")
    case True
    obtain c cs where nm: "nm = c # cs" using n(2) by (cases nm) auto
    have cs: "name_ok cs" using n(1) nm by (auto simp: name_ok_def)
    let ?m = "lit ''l:00:'' @ [48 + of_nat i, 35] @ nm"
    have d: "(48 + of_nat i :: cuchar) \<noteq> 0" "atoi [48 + of_nat i, 35] = int i"
      using digit_char(3)[OF True] atoi_digit[OF True, of "[35]"] by (auto simp: digit_def)
    show ?thesis
      using cl[OF login_text_one[OF n(1) True i(1)]] server_turn_login[OF inv' _ cs, of "[(t, ?m @ [0])]" t "?m @ [0]" "[]" "48 + of_nat i" 35 c]
        av d True i(1)[symmetric] nm by (simp add: Let_def)
  next
    case False
    let ?x = "48 + of_nat (i div 10) :: cuchar" and ?y = "48 + of_nat (i mod 10) :: cuchar"
    let ?m = "lit ''l:00:'' @ [?x, ?y, 35] @ nm"
    have d: "?x \<noteq> 0" "?y \<noteq> 0" "atoi [?x, ?y] = int i"
      using digit_char(3)[of "i div 10"] digit_char(3)[of "i mod 10"] i(2) False atoi_dec_str[of i] dec_two[of i] by auto
    show ?thesis
      using cl[OF login_text_two[OF n(1) _ i(2) i(1)]] server_turn_login[OF inv' _ n(1), of "[(t, ?m @ [0])]" t "?m @ [0]" "[]" ?x ?y 35]
        av d False i(1)[symmetric] by (simp add: Let_def)
  qed
qed

subsection \<open>Chat, list and broadcast\<close>

text \<open>
  A chat message: \<open>m_chat\<close> expects a number of two characters behind a first field that the client does not send,
  so it misses the first digit of the number and, when the number has two, the first byte of the text.
\<close>

lemma chat_text_two:
  assumes "0 < length text" and "length text < 200" and "10 \<le> i" and "i < 100"
  shows "chat_text (int i) text = lit ''C:'' @ [48 + of_nat (i div 10), 48 + of_nat (i mod 10), 58] @ text"
  using assms by (simp add: chat_text_def snprintf_def dec_int_def dec_two TEXT_SIZE_def lit_def)

lemma msg_handler_chat: "mtext s ! 0 = of_char CHR ''C'' \<Longrightarrow> msg_handler s = do { s \<leftarrow> m_chat 3 s; Some (0, s) }"
  by (simp add: msg_handler_def)

text \<open>The number the server takes for the receiver: what follows the first character, up to two characters.\<close>

definition misread :: "int \<Rightarrow> cuchar list \<Rightarrow> int" where
  "misread i text = atoi (take 2 (tl (dec_int i @ 58 # text)))"

lemma atoi_two: "digit x \<Longrightarrow> digit y \<Longrightarrow> 0 \<le> atoi [x, y] \<and> atoi [x, y] < 100"
proof -
  assume d: "digit x" "digit y"
  have le: "unat (z - 48) \<le> 9" if "digit z" for z
    using that by (simp add: digit_def unat_sub word_le_nat_alt) arith
  have "\<not> blank x" "x \<noteq> 45" "x \<noteq> 43" using d(1) by (auto simp: digit_def blank_def word_le_nat_alt)
  then have "atoi [x, y] = 10 * int (unat (x - 48)) + int (unat (y - 48))"
    using d by (simp add: atoi_def digits_value_def)
  then show ?thesis using le[OF d(1)] le[OF d(2)] by linarith
qed

lemma misread_small: "i < 10 \<Longrightarrow> misread (int i) text = 0"
proof -
  assume "i < 10"
  then have "misread (int i) text = atoi (58 # take 1 text)"
    by (simp add: misread_def dec_int_def dec_small take_Suc_conv_app_nth numeral_2_eq_2)
  also have "\<dots> = 0" by (simp add: atoi_def blank_def digit_def digits_value_def)
  finally show ?thesis .
qed

lemma misread_two: "10 \<le> i \<Longrightarrow> i < 100 \<Longrightarrow> misread (int i) text = int (i mod 10)"
  using atoi_digit[of "i mod 10" "[58]"] by (simp add: misread_def dec_int_def dec_two digit_def)

lemma misread_less:
  assumes "0 < i"
  shows "0 \<le> misread (int i) text \<and> misread (int i) text < int i"
proof -
  consider "i < 10" | "10 \<le> i" "i < 100" | "100 \<le> i" by linarith
  then show ?thesis
  proof cases
    case 1
    then show ?thesis using assms by (simp add: misread_small)
  next
    case 2
    then have "i mod 10 < i" using mod_less_divisor[of 10 i] by linarith
    then show ?thesis using 2 by (simp add: misread_two)
  next
    case 3
    have "dec (i div 10) = dec (i div 10 div 10) @ [48 + of_nat (i div 10 mod 10)]" "dec i = dec (i div 10) @ [48 + of_nat (i mod 10)]"
      using 3 by (subst dec.simps, simp)+
    moreover obtain c cs where c: "dec (i div 10 div 10) = c # cs" by (cases "dec (i div 10 div 10)") auto
    ultimately obtain x y rest where d: "dec i = c # x # y # rest" by (cases cs; cases "tl cs") auto
    then have "digit x" "digit y" using dec_digits[of i] by auto
    then show ?thesis using atoi_two[of x y] 3 d by (simp add: misread_def dec_int_def numeral_2_eq_2)
  qed
qed

text \<open>What the server does with a chat message, up to the copy.\<close>

lemma str_at_two:
  assumes "u \<noteq> []" and "0 \<notin> set u"
  shows "cstr ((take 251 u @ 0 # r)[2 := 0]) = take 2 u"
proof (cases u rule: remdups_adj.cases)
  case (3 x y v)
  obtain z zs where "take 249 v @ 0 # r = z # zs" by (cases "take 249 v @ 0 # r") auto
  then have "(take 251 u @ 0 # r)[2 := 0] = [x, y] @ 0 # zs" using 3 by (simp add: numeral_2_eq_2)
  then show ?thesis using 3 assms(2) cstr_append[of "[x, y]" zs] by (simp add: numeral_2_eq_2)
qed (use assms in \<open>auto simp: cstr_def numeral_2_eq_2\<close>)

lemma server_turn_chat_open:
  assumes len: "length (mtext s) = TEXT_SIZE" and q: "mq s = []" and i: "0 < i" and t: "0 \<notin> set text"
  shows "\<exists>buf. length buf = TEXT_SIZE \<and> server_turn (client_chat (int i) text s) = do {
      bs \<leftarrow> overlapping s buf 0 6;
      txt \<leftarrow> fmt_s (store (take TEXT_SIZE bs) buf);
      Some (True, send_msg (misread (int i) text) txt (s\<lparr>mtext := store (take TEXT_SIZE bs) buf\<rparr>))
    } \<and> (10 \<le> i \<and> i < 100 \<and> text \<noteq> [] \<and> length text < 200 \<longrightarrow> str_at buf 6 = tl text)"
proof -
  obtain c ds where d: "dec i = c # ds" by (cases "dec i") auto
  let ?u = "ds @ 58 # text"
  obtain u where cu: "dec i @ 58 # text = c # u" "u = ?u" using d by simp
  then have u: "u \<noteq> []" "0 \<notin> set u" using t dec_digits[of i] d by auto
  let ?m = "67 # 58 # c # take 251 u @ [0]"
  let ?r = "drop (length ?m) (mtext s)"
  let ?s = "s\<lparr>mq := [], mtext := store ?m (mtext s)\<rparr>" and ?b = "(store ?m (mtext s))[5 := 0]"
  have "chat_text (int i) text @ [0] = ?m"
    using cu by (simp add: chat_text_def snprintf_def dec_int_def TEXT_SIZE_def lit_def)
  then have cc: "client_chat (int i) text s = s\<lparr>mq := [(int i, ?m)]\<rparr>" using i q by (simp add: client_chat_def send_msg_def)
  have lm: "length ?m \<le> TEXT_SIZE" by (simp add: TEXT_SIZE_def)
  have b: "?b = [67, 58, c] @ (take 251 u @ 0 # ?r)[2 := 0]" by (simp add: store_def numeral_eq_Suc)
  then have "str_at ?b 3 = take 2 u" using str_at_two[OF u] by (simp add: str_at_def)
  then have a: "atoi (str_at ?b 3) = misread (int i) text" using cu by (simp add: misread_def dec_int_def)
  have sq: "s\<lparr>mq := [], mtext := x\<rparr> = s\<lparr>mtext := x\<rparr>" for x using q by (cases s) simp
  have lb: "length ?b = TEXT_SIZE" using lm len by simp
  have "mtext ?s ! 0 = of_char CHR ''C''" by (simp add: store_def)
  note h = msg_handler_chat[OF this]
  have "server_turn (client_chat (int i) text s) = do { s \<leftarrow> m_chat 3 ?s; Some (True, s) }"
    using lm h unfolding cc server_turn_def by simp
  also have "\<dots> = do { bs \<leftarrow> overlapping s ?b 0 6; txt \<leftarrow> fmt_s (store (take TEXT_SIZE bs) ?b);
      Some (True, send_msg (misread (int i) text) txt (s\<lparr>mtext := store (take TEXT_SIZE bs) ?b\<rparr>)) }"
    using a lb sq by (simp add: m_chat_def Let_def)
  finally have turn: "server_turn (client_chat (int i) text s) = \<dots>" .
  moreover have "str_at ?b 6 = tl text" if w: "10 \<le> i \<and> i < 100 \<and> text \<noteq> [] \<and> length text < 200"
  proof -
    obtain e es where e: "text = e # es" using w by (cases "text") auto
    then have "u = [48 + of_nat (i mod 10), 58] @ e # es" using cu w by (simp add: dec_two)
    then have "(take 251 u @ 0 # ?r)[2 := 0] = [48 + of_nat (i mod 10), 58, 0] @ es @ 0 # ?r"
      using w e by (simp add: numeral_2_eq_2)
    then have "drop 6 ?b = tl text @ 0 # ?r" unfolding b using e by (simp add: drop_Cons')
    moreover have "0 \<notin> set (tl text)" using t w by (cases "text") auto
    ultimately show ?thesis unfolding str_at_def by (metis cstr_append)
  qed
  ultimately show ?thesis using lb by blast
qed

text \<open>
  Whatever the copy does, the message leaves for the misread number, or nowhere. With the usual copy the text loses
  its first byte.
\<close>

lemma server_turn_chat_any:
  assumes inv: "chat_inv s us" and q: "mq s = []" and i: "0 < i" and t: "0 \<notin> set text" and r: "server_turn (client_chat (int i) text s) = Some (on, s')"
  shows "on \<and> chat_inv s' us \<and> (\<exists>txt. mq s' = (if misread (int i) text = 0 then [] else [(misread (int i) text, txt @ [0])]))"
proof -
  have "length (mtext s) = TEXT_SIZE" using inv by (simp add: chat_inv_def)
  from server_turn_chat_open[OF this q i t] obtain buf where b0: "length buf = TEXT_SIZE"
      "server_turn (client_chat (int i) text s) = do {
      bs \<leftarrow> overlapping s buf 0 6;
      tx \<leftarrow> fmt_s (store (take TEXT_SIZE bs) buf);
      Some (True, send_msg (misread (int i) text) tx (s\<lparr>mtext := store (take TEXT_SIZE bs) buf\<rparr>)) }" by blast
  from trans[OF sym[OF b0(2)] r] obtain bs tx where b: "on"
      "s' = send_msg (misread (int i) text) tx (s\<lparr>mtext := store (take TEXT_SIZE bs) buf\<rparr>)"
    by (auto simp: bind_eq_Some_conv)
  have "chat_inv s' us" by (rule chat_inv_mono[OF inv]) (use b b0(1) in \<open>auto simp: send_msg_def\<close>)
  moreover have "0 \<le> misread (int i) text" using misread_less[OF i] by blast
  ultimately show ?thesis using b q by (auto simp: send_msg_def)
qed

lemma server_turn_chat:
  assumes inv: "chat_inv s us" and q: "mq s = []" and i: "10 \<le> i" "i < 100"
    and t: "0 \<notin> set text" "text \<noteq> []" "length text < 200" and c: "overlapping s = forward_copy"
  shows "\<exists>s'. server_turn (client_chat (int i) text s) = Some (True, s') \<and> chat_inv s' us
    \<and> mq s' = (if i mod 10 = 0 then [] else [(int (i mod 10), tl text @ [0])])"
proof -
  have i0: "0 < i" using i(1) by simp
  have "length (mtext s) = TEXT_SIZE" using inv by (simp add: chat_inv_def)
  from server_turn_chat_open[OF this q i0 t(1)] obtain buf where b: "length buf = TEXT_SIZE" "str_at buf 6 = tl text"
      "server_turn (client_chat (int i) text s) = do {
      bs \<leftarrow> overlapping s buf 0 6;
      txt \<leftarrow> fmt_s (store (take TEXT_SIZE bs) buf);
      Some (True, send_msg (misread (int i) text) txt (s\<lparr>mtext := store (take TEXT_SIZE bs) buf\<rparr>)) }"
    using i t by blast
  have l: "length (tl text) < 200" using t(3) by simp
  then obtain k where k: "TEXT_SIZE - length (tl text) = Suc k" using that by (cases "TEXT_SIZE - length (tl text)") (auto simp: TEXT_SIZE_def)
  have "strncpy TEXT_SIZE (tl text) = tl text @ replicate (TEXT_SIZE - length (tl text)) 0"
    using l by (simp add: strncpy_def TEXT_SIZE_def)
  then have s: "strncpy TEXT_SIZE (tl text) = tl text @ 0 # replicate k 0" using k by simp
  then have "length (strncpy TEXT_SIZE (tl text)) = TEXT_SIZE" using k l by (simp add: TEXT_SIZE_def)
  then have st: "store (take TEXT_SIZE (strncpy TEXT_SIZE (tl text))) buf = tl text @ 0 # replicate k 0"
    using b(1) s by (simp add: store_def)
  moreover have "0 \<notin> set (tl text)" using t(1,2) by (cases "text") auto
  ultimately have "server_turn (client_chat (int i) text s) = Some (True, send_msg (int (i mod 10)) (tl text) (s\<lparr>mtext := tl text @ 0 # replicate k 0\<rparr>))"
    using b(2,3) c cstr_append[of "tl text"] i by (simp add: forward_copy_def fmt_s_def misread_two)
  then show ?thesis using server_turn_chat_any[OF inv q i0 t(1)] q by (auto simp: send_msg_def)
qed

text \<open>The list of the users, as long as it fits into the buffer.\<close>

definition user_text :: "int \<times> cuchar list \<Rightarrow> cuchar list" where
  "user_text u = lit ''#'' @ dec_int (fst u) @ lit ''#'' @ snd u @ lit ''$''"

lemma list_users_text:
  assumes "map (rd h uid) ps = map (Some \<circ> fst) us" and "map (rd h uname) ps = map (Some \<circ> strncpy MAX_NAME \<circ> snd) us"
    and "\<forall>u \<in> set us. name_ok (snd u)" and "length text < TEXT_SIZE"
  shows "list_users h ps text = (if length (text @ concat (map user_text us)) < TEXT_SIZE
    then Some (text @ concat (map user_text us)) else None)"
  using assms
proof (induction ps arbitrary: us "text")
  case (Cons p ps)
  then obtain u us' where u: "us = u # us'" by (cases us) auto
  have r: "rd h uid p = Some (fst u)" "rd h uname p = Some (strncpy MAX_NAME (snd u))" "name_ok (snd u)"
    using Cons.prems u by auto
  have l: "list_users h (p # ps) text = (if length (text @ user_text u) < TEXT_SIZE then list_users h ps (text @ user_text u) else None)"
    using r fmt_s_name[OF r(3)] by (simp add: user_text_def Let_def)
  show ?case
  proof (cases "length (text @ user_text u) < TEXT_SIZE")
    case True
    then have "list_users h ps (text @ user_text u) = (if length ((text @ user_text u) @ concat (map user_text us')) < TEXT_SIZE
        then Some ((text @ user_text u) @ concat (map user_text us')) else None)"
      using Cons.prems u by (intro Cons.IH) auto
    then show ?thesis using True l u by simp
  qed (use l u in simp)
qed simp

lemma m_list_user_text:
  assumes inv: "chat_inv s us"
  shows "m_list_user i s = (let text = lit ''L:00:'' @ concat (map user_text us) in
    if length text < TEXT_SIZE then Some (send_msg i text s) else None)"
proof -
  obtain ps where ps: "ring (um s) (uhead s) ps" "users (um s) ps us" using inv by (auto simp: chat_inv_def)
  have lv: "\<forall>p \<in> set ps. live (um s) p" using ring_live[OF ps(1)] by simp
  have t0: "snprintf TEXT_SIZE (lit ''L:00:'') = lit ''L:00:''" by (simp add: snprintf_def lit_def TEXT_SIZE_def)
  have "length (lit ''L:00:'') < TEXT_SIZE" by (simp add: lit_def TEXT_SIZE_def)
  moreover have "\<forall>u \<in> set us. name_ok (snd u)" using inv by (simp add: chat_inv_def)
  ultimately show ?thesis
    using list_users_text[OF users_rd[OF ps(2) lv], of "lit ''L:00:''"] list_for_each_ring[OF ps(1)] t0
    by (simp add: m_list_user_def Let_def)
qed

lemma server_turn_list:
  assumes inv: "chat_inv s us" and q: "mq s = []" and t: "0 < t" and i: "i < 100"
  shows "map_option (\<lambda>(on, s'). (on, um s', mq s')) (server_turn (client_list t (int i) s)) =
    (let text = lit ''L:00:'' @ concat (map user_text us) in
     if length text < TEXT_SIZE then Some (True, um s, if i = 0 then [] else [(int i, text @ [0])]) else None)"
proof -
  let ?m = "lit ''L:'' @ dec i @ 58 # [0]"
  let ?s = "s\<lparr>mq := [], mtext := store ?m (mtext s)\<rparr>"
  have dl: "length (dec i) \<le> 2" using i by (cases "i < 10") (simp_all add: dec_small dec_two)
  have len: "length ?m \<le> TEXT_SIZE" using dl by (simp add: lit_def TEXT_SIZE_def)
  have "list_text (int i) = lit ''L:'' @ dec i @ [58]"
    using dl by (simp add: list_text_def snprintf_def dec_int_def lit_def TEXT_SIZE_def)
  then have cl: "client_list t (int i) s = s\<lparr>mq := [(t, ?m)]\<rparr>" using t q by (simp add: client_list_def send_msg_def)
  have "chat_inv ?s us" using len inv by (intro chat_inv_mono[OF inv]) (simp_all add: chat_inv_def)
  note ml = m_list_user_text[OF this]
  have "drop 2 (mtext ?s) = (dec i @ [58]) @ 0 # drop (length ?m) (mtext s)" by (simp add: store_def lit_def)
  moreover have "0 \<notin> set (dec i @ [58])" using dec_digits[of i] by auto
  ultimately have "str_at (mtext ?s) 2 = dec i @ [58]" unfolding str_at_def by (metis cstr_append)
  then have at: "atoi (str_at (mtext ?s) 2) = int i" using atoi_dec[of "[58]" i] by (simp add: digit_def)
  have c: "mtext ?s ! 0 = of_char CHR ''L''" by (simp add: store_def lit_def)
  have mh: "msg_handler ?s = do { s \<leftarrow> m_list_user (int i) ?s; Some (0, s) }"
    unfolding msg_handler_def Let_def c at by simp
  show ?thesis
    using len ml[of "int i"] unfolding cl server_turn_def by (simp add: mh Let_def) (simp add: send_msg_def)
qed

lemma length_snprintf: "length (snprintf TEXT_SIZE s) < TEXT_SIZE"
  by (simp add: snprintf_def TEXT_SIZE_def)

text \<open>A broadcast that the server takes itself is gone.\<close>

lemma server_turn_broadcast:
  assumes inv: "chat_inv s us" and q: "mq s = (j, online_text i nm @ [0]) # q" and n: "name_ok nm"
  shows "\<exists>s'. server_turn s = Some (True, s') \<and> chat_inv s' us \<and> mq s' = q \<and> um s' = um s"
proof -
  let ?m = "online_text i nm @ [0]"
  let ?s = "s\<lparr>mq := q, mtext := store ?m (mtext s)\<rparr>"
  have len: "length ?m \<le> TEXT_SIZE" using length_snprintf by (simp add: online_text_def Suc_le_eq)
  have "lit ''B:00:'' = of_char CHR ''B'' # lit '':00:''" by (simp add: lit_def)
  then have "\<exists>xs. ?m = of_char CHR ''B'' # xs" by (simp add: online_text_def snprintf_def TEXT_SIZE_def)
  then obtain xs where "?m = of_char CHR ''B'' # xs" by blast
  then have "store ?m (mtext s) ! 0 = of_char CHR ''B''" by (simp only: store_def append_Cons nth_Cons_0)
  then have c: "mtext ?s ! 0 = of_char CHR ''B''" by simp
  have "msg_handler ?s = Some (0, ?s)" unfolding msg_handler_def Let_def c by simp
  then have "server_turn s = Some (True, ?s)" using q len by (simp add: server_turn_def)
  moreover have "chat_inv ?s us" using len inv by (intro chat_inv_mono[OF inv]) (simp_all add: chat_inv_def)
  ultimately show ?thesis by auto
qed

fun server_turns :: "nat \<Rightarrow> chat \<Rightarrow> (bool \<times> chat) option" where
  "server_turns 0 s = Some (True, s)"
| "server_turns (Suc n) s = do { (on, s) \<leftarrow> server_turn s; (if on then server_turns n s else Some (False, s)) }"

lemma server_turns_broadcasts:
  assumes "chat_inv s us" and "mq s = map (\<lambda>j. (j, online_text i nm @ [0])) js" and "name_ok nm"
  shows "\<exists>s'. server_turns (length js) s = Some (True, s') \<and> chat_inv s' us \<and> mq s' = []"
  using assms
proof (induction js arbitrary: s)
  case (Cons j js)
  then obtain s1 where s1: "server_turn s = Some (True, s1)" "chat_inv s1 us" "mq s1 = map (\<lambda>j. (j, online_text i nm @ [0])) js"
    using server_turn_broadcast[OF Cons.prems(1), of j i nm] by auto
  then show ?case using Cons.IH[OF s1(2,3) Cons.prems(3)] by simp
qed simp

text \<open>
  After a login the server alone empties the queue: when it is scheduled before the clients, nobody learns of the
  new user.
\<close>

lemma login_broadcast_eaten:
  assumes inv: "chat_inv s us" and av: "avail (um s) \<noteq> []" and n: "name_ok nm" "nm \<noteq> []" and q: "mq s = []" and t: "0 < t"
  shows "\<exists>s1 k s2 us'. client_login t pid nm s = Some s1 \<and> k \<le> length us + 2 \<and> server_turns k s1 = Some (True, s2)
    \<and> chat_inv s2 us' \<and> length us' = Suc (length us) \<and> mq s2 = []"
proof -
  obtain s1 s2 i nm' where s1: "client_login t pid nm s = Some s1" "server_turn s1 = Some (True, s2)" "chat_inv s2 (us @ [(i, nm')])"
      "mq s2 = map (\<lambda>j. (j, online_text i nm' @ [0])) (filter (\<lambda>j. 0 < j) (map fst us @ [i]))"
    using login_registered[OF assms, of pid] unfolding Let_def by blast
  have "name_ok nm'" using s1(3) by (auto simp: chat_inv_def)
  then obtain s3 where s3: "server_turns (length (filter (\<lambda>j. 0 < j) (map fst us @ [i]))) s2 = Some (True, s3)"
      "chat_inv s3 (us @ [(i, nm')])" "mq s3 = []"
    using server_turns_broadcasts[OF s1(3,4)] by blast
  let ?k = "length (filter (\<lambda>j. 0 < j) (map fst us @ [i]))"
  have "?k \<le> length us + 1" using length_filter_le[of "\<lambda>j. 0 < j" "map fst us @ [i]"] by simp
  moreover have "server_turns (Suc ?k) s1 = Some (True, s3)" using s1(2) s3(1) by (simp del: filter_append)
  ultimately show ?thesis
    using s1(1) s3(2,3) by (intro exI[of _ s1] exI[of _ "Suc ?k"] exI[of _ s3] exI[of _ "us @ [(i, nm')]"]) simp
qed

end
