(* ===== verification/Threads.thy ===== *)
theory Threads
  imports Prelude
begin

section \<open>Programs of several threads\<close>

text \<open>
  A program is what each of its threads does next in a state: a step, waiting (for a mutex, a condition or the
  end of another thread), nothing because it has ended, or something undefined. One step is one access to
  shared memory or one call of the thread library, so the scheduler may switch between any two of them. A run is
  given by the threads in the order they are scheduled.
\<close>

datatype 's turn = Step 's | Waits | Ends | Faults

type_synonym ('t, 's) program = "'t \<Rightarrow> 's \<Rightarrow> 's turn"

fun run :: "('t, 's) program \<Rightarrow> 't list \<Rightarrow> 's \<Rightarrow> 's option" where
  "run prog [] s = Some s"
| "run prog (t # ts) s = (case prog t s of Step s' \<Rightarrow> run prog ts s' | _ \<Rightarrow> None)"

inductive reach :: "('t, 's) program \<Rightarrow> 's \<Rightarrow> 's \<Rightarrow> bool" for prog and init where
  reach_start: "reach prog init init"
| reach_step: "reach prog init s \<Longrightarrow> prog t s = Step s' \<Longrightarrow> reach prog init s'"

lemma run_append: "run prog (ts @ us) s = Option.bind (run prog ts s) (run prog us)"
  by (induction ts arbitrary: s) (auto split: turn.splits)

lemma run_SomeI: "run prog ts s = Some s1 \<Longrightarrow> run prog us s1 = r \<Longrightarrow> run prog (ts @ us) s = r"
  by (simp add: run_append)

lemma run_step: "prog t s = Step s' \<Longrightarrow> run prog [t] s = Some s'"
  by simp

lemma reach_run: "reach prog init s \<longleftrightarrow> (\<exists>ts. run prog ts init = Some s)"
proof
  assume "reach prog init s"
  then show "\<exists>ts. run prog ts init = Some s"
  proof induction
    case reach_start
    show ?case by (rule exI[of _ "[]"]) simp
  next
    case (reach_step s t s')
    then show ?case using run_SomeI[OF _ run_step] by metis
  qed
next
  assume "\<exists>ts. run prog ts init = Some s"
  then obtain ts where "run prog ts init = Some s" by blast
  then show "reach prog init s"
  proof (induction ts arbitrary: s rule: rev_induct)
    case Nil
    then show ?case by (simp add: reach_start)
  next
    case (snoc t ts)
    then show ?case by (auto simp: run_append split: Option.bind_splits turn.splits intro: reach_step)
  qed
qed

lemma reach_trans: "reach prog s1 s2 \<Longrightarrow> reach prog s s1 \<Longrightarrow> reach prog s s2"
  by (induction rule: reach.induct) (auto intro: reach_step)

text \<open>A state is stuck when no thread can make a step.\<close>

definition stuck :: "('t, 's) program \<Rightarrow> 's \<Rightarrow> bool" where
  "stuck prog s \<longleftrightarrow> (\<forall>t s'. prog t s \<noteq> Step s')"

subsection \<open>The mutex of the thread library\<close>

text \<open>
  \<open>pthread_mutex_lock\<close> waits while somebody has the mutex. Giving back a mutex that the thread does not have is
  undefined. \<open>set\<close> stores the new owner and the next place of the thread.
\<close>

definition mutex_lock :: "'t \<Rightarrow> 't option \<Rightarrow> ('t option \<Rightarrow> 's) \<Rightarrow> 's turn" where
  "mutex_lock t owner set_to = (case owner of None \<Rightarrow> Step (set_to (Some t)) | Some _ \<Rightarrow> Waits)"

definition mutex_unlock :: "'t \<Rightarrow> 't option \<Rightarrow> ('t option \<Rightarrow> 's) \<Rightarrow> 's turn" where
  "mutex_unlock t owner set_to = (if owner = Some t then Step (set_to None) else Faults)"

lemma mutex_lock_Step: "mutex_lock t owner f = Step s \<longleftrightarrow> owner = None \<and> s = f (Some t)"
  by (auto simp: mutex_lock_def split: option.splits)

lemma mutex_unlock_Step: "mutex_unlock t owner f = Step s \<longleftrightarrow> owner = Some t \<and> s = f None"
  by (auto simp: mutex_unlock_def)

subsection \<open>Invariants, mutual exclusion and termination\<close>

text \<open>
  An invariant of a program; with it, a bound on the length of all runs; and the discipline of a mutex: the places
  in which a thread has it (\<open>holds\<close>) follow the owner in every step.
\<close>

locale invariant_program =
  fixes prog :: "('t, 's) program" and init :: 's and inv :: "'s \<Rightarrow> bool"
  assumes inv_init: "inv init"
    and inv_step: "inv s \<Longrightarrow> prog t s = Step s' \<Longrightarrow> inv s'"
begin

lemma reach_inv: "reach prog init s \<Longrightarrow> inv s"
  by (induction rule: reach.induct) (auto intro: inv_init inv_step)

end

locale terminating_program = invariant_program +
  fixes weight :: "'b \<Rightarrow> nat"
  assumes weight_step: "inv s \<Longrightarrow> prog t s = Step s' \<Longrightarrow> weight s' < weight s"
begin

lemma run_bound: "inv s \<Longrightarrow> run prog ts s = Some s' \<Longrightarrow> length ts + weight s' \<le> weight s"
proof (induction ts arbitrary: s)
  case (Cons t ts)
  then obtain s1 where s1: "prog t s = Step s1" "run prog ts s1 = Some s'" by (auto split: turn.splits)
  show ?case using Cons.IH[OF inv_step[OF Cons.prems(1) s1(1)] s1(2)] weight_step[OF Cons.prems(1) s1(1)] by simp
qed simp

text \<open>Every run can be prolonged to one that is stuck.\<close>

lemma run_to_end: "inv s \<Longrightarrow> \<exists>ts s'. run prog ts s = Some s' \<and> stuck prog s'"
proof (induction "weight s" arbitrary: s rule: less_induct)
  case less
  show ?case
  proof (cases "stuck prog s")
    case True
    then show ?thesis by (metis run.simps(1))
  next
    case False
    then obtain t s1 where s1: "prog t s = Step s1" by (auto simp: stuck_def)
    obtain ts s' where "run prog ts s1 = Some s'" "stuck prog s'"
      using less.hyps[OF weight_step[OF less.prems s1] inv_step[OF less.prems s1]] by blast
    then show ?thesis using s1 by (intro exI[of _ "t # ts"] exI[of _ s']) simp
  qed
qed

end

text \<open>
  A program with a mutex: on top of the invariant \<open>inv\<close> of the control flow, the owner of the mutex is the thread
  that is in a critical section, and \<open>data\<close> is kept because of that.
\<close>

locale mutex_program = invariant_program +
  fixes owner :: "'b \<Rightarrow> 'a option" and holds :: "'a \<Rightarrow> 'b \<Rightarrow> bool" and data :: "'b \<Rightarrow> bool"
  assumes owner_init: "owner init = None" and holds_init: "\<not> holds t init" and data_init: "data init"
    and owner_step: "inv s \<Longrightarrow> \<forall>u. owner s = Some u \<longleftrightarrow> holds u s \<Longrightarrow> prog t s = Step s' \<Longrightarrow> owner s' = Some u \<longleftrightarrow> holds u s'"
    and data_step: "inv s \<Longrightarrow> \<forall>u. owner s = Some u \<longleftrightarrow> holds u s \<Longrightarrow> data s \<Longrightarrow> prog t s = Step s' \<Longrightarrow> data s'"
begin

lemma owner_holds: "reach prog init s \<Longrightarrow> owner s = Some u \<longleftrightarrow> holds u s"
proof (induction arbitrary: u rule: reach.induct)
  case reach_start
  show ?case by (simp add: owner_init holds_init)
next
  case (reach_step s t s')
  then show ?case using owner_step[OF reach_inv[OF reach_step(1)]] by blast
qed

lemma mutual_exclusion: "reach prog init s \<Longrightarrow> holds t s \<Longrightarrow> holds u s \<Longrightarrow> t = u"
  using owner_holds by (metis option.inject)

lemma reach_data: "reach prog init s \<Longrightarrow> data s"
proof (induction rule: reach.induct)
  case (reach_step s t s')
  then show ?case using data_step[OF reach_inv[OF reach_step(1)]] owner_holds[OF reach_step(1)] by blast
qed (rule data_init)

end

end
