(* ===== verification/MutexDemo.thy ===== *)
theory MutexDemo
  imports Threads
begin

section \<open>Two threads and a counter (05Pthread/04test_mutex.c)\<close>

text \<open>
  Each of the two threads adds 1 to the global counter ten times, under a mutex; the first with a pause between
  reading and writing it, the second printing what it wrote. \<open>main\<close> creates them, waits for both and destroys the
  mutex. A thread is its place in the function, its loop counter and its copy of the global; an increment is a read, an
  addition and a write, so that a switch can happen between them. When \<open>main\<close> returns, or ends the process
  because a thread could not be created, the threads end too.
\<close>

datatype demo_tid = Main | T1 | T2

datatype demo_pc = D_Unborn | D_For | D_Lock | D_Load | D_Incr | D_Store | D_Print | D_Unlock | D_Exited

datatype demo_main_pc = M_Create1 | M_Create2 | M_Join1 | M_Join2 | M_Destroy | M_Return | M_Exit

record demo_thr =
  thr_pc :: demo_pc
  thr_i :: nat
  thr_t :: csize

record demo =
  mutex :: "demo_tid option"
  i_gloabl_n :: csize
  thr1 :: demo_thr
  thr2 :: demo_thr
  main_pc :: demo_main_pc
  main_arg :: int
  lines :: "csize list"

definition thr_demo :: "demo \<Rightarrow> demo turn" where
  "thr_demo s = (let d = thr1 s in case thr_pc d of
     D_For \<Rightarrow> Step (s\<lparr>thr1 := d\<lparr>thr_pc := (if thr_i d < 10 then D_Lock else D_Exited)\<rparr>\<rparr>)
   | D_Lock \<Rightarrow> mutex_lock T1 (mutex s) (\<lambda>m. s\<lparr>mutex := m, thr1 := d\<lparr>thr_pc := D_Load\<rparr>\<rparr>)
   | D_Load \<Rightarrow> Step (s\<lparr>thr1 := d\<lparr>thr_pc := D_Incr, thr_t := i_gloabl_n s\<rparr>\<rparr>)
   | D_Incr \<Rightarrow> Step (s\<lparr>thr1 := d\<lparr>thr_pc := D_Store, thr_t := thr_t d + 1\<rparr>\<rparr>)
   | D_Store \<Rightarrow> Step (s\<lparr>i_gloabl_n := thr_t d, thr1 := d\<lparr>thr_pc := D_Unlock\<rparr>\<rparr>)
   | D_Unlock \<Rightarrow> mutex_unlock T1 (mutex s) (\<lambda>m. s\<lparr>mutex := m, thr1 := d\<lparr>thr_pc := D_For, thr_i := thr_i d + 1\<rparr>\<rparr>)
   | D_Exited \<Rightarrow> Ends
   | _ \<Rightarrow> Waits)"

definition thr_demo2 :: "demo \<Rightarrow> demo turn" where
  "thr_demo2 s = (let d = thr2 s in case thr_pc d of
     D_For \<Rightarrow> Step (s\<lparr>thr2 := d\<lparr>thr_pc := (if thr_i d < 10 then D_Lock else D_Exited)\<rparr>\<rparr>)
   | D_Lock \<Rightarrow> mutex_lock T2 (mutex s) (\<lambda>m. s\<lparr>mutex := m, thr2 := d\<lparr>thr_pc := D_Load\<rparr>\<rparr>)
   | D_Load \<Rightarrow> Step (s\<lparr>thr2 := d\<lparr>thr_pc := D_Incr, thr_t := i_gloabl_n s\<rparr>\<rparr>)
   | D_Incr \<Rightarrow> Step (s\<lparr>thr2 := d\<lparr>thr_pc := D_Store, thr_t := thr_t d + 1\<rparr>\<rparr>)
   | D_Store \<Rightarrow> Step (s\<lparr>i_gloabl_n := thr_t d, thr2 := d\<lparr>thr_pc := D_Print\<rparr>\<rparr>)
   | D_Print \<Rightarrow> Step (s\<lparr>thr2 := d\<lparr>thr_pc := D_Unlock\<rparr>, lines := lines s @ [thr_t d]\<rparr>)
   | D_Unlock \<Rightarrow> mutex_unlock T2 (mutex s) (\<lambda>m. s\<lparr>mutex := m, thr2 := d\<lparr>thr_pc := D_For, thr_i := thr_i d + 1\<rparr>\<rparr>)
   | D_Exited \<Rightarrow> Ends
   | _ \<Rightarrow> Waits)"

text \<open>
  \<open>created\<close> says which calls of \<open>pthread_create\<close> succeed. \<open>pthread_join\<close> stores the eight bytes of a pointer into
  the four of \<open>arg\<close>; the model keeps the low ones.
\<close>

definition demo_main :: "(demo_tid \<Rightarrow> bool) \<Rightarrow> demo \<Rightarrow> demo turn" where
  "demo_main created s = (case main_pc s of
     M_Create1 \<Rightarrow> (if created T1 then Step (s\<lparr>thr1 := (thr1 s)\<lparr>thr_pc := D_For\<rparr>, main_pc := M_Create2\<rparr>)
       else Step (s\<lparr>main_pc := M_Exit\<rparr>))
   | M_Create2 \<Rightarrow> (if created T2 then Step (s\<lparr>thr2 := (thr2 s)\<lparr>thr_pc := D_For\<rparr>, main_pc := M_Join1\<rparr>)
       else Step (s\<lparr>main_pc := M_Exit\<rparr>))
   | M_Join1 \<Rightarrow> (if thr_pc (thr1 s) = D_Exited then Step (s\<lparr>main_pc := M_Join2, main_arg := 0\<rparr>) else Waits)
   | M_Join2 \<Rightarrow> (if thr_pc (thr2 s) = D_Exited then Step (s\<lparr>main_pc := M_Destroy, main_arg := 10\<rparr>) else Waits)
   | M_Destroy \<Rightarrow> (if mutex s = None then Step (s\<lparr>main_pc := M_Return\<rparr>) else Faults)
   | _ \<Rightarrow> Ends)"

definition demo_prog :: "(demo_tid \<Rightarrow> bool) \<Rightarrow> (demo_tid, demo) program" where
  "demo_prog created t s = (if main_pc s \<in> {M_Return, M_Exit} then Ends
     else case t of Main \<Rightarrow> demo_main created s | T1 \<Rightarrow> thr_demo s | T2 \<Rightarrow> thr_demo2 s)"

definition demo_init :: demo where
  "demo_init = \<lparr>mutex = None, i_gloabl_n = 0, thr1 = \<lparr>thr_pc = D_Unborn, thr_i = 0, thr_t = 0\<rparr>,
     thr2 = \<lparr>thr_pc = D_Unborn, thr_i = 0, thr_t = 0\<rparr>, main_pc = M_Create1, main_arg = 20, lines = []\<rparr>"

lemmas demo_defs = demo_prog_def demo_main_def thr_demo_def thr_demo2_def Let_def

subsection \<open>The mutex\<close>

definition demo_holds :: "demo_tid \<Rightarrow> demo \<Rightarrow> bool" where
  "demo_holds t s = (case t of Main \<Rightarrow> False
   | T1 \<Rightarrow> thr_pc (thr1 s) \<in> {D_Load, D_Incr, D_Store, D_Print, D_Unlock}
   | T2 \<Rightarrow> thr_pc (thr2 s) \<in> {D_Load, D_Incr, D_Store, D_Print, D_Unlock})"

text \<open>Case analysis over a step.\<close>

lemma demo_step_cases [consumes 1, case_names main t1 t2]:
  assumes "demo_prog created t s = Step s'"
  obtains "t = Main" "main_pc s \<notin> {M_Return, M_Exit}" "demo_main created s = Step s'"
    | "t = T1" "main_pc s \<notin> {M_Return, M_Exit}" "thr_demo s = Step s'"
    | "t = T2" "main_pc s \<notin> {M_Return, M_Exit}" "thr_demo2 s = Step s'"
  using assms by (auto simp: demo_prog_def split: if_splits demo_tid.splits)

lemmas demo_main_simps = demo_main_def mutex_lock_Step mutex_unlock_Step
lemmas thr_demo_simps = thr_demo_def Let_def mutex_lock_Step mutex_unlock_Step
lemmas thr_demo2_simps = thr_demo2_def Let_def mutex_lock_Step mutex_unlock_Step

text \<open>The control flow: the loop counter at each place, and how far \<open>main\<close> lets the threads be.\<close>

fun pc_ok :: "demo_pc \<Rightarrow> nat \<Rightarrow> bool" where
  "pc_ok D_Unborn i = (i = 0)"
| "pc_ok D_For i = (i \<le> 10)"
| "pc_ok D_Exited i = (i = 10)"
| "pc_ok _ i = (i < 10)"

definition demo_ctl :: "demo \<Rightarrow> bool" where
  "demo_ctl s \<longleftrightarrow> pc_ok (thr_pc (thr1 s)) (thr_i (thr1 s)) \<and> pc_ok (thr_pc (thr2 s)) (thr_i (thr2 s)) \<and> thr_pc (thr1 s) \<noteq> D_Print
     \<and> (thr_pc (thr1 s) = D_Unborn \<longleftrightarrow> main_pc s = M_Create1 \<or> main_pc s = M_Exit \<and> thr_pc (thr1 s) = D_Unborn)
     \<and> (thr_pc (thr2 s) = D_Unborn \<longleftrightarrow> main_pc s \<in> {M_Create1, M_Create2, M_Exit})
     \<and> (main_pc s \<in> {M_Join2, M_Destroy, M_Return} \<longrightarrow> thr_pc (thr1 s) = D_Exited)
     \<and> (main_pc s \<in> {M_Destroy, M_Return} \<longrightarrow> thr_pc (thr2 s) = D_Exited \<and> main_arg s = 10)"

lemma thr_demo_ctl:
  assumes "thr_demo s = Step s'" and "demo_ctl s" and "main_pc s \<notin> {M_Return, M_Exit}"
  shows "demo_ctl s'"
  using assms by (cases "thr_pc (thr1 s)"; cases "main_pc s") (auto simp: thr_demo_simps demo_ctl_def split: if_splits)

lemma thr_demo2_ctl:
  assumes "thr_demo2 s = Step s'" and "demo_ctl s" and "main_pc s \<notin> {M_Return, M_Exit}"
  shows "demo_ctl s'"
  using assms by (cases "thr_pc (thr2 s)"; cases "main_pc s") (auto simp: thr_demo2_simps demo_ctl_def split: if_splits)

lemma demo_main_ctl:
  assumes "demo_main created s = Step s'" and "demo_ctl s"
  shows "demo_ctl s'"
  using assms by (cases "main_pc s") (auto simp: demo_main_simps demo_ctl_def split: if_splits)

lemma demo_ctl_step:
  assumes "demo_ctl s" and "demo_prog created t s = Step s'"
  shows "demo_ctl s'"
  using assms(2) by (cases rule: demo_step_cases) (use assms(1) thr_demo_ctl thr_demo2_ctl demo_main_ctl in blast)+

lemma demo_ctl_init: "demo_ctl demo_init"
  by (simp add: demo_ctl_def demo_init_def)

text \<open>The owner of the mutex.\<close>

lemma thr_demo_mutex:
  assumes "thr_demo s = Step s'" and "\<forall>u. mutex s = Some u \<longleftrightarrow> demo_holds u s"
  shows "mutex s' = Some u \<longleftrightarrow> demo_holds u s'"
  using assms(1) spec[OF assms(2), of T1] spec[OF assms(2), of u]
  by (cases "thr_pc (thr1 s)"; cases u) (auto simp: thr_demo_simps demo_holds_def split: if_splits)

lemma thr_demo2_mutex:
  assumes "thr_demo2 s = Step s'" and "\<forall>u. mutex s = Some u \<longleftrightarrow> demo_holds u s"
  shows "mutex s' = Some u \<longleftrightarrow> demo_holds u s'"
  using assms(1) spec[OF assms(2), of T2] spec[OF assms(2), of u]
  by (cases "thr_pc (thr2 s)"; cases u) (auto simp: thr_demo2_simps demo_holds_def split: if_splits)

lemma demo_main_mutex:
  assumes "demo_main created s = Step s'" and "demo_ctl s" and "\<forall>u. mutex s = Some u \<longleftrightarrow> demo_holds u s"
  shows "mutex s' = Some u \<longleftrightarrow> demo_holds u s'"
  using assms(1,2) spec[OF assms(3), of u]
  by (cases "main_pc s"; cases u) (auto simp: demo_main_simps demo_holds_def demo_ctl_def split: if_splits)

lemma demo_owner_step:
  assumes "demo_ctl s" and "\<forall>u. mutex s = Some u \<longleftrightarrow> demo_holds u s" and "demo_prog created t s = Step s'"
  shows "mutex s' = Some u \<longleftrightarrow> demo_holds u s'"
  using assms(3) by (cases rule: demo_step_cases) (use assms(1,2) thr_demo_mutex thr_demo2_mutex demo_main_mutex in blast)+

subsection \<open>The counter\<close>

text \<open>
  \<open>done d\<close>: the increments a thread has stored. The counter is their sum; in the critical section the copy of the
  thread is up to date; the lines printed are increasing.
\<close>

definition stored :: "demo_thr \<Rightarrow> nat" where
  "stored d = thr_i d + (if thr_pc d \<in> {D_Print, D_Unlock} then 1 else 0)"

definition copy_ok :: "demo_thr \<Rightarrow> csize \<Rightarrow> bool" where
  "copy_ok d n \<longleftrightarrow> (thr_pc d = D_Incr \<longrightarrow> thr_t d = n) \<and> (thr_pc d = D_Store \<longrightarrow> thr_t d = n + 1)
     \<and> (thr_pc d = D_Print \<longrightarrow> thr_t d = n)"

definition lines_ok :: "demo \<Rightarrow> bool" where
  "lines_ok s \<longleftrightarrow> sorted_wrt (<) (map unat (lines s))
     \<and> (\<forall>x \<in> set (lines s). unat x < stored (thr1 s) + stored (thr2 s) + (if thr_pc (thr2 s) = D_Print then 0 else 1))
     \<and> length (lines s) = thr_i (thr2 s) + (if thr_pc (thr2 s) = D_Unlock then 1 else 0)"

definition demo_data :: "demo \<Rightarrow> bool" where
  "demo_data s \<longleftrightarrow> i_gloabl_n s = of_nat (stored (thr1 s) + stored (thr2 s))
     \<and> copy_ok (thr1 s) (i_gloabl_n s) \<and> copy_ok (thr2 s) (i_gloabl_n s) \<and> lines_ok s"

lemma demo_data_init: "demo_data demo_init"
  by (simp add: demo_data_def demo_init_def stored_def copy_ok_def lines_ok_def)

lemma stored_bound: "pc_ok (thr_pc d) (thr_i d) \<Longrightarrow> stored d \<le> 10"
  by (cases "thr_pc d") (auto simp: stored_def)

text \<open>A step outside the critical write: the same sum, the same lines.\<close>

lemma demo_data_same:
  assumes "demo_data s" and "i_gloabl_n s' = i_gloabl_n s" and "lines s' = lines s"
    and "stored (thr1 s') = stored (thr1 s)" and "stored (thr2 s') = stored (thr2 s)"
    and "copy_ok (thr1 s') (i_gloabl_n s)" and "copy_ok (thr2 s') (i_gloabl_n s)"
    and "thr_pc (thr2 s') = D_Print \<longleftrightarrow> thr_pc (thr2 s) = D_Print"
    and "thr_i (thr2 s') + (if thr_pc (thr2 s') = D_Unlock then 1 else 0) = thr_i (thr2 s) + (if thr_pc (thr2 s) = D_Unlock then 1 else 0)"
  shows "demo_data s'"
  using assms(1) unfolding demo_data_def lines_ok_def assms(2-5,8,9) using assms(6,7) by blast

lemma copy_idle: "thr_pc d \<notin> {D_Incr, D_Store, D_Print} \<Longrightarrow> copy_ok d n"
  by (simp add: copy_ok_def)

text \<open>The write itself, by the thread that has the mutex: the other one has no copy of the counter.\<close>

lemma other_idle:
  assumes "\<forall>u. mutex s = Some u \<longleftrightarrow> demo_holds u s"
  shows "demo_holds T1 s \<Longrightarrow> copy_ok (thr2 s) n" and "demo_holds T1 s \<Longrightarrow> thr_pc (thr2 s) \<noteq> D_Print"
    and "demo_holds T2 s \<Longrightarrow> copy_ok (thr1 s) n"
  using spec[OF assms, of T1] spec[OF assms, of T2] by (auto simp: demo_holds_def intro!: copy_idle)

lemma thr_demo_data:
  assumes st: "thr_demo s = Step s'" and own: "\<forall>u. mutex s = Some u \<longleftrightarrow> demo_holds u s" and dat: "demo_data s"
  shows "demo_data s'"
proof -
  have g: "i_gloabl_n s = of_nat (stored (thr1 s) + stored (thr2 s))" "lines_ok s"
    and c: "copy_ok (thr1 s) (i_gloabl_n s)" "copy_ok (thr2 s) (i_gloabl_n s)"
    using dat unfolding demo_data_def by blast+
  show ?thesis
  proof (cases "thr_pc (thr1 s) = D_Store")
    case True
    have t2: "copy_ok (thr2 s) n" "thr_pc (thr2 s) \<noteq> D_Print" for n
      using other_idle[OF own] True by (simp_all add: demo_holds_def)
    have s': "s' = s\<lparr>i_gloabl_n := thr_t (thr1 s), thr1 := (thr1 s)\<lparr>thr_pc := D_Unlock\<rparr>\<rparr>"
      using st True by (simp add: thr_demo_simps)
    have n: "stored (thr1 s') = Suc (stored (thr1 s))" "thr2 s' = thr2 s" "lines s' = lines s" "i_gloabl_n s' = i_gloabl_n s + 1"
      using True c(1) by (simp_all add: s' stored_def copy_ok_def)
    have "copy_ok (thr1 s') x" for x by (rule copy_idle) (simp add: s')
    then show ?thesis
      using g t2 unfolding demo_data_def lines_ok_def n by (auto simp: less_SucI)
  next
    case False
    show ?thesis
      by (rule demo_data_same[OF dat]; cases "thr_pc (thr1 s)")
        (use st False c in \<open>auto simp: thr_demo_simps stored_def copy_ok_def split: if_splits\<close>)
  qed
qed

lemma unat_small: "n \<le> 20 \<Longrightarrow> unat (of_nat n :: csize) = n"
  by (simp add: unsigned_of_nat take_bit_nat_eq_self)

lemma thr_demo2_data:
  assumes st: "thr_demo2 s = Step s'" and ctl: "demo_ctl s" and own: "\<forall>u. mutex s = Some u \<longleftrightarrow> demo_holds u s" and dat: "demo_data s"
  shows "demo_data s'"
proof -
  have g: "i_gloabl_n s = of_nat (stored (thr1 s) + stored (thr2 s))" "lines_ok s"
    and c: "copy_ok (thr1 s) (i_gloabl_n s)" "copy_ok (thr2 s) (i_gloabl_n s)"
    using dat unfolding demo_data_def by blast+
  have t1: "copy_ok (thr1 s) n" if "thr_pc (thr2 s) = D_Store" for n
    using other_idle(3)[OF own] that by (simp add: demo_holds_def)
  consider "thr_pc (thr2 s) = D_Store" | "thr_pc (thr2 s) = D_Print" | "thr_pc (thr2 s) \<notin> {D_Store, D_Print}" by blast
  then show ?thesis
  proof cases
    case 1
    have s': "s' = s\<lparr>i_gloabl_n := thr_t (thr2 s), thr2 := (thr2 s)\<lparr>thr_pc := D_Print\<rparr>\<rparr>"
      using st 1 by (simp add: thr_demo2_simps)
    have n: "stored (thr2 s') = Suc (stored (thr2 s))" "thr1 s' = thr1 s" "lines s' = lines s" "i_gloabl_n s' = i_gloabl_n s + 1"
        "thr_pc (thr2 s') = D_Print" "thr_i (thr2 s') = thr_i (thr2 s)"
      using 1 c(2) by (simp_all add: s' stored_def copy_ok_def)
    have "copy_ok (thr2 s') (i_gloabl_n s + 1)" using c(2) 1 by (simp add: s' copy_ok_def)
    then show ?thesis using g t1[OF 1] 1 unfolding demo_data_def lines_ok_def n by auto
  next
    case 2
    have s': "s' = s\<lparr>thr2 := (thr2 s)\<lparr>thr_pc := D_Unlock\<rparr>, lines := lines s @ [thr_t (thr2 s)]\<rparr>"
      using st 2 by (simp add: thr_demo2_simps)
    have n: "stored (thr2 s') = stored (thr2 s)" "thr1 s' = thr1 s" "lines s' = lines s @ [i_gloabl_n s]" "i_gloabl_n s' = i_gloabl_n s"
        "thr_pc (thr2 s') = D_Unlock" "thr_i (thr2 s') = thr_i (thr2 s)"
      using 2 c(2) by (simp_all add: s' stored_def copy_ok_def)
    have "stored (thr1 s) + stored (thr2 s) \<le> 20"
      using ctl stored_bound[of "thr1 s"] stored_bound[of "thr2 s"] by (auto simp: demo_ctl_def)
    then have u: "unat (i_gloabl_n s) = stored (thr1 s) + stored (thr2 s)" unfolding g(1) by (rule unat_small)
    have "copy_ok (thr2 s') x" for x by (rule copy_idle) (simp add: n)
    then show ?thesis
      using g c(1) 2 u unfolding demo_data_def lines_ok_def n by (auto simp: sorted_wrt_append less_SucI)
  next
    case 3
    show ?thesis
      by (rule demo_data_same[OF dat]; cases "thr_pc (thr2 s)")
        (use st 3 c in \<open>auto simp: thr_demo2_simps stored_def copy_ok_def split: if_splits\<close>)
  qed
qed

lemma born_same:
  assumes "d' = d \<or> thr_pc d = D_Unborn \<and> d' = d\<lparr>thr_pc := D_For\<rparr>"
  shows "stored d' = stored d" and "copy_ok d' n = copy_ok d n" and "thr_pc d' = D_Print \<longleftrightarrow> thr_pc d = D_Print"
    and "thr_i d' + (if thr_pc d' = D_Unlock then 1 else 0) = thr_i d + (if thr_pc d = D_Unlock then 1 else 0)"
  using assms by (auto simp: stored_def copy_ok_def)

lemma demo_main_data:
  assumes st: "demo_main created s = Step s'" and ctl: "demo_ctl s" and dat: "demo_data s"
  shows "demo_data s'"
proof -
  have c: "copy_ok (thr1 s) (i_gloabl_n s)" "copy_ok (thr2 s) (i_gloabl_n s)"
    using dat unfolding demo_data_def by blast+
  have u: "main_pc s = M_Create1 \<longrightarrow> thr_pc (thr1 s) = D_Unborn" "main_pc s = M_Create2 \<longrightarrow> thr_pc (thr2 s) = D_Unborn"
    using ctl by (auto simp: demo_ctl_def)
  have e: "i_gloabl_n s' = i_gloabl_n s" "lines s' = lines s"
    "thr1 s' = thr1 s \<or> thr_pc (thr1 s) = D_Unborn \<and> thr1 s' = (thr1 s)\<lparr>thr_pc := D_For\<rparr>"
    "thr2 s' = thr2 s \<or> thr_pc (thr2 s) = D_Unborn \<and> thr2 s' = (thr2 s)\<lparr>thr_pc := D_For\<rparr>"
    using st u by (cases "main_pc s"; auto simp: demo_main_simps split: if_splits)+
  note b1 = born_same[OF e(3)] and b2 = born_same[OF e(4)]
  show ?thesis
    by (rule demo_data_same[OF dat e(1,2) b1(1) b2(1) _ _ b2(3,4)]) (use c b1(2) b2(2) in blast)+
qed

lemma demo_data_step:
  assumes "demo_ctl s" and "\<forall>u. mutex s = Some u \<longleftrightarrow> demo_holds u s" and "demo_data s" and "demo_prog created t s = Step s'"
  shows "demo_data s'"
  using assms(4) by (cases rule: demo_step_cases) (use assms(1-3) thr_demo_data thr_demo2_data demo_main_data in blast)+

interpretation demo: mutex_program "demo_prog created" demo_init demo_ctl mutex demo_holds demo_data for created
proof unfold_locales
  show "\<not> demo_holds t demo_init" for t by (cases t) (simp_all add: demo_init_def demo_holds_def)
qed (fact demo_ctl_init demo_data_init | erule (1) demo_ctl_step | erule (2) demo_owner_step | erule (3) demo_data_step
    | simp add: demo_init_def)+

subsection \<open>Termination\<close>

text \<open>Every step comes closer to the end: the rounds left, the place in the round, and the calls \<open>main\<close> has left.\<close>

fun pc_weight :: "demo_pc \<Rightarrow> nat \<Rightarrow> nat" where
  "pc_weight D_Unborn i = 72"
| "pc_weight D_For i = 7 * (10 - i) + 1"
| "pc_weight D_Lock i = 7 * (10 - i)"
| "pc_weight D_Load i = 7 * (10 - i) - 1"
| "pc_weight D_Incr i = 7 * (10 - i) - 2"
| "pc_weight D_Store i = 7 * (10 - i) - 3"
| "pc_weight D_Print i = 7 * (10 - i) - 4"
| "pc_weight D_Unlock i = 7 * (10 - i) - 5"
| "pc_weight D_Exited i = 0"

fun main_weight :: "demo_main_pc \<Rightarrow> nat" where
  "main_weight M_Create1 = 5"
| "main_weight M_Create2 = 4"
| "main_weight M_Join1 = 3"
| "main_weight M_Join2 = 2"
| "main_weight M_Destroy = 1"
| "main_weight M_Return = 0"
| "main_weight M_Exit = 0"

definition demo_weight :: "demo \<Rightarrow> nat" where
  "demo_weight s = pc_weight (thr_pc (thr1 s)) (thr_i (thr1 s)) + pc_weight (thr_pc (thr2 s)) (thr_i (thr2 s))
     + main_weight (main_pc s)"

lemma thr_demo_weight:
  assumes "thr_demo s = Step s'" and "demo_ctl s"
  shows "demo_weight s' < demo_weight s"
proof -
  have "pc_ok (thr_pc (thr1 s)) (thr_i (thr1 s))" using assms(2) by (simp add: demo_ctl_def)
  then have "pc_weight (thr_pc (thr1 s')) (thr_i (thr1 s')) < pc_weight (thr_pc (thr1 s)) (thr_i (thr1 s))"
      "thr2 s' = thr2 s" "main_pc s' = main_pc s"
    using assms(1) by (cases "thr_pc (thr1 s)"; auto simp: thr_demo_simps)+
  then show ?thesis by (simp add: demo_weight_def)
qed

lemma thr_demo2_weight:
  assumes "thr_demo2 s = Step s'" and "demo_ctl s"
  shows "demo_weight s' < demo_weight s"
proof -
  have "pc_ok (thr_pc (thr2 s)) (thr_i (thr2 s))" using assms(2) by (simp add: demo_ctl_def)
  then have "pc_weight (thr_pc (thr2 s')) (thr_i (thr2 s')) < pc_weight (thr_pc (thr2 s)) (thr_i (thr2 s))"
      "thr1 s' = thr1 s" "main_pc s' = main_pc s"
    using assms(1) by (cases "thr_pc (thr2 s)"; auto simp: thr_demo2_simps)+
  then show ?thesis by (simp add: demo_weight_def)
qed

lemma demo_main_weight:
  assumes "demo_main created s = Step s'" and "demo_ctl s"
  shows "demo_weight s' < demo_weight s"
proof -
  have "main_pc s = M_Create1 \<longrightarrow> thr_pc (thr1 s) = D_Unborn" "main_pc s = M_Create2 \<longrightarrow> thr_pc (thr2 s) = D_Unborn"
    using assms(2) by (auto simp: demo_ctl_def)
  then show ?thesis
    using assms(1) by (cases "main_pc s") (auto simp: demo_main_simps demo_weight_def split: if_splits)
qed

lemma demo_weight_step:
  assumes "demo_ctl s" and "demo_prog created t s = Step s'"
  shows "demo_weight s' < demo_weight s"
  using assms(2) by (cases rule: demo_step_cases) (use assms(1) thr_demo_weight thr_demo2_weight demo_main_weight in blast)+

interpretation demo_end: terminating_program "demo_prog created" demo_init demo_ctl demo_weight for created
  by unfold_locales (rule demo_weight_step)

text \<open>
  No deadlock: a thread that waits for the mutex waits for one that can go on, and \<open>main\<close> waits for a thread that
  has not ended. Nothing undefined happens.
\<close>

lemma thr_waits:
  assumes "thr_pc (thr1 s) \<noteq> D_Unborn" and "thr_pc (thr1 s) \<noteq> D_Exited" and "thr_pc (thr1 s) \<noteq> D_Print"
    and "mutex s = Some T1 \<longleftrightarrow> demo_holds T1 s" and "\<forall>s'. thr_demo s \<noteq> Step s'"
  shows "mutex s \<noteq> None \<and> mutex s \<noteq> Some T1"
  using assms by (cases "thr_pc (thr1 s)") (auto simp: thr_demo_def Let_def mutex_lock_def mutex_unlock_def demo_holds_def split: option.splits)

lemma thr2_waits:
  assumes "thr_pc (thr2 s) \<noteq> D_Unborn" and "thr_pc (thr2 s) \<noteq> D_Exited"
    and "mutex s = Some T2 \<longleftrightarrow> demo_holds T2 s" and "\<forall>s'. thr_demo2 s \<noteq> Step s'"
  shows "mutex s \<noteq> None \<and> mutex s \<noteq> Some T2"
  using assms by (cases "thr_pc (thr2 s)") (auto simp: thr_demo2_def Let_def mutex_lock_def mutex_unlock_def demo_holds_def split: option.splits)

lemma demo_free:
  assumes "\<And>u. mutex s = Some u \<longleftrightarrow> demo_holds u s" and "\<not> demo_holds T1 s" and "\<not> demo_holds T2 s"
  shows "mutex s = None"
proof (cases "mutex s")
  case (Some u)
  then have "demo_holds u s" using assms(1) by simp
  then show ?thesis using assms(2,3) by (cases u) (simp_all add: demo_holds_def)
qed

lemma demo_no_deadlock:
  assumes r: "reach (demo_prog created) demo_init s" and st: "stuck (demo_prog created) s"
  shows "main_pc s \<in> {M_Return, M_Exit}"
proof (rule ccontr)
  assume n: "main_pc s \<notin> {M_Return, M_Exit}"
  note own = demo.owner_holds[OF r] and ctl = demo.reach_inv[OF r]
  have nx: "\<forall>s'. thr_demo s \<noteq> Step s'" "\<forall>s'. thr_demo2 s \<noteq> Step s'" "\<forall>s'. demo_main created s \<noteq> Step s'"
    using st n by (auto simp: stuck_def demo_prog_def dest: spec[of _ T1] spec[of _ T2] spec[of _ Main])
  have nm: "mutex s \<noteq> Some Main" using own[of Main] by (simp add: demo_holds_def)
  have w1: "thr_pc (thr1 s) \<in> {D_Unborn, D_Exited} \<or> mutex s = Some T2"
    using thr_waits[OF _ _ _ own nx(1)] ctl nm by (cases "mutex s") (auto simp: demo_ctl_def intro: demo_tid.exhaust)
  have w2: "thr_pc (thr2 s) \<in> {D_Unborn, D_Exited} \<or> mutex s = Some T1"
    using thr2_waits[OF _ _ own nx(2)] nm by (cases "mutex s") (auto intro: demo_tid.exhaust)
  have h: "demo_holds T1 s \<Longrightarrow> thr_pc (thr1 s) \<notin> {D_Unborn, D_Exited}" "demo_holds T2 s \<Longrightarrow> thr_pc (thr2 s) \<notin> {D_Unborn, D_Exited}"
    by (auto simp: demo_holds_def)
  have "mutex s \<noteq> Some T1" "mutex s \<noteq> Some T2" using w1 w2 h own by (metis demo_tid.distinct(5) option.inject)+
  then have ex: "thr_pc (thr1 s) \<in> {D_Unborn, D_Exited}" "thr_pc (thr2 s) \<in> {D_Unborn, D_Exited}" using w1 w2 by blast+
  have "mutex s = None" by (rule demo_free[OF own]) (use ex in \<open>auto simp: demo_holds_def\<close>)
  with ex show False using nx(3) n ctl by (cases "main_pc s") (auto simp: demo_main_def demo_ctl_def split: if_splits)
qed

lemma demo_no_fault:
  assumes r: "reach (demo_prog created) demo_init s"
  shows "demo_prog created t s \<noteq> Faults"
proof -
  note own = demo.owner_holds[OF r] and ctl = demo.reach_inv[OF r]
  have "main_pc s = M_Destroy \<Longrightarrow> mutex s = None"
    by (rule demo_free[OF own]) (use ctl in \<open>auto simp: demo_ctl_def demo_holds_def\<close>)
  then have "demo_main created s \<noteq> Faults" by (cases "main_pc s") (auto simp: demo_main_def)
  moreover have "thr_demo s \<noteq> Faults" using own[of T1]
    by (cases "thr_pc (thr1 s)") (auto simp: thr_demo_def Let_def mutex_lock_def mutex_unlock_def demo_holds_def split: option.splits)
  moreover have "thr_demo2 s \<noteq> Faults" using own[of T2]
    by (cases "thr_pc (thr2 s)") (auto simp: thr_demo2_def Let_def mutex_lock_def mutex_unlock_def demo_holds_def split: option.splits)
  ultimately show ?thesis by (cases t) (simp_all add: demo_prog_def)
qed

text \<open>What \<open>main\<close> returns with.\<close>

lemma demo_result:
  assumes r: "reach (demo_prog created) demo_init s" and m: "main_pc s = M_Return"
  shows "i_gloabl_n s = 20 \<and> main_arg s = 10 \<and> length (lines s) = 10 \<and> sorted_wrt (<) (map unat (lines s))
    \<and> (\<forall>x \<in> set (lines s). unat x \<le> 20)"
proof -
  have c: "thr_pc (thr1 s) = D_Exited" "thr_i (thr1 s) = 10" "thr_pc (thr2 s) = D_Exited" "thr_i (thr2 s) = 10" "main_arg s = 10"
    using demo.reach_inv[OF r] m by (auto simp: demo_ctl_def)
  then have n: "stored (thr1 s) = 10" "stored (thr2 s) = 10" by (simp_all add: stored_def)
  have d: "i_gloabl_n s = of_nat (stored (thr1 s) + stored (thr2 s))" "lines_ok s"
    using demo.reach_data[OF r] by (simp_all add: demo_data_def)
  then show ?thesis using c n unfolding lines_ok_def by (auto simp: less_Suc_eq_le)
qed

end
