(* ===== verification/ProCon.thy ===== *)
theory ProCon
  imports Threads
begin

section \<open>A producer and a consumer (05Pthread/06test_pro_con.c)\<close>

text \<open>
  The producer adds 1 to \<open>data\<close> a hundred times and signals the condition each time; the consumer, a hundred times,
  waits until there is something and takes all of it. Both use one mutex. \<open>pthread_cond_wait\<close> gives the mutex back
  and sleeps until a signal, or a spurious wake-up, and then takes the mutex again; a signal without a waiting thread is
  lost. The semaphores of the file are initialised and destroyed but never used.

  A read and a write of \<open>data\<close> are steps of their own; \<open>pro_t\<close> and \<open>con_t\<close> hold the value between them.
\<close>

datatype pc_tid = Main_thr | Producer | Consumer | Wakeup

datatype pro_pc = P_Unborn | P_For | P_Lock | P_Load | P_Store | P_Unlock | P_Signal | P_Exited

datatype con_pc = C_Unborn | C_For | C_Lock | C_Test | C_Wait | C_Relock | C_While | C_Load | C_Store | C_Unlock | C_Exited

datatype pc_main_pc = PM_Create1 | PM_Create2 | PM_Join1 | PM_Join2 | PM_Destroy | PM_JoinErr | PM_DestroyErr | PM_Returned int

record procon =
  pc_mutex :: "pc_tid option"
  pc_data :: int
  pro_pc :: pro_pc
  pro_i :: int
  pro_t :: int
  con_pc :: con_pc
  con_i :: int
  con_t :: int
  pc_main :: pc_main_pc

definition DATA_MAX :: int where "DATA_MAX = 5"
definition PRO_INIT_VAL :: int where "PRO_INIT_VAL = DATA_MAX div 2"
definition CON_INIT_VAL :: int where "CON_INIT_VAL = DATA_MAX - PRO_INIT_VAL"

definition cond_signal :: "procon \<Rightarrow> procon" where
  "cond_signal s = (if con_pc s = C_Wait then s\<lparr>con_pc := C_Relock\<rparr> else s)"

definition pro_handler :: "procon \<Rightarrow> procon turn" where
  "pro_handler s = (case pro_pc s of
     P_For \<Rightarrow> Step (s\<lparr>pro_pc := (if pro_i s > 0 then P_Lock else P_Exited)\<rparr>)
   | P_Lock \<Rightarrow> mutex_lock Producer (pc_mutex s) (\<lambda>m. s\<lparr>pc_mutex := m, pro_pc := P_Load\<rparr>)
   | P_Load \<Rightarrow> Step (s\<lparr>pro_pc := P_Store, pro_t := pc_data s\<rparr>)
   | P_Store \<Rightarrow> Step (s\<lparr>pc_data := pro_t s + 1, pro_pc := P_Unlock\<rparr>)
   | P_Unlock \<Rightarrow> mutex_unlock Producer (pc_mutex s) (\<lambda>m. s\<lparr>pc_mutex := m, pro_pc := P_Signal\<rparr>)
   | P_Signal \<Rightarrow> Step ((cond_signal s)\<lparr>pro_pc := P_For, pro_i := pro_i s - 1\<rparr>)
   | P_Exited \<Rightarrow> Ends
   | P_Unborn \<Rightarrow> Waits)"

definition con_handler :: "procon \<Rightarrow> procon turn" where
  "con_handler s = (case con_pc s of
     C_For \<Rightarrow> Step (s\<lparr>con_pc := (if con_i s > 0 then C_Lock else C_Exited)\<rparr>)
   | C_Lock \<Rightarrow> mutex_lock Consumer (pc_mutex s) (\<lambda>m. s\<lparr>pc_mutex := m, con_pc := C_Test\<rparr>)
   | C_Test \<Rightarrow> (if pc_data s = 0 then mutex_unlock Consumer (pc_mutex s) (\<lambda>m. s\<lparr>pc_mutex := m, con_pc := C_Wait\<rparr>)
       else Step (s\<lparr>con_pc := C_While\<rparr>))
   | C_Wait \<Rightarrow> Waits
   | C_Relock \<Rightarrow> mutex_lock Consumer (pc_mutex s) (\<lambda>m. s\<lparr>pc_mutex := m, con_pc := C_Test\<rparr>)
   | C_While \<Rightarrow> Step (s\<lparr>con_pc := (if pc_data s > 0 then C_Load else C_Unlock)\<rparr>)
   | C_Load \<Rightarrow> Step (s\<lparr>con_pc := C_Store, con_t := pc_data s\<rparr>)
   | C_Store \<Rightarrow> Step (s\<lparr>pc_data := con_t s - 1, con_pc := C_While\<rparr>)
   | C_Unlock \<Rightarrow> mutex_unlock Consumer (pc_mutex s) (\<lambda>m. s\<lparr>pc_mutex := m, con_pc := C_For, con_i := con_i s - 1\<rparr>)
   | C_Exited \<Rightarrow> Ends
   | C_Unborn \<Rightarrow> Waits)"

text \<open>\<open>created\<close>: which \<open>pthread_create\<close> succeed. Without the consumer, \<open>main\<close> waits for the producer and returns -1.\<close>

definition pc_main_thr :: "(pc_tid \<Rightarrow> bool) \<Rightarrow> procon \<Rightarrow> procon turn" where
  "pc_main_thr created s = (case pc_main s of
     PM_Create1 \<Rightarrow> (if created Producer then Step (s\<lparr>pro_pc := P_For, pc_main := PM_Create2\<rparr>) else Step (s\<lparr>pc_main := PM_DestroyErr\<rparr>))
   | PM_Create2 \<Rightarrow> (if created Consumer then Step (s\<lparr>con_pc := C_For, pc_main := PM_Join1\<rparr>) else Step (s\<lparr>pc_main := PM_JoinErr\<rparr>))
   | PM_Join1 \<Rightarrow> (if pro_pc s = P_Exited then Step (s\<lparr>pc_main := PM_Join2\<rparr>) else Waits)
   | PM_Join2 \<Rightarrow> (if con_pc s = C_Exited then Step (s\<lparr>pc_main := PM_Destroy\<rparr>) else Waits)
   | PM_Destroy \<Rightarrow> (if pc_mutex s = None then Step (s\<lparr>pc_main := PM_Returned 0\<rparr>) else Faults)
   | PM_JoinErr \<Rightarrow> (if pro_pc s = P_Exited then Step (s\<lparr>pc_main := PM_DestroyErr\<rparr>) else Waits)
   | PM_DestroyErr \<Rightarrow> (if pc_mutex s = None then Step (s\<lparr>pc_main := PM_Returned (-1)\<rparr>) else Faults)
   | PM_Returned r \<Rightarrow> Ends)"

definition returned :: "procon \<Rightarrow> bool" where
  "returned s \<longleftrightarrow> (\<exists>r. pc_main s = PM_Returned r)"

text \<open>The thread \<open>Wakeup\<close> is the system: it may end a wait without a signal.\<close>

definition procon_prog :: "(pc_tid \<Rightarrow> bool) \<Rightarrow> (pc_tid, procon) program" where
  "procon_prog created t s = (case pc_main s of PM_Returned r \<Rightarrow> Ends | _ \<Rightarrow>
     (case t of Main_thr \<Rightarrow> pc_main_thr created s
      | Producer \<Rightarrow> pro_handler s
      | Consumer \<Rightarrow> con_handler s
      | Wakeup \<Rightarrow> (if con_pc s = C_Wait then Step (s\<lparr>con_pc := C_Relock\<rparr>) else Waits)))"

definition procon_init :: procon where
  "procon_init = \<lparr>pc_mutex = None, pc_data = CON_INIT_VAL, pro_pc = P_Unborn, pro_i = 100, pro_t = 0,
     con_pc = C_Unborn, con_i = 100, con_t = 0, pc_main = PM_Create1\<rparr>"

subsection \<open>The mutex and the data\<close>

lemma procon_step_cases [consumes 1, case_names main pro con wakeup]:
  assumes "procon_prog created t s = Step s'"
  obtains "t = Main_thr" "pc_main_thr created s = Step s'" | "t = Producer" "\<not> returned s" "pro_handler s = Step s'"
    | "t = Consumer" "\<not> returned s" "con_handler s = Step s'"
    | "t = Wakeup" "\<not> returned s" "con_pc s = C_Wait" "s' = s\<lparr>con_pc := C_Relock\<rparr>"
  using assms by (cases t) (auto simp: procon_prog_def returned_def split: pc_main_pc.splits if_splits)

lemmas pro_simps = pro_handler_def cond_signal_def mutex_lock_Step mutex_unlock_Step
lemmas con_simps = con_handler_def mutex_lock_Step mutex_unlock_Step
lemmas pc_main_simps = pc_main_thr_def

fun pro_ok :: "pro_pc \<Rightarrow> int \<Rightarrow> bool" where
  "pro_ok P_Unborn i = (i = 100)"
| "pro_ok P_For i = (0 \<le> i \<and> i \<le> 100)"
| "pro_ok P_Exited i = (i = 0)"
| "pro_ok _ i = (0 < i \<and> i \<le> 100)"

fun con_ok :: "con_pc \<Rightarrow> int \<Rightarrow> bool" where
  "con_ok C_Unborn i = (i = 100)"
| "con_ok C_For i = (0 \<le> i \<and> i \<le> 100)"
| "con_ok C_Exited i = (i = 0)"
| "con_ok _ i = (0 < i \<and> i \<le> 100)"

fun main_ok :: "pc_main_pc \<Rightarrow> pro_pc \<Rightarrow> con_pc \<Rightarrow> bool" where
  "main_ok PM_Create1 p c = (p = P_Unborn \<and> c = C_Unborn)"
| "main_ok PM_Create2 p c = (p \<noteq> P_Unborn \<and> c = C_Unborn)"
| "main_ok PM_Join1 p c = (p \<noteq> P_Unborn \<and> c \<noteq> C_Unborn)"
| "main_ok PM_Join2 p c = (p = P_Exited \<and> c \<noteq> C_Unborn)"
| "main_ok PM_Destroy p c = (p = P_Exited \<and> c = C_Exited)"
| "main_ok PM_JoinErr p c = (p \<noteq> P_Unborn \<and> c = C_Unborn)"
| "main_ok PM_DestroyErr p c = (p \<in> {P_Unborn, P_Exited} \<and> c = C_Unborn)"
| "main_ok (PM_Returned r) p c = (r = 0 \<and> p = P_Exited \<and> c = C_Exited \<or> r = -1 \<and> p \<in> {P_Unborn, P_Exited} \<and> c = C_Unborn)"

definition procon_ctl :: "procon \<Rightarrow> bool" where
  "procon_ctl s \<longleftrightarrow> pro_ok (pro_pc s) (pro_i s) \<and> con_ok (con_pc s) (con_i s) \<and> main_ok (pc_main s) (pro_pc s) (con_pc s)"

lemma main_ok_cong:
  assumes "main_ok m p c" and "p' = P_Unborn \<longleftrightarrow> p = P_Unborn" and "p = P_Exited \<longrightarrow> p' = P_Exited"
    and "c' = C_Unborn \<longleftrightarrow> c = C_Unborn" and "c = C_Exited \<longrightarrow> c' = C_Exited"
  shows "main_ok m p' c'"
  using assms by (cases m) auto

lemma pro_handler_ctl:
  assumes st: "pro_handler s = Step s'" and ctl: "procon_ctl s"
  shows "procon_ctl s'"
proof -
  have "pro_ok (pro_pc s) (pro_i s)" "con_ok (con_pc s) (con_i s)" using ctl by (simp_all add: procon_ctl_def)
  then have "pro_ok (pro_pc s') (pro_i s')" "con_ok (con_pc s') (con_i s')" "pc_main s' = pc_main s"
      "pro_pc s' = P_Unborn \<longleftrightarrow> pro_pc s = P_Unborn" "pro_pc s = P_Exited \<longrightarrow> pro_pc s' = P_Exited"
      "con_pc s' = C_Unborn \<longleftrightarrow> con_pc s = C_Unborn" "con_pc s = C_Exited \<longrightarrow> con_pc s' = C_Exited"
    using st by (cases "pro_pc s"; auto simp: pro_simps split: if_splits)+
  then show ?thesis using ctl main_ok_cong unfolding procon_ctl_def by metis
qed

lemma con_handler_ctl:
  assumes st: "con_handler s = Step s'" and ctl: "procon_ctl s"
  shows "procon_ctl s'"
proof -
  have "con_ok (con_pc s) (con_i s)" using ctl by (simp_all add: procon_ctl_def)
  then have "pro_i s' = pro_i s" "con_ok (con_pc s') (con_i s')" "pc_main s' = pc_main s" "pro_pc s' = pro_pc s"
      "con_pc s' = C_Unborn \<longleftrightarrow> con_pc s = C_Unborn" "con_pc s = C_Exited \<longrightarrow> con_pc s' = C_Exited"
    using st by (cases "con_pc s"; auto simp: con_simps split: if_splits)+
  then show ?thesis using ctl main_ok_cong unfolding procon_ctl_def by metis
qed

lemma procon_ctl_step:
  assumes ctl: "procon_ctl s" and st: "procon_prog created t s = Step s'"
  shows "procon_ctl s'"
  using st
proof (cases rule: procon_step_cases)
  case main
  then show ?thesis using ctl by (cases "pc_main s") (auto simp: pc_main_simps procon_ctl_def split: if_splits)
next
  case wakeup
  then show ?thesis using ctl main_ok_cong[of "pc_main s" "pro_pc s" "con_pc s" "pro_pc s" C_Relock] by (simp add: procon_ctl_def)
qed (use ctl pro_handler_ctl con_handler_ctl in blast)+

definition procon_holds :: "pc_tid \<Rightarrow> procon \<Rightarrow> bool" where
  "procon_holds t s = (case t of
     Producer \<Rightarrow> pro_pc s \<in> {P_Load, P_Store, P_Unlock}
   | Consumer \<Rightarrow> con_pc s \<in> {C_Test, C_While, C_Load, C_Store, C_Unlock}
   | _ \<Rightarrow> False)"

lemma procon_owner_step:
  assumes ctl: "procon_ctl s" and own: "\<forall>u. pc_mutex s = Some u \<longleftrightarrow> procon_holds u s" and st: "procon_prog created t s = Step s'"
  shows "pc_mutex s' = Some u \<longleftrightarrow> procon_holds u s'"
  using st
proof (cases rule: procon_step_cases)
  case main
  have "main_ok (pc_main s) (pro_pc s) (con_pc s)" using ctl by (simp add: procon_ctl_def)
  then have "pc_mutex s' = pc_mutex s" "procon_holds u s' = procon_holds u s"
    using main(2) by (cases "pc_main s"; cases u; auto simp: pc_main_simps procon_holds_def split: if_splits)+
  then show ?thesis using own by simp
next
  case pro
  then show ?thesis using spec[OF own, of Producer] spec[OF own, of u]
    by (cases "pro_pc s"; cases u) (auto simp: pro_simps procon_holds_def split: if_splits)
next
  case con
  then show ?thesis using spec[OF own, of Consumer] spec[OF own, of u]
    by (cases "con_pc s"; cases u) (auto simp: con_simps procon_holds_def split: if_splits)
next
  case wakeup
  then show ?thesis using spec[OF own, of u] by (cases u) (auto simp: procon_holds_def)
qed

text \<open>
  \<open>produced\<close>: the items there have been; a round of the consumer that is over took at least one. The value a thread
  has read is the current one.
\<close>

definition produced :: "procon \<Rightarrow> int" where
  "produced s = CON_INIT_VAL + 100 - pro_i s + (if pro_pc s \<in> {P_Unlock, P_Signal} then 1 else 0)"

definition rounds :: "procon \<Rightarrow> int" where
  "rounds s = 100 - con_i s + (if con_pc s = C_Unlock \<or> con_pc s = C_While \<and> pc_data s = 0 then 1 else 0)"

definition procon_data :: "procon \<Rightarrow> bool" where
  "procon_data s \<longleftrightarrow> 0 \<le> pc_data s \<and> pc_data s + rounds s \<le> produced s
     \<and> (pro_pc s = P_Store \<longrightarrow> pro_t s = pc_data s) \<and> (con_pc s = C_Store \<longrightarrow> con_t s = pc_data s)
     \<and> (con_pc s \<in> {C_Load, C_Store} \<longrightarrow> 0 < pc_data s) \<and> (con_pc s = C_Unlock \<longrightarrow> pc_data s = 0)"

lemma procon_data_step:
  assumes ctl: "procon_ctl s" and own: "\<forall>u. pc_mutex s = Some u \<longleftrightarrow> procon_holds u s" and dat: "procon_data s"
    and st: "procon_prog created t s = Step s'"
  shows "procon_data s'"
  using st
proof (cases rule: procon_step_cases)
  case main
  have "main_ok (pc_main s) (pro_pc s) (con_pc s)" using ctl by (simp add: procon_ctl_def)
  then have e: "pro_pc s' = pro_pc s \<or> pro_pc s = P_Unborn \<and> pro_pc s' = P_For" "con_pc s' = con_pc s \<or> con_pc s = C_Unborn \<and> con_pc s' = C_For"
      "pc_data s' = pc_data s" "pro_i s' = pro_i s" "con_i s' = con_i s" "pro_t s' = pro_t s" "con_t s' = con_t s"
    using main(2) by (cases "pc_main s"; auto simp: pc_main_simps split: if_splits)+
  have "produced s' = produced s" "rounds s' = rounds s" using e by (auto simp: produced_def rounds_def)
  then show ?thesis using dat e unfolding procon_data_def by auto
next
  case pro
  have c: "procon_holds Producer s \<Longrightarrow> con_pc s \<notin> {C_Test, C_While, C_Load, C_Store, C_Unlock}"
    using spec[OF own, of Producer] spec[OF own, of Consumer] by (auto simp: procon_holds_def)
  show ?thesis
  proof (cases "pro_pc s = P_Store")
    case True
    then have "s' = s\<lparr>pc_data := pro_t s + 1, pro_pc := P_Unlock\<rparr>" using pro(3) by (simp add: pro_simps)
    then show ?thesis using True c dat by (simp add: procon_data_def produced_def rounds_def procon_holds_def)
  next
    case False
    then have "pc_data s' = pc_data s" "rounds s' = rounds s" "produced s' = produced s" "pro_pc s' = P_Store \<longrightarrow> pro_t s' = pc_data s"
        "con_t s' = con_t s" "con_pc s' = con_pc s \<or> con_pc s' = C_Relock"
      using pro(3) by (cases "pro_pc s"; auto simp: pro_simps rounds_def produced_def split: if_splits)+
    then show ?thesis using dat unfolding procon_data_def by auto
  qed
next
  case con
  have p: "procon_holds Consumer s \<Longrightarrow> pro_pc s \<notin> {P_Load, P_Store, P_Unlock}"
    using spec[OF own, of Producer] spec[OF own, of Consumer] by (auto simp: procon_holds_def)
  have k: "produced s' = produced s" "pro_t s' = pro_t s" "pro_pc s' = pro_pc s"
    using con(3) by (cases "con_pc s"; auto simp: con_simps produced_def split: if_splits)+
  have "pro_pc s = P_Store \<longrightarrow> pc_data s' = pc_data s"
    using con(3) p by (cases "con_pc s") (auto simp: con_simps procon_holds_def split: if_splits)
  moreover have "0 \<le> pc_data s' \<and> pc_data s' + rounds s' \<le> pc_data s + rounds s \<and> (con_pc s' = C_Store \<longrightarrow> con_t s' = pc_data s')
      \<and> (con_pc s' \<in> {C_Load, C_Store} \<longrightarrow> 0 < pc_data s') \<and> (con_pc s' = C_Unlock \<longrightarrow> pc_data s' = 0)"
    using con(3) dat by (cases "con_pc s") (auto simp: con_simps procon_data_def rounds_def split: if_splits)
  ultimately show ?thesis using dat k unfolding procon_data_def by auto
next
  case wakeup
  then show ?thesis using dat by (simp add: procon_data_def produced_def rounds_def)
qed

interpretation pc: mutex_program "procon_prog created" procon_init procon_ctl pc_mutex procon_holds procon_data for created
proof unfold_locales
  show "\<not> procon_holds t procon_init" for t by (cases t) (simp_all add: procon_init_def procon_holds_def)
  show "procon_ctl procon_init" "procon_data procon_init" "pc_mutex procon_init = None"
    by (simp_all add: procon_init_def procon_ctl_def procon_data_def produced_def rounds_def CON_INIT_VAL_def PRO_INIT_VAL_def DATA_MAX_def)
qed (erule (1) procon_ctl_step | erule (2) procon_owner_step | erule (3) procon_data_step)+

lemma procon_free:
  assumes "\<And>u. pc_mutex s = Some u \<longleftrightarrow> procon_holds u s" and "\<not> procon_holds Producer s" and "\<not> procon_holds Consumer s"
  shows "pc_mutex s = None"
proof (cases "pc_mutex s")
  case (Some u)
  then have "procon_holds u s" using assms(1) by simp
  then show ?thesis using assms(2,3) by (cases u) (simp_all add: procon_holds_def)
qed

lemma procon_no_fault:
  assumes r: "reach (procon_prog created) procon_init s"
  shows "procon_prog created t s \<noteq> Faults"
proof -
  note own = pc.owner_holds[OF r]
  have m: "main_ok (pc_main s) (pro_pc s) (con_pc s)" using pc.reach_inv[OF r] by (simp add: procon_ctl_def)
  have "pc_main s \<in> {PM_Destroy, PM_DestroyErr} \<Longrightarrow> pc_mutex s = None"
    by (rule procon_free[OF own]) (use m in \<open>auto simp: procon_holds_def\<close>)
  then have "pc_main_thr created s \<noteq> Faults" by (cases "pc_main s") (auto simp: pc_main_simps)
  moreover have "pro_handler s \<noteq> Faults" using own[of Producer]
    by (cases "pro_pc s") (auto simp: pro_handler_def mutex_lock_def mutex_unlock_def procon_holds_def split: option.splits)
  moreover have "con_handler s \<noteq> Faults" using own[of Consumer]
    by (cases "con_pc s") (auto simp: con_handler_def mutex_lock_def mutex_unlock_def procon_holds_def split: option.splits)
  ultimately show ?thesis by (cases t) (simp_all add: procon_prog_def split: pc_main_pc.splits)
qed

subsection \<open>Ending and hanging\<close>

text \<open>The state between two rounds of both threads, and whole rounds from there.\<close>

definition between :: "int \<Rightarrow> int \<Rightarrow> int \<Rightarrow> int \<Rightarrow> int \<Rightarrow> procon" where
  "between d i x j y = \<lparr>pc_mutex = None, pc_data = d, pro_pc = P_For, pro_i = i, pro_t = x, con_pc = C_For, con_i = j, con_t = y,
     pc_main = PM_Join1\<rparr>"

lemmas procon_run = procon_prog_def pc_main_thr_def pro_handler_def con_handler_def cond_signal_def mutex_lock_def mutex_unlock_def

lemma pro_round: "0 < i \<Longrightarrow> run (procon_prog created) (replicate 6 Producer) (between d i x j y) = Some (between (d + 1) (i - 1) d j y)"
  by (simp add: between_def procon_run eval_nat_numeral)

lemma pro_rounds:
  "\<exists>ts x'. run (procon_prog created) ts (between d (int n) x j y) = Some (between (d + int n) 0 x' j y)"
proof (induction n arbitrary: d x)
  case 0
  show ?case by (intro exI[of _ "[]"] exI[of _ x]) simp
next
  case (Suc n)
  obtain ts x' where ts: "run (procon_prog created) ts (between (d + 1) (int n) d j y) = Some (between (d + 1 + int n) 0 x' j y)"
    using Suc.IH by blast
  have "run (procon_prog created) (replicate 6 Producer @ ts) (between d (int (Suc n)) x j y) = Some (between (d + 1 + int n) 0 x' j y)"
    by (rule run_SomeI[OF _ ts]) (simp add: pro_round)
  then show ?case by (intro exI[of _ "replicate 6 Producer @ ts"] exI[of _ x']) (simp add: algebra_simps)
qed

text \<open>The consumer takes everything.\<close>

definition draining :: "int \<Rightarrow> int \<Rightarrow> int \<Rightarrow> int \<Rightarrow> int \<Rightarrow> procon" where
  "draining d i x j y = (between d i x j y)\<lparr>pc_mutex := Some Consumer, con_pc := C_While\<rparr>"

lemma drain: "\<exists>ts y'. run (procon_prog created) ts (draining (int n) i x j y) = Some (draining 0 i x j y')"
proof (induction n arbitrary: y)
  case 0
  show ?case by (intro exI[of _ "[]"] exI[of _ y]) simp
next
  case (Suc n)
  obtain ts y' where ts: "run (procon_prog created) ts (draining (int n) i x j (int (Suc n))) = Some (draining 0 i x j y')"
    using Suc.IH by blast
  have "run (procon_prog created) [Consumer, Consumer, Consumer] (draining (int (Suc n)) i x j y) = Some (draining (int n) i x j (int (Suc n)))"
    by (simp add: draining_def between_def procon_run)
  then have "run (procon_prog created) ([Consumer, Consumer, Consumer] @ ts) (draining (int (Suc n)) i x j y) = Some (draining 0 i x j y')"
    by (rule run_SomeI) (rule ts)
  then show ?case by blast
qed

lemma con_round:
  assumes "0 < d" and "0 < j"
  shows "\<exists>ts y'. run (procon_prog created) ts (between d i x j y) = Some (between 0 i x (j - 1) y')"
proof -
  have a: "run (procon_prog created) [Consumer, Consumer, Consumer] (between d i x j y) = Some (draining d i x j y)"
    using assms by (simp add: draining_def between_def procon_run)
  obtain ts y' where "run (procon_prog created) ts (draining (int (nat d)) i x j y) = Some (draining 0 i x j y')"
    using drain by blast
  then have b: "run (procon_prog created) ts (draining d i x j y) = Some (draining 0 i x j y')" using assms(1) by simp
  have c: "run (procon_prog created) [Consumer, Consumer] (draining 0 i x j y') = Some (between 0 i x (j - 1) y')"
    by (simp add: draining_def between_def procon_run)
  have "run (procon_prog created) ([Consumer, Consumer, Consumer] @ ts @ [Consumer, Consumer]) (between d i x j y)
      = Some (between 0 i x (j - 1) y')"
    by (rule run_SomeI[OF a], rule run_SomeI[OF b], rule c)
  then show ?thesis by blast
qed

lemma both_rounds: "0 \<le> d \<Longrightarrow> \<exists>ts x' y'. run (procon_prog created) ts (between d (int n) x (int n) y)
    = Some (between (if n = 0 then d else 0) 0 x' 0 y')"
proof (induction n arbitrary: d x y)
  case 0
  show ?case by (intro exI[of _ "[]"] exI[of _ x] exI[of _ y]) simp
next
  case (Suc n)
  have a: "run (procon_prog created) (replicate 6 Producer) (between d (int (Suc n)) x (int (Suc n)) y) = Some (between (d + 1) (int n) d (int (Suc n)) y)"
    by (simp add: pro_round)
  obtain ts y1 where b: "run (procon_prog created) ts (between (d + 1) (int n) d (int (Suc n)) y) = Some (between 0 (int n) d (int n) y1)"
    using con_round[of "d + 1" "int (Suc n)" created "int n" d y] Suc.prems by auto
  obtain us x' y' where "run (procon_prog created) us (between 0 (int n) d (int n) y1) = Some (between 0 0 x' 0 y')"
    using Suc.IH[of 0 d y1] by auto
  then have "run (procon_prog created) (replicate 6 Producer @ ts @ us) (between d (int (Suc n)) x (int (Suc n)) y) = Some (between 0 0 x' 0 y')"
    by (intro run_SomeI[OF a] run_SomeI[OF b])
  then show ?case by auto
qed

lemma procon_begin:
  assumes "created Producer" and "created Consumer"
  shows "run (procon_prog created) [Main_thr, Main_thr] procon_init = Some (between CON_INIT_VAL 100 0 100 0)"
  using assms by (simp add: procon_init_def between_def procon_run)

text \<open>With one round each in turn the program ends.\<close>

lemma procon_may_end:
  assumes "created Producer" and "created Consumer"
  shows "\<exists>ts s. run (procon_prog created) ts procon_init = Some s \<and> pc_main s = PM_Returned 0 \<and> pc_data s = 0"
proof -
  have "(0 :: int) \<le> CON_INIT_VAL" by (simp add: CON_INIT_VAL_def PRO_INIT_VAL_def DATA_MAX_def)
  then obtain ts x y where ts: "run (procon_prog created) ts (between CON_INIT_VAL 100 0 100 0) = Some (between 0 0 x 0 y)"
    using both_rounds[of CON_INIT_VAL created 100 0 0] by auto
  have e: "\<exists>s. run (procon_prog created) [Producer, Consumer, Main_thr, Main_thr, Main_thr] (between 0 0 x 0 y) = Some s
      \<and> pc_main s = PM_Returned 0 \<and> pc_data s = 0"
    by (simp add: between_def procon_run)
  then obtain s where s: "run (procon_prog created) [Producer, Consumer, Main_thr, Main_thr, Main_thr] (between 0 0 x 0 y) = Some s"
      "pc_main s = PM_Returned 0" "pc_data s = 0" by blast
  have "run (procon_prog created) ([Main_thr, Main_thr] @ ts @ [Producer, Consumer, Main_thr, Main_thr, Main_thr]) procon_init = Some s"
    by (rule run_SomeI[OF procon_begin[OF assms]], rule run_SomeI[OF ts], rule s(1))
  then show ?thesis using s(2,3) by blast
qed

text \<open>Once the producer has ended and the consumer finds nothing at the start of a round, it waits for ever.\<close>

definition hung :: "procon \<Rightarrow> bool" where
  "hung s \<longleftrightarrow> pro_pc s = P_Exited \<and> pc_data s = 0 \<and> 0 < con_i s \<and> con_pc s \<in> {C_For, C_Lock, C_Test, C_Wait, C_Relock}
     \<and> pc_main s \<in> {PM_Join1, PM_Join2}"

lemma hung_step:
  assumes h: "hung s" and st: "procon_prog created t s = Step s'"
  shows "hung s'"
proof -
  have c: "con_pc s \<in> {C_For, C_Lock, C_Test, C_Wait, C_Relock}" using h by (simp add: hung_def)
  have "con_pc s' \<in> {C_For, C_Lock, C_Test, C_Wait, C_Relock} \<and> con_i s' = con_i s \<and> pc_data s' = pc_data s \<and> pro_pc s' = pro_pc s \<and> pc_main s' = pc_main s"
    if "con_handler s = Step s'"
    using that h c by (elim insertE emptyE) (auto simp: hung_def con_simps split: if_splits)
  moreover have "con_pc s' = con_pc s \<and> con_i s' = con_i s \<and> pc_data s' = pc_data s \<and> pro_pc s' = pro_pc s \<and> pc_main s' = PM_Join2"
    if "pc_main_thr created s = Step s'"
    using that h by (auto simp: hung_def pc_main_simps split: if_splits)
  moreover have "pro_handler s \<noteq> Step s'" using h by (simp add: hung_def pro_handler_def)
  ultimately show ?thesis using st h by (cases rule: procon_step_cases[OF st]) (auto simp: hung_def)
qed

lemma hung_forever:
  assumes "hung s" and "reach (procon_prog created) s s'"
  shows "\<not> returned s'"
proof -
  have "hung s'" using assms(2,1) by (induction rule: reach.induct) (auto intro: hung_step)
  then show ?thesis by (auto simp: hung_def returned_def)
qed

text \<open>The consumer sleeps ten times as long as the producer, so this is what happens: it takes many items in a round.\<close>

lemma procon_may_hang:
  assumes "created Producer" and "created Consumer"
  shows "\<exists>s. reach (procon_prog created) procon_init s \<and> hung s"
proof -
  obtain ts x where ts: "run (procon_prog created) ts (between CON_INIT_VAL 100 0 100 0) = Some (between (CON_INIT_VAL + 100) 0 x 100 0)"
    using pro_rounds[of created CON_INIT_VAL 100 0 100 0] by auto
  have "0 < CON_INIT_VAL + 100" by (simp add: CON_INIT_VAL_def PRO_INIT_VAL_def DATA_MAX_def)
  then have "\<exists>us y. run (procon_prog created) us (between (CON_INIT_VAL + 100) 0 x 100 0) = Some (between 0 0 x (100 - 1) y)"
    by (rule con_round) simp
  then obtain us y where us: "run (procon_prog created) us (between (CON_INIT_VAL + 100) 0 x 100 0) = Some (between 0 0 x 99 y)"
    by force
  have e: "run (procon_prog created) [Producer] (between 0 0 x 99 y) = Some ((between 0 0 x 99 y)\<lparr>pro_pc := P_Exited\<rparr>)"
    by (simp add: between_def procon_run)
  have "run (procon_prog created) ([Main_thr, Main_thr] @ ts @ us @ [Producer]) procon_init = Some ((between 0 0 x 99 y)\<lparr>pro_pc := P_Exited\<rparr>)"
    by (rule run_SomeI[OF procon_begin[OF assms]], rule run_SomeI[OF ts], rule run_SomeI[OF us], rule e)
  then have "reach (procon_prog created) procon_init ((between 0 0 x 99 y)\<lparr>pro_pc := P_Exited\<rparr>)"
    unfolding reach_run by (rule exI)
  moreover have "hung ((between 0 0 x 99 y)\<lparr>pro_pc := P_Exited\<rparr>)" by (simp add: hung_def between_def)
  ultimately show ?thesis by blast
qed

end
