(* ===== verification/FileReader.thy ===== *)
theory FileReader
  imports Threads Posix
begin

section \<open>Threads that read one file (05Pthread/05test_homework.c)\<close>

text \<open>
  Any number of threads read the same file in blocks, each under the mutex, and add up the bytes in \<open>total_size\<close>,
  an \<open>int\<close>. A thread ends with 0 at the end of the file and with -1 on an error; \<open>main\<close> waits for all of them and
  prints the total. The coming results of \<open>read\<close> are the events of Posix; the end of the file stays.

  \<open>nread\<close> is the local variable of a thread, \<open>rtotal\<close> the value of \<open>total_size\<close> between its read and its write.
  The condition variable is signalled but nobody waits on it; signalling an initialised condition does not fail, so the
  branch of \<open>thr_read_file\<close> for a failure, which would unlock the mutex a second time, is left out.
\<close>

datatype rd_tid = RMain | Thr nat

datatype rd_pc = R_Unborn | R_Lock | R_Read | R_Load | R_Store | R_Unlock | R_Signal | R_Break | R_Err | R_Exited int

datatype rd_main_pc = RM_Create nat | RM_Join nat | RM_Print | RM_Return | RM_Exit

record reader =
  rmutex :: "rd_tid option"
  rfile :: "rd_event list"
  total_size :: cint
  rpc :: "nat \<Rightarrow> rd_pc"
  nread :: "nat \<Rightarrow> nat"
  rtotal :: "nat \<Rightarrow> cint"
  thr_nread :: "nat \<Rightarrow> csize"
  rmain :: rd_main_pc
  rprinted :: "cint option"

definition RBUF_SIZE :: nat where "RBUF_SIZE = 4096"
definition DEFAULT_THR_NUM :: int where "DEFAULT_THR_NUM = 3"

definition set_rpc :: "nat \<Rightarrow> rd_pc \<Rightarrow> reader \<Rightarrow> reader" where
  "set_rpc k p s = s\<lparr>rpc := (rpc s)(k := p)\<rparr>"

text \<open>One call of \<open>read\<close>: 0 at the end of the file.\<close>

definition thr_read :: "nat \<Rightarrow> reader \<Rightarrow> reader" where
  "thr_read k s = (case rfile s of
     [] \<Rightarrow> set_rpc k R_Break (s\<lparr>thr_nread := (thr_nread s)(k := 0)\<rparr>)
   | RdIntr # es \<Rightarrow> s\<lparr>rfile := es\<rparr>
   | RdFail # es \<Rightarrow> set_rpc k R_Err (s\<lparr>rfile := es\<rparr>)
   | Got bs # es \<Rightarrow>
       (if bs = [] then set_rpc k R_Break (s\<lparr>thr_nread := (thr_nread s)(k := 0)\<rparr>)
        else set_rpc k R_Load (s\<lparr>rfile := (if length bs \<le> RBUF_SIZE then es else Got (drop RBUF_SIZE bs) # es),
          nread := (nread s)(k := min RBUF_SIZE (length bs)),
          thr_nread := (thr_nread s)(k := of_nat (min RBUF_SIZE (length bs)))\<rparr>)))"

definition thr_read_file :: "nat \<Rightarrow> reader \<Rightarrow> reader turn" where
  "thr_read_file k s = (case rpc s k of
     R_Lock \<Rightarrow> mutex_lock (Thr k) (rmutex s) (\<lambda>m. set_rpc k R_Read (s\<lparr>rmutex := m\<rparr>))
   | R_Read \<Rightarrow> Step (thr_read k s)
   | R_Load \<Rightarrow> Step (set_rpc k R_Store (s\<lparr>rtotal := (rtotal s)(k := total_size s)\<rparr>))
   | R_Store \<Rightarrow> Step (set_rpc k R_Unlock (s\<lparr>total_size := rtotal s k + of_nat (nread s k)\<rparr>))
   | R_Unlock \<Rightarrow> mutex_unlock (Thr k) (rmutex s) (\<lambda>m. set_rpc k R_Signal (s\<lparr>rmutex := m\<rparr>))
   | R_Signal \<Rightarrow> Step (set_rpc k R_Lock s)
   | R_Break \<Rightarrow> mutex_unlock (Thr k) (rmutex s) (\<lambda>m. set_rpc k (R_Exited 0) (s\<lparr>rmutex := m\<rparr>))
   | R_Err \<Rightarrow> mutex_unlock (Thr k) (rmutex s) (\<lambda>m. set_rpc k (R_Exited (-1)) (s\<lparr>rmutex := m\<rparr>))
   | R_Exited r \<Rightarrow> Ends
   | R_Unborn \<Rightarrow> Waits)"

definition reader_main :: "(nat \<Rightarrow> bool) \<Rightarrow> nat \<Rightarrow> reader \<Rightarrow> reader turn" where
  "reader_main created n s = (case rmain s of
     RM_Create i \<Rightarrow> (if i < n then (if created i then Step (set_rpc i R_Lock (s\<lparr>rmain := RM_Create (i + 1)\<rparr>)) else Step (s\<lparr>rmain := RM_Exit\<rparr>))
       else Step (s\<lparr>rmain := RM_Join 0\<rparr>))
   | RM_Join i \<Rightarrow> (if i < n then (case rpc s i of R_Exited r \<Rightarrow> Step (s\<lparr>rmain := RM_Join (i + 1)\<rparr>) | _ \<Rightarrow> Waits)
       else Step (s\<lparr>rmain := RM_Print\<rparr>))
   | RM_Print \<Rightarrow> Step (s\<lparr>rmain := RM_Return, rprinted := Some (total_size s)\<rparr>)
   | RM_Return \<Rightarrow> Ends
   | RM_Exit \<Rightarrow> Ends)"

definition reader_prog :: "(nat \<Rightarrow> bool) \<Rightarrow> nat \<Rightarrow> (rd_tid, reader) program" where
  "reader_prog created n t s = (if rmain s \<in> {RM_Return, RM_Exit} then Ends
     else case t of RMain \<Rightarrow> reader_main created n s | Thr k \<Rightarrow> thr_read_file k s)"

text \<open>
  The start of \<open>main\<close>: the number of threads, which an assertion wants to be positive, the file, and the table of
  the threads, for which there is memory or not.
\<close>

definition n_thrs :: "cuchar list option \<Rightarrow> int" where
  "n_thrs argv = (case argv of None \<Rightarrow> DEFAULT_THR_NUM | Some s \<Rightarrow> atoi s)"

definition reader_init :: "rd_event list \<Rightarrow> reader" where
  "reader_init file = \<lparr>rmutex = None, rfile = file, total_size = 0, rpc = (\<lambda>_. R_Unborn), nread = (\<lambda>_. 0), rtotal = (\<lambda>_. 0),
     thr_nread = (\<lambda>_. 0), rmain = RM_Create 0, rprinted = None\<rparr>"

definition reader_begin :: "cuchar list option \<Rightarrow> rd_event list option \<Rightarrow> bool \<Rightarrow> (nat \<times> reader) outcome option" where
  "reader_begin argv file memory = (if n_thrs argv \<le> 0 then None
     else case file of None \<Rightarrow> Some (Exits (-1))
     | Some es \<Rightarrow> (if memory then Some (Returns (nat (n_thrs argv), reader_init es)) else None))"

subsection \<open>The mutex\<close>

lemma reader_step_cases [consumes 1, case_names main thr]:
  assumes "reader_prog created n t s = Step s'"
  obtains "t = RMain" "rmain s \<notin> {RM_Return, RM_Exit}" "reader_main created n s = Step s'"
    | k where "t = Thr k" "rmain s \<notin> {RM_Return, RM_Exit}" "thr_read_file k s = Step s'"
  using assms by (cases t) (auto simp: reader_prog_def split: if_splits)

text \<open>The steps of a thread; \<open>eof\<close>: nothing is left to read.\<close>

definition eof :: "rd_event list \<Rightarrow> bool" where
  "eof es \<longleftrightarrow> es = [] \<or> (\<exists>es'. es = Got [] # es')"

lemma thr_read_cases [case_names eof intr fail got more]:
  obtains "eof (rfile s)" "thr_read k s = set_rpc k R_Break (s\<lparr>thr_nread := (thr_nread s)(k := 0)\<rparr>)"
    | es where "rfile s = RdIntr # es" "thr_read k s = s\<lparr>rfile := es\<rparr>"
    | es where "rfile s = RdFail # es" "thr_read k s = set_rpc k R_Err (s\<lparr>rfile := es\<rparr>)"
    | bs es es' where "rfile s = Got bs # es" "bs \<noteq> []"
      "es' = (if length bs \<le> RBUF_SIZE then es else Got (drop RBUF_SIZE bs) # es)"
      "thr_read k s = set_rpc k R_Load (s\<lparr>rfile := es', nread := (nread s)(k := min RBUF_SIZE (length bs)),
          thr_nread := (thr_nread s)(k := of_nat (min RBUF_SIZE (length bs)))\<rparr>)"
proof (cases "eof (rfile s)")
  case True
  then show ?thesis using that(1) by (auto simp: eof_def thr_read_def)
next
  case False
  then obtain e es where e: "rfile s = e # es" "e \<noteq> Got []" by (cases "rfile s") (auto simp: eof_def)
  then show ?thesis using that by (cases e) (simp_all add: thr_read_def)
qed

lemma thr_read_file_cases [consumes 1, case_names lock read load store unlock signal break err]:
  assumes "thr_read_file k s = Step s'"
  obtains "rpc s k = R_Lock" "rmutex s = None" "s' = set_rpc k R_Read (s\<lparr>rmutex := Some (Thr k)\<rparr>)"
    | "rpc s k = R_Read" "s' = thr_read k s"
    | "rpc s k = R_Load" "s' = set_rpc k R_Store (s\<lparr>rtotal := (rtotal s)(k := total_size s)\<rparr>)"
    | "rpc s k = R_Store" "s' = set_rpc k R_Unlock (s\<lparr>total_size := rtotal s k + of_nat (nread s k)\<rparr>)"
    | "rpc s k = R_Unlock" "rmutex s = Some (Thr k)" "s' = set_rpc k R_Signal (s\<lparr>rmutex := None\<rparr>)"
    | "rpc s k = R_Signal" "s' = set_rpc k R_Lock s"
    | "rpc s k = R_Break" "rmutex s = Some (Thr k)" "s' = set_rpc k (R_Exited 0) (s\<lparr>rmutex := None\<rparr>)"
    | "rpc s k = R_Err" "rmutex s = Some (Thr k)" "s' = set_rpc k (R_Exited (-1)) (s\<lparr>rmutex := None\<rparr>)"
  using assms by (cases "rpc s k") (simp_all add: thr_read_file_def mutex_lock_Step mutex_unlock_Step)

text \<open>A step of a thread changes its own place only, and leaves it born.\<close>

definition in_crit :: "rd_pc \<Rightarrow> bool" where
  "in_crit p \<longleftrightarrow> p \<in> {R_Read, R_Load, R_Store, R_Unlock, R_Break, R_Err}"

lemma set_rpc_simps [simp]:
  "rpc (set_rpc k p s) = (rpc s)(k := p)" "rmutex (set_rpc k p s) = rmutex s" "rfile (set_rpc k p s) = rfile s"
  "total_size (set_rpc k p s) = total_size s" "nread (set_rpc k p s) = nread s" "rtotal (set_rpc k p s) = rtotal s"
  "rmain (set_rpc k p s) = rmain s" "rprinted (set_rpc k p s) = rprinted s"
  by (simp_all add: set_rpc_def)

lemma thr_read_frame:
  "rmain (thr_read k s) = rmain s" "rprinted (thr_read k s) = rprinted s" "rmutex (thr_read k s) = rmutex s"
  "total_size (thr_read k s) = total_size s" "rtotal (thr_read k s) = rtotal s"
  by (cases rule: thr_read_cases[of s k]; simp)+

lemma thr_read_rpc: "\<exists>p \<in> {R_Read, R_Load, R_Break, R_Err}. rpc (thr_read k s) = (if p = R_Read then rpc s else (rpc s)(k := p))"
  by (cases rule: thr_read_cases[of s k]) auto

lemma thr_read_file_rpc:
  assumes "thr_read_file k s = Step s'"
  shows "rmain s' = rmain s" and "rprinted s' = rprinted s" and "rpc s k \<noteq> R_Unborn" and "\<forall>r. rpc s k \<noteq> R_Exited r"
    and "\<exists>p. rpc s' = (rpc s)(k := p) \<and> p \<noteq> R_Unborn"
proof -
  show "rmain s' = rmain s" "rprinted s' = rprinted s" "rpc s k \<noteq> R_Unborn" "\<forall>r. rpc s k \<noteq> R_Exited r"
    using assms by (cases rule: thr_read_file_cases; simp add: thr_read_frame)+
  show "\<exists>p. rpc s' = (rpc s)(k := p) \<and> p \<noteq> R_Unborn"
    using assms
  proof (cases rule: thr_read_file_cases)
    case read
    obtain p where "p \<in> {R_Read, R_Load, R_Break, R_Err}" "rpc s' = (if p = R_Read then rpc s else (rpc s)(k := p))"
      using thr_read_rpc[of k s] read(2) by blast
    then show ?thesis using read(1) by (intro exI[of _ p]) (auto simp: fun_eq_iff)
  qed auto
qed

fun rmain_ok :: "nat \<Rightarrow> rd_main_pc \<Rightarrow> (nat \<Rightarrow> rd_pc) \<Rightarrow> bool" where
  "rmain_ok n (RM_Create i) p = (i \<le> n \<and> (\<forall>k. p k = R_Unborn \<longleftrightarrow> i \<le> k))"
| "rmain_ok n (RM_Join i) p = (i \<le> n \<and> (\<forall>k. p k = R_Unborn \<longleftrightarrow> n \<le> k) \<and> (\<forall>k < i. \<exists>r. p k = R_Exited r))"
| "rmain_ok n RM_Exit p = (\<forall>k \<ge> n. p k = R_Unborn)"
| "rmain_ok n _ p = ((\<forall>k. p k = R_Unborn \<longleftrightarrow> n \<le> k) \<and> (\<forall>k < n. \<exists>r. p k = R_Exited r))"

definition reader_ctl :: "nat \<Rightarrow> reader \<Rightarrow> bool" where
  "reader_ctl n s \<longleftrightarrow> rmain_ok n (rmain s) (rpc s)"

lemma rmain_ok_thr:
  assumes "rmain_ok n m p" and "m \<notin> {RM_Print, RM_Return}" and "p k \<noteq> R_Unborn" and "\<forall>r. p k \<noteq> R_Exited r" and "x \<noteq> R_Unborn"
  shows "rmain_ok n m (p(k := x))"
  using assms by (cases m) auto

lemma reader_ctl_step:
  assumes ctl: "reader_ctl n s" and st: "reader_prog created n t s = Step s'"
  shows "reader_ctl n s'"
  using st
proof (cases rule: reader_step_cases)
  case main
  then show ?thesis using ctl
    by (cases "rmain s")
      (auto simp: reader_main_def reader_ctl_def set_rpc_def less_Suc_eq split: if_splits rd_pc.splits)
next
  case (thr k)
  obtain p where p: "rpc s' = (rpc s)(k := p)" "p \<noteq> R_Unborn" using thr_read_file_rpc(5)[OF thr(3)] by blast
  note q = thr_read_file_rpc(3,4)[OF thr(3)]
  have ok: "rmain_ok n (rmain s) (rpc s)" using ctl by (simp add: reader_ctl_def)
  have "k < n" using ok q(1) thr(2) by (cases "rmain s") (auto simp: not_le[symmetric])
  then have "rmain s \<noteq> RM_Print" using ok q(2) by (cases "rmain s") auto
  then have "rmain_ok n (rmain s) ((rpc s)(k := p))" using rmain_ok_thr[OF ok _ q p(2)] thr(2) by simp
  then show ?thesis by (simp add: reader_ctl_def thr_read_file_rpc(1)[OF thr(3)] p(1))
qed

definition reader_holds :: "rd_tid \<Rightarrow> reader \<Rightarrow> bool" where
  "reader_holds t s = (case t of RMain \<Rightarrow> False | Thr k \<Rightarrow> in_crit (rpc s k))"

lemma reader_main_rpc:
  assumes "reader_main created n s = Step s'" and "reader_ctl n s"
  shows "\<exists>i. rpc s' = rpc s \<or> rpc s i = R_Unborn \<and> rpc s' = (rpc s)(i := R_Lock)"
    and "rmutex s' = rmutex s" and "rfile s' = rfile s" and "total_size s' = total_size s" and "nread s' = nread s" and "rtotal s' = rtotal s"
  using assms by (cases "rmain s"; fastforce simp: reader_main_def reader_ctl_def split: if_splits rd_pc.splits)+

lemma reader_owner_step:
  assumes ctl: "reader_ctl n s" and own: "\<forall>u. rmutex s = Some u \<longleftrightarrow> reader_holds u s" and st: "reader_prog created n t s = Step s'"
  shows "rmutex s' = Some u \<longleftrightarrow> reader_holds u s'"
  using st
proof (cases rule: reader_step_cases)
  case main
  obtain i where b: "rpc s' = rpc s \<or> rpc s i = R_Unborn \<and> rpc s' = (rpc s)(i := R_Lock)" and m: "rmutex s' = rmutex s"
    using reader_main_rpc[OF main(3) ctl] by blast
  have "in_crit (rpc s' k) = in_crit (rpc s k)" for k using b by (cases "k = i") (auto simp: in_crit_def)
  then show ?thesis using own m by (simp add: reader_holds_def split: rd_tid.splits)
next
  case (thr k)
  have k: "rmutex s = Some (Thr k) \<longleftrightarrow> in_crit (rpc s k)" using spec[OF own, of "Thr k"] by (simp add: reader_holds_def)
  have "(rmutex s' = Some (Thr k) \<longleftrightarrow> in_crit (rpc s' k)) \<and> (u \<noteq> Thr k \<longrightarrow> rmutex s' = Some u \<longleftrightarrow> rmutex s = Some u)"
    using thr(3)
  proof (cases rule: thr_read_file_cases)
    case read
    obtain p where "p \<in> {R_Read, R_Load, R_Break, R_Err}" "rpc s' = (if p = R_Read then rpc s else (rpc s)(k := p))"
      using thr_read_rpc[of k s] read(2) by blast
    then have "in_crit (rpc s' k)" using read(1) by (auto simp: in_crit_def)
    then show ?thesis using k read by (simp add: thr_read_frame in_crit_def)
  qed (use k in \<open>auto simp: in_crit_def\<close>)
  moreover obtain p where p: "rpc s' = (rpc s)(k := p)" using thr_read_file_rpc(5)[OF thr(3)] by blast
  ultimately show ?thesis using spec[OF own, of u] by (cases u) (auto simp: reader_holds_def)
qed

subsection \<open>The total\<close>

text \<open>What a call can still deliver, up to the end of the file.\<close>

fun unread :: "rd_event list \<Rightarrow> nat" where
  "unread [] = 0"
| "unread (Got bs # es) = (if bs = [] then 0 else length bs + unread es)"
| "unread (_ # es) = unread es"

text \<open>The bytes that the thread with the mutex has read and not yet added.\<close>

definition pending :: "reader \<Rightarrow> nat" where
  "pending s = (case rmutex s of Some (Thr k) \<Rightarrow> (if rpc s k \<in> {R_Load, R_Store} then nread s k else 0) | _ \<Rightarrow> 0)"

definition reader_data :: "nat \<Rightarrow> reader \<Rightarrow> bool" where
  "reader_data N s \<longleftrightarrow> total_size s + of_nat (pending s) + of_nat (unread (rfile s)) = of_nat N
     \<and> (\<forall>k. rpc s k = R_Store \<longrightarrow> rtotal s k = total_size s)
     \<and> (\<forall>k. rpc s k \<in> {R_Break, R_Exited 0} \<longrightarrow> unread (rfile s) = 0)
     \<and> (\<forall>k r. rpc s k = R_Exited r \<longrightarrow> r \<in> {0, -1})
     \<and> (rmain s = RM_Return \<longrightarrow> rprinted s = Some (total_size s))"

lemma eof_unread: "eof es \<Longrightarrow> unread es = 0"
  by (auto simp: eof_def)

lemma reader_data_main:
  assumes st: "reader_main created n s = Step s'" and ctl: "reader_ctl n s" and own: "\<forall>u. rmutex s = Some u \<longleftrightarrow> reader_holds u s"
    and dat: "reader_data N s"
  shows "reader_data N s'"
proof -
  obtain i where b: "rpc s' = rpc s \<or> rpc s i = R_Unborn \<and> rpc s' = (rpc s)(i := R_Lock)"
    using reader_main_rpc(1)[OF st ctl] by blast
  note e = reader_main_rpc(2-)[OF st ctl]
  have p: "rpc s' k = p \<longleftrightarrow> rpc s k = p" if "p \<notin> {R_Unborn, R_Lock}" for k p using b that by (cases "k = i") auto
  have "pending s' = pending s" using p[of R_Load] p[of R_Store] unfolding pending_def e by (simp split: option.splits rd_tid.splits)
  moreover have "rmain s' = RM_Return \<longrightarrow> rprinted s' = Some (total_size s')"
    using st by (cases "rmain s") (auto simp: reader_main_def split: if_splits rd_pc.splits)
  ultimately show ?thesis using dat p unfolding reader_data_def e by simp
qed

lemma reader_data_thr:
  assumes st: "thr_read_file k s = Step s'" and own: "\<forall>u. rmutex s = Some u \<longleftrightarrow> reader_holds u s" and dat: "reader_data N s"
    and m: "rmain s \<noteq> RM_Return"
  shows "reader_data N s'"
proof -
  have k: "rmutex s = Some (Thr k) \<longleftrightarrow> in_crit (rpc s k)" using spec[OF own, of "Thr k"] by (simp add: reader_holds_def)
  have alone: "\<not> in_crit (rpc s j)" if "in_crit (rpc s k)" "j \<noteq> k" for j
    using spec[OF own, of "Thr j"] k that by (simp add: reader_holds_def)
  have m': "rmain s' \<noteq> RM_Return" using m thr_read_file_rpc(1)[OF st] by simp
  have d: "total_size s + of_nat (pending s) + of_nat (unread (rfile s)) = of_nat N" "\<forall>k. rpc s k = R_Store \<longrightarrow> rtotal s k = total_size s"
      "\<forall>k. rpc s k \<in> {R_Break, R_Exited 0} \<longrightarrow> unread (rfile s) = 0" "\<forall>k r. rpc s k = R_Exited r \<longrightarrow> r \<in> {0, -1}"
    using dat unfolding reader_data_def by blast+
  show ?thesis
    using st
  proof (cases rule: thr_read_file_cases)
    case lock
    have "pending s' = pending s" using lock by (simp add: pending_def)
    then show ?thesis using d m' lock by (auto simp: reader_data_def)
  next
    case read
    have mx: "rmutex s = Some (Thr k)" "rmutex s' = Some (Thr k)" using k read by (simp_all add: in_crit_def thr_read_frame)
    have p0: "pending s = 0" using mx(1) read(1) by (simp add: pending_def)
    have ns: "rpc s j \<noteq> R_Store" for j using alone[of j] read(1) by (cases "j = k") (auto simp: in_crit_def)
    show ?thesis
    proof (cases rule: thr_read_cases[of s k, case_names eof intr fail got])
      case eof
      have s': "s' = set_rpc k R_Break (s\<lparr>thr_nread := (thr_nread s)(k := 0)\<rparr>)" using eof(2) read(2) by simp
      have "pending s' = 0" using mx(2) by (simp add: s' pending_def)
      then show ?thesis using d m' p0 ns eof_unread[OF eof(1)] unfolding reader_data_def by (auto simp: s')
    next
      case (intr es)
      have s': "s' = s\<lparr>rfile := es\<rparr>" using intr(2) read(2) by simp
      have "pending s' = 0" using mx(2) read(1) by (simp add: s' pending_def)
      then show ?thesis using d m' p0 intr(1) unfolding reader_data_def by (auto simp: s')
    next
      case (fail es)
      have s': "s' = set_rpc k R_Err (s\<lparr>rfile := es\<rparr>)" using fail(2) read(2) by simp
      have "pending s' = 0" using mx(2) by (simp add: s' pending_def)
      then show ?thesis using d m' p0 ns fail(1) unfolding reader_data_def by (auto simp: s')
    next
      case (got bs es es')
      have pd: "pending s' = min RBUF_SIZE (length bs)" using mx(2) got(4) read(2) by (simp add: pending_def)
      have u: "unread (rfile s) = min RBUF_SIZE (length bs) + unread es'" using got(1-3) by (auto simp: min_def)
      have f: "rfile s' = es'" "total_size s' = total_size s" "rtotal s' = rtotal s" "rpc s' = (rpc s)(k := R_Load)"
        using got(4) read(2) by simp_all
      show ?thesis using d m' ns p0 unfolding reader_data_def f pd u by (auto simp: add.assoc)
    qed
  next
    case load
    have mx: "rmutex s = Some (Thr k)" using k load by (simp add: in_crit_def)
    have "pending s' = pending s" using mx load by (simp add: pending_def)
    then show ?thesis using d m' load unfolding reader_data_def by (auto simp: load(2))
  next
    case store
    have mx: "rmutex s = Some (Thr k)" using k store by (simp add: in_crit_def)
    have ns: "rpc s j \<noteq> R_Store" if "j \<noteq> k" for j using alone[of j] store(1) that by (auto simp: in_crit_def)
    have "pending s' = 0" "pending s = nread s k" using mx store by (simp_all add: pending_def)
    moreover have "rtotal s k = total_size s" using d(2) store(1) by blast
    ultimately show ?thesis using d m' ns store(1) unfolding reader_data_def by (auto simp: store(2))
  next
    case unlock
    have "pending s' = 0" "pending s = 0" using unlock by (simp_all add: pending_def)
    then show ?thesis using d m' unlock unfolding reader_data_def by (auto simp: unlock(3))
  next
    case signal
    have "rmutex s \<noteq> Some (Thr k)" using k signal by (simp add: in_crit_def)
    then have "pending s' = pending s" using signal by (auto simp: pending_def split: option.splits rd_tid.splits)
    then show ?thesis using d m' signal unfolding reader_data_def by (auto simp: signal(2))
  next
    case break
    have "pending s' = 0" "pending s = 0" using break by (simp_all add: pending_def)
    then show ?thesis using d m' break unfolding reader_data_def by (auto simp: break(3))
  next
    case err
    have "pending s' = 0" "pending s = 0" using err by (simp_all add: pending_def)
    then show ?thesis using d m' err unfolding reader_data_def by (auto simp: err(3))
  qed
qed

lemma reader_data_step:
  assumes "reader_ctl n s" and "\<forall>u. rmutex s = Some u \<longleftrightarrow> reader_holds u s" and "reader_data N s" and st: "reader_prog created n t s = Step s'"
  shows "reader_data N s'"
  using st by (cases rule: reader_step_cases) (use assms(1-3) reader_data_main reader_data_thr in blast)+

interpretation rd: mutex_program "reader_prog created n" "reader_init es" "reader_ctl n" rmutex reader_holds "reader_data (unread es)"
  for created n es
proof unfold_locales
  show "\<not> reader_holds t (reader_init es)" for t by (cases t) (simp_all add: reader_init_def reader_holds_def in_crit_def)
  show "reader_ctl n (reader_init es)" "reader_data (unread es) (reader_init es)" "rmutex (reader_init es) = None"
    by (simp_all add: reader_init_def reader_ctl_def reader_data_def pending_def)
qed (erule (1) reader_ctl_step | erule (2) reader_owner_step | erule (3) reader_data_step)+

subsection \<open>Termination\<close>

text \<open>
  A round of a thread takes an event, or at least one byte of one; that pays for the places it goes through until
  it reads again.
\<close>

fun event_size :: "rd_event list \<Rightarrow> nat" where
  "event_size [] = 0"
| "event_size (Got bs # es) = 1 + length bs + event_size es"
| "event_size (_ # es) = 1 + event_size es"

fun rpc_weight :: "rd_pc \<Rightarrow> nat" where
  "rpc_weight R_Unborn = 7"
| "rpc_weight R_Lock = 6"
| "rpc_weight R_Read = 5"
| "rpc_weight R_Load = 12"
| "rpc_weight R_Store = 11"
| "rpc_weight R_Unlock = 10"
| "rpc_weight R_Signal = 9"
| "rpc_weight R_Break = 4"
| "rpc_weight R_Err = 4"
| "rpc_weight (R_Exited r) = 0"

fun rmain_weight :: "nat \<Rightarrow> rd_main_pc \<Rightarrow> nat" where
  "rmain_weight n (RM_Create i) = (n - i) + n + 3"
| "rmain_weight n (RM_Join i) = (n - i) + 2"
| "rmain_weight n RM_Print = 1"
| "rmain_weight n _ = 0"

definition reader_weight :: "nat \<Rightarrow> reader \<Rightarrow> nat" where
  "reader_weight n s = 8 * event_size (rfile s) + (\<Sum>k<n. rpc_weight (rpc s k)) + rmain_weight n (rmain s)"

lemma sum_place:
  fixes k n :: nat
  assumes "k < n"
  shows "(\<Sum>j<n. rpc_weight ((g(k := p)) j)) + rpc_weight (g k) = (\<Sum>j<n. rpc_weight (g j)) + rpc_weight p"
proof -
  have "(\<Sum>j<n. rpc_weight (h j)) = rpc_weight (h k) + (\<Sum>j\<in>{..<n} - {k}. rpc_weight (h j))" for h
    using assms by (intro sum.remove) auto
  moreover have "(\<Sum>j\<in>{..<n} - {k}. rpc_weight ((g(k := p)) j)) = (\<Sum>j\<in>{..<n} - {k}. rpc_weight (g j))"
    by (rule sum.cong) auto
  ultimately show ?thesis by simp
qed

text \<open>One thread: what it pays is covered by the events.\<close>

lemma thr_read_file_weight:
  assumes "thr_read_file k s = Step s'" and "rpc s' = (rpc s)(k := p)"
  shows "8 * event_size (rfile s') + rpc_weight p < 8 * event_size (rfile s) + rpc_weight (rpc s k)"
proof -
  have p: "p = rpc s' k" using assms(2) by simp
  show ?thesis
    using assms(1)
  proof (cases rule: thr_read_file_cases)
    case read
    show ?thesis
    proof (cases rule: thr_read_cases[of s k, case_names eof intr fail got])
      case (got bs es es')
      have "event_size es' < event_size (rfile s)" using got(1-3) by (auto simp: RBUF_SIZE_def)
      then show ?thesis using got(4) read p by simp
    qed (use read p in auto)
  qed (use p in simp_all)
qed

lemma reader_weight_step:
  assumes ctl: "reader_ctl n s" and st: "reader_prog created n t s = Step s'"
  shows "reader_weight n s' < reader_weight n s"
  using st
proof (cases rule: reader_step_cases)
  case main
  have e: "rfile s' = rfile s" by (rule reader_main_rpc(3)[OF main(3) ctl])
  consider i where "rmain s = RM_Create i" "i < n" "created i" "s' = set_rpc i R_Lock (s\<lparr>rmain := RM_Create (i + 1)\<rparr>)"
    | "rpc s' = rpc s" "rmain_weight n (rmain s') < rmain_weight n (rmain s)"
    using main(3) ctl by (cases "rmain s") (auto simp: reader_main_def reader_ctl_def split: if_splits rd_pc.splits)
  then show ?thesis
  proof cases
    case (1 i)
    have "rpc s i = R_Unborn" using ctl 1(1) by (simp add: reader_ctl_def)
    then have "(\<Sum>j<n. rpc_weight (rpc s' j)) < (\<Sum>j<n. rpc_weight (rpc s j))" using sum_place[OF 1(2), of "rpc s" R_Lock] 1(4) by simp
    moreover have "rmain_weight n (rmain s') \<le> rmain_weight n (rmain s)" using 1 by simp
    ultimately show ?thesis unfolding reader_weight_def e by linarith
  next
    case 2
    then show ?thesis by (simp add: reader_weight_def e)
  qed
next
  case (thr k)
  obtain p where p: "rpc s' = (rpc s)(k := p)" using thr_read_file_rpc(5)[OF thr(3)] by blast
  have k: "k < n" using ctl thr_read_file_rpc(3)[OF thr(3)] thr(2)
    by (cases "rmain s") (auto simp: reader_ctl_def not_le[symmetric])
  show ?thesis
    using thr_read_file_weight[OF thr(3) p] sum_place[OF k, of "rpc s" p]
    unfolding reader_weight_def p thr_read_file_rpc(1)[OF thr(3)] by linarith
qed

interpretation rd_end: terminating_program "reader_prog created n" "reader_init es" "reader_ctl n" "reader_weight n" for created n es
  by unfold_locales (rule reader_weight_step)

lemma reader_init_weight: "reader_weight n (reader_init es) = 8 * event_size es + 9 * n + 3"
  by (simp add: reader_weight_def reader_init_def)

subsection \<open>No deadlock, and the result\<close>

lemma reader_no_fault:
  assumes r: "reach (reader_prog created n) (reader_init es) s"
  shows "reader_prog created n t s \<noteq> Faults"
proof (cases t)
  case RMain
  then show ?thesis by (auto simp: reader_prog_def reader_main_def split: rd_main_pc.splits rd_pc.splits)
next
  case (Thr k)
  have "rmutex s = Some (Thr k) \<longleftrightarrow> in_crit (rpc s k)" using rd.owner_holds[OF r, of "Thr k"] by (simp add: reader_holds_def)
  then have "thr_read_file k s \<noteq> Faults"
    by (cases "rpc s k") (auto simp: thr_read_file_def mutex_lock_def mutex_unlock_def in_crit_def split: option.splits)
  then show ?thesis using Thr by (simp add: reader_prog_def)
qed

lemma thr_goes_on:
  assumes "rmutex s = Some (Thr k) \<longleftrightarrow> in_crit (rpc s k)" and "rpc s k \<noteq> R_Unborn" and "\<forall>r. rpc s k \<noteq> R_Exited r"
    and "rmutex s = None \<or> rmutex s = Some (Thr k)"
  shows "\<exists>s'. thr_read_file k s = Step s'"
  using assms by (cases "rpc s k") (auto simp: thr_read_file_def mutex_lock_def mutex_unlock_def in_crit_def)

lemma reader_no_deadlock:
  assumes r: "reach (reader_prog created n) (reader_init es) s" and st: "stuck (reader_prog created n) s"
  shows "rmain s \<in> {RM_Return, RM_Exit}"
proof (rule ccontr)
  assume m: "rmain s \<notin> {RM_Return, RM_Exit}"
  note own = rd.owner_holds[OF r] and ctl = rd.reach_inv[OF r]
  have nt: "thr_read_file k s \<noteq> Step s'" and nm: "reader_main created n s \<noteq> Step s'" for k s'
    using st m unfolding stuck_def reader_prog_def by (metis rd_tid.simps)+
  have k: "rmutex s = Some (Thr k) \<longleftrightarrow> in_crit (rpc s k)" for k using own[of "Thr k"] by (simp add: reader_holds_def)
  have "rmutex s \<noteq> Some RMain" using own[of RMain] by (simp add: reader_holds_def)
  moreover have "rmutex s \<noteq> Some (Thr k)" for k
    using thr_goes_on[OF k[of k]] nt[of k] k[of k] by (cases "rpc s k") (auto simp: in_crit_def)
  ultimately have free: "rmutex s = None" by (metis not_None_eq rd_tid.exhaust)
  then have ended: "rpc s k = R_Unborn \<or> (\<exists>r. rpc s k = R_Exited r)" for k using thr_goes_on[OF k[of k]] nt[of k] by blast
  have "\<exists>s'. reader_main created n s = Step s'"
  proof (cases "rmain s")
    case (RM_Join i)
    then have "rpc s i \<noteq> R_Unborn" if "i < n" using ctl that by (simp add: reader_ctl_def)
    then show ?thesis using RM_Join ended[of i] by (cases "i < n") (auto simp: reader_main_def)
  qed (use m in \<open>auto simp: reader_main_def\<close>)
  then show False using nm by blast
qed

text \<open>
  What \<open>main\<close> prints: the bytes read, as an \<open>int\<close>; all of the file as soon as one thread came to its end.
\<close>

lemma reader_result:
  assumes r: "reach (reader_prog created n) (reader_init es) s" and m: "rmain s = RM_Return"
  shows "rprinted s = Some (total_size s) \<and> total_size s + of_nat (unread (rfile s)) = of_nat (unread es)
    \<and> (\<forall>k < n. rpc s k \<in> {R_Exited 0, R_Exited (-1)}) \<and> ((\<exists>k < n. rpc s k = R_Exited 0) \<longrightarrow> total_size s = of_nat (unread es))"
proof -
  have x: "\<forall>k < n. \<exists>r. rpc s k = R_Exited r" "\<And>k. n \<le> k \<Longrightarrow> rpc s k = R_Unborn"
    using rd.reach_inv[OF r] m by (auto simp: reader_ctl_def)
  have "\<not> in_crit (rpc s k)" for k using x by (cases "k < n") (auto simp: in_crit_def)
  then have "rmutex s \<noteq> Some (Thr k)" for k using rd.owner_holds[OF r, of "Thr k"] by (simp add: reader_holds_def)
  then have "pending s = 0" by (simp add: pending_def split: option.splits rd_tid.splits)
  have d: "total_size s + of_nat (pending s) + of_nat (unread (rfile s)) = of_nat (unread es)"
      "\<forall>k. rpc s k \<in> {R_Break, R_Exited 0} \<longrightarrow> unread (rfile s) = 0" "\<forall>k r. rpc s k = R_Exited r \<longrightarrow> r \<in> {0, -1}"
      "rmain s = RM_Return \<longrightarrow> rprinted s = Some (total_size s)"
    using rd.reach_data[OF r] unfolding reader_data_def by blast+
  have t: "total_size s + of_nat (unread (rfile s)) = of_nat (unread es)" using d(1) \<open>pending s = 0\<close> by simp
  have e: "rpc s k \<in> {R_Exited 0, R_Exited (-1)}" if k: "k < n" for k
  proof -
    obtain r where "rpc s k = R_Exited r" using x(1) k by blast
    then show ?thesis using d(3) by auto
  qed
  have f: "total_size s = of_nat (unread es)" if "rpc s k = R_Exited 0" for k
  proof -
    have "rpc s k \<in> {R_Break, R_Exited 0}" using that by simp
    then have "unread (rfile s) = 0" using d(2) by blast
    then show ?thesis using t by simp
  qed
  show ?thesis using d(4) m t e f by blast
qed

end
