(* ===== verification/AddressBook.thy ===== *)
theory AddressBook
  imports Posix KernelList
begin

section \<open>The address book (Project/ADDRESS_LIST: address_list.c, save.c, main.c)\<close>

text \<open>
  The entries are nodes of a kernel list with seven arrays of characters. What the user types is a list of inputs,
  one for each call of \<open>scanf\<close>: a word, a character or a number; without the right one the variable is left
  uninitialised, so there is no result. A word that does not fit into its array has no result either. The
  screen is the list of what was printed about entries, the empty list for "not found".
\<close>

record link_man = list_head +
  lname :: "cuchar list"
  ltel :: "cuchar list"
  lemail :: "cuchar list"
  lcompany :: "cuchar list"
  laddress :: "cuchar list"
  lpost :: "cuchar list"
  lspell :: "cuchar list"

datatype input = Word_in "cuchar list" | Char_in cuchar | Num_in int

record book =
  people :: "link_man heap"
  address_list :: ptr
  typed :: "input list"
  screen :: "cuchar list list list"

definition MAX_LNAME :: nat where "MAX_LNAME = 20"
definition MAX_TEL :: nat where "MAX_TEL = 15"
definition MAX_EMAIL :: nat where "MAX_EMAIL = 30"
definition CO_SIZE :: nat where "CO_SIZE = 30"
definition ADDR_SIZE :: nat where "ADDR_SIZE = 50"
definition POST_NUM :: nat where "POST_NUM = 7"
definition MAX_SPELL :: nat where "MAX_SPELL = 20"

subsection \<open>Typing\<close>

definition scan_word :: "book \<Rightarrow> (cuchar list \<times> book) option" where
  "scan_word s = (case typed s of Word_in w # ks \<Rightarrow> Some (w, s\<lparr>typed := ks\<rparr>) | _ \<Rightarrow> None)"

definition scan_char :: "book \<Rightarrow> (cuchar \<times> book) option" where
  "scan_char s = (case typed s of Char_in c # ks \<Rightarrow> Some (c, s\<lparr>typed := ks\<rparr>) | _ \<Rightarrow> None)"

definition scan_num :: "book \<Rightarrow> (int \<times> book) option" where
  "scan_num s = (case typed s of Num_in i # ks \<Rightarrow> Some (i, s\<lparr>typed := ks\<rparr>) | _ \<Rightarrow> None)"

text \<open>\<open>scanf("%s", ...)\<close> into an array; into a local array of 20 bytes.\<close>

definition scan_to :: "nat \<Rightarrow> cuchar list \<Rightarrow> cuchar list \<Rightarrow> cuchar list option" where
  "scan_to sz buf w = (if length w < sz then Some (store (w @ [0]) buf) else None)"

definition scan_local :: "book \<Rightarrow> (cuchar list \<times> book) option" where
  "scan_local s = do { (w, s) \<leftarrow> scan_word s; (if length w < 20 then Some (w, s) else None) }"

type_synonym field = "(link_man \<Rightarrow> cuchar list) \<times> (cuchar list \<Rightarrow> link_man \<Rightarrow> link_man) \<times> nat"

definition name_field :: field where "name_field = (lname, \<lambda>b n. n\<lparr>lname := b\<rparr>, MAX_LNAME)"
definition tel_field :: field where "tel_field = (ltel, \<lambda>b n. n\<lparr>ltel := b\<rparr>, MAX_TEL)"
definition email_field :: field where "email_field = (lemail, \<lambda>b n. n\<lparr>lemail := b\<rparr>, MAX_EMAIL)"
definition company_field :: field where "company_field = (lcompany, \<lambda>b n. n\<lparr>lcompany := b\<rparr>, CO_SIZE)"
definition address_field :: field where "address_field = (laddress, \<lambda>b n. n\<lparr>laddress := b\<rparr>, ADDR_SIZE)"
definition post_field :: field where "post_field = (lpost, \<lambda>b n. n\<lparr>lpost := b\<rparr>, POST_NUM)"
definition spell_field :: field where "spell_field = (lspell, \<lambda>b n. n\<lparr>lspell := b\<rparr>, MAX_SPELL)"

definition scan_field :: "field \<Rightarrow> ptr \<Rightarrow> book \<Rightarrow> book option" where
  "scan_field f p s = (case f of (get, put, sz) \<Rightarrow> do {
     (w, s) \<leftarrow> scan_word s;
     old \<leftarrow> rd (people s) get p;
     new \<leftarrow> scan_to sz old w;
     h \<leftarrow> wr (people s) p (put new);
     Some (s\<lparr>people := h\<rparr>)
   })"

fun scan_fields :: "field list \<Rightarrow> ptr \<Rightarrow> book \<Rightarrow> book option" where
  "scan_fields [] p s = Some s"
| "scan_fields (f # fs) p s = do { s \<leftarrow> scan_field f p s; scan_fields fs p s }"

definition form :: "field list" where
  "form = [name_field, spell_field, tel_field, email_field, company_field, address_field, post_field]"

definition is_key :: "char \<Rightarrow> char \<Rightarrow> cuchar \<Rightarrow> bool" where
  "is_key upper lower c \<longleftrightarrow> c = of_char upper \<or> c = of_char lower"

subsection \<open>Adding\<close>

text \<open>After "no" the entry is freed, and filled again.\<close>

partial_function (option) add_loop :: "ptr \<Rightarrow> book \<Rightarrow> book option" where
  "add_loop new s = do {
     s \<leftarrow> scan_fields form new s;
     (c, s) \<leftarrow> scan_char s;
     (if is_key CHR ''Y'' CHR ''y'' c then do { h \<leftarrow> list_add_tail (people s) (address_list s) new; Some (s\<lparr>people := h\<rparr>) }
      else do {
        h \<leftarrow> free (people s) new;
        (if is_key CHR ''N'' CHR ''n'' c then add_loop new (s\<lparr>people := h\<rparr>) else Some (s\<lparr>people := h\<rparr>))
      })
   }"

definition add_link_man :: "book \<Rightarrow> book option" where
  "add_link_man s = (let (new, h) = malloc (people s) in add_loop new (s\<lparr>people := h\<rparr>))"

subsection \<open>Showing and finding\<close>

definition text_of :: "link_man heap \<Rightarrow> field \<Rightarrow> ptr \<Rightarrow> cuchar list option" where
  "text_of h f p = (case f of (get, put, sz) \<Rightarrow> do { b \<leftarrow> rd h get p; fmt_s b })"

fun texts_of :: "link_man heap \<Rightarrow> field list \<Rightarrow> ptr \<Rightarrow> cuchar list list option" where
  "texts_of h [] p = Some []"
| "texts_of h (f # fs) p = do { t \<leftarrow> text_of h f p; ts \<leftarrow> texts_of h fs p; Some (t # ts) }"

definition print_info :: "ptr \<Rightarrow> book \<Rightarrow> book option" where
  "print_info p s = do {
     ts \<leftarrow> texts_of (people s) [name_field, tel_field, email_field, company_field, address_field, post_field] p;
     Some (s\<lparr>screen := screen s @ [ts]\<rparr>)
   }"

definition print_linkman :: "ptr \<Rightarrow> book \<Rightarrow> book option" where
  "print_linkman p s = do {
     ts \<leftarrow> texts_of (people s) [name_field, tel_field] p;
     Some (s\<lparr>screen := screen s @ [ts]\<rparr>)
   }"

definition not_found :: "book \<Rightarrow> book" where
  "not_found s = s\<lparr>screen := screen s @ [[]]\<rparr>"

fun show_nodes :: "(ptr \<Rightarrow> book \<Rightarrow> book option) \<Rightarrow> ptr list \<Rightarrow> book \<Rightarrow> book option" where
  "show_nodes todo [] s = Some s"
| "show_nodes todo (p # ps) s = do { s \<leftarrow> todo p s; show_nodes todo ps s }"

text \<open>The callbacks do not touch the links, so the nodes of the loop are those of the list.\<close>

definition display_link_man :: "(ptr \<Rightarrow> book \<Rightarrow> book option) \<Rightarrow> book \<Rightarrow> book option" where
  "display_link_man todo s = do { ps \<leftarrow> list_for_each (people s) (address_list s); show_nodes todo ps s }"

text \<open>Does a text contain another; the tests of \<open>find_link_man\<close>, tried one after the other.\<close>

fun contains_any :: "link_man heap \<Rightarrow> cuchar list \<Rightarrow> field list \<Rightarrow> ptr \<Rightarrow> bool option" where
  "contains_any h w [] p = Some False"
| "contains_any h w (f # fs) p = do { t \<leftarrow> text_of h f p; (if strstr_at w t 0 \<noteq> None then Some True else contains_any h w fs p) }"

definition entry_matches :: "link_man heap \<Rightarrow> cuchar list \<Rightarrow> ptr \<Rightarrow> bool option" where
  "entry_matches h w p = do {
     t \<leftarrow> text_of h name_field p;
     (if t = w then Some True else contains_any h w [tel_field, email_field, company_field, address_field, post_field] p)
   }"

fun find_nodes :: "cuchar list \<Rightarrow> ptr list \<Rightarrow> bool \<Rightarrow> book \<Rightarrow> (bool \<times> book) option" where
  "find_nodes w [] flag s = Some (flag, s)"
| "find_nodes w (p # ps) flag s = do {
     m \<leftarrow> entry_matches (people s) w p;
     (if m then do { s \<leftarrow> print_info p s; find_nodes w ps True s } else find_nodes w ps flag s)
   }"

definition find_link_man :: "book \<Rightarrow> book option" where
  "find_link_man s = do {
     (w, s) \<leftarrow> scan_local s;
     ps \<leftarrow> list_for_each (people s) (address_list s);
     (flag, s) \<leftarrow> find_nodes w ps False s;
     Some (if flag then s else not_found s)
   }"

subsection \<open>Changing and deleting\<close>

definition is_entry :: "link_man heap \<Rightarrow> cuchar list \<Rightarrow> ptr \<Rightarrow> bool option" where
  "is_entry h w p = do {
     n \<leftarrow> text_of h name_field p;
     (if n = w then Some True else do { t \<leftarrow> text_of h tel_field p; Some (t = w) })
   }"

text \<open>\<open>memmove\<close> of the letters without the terminating zero.\<close>

definition overwrite :: "field \<Rightarrow> ptr \<Rightarrow> cuchar list \<Rightarrow> link_man heap \<Rightarrow> link_man heap option" where
  "overwrite f p w h = (case f of (get, put, sz) \<Rightarrow> do {
     old \<leftarrow> rd h get p;
     (if length w \<le> sz then wr h p (put (store w old)) else None)
   })"

definition choose_field :: "int \<Rightarrow> field option" where
  "choose_field i = (if i = 1 then Some name_field else if i = 2 then Some spell_field else if i = 3 then Some tel_field
     else if i = 4 then Some name_field else if i = 5 then Some company_field else if i = 6 then Some address_field
     else if i = 7 then Some post_field else None)"

definition change_entry :: "ptr \<Rightarrow> book \<Rightarrow> book option" where
  "change_entry p s = do {
     s \<leftarrow> print_info p s;
     (i, s) \<leftarrow> scan_num s;
     s \<leftarrow> (case choose_field i of
       None \<Rightarrow> Some s
     | Some f \<Rightarrow> do { (w, s) \<leftarrow> scan_local s; h \<leftarrow> overwrite f p w (people s); Some (s\<lparr>people := h\<rparr>) });
     s \<leftarrow> print_info p s;
     (c, s) \<leftarrow> scan_char s;
     Some s
   }"

fun change_first :: "cuchar list \<Rightarrow> ptr list \<Rightarrow> book \<Rightarrow> book option" where
  "change_first w [] s = Some (not_found s)"
| "change_first w (p # ps) s = do {
     m \<leftarrow> is_entry (people s) w p;
     (if m then change_entry p s else change_first w ps s)
   }"

definition node_del :: "link_man heap \<Rightarrow> ptr \<Rightarrow> link_man heap option" where
  "node_del h node = do {
     nx \<leftarrow> rd h list_head.nxt node;
     pr \<leftarrow> rd h list_head.prev node;
     h \<leftarrow> wr h nx (\<lambda>n. n\<lparr>prev := pr\<rparr>);
     pr' \<leftarrow> rd h list_head.prev node;
     nx' \<leftarrow> rd h list_head.nxt node;
     h \<leftarrow> wr h pr' (\<lambda>n. n\<lparr>nxt := nx'\<rparr>);
     h \<leftarrow> list_head_init h node;
     free h node
   }"

text \<open>The loop over the entries ends with the first one, whatever it is.\<close>

definition delete_first :: "cuchar list \<Rightarrow> ptr list \<Rightarrow> book \<Rightarrow> book option" where
  "delete_first w ps s = (case ps of
     [] \<Rightarrow> Some s
   | p # _ \<Rightarrow> do {
       m \<leftarrow> is_entry (people s) w p;
       (if m then do {
          s \<leftarrow> print_info p s;
          (c, s) \<leftarrow> scan_char s;
          (if is_key CHR ''Y'' CHR ''y'' c then do { h \<leftarrow> node_del (people s) p; Some (s\<lparr>people := h\<rparr>) } else Some s)
        } else Some (not_found s))
     })"

definition update_link_man :: "book \<Rightarrow> book option" where
  "update_link_man s = do {
     (i, s) \<leftarrow> scan_num s;
     (if i = 1 then do {
        (w, s) \<leftarrow> scan_local s;
        ps \<leftarrow> list_for_each (people s) (address_list s);
        change_first w ps s
      } else if i = 2 then do {
        (w, s) \<leftarrow> scan_local s;
        ps \<leftarrow> list_for_each (people s) (address_list s);
        delete_first w ps s
      } else Some s)
   }"

subsection \<open>Destroying, saving and the menu\<close>

partial_function (option) list_destory :: "link_man heap \<Rightarrow> ptr \<Rightarrow> link_man heap option" where
  "list_destory h head = do {
     nx \<leftarrow> rd h list_head.nxt head;
     (if nx \<noteq> head then do { h \<leftarrow> node_del h nx; list_destory h head } else Some h)
   }"

definition save_line :: "cuchar list" where
  "save_line = replicate 24 (of_char CHR ''-'')"

definition save_entry :: "link_man heap \<Rightarrow> ptr \<Rightarrow> cuchar list option" where
  "save_entry h p = do {
     ts \<leftarrow> texts_of h [name_field, tel_field, email_field, company_field, address_field, spell_field] p;
     Some (concat (map (\<lambda>t. t @ [10]) ts) @ save_line)
   }"

fun save_nodes :: "link_man heap \<Rightarrow> ptr list \<Rightarrow> cuchar list option" where
  "save_nodes h [] = Some []"
| "save_nodes h (p # ps) = do { t \<leftarrow> save_entry h p; u \<leftarrow> save_nodes h ps; Some (t @ u) }"

text \<open>The result and the file; \<open>opened\<close>: the file could be opened.\<close>

definition save :: "bool \<Rightarrow> book \<Rightarrow> (int \<times> cuchar list option) option" where
  "save opened s = do {
     nx \<leftarrow> rd (people s) list_head.nxt (address_list s);
     (if \<not> opened then Some (-1, None)
      else do { ps \<leftarrow> list_for_each (people s) (address_list s); t \<leftarrow> save_nodes (people s) ps; Some (0, Some t) })
   }"

text \<open>One turn of the menu; \<open>True\<close>: the program goes on. The file is what the last export wrote.\<close>

definition menu_turn :: "bool \<Rightarrow> cuchar list option \<Rightarrow> book \<Rightarrow> (bool \<times> cuchar list option \<times> book) option" where
  "menu_turn opened file s = do {
     (i, s) \<leftarrow> scan_num s;
     (if i = 1 then do { s \<leftarrow> add_link_man s; Some (True, file, s) }
      else if i = 2 then do { s \<leftarrow> display_link_man print_linkman s; s \<leftarrow> update_link_man s; Some (True, file, s) }
      else if i = 3 then do { s \<leftarrow> find_link_man s; Some (True, file, s) }
      else if i = 4 then do { s \<leftarrow> display_link_man print_linkman s; Some (True, file, s) }
      else if i = 5 then do { (r, t) \<leftarrow> save opened s; Some (True, (if t = None then file else t), s) }
      else if i = 0 then do { h \<leftarrow> list_destory (people s) (address_list s); Some (False, file, s\<lparr>people := h\<rparr>) }
      else Some (True, file, s))
   }"

partial_function (option) menu_loop :: "bool \<Rightarrow> cuchar list option \<Rightarrow> book \<Rightarrow> (cuchar list option \<times> book) option" where
  "menu_loop opened file s = do {
     (on, file, s) \<leftarrow> menu_turn opened file s;
     (if on then menu_loop opened file s else Some (file, s))
   }"

definition address_main :: "bool \<Rightarrow> cuchar list option \<Rightarrow> book \<Rightarrow> (cuchar list option \<times> book) option" where
  "address_main opened file s = do {
     h \<leftarrow> list_head_init (people s) (address_list s);
     menu_loop opened file (s\<lparr>people := h\<rparr>)
   }"

subsection \<open>The entries\<close>

text \<open>
  The arrays of an entry in the order of the form. \<open>book_inv s es\<close>: the list holds the entries \<open>es\<close>; every array has
  its size and a terminating zero.
\<close>

definition bufs :: "link_man \<Rightarrow> cuchar list list" where
  "bufs n = [lname n, lspell n, ltel n, lemail n, lcompany n, laddress n, lpost n]"

definition sizes :: "nat list" where
  "sizes = [MAX_LNAME, MAX_SPELL, MAX_TEL, MAX_EMAIL, CO_SIZE, ADDR_SIZE, POST_NUM]"

definition entry_ok :: "cuchar list list \<Rightarrow> bool" where
  "entry_ok e \<longleftrightarrow> map length e = sizes \<and> (\<forall>b \<in> set e. 0 \<in> set b)"

definition holds_entries :: "link_man heap \<Rightarrow> ptr list \<Rightarrow> cuchar list list list \<Rightarrow> bool" where
  "holds_entries h ps es \<longleftrightarrow> map (fld h bufs) ps = map Some es \<and> (\<forall>e \<in> set es. entry_ok e)"

definition book_inv :: "book \<Rightarrow> cuchar list list list \<Rightarrow> bool" where
  "book_inv s es \<longleftrightarrow> (\<exists>ps. ring (people s) (address_list s) ps \<and> holds_entries (people s) ps es)
     \<and> fresh_avail (people s) \<and> map length (bufs (junk (people s))) = sizes"

text \<open>A field is a place in this order.\<close>

definition field_at :: "field \<Rightarrow> nat \<Rightarrow> bool" where
  "field_at f j \<longleftrightarrow> j < 7 \<and> snd (snd f) = sizes ! j \<and> (\<forall>n. fst f n = bufs n ! j)
     \<and> (\<forall>b n. bufs (fst (snd f) b n) = (bufs n)[j := b] \<and> nxt (fst (snd f) b n) = nxt n \<and> prev (fst (snd f) b n) = prev n)"

lemmas field_defs = name_field_def tel_field_def email_field_def company_field_def address_field_def post_field_def spell_field_def

lemma fields_at:
  "field_at name_field 0" "field_at spell_field 1" "field_at tel_field 2" "field_at email_field 3"
  "field_at company_field 4" "field_at address_field 5" "field_at post_field 6"
  by (simp_all add: field_at_def field_defs bufs_def sizes_def)

lemma form_at: "j < 7 \<Longrightarrow> field_at (form ! j) j"
proof -
  assume "j < 7"
  then have "j = 0 \<or> j = 1 \<or> j = 2 \<or> j = 3 \<or> j = 4 \<or> j = 5 \<or> j = 6" by presburger
  then show ?thesis using fields_at by (auto simp: form_def)
qed

lemma length_form [simp]: "length form = 7" "length sizes = 7"
  by (simp_all add: form_def sizes_def)

lemma length_bufs [simp]: "length (bufs n) = 7"
  by (simp add: bufs_def)

text \<open>Writing into the arrays of one entry leaves the links and the other entries alone.\<close>

definition edits :: "link_man heap \<Rightarrow> link_man heap \<Rightarrow> ptr \<Rightarrow> cuchar list list \<Rightarrow> bool" where
  "edits h h' p e \<longleftrightarrow> fld h' list_head.nxt = fld h list_head.nxt \<and> fld h' list_head.prev = fld h list_head.prev
     \<and> fld h' bufs = (fld h bufs)(p := Some e) \<and> avail h' = avail h \<and> junk h' = junk h \<and> (\<forall>q. live h' q = live h q)"

lemma fld_bufs_nth: "fld h bufs p = Some e \<Longrightarrow> field_at f j \<Longrightarrow> fld h (fst f) p = Some (e ! j)"
  by (auto simp: fld_def field_at_def)

lemma edits_put:
  assumes f: "field_at f j" and p: "live h p" "fld h bufs p = Some e"
  shows "edits h (upd h p (fst (snd f) b)) p (e[j := b])"
proof -
  have g: "\<And>n. bufs (fst (snd f) b n) = (bufs n)[j := b]" "\<And>n. nxt (fst (snd f) b n) = nxt n" "\<And>n. prev (fst (snd f) b n) = prev n"
    using f by (simp_all add: field_at_def)
  have "fld (upd h p (fst (snd f) b)) bufs = (fld h bufs)(p := Some (e[j := b]))"
    using p g(1) by (auto simp: fld_def upd_def fun_eq_iff)
  then show ?thesis using g(2,3) by (simp add: edits_def heap_simps)
qed

lemma edits_trans: "edits h h1 p e1 \<Longrightarrow> edits h1 h2 p e \<Longrightarrow> edits h h2 p e"
  by (simp add: edits_def)

lemma scan_field_edits:
  assumes f: "field_at f j" and p: "live (people s) p" "fld (people s) bufs p = Some e"
    and w: "typed s = Word_in w # ks" "length w < sizes ! j"
  shows "\<exists>h'. scan_field f p s = Some (s\<lparr>people := h', typed := ks\<rparr>) \<and> edits (people s) h' p (e[j := store (w @ [0]) (e ! j)])"
proof -
  obtain get put sz where eq: "f = (get, put, sz)" by (cases f)
  have "rd (people s) get p = Some (e ! j)" using fld_bufs_nth[OF p(2) f] eq by (simp add: live_rd[OF p(1)])
  moreover have "sz = sizes ! j" using f eq by (simp add: field_at_def)
  ultimately have "scan_field f p s = Some (s\<lparr>people := upd (people s) p (put (store (w @ [0]) (e ! j))), typed := ks\<rparr>)"
    using w live_wr[OF p(1)] eq by (simp add: scan_field_def scan_word_def scan_to_def)
  then show ?thesis using edits_put[OF f p, of "store (w @ [0]) (e ! j)"] eq by auto
qed

text \<open>The whole form.\<close>

definition fill_entry :: "cuchar list list \<Rightarrow> cuchar list list \<Rightarrow> cuchar list list" where
  "fill_entry ws e = map2 (\<lambda>w b. store (w @ [0]) b) ws e"

lemma scan_fields_edits:
  assumes "live (people s) p" and "fld (people s) bufs p = Some e" and "length e = 7" and "j + length ws = 7"
    and "typed s = map Word_in ws @ ks" and "\<forall>k < length ws. length (ws ! k) < sizes ! (j + k)"
  shows "\<exists>h'. scan_fields (drop j form) p s = Some (s\<lparr>people := h', typed := ks\<rparr>)
    \<and> edits (people s) h' p (take j e @ fill_entry ws (drop j e))"
  using assms
proof (induction ws arbitrary: j s e)
  case Nil
  have "edits (people s) (people s) p e" using Nil.prems(2) by (auto simp: edits_def fun_eq_iff)
  then show ?case using Nil.prems by (intro exI[of _ "people s"]) (simp add: fill_entry_def)
next
  case (Cons w ws)
  let ?b = "store (w @ [0]) (e ! j)"
  have j: "j < 7" using Cons.prems(4) by simp
  have "length w < sizes ! j" using spec[OF Cons.prems(6), of 0] by simp
  then obtain h1 where h1: "scan_field (form ! j) p s = Some (s\<lparr>people := h1, typed := map Word_in ws @ ks\<rparr>)"
      "edits (people s) h1 p (e[j := ?b])"
    using scan_field_edits[OF form_at[OF j] Cons.prems(1,2), of w "map Word_in ws @ ks"] Cons.prems(5) by auto
  let ?s = "s\<lparr>people := h1, typed := map Word_in ws @ ks\<rparr>"
  have "\<forall>k < length ws. length (ws ! k) < sizes ! (Suc j + k)" using Cons.prems(6) by (metis Suc_less_eq add_Suc add_Suc_right length_Cons nth_Cons_Suc)
  then obtain h2 where h2: "scan_fields (drop (Suc j) form) p ?s = Some (?s\<lparr>people := h2, typed := ks\<rparr>)"
      "edits h1 h2 p (take (Suc j) (e[j := ?b]) @ fill_entry ws (drop (Suc j) (e[j := ?b])))"
    using Cons.IH[of ?s "e[j := ?b]" "Suc j"] Cons.prems h1(2) by (auto simp: edits_def)
  have "take (Suc j) (e[j := ?b]) @ fill_entry ws (drop (Suc j) (e[j := ?b])) = take j e @ fill_entry (w # ws) (drop j e)"
    using j Cons.prems(3) by (simp add: take_Suc_conv_app_nth fill_entry_def Cons_nth_drop_Suc[symmetric])
  moreover have "drop j form = form ! j # drop (Suc j) form" using j by (simp add: Cons_nth_drop_Suc)
  ultimately show ?case using h1 h2 edits_trans[OF h1(2)] by auto
qed

lemma bufs_more:
  fixes n n' :: link_man
  assumes "list_head.more n = list_head.more n'"
  shows "bufs n = bufs n'"
  using assms by (cases n; cases n'; simp add: bufs_def)

lemma bufs_links: "links_to h h' N P \<Longrightarrow> fld h' bufs = fld h bufs"
  by (rule fld_more_cong[OF links_to_more bufs_more])

lemma fill_entry_ok:
  assumes "map length e = sizes" and "length ws = 7" and "\<forall>k < 7. length (ws ! k) < sizes ! k" and "\<forall>w \<in> set ws. 0 \<notin> set w"
  shows "entry_ok (fill_entry ws e)" and "map cstr (fill_entry ws e) = ws"
proof -
  have e: "length e = 7" using arg_cong[OF assms(1), of length] by simp
  then have l: "length (fill_entry ws e) = 7" using assms(2) by (simp add: fill_entry_def)
  have n: "fill_entry ws e ! k = ws ! k @ 0 # drop (Suc (length (ws ! k))) (e ! k)" "length (e ! k) = sizes ! k" if "k < 7" for k
    using that e assms(2) arg_cong[OF assms(1), of "\<lambda>xs. xs ! k"] by (simp_all add: fill_entry_def store_def)
  have "map length (fill_entry ws e) = sizes"
  proof (rule nth_equalityI)
    show "map length (fill_entry ws e) ! k = sizes ! k" if "k < length (map length (fill_entry ws e))" for k
    proof -
      have k: "k < 7" using that l by simp
      then have "length (ws ! k) < sizes ! k" using assms(3) by blast
      then show ?thesis using n[OF k] k l by simp
    qed
  qed (simp add: l)
  moreover have "0 \<in> set b" if "b \<in> set (fill_entry ws e)" for b
    using that n(1) l by (metis in_set_conv_nth in_set_conv_decomp)
  ultimately show "entry_ok (fill_entry ws e)" by (simp add: entry_ok_def)
  show "map cstr (fill_entry ws e) = ws"
  proof (rule nth_equalityI)
    show "map cstr (fill_entry ws e) ! k = ws ! k" if "k < length (map cstr (fill_entry ws e))" for k
    proof -
      have k: "k < 7" using that l by simp
      then have "0 \<notin> set (ws ! k)" using assms(2,4) by simp
      then show ?thesis using n(1)[OF k] k l by (simp add: cstr_append)
    qed
  qed (simp add: l assms(2))
qed

text \<open>What adding does up to the question.\<close>

lemma add_filled:
  assumes inv: "book_inv s es" and av: "avail (people s) \<noteq> []" and ws: "length ws = 7" "\<forall>k < 7. length (ws ! k) < sizes ! k"
    and ty: "typed s = map Word_in ws @ ks"
  shows "\<exists>new h h'. malloc (people s) = (new, h) \<and> scan_fields form new (s\<lparr>people := h\<rparr>) = Some (s\<lparr>people := h', typed := ks\<rparr>)
    \<and> length (avail (people s)) = Suc (length (avail h')) \<and> \<not> live (people s) new \<and> live h' new \<and> fresh_avail h' \<and> junk h' = junk (people s)
    \<and> fld h' bufs = (fld (people s) bufs)(new := Some (fill_entry ws (bufs (junk (people s)))))
    \<and> (\<forall>qs. ring (people s) (address_list s) qs \<longrightarrow> ring h' (address_list s) qs)"
proof -
  have fa: "fresh_avail (people s)" using inv by (simp add: book_inv_def)
  obtain p h where m: "malloc (people s) = (p, h)" by fastforce
  then have p: "p \<noteq> NULL" using malloc_avail(1)[OF fa] av by auto
  note ml = malloc_live[OF m p]
  let ?s = "s\<lparr>people := h\<rparr>"
  let ?e = "fill_entry ws (bufs (junk (people s)))"
  have "fld (people ?s) bufs p = Some (bufs (junk (people s)))" by (simp add: ml(4))
  then obtain h' where h': "scan_fields form p ?s = Some (?s\<lparr>people := h', typed := ks\<rparr>)" "edits h h' p ?e"
    using scan_fields_edits[of ?s p "bufs (junk (people s))" 0 ws ks] ml(1) ws ty by auto
  have lv: "live h' q = live h q" for q using h'(2) by (simp add: edits_def)
  have b: "fld h' bufs = (fld (people s) bufs)(p := Some ?e)" using h'(2) by (simp add: edits_def ml(4))
  have f0: "fresh_avail h" by (rule fresh_avail_step[OF fa m])
  have av': "avail h' = avail h" using h'(2) by (simp add: edits_def)
  then have ac: "length (avail (people s)) = Suc (length (avail h'))" using malloc_avail(2)[OF fa m p] by simp
  from av' have f: "fresh_avail h'" using f0 lv unfolding fresh_avail_def live_def by metis
  have j: "junk h' = junk (people s)" using h'(2) malloc_Some(3)[OF m p] by (simp add: edits_def)
  have r: "ring h' (address_list s) qs" if "ring (people s) (address_list s) qs" for qs
  proof -
    have "p \<notin> set (address_list s # qs)" using ml(2) ring_live[OF that] by blast
    moreover have "fld h' list_head.nxt = fld h list_head.nxt" "fld h' list_head.prev = fld h list_head.prev" using h'(2) by (simp_all add: edits_def)
    ultimately show ?thesis using that by (simp add: ml(4))
  qed
  show ?thesis using m h'(1) ac ml(2) lv ml(1) f j b r by (intro exI[of _ p] exI[of _ h] exI[of _ h']) simp
qed

lemma list_add_tail_junk: "list_add_tail h a p = Some h' \<Longrightarrow> junk h' = junk h"
  unfolding list_add_tail_def list_add_between_def by (auto dest!: bind_eq_SomeD wr_junk)

lemma add_confirmed:
  assumes inv: "book_inv s es" and av: "avail (people s) \<noteq> []" and ws: "length ws = 7" "\<forall>k < 7. length (ws ! k) < sizes ! k"
    and z: "\<forall>w \<in> set ws. 0 \<notin> set w" and ty: "typed s = map Word_in ws @ Char_in c # ks" and c: "is_key CHR ''Y'' CHR ''y'' c"
  shows "\<exists>s' e. add_link_man s = Some s' \<and> book_inv s' (es @ [e]) \<and> map cstr e = ws \<and> typed s' = ks \<and> screen s' = screen s
    \<and> length (avail (people s)) = Suc (length (avail (people s'))) \<and> address_list s' = address_list s"
proof -
  let ?e = "fill_entry ws (bufs (junk (people s)))"
  obtain ps where ps: "ring (people s) (address_list s) ps" "holds_entries (people s) ps es" using inv by (auto simp: book_inv_def)
  have jk: "map length (bufs (junk (people s))) = sizes" using inv by (simp add: book_inv_def)
  obtain p h h' where a: "malloc (people s) = (p, h)"
      "scan_fields form p (s\<lparr>people := h\<rparr>) = Some (s\<lparr>people := h', typed := Char_in c # ks\<rparr>)"
      "\<not> live (people s) p" "live h' p" "fresh_avail h'" "junk h' = junk (people s)"
      "fld h' bufs = (fld (people s) bufs)(p := Some ?e)" "ring h' (address_list s) ps" "length (avail (people s)) = Suc (length (avail h'))"
    using add_filled[OF inv av ws ty] ps(1) by blast
  have pin: "p \<notin> set (address_list s # ps)" using a(3) ring_live[OF ps(1)] by blast
  obtain h2 N P where h2: "list_add_tail h' (address_list s) p = Some h2" "ring h2 (address_list s) (ps @ [p])" "links_to h' h2 N P"
    using list_add_tail_ring[OF a(8,4) pin] by blast
  have "add_loop p (s\<lparr>people := h\<rparr>) = Some (s\<lparr>people := h2, typed := ks\<rparr>)"
    using a(2) h2(1) c by (subst add_loop.simps) (simp add: scan_char_def)
  then have "add_link_man s = Some (s\<lparr>people := h2, typed := ks\<rparr>)" using a(1) by (simp add: add_link_man_def)
  moreover have "holds_entries h2 (ps @ [p]) (es @ [?e])"
    using ps(2) pin fill_entry_ok(1)[OF jk ws z] unfolding holds_entries_def bufs_links[OF h2(3)] a(7) by (auto simp: map_fun_upd)
  moreover have "junk h2 = junk h'" by (rule list_add_tail_junk[OF h2(1)])
  moreover have "fresh_avail h2" "avail h2 = avail h'" using fresh_avail_links[OF a(5) h2(3)] h2(3) by (simp_all add: links_to_def)
  ultimately show ?thesis using h2(2) jk a(6,9) fill_entry_ok(2)[OF jk ws z]
    by (intro exI[of _ "s\<lparr>people := h2, typed := ks\<rparr>"] exI[of _ ?e]) (auto simp: book_inv_def)
qed

text \<open>Without the confirmation the book stays as it was; after "no", filling the form again writes to freed memory.\<close>

lemma free_entry:
  assumes inv: "book_inv s es" and b: "fld h' bufs = (fld (people s) bufs)(p := Some e)" and l: "\<not> live (people s) p" "live h' p"
    and f: "fresh_avail h'" and j: "junk h' = junk (people s)" and r: "\<forall>qs. ring (people s) (address_list s) qs \<longrightarrow> ring h' (address_list s) qs"
  shows "\<exists>h2. free h' p = Some h2 \<and> \<not> live h2 p \<and> book_inv (s\<lparr>people := h2, typed := ks\<rparr>) es"
proof -
  let ?h2 = "h'\<lparr>mem := (mem h')(p := None)\<rparr>"
  obtain ps where ps: "ring (people s) (address_list s) ps" "holds_entries (people s) ps es" using inv by (auto simp: book_inv_def)
  have pin: "p \<notin> set (address_list s # ps)" using l(1) ring_live[OF ps(1)] by blast
  have "ring h' (address_list s) ps" using r ps(1) by blast
  then have "ring ?h2 (address_list s) ps" using pin by (simp add: fld_free)
  moreover have "holds_entries ?h2 ps es" using ps(2) pin by (simp add: holds_entries_def fld_free b map_fun_upd)
  ultimately have "book_inv (s\<lparr>people := ?h2, typed := ks\<rparr>) es"
    using fresh_avail_dealloc[OF f] inv j by (auto simp: book_inv_def)
  then show ?thesis using live_free[OF l(2)] by (auto simp: live_dealloc)
qed

lemma add_not_confirmed:
  assumes inv: "book_inv s es" and av: "avail (people s) \<noteq> []" and ws: "length ws = 7" "\<forall>k < 7. length (ws ! k) < sizes ! k"
    and ty: "typed s = map Word_in ws @ Char_in c # ks" and c: "\<not> is_key CHR ''Y'' CHR ''y'' c"
  shows "if is_key CHR ''N'' CHR ''n'' c then add_link_man s = None
    else \<exists>s'. add_link_man s = Some s' \<and> book_inv s' es \<and> typed s' = ks"
proof -
  obtain p h h' where a: "malloc (people s) = (p, h)"
      "scan_fields form p (s\<lparr>people := h\<rparr>) = Some (s\<lparr>people := h', typed := Char_in c # ks\<rparr>)"
      "\<not> live (people s) p" "live h' p" "fresh_avail h'" "junk h' = junk (people s)"
      "fld h' bufs = (fld (people s) bufs)(p := Some (fill_entry ws (bufs (junk (people s)))))"
      "\<forall>qs. ring (people s) (address_list s) qs \<longrightarrow> ring h' (address_list s) qs"
    using add_filled[OF inv av ws ty] by blast
  obtain h2 where h2: "free h' p = Some h2" "\<not> live h2 p" "book_inv (s\<lparr>people := h2, typed := ks\<rparr>) es"
    using free_entry[OF inv a(7,3,4,5,6,8)] by blast
  let ?s = "s\<lparr>typed := ks, people := h2\<rparr>"
  have inv2: "book_inv ?s es" using h2(3) by (simp add: book_inv_def)
  have "add_loop p (s\<lparr>people := h\<rparr>) = (if is_key CHR ''N'' CHR ''n'' c then add_loop p ?s else Some ?s)"
    using a(2) h2(1) c by (subst add_loop.simps) (simp add: scan_char_def)
  then have al: "add_link_man s = (if is_key CHR ''N'' CHR ''n'' c then add_loop p ?s else Some ?s)"
    using a(1) by (simp add: add_link_man_def)
  have "scan_fields form p ?s = None"
    by (simp add: form_def scan_field_def name_field_def scan_word_def dead_rd[OF h2(2)] split: list.splits input.splits)
  then have "add_loop p ?s = None" by (subst add_loop.simps) simp
  then show ?thesis using al inv2 by auto
qed

subsection \<open>Deleting\<close>

lemma node_del_ring:
  assumes r: "ring h a (xs @ node # ys)"
  shows "\<exists>h'. node_del h node = Some h' \<and> ring h' a (xs @ ys) \<and> fld h' bufs = (fld h bufs)(node := None) \<and> \<not> live h' node
    \<and> (\<forall>q. q \<noteq> node \<longrightarrow> live h' q = live h q) \<and> (fresh_avail h \<longrightarrow> fresh_avail h') \<and> junk h' = junk h"
proof -
  let ?pr = "last (a # xs)" and ?nx = "hd (ys @ [a])"
  have d: "distinct (a # xs @ node # ys)" by (rule dring_distinct[OF r])
  then have ne: "?pr \<noteq> node" "?nx \<noteq> node" using last_Cons_in[of a xs] hd_snoc_in[of ys a] by auto
  have lv: "live h ?pr" "live h ?nx" "live h node"
    using ring_live_around[of h a "xs @ [node]" ys] ring_live_around[of h a xs "node # ys"] r by auto
  have f: "fld h nxt node = Some ?nx" "fld h prev node = Some ?pr" using dring_next[OF r] dring_prev[OF r] .
  let ?h1 = "upd h ?nx (\<lambda>n. n\<lparr>prev := ?pr\<rparr>)"
  let ?h2 = "upd ?h1 ?pr (\<lambda>n. n\<lparr>nxt := ?nx\<rparr>)"
  let ?h4 = "upd (upd ?h2 node (\<lambda>n. n\<lparr>nxt := node\<rparr>)) node (\<lambda>n. n\<lparr>prev := node\<rparr>)"
  let ?h' = "?h4\<lparr>mem := (mem ?h4)(node := None)\<rparr>"
  have f1: "fld ?h1 nxt node = Some ?nx" "fld ?h1 prev node = Some ?pr" using f ne lv by (simp_all del: last.simps add: heap_simps)
  have "node_del h node = Some ?h'"
    using lv f f1 by (simp del: last.simps add: node_del_def list_head_init_def heap_simps live_free)
  moreover have "fld ?h' nxt = (fld h nxt)(?pr := Some ?nx, node := None)" "fld ?h' prev = (fld h prev)(?nx := Some ?pr, node := None)"
    using lv by (simp_all del: last.simps add: fld_free heap_simps)
  moreover have "dring ((fld h nxt)(?pr := Some ?nx, node := None)) ((fld h prev)(?nx := Some ?pr, node := None)) a (xs @ ys)"
    using dring_remove[OF r refl refl] d by (simp del: last.simps)
  moreover have "fld ?h' bufs = (fld h bufs)(node := None)"
    by (simp del: last.simps add: fld_free fld_upd_other bufs_def)
  moreover have "fresh_avail h \<longrightarrow> fresh_avail ?h'" by (simp del: last.simps add: fresh_avail_dealloc heap_simps)
  ultimately show ?thesis by (intro exI[of _ ?h']) (simp del: last.simps add: heap_simps)
qed

text \<open>What is compared and shown of an entry.\<close>

lemma text_of_entry:
  assumes "field_at f j" and "live h p" and "fld h bufs p = Some e" and "entry_ok e"
  shows "text_of h f p = Some (cstr (e ! j))"
proof -
  have e: "length e = 7" using assms(4) unfolding entry_ok_def by (metis length_form(2) length_map)
  have j: "j < 7" using assms(1) by (simp add: field_at_def)
  then have "e ! j \<in> set e" using e by simp
  then have "0 \<in> set (e ! j)" using assms(4) unfolding entry_ok_def by blast
  then show ?thesis using fld_bufs_nth[OF assms(3,1)] by (cases f) (simp add: text_of_def fmt_s_def live_rd[OF assms(2)])
qed

definition named :: "cuchar list \<Rightarrow> cuchar list list \<Rightarrow> bool" where
  "named w e \<longleftrightarrow> cstr (e ! 0) = w \<or> cstr (e ! 2) = w"

lemma is_entry_named:
  assumes "live h p" and "fld h bufs p = Some e" and "entry_ok e"
  shows "is_entry h w p = Some (named w e)"
  using text_of_entry[OF fields_at(1) assms] text_of_entry[OF fields_at(3) assms] by (simp add: is_entry_def named_def)

lemma texts_of_entry:
  assumes "live h p" and "fld h bufs p = Some e" and "entry_ok e"
  shows "texts_of h [name_field, tel_field, email_field, company_field, address_field, post_field] p
      = Some (map cstr [e ! 0, e ! 2, e ! 3, e ! 4, e ! 5, e ! 6])"
    and "texts_of h [name_field, tel_field] p = Some (map cstr [e ! 0, e ! 2])"
    and "texts_of h [name_field, tel_field, email_field, company_field, address_field, spell_field] p
      = Some (map cstr [e ! 0, e ! 2, e ! 3, e ! 4, e ! 5, e ! 1])"
  by (simp_all add: fields_at(1-7)[THEN text_of_entry[OF _ assms]])

definition shown :: "cuchar list list \<Rightarrow> cuchar list list" where
  "shown e = map cstr [e ! 0, e ! 2, e ! 3, e ! 4, e ! 5, e ! 6]"

lemma print_info_entry:
  assumes "live (people s) p" and "fld (people s) bufs p = Some e" and "entry_ok e"
  shows "print_info p s = Some (s\<lparr>screen := screen s @ [shown e]\<rparr>)"
  unfolding print_info_def texts_of_entry(1)[OF assms] shown_def by simp

lemma entry_first:
  assumes "ring (people s) (address_list s) ps" and "holds_entries (people s) ps (e # es)"
  shows "\<exists>p qs. ps = p # qs \<and> live (people s) p \<and> fld (people s) bufs p = Some e \<and> entry_ok e \<and> holds_entries (people s) qs es"
  using assms ring_live[OF assms(1)] by (cases ps) (auto simp: holds_entries_def)

text \<open>Only the first entry of the list can be deleted.\<close>

lemma delete_entry:
  assumes inv: "book_inv s (e # es)" and ty: "typed s = Num_in 2 # Word_in w # Char_in c # ks" and w: "length w < 20"
    and n: "named w e" and c: "is_key CHR ''Y'' CHR ''y'' c"
  shows "\<exists>s'. update_link_man s = Some s' \<and> book_inv s' es \<and> typed s' = ks"
proof -
  obtain ps where ps: "ring (people s) (address_list s) ps" "holds_entries (people s) ps (e # es)" using inv by (auto simp: book_inv_def)
  obtain p qs where p: "ps = p # qs" "live (people s) p" "fld (people s) bufs p = Some e" "entry_ok e" "holds_entries (people s) qs es"
    using entry_first[OF ps] by blast
  obtain h' where h': "node_del (people s) p = Some h'" "ring h' (address_list s) qs" "fld h' bufs = (fld (people s) bufs)(p := None)"
      "fresh_avail (people s) \<longrightarrow> fresh_avail h'" "junk h' = junk (people s)"
    using node_del_ring[of "people s" "address_list s" "[]" p qs] ps(1) p(1) by auto
  have "p \<notin> set qs" using dring_distinct[OF ps(1)] p(1) by simp
  then have "holds_entries h' qs es" using p(5) by (simp add: holds_entries_def h'(3) map_fun_upd)
  then have "book_inv (s\<lparr>screen := x, typed := ks, people := h'\<rparr>) es" for x
    using h' inv by (auto simp: book_inv_def)
  moreover have "update_link_man s = Some (s\<lparr>screen := screen s @ [shown e], typed := ks, people := h'\<rparr>)"
    using ty w list_for_each_ring[OF ps(1)] p is_entry_named[OF p(2-4)] n h'(1) c print_info_entry[of "s\<lparr>typed := Char_in c # ks\<rparr>" p e]
    by (simp add: update_link_man_def scan_num_def scan_local_def scan_word_def scan_char_def delete_first_def)
  ultimately show ?thesis by auto
qed

lemma delete_other:
  assumes inv: "book_inv s (e # es)" and ty: "typed s = Num_in 2 # Word_in w # ks" and w: "length w < 20" and n: "\<not> named w e"
  shows "update_link_man s = Some (not_found (s\<lparr>typed := ks\<rparr>))"
proof -
  obtain ps where ps: "ring (people s) (address_list s) ps" "holds_entries (people s) ps (e # es)" using inv by (auto simp: book_inv_def)
  obtain p qs where p: "ps = p # qs" "live (people s) p" "fld (people s) bufs p = Some e" "entry_ok e"
    using entry_first[OF ps] by blast
  show ?thesis
    using ty w list_for_each_ring[OF ps(1)] p is_entry_named[OF p(2-4)] n
    by (simp add: update_link_man_def scan_num_def scan_local_def scan_word_def delete_first_def)
qed

subsection \<open>Changing\<close>

text \<open>
  The letters are replaced without the terminating zero: of a longer old text the rest stays. Choice 4, the mail
  address, changes the name.
\<close>

definition chosen :: "int \<Rightarrow> nat" where
  "chosen i = (if i = 1 then 0 else if i = 2 then 1 else if i = 3 then 2 else if i = 4 then 0 else if i = 5 then 4 else if i = 6 then 5 else 6)"

lemma choose_field_at:
  assumes "1 \<le> i" and "i \<le> 7"
  shows "\<exists>f. choose_field i = Some f \<and> field_at f (chosen i)"
proof -
  have "i = 1 \<or> i = 2 \<or> i = 3 \<or> i = 4 \<or> i = 5 \<or> i = 6 \<or> i = 7" using assms by presburger
  then show ?thesis by (elim disjE) (simp_all add: choose_field_def chosen_def fields_at del: split_paired_Ex flip: One_nat_def)
qed

lemma cstr_split: "0 \<in> set b \<Longrightarrow> b = cstr b @ 0 # drop (Suc (length (cstr b))) b"
proof (induction b)
  case (Cons x b)
  then show ?case by (cases "x = 0") (simp_all add: cstr_def)
qed simp

lemma cstr_no_zero: "0 \<notin> set (cstr b)"
  by (auto simp: cstr_def dest: set_takeWhileD)

lemma overwritten:
  assumes "0 \<in> set b" and "0 \<notin> set v" and "length v \<le> length (cstr b)"
  shows "cstr (store v b) = v @ drop (length v) (cstr b)" and "0 \<in> set (store v b)" and "length (store v b) = length b"
proof -
  have b: "b = cstr b @ 0 # drop (Suc (length (cstr b))) b" by (rule cstr_split[OF assms(1)])
  have s: "store v b = (v @ drop (length v) (cstr b)) @ 0 # drop (Suc (length (cstr b))) b"
    unfolding store_def using assms(3) by (subst b) simp
  have "0 \<notin> set (v @ drop (length v) (cstr b))" using assms(2) cstr_no_zero[of b] by (auto dest: in_set_dropD)
  then show "cstr (store v b) = v @ drop (length v) (cstr b)" unfolding s by (rule cstr_append)
  show "0 \<in> set (store v b)" unfolding s by simp
  show "length (store v b) = length b" using arg_cong[OF b, of length] assms(3) unfolding s by simp
qed

lemma entry_ok_update:
  assumes "entry_ok e" and "j < 7" and "0 \<in> set b" and "length b = length (e ! j)"
  shows "entry_ok (e[j := b])"
proof -
  have "map length (e[j := b]) = map length e" using assms(4) by (simp add: map_update list_update_same_conv) (metis assms(4) list_update_id map_update)
  then show ?thesis using assms set_update_subset_insert[of e j b] by (auto simp: entry_ok_def)
qed

lemma entry_ok_nth: "entry_ok e \<Longrightarrow> j < 7 \<Longrightarrow> 0 \<in> set (e ! j) \<and> length (e ! j) = sizes ! j \<and> length e = 7"
  unfolding entry_ok_def by (metis length_form(2) length_map nth_map nth_mem)

lemma change_entry_text:
  assumes p: "live (people s) p" "fld (people s) bufs p = Some e" "entry_ok e"
    and i: "1 \<le> i" "i \<le> 7" and ty: "typed s = Num_in i # Word_in v # Char_in c # ks"
    and v: "0 \<notin> set v" "length v \<le> length (cstr (e ! chosen i))" "length v < 20"
  shows "\<exists>s'. change_entry p s = Some s' \<and> edits (people s) (people s') p (e[chosen i := store v (e ! chosen i)]) \<and> typed s' = ks
    \<and> address_list s' = address_list s"
proof -
  let ?j = "chosen i" and ?b = "store v (e ! chosen i)"
  obtain f where f: "choose_field i = Some f" "field_at f ?j" using choose_field_at[OF i] by blast
  have j: "?j < 7" using f(2) by (simp add: field_at_def)
  note e = entry_ok_nth[OF p(3) j]
  have b: "0 \<in> set ?b" "length ?b = length (e ! ?j)" using overwritten[OF _ v(1,2)] e by blast+
  have ok: "entry_ok (e[?j := ?b])" by (rule entry_ok_update[OF p(3) j b])
  let ?h = "upd (people s) p (fst (snd f) ?b)"
  have ed: "edits (people s) ?h p (e[?j := ?b])" by (rule edits_put[OF f(2) p(1,2)])
  then have p': "live ?h p" "fld ?h bufs p = Some (e[?j := ?b])" using p(1) by (simp_all add: edits_def)
  have "length v \<le> length (e ! ?j)" using v(2) unfolding cstr_def by (meson length_takeWhile_le order_trans)
  then have "overwrite f p v (people s) = Some ?h"
    using fld_bufs_nth[OF p(2) f(2)] e f(2) live_wr[OF p(1)]
    by (cases f) (simp add: overwrite_def live_rd[OF p(1)] field_at_def)
  moreover have "print_info p s = Some (s\<lparr>screen := screen s @ [shown e]\<rparr>)" by (rule print_info_entry[OF p])
  moreover have "print_info p (s\<lparr>screen := x, typed := y, people := ?h\<rparr>) = Some (s\<lparr>screen := x @ [shown (e[?j := ?b])], typed := y, people := ?h\<rparr>)" for x y
    using print_info_entry[of "s\<lparr>screen := x, typed := y, people := ?h\<rparr>" p "e[?j := ?b]"] p' ok by simp
  ultimately show ?thesis
    using ty f(1) v(3) ed by (simp add: change_entry_def scan_num_def scan_local_def scan_word_def scan_char_def)
qed

text \<open>The first entry with the name or the number is changed, the others stay.\<close>

lemma change_first_named:
  assumes r: "ring (people s) (address_list s) (qs @ ps)" and h: "holds_entries (people s) ps (es @ e # es2)"
    and n: "\<forall>x \<in> set es. \<not> named w x" "named w e"
  shows "\<exists>p. change_first w ps s = change_entry p s \<and> live (people s) p \<and> fld (people s) bufs p = Some e
    \<and> (\<exists>ps1 ps2. ps = ps1 @ p # ps2 \<and> length ps1 = length es)"
  using assms
proof (induction es arbitrary: ps qs)
  case Nil
  then obtain p ps2 where p: "ps = p # ps2" "fld (people s) bufs p = Some e" "entry_ok e"
    by (cases ps) (auto simp: holds_entries_def)
  have l: "live (people s) p" using ring_live[OF Nil.prems(1)] p(1) by simp
  show ?case using is_entry_named[OF l p(2,3)] Nil.prems(4) p l by (intro exI[of _ p]) auto
next
  case (Cons x es)
  then obtain p ps2 where p: "ps = p # ps2" "fld (people s) bufs p = Some x" "entry_ok x" "holds_entries (people s) ps2 (es @ e # es2)"
    by (cases ps) (auto simp: holds_entries_def)
  have l: "live (people s) p" using ring_live[OF Cons.prems(1)] p(1) by simp
  have "change_first w ps s = change_first w ps2 s" using is_entry_named[OF l p(2,3)] Cons.prems(3) p(1) by simp
  moreover obtain q ps1 ps3 where q: "change_first w ps2 s = change_entry q s" "live (people s) q" "fld (people s) bufs q = Some e"
      "ps2 = ps1 @ q # ps3" "length ps1 = length es"
    using Cons.IH[of "qs @ [p]" ps2] Cons.prems p(1,4) by auto
  moreover have "ps = (p # ps1) @ q # ps3 \<and> length (p # ps1) = length (x # es)" using p(1) q(4,5) by simp
  ultimately show ?case by metis
qed

lemma change_entry_first:
  assumes inv: "book_inv s (es @ e # es2)" and n: "\<forall>x \<in> set es. \<not> named w x" "named w e" "length w < 20"
    and i: "1 \<le> i" "i \<le> 7" and ty: "typed s = Num_in 1 # Word_in w # Num_in i # Word_in v # Char_in c # ks"
    and v: "0 \<notin> set v" "length v \<le> length (cstr (e ! chosen i))" "length v < 20"
  shows "\<exists>s' b. update_link_man s = Some s' \<and> book_inv s' (es @ e[chosen i := b] # es2) \<and> typed s' = ks
    \<and> cstr b = v @ drop (length v) (cstr (e ! chosen i))"
proof -
  let ?s = "s\<lparr>typed := Num_in i # Word_in v # Char_in c # ks\<rparr>" and ?b = "store v (e ! chosen i)"
  obtain ps where ps: "ring (people s) (address_list s) ps" "holds_entries (people s) ps (es @ e # es2)" using inv by (auto simp: book_inv_def)
  obtain p ps1 ps2 where p: "change_first w ps ?s = change_entry p ?s" "live (people ?s) p" "fld (people ?s) bufs p = Some e"
      "ps = ps1 @ p # ps2" "length ps1 = length es"
    using change_first_named[of ?s "[]" ps es e es2 w] ps n by auto
  have ok: "entry_ok e" using ps(2) by (simp add: holds_entries_def)
  obtain s' where s': "change_entry p ?s = Some s'" "edits (people s) (people s') p (e[chosen i := ?b])" "typed s' = ks" "address_list s' = address_list s"
    using change_entry_text[OF p(2,3) ok i _ v, of c ks] by auto
  have j: "chosen i < 7" by (simp add: chosen_def)
  note eb = entry_ok_nth[OF ok j]
  have ok': "entry_ok (e[chosen i := ?b])" using entry_ok_update[OF ok j] overwritten(2,3)[OF _ v(1,2)] eb by blast
  have d: "p \<notin> set ps1" "p \<notin> set ps2" using dring_distinct[OF ps(1)] p(4) by auto
  have "holds_entries (people s') ps (es @ e[chosen i := ?b] # es2)"
    using ps(2) d ok' s'(2) p(4,5) unfolding holds_entries_def edits_def by (auto simp: map_fun_upd)
  moreover have "ring (people s') (address_list s) ps" using ps(1) s'(2) by (simp add: edits_def)
  moreover have "fresh_avail (people s')" using inv s'(2) unfolding book_inv_def edits_def fresh_avail_def live_def by metis
  ultimately have "book_inv s' (es @ e[chosen i := ?b] # es2)" using inv s'(2,4) by (auto simp: book_inv_def edits_def)
  moreover have "update_link_man s = Some s'"
    using ty n(3) list_for_each_ring[OF ps(1)] p(1) s'(1) by (simp add: update_link_man_def scan_num_def scan_local_def scan_word_def)
  ultimately show ?thesis using s'(3) overwritten(1)[OF _ v(1,2)] eb by blast
qed

subsection \<open>Exporting and destroying\<close>

definition saved :: "cuchar list list \<Rightarrow> cuchar list" where
  "saved e = concat (map (\<lambda>j. cstr (e ! j) @ [10]) [0, 2, 3, 4, 5, 1]) @ save_line"

lemma save_entry_saved:
  assumes "live h p" and "fld h bufs p = Some e" and "entry_ok e"
  shows "save_entry h p = Some (saved e)"
  unfolding save_entry_def texts_of_entry(3)[OF assms] saved_def by simp

lemma save_nodes_saved:
  assumes "\<forall>p \<in> set ps. live h p" and "holds_entries h ps es"
  shows "save_nodes h ps = Some (concat (map saved es))"
  using assms
proof (induction ps arbitrary: es)
  case (Cons p ps)
  then obtain e es' where "es = e # es'" "fld h bufs p = Some e" "entry_ok e" "holds_entries h ps es'"
    by (cases es) (auto simp: holds_entries_def)
  then show ?case using Cons save_entry_saved[of h p e] by simp
qed (simp add: holds_entries_def)

lemma save_saved:
  assumes "book_inv s es"
  shows "save opened s = Some (if opened then (0, Some (concat (map saved es))) else (-1, None))"
proof -
  obtain ps where ps: "ring (people s) (address_list s) ps" "holds_entries (people s) ps es" using assms by (auto simp: book_inv_def)
  have "\<forall>p \<in> set ps. live (people s) p" using ring_live[OF ps(1)] by simp
  moreover have "rd (people s) list_head.nxt (address_list s) = Some (hd (ps @ [address_list s]))"
    using dring_next_head[OF ps(1)] by (simp add: live_rd[OF ring_live_head[OF ps(1)]])
  ultimately show ?thesis using save_nodes_saved ps list_for_each_ring[OF ps(1)] by (auto simp: save_def)
qed

lemma list_destory_ring:
  assumes "ring h a ps"
  shows "\<exists>h'. list_destory h a = Some h' \<and> ring h' a [] \<and> (\<forall>p \<in> set ps. \<not> live h' p) \<and> (\<forall>q. q \<notin> set ps \<longrightarrow> live h' q = live h q)"
  using assms
proof (induction ps arbitrary: h)
  case Nil
  have "rd h list_head.nxt a = Some a" using dring_next_head[OF Nil] by (simp add: live_rd[OF ring_live_head[OF Nil]])
  then show ?case using Nil by (subst list_destory.simps) auto
next
  case (Cons p ps)
  have x: "rd h list_head.nxt a = Some p" "p \<noteq> a"
    using dring_next_head[OF Cons.prems] dring_distinct[OF Cons.prems] by (auto simp: live_rd[OF ring_live_head[OF Cons.prems]])
  obtain h1 where h1: "node_del h p = Some h1" "ring h1 a ps" "\<not> live h1 p" "\<forall>q. q \<noteq> p \<longrightarrow> live h1 q = live h q"
    using node_del_ring[of h a "[]" p ps] Cons.prems by auto
  obtain h' where h': "list_destory h1 a = Some h'" "ring h' a []" "\<forall>q \<in> set ps. \<not> live h' q" "\<forall>q. q \<notin> set ps \<longrightarrow> live h' q = live h1 q"
    using Cons.IH[OF h1(2)] by blast
  have "p \<notin> set ps" using dring_distinct[OF Cons.prems] by simp
  then show ?case using x h1 h' by (subst list_destory.simps) auto
qed

subsection \<open>A session\<close>

text \<open>What the user types to enter the forms \<open>wss\<close>; a form fits when every word fits into its array.\<close>

definition form_ok :: "cuchar list list \<Rightarrow> bool" where
  "form_ok ws \<longleftrightarrow> length ws = 7 \<and> (\<forall>k < 7. length (ws ! k) < sizes ! k) \<and> (\<forall>w \<in> set ws. 0 \<notin> set w)"

definition type_form :: "cuchar list list \<Rightarrow> input list" where
  "type_form ws = Num_in 1 # map Word_in ws @ [Char_in (of_char CHR ''Y'')]"

lemma menu_add:
  assumes inv: "book_inv s es" and av: "avail (people s) \<noteq> []" and ws: "form_ok ws" and ty: "typed s = type_form ws @ ks"
  shows "\<exists>s' e. menu_turn opened out s = Some (True, out, s') \<and> book_inv s' (es @ [e]) \<and> map cstr e = ws \<and> typed s' = ks
    \<and> length (avail (people s)) = Suc (length (avail (people s'))) \<and> address_list s' = address_list s"
proof -
  let ?s = "s\<lparr>typed := map Word_in ws @ Char_in (of_char CHR ''Y'') # ks\<rparr>"
  have "book_inv ?s es" using inv by (simp add: book_inv_def)
  then obtain s' e where "add_link_man ?s = Some s'" "book_inv s' (es @ [e])" "map cstr e = ws" "typed s' = ks"
      "length (avail (people s)) = Suc (length (avail (people s')))" "address_list s' = address_list s"
    using add_confirmed[of ?s es ws "of_char CHR ''Y''" ks] av ws by (auto simp: form_ok_def is_key_def)
  then show ?thesis using ty by (intro exI[of _ s'] exI[of _ e]) (simp add: menu_turn_def scan_num_def type_form_def)
qed

definition saved_form :: "cuchar list list \<Rightarrow> cuchar list" where
  "saved_form ws = concat (map (\<lambda>j. ws ! j @ [10]) [0, 2, 3, 4, 5, 1]) @ save_line"

lemma saved_filled: "map cstr e = ws \<Longrightarrow> length ws = 7 \<Longrightarrow> saved e = saved_form ws"
  by (auto simp: saved_def saved_form_def)

lemma menu_session:
  assumes "book_inv s es" and "length wss \<le> length (avail (people s))" and "\<forall>ws \<in> set wss. form_ok ws"
    and "typed s = concat (map type_form wss) @ [Num_in 5, Num_in 0]"
  shows "\<exists>s'. menu_loop True out s = Some (Some (concat (map saved es) @ concat (map saved_form wss)), s')
    \<and> ring (people s') (address_list s) [] \<and> typed s' = []"
  using assms
proof (induction wss arbitrary: s es out)
  case Nil
  let ?s5 = "s\<lparr>typed := [Num_in 0]\<rparr>" and ?t = "concat (map saved es)"
  have "book_inv ?s5 es" using Nil.prems(1) by (simp add: book_inv_def)
  then have t5: "menu_turn True out s = Some (True, Some ?t, ?s5)"
    using Nil.prems(4) save_saved[of ?s5 es True] by (simp add: menu_turn_def scan_num_def)
  obtain ps where ps: "ring (people s) (address_list s) ps" using Nil.prems(1) by (auto simp: book_inv_def)
  obtain h' where h': "list_destory (people s) (address_list s) = Some h'" "ring h' (address_list s) []"
    using list_destory_ring[OF ps] by blast
  have t0: "menu_turn True (Some ?t) ?s5 = Some (False, Some ?t, s\<lparr>typed := [], people := h'\<rparr>)"
    using h'(1) by (simp add: menu_turn_def scan_num_def)
  have "menu_loop True (Some ?t) ?s5 = Some (Some ?t, s\<lparr>typed := [], people := h'\<rparr>)"
    by (subst menu_loop.simps) (simp add: t0)
  then have "menu_loop True out s = Some (Some ?t, s\<lparr>typed := [], people := h'\<rparr>)"
    by (subst menu_loop.simps) (simp add: t5)
  then show ?case using h'(2) by simp
next
  case (Cons ws wss)
  have av: "avail (people s) \<noteq> []" and f: "form_ok ws" using Cons.prems(2,3) by auto
  obtain s1 e where s1: "menu_turn True out s = Some (True, out, s1)" "book_inv s1 (es @ [e])" "map cstr e = ws"
      "typed s1 = concat (map type_form wss) @ [Num_in 5, Num_in 0]"
      "length (avail (people s)) = Suc (length (avail (people s1)))" "address_list s1 = address_list s"
    using menu_add[OF Cons.prems(1) av f, of "concat (map type_form wss) @ [Num_in 5, Num_in 0]" True out] Cons.prems(4) by auto
  obtain s' where s': "menu_loop True out s1 = Some (Some (concat (map saved (es @ [e])) @ concat (map saved_form wss)), s')"
      "ring (people s') (address_list s) []" "typed s' = []"
    using Cons.IH[OF s1(2) _ _ s1(4), of out] Cons.prems(2,3) s1(5,6) by auto
  have "menu_loop True out s = menu_loop True out s1" by (subst menu_loop.simps) (simp add: s1(1))
  moreover have "saved e = saved_form ws" using saved_filled[OF s1(3)] f by (simp add: form_ok_def)
  ultimately show ?case using s' by simp
qed

text \<open>The program from the start, with the head of the list somewhere in memory.\<close>

definition book_fresh :: "book \<Rightarrow> bool" where
  "book_fresh s \<longleftrightarrow> live (people s) (address_list s) \<and> fresh_avail (people s) \<and> map length (bufs (junk (people s))) = sizes"

lemma address_main_session:
  assumes "book_fresh s" and "length wss \<le> length (avail (people s))" and "\<forall>ws \<in> set wss. form_ok ws"
    and "typed s = concat (map type_form wss) @ [Num_in 5, Num_in 0]"
  shows "\<exists>s'. address_main True out s = Some (Some (concat (map saved_form wss)), s') \<and> ring (people s') (address_list s) []"
proof -
  have l: "live (people s) (address_list s)" using assms(1) by (simp add: book_fresh_def)
  obtain h where h: "list_head_init (people s) (address_list s) = Some h"
      "links_to (people s) h ((fld (people s) list_head.nxt)(address_list s := Some (address_list s)))
         ((fld (people s) list_head.prev)(address_list s := Some (address_list s)))"
    using list_head_init_links[OF l] by blast
  have "ring h (address_list s) []" using h(2) live_nonnull[OF l] by (simp add: links_to_def)
  moreover have "junk h = junk (people s)" using h(1) unfolding list_head_init_def by (auto dest!: bind_eq_SomeD wr_junk)
  moreover have "fresh_avail h" using fresh_avail_links[OF _ h(2)] assms(1) by (simp add: book_fresh_def)
  ultimately have "book_inv (s\<lparr>people := h\<rparr>) []" using assms(1) by (simp add: book_inv_def holds_entries_def book_fresh_def)
  moreover have "avail h = avail (people s)" using h(2) by (simp add: links_to_def)
  ultimately show ?thesis
    using menu_session[of "s\<lparr>people := h\<rparr>" "[]" wss out] assms h(1) by (auto simp: address_main_def)
qed

end
