(* ===== verification/MutexLeak.thy ===== *)
theory MutexLeak
  imports Threads
begin

section \<open>Threads that keep the mutex (05Pthread/02test.c)\<close>

text \<open>
  Both threads take the mutex, read from \<open>arg\<close>, a local variable of \<open>main\<close>, how often they shall count, and return
  without giving the mutex back: \<open>main\<close> does that after each \<open>pthread_join\<close>, which stores the thread's result 10 into
  \<open>arg\<close>. For a mutex that another thread has locked this is undefined by POSIX; glibc does not look at the owner of a
  default mutex. \<open>lenient\<close> chooses between the two. The pointer stored by \<open>pthread_join\<close> has eight bytes, \<open>arg\<close> four;
  the model keeps the low ones. The messages at the start of the threads are left out.
\<close>

datatype leak_tid = LMain | LT1 | LT2

datatype leak_pc = L_Unborn | L_Lock | L_Max | L_For | L_Store | L_Exited

datatype leak_main_pc = LM_Create1 | LM_Create2 | LM_Join1 | LM_Unlock1 | LM_Join2 | LM_Unlock2 | LM_Destroy | LM_Return | LM_Exit

record leak_thr =
  lpc :: leak_pc
  li :: int
  lmax :: int
  ltmp :: csize

record leak =
  lmutex :: "leak_tid option"
  lcount :: csize
  larg :: int
  lthr :: "leak_tid \<Rightarrow> leak_thr"
  lmain :: leak_main_pc
  lprinted :: "csize list"

text \<open>\<open>thr_demo\<close> and \<open>thr_demo2\<close> have the same body. The test of the loop comes with the read of the global.\<close>

definition leak_body :: "leak_tid \<Rightarrow> leak \<Rightarrow> leak turn" where
  "leak_body t s = (let d = lthr s t in case lpc d of
     L_Lock \<Rightarrow> mutex_lock t (lmutex s) (\<lambda>m. s\<lparr>lmutex := m, lthr := (lthr s)(t := d\<lparr>lpc := L_Max\<rparr>)\<rparr>)
   | L_Max \<Rightarrow> Step (s\<lparr>lthr := (lthr s)(t := d\<lparr>lpc := L_For, li := 0, lmax := larg s\<rparr>)\<rparr>)
   | L_For \<Rightarrow> Step (s\<lparr>lthr := (lthr s)(t := (if li d < lmax d then d\<lparr>lpc := L_Store, ltmp := lcount s\<rparr> else d\<lparr>lpc := L_Exited\<rparr>))\<rparr>)
   | L_Store \<Rightarrow> Step (s\<lparr>lcount := ltmp d + 1, lthr := (lthr s)(t := d\<lparr>lpc := L_For, li := li d + 1\<rparr>),
       lprinted := lprinted s @ [ltmp d + 1]\<rparr>)
   | L_Exited \<Rightarrow> Ends
   | L_Unborn \<Rightarrow> Waits)"

definition leak_demo :: "leak \<Rightarrow> leak turn" where
  "leak_demo s = leak_body LT1 s"

definition leak_demo2 :: "leak \<Rightarrow> leak turn" where
  "leak_demo2 s = leak_body LT2 s"

definition leak_unlock :: "bool \<Rightarrow> leak \<Rightarrow> leak_main_pc \<Rightarrow> leak turn" where
  "leak_unlock lenient s next_pc = (if lenient then Step (s\<lparr>lmutex := None, lmain := next_pc\<rparr>)
     else mutex_unlock LMain (lmutex s) (\<lambda>m. s\<lparr>lmutex := m, lmain := next_pc\<rparr>))"

definition leak_main :: "bool \<Rightarrow> (leak_tid \<Rightarrow> bool) \<Rightarrow> leak \<Rightarrow> leak turn" where
  "leak_main lenient created s = (case lmain s of
     LM_Create1 \<Rightarrow> (if created LT1 then Step (s\<lparr>lthr := (lthr s)(LT1 := (lthr s LT1)\<lparr>lpc := L_Lock\<rparr>), lmain := LM_Create2\<rparr>)
       else Step (s\<lparr>lmain := LM_Exit\<rparr>))
   | LM_Create2 \<Rightarrow> (if created LT2 then Step (s\<lparr>lthr := (lthr s)(LT2 := (lthr s LT2)\<lparr>lpc := L_Lock\<rparr>), lmain := LM_Join1\<rparr>)
       else Step (s\<lparr>lmain := LM_Exit\<rparr>))
   | LM_Join1 \<Rightarrow> (if lpc (lthr s LT1) = L_Exited then Step (s\<lparr>lmain := LM_Unlock1, larg := 10\<rparr>) else Waits)
   | LM_Unlock1 \<Rightarrow> leak_unlock lenient s LM_Join2
   | LM_Join2 \<Rightarrow> (if lpc (lthr s LT2) = L_Exited then Step (s\<lparr>lmain := LM_Unlock2, larg := 10\<rparr>) else Waits)
   | LM_Unlock2 \<Rightarrow> leak_unlock lenient s LM_Destroy
   | LM_Destroy \<Rightarrow> (if lmutex s = None then Step (s\<lparr>lmain := LM_Return\<rparr>) else Faults)
   | _ \<Rightarrow> Ends)"

definition leak_prog :: "bool \<Rightarrow> (leak_tid \<Rightarrow> bool) \<Rightarrow> (leak_tid, leak) program" where
  "leak_prog lenient created t s = (if lmain s \<in> {LM_Return, LM_Exit} then Ends
     else case t of LMain \<Rightarrow> leak_main lenient created s | LT1 \<Rightarrow> leak_demo s | LT2 \<Rightarrow> leak_demo2 s)"

definition leak_init :: leak where
  "leak_init = \<lparr>lmutex = None, lcount = 0, larg = 20, lthr = \<lambda>_. \<lparr>lpc = L_Unborn, li = 0, lmax = 0, ltmp = 0\<rparr>,
     lmain = LM_Create1, lprinted = []\<rparr>"

subsection \<open>The invariant\<close>

text \<open>
  At most one thread gets past the mutex before \<open>main\<close> gives it back. \<open>counting d n b\<close>: a thread that counts to \<open>n\<close>
  from the value \<open>b\<close> of the counter.
\<close>

definition outside :: "leak_thr \<Rightarrow> bool" where
  "outside d \<longleftrightarrow> lpc d \<in> {L_Unborn, L_Lock}"

definition counting :: "leak_thr \<Rightarrow> int \<Rightarrow> int \<Rightarrow> csize \<Rightarrow> bool" where
  "counting d n b c \<longleftrightarrow> (case lpc d of
     L_Max \<Rightarrow> c = of_int b
   | L_For \<Rightarrow> lmax d = n \<and> 0 \<le> li d \<and> li d \<le> n \<and> c = of_int (b + li d)
   | L_Store \<Rightarrow> lmax d = n \<and> 0 \<le> li d \<and> li d < n \<and> c = of_int (b + li d) \<and> ltmp d = c
   | L_Exited \<Rightarrow> c = of_int (b + n)
   | _ \<Rightarrow> False)"

definition leak_inv :: "leak \<Rightarrow> bool" where
  "leak_inv s \<longleftrightarrow> (let d1 = lthr s LT1; d2 = lthr s LT2; c = lcount s in case lmain s of
     LM_Create1 \<Rightarrow> lpc d1 = L_Unborn \<and> lpc d2 = L_Unborn \<and> lmutex s = None \<and> c = 0 \<and> larg s = 20
   | LM_Create2 \<Rightarrow> lpc d1 \<noteq> L_Unborn \<and> lpc d2 = L_Unborn \<and> larg s = 20
       \<and> (outside d1 \<and> lmutex s = None \<and> c = 0 \<or> counting d1 20 0 c \<and> lmutex s = Some LT1)
   | LM_Join1 \<Rightarrow> lpc d1 \<noteq> L_Unborn \<and> lpc d2 \<noteq> L_Unborn \<and> larg s = 20
       \<and> (outside d1 \<and> outside d2 \<and> lmutex s = None \<and> c = 0
         \<or> counting d1 20 0 c \<and> outside d2 \<and> lmutex s = Some LT1
         \<or> outside d1 \<and> counting d2 20 0 c \<and> lmutex s = Some LT2)
   | LM_Unlock1 \<Rightarrow> lpc d1 = L_Exited \<and> lpc d2 = L_Lock \<and> lmutex s = Some LT1 \<and> c = 20 \<and> larg s = 10
   | LM_Join2 \<Rightarrow> lpc d1 = L_Exited \<and> larg s = 10
       \<and> (lpc d2 = L_Lock \<and> lmutex s = None \<and> c = 20 \<or> counting d2 10 20 c \<and> lmutex s = Some LT2)
   | LM_Unlock2 \<Rightarrow> lpc d1 = L_Exited \<and> lpc d2 = L_Exited \<and> lmutex s = Some LT2 \<and> c = 30
   | LM_Destroy \<Rightarrow> lpc d1 = L_Exited \<and> lpc d2 = L_Exited \<and> lmutex s = None \<and> c = 30
   | LM_Return \<Rightarrow> lpc d1 = L_Exited \<and> lpc d2 = L_Exited \<and> lmutex s = None \<and> c = 30
   | LM_Exit \<Rightarrow> True)"

lemma counting_outside: "counting d n b c \<Longrightarrow> \<not> outside d"
  by (auto simp: counting_def outside_def split: leak_pc.splits)

lemma leak_init_inv: "leak_inv leak_init"
  by (simp add: leak_inv_def leak_init_def)

lemmas leak_body_simps = leak_body_def Let_def mutex_lock_Step

text \<open>What a thread that is past the mutex does, and how one gets there.\<close>

lemma leak_body_counting:
  assumes "leak_body t s = Step s'" and "counting (lthr s t) n b (lcount s)" and "larg s = n" and "0 \<le> n"
  shows "counting (lthr s' t) n b (lcount s')" and "lmutex s' = lmutex s" and "larg s' = larg s" and "lmain s' = lmain s"
    and "u \<noteq> t \<Longrightarrow> lthr s' u = lthr s u"
  using assms by (cases "lpc (lthr s t)"; auto simp: leak_body_simps counting_def algebra_simps)+

lemma leak_body_outside:
  assumes "leak_body t s = Step s'" and "outside (lthr s t)"
  shows "lmutex s = None" and "lmutex s' = Some t" and "lpc (lthr s' t) = L_Max" and "lcount s' = lcount s"
    and "larg s' = larg s" and "lmain s' = lmain s" and "u \<noteq> t \<Longrightarrow> lthr s' u = lthr s u"
  using assms by (cases "lpc (lthr s t)"; auto simp: leak_body_simps outside_def)+

lemma leak_body_exited: "lpc (lthr s t) = L_Exited \<Longrightarrow> leak_body t s \<noteq> Step s'"
  by (simp add: leak_body_def)

lemma counting_max: "lpc d = L_Max \<Longrightarrow> counting d n b c \<longleftrightarrow> c = of_int b"
  by (simp add: counting_def)

lemma counting_exited: "lpc d = L_Exited \<Longrightarrow> counting d n b c \<longleftrightarrow> c = of_int (b + n)"
  by (simp add: counting_def)

lemma counting_pc: "counting d n b c \<Longrightarrow> lpc d \<noteq> L_Unborn" "counting d n b c \<Longrightarrow> lpc d \<noteq> L_Lock"
  by (auto simp: counting_def)

lemma outside_born: "outside d \<Longrightarrow> lpc d \<noteq> L_Unborn \<Longrightarrow> lpc d = L_Lock"
  by (auto simp: outside_def)

lemma leak_demo_inv:
  assumes st: "leak_body LT1 s = Step s'" and inv: "leak_inv s" and run: "lmain s \<noteq> LM_Return" "lmain s \<noteq> LM_Exit"
  shows "leak_inv s'"
proof -
  consider "outside (lthr s LT1)" "lmain s \<in> {LM_Create2, LM_Join1}"
    | "counting (lthr s LT1) 20 0 (lcount s)" "lmain s \<in> {LM_Create2, LM_Join1}"
    using inv run st leak_body_exited[of s LT1 s'] by (auto simp: leak_inv_def Let_def leak_body_def split: leak_main_pc.splits)
  then show ?thesis
  proof cases
    case 1
    have e: "lmutex s = None" "lmutex s' = Some LT1" "lpc (lthr s' LT1) = L_Max" "lcount s' = lcount s"
      "larg s' = larg s" "lmain s' = lmain s" "lthr s' LT2 = lthr s LT2"
      using leak_body_outside[OF st 1(1)] by simp_all
    show ?thesis using 1 inv counting_outside[of "lthr s LT1"]
      by (auto simp: leak_inv_def Let_def e counting_max split: leak_main_pc.splits)
  next
    case 2
    have l: "larg s = 20" using 2(2) inv by (auto simp: leak_inv_def Let_def split: leak_main_pc.splits)
    have e: "lmutex s' = lmutex s" "larg s' = larg s" "lmain s' = lmain s" "lthr s' LT2 = lthr s LT2"
      "counting (lthr s' LT1) 20 0 (lcount s')"
      using leak_body_counting[OF st 2(1) l] by simp_all
    show ?thesis using 2 inv counting_outside[of "lthr s LT1"] counting_pc[OF e(5)] e(5)
      by (auto simp: leak_inv_def Let_def e(1-4) split: leak_main_pc.splits)
  qed
qed

lemma leak_demo2_inv:
  assumes st: "leak_body LT2 s = Step s'" and inv: "leak_inv s" and run: "lmain s \<noteq> LM_Return" "lmain s \<noteq> LM_Exit"
  shows "leak_inv s'"
proof -
  consider "outside (lthr s LT2)" "lpc (lthr s LT2) \<noteq> L_Unborn" "lmain s \<in> {LM_Join1, LM_Unlock1, LM_Join2}"
    | "counting (lthr s LT2) 20 0 (lcount s)" "lmain s = LM_Join1" | "counting (lthr s LT2) 10 20 (lcount s)" "lmain s = LM_Join2"
    using inv run st leak_body_exited[of s LT2 s']
    by (auto simp: leak_inv_def Let_def leak_body_def outside_def split: leak_main_pc.splits)
  then show ?thesis
  proof cases
    case 1
    have e: "lmutex s = None" "lmutex s' = Some LT2" "lpc (lthr s' LT2) = L_Max" "lcount s' = lcount s"
      "larg s' = larg s" "lmain s' = lmain s" "lthr s' LT1 = lthr s LT1"
      using leak_body_outside[OF st 1(1)] by simp_all
    show ?thesis using 1 inv counting_outside[of "lthr s LT2"] e(1)
      by (auto simp: leak_inv_def Let_def e(2-) counting_max split: leak_main_pc.splits)
  next
    case 2
    have l: "larg s = 20" using 2(2) inv by (auto simp: leak_inv_def Let_def split: leak_main_pc.splits)
    have e: "lmutex s' = lmutex s" "larg s' = larg s" "lmain s' = lmain s" "lthr s' LT1 = lthr s LT1"
      "counting (lthr s' LT2) 20 0 (lcount s')"
      using leak_body_counting[OF st 2(1) l] by simp_all
    show ?thesis using 2 inv counting_outside[of "lthr s LT2"] counting_pc[OF e(5)] e(5)
      by (auto simp: leak_inv_def Let_def e(1-4) split: leak_main_pc.splits)
  next
    case 3
    have l: "larg s = 10" using 3(2) inv by (auto simp: leak_inv_def Let_def split: leak_main_pc.splits)
    have e: "lmutex s' = lmutex s" "larg s' = larg s" "lmain s' = lmain s" "lthr s' LT1 = lthr s LT1"
      "counting (lthr s' LT2) 10 20 (lcount s')"
      using leak_body_counting[OF st 3(1) l] by simp_all
    show ?thesis using 3 inv counting_outside[of "lthr s LT2"] e(5)
      by (auto simp: leak_inv_def Let_def e(1-4) counting_pc split: leak_main_pc.splits)
  qed
qed

lemmas leak_main_simps = leak_main_def leak_unlock_def mutex_unlock_Step

lemma leak_main_inv:
  assumes "leak_main lenient created s = Step s'" and "leak_inv s"
  shows "leak_inv s'"
  using assms by (cases "lmain s")
    (auto simp: leak_main_simps leak_inv_def Let_def outside_def counting_exited split: if_splits)

lemma leak_step_inv:
  assumes "leak_inv s" and "leak_prog lenient created t s = Step s'"
  shows "leak_inv s'"
  using assms leak_demo_inv leak_demo2_inv leak_main_inv
  by (auto simp: leak_prog_def leak_demo_def leak_demo2_def split: if_splits leak_tid.splits)

interpretation leak: invariant_program "leak_prog lenient created" leak_init leak_inv for lenient created
  by unfold_locales (fact leak_init_inv, erule (1) leak_step_inv)

subsection \<open>Termination and outcomes\<close>

fun leak_thr_weight :: "leak_pc \<Rightarrow> int \<Rightarrow> nat" where
  "leak_thr_weight L_Unborn i = 44"
| "leak_thr_weight L_Lock i = 44"
| "leak_thr_weight L_Max i = 43"
| "leak_thr_weight L_For i = 2 * nat (20 - i) + 2"
| "leak_thr_weight L_Store i = 2 * nat (20 - i) + 1"
| "leak_thr_weight L_Exited i = 0"

fun leak_main_weight :: "leak_main_pc \<Rightarrow> nat" where
  "leak_main_weight LM_Create1 = 7"
| "leak_main_weight LM_Create2 = 6"
| "leak_main_weight LM_Join1 = 5"
| "leak_main_weight LM_Unlock1 = 4"
| "leak_main_weight LM_Join2 = 3"
| "leak_main_weight LM_Unlock2 = 2"
| "leak_main_weight LM_Destroy = 1"
| "leak_main_weight _ = 0"

definition leak_weight :: "leak \<Rightarrow> nat" where
  "leak_weight s = leak_thr_weight (lpc (lthr s LT1)) (li (lthr s LT1))
     + leak_thr_weight (lpc (lthr s LT2)) (li (lthr s LT2)) + leak_main_weight (lmain s)"

lemma counting_store: "counting d n b c \<Longrightarrow> lpc d = L_Store \<Longrightarrow> li d < n"
  by (simp add: counting_def)

lemma leak_store_bound:
  assumes "leak_inv s" and "lmain s \<noteq> LM_Exit" and "t \<noteq> LMain" and "lpc (lthr s t) = L_Store"
  shows "li (lthr s t) < 20"
  using assms by (cases t; cases "lmain s")
    (auto simp: leak_inv_def Let_def outside_def dest!: counting_store)

lemma leak_body_weight:
  assumes "leak_body t s = Step s'" and "lpc (lthr s t) = L_Store \<Longrightarrow> li (lthr s t) < 20"
  shows "leak_thr_weight (lpc (lthr s' t)) (li (lthr s' t)) < leak_thr_weight (lpc (lthr s t)) (li (lthr s t))"
    and "u \<noteq> t \<Longrightarrow> lthr s' u = lthr s u" and "lmain s' = lmain s"
  using assms by (cases "lpc (lthr s t)"; auto simp: leak_body_simps split: if_splits)+

lemma leak_main_weight_step:
  assumes "leak_main lenient created s = Step s'" and "leak_inv s"
  shows "leak_weight s' < leak_weight s"
  using assms by (cases "lmain s") (auto simp: leak_main_simps leak_weight_def leak_inv_def Let_def split: if_splits)

lemma leak_weight_step:
  assumes "leak_inv s" and "leak_prog lenient created t s = Step s'"
  shows "leak_weight s' < leak_weight s"
proof -
  have m: "lmain s \<noteq> LM_Exit" using assms(2) by (auto simp: leak_prog_def)
  have "leak_body t s = Step s' \<Longrightarrow> t \<noteq> LMain \<Longrightarrow> leak_weight s' < leak_weight s"
    using leak_body_weight[of t s s'] leak_store_bound[OF assms(1) m, of t]
    by (cases t) (auto simp: leak_weight_def)
  then show ?thesis using assms leak_main_weight_step
    by (cases t) (auto simp: leak_prog_def leak_demo_def leak_demo2_def split: if_splits)
qed

interpretation leak_end: terminating_program "leak_prog lenient created" leak_init leak_inv leak_weight for lenient created
  by unfold_locales (rule leak_weight_step)

lemma leak_stays_created:
  assumes "reach (leak_prog lenient (\<lambda>_. True)) leak_init s"
  shows "lmain s \<noteq> LM_Exit"
  using assms
proof (induction rule: reach.induct)
  case (reach_step s t s')
  then show ?case
    by (cases t; cases "lpc (lthr s t)"; cases "lmain s")
      (auto simp: leak_prog_def leak_demo_def leak_demo2_def leak_body_simps leak_main_simps split: if_splits)
qed (simp add: leak_init_def)

text \<open>
  How it can end: the second thread was the first at the mutex, and everybody waits for ever; or the first thread was,
  and \<open>main\<close> stands before the undefined unlocking. If that is granted, the second thread counts to the 10 that
  \<open>pthread_join\<close> left in \<open>arg\<close>.
\<close>

definition leak_deadlock :: "leak \<Rightarrow> bool" where
  "leak_deadlock s \<longleftrightarrow> lmain s = LM_Join1 \<and> lpc (lthr s LT1) = L_Lock \<and> lpc (lthr s LT2) = L_Exited
     \<and> lmutex s = Some LT2 \<and> lcount s = 20"

lemma leak_body_goes_on:
  assumes "counting (lthr s t) n b c" and "lpc (lthr s t) \<noteq> L_Exited"
  shows "\<exists>s'. leak_body t s = Step s'"
  using assms by (cases "lpc (lthr s t)") (auto simp: leak_body_def Let_def counting_def)

text \<open>The owner of the mutex is never \<open>main\<close>, so without the leniency it gets no further than the first unlocking.\<close>

lemma leak_strict:
  assumes "reach (leak_prog False created) leak_init s"
  shows "lmain s \<in> {LM_Create1, LM_Create2, LM_Join1, LM_Unlock1, LM_Exit}"
  using assms
proof (induction rule: reach.induct)
  case (reach_step s t s')
  have inv: "leak_inv s" by (rule leak.reach_inv[OF reach_step(1)])
  show ?case
  proof (cases t)
    case LMain
    then show ?thesis using reach_step(2,3) inv
      by (auto simp: leak_prog_def leak_main_simps leak_inv_def Let_def split: if_splits)
  next
    case LT1
    then show ?thesis using reach_step(2,3) leak_body_weight(3)[of LT1 s s']
      by (cases "lpc (lthr s LT1)") (auto simp: leak_prog_def leak_demo_def leak_body_simps split: if_splits)
  next
    case LT2
    then show ?thesis using reach_step(2,3) leak_body_weight(3)[of LT2 s s']
      by (cases "lpc (lthr s LT2)") (auto simp: leak_prog_def leak_demo2_def leak_body_simps split: if_splits)
  qed
qed (simp add: leak_init_def)

lemma leak_stuck:
  assumes r: "reach (leak_prog lenient (\<lambda>_. True)) leak_init s" and st: "stuck (leak_prog lenient (\<lambda>_. True)) s"
  shows "leak_deadlock s \<or> (if lenient then lmain s = LM_Return \<and> lcount s = 30
    else lmain s = LM_Unlock1 \<and> leak_prog lenient (\<lambda>_. True) LMain s = Faults \<and> lcount s = 20)"
proof -
  have inv: "leak_inv s" by (rule leak.reach_inv[OF r])
  have ne: "lmain s \<noteq> LM_Exit" by (rule leak_stays_created[OF r])
  have early: "\<not> lenient \<Longrightarrow> lmain s \<in> {LM_Create1, LM_Create2, LM_Join1, LM_Unlock1}" using leak_strict r ne by fastforce
  show ?thesis
  proof (cases "lmain s = LM_Return")
    case True
    then show ?thesis using early inv by (auto simp: leak_inv_def Let_def)
  next
    case False
    have nx: "leak_body LT1 s \<noteq> Step s'" "leak_body LT2 s \<noteq> Step s'" "leak_main lenient (\<lambda>_. True) s \<noteq> Step s'" for s'
      using st False ne by (auto simp: stuck_def leak_prog_def leak_demo_def leak_demo2_def
        dest: spec[of _ LT1] spec[of _ LT2] spec[of _ LMain])
    have "lpc (lthr s t) = L_Lock \<Longrightarrow> lmutex s = None \<Longrightarrow> \<exists>s'. leak_body t s = Step s'" for t
      by (simp add: leak_body_def Let_def mutex_lock_def)
    then have free: "lmutex s = None \<Longrightarrow> lpc (lthr s t) \<noteq> L_Lock" if "t \<in> {LT1, LT2}" for t using nx that by blast
    have go: "counting (lthr s t) n b (lcount s) \<Longrightarrow> lpc (lthr s t) = L_Exited" if "t \<in> {LT1, LT2}" for t n b
      using leak_body_goes_on[of s t n b "lcount s"] nx that by blast
    have nm: "\<forall>s'. leak_main lenient (\<lambda>_. True) s \<noteq> Step s'" using nx(3) by blast
    have m: "lmain s \<in> {LM_Join1, LM_Join2} \<or> lmain s = LM_Unlock1 \<and> \<not> lenient"
      using nm False ne early inv by (cases lenient; cases "lmain s") (auto simp: leak_main_def leak_unlock_def leak_inv_def Let_def)
    have "lmain s = LM_Join1 \<Longrightarrow> lpc (lthr s LT1) \<noteq> L_Exited" "lmain s = LM_Join2 \<Longrightarrow> lpc (lthr s LT2) \<noteq> L_Exited"
      using nm by (auto simp: leak_main_def)
    note j = this
    have j1: "leak_deadlock s" if m1: "lmain s = LM_Join1"
    proof -
      have "lpc (lthr s LT1) \<noteq> L_Unborn" "lpc (lthr s LT2) \<noteq> L_Unborn"
        and c: "outside (lthr s LT1) \<and> lmutex s = None
          \<or> counting (lthr s LT1) 20 0 (lcount s) \<or> outside (lthr s LT1) \<and> counting (lthr s LT2) 20 0 (lcount s) \<and> lmutex s = Some LT2"
        using inv m1 by (auto simp: leak_inv_def Let_def)
      then have "outside (lthr s LT1) \<and> counting (lthr s LT2) 20 0 (lcount s) \<and> lmutex s = Some LT2 \<and> lpc (lthr s LT1) = L_Lock"
        using free[of LT1] go[of LT1 20 0] j(1) m1 outside_born by blast
      then show ?thesis using m1 go[of LT2 20 0] by (auto simp: leak_deadlock_def counting_exited)
    qed
    have "lmain s \<noteq> LM_Join2"
    proof
      assume m2: "lmain s = LM_Join2"
      then have "lpc (lthr s LT2) = L_Lock \<and> lmutex s = None \<or> counting (lthr s LT2) 10 20 (lcount s)"
        using inv by (auto simp: leak_inv_def Let_def)
      then show False using free[of LT2] go[of LT2 10 20] j(2) m2 by blast
    qed
    moreover have "lmain s = LM_Unlock1 \<Longrightarrow> \<not> lenient \<Longrightarrow> leak_prog lenient (\<lambda>_. True) LMain s = Faults \<and> lcount s = 20"
      using inv by (simp add: leak_prog_def leak_main_def leak_unlock_def mutex_unlock_def leak_inv_def Let_def)
    ultimately show ?thesis using m early j1 by auto
  qed
qed

text \<open>Both happen: here the thread that gets the mutex first is chosen.\<close>

definition leak_first :: "leak_tid \<Rightarrow> leak_tid list" where
  "leak_first t = [LMain, LMain, t]"

lemma leak_keeps_mutex:
  assumes "reach (leak_prog lenient (\<lambda>_. True)) s0 s" and "leak_inv s0" and "lmutex s0 = Some LT2" and "lmain s0 = LM_Join1"
  shows "lmutex s = Some LT2 \<and> lmain s = LM_Join1 \<and> leak_inv s"
  using assms
proof (induction rule: reach.induct)
  case (reach_step s t s')
  then have h: "lmutex s = Some LT2" "lmain s = LM_Join1" "leak_inv s" by simp_all
  then have "leak_inv s'" using leak_step_inv reach_step(2) by blast
  have "counting (lthr s LT2) 20 0 (lcount s)" "outside (lthr s LT1)" "larg s = 20"
    using h by (auto simp: leak_inv_def Let_def)
  then have "lmutex s' = Some LT2 \<and> lmain s' = LM_Join1"
    using reach_step(2) h(1,2) leak_body_outside[of LT1 s s'] leak_body_counting[of LT2 s s' 20 0]
    by (cases t) (auto simp: leak_prog_def leak_demo_def leak_demo2_def leak_main_def outside_def)
  then show ?case using \<open>leak_inv s'\<close> by simp
qed simp

lemma leak_keeps_inside:
  assumes "reach (leak_prog lenient created) s0 s" and "lmain s0 \<noteq> LM_Create1" and "\<not> outside (lthr s0 LT1)"
  shows "lmain s \<noteq> LM_Create1 \<and> \<not> outside (lthr s LT1)"
  using assms
proof (induction rule: reach.induct)
  case (reach_step s t s')
  then show ?case
    by (cases t; cases "lpc (lthr s t)"; cases "lmain s")
      (auto simp: leak_prog_def leak_demo_def leak_demo2_def leak_body_simps leak_main_simps outside_def split: if_splits)
qed simp

lemma leak_run_on:
  assumes "run (leak_prog lenient (\<lambda>_. True)) (leak_first t) leak_init = Some s0"
  shows "\<exists>ts s. run (leak_prog lenient (\<lambda>_. True)) ts leak_init = Some s \<and> stuck (leak_prog lenient (\<lambda>_. True)) s
    \<and> reach (leak_prog lenient (\<lambda>_. True)) leak_init s \<and> reach (leak_prog lenient (\<lambda>_. True)) s0 s \<and> leak_inv s0"
proof -
  have r0: "reach (leak_prog lenient (\<lambda>_. True)) leak_init s0" unfolding reach_run by (rule exI, rule assms)
  obtain us s where us: "run (leak_prog lenient (\<lambda>_. True)) us s0 = Some s" "stuck (leak_prog lenient (\<lambda>_. True)) s"
    using leak_end.run_to_end[OF leak.reach_inv[OF r0]] by blast
  have r1: "reach (leak_prog lenient (\<lambda>_. True)) s0 s" unfolding reach_run by (rule exI, rule us(1))
  show ?thesis using run_SomeI[OF assms us(1)] us(2) r1 reach_trans[OF r1 r0] leak.reach_inv[OF r0] by blast
qed

lemma leak_second_first:
  "\<exists>ts s. run (leak_prog lenient (\<lambda>_. True)) ts leak_init = Some s \<and> leak_deadlock s"
proof -
  obtain s0 where s0: "run (leak_prog lenient (\<lambda>_. True)) (leak_first LT2) leak_init = Some s0" "lmutex s0 = Some LT2" "lmain s0 = LM_Join1"
    by (auto simp: leak_first_def leak_init_def leak_prog_def leak_main_def leak_demo2_def leak_body_def mutex_lock_def Let_def)
  obtain ts s where s: "run (leak_prog lenient (\<lambda>_. True)) ts leak_init = Some s" "stuck (leak_prog lenient (\<lambda>_. True)) s"
    "reach (leak_prog lenient (\<lambda>_. True)) leak_init s" "reach (leak_prog lenient (\<lambda>_. True)) s0 s" "leak_inv s0"
    using leak_run_on[OF s0(1)] by blast
  have "lmain s = LM_Join1" using leak_keeps_mutex[OF s(4,5) s0(2,3)] by simp
  then have "leak_deadlock s" using leak_stuck[OF s(3,2)] by (auto split: if_splits)
  then show ?thesis using s(1) by blast
qed

lemma leak_first_first:
  "\<exists>ts s. run (leak_prog lenient (\<lambda>_. True)) ts leak_init = Some s \<and> stuck (leak_prog lenient (\<lambda>_. True)) s \<and> \<not> leak_deadlock s"
proof -
  obtain s0 where s0: "run (leak_prog lenient (\<lambda>_. True)) (leak_first LT1) leak_init = Some s0" "lpc (lthr s0 LT1) = L_Max" "lmain s0 = LM_Join1"
    by (auto simp: leak_first_def leak_init_def leak_prog_def leak_main_def leak_demo_def leak_body_def mutex_lock_def Let_def)
  obtain ts s where s: "run (leak_prog lenient (\<lambda>_. True)) ts leak_init = Some s" "stuck (leak_prog lenient (\<lambda>_. True)) s"
    "reach (leak_prog lenient (\<lambda>_. True)) s0 s"
    using leak_run_on[OF s0(1)] by blast
  have "\<not> outside (lthr s LT1)" using leak_keeps_inside[OF s(3)] s0(2,3) by (simp add: outside_def)
  then show ?thesis using s(1,2) by (auto simp: leak_deadlock_def outside_def)
qed

text \<open>No run is longer than 95 steps.\<close>

lemma leak_run_length:
  assumes "run (leak_prog lenient created) ts leak_init = Some s"
  shows "length ts \<le> 95"
  using leak_end.run_bound[OF leak_init_inv assms] by (simp add: leak_weight_def leak_init_def)

end
