(* ===== verification/Semaphores.thy ===== *)
theory Semaphores
  imports Threads
begin

section \<open>System V semaphores (03IPC/05Semaphore/SysV: semaphore.c, sem_parent_child.c; 02Semaphore/01SysV/sem.c)\<close>

text \<open>
  A semaphore of the system is its value and, because every operation of the programs has the flag \<open>SEM_UNDO\<close>, what is
  added to it when a process ends. Setting the value clears these adjustments. The programs run as processes
  that share one semaphore; a process may be killed at any place. The system interrupts \<open>semop\<close> with \<open>EINTR\<close>
  for a signal with a handler only, of which there are none: the retry is waiting on.
\<close>

record 'p semaphore =
  semval :: nat
  semadj :: "'p \<Rightarrow> int"

definition SEMVMX :: nat where "SEMVMX = 32767"

definition new_sem :: "'p semaphore" where
  "new_sem = \<lparr>semval = 0, semadj = \<lambda>_. 0\<rparr>"

definition set_val :: "nat \<Rightarrow> 'p semaphore \<Rightarrow> 'p semaphore" where
  "set_val v x = x\<lparr>semval := v, semadj := \<lambda>_. 0\<rparr>"

definition sem_add :: "'p \<Rightarrow> 'p semaphore \<Rightarrow> 'p semaphore" where
  "sem_add p x = x\<lparr>semval := semval x + 1, semadj := (semadj x)(p := semadj x p - 1)\<rparr>"

definition sem_take :: "'p \<Rightarrow> 'p semaphore \<Rightarrow> 'p semaphore" where
  "sem_take p x = x\<lparr>semval := semval x - 1, semadj := (semadj x)(p := semadj x p + 1)\<rparr>"

definition sem_undo :: "'p \<Rightarrow> 'p semaphore \<Rightarrow> 'p semaphore" where
  "sem_undo p x = x\<lparr>semval := min SEMVMX (nat (int (semval x) + semadj x p)), semadj := (semadj x)(p := 0)\<rparr>"

text \<open>
  The functions of the programs. The identifier of the semaphore is a truth value: whether the process has one or the
  -1 of a failed \<open>up_sem_init\<close>, with which \<open>semop\<close> fails. \<open>None\<close> is the semaphore that does not exist (any more).
  \<open>ftok\<close>, \<open>semget\<close> and \<open>semctl\<close> succeed as the record says. The programs continue with the result and the new semaphore.
\<close>

record ipc =
  ftok_ok :: bool
  semget_ok :: bool
  semctl_ok :: bool

definition up_sem_init :: "bool \<Rightarrow> ipc \<Rightarrow> nat \<Rightarrow> 'p semaphore option \<Rightarrow> bool \<times> 'p semaphore option" where
  "up_sem_init create e init_val sem =
     (if \<not> ftok_ok e then (False, sem)
      else if \<not> semget_ok e \<or> (\<not> create \<and> sem = None) then (False, sem)
      else let sem = (case sem of None \<Rightarrow> Some new_sem | Some x \<Rightarrow> Some x) in
        if \<not> semctl_ok e then (False, sem)
        else (True, map_option (set_val init_val) sem))"

definition up_sem_p :: "'p \<Rightarrow> bool \<Rightarrow> 'p semaphore option \<Rightarrow> (int \<Rightarrow> 'p semaphore option \<Rightarrow> 's turn) \<Rightarrow> 's turn" where
  "up_sem_p p semid sem k = (case sem of
     Some x \<Rightarrow> (if \<not> semid then k (-1) sem
       else if semval x = 0 then Waits
       else k 0 (Some (sem_take p x)))
   | None \<Rightarrow> k (-1) sem)"

definition up_sem_v :: "'p \<Rightarrow> bool \<Rightarrow> 'p semaphore option \<Rightarrow> (int \<Rightarrow> 'p semaphore option \<Rightarrow> 's turn) \<Rightarrow> 's turn" where
  "up_sem_v p semid sem k = (case sem of
     Some x \<Rightarrow> (if \<not> semid \<or> SEMVMX \<le> semval x then k (-1) sem
       else k 0 (Some (sem_add p x)))
   | None \<Rightarrow> k (-1) sem)"

definition up_sem_destroy :: "bool \<Rightarrow> 'p semaphore option \<Rightarrow> int \<times> 'p semaphore option" where
  "up_sem_destroy semid sem = (if semid \<and> sem \<noteq> None then (0, None) else (-1, sem))"

definition leave :: "'p \<Rightarrow> 'p semaphore option \<Rightarrow> 'p semaphore option" where
  "leave p sem = map_option (sem_undo p) sem"

subsection \<open>Processes that exclude each other (semaphore.c)\<close>

text \<open>
  Every process runs \<open>main\<close>: it looks up the semaphore, sets it to 1, takes it, sleeps for a while and gives
  it back. \<open>SM_Hold\<close> is the place between the two operations. A process that was killed or has not been started is
  \<open>SM_Dead\<close>.
\<close>

datatype sm_pc = SM_Init | SM_Take | SM_Hold | SM_Leave int | SM_Done int | SM_Dead

datatype sm_tid = Proc nat | Kill nat

record sm =
  msem :: "nat semaphore option"
  msemid :: "nat \<Rightarrow> bool"
  mpc :: "nat \<Rightarrow> sm_pc"

definition sm_goto :: "nat \<Rightarrow> sm_pc \<Rightarrow> sm \<Rightarrow> nat semaphore option \<Rightarrow> sm" where
  "sm_goto p pc s sem = s\<lparr>msem := sem, mpc := (mpc s)(p := pc)\<rparr>"

definition sm_main :: "ipc \<Rightarrow> nat \<Rightarrow> sm \<Rightarrow> sm turn" where
  "sm_main e p s = (case mpc s p of
     SM_Init \<Rightarrow> (case up_sem_init False e 1 (msem s) of
       (semid, sem) \<Rightarrow> Step (sm_goto p SM_Take (s\<lparr>msemid := (msemid s)(p := semid)\<rparr>) sem))
   | SM_Take \<Rightarrow> up_sem_p p (msemid s p) (msem s)
       (\<lambda>r sem. Step (sm_goto p (if r < 0 then SM_Leave (-1) else SM_Hold) s sem))
   | SM_Hold \<Rightarrow> up_sem_v p (msemid s p) (msem s)
       (\<lambda>r sem. Step (sm_goto p (SM_Leave (if r < 0 then -1 else 0)) s sem))
   | SM_Leave r \<Rightarrow> Step (sm_goto p (SM_Done r) s (leave p (msem s)))
   | _ \<Rightarrow> Ends)"

definition sm_prog :: "ipc \<Rightarrow> (sm_tid, sm) program" where
  "sm_prog e t s = (case t of
     Proc p \<Rightarrow> sm_main e p s
   | Kill p \<Rightarrow> (if mpc s p = SM_Dead \<or> (\<exists>r. mpc s p = SM_Done r) then Ends
       else Step (sm_goto p SM_Dead s (leave p (msem s)))))"

text \<open>
  The processes below \<open>n\<close> have set the semaphore and stand before \<open>up_sem_p\<close>. From there on the semaphore is 0
  exactly as long as one of them holds it, and only that one has an adjustment.
\<close>

definition sm_ready :: "nat \<Rightarrow> sm" where
  "sm_ready n = \<lparr>msem = Some (set_val 1 new_sem), msemid = \<lambda>_. True,
     mpc = \<lambda>p. if p < n then SM_Take else SM_Dead\<rparr>"

definition sm_state :: "sm \<Rightarrow> nat semaphore \<Rightarrow> nat option \<Rightarrow> bool" where
  "sm_state s x h \<longleftrightarrow> msem s = Some x \<and> semval x = (if h = None then 1 else 0)
     \<and> (\<forall>q. semadj x q = (if h = Some q then 1 else 0)) \<and> (\<forall>q. mpc s q = SM_Hold \<longleftrightarrow> h = Some q)
     \<and> (\<forall>q. mpc s q \<noteq> SM_Init \<and> msemid s q) \<and> (\<forall>q r. mpc s q \<in> {SM_Leave r, SM_Done r} \<longrightarrow> r = 0)"

definition sm_inv :: "sm \<Rightarrow> bool" where
  "sm_inv s \<longleftrightarrow> (\<exists>x h. sm_state s x h)"

lemma sm_ready_inv: "sm_inv (sm_ready n)"
  unfolding sm_inv_def by (intro exI[of _ "set_val 1 new_sem"] exI[of _ None]) (simp add: sm_state_def sm_ready_def set_val_def)

lemma sm_take_state:
  assumes st: "sm_state s x h" and pc: "mpc s p = SM_Take" and step: "sm_main e p s = Step s'"
  shows "sm_state s' (sem_take p x) (Some p)"
proof -
  have x: "msem s = Some x" "msemid s p" using st by (simp_all add: sm_state_def)
  then have v: "semval x \<noteq> 0" "s' = sm_goto p SM_Hold s (Some (sem_take p x))"
    using pc step by (auto simp: sm_main_def up_sem_p_def split: if_splits)
  then have "h = None" using st by (auto simp: sm_state_def split: if_splits)
  then show ?thesis using st unfolding sm_state_def v(2) by (auto simp: sm_goto_def sem_take_def)
qed

lemma sm_goto_state:
  assumes st: "sm_state s x h" and y: "semval y = (if h' = None then 1 else 0)" "\<And>q. semadj y q = (if h' = Some q then 1 else 0)"
    and h: "h' = (if h = Some p then None else h)" and pc: "pc \<in> {SM_Leave 0, SM_Done 0, SM_Dead}"
  shows "sm_state (sm_goto p pc s (Some y)) y h'"
  using st y pc unfolding sm_state_def by (auto simp: sm_goto_def h)

lemma sm_release_state:
  assumes "sm_state s x (Some p)"
  shows "semval (sem_add p x) = 1" and "semadj (sem_add p x) q = 0" and "semval (sem_undo p x) = 1" and "semadj (sem_undo p x) q = 0"
  using assms by (auto simp: sm_state_def sem_add_def sem_undo_def SEMVMX_def)

lemma sm_undo_state:
  assumes "sm_state s x h" and "h \<noteq> Some p"
  shows "semval (sem_undo p x) = (if h = None then 1 else 0)" and "semadj (sem_undo p x) q = (if h = Some q then 1 else 0)"
  using assms by (auto simp: sm_state_def sem_undo_def SEMVMX_def)

lemma sm_main_inv:
  assumes st: "sm_state s x h" and step: "sm_main e p s = Step s'"
  shows "sm_inv s'"
proof -
  have x: "msem s = Some x" "msemid s p" "mpc s p \<noteq> SM_Init" using st by (simp_all add: sm_state_def)
  show ?thesis
  proof (cases "mpc s p")
    case SM_Take
    then show ?thesis using sm_take_state[OF st _ step] unfolding sm_inv_def by blast
  next
    case SM_Hold
    then have h: "h = Some p" using st by (simp add: sm_state_def)
    then have "semval x = 0" using st by (simp add: sm_state_def)
    then have s': "s' = sm_goto p (SM_Leave 0) s (Some (sem_add p x))"
      using step SM_Hold x by (simp add: sm_main_def up_sem_v_def SEMVMX_def)
    have "sm_state s' (sem_add p x) None" unfolding s'
      by (rule sm_goto_state[OF st]) (use sm_release_state[OF st[unfolded h]] h in auto)
    then show ?thesis unfolding sm_inv_def by blast
  next
    case (SM_Leave r)
    then have h: "h \<noteq> Some p" "r = 0" using st SM_Leave by (force simp: sm_state_def)+
    have s': "s' = sm_goto p (SM_Done 0) s (Some (sem_undo p x))"
      using step SM_Leave x h by (simp add: sm_main_def leave_def)
    have "sm_state s' (sem_undo p x) h" unfolding s'
      by (rule sm_goto_state[OF st]) (use sm_undo_state[OF st h(1)] h in auto)
    then show ?thesis unfolding sm_inv_def by blast
  qed (use step x in \<open>simp_all add: sm_main_def\<close>)
qed

lemma sm_kill_inv:
  assumes st: "sm_state s x h"
  shows "sm_inv (sm_goto p SM_Dead s (leave p (msem s)))"
proof -
  have x: "leave p (msem s) = Some (sem_undo p x)" using st by (simp add: sm_state_def leave_def)
  have "sm_state (sm_goto p SM_Dead s (Some (sem_undo p x))) (sem_undo p x) (if h = Some p then None else h)"
  proof (rule sm_goto_state[OF st])
    show "semval (sem_undo p x) = (if (if h = Some p then None else h) = None then 1 else 0)"
      "semadj (sem_undo p x) q = (if (if h = Some p then None else h) = Some q then 1 else 0)" for q
      using sm_release_state(3,4)[of s x p] sm_undo_state[of s x h p] st by (cases "h = Some p"; auto)+
  qed simp_all
  then show ?thesis unfolding sm_inv_def x by blast
qed

lemma sm_step_inv: "sm_inv s \<Longrightarrow> sm_prog e t s = Step s' \<Longrightarrow> sm_inv s'"
  using sm_main_inv sm_kill_inv unfolding sm_inv_def[of s] by (fastforce simp: sm_prog_def split: sm_tid.splits if_splits)

interpretation sm: invariant_program "sm_prog e" "sm_ready n" sm_inv for e n
  by unfold_locales (rule sm_ready_inv, erule (1) sm_step_inv)

text \<open>
  So at most one process holds the semaphore, whoever is killed; and as long as a process is alive one can go on, as the
  semaphore is free or its holder can give it back.
\<close>

lemma sm_excludes:
  assumes "sm_inv s" and "mpc s p = SM_Hold" and "mpc s q = SM_Hold"
  shows "p = q"
  using assms by (auto simp: sm_inv_def sm_state_def)

lemma sm_goes_on:
  assumes "sm_inv s" and "mpc s p \<in> {SM_Take, SM_Hold, SM_Leave r}"
  shows "\<exists>q s'. sm_prog e (Proc q) s = Step s'"
proof -
  obtain x h where st: "sm_state s x h" using assms(1) unfolding sm_inv_def by blast
  show ?thesis
  proof (cases h)
    case None
    then have "\<exists>s'. sm_main e p s = Step s'"
      using st assms(2) by (auto simp: sm_state_def sm_main_def up_sem_p_def)
    then show ?thesis unfolding sm_prog_def by (intro exI[of _ p]) simp
  next
    case (Some q)
    then have "mpc s q = SM_Hold" "msem s = Some x" using st by (simp_all add: sm_state_def)
    then have "\<exists>s'. sm_main e q s = Step s'" by (simp add: sm_main_def up_sem_v_def)
    then show ?thesis unfolding sm_prog_def by (intro exI[of _ q]) simp
  qed
qed

text \<open>But every process that starts later sets the semaphore to 1 again: two hold it at the same time.\<close>

definition sm_start :: "sm" where
  "sm_start = \<lparr>msem = Some new_sem, msemid = \<lambda>_. False, mpc = \<lambda>p. if p < 2 then SM_Init else SM_Dead\<rparr>"

definition ipc_fine :: ipc where
  "ipc_fine = \<lparr>ftok_ok = True, semget_ok = True, semctl_ok = True\<rparr>"

lemma sm_both_hold:
  "\<exists>s. run (sm_prog ipc_fine) [Proc 0, Proc 0, Proc 1, Proc 1] sm_start = Some s \<and> mpc s 0 = SM_Hold \<and> mpc s 1 = SM_Hold"
  by (simp add: sm_prog_def sm_main_def sm_start_def ipc_fine_def up_sem_init_def up_sem_p_def sm_goto_def new_sem_def
      set_val_def sem_take_def)

text \<open>Without a semaphore the program ends with -1: this version does not create it.\<close>

lemma sm_no_semaphore:
  assumes "msem s = None" and "mpc s p = SM_Init"
  shows "run (sm_prog e) [Proc p, Proc p, Proc p] s = Some (s\<lparr>msemid := (msemid s)(p := False), mpc := (mpc s)(p := SM_Done (-1))\<rparr>)"
  using assms by (simp add: sm_prog_def sm_main_def up_sem_init_def up_sem_p_def sm_goto_def leave_def)

subsection \<open>Parent and child (sem_parent_child.c)\<close>

text \<open>
  The parent creates the semaphore with the value 0 and forks; the child waits for it and gives it back. \<open>main\<close>
  does not look at the results of the operations. \<open>wait\<close> returns when the child has ended.
\<close>

datatype fam_tid = Parent | Child

datatype parent_pc = P_Init | P_Fork | P_Post | P_Wait | P_Remove | P_Leave int | P_Done int

datatype child_pc = C_Unborn | C_Wait | C_Post | C_Leave | C_Done

record family =
  fsem :: "fam_tid semaphore option"
  fsemid :: bool
  parent_at :: parent_pc
  child_at :: child_pc

definition family_child :: "family \<Rightarrow> family turn" where
  "family_child s = (case child_at s of
     C_Wait \<Rightarrow> up_sem_p Child (fsemid s) (fsem s) (\<lambda>r sem. Step (s\<lparr>fsem := sem, child_at := C_Post\<rparr>))
   | C_Post \<Rightarrow> up_sem_v Child (fsemid s) (fsem s) (\<lambda>r sem. Step (s\<lparr>fsem := sem, child_at := C_Leave\<rparr>))
   | C_Leave \<Rightarrow> Step (s\<lparr>fsem := leave Child (fsem s), child_at := C_Done\<rparr>)
   | C_Unborn \<Rightarrow> Waits
   | C_Done \<Rightarrow> Ends)"

definition family_main :: "ipc \<Rightarrow> bool \<Rightarrow> family \<Rightarrow> family turn" where
  "family_main e forks s = (case parent_at s of
     P_Init \<Rightarrow> (case up_sem_init True e 0 (fsem s) of
       (semid, sem) \<Rightarrow> Step (s\<lparr>fsem := sem, fsemid := semid, parent_at := P_Fork\<rparr>))
   | P_Fork \<Rightarrow> (if forks then Step (s\<lparr>child_at := C_Wait, parent_at := P_Post\<rparr>)
       else Step (s\<lparr>parent_at := P_Leave (-1)\<rparr>))
   | P_Post \<Rightarrow> up_sem_v Parent (fsemid s) (fsem s) (\<lambda>r sem. Step (s\<lparr>fsem := sem, parent_at := P_Wait\<rparr>))
   | P_Wait \<Rightarrow> (if child_at s = C_Done then Step (s\<lparr>parent_at := P_Leave 0\<rparr>) else Waits)
   | P_Leave r \<Rightarrow> Step (s\<lparr>fsem := leave Parent (fsem s), parent_at := P_Done r\<rparr>)
   | _ \<Rightarrow> Ends)"

definition family_prog :: "ipc \<Rightarrow> bool \<Rightarrow> (fam_tid, family) program" where
  "family_prog e forks t s = (case t of Parent \<Rightarrow> family_main e forks s | Child \<Rightarrow> family_child s)"

definition family_init :: "fam_tid semaphore option \<Rightarrow> family" where
  "family_init sem = \<lparr>fsem = sem, fsemid = False, parent_at = P_Init, child_at = C_Unborn\<rparr>"

text \<open>The semaphore at each place: what the parent has added and what the child has.\<close>

definition parent_adds :: "family \<Rightarrow> nat" where
  "parent_adds s = (if parent_at s \<in> {P_Wait, P_Remove} \<or> (\<exists>r. parent_at s = P_Leave r) then 1 else 0)"

definition child_has :: "family \<Rightarrow> nat" where
  "child_has s = (if child_at s = C_Post then 1 else 0)"

definition family_inv :: "family \<Rightarrow> bool" where
  "family_inv s \<longleftrightarrow> parent_at s \<noteq> P_Remove
     \<and> (parent_at s \<in> {P_Init, P_Fork} \<longrightarrow> child_at s = C_Unborn)
     \<and> (parent_at s \<notin> {P_Init, P_Fork} \<longrightarrow> child_at s \<noteq> C_Unborn)
     \<and> (\<forall>r. parent_at s \<in> {P_Leave r, P_Done r} \<longrightarrow> child_at s = C_Done \<and> r = 0)
     \<and> (child_at s \<in> {C_Post, C_Leave, C_Done} \<longrightarrow> parent_at s \<notin> {P_Init, P_Fork, P_Post})
     \<and> (parent_at s \<noteq> P_Init \<longrightarrow> fsemid s \<and> (\<exists>x. fsem s = Some x
        \<and> semval x + child_has s = parent_adds s \<and> semadj x Parent = - int (parent_adds s) \<and> semadj x Child = int (child_has s)))"

lemma family_init_inv: "family_inv (family_init sem)"
  by (simp add: family_inv_def family_init_def)

lemma family_child_inv:
  assumes "family_child s = Step s'" and "family_inv s"
  shows "family_inv s'"
proof (cases "parent_at s = P_Init")
  case True
  then show ?thesis using assms by (auto simp: family_child_def family_inv_def split: child_pc.splits)
next
  case False
  then obtain x where x: "fsemid s" "fsem s = Some x" "semval x + child_has s = parent_adds s"
      "semadj x Parent = - int (parent_adds s)" "semadj x Child = int (child_has s)"
    using assms(2) unfolding family_inv_def by blast
  have "parent_adds s \<le> 1" by (simp add: parent_adds_def)
  with x(3) have "semval x \<le> 1" by simp
  then show ?thesis using assms x False
    by (cases "child_at s")
      (auto simp: family_child_def up_sem_p_def up_sem_v_def sem_take_def sem_add_def sem_undo_def leave_def SEMVMX_def
        family_inv_def child_has_def parent_adds_def split: if_splits)
qed

lemma family_main_inv:
  assumes "family_main ipc_fine True s = Step s'" and "family_inv s"
  shows "family_inv s'"
proof (cases "parent_at s = P_Init")
  case True
  then show ?thesis using assms
    by (auto simp: family_main_def up_sem_init_def ipc_fine_def Let_def set_val_def family_inv_def child_has_def parent_adds_def
      new_sem_def split: option.splits)
next
  case False
  then obtain x where x: "fsemid s" "fsem s = Some x" "semval x + child_has s = parent_adds s"
      "semadj x Parent = - int (parent_adds s)" "semadj x Child = int (child_has s)"
    using assms(2) unfolding family_inv_def by blast
  have "parent_adds s \<le> 1" by (simp add: parent_adds_def)
  with x(3) have "semval x \<le> 1" by simp
  then show ?thesis using assms x False
    by (cases "parent_at s")
      (auto simp: family_main_def up_sem_p_def up_sem_v_def sem_take_def sem_add_def sem_undo_def leave_def SEMVMX_def
        family_inv_def child_has_def parent_adds_def split: if_splits)
qed

lemma family_step_inv: "family_inv s \<Longrightarrow> family_prog ipc_fine True t s = Step s' \<Longrightarrow> family_inv s'"
  using family_child_inv family_main_inv by (cases t) (auto simp: family_prog_def)

text \<open>Every step goes forward.\<close>

fun parent_weight :: "parent_pc \<Rightarrow> nat" where
  "parent_weight P_Init = 6" | "parent_weight P_Fork = 5" | "parent_weight P_Post = 4" | "parent_weight P_Wait = 3"
| "parent_weight P_Remove = 2" | "parent_weight (P_Leave r) = 1" | "parent_weight (P_Done r) = 0"

fun child_weight :: "child_pc \<Rightarrow> nat" where
  "child_weight C_Unborn = 3" | "child_weight C_Wait = 3" | "child_weight C_Post = 2" | "child_weight C_Leave = 1"
| "child_weight C_Done = 0"

definition family_weight :: "family \<Rightarrow> nat" where
  "family_weight s = parent_weight (parent_at s) + child_weight (child_at s)"

lemma up_sem_Step:
  "up_sem_p p semid sem k = Step s' \<Longrightarrow> \<exists>r sem'. k r sem' = Step s'"
  "up_sem_v p semid sem k = Step s' \<Longrightarrow> \<exists>r sem'. k r sem' = Step s'"
  by (auto simp: up_sem_p_def up_sem_v_def split: option.splits if_splits)

lemma family_child_weight: "family_child s = Step s' \<Longrightarrow> family_weight s' < family_weight s"
  by (cases "child_at s") (auto simp: family_child_def family_weight_def dest!: up_sem_Step)

lemma family_weight_step:
  assumes "family_inv s" and "family_prog ipc_fine True t s = Step s'"
  shows "family_weight s' < family_weight s"
proof (cases t)
  case Parent
  then have m: "family_main ipc_fine True s = Step s'" using assms(2) by (simp add: family_prog_def)
  have "parent_at s = P_Fork \<Longrightarrow> child_at s = C_Unborn" using assms(1) by (simp add: family_inv_def)
  then show ?thesis using m
    by (cases "parent_at s") (auto simp: family_main_def family_weight_def dest!: up_sem_Step split: if_splits prod.splits)
next
  case Child
  then show ?thesis using assms(2) family_child_weight by (simp add: family_prog_def)
qed

interpretation family: terminating_program "family_prog ipc_fine True" "family_init sem" family_inv family_weight for sem
  by unfold_locales (fact family_init_inv, erule (1) family_step_inv, erule (1) family_weight_step)

text \<open>The child passes only after the parent has posted; nobody waits for ever; and all is undone at the end.\<close>

lemma family_order:
  assumes "reach (family_prog ipc_fine True) (family_init sem) s" and "child_at s \<in> {C_Post, C_Leave, C_Done}"
  shows "parent_at s \<notin> {P_Init, P_Fork, P_Post}"
  using family.reach_inv[OF assms(1)] assms(2) unfolding family_inv_def by blast

lemma family_end:
  assumes r: "reach (family_prog ipc_fine True) (family_init sem) s" and st: "stuck (family_prog ipc_fine True) s"
  shows "parent_at s = P_Done 0 \<and> child_at s = C_Done \<and> (\<exists>x. fsem s = Some x \<and> semval x = 0)"
proof -
  have inv: "family_inv s" by (rule family.reach_inv[OF r])
  have nx: "\<forall>s'. family_child s \<noteq> Step s'" "\<forall>s'. family_main ipc_fine True s \<noteq> Step s'"
    using st by (auto simp: stuck_def family_prog_def dest: spec[of _ Child] spec[of _ Parent])
  have v: "\<exists>s'. up_sem_v p semid y (\<lambda>r sem. Step (f sem)) = Step s'" for p semid y and f :: "fam_tid semaphore option \<Rightarrow> family"
    by (auto simp: up_sem_v_def split: option.splits)
  have "child_at s \<noteq> C_Post" "child_at s \<noteq> C_Leave"
    using nx(1) v[of Child "fsemid s" "fsem s" "\<lambda>sem. s\<lparr>fsem := sem, child_at := C_Leave\<rparr>"] by (auto simp: family_child_def)
  then have c: "child_at s \<in> {C_Unborn, C_Wait, C_Done}" by (cases "child_at s") auto
  have "parent_at s \<noteq> P_Init" "parent_at s \<noteq> P_Fork" "parent_at s \<noteq> P_Post" "parent_at s \<noteq> P_Leave r" for r
    using nx(2) v[of Parent "fsemid s" "fsem s" "\<lambda>sem. s\<lparr>fsem := sem, parent_at := P_Wait\<rparr>"]
    by (auto simp: family_main_def split: prod.splits)
  then have p: "parent_at s \<in> {P_Wait, P_Done 0}"
    using inv by (cases "parent_at s") (auto simp: family_inv_def)
  have "child_at s \<noteq> C_Wait"
  proof
    assume w: "child_at s = C_Wait"
    then have m: "parent_at s = P_Wait" using p inv by (auto simp: family_inv_def)
    then obtain x where "fsemid s" "fsem s = Some x" "semval x = 1"
      using inv w by (auto simp: family_inv_def child_has_def parent_adds_def)
    then show False using nx(1) w by (auto simp: family_child_def up_sem_p_def)
  qed
  moreover have "parent_at s \<notin> {P_Init, P_Fork}" using p by auto
  then have "child_at s \<noteq> C_Unborn" using inv unfolding family_inv_def by blast
  ultimately have d: "child_at s = C_Done" using c by blast
  then have e: "parent_at s = P_Done 0" using nx(2) p by (auto simp: family_main_def)
  then obtain x where "fsem s = Some x" "semval x + child_has s = parent_adds s" using inv unfolding family_inv_def by blast
  then show ?thesis using d e by (simp add: child_has_def parent_adds_def)
qed

text \<open>When the semaphore cannot be created nobody notices, and the child runs ahead.\<close>

lemma family_unordered:
  assumes "\<not> ftok_ok e"
  shows "\<exists>s. run (family_prog e True) [Parent, Parent, Child] (family_init sem) = Some s
    \<and> child_at s = C_Post \<and> parent_at s = P_Post"
  using assms by (cases sem) (simp_all add: family_prog_def family_main_def family_child_def family_init_def up_sem_init_def up_sem_p_def)

subsection \<open>The same with clean-up (sem.c)\<close>

text \<open>
  The operations are those of \<open>up_sem_p\<close> and \<open>up_sem_v\<close> without the loop for interruptions. \<open>main\<close> ends when it
  has no semaphore, and removes it after the child has ended. (\<open>semget\<close> without \<open>IPC_EXCL\<close> never fails with
  \<open>EEXIST\<close>.)
\<close>

definition sem_p :: "'p \<Rightarrow> 'p semaphore option \<Rightarrow> (int \<Rightarrow> 'p semaphore option \<Rightarrow> 's turn) \<Rightarrow> 's turn" where
  "sem_p p sem k = (case sem of
     Some x \<Rightarrow> (if semval x = 0 then Waits else k 0 (Some (sem_take p x)))
   | None \<Rightarrow> k (-1) sem)"

definition sem_v :: "'p \<Rightarrow> 'p semaphore option \<Rightarrow> (int \<Rightarrow> 'p semaphore option \<Rightarrow> 's turn) \<Rightarrow> 's turn" where
  "sem_v p sem k = (case sem of
     Some x \<Rightarrow> (if SEMVMX \<le> semval x then k (-1) sem else k 0 (Some (sem_add p x)))
   | None \<Rightarrow> k (-1) sem)"

definition sem_child :: "family \<Rightarrow> family turn" where
  "sem_child s = (case child_at s of
     C_Wait \<Rightarrow> sem_p Child (fsem s) (\<lambda>r sem. Step (s\<lparr>fsem := sem, child_at := C_Post\<rparr>))
   | C_Post \<Rightarrow> sem_v Child (fsem s) (\<lambda>r sem. Step (s\<lparr>fsem := sem, child_at := C_Leave\<rparr>))
   | C_Leave \<Rightarrow> Step (s\<lparr>fsem := leave Child (fsem s), child_at := C_Done\<rparr>)
   | C_Unborn \<Rightarrow> Waits
   | C_Done \<Rightarrow> Ends)"

definition sem_main :: "ipc \<Rightarrow> bool \<Rightarrow> family \<Rightarrow> family turn" where
  "sem_main e forks s = (case parent_at s of
     P_Init \<Rightarrow> (if \<not> ftok_ok e then Step (s\<lparr>parent_at := P_Leave (-1)\<rparr>)
       else if \<not> semget_ok e then Step (s\<lparr>parent_at := P_Leave (-1)\<rparr>)
       else let sem = (case fsem s of None \<Rightarrow> Some new_sem | Some x \<Rightarrow> Some x) in
         if \<not> semctl_ok e then Step (s\<lparr>fsem := sem, parent_at := P_Leave (-1)\<rparr>)
         else Step (s\<lparr>fsem := map_option (set_val 0) sem, fsemid := True, parent_at := P_Fork\<rparr>))
   | P_Fork \<Rightarrow> (if forks then Step (s\<lparr>child_at := C_Wait, parent_at := P_Post\<rparr>)
       else Step (s\<lparr>parent_at := P_Leave (-1)\<rparr>))
   | P_Post \<Rightarrow> sem_v Parent (fsem s) (\<lambda>r sem. Step (s\<lparr>fsem := sem, parent_at := P_Wait\<rparr>))
   | P_Wait \<Rightarrow> (if child_at s = C_Done then Step (s\<lparr>parent_at := P_Remove\<rparr>) else Waits)
   | P_Remove \<Rightarrow> (if fsem s = None then Step (s\<lparr>parent_at := P_Leave (-1)\<rparr>)
       else Step (s\<lparr>fsem := None, parent_at := P_Leave 0\<rparr>))
   | P_Leave r \<Rightarrow> Step (s\<lparr>fsem := leave Parent (fsem s), parent_at := P_Done r\<rparr>)
   | _ \<Rightarrow> Ends)"

definition sem_prog :: "ipc \<Rightarrow> bool \<Rightarrow> (fam_tid, family) program" where
  "sem_prog e forks t s = (case t of Parent \<Rightarrow> sem_main e forks s | Child \<Rightarrow> sem_child s)"

text \<open>This holds whatever fails.\<close>

definition sem_inv :: "family \<Rightarrow> bool" where
  "sem_inv s \<longleftrightarrow> (parent_at s = P_Init \<longrightarrow> child_at s = C_Unborn)
     \<and> (parent_at s = P_Fork \<longrightarrow> child_at s = C_Unborn \<and> (\<exists>x. fsem s = Some x \<and> semval x = 0 \<and> semadj x Child = 0))
     \<and> (parent_at s = P_Post \<longrightarrow> child_at s = C_Wait \<and> (\<exists>x. fsem s = Some x \<and> semval x = 0 \<and> semadj x Child = 0))
     \<and> (parent_at s = P_Wait \<longrightarrow> child_at s \<noteq> C_Unborn \<and> (\<exists>x. fsem s = Some x \<and> semval x + child_has s = 1
        \<and> semadj x Child = int (child_has s)))
     \<and> (parent_at s = P_Remove \<longrightarrow> child_at s = C_Done \<and> fsem s \<noteq> None)
     \<and> (\<forall>r. parent_at s \<in> {P_Leave r, P_Done r} \<longrightarrow> child_at s = C_Unborn \<and> r = -1 \<or> child_at s = C_Done \<and> r = 0 \<and> fsem s = None)"

lemma sem_child_inv:
  assumes "sem_child s = Step s'" and "sem_inv s"
  shows "sem_inv s'"
proof -
  consider "parent_at s = P_Post" "child_at s = C_Wait" | "parent_at s = P_Wait" "child_at s \<in> {C_Wait, C_Post, C_Leave}"
    using assms unfolding sem_inv_def sem_child_def by (cases "parent_at s"; cases "child_at s") auto
  then show ?thesis
  proof cases
    case 1
    then obtain x where "fsem s = Some x" "semval x = 0" using assms(2) by (auto simp: sem_inv_def)
    then show ?thesis using assms(1) 1 by (simp add: sem_child_def sem_p_def)
  next
    case 2
    then obtain x where x: "fsem s = Some x" "semval x + child_has s = 1" "semadj x Child = int (child_has s)"
      using assms(2) by (auto simp: sem_inv_def)
    then have "semval x \<le> 1" by simp
    with 2 x show ?thesis using assms(1)
      by (auto simp: sem_child_def sem_p_def sem_v_def sem_take_def sem_add_def sem_undo_def leave_def SEMVMX_def child_has_def
          sem_inv_def split: if_splits)
  qed
qed

lemma sem_main_inv:
  assumes m: "sem_main e forks s = Step s'" and inv: "sem_inv s"
  shows "sem_inv s'"
proof (cases "parent_at s")
  case P_Init
  then show ?thesis using assms
    by (auto simp: sem_main_def sem_inv_def set_val_def Let_def split: if_splits option.splits)
next
  case (P_Leave r)
  then have c: "child_at s = C_Unborn \<and> r = -1 \<or> child_at s = C_Done \<and> r = 0 \<and> fsem s = None"
    using inv unfolding sem_inv_def by blast
  have "parent_at s' = P_Done r" "child_at s' = child_at s" "fsem s = None \<longrightarrow> fsem s' = None"
    using m P_Leave by (auto simp: sem_main_def leave_def)
  then show ?thesis using c by (auto simp: sem_inv_def)
next
  case (P_Done r)
  then show ?thesis using m by (simp add: sem_main_def)
qed (use assms in \<open>auto simp: sem_main_def sem_inv_def sem_v_def sem_add_def SEMVMX_def child_has_def split: if_splits\<close>)

lemma sem_init_inv: "sem_inv (family_init sem)"
  by (simp add: sem_inv_def family_init_def)

lemma sem_step_inv: "sem_inv s \<Longrightarrow> sem_prog e forks t s = Step s' \<Longrightarrow> sem_inv s'"
  using sem_child_inv sem_main_inv by (cases t) (auto simp: sem_prog_def)

lemma sem_Step:
  "sem_p p sem k = Step s' \<Longrightarrow> \<exists>r sem'. k r sem' = Step s'"
  "sem_v p sem k = Step s' \<Longrightarrow> \<exists>r sem'. k r sem' = Step s'"
  by (auto simp: sem_p_def sem_v_def split: option.splits if_splits)

lemma sem_weight_step:
  assumes "sem_inv s" and "sem_prog e forks t s = Step s'"
  shows "family_weight s' < family_weight s"
proof (cases t)
  case Parent
  then have m: "sem_main e forks s = Step s'" using assms(2) by (simp add: sem_prog_def)
  have "parent_at s = P_Fork \<Longrightarrow> child_at s = C_Unborn" using assms(1) unfolding sem_inv_def by blast
  then show ?thesis using m
    by (cases "parent_at s") (auto simp: sem_main_def family_weight_def Let_def dest!: sem_Step split: if_splits)
next
  case Child
  then show ?thesis using assms(2)
    by (cases "child_at s") (auto simp: sem_prog_def sem_child_def family_weight_def dest!: sem_Step)
qed

interpretation semc: terminating_program "sem_prog e forks" "family_init sem" sem_inv family_weight for e forks sem
  by unfold_locales (fact sem_init_inv, erule (1) sem_step_inv, erule (1) sem_weight_step)

lemma sem_order:
  assumes "reach (sem_prog e forks) (family_init sem) s" and "child_at s \<in> {C_Post, C_Leave, C_Done}"
  shows "parent_at s \<notin> {P_Init, P_Fork, P_Post}"
  using semc.reach_inv[OF assms(1)] assms(2) unfolding sem_inv_def by auto

lemma sem_end:
  assumes r: "reach (sem_prog e forks) (family_init sem) s" and st: "stuck (sem_prog e forks) s"
  shows "parent_at s = P_Done 0 \<and> child_at s = C_Done \<and> fsem s = None \<or> parent_at s = P_Done (-1) \<and> child_at s = C_Unborn"
proof -
  have inv: "sem_inv s" by (rule semc.reach_inv[OF r])
  have nx: "\<forall>s'. sem_child s \<noteq> Step s'" "\<forall>s'. sem_main e forks s \<noteq> Step s'"
    using st by (auto simp: stuck_def sem_prog_def dest: spec[of _ Child] spec[of _ Parent])
  have v: "\<exists>s'. sem_v p y (\<lambda>r sem. Step (f sem)) = Step s'" for p y and f :: "fam_tid semaphore option \<Rightarrow> family"
    by (auto simp: sem_v_def split: option.splits)
  have "child_at s \<noteq> C_Post" "child_at s \<noteq> C_Leave"
    using nx(1) v[of Child "fsem s" "\<lambda>sem. s\<lparr>fsem := sem, child_at := C_Leave\<rparr>"] by (auto simp: sem_child_def)
  then have c: "child_at s \<in> {C_Unborn, C_Wait, C_Done}" by (cases "child_at s") auto
  have "parent_at s \<noteq> P_Init" "parent_at s \<noteq> P_Fork" "parent_at s \<noteq> P_Post" "parent_at s \<noteq> P_Remove" "parent_at s \<noteq> P_Leave r" for r
    using nx(2) v[of Parent "fsem s" "\<lambda>sem. s\<lparr>fsem := sem, parent_at := P_Wait\<rparr>"]
    by (auto simp: sem_main_def Let_def split: if_splits)
  moreover have "parent_at s \<noteq> P_Wait"
  proof
    assume m: "parent_at s = P_Wait"
    then obtain x where x: "fsem s = Some x" "semval x + child_has s = 1" "child_at s \<noteq> C_Unborn"
      using inv unfolding sem_inv_def by blast
    then have "child_at s = C_Done" using c nx(1) by (auto simp: sem_child_def sem_p_def child_has_def)
    then show False using nx(2) m by (simp add: sem_main_def)
  qed
  ultimately obtain r where "parent_at s = P_Done r" by (cases "parent_at s") auto
  then show ?thesis using inv unfolding sem_inv_def by blast
qed

end
