(* ===== verification/TcpLoop.thy ===== *)
theory TcpLoop
  imports Threads Posix
begin

section \<open>A server with a process per client, and its client (06Socket/02Tcp_loop: server.c, client.c)\<close>

text \<open>
  One connection: the client sends what is typed line by line and reads once after each line; the child process of the
  server sends back what it reads in capital letters. The connection is two streams of bytes; a call of \<open>read\<close>
  delivers any number of the bytes that are there, up to the size of the buffer: the schedule chooses the number. On
  a connection that may fail a \<open>read\<close> may also return an error. An interrupted \<open>read\<close> is repeated, which is waiting on.

  \<open>wrote\<close> and \<open>received\<close> record what the client wrote and read. Killing a process that writes to a closed connection
  (\<open>SIGPIPE\<close>) is not modelled.
\<close>

datatype srv_pc = T_Read | T_Write | T_Closed int

datatype cli_pc = K_Gets | K_Read | K_Closed

record tcp =
  up :: "cuchar list"
  down :: "cuchar list"
  faulty :: bool
  srv_pc :: srv_pc
  srv_buf :: "cuchar list"
  cli_pc :: cli_pc
  stdin_left :: "cuchar list"
  wrote :: "cuchar list"
  received :: "cuchar list"

datatype tcp_tid = Srv nat | SrvFail | Cli nat | CliFail

definition TCP_BUF :: nat where "TCP_BUF = 4096"
definition CLI_BUF :: nat where "CLI_BUF = 1024"

text \<open>\<open>client_handler\<close> of the server.\<close>

definition tcp_handler :: "tcp_tid \<Rightarrow> tcp \<Rightarrow> tcp turn" where
  "tcp_handler t s = (case srv_pc s of
     T_Read \<Rightarrow> (case t of
         SrvFail \<Rightarrow> (if faulty s then Step (s\<lparr>srv_pc := T_Closed (-1)\<rparr>) else Waits)
       | Srv k \<Rightarrow>
         (if up s = [] then (if cli_pc s = K_Closed then Step (s\<lparr>srv_pc := T_Closed 0\<rparr>) else Waits)
          else if 0 < k \<and> k \<le> length (up s) \<and> k \<le> TCP_BUF - 1
            then Step (s\<lparr>up := drop k (up s), srv_buf := take k (up s), srv_pc := T_Write\<rparr>)
          else Waits)
       | _ \<Rightarrow> Waits)
   | T_Write \<Rightarrow> Step (s\<lparr>down := (if cli_pc s = K_Closed then down s else down s @ map toupper (srv_buf s)), srv_buf := [], srv_pc := T_Read\<rparr>)
   | T_Closed r \<Rightarrow> Ends)"

text \<open>
  \<open>fgets\<close> with the size \<open>sizeof(buf) - 1\<close> stores at most one byte less, up to a newline. The last character of the
  string is overwritten, the newline or not; for an empty string that is the byte before the array.
\<close>

fun fgets_line :: "nat \<Rightarrow> cuchar list \<Rightarrow> cuchar list" where
  "fgets_line 0 bs = []"
| "fgets_line (Suc k) [] = []"
| "fgets_line (Suc k) (b # bs) = (if b = 10 then [b] else b # fgets_line k bs)"

definition tcp_client :: "tcp_tid \<Rightarrow> tcp \<Rightarrow> tcp turn" where
  "tcp_client t s = (case cli_pc s of
     K_Gets \<Rightarrow>
       (if stdin_left s = [] then Step (s\<lparr>cli_pc := K_Closed\<rparr>)
        else let line = fgets_line (CLI_BUF - 2) (stdin_left s); str = cstr line in
          if str = [] then Faults
          else Step (s\<lparr>stdin_left := drop (length line) (stdin_left s), up := up s @ butlast str, wrote := wrote s @ butlast str, cli_pc := K_Read\<rparr>))
   | K_Read \<Rightarrow> (case t of
         CliFail \<Rightarrow> (if faulty s then Step (s\<lparr>cli_pc := K_Closed\<rparr>) else Waits)
       | Cli k \<Rightarrow>
         (if down s = [] then (case srv_pc s of T_Closed r \<Rightarrow> Step (s\<lparr>cli_pc := K_Closed\<rparr>) | _ \<Rightarrow> Waits)
          else if 0 < k \<and> k \<le> length (down s) \<and> k \<le> CLI_BUF
            then (if k = CLI_BUF \<and> 0 \<notin> set (take k (down s)) then Faults
              else Step (s\<lparr>down := drop k (down s), received := received s @ take k (down s), cli_pc := K_Gets\<rparr>))
          else Waits)
       | _ \<Rightarrow> Waits)
   | K_Closed \<Rightarrow> Ends)"

definition tcp_prog :: "(tcp_tid, tcp) program" where
  "tcp_prog t s = (if t = SrvFail \<or> (\<exists>k. t = Srv k) then tcp_handler t s else tcp_client t s)"

definition tcp_init :: "bool \<Rightarrow> cuchar list \<Rightarrow> tcp" where
  "tcp_init flt bs = \<lparr>up = [], down = [], faulty = flt, srv_pc = T_Read, srv_buf = [], cli_pc = K_Gets, stdin_left = bs,
     wrote = [], received = []\<rparr>"

lemma tcp_prog_simps:
  "tcp_prog (Srv k) = tcp_handler (Srv k)" "tcp_prog SrvFail = tcp_handler SrvFail"
  "tcp_prog (Cli k) = tcp_client (Cli k)" "tcp_prog CliFail = tcp_client CliFail"
  by (simp_all add: tcp_prog_def fun_eq_iff)

subsection \<open>Nothing is lost, reordered or made up\<close>

text \<open>
  What the client has read, what is on its way back, what the server holds and what is on its way to it are
  together what the client has written.
\<close>

definition tcp_inv :: "tcp \<Rightarrow> bool" where
  "tcp_inv s \<longleftrightarrow> (srv_pc s \<noteq> T_Write \<longrightarrow> srv_buf s = [])
     \<and> (if cli_pc s = K_Closed then \<exists>rest. map toupper (wrote s) = received s @ rest
        else map toupper (wrote s) = received s @ down s @ map toupper (srv_buf s @ up s))"

lemma tcp_init_inv: "tcp_inv (tcp_init flt bs)"
  by (simp add: tcp_inv_def tcp_init_def)

lemma tcp_handler_inv:
  assumes "tcp_handler t s = Step s'" and "tcp_inv s"
  shows "tcp_inv s'"
proof (cases "srv_pc s")
  case T_Read
  show ?thesis
  proof (cases "\<exists>k. s' = s\<lparr>up := drop k (up s), srv_buf := take k (up s), srv_pc := T_Write\<rparr>")
    case True
    then obtain k where "s' = s\<lparr>up := drop k (up s), srv_buf := take k (up s), srv_pc := T_Write\<rparr>" by blast
    then show ?thesis using assms(2) T_Read by (simp add: tcp_inv_def)
  next
    case False
    then obtain r where "s' = s\<lparr>srv_pc := T_Closed r\<rparr>"
      using assms(1) T_Read by (auto simp: tcp_handler_def split: tcp_tid.splits if_splits)
    then show ?thesis using assms(2) T_Read by (simp add: tcp_inv_def)
  qed
qed (use assms in \<open>auto simp: tcp_handler_def tcp_inv_def\<close>)

lemma tcp_client_inv:
  assumes "tcp_client t s = Step s'" and "tcp_inv s"
  shows "tcp_inv s'"
proof (cases "s' = s\<lparr>cli_pc := K_Closed\<rparr>")
  case True
  then show ?thesis using assms(2) by (auto simp: tcp_inv_def split: if_splits)
next
  case False
  consider "cli_pc s = K_Gets" | "cli_pc s = K_Read" using assms(1) by (cases "cli_pc s") (auto simp: tcp_client_def)
  then show ?thesis
  proof cases
    case 1
    then obtain bs l where "s' = s\<lparr>stdin_left := drop l (stdin_left s), up := up s @ bs, wrote := wrote s @ bs, cli_pc := K_Read\<rparr>"
      using assms(1) False by (auto simp: tcp_client_def Let_def split: if_splits)
    then show ?thesis using assms(2) 1 by (simp add: tcp_inv_def)
  next
    case 2
    then obtain k where "s' = s\<lparr>down := drop k (down s), received := received s @ take k (down s), cli_pc := K_Gets\<rparr>"
      using assms(1) False by (auto simp: tcp_client_def split: tcp_tid.splits srv_pc.splits if_splits)
    then show ?thesis using assms(2) 2 by (simp add: tcp_inv_def)
  qed
qed

lemma tcp_step_inv: "tcp_inv s \<Longrightarrow> tcp_prog t s = Step s' \<Longrightarrow> tcp_inv s'"
  using tcp_handler_inv tcp_client_inv by (auto simp: tcp_prog_def split: if_splits)

interpretation tcp: invariant_program tcp_prog "tcp_init flt bs" tcp_inv for flt bs
  by unfold_locales (rule tcp_init_inv, erule (1) tcp_step_inv)

lemma tcp_capitals:
  assumes "reach tcp_prog (tcp_init flt bs) s"
  shows "\<exists>rest. map toupper (wrote s) = received s @ rest"
    and "cli_pc s \<noteq> K_Closed \<Longrightarrow> up s = [] \<Longrightarrow> down s = [] \<Longrightarrow> srv_pc s \<noteq> T_Write \<Longrightarrow> received s = map toupper (wrote s)"
  using tcp.reach_inv[OF assms] by (auto simp: tcp_inv_def split: if_splits)

subsection \<open>Sessions\<close>

lemma fgets_line_newline: "10 \<notin> set l \<Longrightarrow> length l < k \<Longrightarrow> fgets_line k (l @ 10 # rest) = l @ [10]"
proof (induction l arbitrary: k)
  case Nil
  then show ?case by (cases k) auto
next
  case (Cons a l)
  then show ?case by (cases k) auto
qed

text \<open>A line that the client can send: not empty, no longer than its buffer.\<close>

definition line_ok :: "cuchar list \<Rightarrow> bool" where
  "line_ok l \<longleftrightarrow> l \<noteq> [] \<and> 0 \<notin> set l \<and> 10 \<notin> set l \<and> length l \<le> CLI_BUF - 3"

definition tcp_idle :: "tcp \<Rightarrow> bool" where
  "tcp_idle s \<longleftrightarrow> up s = [] \<and> down s = [] \<and> srv_pc s = T_Read \<and> srv_buf s = [] \<and> cli_pc s = K_Gets"

definition lines_bytes :: "cuchar list list \<Rightarrow> cuchar list" where
  "lines_bytes ls = concat (map (\<lambda>l. l @ [10]) ls)"

text \<open>The schedule in which every \<open>read\<close> delivers a whole line.\<close>

definition line_round :: "cuchar list \<Rightarrow> tcp_tid list" where
  "line_round l = [Cli 0, Srv (length l), Srv 0, Cli (length l)]"

lemma cstr_line: "0 \<notin> set l \<Longrightarrow> cstr (l @ [10]) = l @ [10]"
  by (simp add: cstr_def takeWhile_eq_all_conv) (metis zero_neq_numeral)

lemma tcp_round:
  assumes "tcp_idle s" and "stdin_left s = l @ 10 # rest" and "line_ok l"
  shows "run tcp_prog (line_round l) s = Some (s\<lparr>stdin_left := rest, wrote := wrote s @ l, received := received s @ map toupper l\<rparr>)"
proof -
  have f: "fgets_line 1022 (l @ 10 # rest) = l @ [10]" using assms(3) by (intro fgets_line_newline) (auto simp: line_ok_def CLI_BUF_def)
  have c: "cstr (l @ [10]) = l @ [10]" using assms(3) by (simp add: cstr_line line_ok_def)
  have l: "l \<noteq> []" "length l \<le> 1021" using assms(3) by (auto simp: line_ok_def CLI_BUF_def)
  then have "tcp_prog (Cli 0) s = Step (s\<lparr>stdin_left := rest, up := l, wrote := wrote s @ l, cli_pc := K_Read\<rparr>)"
    using assms(1,2) f c by (simp add: tcp_prog_simps tcp_client_def Let_def tcp_idle_def CLI_BUF_def)
  then show ?thesis using assms(1) l
    by (simp add: line_round_def tcp_prog_simps tcp_handler_def tcp_client_def tcp_idle_def TCP_BUF_def CLI_BUF_def
      tcp.defs(1) split: if_splits)
qed

lemma tcp_rounds:
  assumes "tcp_idle s" and "stdin_left s = lines_bytes ls @ rest" and "\<forall>l \<in> set ls. line_ok l"
  shows "\<exists>s'. run tcp_prog (concat (map line_round ls)) s = Some s' \<and> tcp_idle s' \<and> stdin_left s' = rest \<and> faulty s' = faulty s
    \<and> wrote s' = wrote s @ concat ls \<and> received s' = received s @ map toupper (concat ls)"
  using assms
proof (induction ls arbitrary: s)
  case (Cons l ls)
  let ?s = "s\<lparr>stdin_left := lines_bytes ls @ rest, wrote := wrote s @ l, received := received s @ map toupper l\<rparr>"
  have r: "run tcp_prog (line_round l) s = Some ?s"
    using Cons.prems by (intro tcp_round) (simp_all add: lines_bytes_def)
  have "tcp_idle ?s" using Cons.prems(1) by (simp add: tcp_idle_def)
  from Cons.IH[OF this] Cons.prems(3) obtain s' where s':
    "run tcp_prog (concat (map line_round ls)) ?s = Some s'" "tcp_idle s'" "stdin_left s' = rest" "faulty s' = faulty s"
    "wrote s' = (wrote s @ l) @ concat ls" "received s' = (received s @ map toupper l) @ map toupper (concat ls)" by auto
  have "run tcp_prog (concat (map line_round (l # ls))) s = Some s'" using run_SomeI[OF r s'(1)] by simp
  then show ?case using s'(2-) by (intro exI[of _ s']) simp
qed (auto simp: lines_bytes_def)

lemma tcp_bye:
  assumes "tcp_idle s" and "stdin_left s = []"
  shows "run tcp_prog [Cli 0, Srv 0] s = Some (s\<lparr>cli_pc := K_Closed, srv_pc := T_Closed 0\<rparr>)"
  using assms by (simp add: tcp_prog_simps tcp_client_def tcp_handler_def tcp_idle_def)

lemma tcp_session:
  assumes "\<forall>l \<in> set ls. line_ok l"
  shows "\<exists>s. run tcp_prog (concat (map line_round ls) @ [Cli 0, Srv 0]) (tcp_init flt (lines_bytes ls)) = Some s
    \<and> cli_pc s = K_Closed \<and> srv_pc s = T_Closed 0 \<and> wrote s = concat ls \<and> received s = map toupper (concat ls)"
proof -
  have "tcp_idle (tcp_init flt (lines_bytes ls))" by (simp add: tcp_idle_def tcp_init_def)
  then obtain s where s: "run tcp_prog (concat (map line_round ls)) (tcp_init flt (lines_bytes ls)) = Some s" "tcp_idle s" "stdin_left s = []"
      "wrote s = concat ls" "received s = map toupper (concat ls)"
    using tcp_rounds[of "tcp_init flt (lines_bytes ls)" ls "[]"] assms by (auto simp: tcp_init_def)
  show ?thesis using run_SomeI[OF s(1) tcp_bye[OF s(2,3)]] s(4,5) by auto
qed

text \<open>
  On an empty line the client sends nothing and reads: both wait for each other for ever, and what was typed after it
  is never sent.
\<close>

lemma tcp_empty_line:
  assumes "tcp_idle s" and "stdin_left s = 10 # rest" and "\<not> faulty s"
  shows "\<exists>s'. tcp_prog (Cli 0) s = Step s' \<and> (\<forall>t s2. tcp_prog t s = Step s2 \<longrightarrow> s2 = s') \<and> stuck tcp_prog s'
    \<and> wrote s' = wrote s \<and> received s' = received s \<and> stdin_left s' = rest"
proof -
  let ?s = "s\<lparr>stdin_left := rest, cli_pc := K_Read\<rparr>"
  have f: "fgets_line 1022 (10 # rest) = [10]" using fgets_line_newline[of "[]" 1022 rest] by simp
  have c: "tcp_client t s = Step ?s" for t
    using assms f by (simp add: tcp_client_def Let_def tcp_idle_def CLI_BUF_def cstr_def)
  have one: "tcp_prog (Cli 0) s = Step ?s" using c by (simp add: tcp_prog_simps)
  have only: "s2 = ?s" if "tcp_prog t s = Step s2" for t s2
  proof -
    have "tcp_handler t s \<noteq> Step s2" using assms(1) by (cases t) (simp_all add: tcp_handler_def tcp_idle_def assms(3))
    then have "tcp_client t s = Step s2" using that unfolding tcp_prog_def by (metis (full_types))
    from trans[OF sym[OF this] c] show ?thesis by (rule turn.inject(1)[THEN iffD1])
  qed
  have "tcp_prog t ?s \<noteq> Step s'" for t s'
    using assms by (cases t) (simp_all add: tcp_prog_simps tcp_client_def tcp_handler_def tcp_idle_def)
  then have "stuck tcp_prog ?s" by (simp add: stuck_def)
  then show ?thesis by (intro exI[of _ ?s] conjI allI impI) (rule one, erule only, simp_all)
qed

text \<open>A line that fills the buffer loses the last character that was read.\<close>

lemma fgets_line_long: "10 \<notin> set (take k bs) \<Longrightarrow> k \<le> length bs \<Longrightarrow> fgets_line k bs = take k bs"
  by (induction k bs rule: fgets_line.induct) auto

lemma tcp_long_line:
  assumes "tcp_idle s" and "1022 \<le> length (stdin_left s)" and "10 \<notin> set (take 1022 (stdin_left s))" and "0 \<notin> set (take 1022 (stdin_left s))"
  shows "tcp_prog (Cli 0) s = Step (s\<lparr>stdin_left := drop 1022 (stdin_left s), up := take 1021 (stdin_left s), wrote := wrote s @ take 1021 (stdin_left s), cli_pc := K_Read\<rparr>)"
proof -
  have f: "fgets_line 1022 (stdin_left s) = take 1022 (stdin_left s)" using assms(2,3) by (intro fgets_line_long)
  have c: "cstr (take 1022 (stdin_left s)) = take 1022 (stdin_left s)"
    using assms(4) by (auto simp: cstr_def takeWhile_eq_all_conv)
  have "butlast (take 1022 (stdin_left s)) = take 1021 (stdin_left s)" "take 1022 (stdin_left s) \<noteq> []" "stdin_left s \<noteq> []"
    using assms(2) by (auto simp: butlast_take)
  then show ?thesis using assms(1,2) f c
    by (simp add: tcp_prog_simps tcp_client_def Let_def tcp_idle_def CLI_BUF_def)
qed

subsection \<open>Every run of a session\<close>

text \<open>Whatever is typed and however the bytes are cut: every step uses up some of this weight.\<close>

definition tcp_weight :: "tcp \<Rightarrow> nat" where
  "tcp_weight s = 6 * length (stdin_left s) + 4 * length (up s) + 2 * length (srv_buf s) + length (down s)
     + (case srv_pc s of T_Read \<Rightarrow> 1 | T_Write \<Rightarrow> 2 | T_Closed r \<Rightarrow> 0) + (if cli_pc s = K_Closed then 0 else 1)"

lemma fgets_line_bounds: "length (fgets_line k bs) \<le> length bs" "0 < k \<Longrightarrow> bs \<noteq> [] \<Longrightarrow> fgets_line k bs \<noteq> []"
  by (induction k bs rule: fgets_line.induct) auto

lemma length_butlast_cstr: "length (butlast (cstr l)) \<le> length l"
  by (simp add: cstr_def) (meson diff_le_self le_trans length_takeWhile_le)

lemma tcp_handler_weight: "tcp_handler t s = Step s' \<Longrightarrow> tcp_weight s' < tcp_weight s"
  by (auto simp: tcp_handler_def tcp_weight_def split: srv_pc.splits tcp_tid.splits if_splits)

lemma tcp_client_weight: "tcp_client t s = Step s' \<Longrightarrow> tcp_weight s' < tcp_weight s"
proof (cases "cli_pc s = K_Gets \<and> stdin_left s \<noteq> []")
  case True
  assume st: "tcp_client t s = Step s'"
  let ?l = "fgets_line (CLI_BUF - 2) (stdin_left s)"
  have l: "length ?l \<le> length (stdin_left s)" "?l \<noteq> []" using fgets_line_bounds True by (auto simp: CLI_BUF_def)
  have "6 * (length (stdin_left s) - length ?l) + 4 * length (butlast (cstr ?l)) < 6 * length (stdin_left s)"
  proof -
    have "0 < length ?l" "length (butlast (cstr ?l)) \<le> length ?l" using l(2) length_butlast_cstr by auto
    then show ?thesis using l(1) by linarith
  qed
  moreover have "s' = s\<lparr>stdin_left := drop (length ?l) (stdin_left s), up := up s @ butlast (cstr ?l), wrote := wrote s @ butlast (cstr ?l), cli_pc := K_Read\<rparr>"
    using st True by (auto simp: tcp_client_def Let_def split: if_splits)
  ultimately show ?thesis using True l(1) by (simp add: tcp_weight_def)
qed (auto simp: tcp_client_def tcp_weight_def split: cli_pc.splits srv_pc.splits tcp_tid.splits if_splits)

lemma tcp_step_weight: "tcp_prog t s = Step s' \<Longrightarrow> tcp_weight s' < tcp_weight s"
  using tcp_handler_weight tcp_client_weight by (auto simp: tcp_prog_def split: if_splits)

text \<open>
  While the lines are fit to be sent, on a connection without errors: what is typed and not yet sent is the rest of the
  lines; a client that reads has something to read, on its way at least; the server ends after the client only.
\<close>

definition session_inv :: "cuchar list list \<Rightarrow> tcp \<Rightarrow> bool" where
  "session_inv ls s \<longleftrightarrow> tcp_inv s \<and> \<not> faulty s
     \<and> (\<exists>xs ys. ls = xs @ ys \<and> wrote s = concat xs \<and> stdin_left s = lines_bytes ys \<and> (cli_pc s = K_Closed \<longrightarrow> ys = []))
     \<and> (cli_pc s = K_Read \<longrightarrow> down s @ srv_buf s @ up s \<noteq> [])
     \<and> (\<forall>r. srv_pc s = T_Closed r \<longrightarrow> r = 0 \<and> cli_pc s = K_Closed)"

lemma session_init: "session_inv ls (tcp_init False (lines_bytes ls))"
proof -
  have "ls = [] @ ls \<and> wrote (tcp_init False (lines_bytes ls)) = concat [] \<and> stdin_left (tcp_init False (lines_bytes ls)) = lines_bytes ls
    \<and> (cli_pc (tcp_init False (lines_bytes ls)) = K_Closed \<longrightarrow> ls = [])" by (simp add: tcp_init_def)
  then have "\<exists>xs ys. ls = xs @ ys \<and> wrote (tcp_init False (lines_bytes ls)) = concat xs \<and> stdin_left (tcp_init False (lines_bytes ls)) = lines_bytes ys
    \<and> (cli_pc (tcp_init False (lines_bytes ls)) = K_Closed \<longrightarrow> ys = [])" by blast
  then show ?thesis using tcp_init_inv[of False "lines_bytes ls"] unfolding session_inv_def by (simp add: tcp_init_def)
qed

lemma session_handler:
  assumes "session_inv ls s" and "tcp_handler t s = Step s'"
  shows "session_inv ls s'"
proof -
  have "tcp_inv s'" using tcp_handler_inv assms by (auto simp: session_inv_def)
  moreover have "faulty s' = faulty s" "wrote s' = wrote s" "stdin_left s' = stdin_left s" "cli_pc s' = cli_pc s"
    using assms(2) by (auto simp: tcp_handler_def split: srv_pc.splits tcp_tid.splits if_splits)
  moreover have "cli_pc s = K_Read \<longrightarrow> down s' @ srv_buf s' @ up s' \<noteq> []"
    using assms by (auto simp: session_inv_def tcp_handler_def split: srv_pc.splits tcp_tid.splits if_splits)
  moreover have "\<forall>r. srv_pc s' = T_Closed r \<longrightarrow> r = 0 \<and> cli_pc s = K_Closed"
    using assms by (auto simp: session_inv_def tcp_handler_def split: srv_pc.splits tcp_tid.splits if_splits)
  ultimately show ?thesis using assms(1) by (simp add: session_inv_def)
qed

lemma session_gets:
  assumes "session_inv ls s" and ok: "\<forall>l \<in> set ls. line_ok l" and g: "cli_pc s = K_Gets" and y: "ls = xs @ l # ys" "stdin_left s = lines_bytes (l # ys)"
  shows "tcp_client t s = Step (s\<lparr>stdin_left := lines_bytes ys, up := up s @ l, wrote := wrote s @ l, cli_pc := K_Read\<rparr>)"
proof -
  have l: "line_ok l" using ok y(1) by simp
  then have f: "fgets_line 1022 (l @ 10 # lines_bytes ys) = l @ [10]" by (intro fgets_line_newline) (auto simp: line_ok_def CLI_BUF_def)
  have "cstr (l @ [10]) = l @ [10]" using l by (simp add: cstr_line line_ok_def)
  then show ?thesis using f g y(2) by (simp add: tcp_client_def Let_def lines_bytes_def CLI_BUF_def)
qed

lemma session_client:
  assumes inv: "session_inv ls s" and ok: "\<forall>l \<in> set ls. line_ok l" and st: "tcp_client t s = Step s'"
  shows "session_inv ls s'"
proof -
  have i': "tcp_inv s'" using tcp_client_inv[OF st] inv by (simp add: session_inv_def)
  obtain xs ys where x: "ls = xs @ ys" "wrote s = concat xs" "stdin_left s = lines_bytes ys" using inv by (auto simp: session_inv_def)
  consider "cli_pc s = K_Gets" "ys = []" | l zs where "cli_pc s = K_Gets" "ys = l # zs" | "cli_pc s = K_Read"
    using st by (cases "cli_pc s"; cases ys) (auto simp: tcp_client_def)
  then show ?thesis
  proof cases
    case 1
    then have "s' = s\<lparr>cli_pc := K_Closed\<rparr>" using st x(3) by (simp add: tcp_client_def lines_bytes_def)
    then show ?thesis using inv i' x 1 by (auto simp: session_inv_def lines_bytes_def)
  next
    case 2
    have s': "s' = s\<lparr>stdin_left := lines_bytes zs, up := up s @ l, wrote := wrote s @ l, cli_pc := K_Read\<rparr>"
      using session_gets[OF inv ok 2(1), of xs l zs t] x(1,3) 2(2) st by simp
    have "l \<noteq> []" using ok x(1) 2(2) by (auto simp: line_ok_def)
    moreover have "\<exists>xs ys. ls = xs @ ys \<and> wrote s' = concat xs \<and> stdin_left s' = lines_bytes ys \<and> (cli_pc s' = K_Closed \<longrightarrow> ys = [])"
      by (rule exI[of _ "xs @ [l]"], rule exI[of _ zs]) (use x 2(2) s' in simp)
    moreover have "\<not> faulty s" "\<forall>r. srv_pc s = T_Closed r \<longrightarrow> r = 0 \<and> cli_pc s = K_Closed" using inv by (simp_all add: session_inv_def)
    ultimately show ?thesis using i' s' 2(1) unfolding session_inv_def by simp
  next
    case 3
    then have nc: "\<forall>r. srv_pc s \<noteq> T_Closed r" "\<not> faulty s" using inv by (simp_all add: session_inv_def)
    have "\<exists>k. s' = s\<lparr>down := drop k (down s), received := received s @ take k (down s), cli_pc := K_Gets\<rparr>"
    proof (cases t)
      case (Cli k)
      then have "Step (s\<lparr>down := drop k (down s), received := received s @ take k (down s), cli_pc := K_Gets\<rparr>) = Step s'"
        using st 3 nc by (cases "srv_pc s") (simp_all add: tcp_client_def split: if_splits)
      then show ?thesis by (intro exI[of _ k]) simp
    qed (use st 3 nc in \<open>simp_all add: tcp_client_def\<close>)
    then obtain k where s': "s' = s\<lparr>down := drop k (down s), received := received s @ take k (down s), cli_pc := K_Gets\<rparr>" by blast
    have "\<exists>xs ys. ls = xs @ ys \<and> wrote s' = concat xs \<and> stdin_left s' = lines_bytes ys \<and> (cli_pc s' = K_Closed \<longrightarrow> ys = [])"
      by (rule exI[of _ xs], rule exI[of _ ys]) (use x s' in simp)
    moreover have "\<not> faulty s" "\<forall>r. srv_pc s = T_Closed r \<longrightarrow> r = 0 \<and> cli_pc s = K_Closed" using inv by (simp_all add: session_inv_def)
    ultimately show ?thesis using i' s' 3 unfolding session_inv_def by simp
  qed
qed

lemma session_step: "\<forall>l \<in> set ls. line_ok l \<Longrightarrow> session_inv ls s \<Longrightarrow> tcp_prog t s = Step s' \<Longrightarrow> session_inv ls s'"
  using session_handler[of ls s t s'] session_client[of ls s t s'] by (simp add: tcp_prog_def split: if_splits)

text \<open>Nobody can go on only when both are done.\<close>

lemma session_stuck:
  assumes inv: "session_inv ls s" and ok: "\<forall>l \<in> set ls. line_ok l" and "stuck tcp_prog s"
  shows "cli_pc s = K_Closed \<and> srv_pc s = T_Closed 0 \<and> stdin_left s = [] \<and> wrote s = concat ls
    \<and> (\<exists>rest. map toupper (concat ls) = received s @ rest)"
proof -
  have no: "\<forall>s'. tcp_handler (Srv k) s \<noteq> Step s'" "\<forall>s'. tcp_client (Cli k) s \<noteq> Step s'" for k
    using assms(3) tcp_prog_simps(1)[of k] tcp_prog_simps(3)[of k] unfolding stuck_def by metis+
  obtain xs ys where x: "ls = xs @ ys" "wrote s = concat xs" "stdin_left s = lines_bytes ys" "cli_pc s = K_Closed \<longrightarrow> ys = []"
    using inv by (auto simp: session_inv_def)
  have w: "srv_pc s \<noteq> T_Write" using no(1) by (auto simp: tcp_handler_def)
  then have b: "srv_buf s = []" using inv by (auto simp: session_inv_def tcp_inv_def)
  have u: "srv_pc s = T_Read \<Longrightarrow> up s = []" using no(1)[of 1] by (cases "up s") (auto simp: tcp_handler_def TCP_BUF_def)
  have d: "cli_pc s = K_Read \<Longrightarrow> down s = []" using no(2)[of 1] by (cases "down s") (auto simp: tcp_client_def CLI_BUF_def)
  have "cli_pc s \<noteq> K_Gets"
  proof
    assume g: "cli_pc s = K_Gets"
    show False
    proof (cases ys)
      case Nil
      then show False using no(2) x(3) g by (auto simp: tcp_client_def lines_bytes_def)
    next
      case (Cons l zs)
      then show False using session_gets[OF inv ok g, of xs l zs] x no(2) by auto
    qed
  qed
  moreover have "cli_pc s \<noteq> K_Read"
  proof
    assume r: "cli_pc s = K_Read"
    then have "srv_pc s = T_Read" using inv w by (cases "srv_pc s") (auto simp: session_inv_def)
    then show False using inv r d[OF r] u b by (auto simp: session_inv_def)
  qed
  ultimately have c: "cli_pc s = K_Closed" by (cases "cli_pc s") auto
  have "srv_pc s = T_Closed 0"
  proof (cases "srv_pc s")
    case T_Read
    then show ?thesis using no(1) u c by (auto simp: tcp_handler_def)
  qed (use inv w in \<open>auto simp: session_inv_def\<close>)
  then show ?thesis using inv x c by (auto simp: session_inv_def tcp_inv_def lines_bytes_def)
qed

text \<open>A session that is shorter than the client's buffer has no undefined step.\<close>

lemma session_no_fault:
  assumes inv: "session_inv ls s" and ok: "\<forall>l \<in> set ls. line_ok l" and short: "length (concat ls) < CLI_BUF"
  shows "tcp_prog t s \<noteq> Faults"
proof -
  obtain xs ys where x: "ls = xs @ ys" "wrote s = concat xs" "stdin_left s = lines_bytes ys" using inv by (auto simp: session_inv_def)
  have "tcp_client t s \<noteq> Faults"
  proof (cases "cli_pc s")
    case K_Gets
    show ?thesis
    proof (cases ys)
      case Nil
      then show ?thesis using x(3) K_Gets by (simp add: tcp_client_def lines_bytes_def)
    next
      case (Cons l zs)
      then show ?thesis using session_gets[OF inv ok K_Gets, of xs l zs] x by auto
    qed
  next
    case K_Read
    have "map toupper (wrote s) = received s @ down s @ map toupper (srv_buf s @ up s)"
      using inv K_Read by (simp add: session_inv_def tcp_inv_def)
    then have "length (down s) \<le> length (wrote s)" by (metis length_append length_map le_add1 le_add2 le_trans)
    also have "\<dots> \<le> length (concat ls)" using x by simp
    finally have "length (down s) < CLI_BUF" using short by simp
    then show ?thesis using K_Read by (auto simp: tcp_client_def split: tcp_tid.splits srv_pc.splits)
  qed (simp add: tcp_client_def)
  moreover have "tcp_handler t s \<noteq> Faults" by (auto simp: tcp_handler_def split: srv_pc.splits tcp_tid.splits)
  ultimately show ?thesis by (simp add: tcp_prog_def)
qed

interpretation session: terminating_program tcp_prog "tcp_init False (lines_bytes ls)"
    "\<lambda>s. (\<forall>l \<in> set ls. line_ok l) \<longrightarrow> session_inv ls s" tcp_weight for ls
  by unfold_locales (use session_init session_step tcp_step_weight in blast)+

text \<open>Every run of a session: its length, its end, and what the client has then.\<close>

lemma session_run:
  assumes ok: "\<forall>l \<in> set ls. line_ok l" and r: "run tcp_prog ts (tcp_init False (lines_bytes ls)) = Some s"
  shows "length ts \<le> 6 * length (lines_bytes ls) + 2"
    and "\<exists>us s'. run tcp_prog us s = Some s' \<and> stuck tcp_prog s'"
    and "session_inv ls s"
proof -
  show i: "session_inv ls s" using session.reach_inv[of ls s] r ok unfolding reach_run by blast
  show "\<exists>us s'. run tcp_prog us s = Some s' \<and> stuck tcp_prog s'" using session.run_to_end[of ls s] i by blast
  show "length ts \<le> 6 * length (lines_bytes ls) + 2"
    using session.run_bound[of ls, OF _ r] session_init[of ls] by (simp add: tcp_weight_def tcp_init_def)
qed

text \<open>
  The client reads once per line, whatever arrives: when a \<open>read\<close> delivers a part of the answer to the last line, the
  session ends without the other part.
\<close>

lemma tcp_last_cut:
  assumes "tcp_idle s" and "stdin_left s = l @ [10]" and "line_ok l" and "0 < k" and "k \<le> length l"
  shows "\<exists>s'. run tcp_prog [Cli 0, Srv (length l), Srv 0, Cli k, Cli 0, Srv 0] s = Some s' \<and> stuck tcp_prog s'
    \<and> received s' = received s @ map toupper (take k l)"
proof -
  have f: "fgets_line 1022 (l @ [10]) = l @ [10]"
    using assms(3) fgets_line_newline[of l 1022 "[]"] by (auto simp: line_ok_def CLI_BUF_def)
  have c: "cstr (l @ [10]) = l @ [10]" using assms(3) by (simp add: cstr_line line_ok_def)
  have l: "l \<noteq> []" "length l \<le> 1021" using assms(3) by (auto simp: line_ok_def CLI_BUF_def)
  let ?s1 = "s\<lparr>stdin_left := [], up := l, wrote := wrote s @ l, cli_pc := K_Read\<rparr>"
  let ?s2 = "?s1\<lparr>up := [], down := map toupper l\<rparr>"
  let ?s3 = "?s2\<lparr>down := drop k (map toupper l), received := received s @ take k (map toupper l), cli_pc := K_Gets\<rparr>"
  let ?s4 = "?s3\<lparr>cli_pc := K_Closed, srv_pc := T_Closed 0\<rparr>"
  have "run tcp_prog [Cli 0] s = Some ?s1"
    using assms(1,2) l f c by (simp add: tcp_prog_simps tcp_client_def Let_def tcp_idle_def CLI_BUF_def)
  moreover have "run tcp_prog [Srv (length l), Srv 0] ?s1 = Some ?s2"
    using assms(1) l by (simp add: tcp_prog_simps tcp_handler_def tcp_idle_def TCP_BUF_def)
  moreover have "run tcp_prog [Cli k] ?s2 = Some ?s3"
    using assms(4,5) l by (simp add: tcp_prog_simps tcp_client_def CLI_BUF_def)
  moreover have "run tcp_prog [Cli 0, Srv 0] ?s3 = Some ?s4"
    using assms(1) by (simp add: tcp_prog_simps tcp_client_def tcp_handler_def tcp_idle_def)
  ultimately have "run tcp_prog ([Cli 0] @ [Srv (length l), Srv 0] @ [Cli k] @ [Cli 0, Srv 0]) s = Some ?s4"
    by (intro run_SomeI)
  moreover have "stuck tcp_prog ?s4"
  proof -
    have "tcp_prog t ?s4 \<noteq> Step s'" for t s' by (cases t) (simp_all add: tcp_prog_simps tcp_client_def tcp_handler_def)
    then show ?thesis by (simp add: stuck_def)
  qed
  ultimately show ?thesis by (intro exI[of _ ?s4]) (simp add: take_map)
qed

lemma session_cut:
  assumes ok: "\<forall>l \<in> set (ls @ [l]). line_ok l" and k: "0 < k" "k \<le> length l"
  shows "\<exists>ts s. run tcp_prog ts (tcp_init False (lines_bytes (ls @ [l]))) = Some s \<and> stuck tcp_prog s
    \<and> received s = map toupper (concat ls @ take k l)"
proof -
  let ?i = "tcp_init False (lines_bytes (ls @ [l]))"
  have "tcp_idle ?i" "stdin_left ?i = lines_bytes ls @ l @ [10]" "received ?i = []" by (simp_all add: tcp_idle_def tcp_init_def lines_bytes_def)
  then obtain s1 where s1: "run tcp_prog (concat (map line_round ls)) ?i = Some s1" "tcp_idle s1" "stdin_left s1 = l @ [10]"
      "received s1 = map toupper (concat ls)"
    using tcp_rounds[of ?i ls "l @ [10]"] ok by auto
  have "line_ok l" using ok by simp
  then obtain s where "run tcp_prog [Cli 0, Srv (length l), Srv 0, Cli k, Cli 0, Srv 0] s1 = Some s" "stuck tcp_prog s"
      "received s = received s1 @ map toupper (take k l)"
    using tcp_last_cut[OF s1(2,3) _ k] by blast
  then show ?thesis using run_SomeI[OF s1(1)] s1(4) by (intro exI[of _ "concat (map line_round ls) @ [Cli 0, Srv (length l), Srv 0, Cli k, Cli 0, Srv 0]"] exI[of _ s]) simp
qed

lemma session_empty_line:
  assumes "\<forall>l \<in> set ls. line_ok l"
  shows "\<exists>us s. run tcp_prog us (tcp_init False (lines_bytes ls @ 10 # rest)) = Some s \<and> stuck tcp_prog s \<and> stdin_left s = rest
    \<and> wrote s = concat ls \<and> received s = map toupper (concat ls)"
proof -
  let ?i = "tcp_init False (lines_bytes ls @ 10 # rest)"
  have "tcp_idle ?i" "stdin_left ?i = lines_bytes ls @ 10 # rest" "\<not> faulty ?i" "wrote ?i = []" "received ?i = []"
    by (simp_all add: tcp_idle_def tcp_init_def)
  then obtain s1 where s1: "run tcp_prog (concat (map line_round ls)) ?i = Some s1" "tcp_idle s1" "stdin_left s1 = 10 # rest" "\<not> faulty s1"
      "wrote s1 = concat ls" "received s1 = map toupper (concat ls)"
    using tcp_rounds[of ?i ls "10 # rest"] assms by auto
  obtain s where s: "tcp_prog (Cli 0) s1 = Step s" "stuck tcp_prog s" "wrote s = wrote s1" "received s = received s1" "stdin_left s = rest"
    using tcp_empty_line[OF s1(2,3,4)] by blast
  have "run tcp_prog [Cli 0] s1 = Some s" using s(1) by simp
  then show ?thesis using run_SomeI[OF s1(1)] s s1(5,6) by metis
qed

subsection \<open>The server's main loop\<close>

text \<open>
  Each accepted connection is served by a child, which ends with the result of \<open>client_handler\<close>; the parent closes its
  copy of the descriptor. The loop ends when \<open>accept\<close> or \<open>fork\<close> fails. The state is the parent's open descriptors and
  the connections given to children. The signal handler, which waits for one child per signal, is left out.
\<close>

datatype conn_event = Accepted int bool | AcceptFail

fun tcp_accept_loop :: "conn_event list \<Rightarrow> int set \<Rightarrow> int list \<Rightarrow> int set \<times> int list" where
  "tcp_accept_loop [] fds kids = (fds, kids)"
| "tcp_accept_loop (AcceptFail # es) fds kids = (fds, kids)"
| "tcp_accept_loop (Accepted fd forks # es) fds kids =
     (if forks then tcp_accept_loop es (insert fd fds - {fd}) (kids @ [fd])
      else (insert fd fds - {fd}, kids))"

lemma tcp_accept_loop_kids:
  assumes "fds \<inter> {fd. \<exists>b. Accepted fd b \<in> set es} = {}"
  shows "fst (tcp_accept_loop es fds kids) = fds"
    and "\<exists>n. snd (tcp_accept_loop es fds kids) = kids @ map (\<lambda>e. case e of Accepted fd b \<Rightarrow> fd | _ \<Rightarrow> 0) (take n es)"
proof -
  show "fst (tcp_accept_loop es fds kids) = fds" using assms
    by (induction es fds kids rule: tcp_accept_loop.induct) auto
  show "\<exists>n. snd (tcp_accept_loop es fds kids) = kids @ map (\<lambda>e. case e of Accepted fd b \<Rightarrow> fd | _ \<Rightarrow> 0) (take n es)"
  proof (induction es fds kids rule: tcp_accept_loop.induct)
    case (3 fd forks es fds kids)
    show ?case
    proof (cases forks)
      case True
      then obtain n where "snd (tcp_accept_loop es (insert fd fds - {fd}) (kids @ [fd]))
        = (kids @ [fd]) @ map (\<lambda>e. case e of Accepted fd b \<Rightarrow> fd | _ \<Rightarrow> 0) (take n es)" using 3 by blast
      then show ?thesis using True by (intro exI[of _ "Suc n"]) simp
    qed (auto intro: exI[of _ 0])
  qed (auto intro: exI[of _ 0])
qed

end
