(* ===== verification/EchoQueue.thy ===== *)
theory EchoQueue
  imports TcpLoop "HOL-Library.Multiset"
begin

section \<open>An echo server over a message queue (04MsgQueue/03Project/echo_server: server.c, client.c)\<close>

text \<open>
  Server and clients share one queue. A client sends a line under its type and waits for a message of that type; the
  server takes the first message of any type and sends its text back in capital letters under the same type. A
  message is its type and its bytes with the terminating zero. \<open>esent\<close> and \<open>erecv\<close> record the texts that the
  clients sent and received. The type of a client is 20 plus the last digit of its process number. A full queue, on
  which \<open>msgsnd\<close> waits, is not modelled; nor is the status report.
\<close>

type_synonym emsg = "int \<times> cuchar list"

datatype echo_pc = E_Recv | E_Reply int | E_Out

datatype ecli_pc = EC_Gets | EC_Recv | EC_Out int

record echo =
  equeue :: "emsg list"
  ebuf :: "cuchar list"
  esrv :: echo_pc
  ecli :: "nat \<Rightarrow> ecli_pc"
  etyped :: "nat \<Rightarrow> cuchar list"
  esent :: "emsg list"
  erecv :: "emsg list"

datatype echo_tid = EServer | EClient nat

definition ECHO_BUF :: nat where "ECHO_BUF = 4096"

definition echo_type :: "nat \<Rightarrow> int" where
  "echo_type pid = 20 + int (pid mod 10)"

definition echo_char :: "cuchar \<Rightarrow> cuchar" where
  "echo_char b = (if 97 - 1 < b \<and> b < 122 + 1 then b - 32 else b)"

text \<open>\<open>msg_handler\<close> of the server: the text ends at the first zero of the buffer, which keeps older messages.\<close>

definition echo_handler :: "int \<Rightarrow> cuchar list \<Rightarrow> emsg option" where
  "echo_handler mtype buf = map_option (\<lambda>str. (mtype, map echo_char str @ [0])) (fmt_s buf)"

definition echo_server :: "echo \<Rightarrow> echo turn" where
  "echo_server s = (case esrv s of
     E_Recv \<Rightarrow> (case equeue s of
         [] \<Rightarrow> Waits
       | (ty, m) # q \<Rightarrow>
           (if m = [] then Step (s\<lparr>equeue := q, esrv := E_Out\<rparr>)
            else Step (s\<lparr>equeue := q, ebuf := store (take ECHO_BUF m) (ebuf s), esrv := E_Reply ty\<rparr>)))
   | E_Reply ty \<Rightarrow> (case echo_handler ty (ebuf s) of
         None \<Rightarrow> Faults
       | Some msg \<Rightarrow> Step (s\<lparr>equeue := equeue s @ [msg], esrv := E_Recv\<rparr>))
   | E_Out \<Rightarrow> Ends)"

text \<open>The first message of a type.\<close>

fun take_type :: "int \<Rightarrow> emsg list \<Rightarrow> (emsg \<times> emsg list) option" where
  "take_type ty [] = None"
| "take_type ty (m # q) = (if fst m = ty then Some (m, q) else map_option (\<lambda>(r, q). (r, m # q)) (take_type ty q))"

text \<open>The client's \<open>main\<close> and its \<open>msg_handler\<close>.\<close>

definition echo_client :: "nat \<Rightarrow> echo \<Rightarrow> echo turn" where
  "echo_client p s = (let goto = (\<lambda>pc. (ecli s)(p := pc)) in case ecli s p of
     EC_Gets \<Rightarrow>
       (if etyped s p = [] then Step (s\<lparr>ecli := goto (EC_Out (-1))\<rparr>)
        else let line = fgets_line (ECHO_BUF - 2) (etyped s p); str = cstr line;
                 s = s\<lparr>etyped := (etyped s)(p := drop (length line) (etyped s p))\<rparr> in
          if take 4 str = lit ''exit'' then Step (s\<lparr>ecli := goto (EC_Out 0)\<rparr>)
          else Step (s\<lparr>equeue := equeue s @ [(echo_type p, str @ [0])], esent := esent s @ [(echo_type p, str)], ecli := goto EC_Recv\<rparr>))
   | EC_Recv \<Rightarrow> (case take_type (echo_type p) (equeue s) of
         None \<Rightarrow> Waits
       | Some ((ty, m), q) \<Rightarrow> Step (s\<lparr>equeue := q, erecv := erecv s @ [(ty, cstr m)], ecli := goto EC_Gets\<rparr>))
   | EC_Out r \<Rightarrow> Ends)"

definition echo_prog :: "(echo_tid, echo) program" where
  "echo_prog t s = (case t of EServer \<Rightarrow> echo_server s | EClient p \<Rightarrow> echo_client p s)"

definition echo_init :: "(nat \<Rightarrow> cuchar list) \<Rightarrow> echo" where
  "echo_init inp = \<lparr>equeue = [], ebuf = replicate ECHO_BUF 0, esrv = E_Recv, ecli = \<lambda>_. EC_Gets, etyped = inp, esent = [], erecv = []\<rparr>"

subsection \<open>Messages are neither lost nor made up\<close>

text \<open>
  Up to capital letters, the texts in the queue, the one the server works on and those received are the texts sent,
  each under its type.
\<close>

definition capital :: "emsg \<Rightarrow> emsg" where
  "capital m = (fst m, map echo_char (snd m))"

definition text_ok :: "cuchar list \<Rightarrow> bool" where
  "text_ok str \<longleftrightarrow> 0 \<notin> set str \<and> length str \<le> ECHO_BUF - 2"

definition in_hand :: "echo \<Rightarrow> emsg list" where
  "in_hand s = (case esrv s of E_Reply ty \<Rightarrow> [(ty, cstr (ebuf s))] | _ \<Rightarrow> [])"

lemma in_hand_same: "esrv s' = esrv s \<Longrightarrow> ebuf s' = ebuf s \<Longrightarrow> in_hand s' = in_hand s"
  by (cases "esrv s") (simp_all add: in_hand_def)

definition queue_of :: "emsg list \<Rightarrow> emsg list" where
  "queue_of ms = map (\<lambda>(ty, str). (ty, str @ [0])) ms"

definition echo_inv :: "echo \<Rightarrow> bool" where
  "echo_inv s \<longleftrightarrow> (\<exists>ms. equeue s = queue_of ms \<and> (\<forall>m \<in> set (ms @ in_hand s). text_ok (snd m)) \<and> length (ebuf s) = ECHO_BUF
     \<and> (\<forall>ty. esrv s = E_Reply ty \<longrightarrow> 0 \<in> set (ebuf s)) \<and> esrv s \<noteq> E_Out
     \<and> image_mset capital (mset (esent s)) = image_mset capital (mset (ms @ in_hand s @ erecv s)))"

lemma echo_init_inv: "echo_inv (echo_init inp)"
  by (simp add: echo_inv_def echo_init_def queue_of_def in_hand_def)

lemma echo_char_unat: "unat (echo_char b) = (if 97 \<le> unat b \<and> unat b \<le> 122 then unat b - 32 else unat b)"
  using unat_sub[of "32 :: cuchar" b] by (auto simp: echo_char_def word_less_nat_alt word_le_nat_alt)

lemma echo_char_idem [simp]: "echo_char (echo_char b) = echo_char b"
  unfolding word_unat_eq_iff by (auto simp: echo_char_unat)

lemma echo_char_zero [simp]: "echo_char b = 0 \<longleftrightarrow> b = 0"
  using echo_char_unat[of b] by (auto simp: unat_eq_0 split: if_splits)

lemma echo_char_toupper: "echo_char b = toupper b"
  by (auto simp: echo_char_def toupper_def word_less_nat_alt word_le_nat_alt)

lemma cstr_ends: "0 \<in> set buf \<Longrightarrow> \<exists>rest. buf = cstr buf @ 0 # rest" and cstr_nonzero: "0 \<notin> set (cstr buf)"
  by (induction buf) (auto simp: cstr_def)

lemma cstr_store:
  assumes "text_ok str" and "length buf = ECHO_BUF"
  shows "cstr (store (take ECHO_BUF (str @ [0])) buf) = str" and "length (store (take ECHO_BUF (str @ [0])) buf) = ECHO_BUF"
    and "0 \<in> set (store (take ECHO_BUF (str @ [0])) buf)"
proof -
  have "take ECHO_BUF (str @ [0]) = str @ [0]" using assms(1) by (auto simp: text_ok_def ECHO_BUF_def)
  moreover have "length (str @ [0]) \<le> length buf" using assms by (auto simp: text_ok_def ECHO_BUF_def)
  ultimately show "cstr (store (take ECHO_BUF (str @ [0])) buf) = str" "length (store (take ECHO_BUF (str @ [0])) buf) = ECHO_BUF"
    "0 \<in> set (store (take ECHO_BUF (str @ [0])) buf)"
    using assms by (auto simp: store_def cstr_append text_ok_def)
qed

lemma queue_of_append: "queue_of (ms @ ms') = queue_of ms @ queue_of ms'"
  by (simp add: queue_of_def)

lemma echo_invI:
  assumes "equeue s = queue_of ms" and "\<forall>m \<in> set (ms @ in_hand s). text_ok (snd m)" and "length (ebuf s) = ECHO_BUF"
    and "\<And>ty. esrv s = E_Reply ty \<Longrightarrow> 0 \<in> set (ebuf s)" and "esrv s \<noteq> E_Out"
    and "image_mset capital (mset (esent s)) = image_mset capital (mset (ms @ in_hand s @ erecv s))"
  shows "echo_inv s"
  unfolding echo_inv_def by (rule exI[of _ ms]) (use assms in blast)

lemma echo_server_inv:
  assumes st: "echo_server s = Step s'" and inv: "echo_inv s"
  shows "echo_inv s'"
proof -
  obtain ms where ms: "equeue s = queue_of ms" "\<forall>m \<in> set (ms @ in_hand s). text_ok (snd m)" "length (ebuf s) = ECHO_BUF"
      "\<And>ty. esrv s = E_Reply ty \<Longrightarrow> 0 \<in> set (ebuf s)" "esrv s \<noteq> E_Out"
      "image_mset capital (mset (esent s)) = image_mset capital (mset (ms @ in_hand s @ erecv s))"
    using inv unfolding echo_inv_def by blast
  show ?thesis
  proof (cases "esrv s")
    case E_Recv
    then obtain ty str ms' where q: "ms = (ty, str) # ms'"
      using st ms(1) by (cases ms) (auto simp: echo_server_def queue_of_def)
    then have ok: "text_ok str" using ms(2) by simp
    let ?buf = "store (take ECHO_BUF (str @ [0])) (ebuf s)"
    have s': "s' = s\<lparr>equeue := queue_of ms', ebuf := ?buf, esrv := E_Reply ty\<rparr>"
      using st E_Recv ms(1) q by (simp add: echo_server_def queue_of_def)
    note b = cstr_store[OF ok ms(3)]
    have h: "in_hand s = []" "in_hand s' = [(ty, str)]" using E_Recv b(1) by (simp_all add: in_hand_def s')
    show ?thesis by (rule echo_invI[of _ ms']) (use ms(2,6) b h q in \<open>simp_all add: s'\<close>)
  next
    case (E_Reply ty)
    let ?str = "cstr (ebuf s)"
    have z: "0 \<in> set (ebuf s)" by (rule ms(4)[OF E_Reply])
    have s': "s' = s\<lparr>equeue := queue_of (ms @ [(ty, map echo_char ?str)]), esrv := E_Recv\<rparr>"
      using st E_Reply ms(1) z by (simp add: echo_server_def echo_handler_def fmt_s_def queue_of_def)
    have h: "in_hand s = [(ty, ?str)]" "in_hand s' = []" using E_Reply by (simp_all add: in_hand_def s')
    have "text_ok (map echo_char ?str)" using ms(2) h(1) by (auto simp: text_ok_def)
    moreover have "capital (ty, map echo_char ?str) = capital (ty, ?str)" by (simp add: capital_def)
    ultimately show ?thesis by (intro echo_invI[of _ "ms @ [(ty, map echo_char ?str)]"]) (use ms h in \<open>auto simp: s'\<close>)
  next
    case E_Out
    then show ?thesis using ms(5) by simp
  qed
qed

lemma take_type_queue:
  assumes "take_type ty (queue_of ms) = Some (m, q)"
  shows "\<exists>str ms'. m = (ty, str @ [0]) \<and> q = queue_of ms' \<and> mset ms = {#(ty, str)#} + mset ms' \<and> (ty, str) \<in> set ms \<and> set ms' \<subseteq> set ms"
  using assms
proof (induction ms arbitrary: m q)
  case Nil
  then show ?case by (simp add: queue_of_def)
next
  case (Cons a ms)
  obtain ta sa where a: "a = (ta, sa)" by (cases a)
  show ?case
  proof (cases "ta = ty")
    case True
    then show ?thesis using Cons.prems a by (intro exI[of _ sa] exI[of _ ms]) (auto simp: queue_of_def)
  next
    case False
    then obtain q0 where q: "take_type ty (queue_of ms) = Some (m, q0)" "q = (ta, sa @ [0]) # q0"
      using Cons.prems a by (auto simp: queue_of_def)
    then obtain str ms' where "m = (ty, str @ [0])" "q0 = queue_of ms'" "mset ms = {#(ty, str)#} + mset ms'"
        "(ty, str) \<in> set ms" "set ms' \<subseteq> set ms" using Cons.IH by blast
    then show ?thesis using q(2) a by (intro exI[of _ str] exI[of _ "(ta, sa) # ms'"]) (auto simp: queue_of_def)
  qed
qed

lemma fgets_line_length: "length (fgets_line k bs) \<le> k"
  by (induction k bs rule: fgets_line.induct) auto

lemma echo_client_inv:
  assumes st: "echo_client p s = Step s'" and inv: "echo_inv s"
  shows "echo_inv s'"
proof -
  obtain ms where ms: "equeue s = queue_of ms" "\<forall>m \<in> set (ms @ in_hand s). text_ok (snd m)" "length (ebuf s) = ECHO_BUF"
      "\<And>ty. esrv s = E_Reply ty \<Longrightarrow> 0 \<in> set (ebuf s)" "esrv s \<noteq> E_Out"
      "image_mset capital (mset (esent s)) = image_mset capital (mset (ms @ in_hand s @ erecv s))"
    using inv unfolding echo_inv_def by blast
  have out: ?thesis if "equeue s' = equeue s" "ebuf s' = ebuf s" "esrv s' = esrv s" "esent s' = esent s" "erecv s' = erecv s"
  proof -
    have h: "in_hand s' = in_hand s" using that by (intro in_hand_same)
    show ?thesis
    proof (rule echo_invI[of s' ms])
      show "esrv s' = E_Reply ty \<Longrightarrow> 0 \<in> set (ebuf s')" for ty using ms(4) that(2,3) by metis
    qed (use ms(1,2,3,5,6) that h in metis)+
  qed
  show ?thesis
  proof (cases "ecli s p")
    case EC_Gets
    let ?str = "cstr (fgets_line (ECHO_BUF - 2) (etyped s p))"
    show ?thesis
    proof (cases "etyped s p = [] \<or> take 4 ?str = lit ''exit''")
      case True
      then show ?thesis using out st EC_Gets by (auto simp: echo_client_def Let_def split: if_splits)
    next
      case False
      let ?ms = "ms @ [(echo_type p, ?str)]"
      have e: "equeue s' = queue_of ?ms" "ebuf s' = ebuf s" "esrv s' = esrv s" "esent s' = esent s @ [(echo_type p, ?str)]" "erecv s' = erecv s"
        using st EC_Gets False ms(1) by (auto simp: echo_client_def Let_def queue_of_def)
      have "length ?str \<le> ECHO_BUF - 2"
        using fgets_line_length[of "ECHO_BUF - 2" "etyped s p"] by (auto simp: cstr_def intro: le_trans[OF length_takeWhile_le])
      then have "text_ok ?str" by (simp add: text_ok_def cstr_nonzero)
      moreover have h: "in_hand s' = in_hand s" using e(2,3) by (intro in_hand_same)
      ultimately show ?thesis using ms(2-) e by (intro echo_invI[of s' ?ms]) (auto intro: ms(4)[OF sym])
    qed
  next
    case EC_Recv
    then obtain m q where t: "take_type (echo_type p) (equeue s) = Some (m, q)"
      using st by (cases "take_type (echo_type p) (equeue s)") (auto simp: echo_client_def)
    then obtain str ms' where r: "m = (echo_type p, str @ [0])" "q = queue_of ms'" "mset ms = {#(echo_type p, str)#} + mset ms'"
        "(echo_type p, str) \<in> set ms" "set ms' \<subseteq> set ms" using take_type_queue ms(1) by metis
    have "text_ok str" using bspec[OF ms(2), of "(echo_type p, str)"] r(4) by simp
    then have "cstr (str @ [0]) = str" by (simp add: cstr_append text_ok_def)
    then have e: "equeue s' = queue_of ms'" "ebuf s' = ebuf s" "esrv s' = esrv s" "esent s' = esent s" "erecv s' = erecv s @ [(echo_type p, str)]"
      using st EC_Recv t r by (auto simp: echo_client_def)
    then have h: "in_hand s' = in_hand s" by (intro in_hand_same)
    show ?thesis by (rule echo_invI[of s' ms']) (use ms(2-) e h r(3,5) in auto)
  next
    case (EC_Out r)
    then show ?thesis using st by (simp add: echo_client_def)
  qed
qed

lemma echo_step_inv: "echo_inv s \<Longrightarrow> echo_prog t s = Step s' \<Longrightarrow> echo_inv s'"
  using echo_server_inv echo_client_inv by (cases t) (auto simp: echo_prog_def)

interpretation echo: invariant_program echo_prog "echo_init inp" echo_inv for inp
  by unfold_locales (rule echo_init_inv, erule (1) echo_step_inv)

text \<open>What a client receives was sent under its type, up to capital letters, and as often.\<close>

lemma echo_received:
  assumes "reach echo_prog (echo_init inp) s"
  shows "image_mset capital (mset (erecv s)) \<subseteq># image_mset capital (mset (esent s))"
    and "echo_prog t s \<noteq> Faults"
proof -
  have inv: "echo_inv s" by (rule echo.reach_inv[OF assms])
  then show "image_mset capital (mset (erecv s)) \<subseteq># image_mset capital (mset (esent s))" by (auto simp: echo_inv_def)
  have "\<And>ty. esrv s = E_Reply ty \<Longrightarrow> 0 \<in> set (ebuf s)" using inv unfolding echo_inv_def by blast
  then have "echo_server s \<noteq> Faults"
    by (auto simp: echo_server_def echo_handler_def fmt_s_def split: echo_pc.splits list.splits option.splits)
  moreover have "echo_client p s \<noteq> Faults" for p
    by (auto simp: echo_client_def Let_def split: ecli_pc.splits option.splits)
  ultimately show "echo_prog t s \<noteq> Faults" by (cases t) (simp_all add: echo_prog_def)
qed

text \<open>When the queue is empty, client and server in turn give the echo; but a client that is faster gets its own line back.\<close>

definition echo_line :: "nat \<Rightarrow> echo \<Rightarrow> cuchar list" where
  "echo_line p s = cstr (fgets_line (ECHO_BUF - 2) (etyped s p))"

lemma echo_sends:
  assumes "ecli s p = EC_Gets" and "etyped s p \<noteq> []" and "take 4 (echo_line p s) \<noteq> lit ''exit''"
  shows "echo_prog (EClient p) s = Step (s\<lparr>etyped := (etyped s)(p := drop (length (fgets_line (ECHO_BUF - 2) (etyped s p))) (etyped s p)),
    equeue := equeue s @ [(echo_type p, echo_line p s @ [0])], esent := esent s @ [(echo_type p, echo_line p s)],
    ecli := (ecli s)(p := EC_Recv)\<rparr>)"
  using assms by (simp add: echo_prog_def echo_client_def Let_def echo_line_def)

lemma echo_line_ok: "text_ok (echo_line p s)"
proof -
  have "length (echo_line p s) \<le> ECHO_BUF - 2" unfolding echo_line_def cstr_def
    using length_takeWhile_le fgets_line_length by (rule le_trans)
  then show ?thesis by (simp add: text_ok_def echo_line_def cstr_nonzero)
qed

lemma echo_own_line:
  assumes "ecli s p = EC_Gets" and "etyped s p \<noteq> []" and "take 4 (echo_line p s) \<noteq> lit ''exit''" and "equeue s = []"
  shows "\<exists>s'. run echo_prog [EClient p, EClient p] s = Some s' \<and> erecv s' = erecv s @ [(echo_type p, echo_line p s)]"
  using echo_sends[OF assms(1-3)] assms(4) echo_line_ok[of p s]
  by (simp add: echo_prog_def echo_client_def cstr_append text_ok_def)

lemma echo_answers:
  assumes "ecli s p = EC_Gets" and "etyped s p \<noteq> []" and "take 4 (echo_line p s) \<noteq> lit ''exit''" and "equeue s = []"
    and "esrv s = E_Recv" and "length (ebuf s) = ECHO_BUF"
  shows "\<exists>s'. run echo_prog [EClient p, EServer, EServer, EClient p] s = Some s'
    \<and> erecv s' = erecv s @ [(echo_type p, map toupper (echo_line p s))] \<and> equeue s' = [] \<and> esrv s' = E_Recv
    \<and> ecli s' p = EC_Gets \<and> length (ebuf s') = ECHO_BUF"
proof -
  let ?str = "echo_line p s"
  note b = cstr_store[OF echo_line_ok[of p s] assms(6)]
  have z: "0 \<notin> set (map echo_char ?str)" using echo_line_ok[of p s] by (auto simp: text_ok_def)
  have "map echo_char ?str = map toupper ?str" by (simp add: echo_char_toupper)
  then have c: "cstr (map echo_char ?str @ [0]) = map toupper ?str" using z by (simp add: cstr_append)
  show ?thesis
    using echo_sends[OF assms(1-3)] assms(4,5) b c
    by (simp add: echo_prog_def echo_server_def echo_client_def echo_handler_def fmt_s_def)
qed

end
