(* ===== verification/NetDemos.thy ===== *)
theory NetDemos
  imports TcpLoop
begin

section \<open>Small servers and clients (06Socket: 01Tcp, 06Udp, 05Epoll_server, 03Tcp_select/client.c)\<close>

text \<open>
  Four programs that answer one request at a time. Setting up sockets is left out except where it decides about
  something else, and so are messages on the console that show nothing of the data.
\<close>

subsection \<open>One request per connection (01Tcp/server.c, client.c)\<close>

text \<open>
  The server reads once, puts a zero in place of the last but one byte and sends all but the last byte back in capital
  letters. An entry of the list is what \<open>accept\<close> returns and what the reads on that connection do; without a further
  entry the server waits. The loop ends when a read fails or delivers nothing. The result is the answers.
\<close>

definition NET_BUF :: nat where "NET_BUF = 4096"

datatype tcp1_conn = AcceptErr | Conn "rd_event list"

definition tcp1_answer :: "cuchar list \<Rightarrow> cuchar list option" where
  "tcp1_answer bs = (let n = length bs in
     if n < 2 then None else Some (take (n - 1) (map toupper (bs[n - 2 := 0]))))"

fun tcp1_server :: "tcp1_conn list \<Rightarrow> cuchar list list option" where
  "tcp1_server [] = Some []"
| "tcp1_server (AcceptErr # cs) = tcp1_server cs"
| "tcp1_server (Conn es # cs) = (case read_retry es (NET_BUF - 1) of
     None \<Rightarrow> Some []
   | Some bs \<Rightarrow>
       (if bs = [] then Some []
        else Option.bind (tcp1_answer bs) (\<lambda>r. map_option ((#) r) (tcp1_server cs))))"

text \<open>The client writes its argument with the terminating zero and shows what it reads, without the last byte.\<close>

definition tcp1_request :: "cuchar list \<Rightarrow> cuchar list" where
  "tcp1_request msg = msg @ [0]"

definition tcp1_client :: "rd_event list \<Rightarrow> cuchar list option" where
  "tcp1_client es = (case es of
     Got bs # _ \<Rightarrow> (let buf = take CLI_BUF bs in if buf = [] then None
       else Some (cstr (store (butlast buf @ [0]) (replicate CLI_BUF 0))))
   | _ \<Rightarrow> None)"

text \<open>So a message loses its last letter on the way, and the empty one makes the server write before its buffer.\<close>

lemma toupper_zero [simp]: "toupper b = 0 \<longleftrightarrow> b = 0"
  by (auto simp: toupper_def word_le_nat_alt)

lemma tcp1_answer_request:
  assumes "msg \<noteq> []"
  shows "tcp1_answer (tcp1_request msg) = Some (map toupper (butlast msg) @ [0])"
proof -
  obtain xs x where m: "msg = xs @ [x]" using assms by (cases msg rule: rev_cases) auto
  have "(xs @ [x, 0])[length xs := 0] = xs @ [0, 0]" by (simp add: list_update_append)
  then show ?thesis by (simp add: tcp1_answer_def tcp1_request_def Let_def m)
qed

lemma tcp1_empty: "tcp1_answer (tcp1_request []) = None"
  by (simp add: tcp1_answer_def tcp1_request_def)

lemma tcp1_exchange:
  assumes "msg \<noteq> []" and "0 \<notin> set msg" and "length msg \<le> CLI_BUF"
  shows "\<exists>r. tcp1_server [Conn [Got (tcp1_request msg)]] = Some [r] \<and> tcp1_client [Got r] = Some (map toupper (butlast msg))"
proof -
  let ?r = "map toupper (butlast msg) @ [0]"
  have "length (tcp1_request msg) \<le> NET_BUF - 1" using assms(3) by (auto simp: tcp1_request_def NET_BUF_def CLI_BUF_def)
  then have r: "take (NET_BUF - 1) (tcp1_request msg) = tcp1_request msg" by simp
  have "tcp1_server [Conn [Got (tcp1_request msg)]] = Some [?r]"
    using tcp1_answer_request[OF assms(1)] r by (simp add: tcp1_request_def)
  moreover have "length ?r \<le> CLI_BUF" using assms(1,3) by (cases msg) auto
  then have "take CLI_BUF ?r = ?r" by simp
  moreover have "0 \<notin> set (map toupper (butlast msg))" using assms(2) in_set_butlastD by fastforce
  ultimately show ?thesis
    by (intro exI[of _ ?r]) (simp add: tcp1_client_def store_def cstr_append)
qed

text \<open>A client that connects and sends nothing ends the server.\<close>

lemma tcp1_server_ended: "tcp1_server (Conn [] # cs) = Some []"
  by simp

subsection \<open>Datagrams with the time (06Udp)\<close>

text \<open>
  Server and client send each other the time as \<open>ctime\<close> prints it, without the newline, and show what they
  receive without its last byte. \<open>ct\<close> is the string of \<open>ctime\<close>. The receiving buffer keeps what older datagrams left.
\<close>

definition UDP_MSG :: nat where "UDP_MSG = 128"

definition udp_msg :: "cuchar list \<Rightarrow> cuchar list option" where
  "udp_msg ct = (let n = length ct; msg = store (take (UDP_MSG - 2) ct) (replicate UDP_MSG 0) in
     if n = 0 \<or> UDP_MSG < n then None else Some (cstr (msg[n - 1 := 0]) @ [0]))"

definition udp_show :: "cuchar list \<Rightarrow> cuchar list \<Rightarrow> cuchar list" where
  "udp_show bs buf = (store bs buf)[length bs - 1 := 0]"

text \<open>A turn of the server: what it received (\<open>None\<close>: an error), the time; the new buffer, what is shown, the answer.\<close>

definition udp_server :: "cuchar list option \<Rightarrow> cuchar list \<Rightarrow> cuchar list \<Rightarrow> (cuchar list \<times> cuchar list list \<times> cuchar list list) option" where
  "udp_server dgram ct buf = (case dgram of
     None \<Rightarrow> Some (buf, [], [])
   | Some bs \<Rightarrow> (let bs = take (NET_BUF - 1) bs in
       if bs = [] then Some (buf, [], [])
       else let buf = udp_show bs buf in map_option (\<lambda>m. (buf, [cstr buf], [m])) (udp_msg ct)))"

text \<open>The client: four rounds, each with the time, whether sending succeeds, and what is received.\<close>

fun udp_client :: "(cuchar list \<times> bool \<times> cuchar list option) list \<Rightarrow> nat \<Rightarrow> cuchar list \<Rightarrow> (cuchar list list \<times> cuchar list list) option" where
  "udp_client [] i buf = Some ([], [])"
| "udp_client ((ct, ok, dgram) # rs) i buf =
     (if i \<le> 1 then Some ([], [])
      else Option.bind (udp_msg ct) (\<lambda>m.
        if \<not> ok then Some ([], [])
        else case map_option (take (NET_BUF - 1)) dgram of
            None \<Rightarrow> Some ([m], [])
          | Some bs \<Rightarrow>
              (if bs = [] then Some ([m], [])
               else let buf = udp_show bs buf in
                 map_option (\<lambda>(ms, out). (m # ms, cstr buf # out)) (udp_client rs (i - 1) buf))))"

definition udp_main :: "(cuchar list \<times> bool \<times> cuchar list option) list \<Rightarrow> (cuchar list list \<times> cuchar list list) option" where
  "udp_main rs = udp_client rs 5 (replicate NET_BUF 0)"

text \<open>\<open>client_broadcast.c\<close> first asks for permission to broadcast.\<close>

definition udp_broadcast :: "bool \<Rightarrow> (cuchar list \<times> bool \<times> cuchar list option) list \<Rightarrow> (cuchar list list \<times> cuchar list list) option" where
  "udp_broadcast permitted rs = (if permitted then udp_main rs else Some ([], []))"

lemma udp_msg_text:
  assumes "0 \<notin> set t" and "length t < UDP_MSG - 2"
  shows "udp_msg (t @ [10]) = Some (t @ [0])"
proof -
  let ?rest = "replicate (UDP_MSG - Suc (length t)) (0 :: cuchar)"
  have "store (take (UDP_MSG - 2) (t @ [10])) (replicate UDP_MSG 0) = t @ 10 # ?rest"
    using assms(2) by (simp add: store_def)
  then have "(store (take (UDP_MSG - 2) (t @ [10])) (replicate UDP_MSG 0))[length t := 0] = t @ 0 # ?rest"
    by (simp add: list_update_append)
  then show ?thesis using assms by (simp add: udp_msg_def Let_def cstr_append)
qed

lemma udp_show_text: "0 \<notin> set t \<Longrightarrow> cstr (udp_show (t @ [0]) buf) = t"
  by (simp add: udp_show_def store_def list_update_append cstr_append)

text \<open>Each side shows the time of the other.\<close>

lemma udp_round:
  assumes "0 \<notin> set t" and "length t < UDP_MSG - 2" and "0 \<notin> set u" and "length u < UDP_MSG - 2"
  shows "\<exists>m r buf1. udp_msg (t @ [10]) = Some m \<and> udp_server (Some m) (u @ [10]) buf = Some (buf1, [t], [r])
    \<and> cstr (udp_show r cbuf) = u \<and> length r \<le> NET_BUF - 1"
  using assms udp_msg_text[of t] udp_msg_text[of u]
  by (simp add: udp_server_def Let_def udp_show_text NET_BUF_def UDP_MSG_def)

lemma udp_client_rounds:
  assumes "length rs < i" and "\<forall>(t, u) \<in> set rs. 0 \<notin> set t \<and> length t < UDP_MSG - 2 \<and> 0 \<notin> set u \<and> length u < UDP_MSG - 2"
  shows "udp_client (map (\<lambda>(t, u). (t @ [10], True, Some (u @ [0]))) rs) i buf = Some (map (\<lambda>(t, u). t @ [0]) rs, map snd rs)"
  using assms
proof (induction rs arbitrary: i buf)
  case (Cons r rs)
  obtain t u where r: "r = (t, u)" by (cases r)
  have ok: "0 \<notin> set t" "length t < UDP_MSG - 2" "0 \<notin> set u" "length u < UDP_MSG - 2" using Cons.prems(2) r by auto
  have "take (NET_BUF - 1) (u @ [0]) = u @ [0]" using ok(4) by (simp add: NET_BUF_def UDP_MSG_def)
  moreover have "length rs < i - 1" "\<not> i \<le> 1" using Cons.prems(1) by auto
  ultimately show ?case using Cons.IH[of "i - 1"] Cons.prems(2) r ok udp_msg_text[OF ok(1,2)] udp_show_text[OF ok(3)]
    by (simp add: Let_def)
qed simp

subsection \<open>The epoll server (05Epoll_server/server.c)\<close>

text \<open>
  The state is the open client descriptors, the bytes that wait on each, which of them the peer has closed, the clients
  that \<open>epoll_wait\<close> is going to report, and what was sent. Clients are watched edge-triggered: one is reported once for
  each arrival, not as long as there is something to read. The handler reads one block and always answers, also when
  \<open>recv\<close> failed or has just made it close the connection; sending on a closed descriptor has no effect.
\<close>

record epoll =
  ep_open :: "int set"
  ep_pending :: "int \<Rightarrow> cuchar list"
  ep_eof :: "int set"
  ep_edge :: "int set"
  ep_sent :: "(int \<times> cuchar list) list"

datatype ep_event = Arrive int "cuchar list" | PeerCloses int | Connect "int option" bool bool | Report int bool

text \<open>\<open>listen_socket\<close>: which calls succeed, and the socket.\<close>

definition listen_socket :: "int option \<Rightarrow> bool \<Rightarrow> bool \<Rightarrow> int" where
  "listen_socket sock opt_ok bind_ok = (case sock of
     None \<Rightarrow> -1
   | Some s \<Rightarrow> (if \<not> opt_ok then -1 else if \<not> bind_ok then -1 else s))"

definition conn_text :: "int \<Rightarrow> cuchar list" where
  "conn_text fd = lit ''i am server, your conn_id is '' @ dec_int fd @ lit ''.'' @ [0]"

definition ep_send :: "int \<Rightarrow> epoll \<Rightarrow> epoll" where
  "ep_send fd s = (if fd \<in> ep_open s then s\<lparr>ep_sent := ep_sent s @ [(fd, conn_text fd)]\<rparr> else s)"

definition handle_client :: "int \<Rightarrow> bool \<Rightarrow> epoll \<Rightarrow> epoll" where
  "handle_client fd fails s =
     (let s = (if fails then s
        else if ep_pending s fd \<noteq> [] then s\<lparr>ep_pending := (ep_pending s)(fd := drop (NET_BUF - 1) (ep_pending s fd))\<rparr>
        else if fd \<in> ep_eof s then s\<lparr>ep_open := ep_open s - {fd}\<rparr>
        else s)
      in ep_send fd s)"

text \<open>
  One step: something arrives, a peer closes, or the loop of \<open>main\<close> handles a reported event. A connection is taken
  with \<open>accept\<close>, made non-blocking and registered; the program ends (\<open>None\<close>) when one of these fails.
\<close>

definition ep_step :: "ep_event \<Rightarrow> epoll \<Rightarrow> epoll option" where
  "ep_step ev s = (case ev of
     Arrive fd bs \<Rightarrow> Some (if fd \<in> ep_open s then s\<lparr>ep_pending := (ep_pending s)(fd := ep_pending s fd @ bs), ep_edge := insert fd (ep_edge s)\<rparr> else s)
   | PeerCloses fd \<Rightarrow> Some (if fd \<in> ep_open s then s\<lparr>ep_eof := insert fd (ep_eof s), ep_edge := insert fd (ep_edge s)\<rparr> else s)
   | Connect conn nonblock added \<Rightarrow> (case conn of
       None \<Rightarrow> None
     | Some fd \<Rightarrow>
         (if \<not> nonblock then None else if \<not> added then None
          else Some (s\<lparr>ep_open := insert fd (ep_open s), ep_pending := (ep_pending s)(fd := []), ep_eof := ep_eof s - {fd}, ep_edge := ep_edge s - {fd}\<rparr>)))
   | Report fd fails \<Rightarrow> Some (if fd \<in> ep_edge s \<and> fd \<in> ep_open s
       then handle_client fd fails (s\<lparr>ep_edge := ep_edge s - {fd}\<rparr>) else s))"

fun ep_steps :: "ep_event list \<Rightarrow> epoll \<Rightarrow> epoll option" where
  "ep_steps [] s = Some s"
| "ep_steps (ev # evs) s = Option.bind (ep_step ev s) (ep_steps evs)"

definition ep_init :: epoll where
  "ep_init = \<lparr>ep_open = {}, ep_pending = \<lambda>_. [], ep_eof = {}, ep_edge = {}, ep_sent = []\<rparr>"

text \<open>A reported client gets one answer with its number, unless it has closed the connection and everything is read.\<close>

lemma ep_report:
  assumes "fd \<in> ep_edge s" and "fd \<in> ep_open s"
  shows "\<exists>s'. ep_step (Report fd fails) s = Some s' \<and> fd \<notin> ep_edge s'
    \<and> (if \<not> fails \<and> ep_pending s fd = [] \<and> fd \<in> ep_eof s then ep_open s' = ep_open s - {fd} \<and> ep_sent s' = ep_sent s
       else ep_open s' = ep_open s \<and> ep_sent s' = ep_sent s @ [(fd, conn_text fd)])
    \<and> ep_pending s' = (ep_pending s)(fd := (if fails then ep_pending s fd else drop (NET_BUF - 1) (ep_pending s fd)))"
  using assms by (auto simp: ep_step_def handle_client_def ep_send_def Let_def)

text \<open>Every answer is the text for the client it goes to.\<close>

definition ep_inv :: "epoll \<Rightarrow> bool" where
  "ep_inv s \<longleftrightarrow> (\<forall>(fd, m) \<in> set (ep_sent s). m = conn_text fd) \<and> ep_edge s \<subseteq> ep_open s"

lemma ep_step_inv:
  assumes "ep_inv s" and "ep_step ev s = Some s'"
  shows "ep_inv s'"
  using assms by (cases ev) (auto simp: ep_inv_def ep_step_def handle_client_def ep_send_def Let_def split: if_splits option.splits)

lemma ep_steps_inv: "ep_inv s \<Longrightarrow> ep_steps evs s = Some s' \<Longrightarrow> ep_inv s'"
  by (induction evs arbitrary: s) (auto split: Option.bind_splits intro: ep_step_inv)

text \<open>
  After an arrival of more than a block the client is reported once, and the rest stays unread: nothing but a further
  arrival makes \<open>epoll_wait\<close> report it.
\<close>

definition stays :: "int \<Rightarrow> ep_event \<Rightarrow> bool" where
  "stays fd ev \<longleftrightarrow> (case ev of Arrive f bs \<Rightarrow> f \<noteq> fd | PeerCloses f \<Rightarrow> f \<noteq> fd | Connect c n a \<Rightarrow> c \<noteq> Some fd | Report f fails \<Rightarrow> True)"

lemma ep_quiet:
  assumes "fd \<notin> ep_edge s" and "\<forall>ev \<in> set evs. stays fd ev" and "ep_steps evs s = Some s'"
  shows "fd \<notin> ep_edge s' \<and> ep_pending s' fd = ep_pending s fd"
  using assms
proof (induction evs arbitrary: s)
  case (Cons ev evs)
  then obtain s1 where s1: "ep_step ev s = Some s1" "ep_steps evs s1 = Some s'" by (auto split: Option.bind_splits)
  have "fd \<notin> ep_edge s1 \<and> ep_pending s1 fd = ep_pending s fd"
    using s1(1) Cons.prems(1,2)
    by (cases ev) (auto simp: stays_def ep_step_def handle_client_def ep_send_def Let_def split: if_splits option.splits)
  then show ?case using Cons.IH[of s1] Cons.prems(2) s1(2) by simp
qed simp

lemma ep_leaves_data:
  assumes "fd \<in> ep_open s" and "ep_pending s fd = []" and "NET_BUF \<le> length bs"
    and "\<forall>ev \<in> set evs. stays fd ev" and "ep_steps (Arrive fd bs # Report fd False # evs) s = Some s'"
  shows "ep_pending s' fd = drop (NET_BUF - 1) bs" and "ep_pending s' fd \<noteq> []" and "fd \<notin> ep_edge s'"
proof -
  obtain s1 where s1: "ep_steps [Arrive fd bs, Report fd False] s = Some s1" "ep_steps evs s1 = Some s'"
    using assms(5) by (auto split: Option.bind_splits)
  have "bs \<noteq> []" using assms(3) by (auto simp: NET_BUF_def)
  then have "fd \<notin> ep_edge s1" "ep_pending s1 fd = drop (NET_BUF - 1) bs"
    using s1(1) assms(1,2) by (auto simp: ep_step_def handle_client_def ep_send_def Let_def)
  then show "ep_pending s' fd = drop (NET_BUF - 1) bs" "fd \<notin> ep_edge s'" using ep_quiet[OF _ assms(4) s1(2)] by simp_all
  then show "ep_pending s' fd \<noteq> []" using assms(3) by (simp add: NET_BUF_def)
qed

subsection \<open>The client of the select servers (03Tcp_select/client.c)\<close>

text \<open>
  One buffer serves for what is typed and what is received, and is not cleared between. A round is what \<open>select\<close>
  returns, the line \<open>fgets\<close> would give and what \<open>read\<close> would do; the result says whether the loop goes on. A read
  that fails is shown like one that delivered something.
\<close>

record sel_client =
  sc_buf :: "cuchar list"
  sc_sent :: "cuchar list list"
  sc_shown :: "cuchar list list"
  sc_closed :: nat

record sc_event =
  sc_sel :: int
  sc_stdin :: bool
  sc_line :: "cuchar list option"
  sc_sock :: bool
  sc_read :: "rd_event"

definition sc_type :: "sc_event \<Rightarrow> sel_client \<Rightarrow> (bool \<times> sel_client) option" where
  "sc_type ev s = (if \<not> sc_stdin ev then Some (True, s)
     else case sc_line ev of
       None \<Rightarrow> Some (True, s)
     | Some line \<Rightarrow>
         (let buf = store (line @ [0]) (sc_buf s); n = length (cstr buf) in
          if n = 0 then None
          else let buf = buf[n - 1 := 0]; s = s\<lparr>sc_buf := buf, sc_sent := sc_sent s @ [take (n - 1) buf]\<rparr> in
            if cstr buf = lit ''exit'' then Some (False, s\<lparr>sc_closed := sc_closed s + 1\<rparr>)
            else Some (True, s)))"

definition sc_receive :: "sc_event \<Rightarrow> sel_client \<Rightarrow> (bool \<times> sel_client) option" where
  "sc_receive ev s = (if \<not> sc_sock ev then Some (True, s)
     else case sc_read ev of
       Got [] \<Rightarrow> Some (False, s\<lparr>sc_closed := sc_closed s + 1\<rparr>)
     | Got bs \<Rightarrow> (let buf = store (take (CLI_BUF - 1) bs) (sc_buf s) in
         map_option (\<lambda>str. (True, s\<lparr>sc_buf := buf, sc_shown := sc_shown s @ [str]\<rparr>)) (fmt_s buf))
     | _ \<Rightarrow> map_option (\<lambda>str. (True, s\<lparr>sc_shown := sc_shown s @ [str]\<rparr>)) (fmt_s (sc_buf s)))"

definition sc_round :: "sc_event \<Rightarrow> sel_client \<Rightarrow> (bool \<times> sel_client) option" where
  "sc_round ev s = (if sc_sel ev < 0 then Some (False, s)
     else if sc_sel ev = 0 then Some (True, s)
     else Option.bind (sc_type ev s) (\<lambda>(go, s). if go then sc_receive ev s else Some (False, s)))"

fun sc_loop :: "sc_event list \<Rightarrow> sel_client \<Rightarrow> sel_client option" where
  "sc_loop [] s = Some s"
| "sc_loop (ev # evs) s = Option.bind (sc_round ev s) (\<lambda>(go, s).
     if go then sc_loop evs s else Some (s\<lparr>sc_closed := sc_closed s + 1\<rparr>))"

definition sc_init :: sel_client where
  "sc_init = \<lparr>sc_buf = replicate CLI_BUF 0, sc_sent = [], sc_shown = [], sc_closed = 0\<rparr>"

text \<open>The buffer always ends with a zero, so nothing undefined happens on lines that \<open>fgets\<close> can give.\<close>

definition sc_inv :: "sel_client \<Rightarrow> bool" where
  "sc_inv s \<longleftrightarrow> length (sc_buf s) = CLI_BUF \<and> sc_buf s ! (CLI_BUF - 1) = 0"

definition sc_line_ok :: "sc_event \<Rightarrow> bool" where
  "sc_line_ok ev \<longleftrightarrow> (\<forall>l. sc_line ev = Some l \<longrightarrow> l \<noteq> [] \<and> 0 \<notin> set l \<and> length l \<le> CLI_BUF - 2)"

lemma store_last:
  assumes "length buf = CLI_BUF" and "buf ! (CLI_BUF - 1) = 0" and "length bs \<le> CLI_BUF - 1"
  shows "length (store bs buf) = CLI_BUF" and "store bs buf ! (CLI_BUF - 1) = 0" and "0 \<in> set (store bs buf)"
proof -
  show l: "length (store bs buf) = CLI_BUF" using assms by (simp add: store_def)
  show n: "store bs buf ! (CLI_BUF - 1) = 0" using assms by (simp add: store_def nth_append CLI_BUF_def)
  show "0 \<in> set (store bs buf)" using l n by (metis CLI_BUF_def diff_less less_numeral_extra(1) nth_mem zero_less_numeral)
qed

lemma sc_type_inv:
  assumes "sc_inv s" and "sc_line_ok ev"
  shows "\<exists>go s'. sc_type ev s = Some (go, s') \<and> sc_inv s'"
proof (cases "sc_stdin ev \<and> sc_line ev \<noteq> None")
  case True
  then obtain l where l: "sc_line ev = Some l" "l \<noteq> []" "0 \<notin> set l" "length (l @ [0]) \<le> CLI_BUF - 1"
    using assms(2) by (auto simp: sc_line_ok_def CLI_BUF_def)
  let ?buf = "store (l @ [0]) (sc_buf s)"
  have b: "length ?buf = CLI_BUF" "?buf ! (CLI_BUF - 1) = 0" using store_last[OF _ _ l(4)] assms(1) by (auto simp: sc_inv_def)
  have "cstr ?buf = l" using l(3) by (simp add: store_def cstr_append)
  moreover have "?buf[i := 0] ! (CLI_BUF - 1) = 0" for i using b by (cases "i = CLI_BUF - 1") (auto simp: nth_list_update CLI_BUF_def)
  ultimately show ?thesis using True l(1,2) b(1) by (auto simp: sc_type_def Let_def sc_inv_def)
qed (use assms(1) in \<open>auto simp: sc_type_def\<close>)

lemma sc_receive_inv:
  assumes "sc_inv s"
  shows "\<exists>go s'. sc_receive ev s = Some (go, s') \<and> sc_inv s'"
proof -
  have "0 \<in> set (sc_buf s)" using assms store_last(3)[of "sc_buf s" "[]"] by (simp add: sc_inv_def store_def)
  moreover have "0 \<in> set (store (take (CLI_BUF - 1) bs) (sc_buf s))" "length (store (take (CLI_BUF - 1) bs) (sc_buf s)) = CLI_BUF"
      "store (take (CLI_BUF - 1) bs) (sc_buf s) ! (CLI_BUF - 1) = 0" for bs
    using assms store_last[of "sc_buf s" "take (CLI_BUF - 1) bs"] by (simp_all add: sc_inv_def)
  ultimately show ?thesis using assms
    by (cases "sc_read ev") (auto simp: sc_receive_def sc_inv_def fmt_s_def Let_def split: list.splits)
qed

lemma sc_loop_defined:
  assumes "sc_inv s" and "\<forall>ev \<in> set evs. sc_line_ok ev"
  shows "\<exists>s'. sc_loop evs s = Some s' \<and> sc_inv s'"
  using assms
proof (induction evs arbitrary: s)
  case (Cons ev evs)
  obtain g1 s1 where s1: "sc_type ev s = Some (g1, s1)" "sc_inv s1" 
    using sc_type_inv[OF Cons.prems(1), of ev] Cons.prems(2) by auto
  obtain g2 s2 where s2: "sc_receive ev s1 = Some (g2, s2)" "sc_inv s2" using sc_receive_inv[OF s1(2)] by blast
  have "\<exists>go s'. sc_round ev s = Some (go, s') \<and> sc_inv s'"
    using s1 s2 Cons.prems(1) by (cases g1) (auto simp: sc_round_def)
  then obtain go s' where r: "sc_round ev s = Some (go, s')" "sc_inv s'" by blast
  show ?case
  proof (cases go)
    case True
    then show ?thesis using Cons.IH[OF r(2)] Cons.prems(2) r(1) by simp
  next
    case False
    then show ?thesis using r by (simp add: sc_inv_def)
  qed
qed simp

text \<open>
  What is shown of an answer: its bytes, and behind them what the buffer still holds. An answer that is shorter than the
  line typed before is followed by the rest of that line.
\<close>

lemma sc_shows:
  assumes "sc_inv s" and "l \<noteq> []" and "0 \<notin> set l" and "length l \<le> CLI_BUF - 3" and "l \<noteq> lit ''exit''"
    and "bs \<noteq> []" and "0 \<notin> set bs" and "length bs \<le> length l"
  shows "\<exists>s'. sc_round \<lparr>sc_sel = 1, sc_stdin = True, sc_line = Some (l @ [10]), sc_sock = True, sc_read = Got bs\<rparr> s = Some (True, s')
    \<and> sc_sent s' = sc_sent s @ [l] \<and> sc_shown s' = sc_shown s @ [bs @ drop (length bs) l] \<and> sc_inv s'"
proof -
  let ?ev = "\<lparr>sc_sel = 1, sc_stdin = True, sc_line = Some (l @ [10]), sc_sock = True, sc_read = Got bs\<rparr>"
  let ?rest = "drop (Suc (Suc (length l))) (sc_buf s)"
  let ?s1 = "s\<lparr>sc_buf := l @ 0 # 0 # ?rest, sc_sent := sc_sent s @ [l]\<rparr>"
  have n: "store (l @ [10, 0]) (sc_buf s) = l @ 10 # 0 # ?rest" by (simp add: store_def)
  have c: "cstr (l @ 10 # 0 # ?rest) = l @ [10]" using assms(3) cstr_append[of "l @ [10]" ?rest] by simp
  have t: "sc_type ?ev s = Some (True, ?s1)"
    using assms(2,3,5) n c by (simp add: sc_type_def Let_def list_update_append cstr_append)
  have bl: "take (CLI_BUF - 1) bs = bs" using assms(4,8) by (simp add: CLI_BUF_def)
  let ?buf = "bs @ drop (length bs) l @ 0 # 0 # ?rest"
  have st: "store bs (l @ 0 # 0 # ?rest) = ?buf" using assms(8) by (simp add: store_def)
  have "0 \<notin> set (bs @ drop (length bs) l)" using assms(3,7) in_set_dropD by fastforce
  then have sh: "cstr ?buf = bs @ drop (length bs) l" using cstr_append[of "bs @ drop (length bs) l"] by simp
  let ?s2 = "?s1\<lparr>sc_buf := ?buf, sc_shown := sc_shown s @ [bs @ drop (length bs) l]\<rparr>"
  have r: "sc_receive ?ev ?s1 = Some (True, ?s2)"
    using assms(6) bl st sh by (cases bs) (simp_all add: sc_receive_def Let_def fmt_s_def)
  have "sc_inv ?s1"
    using sc_type_inv[OF assms(1), of ?ev] t assms(3,4) by (auto simp: sc_line_ok_def CLI_BUF_def)
  then have "sc_inv ?s2" using sc_receive_inv[of ?s1 ?ev] r by auto
  then show ?thesis using t r by (intro exI[of _ ?s2]) (simp add: sc_round_def)
qed

text \<open>Typing exit closes the socket twice.\<close>

lemma sc_exit:
  "sc_loop [\<lparr>sc_sel = 1, sc_stdin = True, sc_line = Some (lit ''exit'' @ [10]), sc_sock = False, sc_read = RdFail\<rparr>] sc_init
    = Some (sc_init\<lparr>sc_buf := lit ''exit'' @ replicate (CLI_BUF - 4) 0, sc_sent := [lit ''exit''], sc_closed := 2\<rparr>)"
proof -
  have "replicate (CLI_BUF - 4) (0 :: cuchar) = 0 # 0 # replicate (CLI_BUF - 6) 0" by (simp add: CLI_BUF_def numeral_eq_Suc)
  moreover have "store (lit ''exit'' @ [10, 0]) (replicate CLI_BUF 0) = lit ''exit'' @ 10 # 0 # replicate (CLI_BUF - 6) 0"
    by (simp add: store_def lit_def)
  moreover have "cstr (lit ''exit'' @ 10 # xs) = lit ''exit'' @ cstr (10 # xs)" "cstr (10 # 0 # xs) = [10]" "cstr (lit ''exit'' @ 0 # xs) = lit ''exit''"
    for xs by (simp_all add: cstr_def lit_def)
  moreover have "length (lit ''exit'') = 4" by (simp add: lit_def)
  ultimately show ?thesis
    by (simp add: sc_init_def sc_round_def sc_type_def Let_def list_update_append)
qed

end
