(* ===== verification/RecordLock.thy ===== *)
theory RecordLock
  imports Threads
begin

section \<open>Record locks (01Record_lock: wr_lck.c, wr_lck2.c; 03IPC/01File_lock: lock.c, fcntl.c)\<close>

text \<open>
  Processes lock ranges of one file with \<open>fcntl\<close>, stay in the locked section for a while and unlock. A lock is
  shared or exclusive on a range; a length of 0 means to the end of the file. Two locks of different processes
  conflict when they overlap and one is exclusive. The end of a process, also when it is killed, releases its
  lock. \<open>rl_n\<close> is the number of processes.
\<close>

record lock =
  excl :: bool
  l_start :: nat
  l_len :: nat

datatype rl_pc = RL_Open | RL_Lock | RL_Hold | RL_Done int | RL_Dead

record rl =
  rl_n :: nat
  rl_held :: "nat \<Rightarrow> lock option"
  rl_pc :: "nat \<Rightarrow> rl_pc"

definition overlap :: "lock \<Rightarrow> lock \<Rightarrow> bool" where
  "overlap a b \<longleftrightarrow> (l_len a = 0 \<or> l_start b < l_start a + l_len a) \<and> (l_len b = 0 \<or> l_start a < l_start b + l_len b)"

definition conflict :: "lock \<Rightarrow> lock \<Rightarrow> bool" where
  "conflict a b \<longleftrightarrow> (excl a \<or> excl b) \<and> overlap a b"

definition blocked :: "nat \<Rightarrow> lock \<Rightarrow> rl \<Rightarrow> bool" where
  "blocked p l s = list_ex (\<lambda>q. q \<noteq> p \<and> (case rl_held s q of None \<Rightarrow> False | Some m \<Rightarrow> conflict l m)) [0..<rl_n s]"

text \<open>The calls: \<open>F_SETLKW\<close> waits while the lock is blocked, \<open>F_SETLK\<close> fails; unlocking always succeeds.\<close>

definition rl_goto :: "nat \<Rightarrow> rl_pc \<Rightarrow> lock option \<Rightarrow> rl \<Rightarrow> rl" where
  "rl_goto p pc l s = s\<lparr>rl_held := (rl_held s)(p := l), rl_pc := (rl_pc s)(p := pc)\<rparr>"

definition setlkw :: "nat \<Rightarrow> lock \<Rightarrow> rl \<Rightarrow> rl turn" where
  "setlkw p l s = (if blocked p l s then Waits else Step (rl_goto p RL_Hold (Some l) s))"

definition setlk :: "nat \<Rightarrow> lock \<Rightarrow> int \<Rightarrow> rl \<Rightarrow> rl turn" where
  "setlk p l err s = (if blocked p l s then Step (rl_goto p (RL_Done err) None s) else Step (rl_goto p RL_Hold (Some l) s))"

text \<open>The programs; \<open>opens\<close> says whether \<open>open\<close> succeeds.\<close>

definition range_lock :: lock where
  "range_lock = \<lparr>excl = True, l_start = 10, l_len = 40\<rparr>"

definition wr_lck :: "bool \<Rightarrow> nat \<Rightarrow> rl \<Rightarrow> rl turn" where
  "wr_lck opens p s = (case rl_pc s p of
     RL_Open \<Rightarrow> Step (if opens then rl_goto p RL_Lock None s else rl_goto p (RL_Done (-1)) None s)
   | RL_Lock \<Rightarrow> setlkw p range_lock s
   | RL_Hold \<Rightarrow> Step (rl_goto p (RL_Done 0) None s)
   | _ \<Rightarrow> Ends)"

definition wr_lck2 :: "bool \<Rightarrow> nat \<Rightarrow> rl \<Rightarrow> rl turn" where
  "wr_lck2 opens p s = (case rl_pc s p of
     RL_Open \<Rightarrow> Step (if opens then rl_goto p RL_Lock None s else rl_goto p (RL_Done (-1)) None s)
   | RL_Lock \<Rightarrow> setlk p range_lock (-1) s
   | RL_Hold \<Rightarrow> Step (rl_goto p (RL_Done 0) None s)
   | _ \<Rightarrow> Ends)"

definition lock_main :: "nat \<Rightarrow> bool \<Rightarrow> nat \<Rightarrow> rl \<Rightarrow> rl turn" where
  "lock_main argc opens p s = (case rl_pc s p of
     RL_Open \<Rightarrow> Step (if opens then rl_goto p RL_Lock None s else rl_goto p (RL_Done 1) None s)
   | RL_Lock \<Rightarrow> setlkw p \<lparr>excl = (argc \<le> 1), l_start = 0, l_len = 0\<rparr> s
   | RL_Hold \<Rightarrow> Step (rl_goto p (RL_Done 0) None s)
   | _ \<Rightarrow> Ends)"

definition lock_file :: "nat \<Rightarrow> bool \<Rightarrow> rl \<Rightarrow> rl turn" where
  "lock_file p ex s = setlkw p \<lparr>excl = ex, l_start = 0, l_len = 0\<rparr> s"

text \<open>\<open>lock_demo\<close> has no \<open>return\<close> before its error label, and \<open>main\<close> does not look at the result.\<close>

definition lock_demo :: "bool \<Rightarrow> nat \<Rightarrow> rl \<Rightarrow> rl turn" where
  "lock_demo opens p s = (case rl_pc s p of
     RL_Open \<Rightarrow> Step (if opens then rl_goto p RL_Lock None s else rl_goto p (RL_Done 0) None s)
   | RL_Lock \<Rightarrow> lock_file p False s
   | RL_Hold \<Rightarrow> Step (rl_goto p (RL_Done 0) None s)
   | _ \<Rightarrow> Ends)"

text \<open>Which program a process runs.\<close>

datatype rl_program = Wr_lck | Wr_lck2 | Lock_c nat | Lock_demo

datatype rl_tid = RL_Proc nat | RL_Kill nat

definition rl_prog :: "(nat \<Rightarrow> rl_program) \<Rightarrow> (nat \<Rightarrow> bool) \<Rightarrow> (rl_tid, rl) program" where
  "rl_prog prg opens t s = (case t of
     RL_Proc p \<Rightarrow> (if rl_n s \<le> p then Ends else case prg p of
         Wr_lck \<Rightarrow> wr_lck (opens p) p s
       | Wr_lck2 \<Rightarrow> wr_lck2 (opens p) p s
       | Lock_c argc \<Rightarrow> lock_main argc (opens p) p s
       | Lock_demo \<Rightarrow> lock_demo (opens p) p s)
   | RL_Kill p \<Rightarrow> (if rl_pc s p \<in> {RL_Open, RL_Lock, RL_Hold} then Step (rl_goto p RL_Dead None s) else Ends))"

definition rl_init :: "nat \<Rightarrow> rl" where
  "rl_init n = \<lparr>rl_n = n, rl_held = \<lambda>_. None, rl_pc = \<lambda>p. if p < n then RL_Open else RL_Dead\<rparr>"

text \<open>The lock a program asks for.\<close>

fun wants :: "rl_program \<Rightarrow> lock" where
  "wants Wr_lck = range_lock"
| "wants Wr_lck2 = range_lock"
| "wants (Lock_c argc) = \<lparr>excl = (argc \<le> 1), l_start = 0, l_len = 0\<rparr>"
| "wants Lock_demo = \<lparr>excl = False, l_start = 0, l_len = 0\<rparr>"

lemmas rl_mains = wr_lck_def wr_lck2_def lock_main_def lock_demo_def lock_file_def setlkw_def setlk_def

text \<open>What a step can do.\<close>

lemma rl_step_cases [consumes 1, case_names locks leaves]:
  assumes "rl_prog prg opens t s = Step s'"
  obtains (locks) p where "p < rl_n s" "rl_pc s p = RL_Lock" "\<not> blocked p (wants (prg p)) s" "s' = rl_goto p RL_Hold (Some (wants (prg p))) s"
    | (leaves) p pc where "pc \<noteq> RL_Hold" "s' = rl_goto p pc None s" "p < rl_n s \<or> pc = RL_Dead"
proof (cases t)
  case (RL_Kill p)
  then show ?thesis using assms leaves by (auto simp: rl_prog_def split: if_splits)
next
  case (RL_Proc p)
  then have p: "p < rl_n s" using assms by (auto simp: rl_prog_def split: if_splits)
  show ?thesis
  proof (cases "prg p")
    case Wr_lck
    then show ?thesis using assms RL_Proc p locks leaves
      by (cases "rl_pc s p") (auto simp: rl_prog_def rl_mains split: if_splits)
  next
    case Wr_lck2
    then show ?thesis using assms RL_Proc p locks leaves
      by (cases "rl_pc s p") (auto simp: rl_prog_def rl_mains split: if_splits)
  next
    case (Lock_c argc)
    then show ?thesis using assms RL_Proc p locks leaves
      by (cases "rl_pc s p") (auto simp: rl_prog_def rl_mains split: if_splits)
  next
    case Lock_demo
    then show ?thesis using assms RL_Proc p locks leaves
      by (cases "rl_pc s p") (auto simp: rl_prog_def rl_mains split: if_splits)
  qed
qed

text \<open>A process has its lock exactly while it is in the section, and no two locks conflict.\<close>

definition rl_inv :: "(nat \<Rightarrow> rl_program) \<Rightarrow> rl \<Rightarrow> bool" where
  "rl_inv prg s \<longleftrightarrow> (\<forall>p. rl_held s p = (if rl_pc s p = RL_Hold then Some (wants (prg p)) else None))
     \<and> (\<forall>p. rl_n s \<le> p \<longrightarrow> rl_pc s p = RL_Dead)
     \<and> (\<forall>p q. p \<noteq> q \<and> rl_pc s p = RL_Hold \<and> rl_pc s q = RL_Hold \<longrightarrow> \<not> conflict (wants (prg p)) (wants (prg q)))"

lemma conflict_sym: "conflict a b \<longleftrightarrow> conflict b a"
  by (auto simp: conflict_def overlap_def)

lemma blocked_iff:
  assumes "rl_inv prg s"
  shows "blocked p l s \<longleftrightarrow> (\<exists>q. q \<noteq> p \<and> rl_pc s q = RL_Hold \<and> conflict l (wants (prg q)))"
proof -
  have "rl_pc s q = RL_Hold \<Longrightarrow> q < rl_n s" for q
    using assms by (cases "rl_n s \<le> q") (auto simp: rl_inv_def)
  then show ?thesis using assms unfolding rl_inv_def by (auto simp: blocked_def list_ex_iff)
qed

lemma rl_init_inv: "rl_inv prg (rl_init n)"
  by (simp add: rl_inv_def rl_init_def)

lemma rl_step_inv:
  assumes inv: "rl_inv prg s" and st: "rl_prog prg opens t s = Step s'"
  shows "rl_inv prg s'"
  using st
proof (cases rule: rl_step_cases)
  case (locks p)
  have "\<not> conflict (wants (prg p)) (wants (prg q))" if "q \<noteq> p" "rl_pc s q = RL_Hold" for q
    using locks(3) that blocked_iff[OF inv] by blast
  then show ?thesis using inv locks(1) conflict_sym unfolding rl_inv_def locks(4) rl_goto_def by auto
next
  case (leaves p pc)
  then show ?thesis using inv unfolding rl_inv_def leaves(2) rl_goto_def by auto
qed

interpretation rl: invariant_program "rl_prog prg opens" "rl_init n" "rl_inv prg" for prg opens n
  by unfold_locales (rule rl_init_inv, erule (1) rl_step_inv)

text \<open>Two processes in their sections: neither excludes the other.\<close>

lemma rl_excludes:
  assumes "rl_inv prg s" and "rl_pc s p = RL_Hold" and "rl_pc s q = RL_Hold" and "p \<noteq> q"
  shows "\<not> conflict (wants (prg p)) (wants (prg q))"
  using assms unfolding rl_inv_def by blast

lemma writers_conflict: "prg p \<in> {Wr_lck, Wr_lck2} \<Longrightarrow> prg q \<in> {Wr_lck, Wr_lck2} \<Longrightarrow> conflict (wants (prg p)) (wants (prg q))"
  by (auto simp: conflict_def overlap_def range_lock_def)

subsection \<open>Everybody gets through\<close>

fun rl_rank :: "rl_pc \<Rightarrow> nat" where
  "rl_rank RL_Open = 3" | "rl_rank RL_Lock = 2" | "rl_rank RL_Hold = 1" | "rl_rank (RL_Done r) = 0" | "rl_rank RL_Dead = 0"

definition rl_weight :: "rl \<Rightarrow> nat" where
  "rl_weight s = (\<Sum>p < rl_n s. rl_rank (rl_pc s p))"

lemma rl_step_rank:
  assumes "rl_prog prg opens t s = Step s'" and "rl_inv prg s"
  shows "\<exists>p < rl_n s. rl_rank (rl_pc s' p) < rl_rank (rl_pc s p) \<and> (\<forall>q. q \<noteq> p \<longrightarrow> rl_pc s' q = rl_pc s q) \<and> rl_n s' = rl_n s"
proof (cases t)
  case (RL_Kill p)
  then have p: "rl_pc s p \<in> {RL_Open, RL_Lock, RL_Hold}" "s' = rl_goto p RL_Dead None s"
    using assms(1) by (auto simp: rl_prog_def split: if_splits)
  then have "p < rl_n s" using assms(2) by (cases "rl_n s \<le> p") (auto simp: rl_inv_def)
  then show ?thesis using p by (intro exI[of _ p]) (auto simp: rl_goto_def)
next
  case (RL_Proc p)
  then have p: "p < rl_n s" using assms(1) by (auto simp: rl_prog_def split: if_splits)
  have "rl_rank (rl_pc s' p) < rl_rank (rl_pc s p) \<and> (\<forall>q. q \<noteq> p \<longrightarrow> rl_pc s' q = rl_pc s q) \<and> rl_n s' = rl_n s"
    using assms(1) RL_Proc p
    by (cases "prg p"; cases "rl_pc s p") (auto simp: rl_prog_def rl_mains rl_goto_def split: if_splits)
  then show ?thesis using p by blast
qed

lemma rl_weight_step:
  assumes "rl_inv prg s" and "rl_prog prg opens t s = Step s'"
  shows "rl_weight s' < rl_weight s"
proof -
  obtain p where p: "p < rl_n s" "rl_rank (rl_pc s' p) < rl_rank (rl_pc s p)" "\<And>q. q \<noteq> p \<Longrightarrow> rl_pc s' q = rl_pc s q" "rl_n s' = rl_n s"
    using rl_step_rank[OF assms(2,1)] by blast
  have "(\<Sum>q < rl_n s. rl_rank (rl_pc s' q)) < (\<Sum>q < rl_n s. rl_rank (rl_pc s q))"
    by (rule sum_strict_mono_ex1) (use p in \<open>auto intro: order_le_less_trans\<close>, metis le_eq_less_or_eq)
  then show ?thesis by (simp add: rl_weight_def p(4))
qed

interpretation rl_end: terminating_program "rl_prog prg opens" "rl_init n" "rl_inv prg" rl_weight for prg opens n
  by unfold_locales (rule rl_weight_step)

lemma rl_stuck:
  assumes inv: "rl_inv prg s" and st: "stuck (rl_prog prg opens) s"
  shows "rl_pc s p \<in> {RL_Dead} \<union> range RL_Done"
proof (rule ccontr)
  assume "rl_pc s p \<notin> {RL_Dead} \<union> range RL_Done"
  then have "rl_pc s p \<in> {RL_Open, RL_Lock, RL_Hold}" by (cases "rl_pc s p") auto
  then have "rl_prog prg opens (RL_Kill p) s = Step (rl_goto p RL_Dead None s)" by (simp add: rl_prog_def)
  then show False using st by (auto simp: stuck_def)
qed

text \<open>Without killing anybody, too: a process that waits, waits for one in its section, which can leave it.\<close>

lemma rl_goes_on:
  assumes inv: "rl_inv prg s" and p: "rl_pc s p \<in> {RL_Open, RL_Lock, RL_Hold}"
  shows "\<exists>q s'. rl_prog prg opens (RL_Proc q) s = Step s'"
proof -
  have lt: "rl_pc s q \<in> {RL_Open, RL_Lock, RL_Hold} \<Longrightarrow> q < rl_n s" for q
    using inv by (cases "rl_n s \<le> q") (auto simp: rl_inv_def)
  have go: "\<exists>s'. rl_prog prg opens (RL_Proc q) s = Step s'" if "rl_pc s q \<in> {RL_Open, RL_Hold}" for q
    using that lt[of q] by (cases "prg q") (auto simp: rl_prog_def rl_mains)
  show ?thesis
  proof (cases "rl_pc s p = RL_Lock \<and> blocked p (wants (prg p)) s")
    case True
    then obtain q where "rl_pc s q = RL_Hold" using blocked_iff[OF inv] by blast
    then show ?thesis using go[of q] by blast
  next
    case False
    show ?thesis
    proof (cases "rl_pc s p = RL_Lock")
      case True
      with False have "\<not> blocked p (wants (prg p)) s" by blast
      then have "\<exists>s'. rl_prog prg opens (RL_Proc p) s = Step s'"
        using True lt[of p] by (cases "prg p") (auto simp: rl_prog_def rl_mains)
      then show ?thesis by blast
    qed (use go[of p] p in blast)
  qed
qed

end
