(* ===== verification/Processes.thy ===== *)
theory Processes
  imports TcpLoop
begin

section \<open>Programs that start processes (02Process/4fork_exec2.c, 03IPC/02Pipe/05minishell.c)\<close>

subsection \<open>A pool of children (4fork_exec2.c)\<close>

text \<open>
  The parent keeps three children running until thirty have ended, and then waits for the rest. \<open>forks k\<close> says
  whether the \<open>k\<close>-th call of \<open>fork\<close> succeeds; a child always ends. \<open>waitpid\<close> fails only when there is no child. The
  result is what \<open>main\<close> returns and the number of calls of \<open>fork\<close>.
\<close>

definition CHILD_NUM :: nat where "CHILD_NUM = 3"
definition SERVER_NUM :: nat where "SERVER_NUM = 30"

partial_function (option) pool_fill :: "(nat \<Rightarrow> bool) \<Rightarrow> nat \<Rightarrow> nat \<Rightarrow> (bool \<times> nat \<times> nat) option" where
  "pool_fill forks kids k = (if kids < CHILD_NUM then
       (if forks k then pool_fill forks (kids + 1) (k + 1) else Some (False, kids, k + 1))
     else Some (True, kids, k))"

partial_function (option) pool_loop :: "(nat \<Rightarrow> bool) \<Rightarrow> nat \<Rightarrow> nat \<Rightarrow> nat \<Rightarrow> (int \<times> nat) option" where
  "pool_loop forks dead kids k = (if dead < SERVER_NUM then
       Option.bind (pool_fill forks kids k) (\<lambda>(ok, kids, k).
         if \<not> ok then Some (-1, k)
         else if kids = 0 then pool_loop forks dead kids k
         else pool_loop forks (dead + 1) (kids - 1) k)
     else Some (0, k))"

definition pool_main :: "(nat \<Rightarrow> bool) \<Rightarrow> (int \<times> nat) option" where
  "pool_main forks = pool_loop forks 0 0 0"

text \<open>\<open>pool_fill\<close> calls \<open>fork\<close> until there are three children or a call fails.\<close>

lemma pool_fill_ok:
  assumes "kids \<le> CHILD_NUM" and "\<forall>i < CHILD_NUM - kids. forks (k + i)"
  shows "pool_fill forks kids k = Some (True, CHILD_NUM, k + (CHILD_NUM - kids))"
  using assms
proof (induction "CHILD_NUM - kids" arbitrary: kids k)
  case 0
  then show ?case by (subst pool_fill.simps) simp
next
  case (Suc m)
  have "kids < CHILD_NUM" "forks k" using Suc.hyps(2) Suc.prems(2)[rule_format, of 0] by auto
  moreover have "pool_fill forks (kids + 1) (k + 1) = Some (True, CHILD_NUM, (k + 1) + (CHILD_NUM - (kids + 1)))"
  proof (rule Suc.hyps(1))
    show "\<forall>i < CHILD_NUM - (kids + 1). forks (k + 1 + i)"
      using Suc.prems(2)[rule_format, of "Suc i" for i] by auto
  qed (use Suc.hyps(2) \<open>kids < CHILD_NUM\<close> in auto)
  ultimately show ?case by (subst pool_fill.simps) simp
qed

lemma pool_loop_ok:
  assumes "dead \<le> SERVER_NUM" and "\<forall>i. forks i"
  shows "pool_loop forks dead (CHILD_NUM - 1) k = Some (0, k + (SERVER_NUM - dead))"
  using assms
proof (induction "SERVER_NUM - dead" arbitrary: dead k)
  case 0
  then show ?case by (subst pool_loop.simps) simp
next
  case (Suc m)
  have f: "pool_fill forks (CHILD_NUM - 1) k = Some (True, CHILD_NUM, k + 1)"
    using pool_fill_ok[of "CHILD_NUM - 1" forks k] Suc.prems(2) by (simp add: CHILD_NUM_def)
  have "pool_loop forks (dead + 1) (CHILD_NUM - 1) (k + 1) = Some (0, (k + 1) + (SERVER_NUM - (dead + 1)))"
    using Suc.hyps(2) Suc.prems by (intro Suc.hyps(1)) auto
  then show ?case using f Suc.hyps(2) by (subst pool_loop.simps) (auto simp: CHILD_NUM_def)
qed

lemma pool_main_forks:
  assumes "\<forall>i. forks i"
  shows "pool_main forks = Some (0, SERVER_NUM + CHILD_NUM - 1)"
proof -
  have "pool_fill forks 0 0 = Some (True, CHILD_NUM, CHILD_NUM)"
    using pool_fill_ok[of 0 forks 0] assms by simp
  moreover have "pool_loop forks 1 (CHILD_NUM - 1) CHILD_NUM = Some (0, CHILD_NUM + (SERVER_NUM - 1))"
    using pool_loop_ok[of 1 forks CHILD_NUM] assms by (simp add: SERVER_NUM_def)
  ultimately show ?thesis unfolding pool_main_def
    by (subst pool_loop.simps) (simp add: CHILD_NUM_def SERVER_NUM_def)
qed

subsection \<open>The small shell (05minishell.c)\<close>

text \<open>
  Each line is a command: \<open>cd\<close> changes the directory, anything else is started as a program and waited for; a
  line that begins with exit, in capitals or not, ends the shell. The result is what it does. A typed line comes with
  whether \<open>fork\<close> would succeed. The buffer is the one array of \<open>main\<close>, which keeps what longer lines left in it.
\<close>

datatype action = Chdir "cuchar list" | Exec "cuchar list"

definition SH_BUF :: nat where "SH_BUF = 255"

definition do_cmd :: "bool \<Rightarrow> cuchar list \<Rightarrow> bool \<times> action list" where
  "do_cmd forks cmd = (if forks then (True, [Exec cmd]) else (False, []))"

definition cmd_handler :: "bool \<Rightarrow> cuchar list \<Rightarrow> (bool \<times> action list \<times> cuchar list) option" where
  "cmd_handler forks buf = (let n = length (cstr buf) in
     if n = 0 then None
     else let buf = buf[n - 1 := 0] in
       if take 2 (cstr buf) = lit ''cd'' then map_option (\<lambda>dir. (True, [Chdir dir], buf)) (fmt_s (drop 3 buf))
       else case do_cmd forks (cstr buf) of (go, acts) \<Rightarrow> Some (go, acts, buf))"

fun shell :: "(cuchar list \<times> bool) list \<Rightarrow> cuchar list \<Rightarrow> action list option" where
  "shell [] buf = Some []"
| "shell ((line, forks) # rest) buf =
     (let buf = store (line @ [0]) buf in
      if map toupper (take 4 (cstr buf)) = lit ''EXIT'' then Some []
      else Option.bind (cmd_handler forks buf) (\<lambda>(go, acts, buf).
        if go then map_option ((@) acts) (shell rest buf) else Some acts))"

definition shell_main :: "(cuchar list \<times> bool) list \<Rightarrow> action list option" where
  "shell_main ls = shell ls (replicate SH_BUF 0)"

text \<open>What a line means to the shell: everything that begins with the letters cd is a change of directory.\<close>

definition command :: "cuchar list \<Rightarrow> action" where
  "command l = (if take 2 l = lit ''cd'' then Chdir (drop 3 l) else Exec l)"

definition shell_line :: "cuchar list \<Rightarrow> bool" where
  "shell_line l \<longleftrightarrow> 0 \<notin> set l \<and> length l \<le> SH_BUF - 3"

lemma cmd_handler_line:
  assumes "shell_line l" and "length buf = SH_BUF"
  shows "\<exists>buf'. cmd_handler True (store (l @ [10, 0]) buf) = Some (True, [command l], buf') \<and> length buf' = SH_BUF"
proof -
  let ?rest = "drop (Suc (Suc (length l))) buf"
  have s: "store (l @ [10, 0]) buf = l @ 10 # 0 # ?rest" by (simp add: store_def)
  have z: "0 \<notin> set l" "0 \<notin> set (l @ [10])" using assms(1) by (simp_all add: shell_line_def)
  have c: "cstr (l @ 10 # 0 # ?rest) = l @ [10]" using cstr_append[OF z(2)] by simp
  have b: "(l @ 10 # 0 # ?rest)[length l := 0] = l @ 0 # 0 # ?rest" by (simp add: list_update_append)
  have c2: "cstr (l @ 0 # 0 # ?rest) = l" using cstr_append[OF z(1)] by simp
  have len: "length (l @ 0 # 0 # ?rest) = SH_BUF" using assms by (auto simp: shell_line_def SH_BUF_def)
  show ?thesis
  proof (cases "take 2 l = lit ''cd''")
    case True
    then have n: "2 \<le> length l" by (cases "2 \<le> length l") (auto simp: lit_def take_all dest: arg_cong[of _ _ length])
    have d: "fmt_s (drop 3 (l @ 0 # 0 # ?rest)) = Some (drop 3 l)"
    proof (cases "length l = 2")
      case True
      then show ?thesis by (simp add: fmt_s_def cstr_def)
    next
      case False
      then have "drop 3 (l @ 0 # 0 # ?rest) = drop 3 l @ 0 # 0 # ?rest" using n by simp
      moreover have "0 \<notin> set (drop 3 l)" using z(1) by (meson in_set_dropD)
      ultimately show ?thesis by (simp add: fmt_s_def cstr_append)
    qed
    show ?thesis unfolding cmd_handler_def s c Let_def using True b c2 d len by (simp add: command_def)
  next
    case False
    then show ?thesis unfolding cmd_handler_def s c Let_def using b c2 len by (simp add: command_def do_cmd_def)
  qed
qed

lemma shell_commands:
  assumes "\<forall>l \<in> set ls. shell_line l \<and> map toupper (take 4 (l @ [10])) \<noteq> lit ''EXIT''" and "length buf = SH_BUF"
  shows "shell (map (\<lambda>l. (l @ [10], True)) ls @ (lit ''exit'' @ [10], b) # rest) buf = Some (map command ls)"
  using assms
proof (induction ls arbitrary: buf)
  case Nil
  have "cstr (store (lit ''exit'' @ [10, 0]) buf) = lit ''exit'' @ [10]"
    using cstr_append[of "lit ''exit'' @ [10]"] by (simp add: store_def lit_def)
  then show ?case by (simp add: lit_def toupper_def)
next
  case (Cons l ls)
  have ok: "shell_line l" and ne: "map toupper (take 4 (l @ [10])) \<noteq> lit ''EXIT''" using Cons.prems(1) by auto
  obtain buf' where b: "cmd_handler True (store (l @ [10, 0]) buf) = Some (True, [command l], buf')" "length buf' = SH_BUF"
    using cmd_handler_line[OF ok Cons.prems(2)] by blast
  have "cstr (store (l @ [10, 0]) buf) = l @ [10]"
    using cstr_append[of "l @ [10]"] ok by (simp add: store_def shell_line_def)
  then show ?case using Cons.IH[OF _ b(2)] Cons.prems(1) ne b(1) by simp
qed

end

