(* ===== verification/ChatList.thy ===== *)
theory ChatList
  imports KernelList
begin

section \<open>The list of the chat room (04Project/chatroom/list.h)\<close>

text \<open>
  The header of this directory writes the functions of KernelList anew, with other names, parameters in another order
  and field writes in another order; the loops differ in the places they go wrong. The functions are shown to be
  those of KernelList, so the chat room uses the latter.
\<close>

definition init_list_head :: "'z list_head_scheme heap \<Rightarrow> ptr \<Rightarrow> 'z list_head_scheme heap option" where
  "init_list_head h node = do {
     h \<leftarrow> wr h node (\<lambda>n. n\<lparr>nxt := node\<rparr>);
     wr h node (\<lambda>n. n\<lparr>prev := node\<rparr>)
   }"

definition chat_list_insert ::
    "'z list_head_scheme heap \<Rightarrow> ptr \<Rightarrow> ptr \<Rightarrow> ptr \<Rightarrow> 'z list_head_scheme heap option" where
  "chat_list_insert h node Next Prev = do {
     h \<leftarrow> wr h node (\<lambda>n. n\<lparr>nxt := Next\<rparr>);
     h \<leftarrow> wr h node (\<lambda>n. n\<lparr>prev := Prev\<rparr>);
     h \<leftarrow> wr h Next (\<lambda>n. n\<lparr>prev := node\<rparr>);
     wr h Prev (\<lambda>n. n\<lparr>nxt := node\<rparr>)
   }"

definition chat_list_add :: "'z list_head_scheme heap \<Rightarrow> ptr \<Rightarrow> ptr \<Rightarrow> 'z list_head_scheme heap option" where
  "chat_list_add h head node = do { nx \<leftarrow> rd h nxt head; chat_list_insert h node nx head }"

definition chat_list_add_tail :: "'z list_head_scheme heap \<Rightarrow> ptr \<Rightarrow> ptr \<Rightarrow> 'z list_head_scheme heap option" where
  "chat_list_add_tail h head node = do { pr \<leftarrow> rd h prev head; chat_list_insert h node head pr }"

definition chat_list_del :: "'z list_head_scheme heap \<Rightarrow> ptr \<Rightarrow> 'z list_head_scheme heap option" where
  "chat_list_del h node = do {
     nx \<leftarrow> rd h nxt node;
     pr \<leftarrow> rd h prev node;
     h \<leftarrow> wr h nx (\<lambda>n. n\<lparr>prev := pr\<rparr>);
     pr' \<leftarrow> rd h prev node;
     nx' \<leftarrow> rd h nxt node;
     wr h pr' (\<lambda>n. n\<lparr>nxt := nx'\<rparr>)
   }"

definition chat_list_del_init :: "'z list_head_scheme heap \<Rightarrow> ptr \<Rightarrow> 'z list_head_scheme heap option" where
  "chat_list_del_init h node = do {
     nx \<leftarrow> rd h nxt node;
     pr \<leftarrow> rd h prev node;
     h \<leftarrow> wr h nx (\<lambda>n. n\<lparr>prev := pr\<rparr>);
     pr' \<leftarrow> rd h prev node;
     nx' \<leftarrow> rd h nxt node;
     h \<leftarrow> wr h pr' (\<lambda>n. n\<lparr>nxt := nx'\<rparr>);
     init_list_head h node
   }"

definition chat_list_is_empty :: "'z list_head_scheme heap \<Rightarrow> ptr \<Rightarrow> bool option" where
  "chat_list_is_empty h head = do {
     nx \<leftarrow> rd h nxt head;
     (if nx = head then do { pr \<leftarrow> rd h prev head; Some (pr = head) } else Some False)
   }"

subsection \<open>The loops\<close>

text \<open>The nodes a loop goes through, as in KernelList. The reverse loop starts at the last node and steps forward.\<close>

partial_function (option) chat_each_from :: "'z list_head_scheme heap \<Rightarrow> ptr \<Rightarrow> ptr \<Rightarrow> ptr list option" where
  "chat_each_from h cur head =
     (if cur = head then Some []
      else do { nx \<leftarrow> rd h nxt cur; vs \<leftarrow> chat_each_from h nx head; Some (cur # vs) })"

definition chat_each :: "'z list_head_scheme heap \<Rightarrow> ptr \<Rightarrow> ptr list option" where
  "chat_each h head = do { cur \<leftarrow> rd h nxt head; chat_each_from h cur head }"

definition chat_each_continue :: "'z list_head_scheme heap \<Rightarrow> ptr \<Rightarrow> ptr \<Rightarrow> ptr list option" where
  "chat_each_continue h cur head = do { cur \<leftarrow> rd h nxt cur; chat_each_from h cur head }"

definition chat_each_reverse :: "'z list_head_scheme heap \<Rightarrow> ptr \<Rightarrow> ptr list option" where
  "chat_each_reverse h head = do { cur \<leftarrow> rd h prev head; chat_each_from h cur head }"

text \<open>
  The safe loops read the successor before the body, which may take the node out and free it: \<open>body\<close> is part of
  the model here. A NULL successor ends the loop, too.
\<close>

partial_function (option) chat_safe_from ::
    "('z list_head_scheme heap \<Rightarrow> ptr \<Rightarrow> 'z list_head_scheme heap option) \<Rightarrow>
     'z list_head_scheme heap \<Rightarrow> ptr \<Rightarrow> ptr \<Rightarrow> 'z list_head_scheme heap option" where
  "chat_safe_from body h cur head =
     (if cur = head then Some h
      else do {
        nx \<leftarrow> rd h nxt cur;
        (if nx = NULL then Some h
         else do { h \<leftarrow> body h cur; chat_safe_from body h nx head })
      })"

definition chat_safe ::
    "('z list_head_scheme heap \<Rightarrow> ptr \<Rightarrow> 'z list_head_scheme heap option) \<Rightarrow>
     'z list_head_scheme heap \<Rightarrow> ptr \<Rightarrow> 'z list_head_scheme heap option" where
  "chat_safe body h head = do { cur \<leftarrow> rd h nxt head; chat_safe_from body h cur head }"

text \<open>
  The condition of \<open>list_for_each_safe_continue\<close> compares the node with its own successor instead of the head, and the
  loop begins with the given node.
\<close>

partial_function (option) chat_safe_continue ::
    "('z list_head_scheme heap \<Rightarrow> ptr \<Rightarrow> 'z list_head_scheme heap option) \<Rightarrow>
     'z list_head_scheme heap \<Rightarrow> ptr \<Rightarrow> 'z list_head_scheme heap option" where
  "chat_safe_continue body h cur = do {
     nx \<leftarrow> rd h nxt cur;
     (if cur = nx \<or> nx = NULL then Some h
      else do { h \<leftarrow> body h cur; chat_safe_continue body h nx })
   }"

subsection \<open>The functions are those of KernelList\<close>

lemma init_list_head_eq: "init_list_head = list_head_init"
  by (simp add: fun_eq_iff init_list_head_def list_head_init_def)

lemma chat_list_insert_eq: "chat_list_insert h node Next Prev = list_add_between h node Prev Next"
  by (simp add: chat_list_insert_def list_add_between_def)

lemma chat_list_add_eq: "chat_list_add = list_add"
  by (simp add: fun_eq_iff chat_list_add_def list_add_def chat_list_insert_eq)

lemma chat_list_add_tail_eq: "chat_list_add_tail = list_add_tail"
  by (simp add: fun_eq_iff chat_list_add_tail_def list_add_tail_def chat_list_insert_eq)

lemma chat_list_is_empty_eq: "chat_list_is_empty = list_is_empty"
  by (simp add: fun_eq_iff chat_list_is_empty_def list_is_empty_def)

text \<open>The two writes of a deletion go to different fields, so their order does not matter, even if the nodes coincide.\<close>

lemma upd_links_commute:
  "upd (upd h p (\<lambda>n. n\<lparr>prev := a\<rparr>)) q (\<lambda>n. n\<lparr>nxt := b\<rparr>) = upd (upd h q (\<lambda>n. n\<lparr>nxt := b\<rparr>)) p (\<lambda>n. n\<lparr>prev := a\<rparr>)"
  by (cases "mem h p"; cases "mem h q") (auto simp: upd_def fun_eq_iff intro!: heap.equality)

lemma chat_list_del_eq: "chat_list_del h node = list_del h node"
proof (cases "live h node")
  case True
  then obtain nx pr where l: "fld h nxt node = Some nx" "fld h prev node = Some pr"
    by (auto simp: live_def fld_def)
  have r: "rd h nxt node = Some nx" "rd h prev node = Some pr" using True l by (simp_all add: heap_simps)
  let ?a = "upd h nx (\<lambda>n. n\<lparr>prev := pr\<rparr>)" and ?b = "upd h pr (\<lambda>n. n\<lparr>nxt := nx\<rparr>)"
  have a: "live h nx \<Longrightarrow> rd ?a prev node = Some pr" "live h nx \<Longrightarrow> rd ?a nxt node = Some nx"
    using True l by (cases "nx = node"; simp add: heap_simps)+
  have b: "live h pr \<Longrightarrow> rd ?b prev node = Some pr" "live h pr \<Longrightarrow> rd ?b nxt node = Some nx"
    using True l by (cases "pr = node"; simp add: heap_simps)+
  show ?thesis
  proof (cases "live h nx"; cases "live h pr")
    assume "live h nx" "live h pr"
    then show ?thesis using a b by (simp add: chat_list_del_def list_del_def r heap_simps upd_links_commute)
  qed (use a b in \<open>simp_all add: chat_list_del_def list_del_def r heap_simps\<close>)
next
  case False
  then show ?thesis by (simp add: chat_list_del_def list_del_def dead_rd)
qed

lemma chat_list_del_init_eq: "chat_list_del_init h node = list_del_init h node"
proof -
  have "chat_list_del_init h node = do { h \<leftarrow> chat_list_del h node; init_list_head h node }"
    by (simp add: chat_list_del_init_def chat_list_del_def)
  then show ?thesis by (simp add: chat_list_del_eq list_del_init_def init_list_head_def)
qed

text \<open>Each of the two loops returns what the other returns; this is an induction on the unfoldings of either.\<close>

lemma chat_each_from_sub: "chat_each_from h cur head = Some vs \<Longrightarrow> list_for_each_from h cur head = Some vs"
  by (rule chat_each_from.raw_induct[where P = "\<lambda>h cur head vs. list_for_each_from h cur head = Some vs"], subst list_for_each_from.simps)
    (auto split: if_splits simp: Option.bind_eq_Some_conv)

lemma list_for_each_from_sub: "list_for_each_from h cur head = Some vs \<Longrightarrow> chat_each_from h cur head = Some vs"
  by (rule list_for_each_from.raw_induct[where P = "\<lambda>h cur head vs. chat_each_from h cur head = Some vs"], subst chat_each_from.simps)
    (auto split: if_splits simp: Option.bind_eq_Some_conv)

lemma chat_each_from_eq: "chat_each_from h cur head = list_for_each_from h cur head"
  using chat_each_from_sub[of h cur head] list_for_each_from_sub[of h cur head]
  by (cases "chat_each_from h cur head"; cases "list_for_each_from h cur head") auto

lemma chat_each_eq: "chat_each = list_for_each"
  by (simp add: fun_eq_iff chat_each_def list_for_each_def chat_each_from_eq)

lemma chat_each_continue_eq: "chat_each_continue = list_for_each_continue"
  by (simp add: fun_eq_iff chat_each_continue_def list_for_each_continue_def chat_each_from_eq)

subsection \<open>The loops of this header\<close>

text \<open>The reverse loop steps to the successor, so it sees the last node only.\<close>

lemma chat_each_reverse_ring:
  assumes r: "ring h head xs"
  shows "chat_each_reverse h head = Some (if xs = [] then [] else [last xs])"
proof (cases xs rule: rev_cases)
  case Nil
  then show ?thesis using r dring_prev_head[OF r] ring_live_head[OF r]
    by (simp add: chat_each_reverse_def live_rd) (simp add: chat_each_from.simps)
next
  case (snoc ys y)
  have "list_for_each_from h y head = Some [y]"
    using ring_path(1)[of h head ys "[y]"] r dring_distinct[OF r] snoc
    by (intro list_for_each_from_path) auto
  then show ?thesis using dring_prev_head[OF r] ring_live_head[OF r] snoc
    by (simp add: chat_each_reverse_def live_rd chat_each_from_eq)
qed

text \<open>
  The safe loop empties a ring when its body takes the node out (\<open>list_del_init\<close>): the successor was read before, and
  the body does not touch the nodes still to come.
\<close>

definition same_links :: "ptr set \<Rightarrow> 'z list_head_scheme heap \<Rightarrow> 'z list_head_scheme heap \<Rightarrow> bool" where
  "same_links S h h' \<longleftrightarrow> fld h' more = fld h more
     \<and> (\<forall>q. q \<notin> S \<longrightarrow> fld h' nxt q = fld h nxt q \<and> fld h' prev q = fld h prev q)"

lemma same_links_trans: "same_links S h h1 \<Longrightarrow> same_links T h1 h2 \<Longrightarrow> T \<subseteq> S \<Longrightarrow> same_links S h h2"
  unfolding same_links_def by (metis subsetD)

lemma same_links_alone: "same_links S h h' \<Longrightarrow> x \<notin> S \<Longrightarrow> ring h x [] \<Longrightarrow> ring h' x []"
  by (simp add: same_links_def dring_def sring_def npath.simps split: option.splits)

lemma chat_safe_drop:
  assumes r: "ring h head xs"
  shows "\<exists>h'. chat_safe_from chat_list_del_init h (hd (xs @ [head])) head = Some h' \<and> ring h' head []
    \<and> (\<forall>x \<in> set xs. ring h' x []) \<and> same_links (set (head # xs)) h h'"
  using r
proof (induction xs arbitrary: h)
  case Nil
  then show ?case by (subst chat_safe_from.simps) (simp add: same_links_def)
next
  case (Cons x xs)
  have d: "distinct (head # x # xs)" by (rule dring_distinct[OF Cons.prems])
  have nx: "rd h nxt x = Some (hd (xs @ [head]))" "hd (xs @ [head]) \<noteq> NULL"
    using dring_next[of "fld h nxt" "fld h prev" head "[]" x xs] ring_live[OF Cons.prems, of x] Cons.prems
      live_nonnull[OF ring_live_around(2)[of h head "[x]" xs]] by (auto simp: live_rd)
  from list_del_init_ring[of h head "[]" x xs] Cons.prems obtain h1 where
    h1: "list_del_init h x = Some h1" "ring h1 head xs" "ring h1 x []"
    "links_to h h1 ((fld h nxt)(head := Some (hd (xs @ [head])), x := Some x))
        ((fld h prev)(hd (xs @ [head]) := Some head, x := Some x))" by auto
  have s1: "same_links (set (head # x # xs)) h h1"
    using h1(4) hd_snoc_in[of xs head] by (auto simp: links_to_def same_links_def)
  from Cons.IH[OF h1(2)] obtain h' where
    h': "chat_safe_from chat_list_del_init h1 (hd (xs @ [head])) head = Some h'" "ring h' head []"
    "\<forall>y \<in> set xs. ring h' y []" "same_links (set (head # xs)) h1 h'" by blast
  have "chat_safe_from chat_list_del_init h x head = Some h'"
    using d nx h1(1) h'(1) by (subst chat_safe_from.simps) (simp add: chat_list_del_init_eq)
  moreover have "same_links (set (head # x # xs)) h h'" by (rule same_links_trans[OF s1 h'(4)]) auto
  moreover have "ring h' x []" by (rule same_links_alone[OF h'(4) _ h1(3)]) (use d in auto)
  ultimately show ?case using h'(2,3) by auto
qed

lemma chat_safe_empties:
  assumes r: "ring h head xs"
  shows "\<exists>h'. chat_safe chat_list_del_init h head = Some h' \<and> ring h' head []
    \<and> (\<forall>x \<in> set xs. ring h' x []) \<and> same_links (set (head # xs)) h h'"
  using chat_safe_drop[OF r] dring_next_head[OF r] ring_live_head[OF r] by (simp add: chat_safe_def live_rd)

text \<open>
  The condition of the last loop is about the node and its successor: on a ring of two nodes or more it never fails,
  whatever the loop does that leaves the ring as it is.
\<close>

lemma chat_safe_continue_step:
  assumes r: "ring h head xs" and "xs \<noteq> []" and x: "x \<in> set (head # xs)"
  shows "\<exists>y \<in> set (head # xs). y \<noteq> x \<and> y \<noteq> NULL \<and> rd h nxt x = Some y"
proof -
  have d: "distinct (head # xs)" by (rule dring_distinct[OF r])
  show ?thesis
  proof (cases "x = head")
    case True
    then show ?thesis using dring_next_head[OF r] assms(2) d ring_live[OF r] live_nonnull
      by (intro bexI[of _ "hd xs"]) (cases xs; auto simp: live_rd)+
  next
    case False
    then obtain us vs where xs: "xs = us @ x # vs" using x by (auto dest: split_list)
    have "hd (vs @ [head]) \<in> set (head # xs)" "hd (vs @ [head]) \<noteq> x"
      using hd_snoc_in[of vs head] d False xs by auto
    then show ?thesis using dring_next[of "fld h nxt" "fld h prev" head us x vs] r xs ring_live[OF r] live_nonnull x
      by (intro bexI[of _ "hd (vs @ [head])"]) (auto simp: live_rd)
  qed
qed

lemma chat_safe_continue_returns:
  fixes h :: "'z list_head_scheme heap"
  assumes "chat_safe_continue body h x = Some h'"
  shows "body = (\<lambda>h _. Some h) \<longrightarrow> ring h head xs \<longrightarrow> xs \<noteq> [] \<longrightarrow> x \<notin> set (head # xs)"
proof (rule chat_safe_continue.raw_induct[where P = "\<lambda>body h x h'. body = (\<lambda>h _. Some h) \<longrightarrow>
    ring h head xs \<longrightarrow> xs \<noteq> [] \<longrightarrow> x \<notin> set (head # xs)", OF _ assms], intro impI notI)
  fix f :: "('z list_head_scheme heap \<Rightarrow> ptr \<Rightarrow> 'z list_head_scheme heap option) \<Rightarrow>
      'z list_head_scheme heap \<Rightarrow> ptr \<Rightarrow> 'z list_head_scheme heap option" and body h x h'
  assume IH: "\<And>body h x h'. f body h x = Some h' \<Longrightarrow> body = (\<lambda>h _. Some h) \<longrightarrow>
      ring h head xs \<longrightarrow> xs \<noteq> [] \<longrightarrow> x \<notin> set (head # xs)"
    and b: "do { nx \<leftarrow> rd h nxt x; if x = nx \<or> nx = NULL then Some h else do { h \<leftarrow> body h x; f body h nx } } = Some h'"
    and body: "body = (\<lambda>h _. Some h)" and r: "ring h head xs" and ne: "xs \<noteq> []" and x: "x \<in> set (head # xs)"
  from chat_safe_continue_step[OF r ne x] obtain y where
    "y \<in> set (head # xs)" "y \<noteq> x" "y \<noteq> NULL" "rd h nxt x = Some y" by blast
  with b body have "f body h y = Some h'" "y \<in> set (head # xs)" by auto
  with IH[of body h y h'] body r ne show False by blast
qed

lemma chat_safe_continue_diverges:
  assumes "ring h head xs" and "xs \<noteq> []" and "x \<in> set (head # xs)"
  shows "chat_safe_continue (\<lambda>h _. Some h) h x = None"
  using chat_safe_continue_returns[of "\<lambda>h _. Some h" h x _ head xs] assms
  by (cases "chat_safe_continue (\<lambda>h _. Some h) h x") auto

end
