(* ===== verification/Channels.thy ===== *)
theory Channels
  imports Threads Posix "HOL-Library.Sublist"
begin

section \<open>Sending and receiving through a channel\<close>

text \<open>
  What programs that send and receive promise: what was received, what is under way and what is still to be sent make
  up all there is to send, in its order on each of the channels that the messages are sorted by (\<open>chan c\<close>), and
  nothing is left when nobody can go on.
\<close>

locale channel_program = terminating_program +
  fixes chan :: "'c \<Rightarrow> 'm \<Rightarrow> bool" and got under_way to_send :: "'b \<Rightarrow> 'm list" and total :: "'m list"
  assumes carried: "inv s \<Longrightarrow> filter (chan c) (got s @ under_way s @ to_send s) = filter (chan c) total"
    and delivered: "inv s \<Longrightarrow> stuck prog s \<Longrightarrow> under_way s = [] \<and> to_send s = []"
begin

lemma received_prefix: "reach prog init s \<Longrightarrow> prefix (filter (chan c) (got s)) (filter (chan c) total)"
  using carried[OF reach_inv, of s c] unfolding filter_append by (metis prefixI)

lemma all_received: "reach prog init s \<Longrightarrow> stuck prog s \<Longrightarrow> filter (chan c) (got s) = filter (chan c) total"
  using carried[OF reach_inv, of s c] delivered[OF reach_inv, of s] by simp

text \<open>Every schedule comes to that state: no run is longer than the weight, and every run goes on to one that is stuck.\<close>

lemma run_delivers:
  assumes "reach prog init s"
  shows "\<exists>ts s'. run prog ts s = Some s' \<and> stuck prog s' \<and> length ts \<le> weight s
    \<and> (\<forall>c. filter (chan c) (got s') = filter (chan c) total)"
proof -
  obtain ts s' where r: "run prog ts s = Some s'" "stuck prog s'" using run_to_end[OF reach_inv[OF assms]] by blast
  then have "reach prog s s'" by (auto simp: reach_run)
  then have "reach prog init s'" using assms by (rule reach_trans)
  then show ?thesis using r run_bound[OF reach_inv[OF assms] r(1)] all_received by (metis add_leE)
qed

end

section \<open>A pipe with a small buffer (03IPC/02Pipe/03pipe_buf.c)\<close>

text \<open>
  After the fork, parent and child have both ends of the pipe open each. The parent writes four buffers at once; the
  pipe takes as much as it has room for, and the call waits for the rest. A write when no read end is open kills the
  writer. A read waits while the pipe is empty and some write end is open, and returns 0 when none is. \<open>pi_got\<close> has
  what each read of the child returned. Errors of the calls and messages are left out.
\<close>

definition PIPE_BUF :: nat where "PIPE_BUF = push_bit 4 4096"

datatype pp_pc = PP_Close | PP_Write | PP_Shut | PP_Wait | PP_Out | PP_Killed

datatype cp_pc = CP_Close | CP_Read | CP_Shut | CP_Out

record pipe =
  pi_data :: "cuchar list"
  pi_left :: "cuchar list"
  pi_got :: "cuchar list list"
  par_pc :: pp_pc
  par_rd :: bool
  par_wr :: bool
  chi_pc :: cp_pc
  chi_rd :: bool
  chi_wr :: bool

datatype pipe_tid = PParent | PChild

definition pipe_parent :: "nat \<Rightarrow> pipe \<Rightarrow> pipe turn" where
  "pipe_parent cap s = (case par_pc s of
     PP_Close \<Rightarrow> Step (s\<lparr>par_rd := False, par_pc := PP_Write\<rparr>)
   | PP_Write \<Rightarrow>
       (if pi_left s = [] then Step (s\<lparr>par_pc := PP_Shut\<rparr>)
        else if \<not> par_rd s \<and> \<not> chi_rd s then Step (s\<lparr>par_rd := False, par_wr := False, par_pc := PP_Killed\<rparr>)
        else let room = cap - length (pi_data s) in
          if room = 0 then Waits
          else Step (s\<lparr>pi_data := pi_data s @ take room (pi_left s), pi_left := drop room (pi_left s)\<rparr>))
   | PP_Shut \<Rightarrow> Step (s\<lparr>par_wr := False, par_pc := PP_Wait\<rparr>)
   | PP_Wait \<Rightarrow> (if chi_pc s = CP_Out then Step (s\<lparr>par_pc := PP_Out\<rparr>) else Waits)
   | _ \<Rightarrow> Ends)"

definition pipe_child :: "pipe \<Rightarrow> pipe turn" where
  "pipe_child s = (case chi_pc s of
     CP_Close \<Rightarrow> Step (s\<lparr>chi_wr := False, chi_pc := CP_Read\<rparr>)
   | CP_Read \<Rightarrow>
       (if pi_data s \<noteq> [] then Step (s\<lparr>pi_got := pi_got s @ [take PIPE_BUF (pi_data s)], pi_data := drop PIPE_BUF (pi_data s)\<rparr>)
        else if par_wr s \<or> chi_wr s then Waits
        else Step (s\<lparr>chi_pc := CP_Shut\<rparr>))
   | CP_Shut \<Rightarrow> Step (s\<lparr>chi_rd := False, chi_pc := CP_Out\<rparr>)
   | CP_Out \<Rightarrow> Ends)"

definition pipe_prog :: "nat \<Rightarrow> (pipe_tid, pipe) program" where
  "pipe_prog cap t s = (case t of PParent \<Rightarrow> pipe_parent cap s | PChild \<Rightarrow> pipe_child s)"

text \<open>The program writes zeros; \<open>wbuf\<close> is any contents.\<close>

definition pipe_init :: "cuchar list \<Rightarrow> pipe" where
  "pipe_init wbuf = \<lparr>pi_data = [], pi_left = wbuf, pi_got = [], par_pc = PP_Close, par_rd = True, par_wr = True,
     chi_pc = CP_Close, chi_rd = True, chi_wr = True\<rparr>"

definition pipe_start :: pipe where
  "pipe_start = pipe_init (replicate (PIPE_BUF * 4) 0)"

text \<open>The descriptors follow the places; the child ends only after the parent has written everything.\<close>

definition pipe_inv :: "cuchar list \<Rightarrow> pipe \<Rightarrow> bool" where
  "pipe_inv wbuf s \<longleftrightarrow> concat (pi_got s) @ pi_data s @ pi_left s = wbuf
     \<and> (\<forall>bs \<in> set (pi_got s). bs \<noteq> [] \<and> length bs \<le> PIPE_BUF)
     \<and> par_pc s \<noteq> PP_Killed \<and> par_wr s = (par_pc s \<in> {PP_Close, PP_Write, PP_Shut})
     \<and> chi_wr s = (chi_pc s = CP_Close) \<and> chi_rd s = (chi_pc s \<noteq> CP_Out)
     \<and> (par_pc s \<in> {PP_Shut, PP_Wait, PP_Out} \<longrightarrow> pi_left s = [])
     \<and> (chi_pc s \<in> {CP_Shut, CP_Out} \<longrightarrow> pi_data s = [] \<and> par_pc s \<in> {PP_Wait, PP_Out})"

fun pp_weight :: "pp_pc \<Rightarrow> nat" where
  "pp_weight PP_Close = 4" | "pp_weight PP_Write = 3" | "pp_weight PP_Shut = 2" | "pp_weight PP_Wait = 1" | "pp_weight _ = 0"

fun cp_weight :: "cp_pc \<Rightarrow> nat" where
  "cp_weight CP_Close = 3" | "cp_weight CP_Read = 2" | "cp_weight CP_Shut = 1" | "cp_weight CP_Out = 0"

definition pipe_weight :: "pipe \<Rightarrow> nat" where
  "pipe_weight s = 2 * length (pi_left s) + length (pi_data s) + pp_weight (par_pc s) + cp_weight (chi_pc s)"

lemma PIPE_BUF_pos: "0 < PIPE_BUF"
  by (simp add: PIPE_BUF_def push_bit_eq_mult)

lemma take_drop_append: "take n xs @ drop n xs @ ys = xs @ ys"
  by (metis append_assoc append_take_drop_id)

lemmas pipe_steps = pipe_prog_def pipe_parent_def pipe_child_def Let_def

lemma pipe_step_inv:
  assumes inv: "pipe_inv wbuf s" and st: "pipe_prog cap t s = Step s'"
  shows "pipe_inv wbuf s'"
proof (cases t)
  case PParent
  show ?thesis
  proof (cases "par_pc s")
    case PP_Write
    have c: "chi_rd s" "chi_pc s \<notin> {CP_Shut, CP_Out}" using inv PP_Write by (auto simp: pipe_inv_def)
    let ?room = "cap - length (pi_data s)"
    consider "pi_left s = []" "s' = s\<lparr>par_pc := PP_Shut\<rparr>"
      | "s' = s\<lparr>pi_data := pi_data s @ take ?room (pi_left s), pi_left := drop ?room (pi_left s)\<rparr>"
      using st PParent PP_Write c by (simp add: pipe_steps split: if_splits)
    then show ?thesis by cases (use inv PP_Write c in \<open>simp_all add: pipe_inv_def\<close>)
  next
    case PP_Close
    then have "s' = s\<lparr>par_rd := False, par_pc := PP_Write\<rparr>" using st PParent by (simp add: pipe_steps)
    then show ?thesis using inv PP_Close by (simp add: pipe_inv_def)
  next
    case PP_Shut
    then have "s' = s\<lparr>par_wr := False, par_pc := PP_Wait\<rparr>" using st PParent by (simp add: pipe_steps)
    then show ?thesis using inv PP_Shut by (cases "pi_left s") (simp_all add: pipe_inv_def)
  next
    case PP_Wait
    then have "s' = s\<lparr>par_pc := PP_Out\<rparr>" using st PParent by (simp add: pipe_steps split: if_splits)
    then show ?thesis using inv PP_Wait by (cases "pi_left s") (simp_all add: pipe_inv_def)
  qed (use st PParent in \<open>simp_all add: pipe_steps\<close>)
next
  case PChild
  show ?thesis
  proof (cases "chi_pc s")
    case CP_Read
    then consider "pi_data s \<noteq> []" "s' = s\<lparr>pi_got := pi_got s @ [take PIPE_BUF (pi_data s)], pi_data := drop PIPE_BUF (pi_data s)\<rparr>"
      | "pi_data s = []" "\<not> par_wr s" "s' = s\<lparr>chi_pc := CP_Shut\<rparr>"
      using st PChild by (auto simp: pipe_steps split: if_splits)
    then show ?thesis
    proof cases
      case 2
      then show ?thesis using inv CP_Read by (cases "par_pc s"; cases "pi_left s") (simp_all add: pipe_inv_def)
    qed (use inv CP_Read PIPE_BUF_pos in \<open>simp add: pipe_inv_def ball_Un take_drop_append\<close>)
  next
    case CP_Close
    then have "s' = s\<lparr>chi_wr := False, chi_pc := CP_Read\<rparr>" using st PChild by (simp add: pipe_steps)
    then show ?thesis using inv CP_Close by (simp add: pipe_inv_def)
  next
    case CP_Shut
    then have "s' = s\<lparr>chi_rd := False, chi_pc := CP_Out\<rparr>" using st PChild by (simp add: pipe_steps)
    then show ?thesis using inv CP_Shut by (cases "pi_data s"; cases "pi_left s") (simp_all add: pipe_inv_def)
  qed (use st PChild in \<open>simp_all add: pipe_steps\<close>)
qed

lemma pipe_weight_step:
  assumes inv: "pipe_inv wbuf s" and st: "pipe_prog cap t s = Step s'"
  shows "pipe_weight s' < pipe_weight s"
proof (cases t)
  case PParent
  have "chi_rd s \<or> pi_left s = []" using inv by (auto simp: pipe_inv_def)
  then show ?thesis using PParent st
    by (cases "par_pc s"; cases "pi_left s") (auto simp: pipe_steps pipe_weight_def split: if_splits)
next
  case PChild
  then show ?thesis using st PIPE_BUF_pos
    by (cases "chi_pc s"; cases "pi_data s") (auto simp: pipe_steps pipe_weight_def split: if_splits)
qed

lemma pipe_stuck:
  assumes inv: "pipe_inv wbuf s" and st: "stuck (pipe_prog (Suc cap)) s"
  shows "par_pc s = PP_Out" and "chi_pc s = CP_Out" and "pi_data s = []" and "pi_left s = []"
proof -
  have n: "\<forall>s'. pipe_parent (Suc cap) s \<noteq> Step s'" "\<forall>s'. pipe_child s \<noteq> Step s'"
    using st by (auto simp: stuck_def pipe_prog_def dest: spec[of _ PParent] spec[of _ PChild])
  have "chi_pc s = CP_Out \<or> chi_pc s = CP_Read \<and> pi_data s = [] \<and> (par_wr s \<or> chi_wr s)"
    using n(2) by (cases "chi_pc s"; cases "pi_data s = []"; cases "par_wr s \<or> chi_wr s") (simp_all add: pipe_child_def)
  moreover have "par_pc s \<in> {PP_Out, PP_Killed} \<or> par_pc s = PP_Wait \<and> chi_pc s \<noteq> CP_Out
      \<or> par_pc s = PP_Write \<and> pi_data s \<noteq> []"
    using n(1) by (cases "par_pc s"; cases "pi_left s = []"; cases "chi_pc s = CP_Out"; cases "pi_data s = []";
      cases "\<not> par_rd s \<and> \<not> chi_rd s") (simp_all add: pipe_parent_def)
  ultimately show "par_pc s = PP_Out" "chi_pc s = CP_Out"
    using inv by (cases "par_pc s"; cases "chi_pc s"; simp add: pipe_inv_def)+
  then show "pi_data s = []" "pi_left s = []" using inv by (simp_all add: pipe_inv_def)
qed

interpretation pipe: channel_program "pipe_prog (Suc cap)" "pipe_init wbuf" "pipe_inv wbuf" pipe_weight
  "\<lambda>_ _. True" "\<lambda>s. concat (pi_got s)" pi_data pi_left wbuf for cap wbuf
proof unfold_locales
  show "pipe_inv wbuf (pipe_init wbuf)" by (simp add: pipe_inv_def pipe_init_def)
qed (simp_all add: pipe_step_inv pipe_weight_step pipe_stuck, simp add: pipe_inv_def)

lemma pipe_delivers:
  assumes "reach (pipe_prog (Suc cap)) (pipe_init wbuf) s"
  shows "prefix (concat (pi_got s)) wbuf" and "\<forall>bs \<in> set (pi_got s). bs \<noteq> [] \<and> length bs \<le> PIPE_BUF"
    and "par_pc s \<noteq> PP_Killed"
    and "stuck (pipe_prog (Suc cap)) s \<Longrightarrow> par_pc s = PP_Out \<and> chi_pc s = CP_Out \<and> concat (pi_got s) = wbuf"
proof -
  have inv: "pipe_inv wbuf s" by (rule pipe.reach_inv[OF assms])
  then show "\<forall>bs \<in> set (pi_got s). bs \<noteq> [] \<and> length bs \<le> PIPE_BUF" "par_pc s \<noteq> PP_Killed"
    by (simp_all add: pipe_inv_def)
  show "prefix (concat (pi_got s)) wbuf" using pipe.received_prefix[OF assms] by simp
  show "stuck (pipe_prog (Suc cap)) s \<Longrightarrow> par_pc s = PP_Out \<and> chi_pc s = CP_Out \<and> concat (pi_got s) = wbuf"
    using pipe_stuck[OF inv] pipe.all_received[OF assms] by simp
qed

section \<open>A System V queue (04MsgQueue/01SysV: msq_snd.c, msq_rcv.c)\<close>

text \<open>
  The sender puts eight messages into the queue 1024 times; the receiver takes the first message of any type, cut off
  at 1023 bytes, until \<open>msgrcv\<close> gives nothing. A full queue (of \<open>qbytes\<close> bytes, or as many messages) makes the sender
  wait, an empty one the receiver. A message is its type and its bytes with the terminating zero; \<open>msq_got\<close> has the
  type and the text that the receiver prints. The queue begins empty; errors of the calls and the status report are
  left out.
\<close>

type_synonym smsg = "int \<times> cuchar list"

definition msq_table :: "smsg list" where
  "msq_table = [(1, lit ''tom''), (2, lit ''jack''), (3, lit ''niko''), (4, lit ''richard''),
     (5, lit ''kevin''), (6, lit ''mark''), (7, lit ''tube''), (8, lit ''cathcy'')]"

definition MSQ_BUF :: nat where "MSQ_BUF = 1024"

datatype snd_pc = S_For nat nat | S_Out

datatype rcv_pc = R_Recv | R_Out

record msq =
  msq_q :: "smsg list"
  msq_snd :: snd_pc
  msq_rcv :: rcv_pc
  msq_buf :: "cuchar list"
  msq_got :: "smsg list"

datatype msq_tid = MSend | MRecv

definition msq_fits :: "nat \<Rightarrow> smsg list \<Rightarrow> cuchar list \<Rightarrow> bool" where
  "msq_fits qbytes q m \<longleftrightarrow> length m + sum_list (map (length \<circ> snd) q) \<le> qbytes \<and> length q + 1 \<le> qbytes"

definition msq_sender :: "nat \<Rightarrow> msq \<Rightarrow> msq turn" where
  "msq_sender qbytes s = (case msq_snd s of
     S_For i n \<Rightarrow>
       (if i < 1024 then
          (if n < length msq_table then
             (let (ty, str) = msq_table ! n in
              if msq_fits qbytes (msq_q s) (str @ [0])
              then Step (s\<lparr>msq_q := msq_q s @ [(ty, str @ [0])], msq_snd := S_For i (n + 1)\<rparr>) else Waits)
           else Step (s\<lparr>msq_snd := S_For (i + 1) 0\<rparr>))
        else Step (s\<lparr>msq_snd := S_Out\<rparr>))
   | S_Out \<Rightarrow> Ends)"

definition msq_receiver :: "msq \<Rightarrow> msq turn" where
  "msq_receiver s = (case msq_rcv s of
     R_Recv \<Rightarrow> (case msq_q s of
         [] \<Rightarrow> Waits
       | (ty, m) # q \<Rightarrow>
           (if m = [] then Step (s\<lparr>msq_q := q, msq_rcv := R_Out\<rparr>)
            else let buf = store (take (MSQ_BUF - 1) m) (msq_buf s) in case fmt_s buf of
                None \<Rightarrow> Faults
              | Some str \<Rightarrow> Step (s\<lparr>msq_q := q, msq_buf := buf, msq_got := msq_got s @ [(ty, str)]\<rparr>)))
   | R_Out \<Rightarrow> Ends)"

definition msq_prog :: "nat \<Rightarrow> (msq_tid, msq) program" where
  "msq_prog qbytes t s = (case t of MSend \<Rightarrow> msq_sender qbytes s | MRecv \<Rightarrow> msq_receiver s)"

definition msq_init :: msq where
  "msq_init = \<lparr>msq_q = [], msq_snd = S_For 0 0, msq_rcv = R_Recv, msq_buf = replicate MSQ_BUF 0, msq_got = []\<rparr>"

text \<open>What the places of the sender's two loops have still to send, and what the messages of the queue say.\<close>

definition msq_left :: "snd_pc \<Rightarrow> smsg list" where
  "msq_left pc = (case pc of
     S_For i n \<Rightarrow> (if i < 1024 then drop n msq_table @ concat (replicate (1023 - i) msq_table) else [])
   | S_Out \<Rightarrow> [])"

definition msg_texts :: "('a \<times> cuchar list) list \<Rightarrow> ('a \<times> cuchar list) list" where
  "msg_texts q = map (\<lambda>(ty, m). (ty, cstr m)) q"

definition short_texts :: "nat \<Rightarrow> ('a \<times> cuchar list) list \<Rightarrow> bool" where
  "short_texts k q \<longleftrightarrow> (\<forall>m \<in> set q. 0 \<in> set (snd m) \<and> length (snd m) \<le> k)"

lemma msg_texts_simps [simp]: "msg_texts [] = []" "msg_texts ((ty, m) # q) = (ty, cstr m) # msg_texts q" "msg_texts (q @ q') = msg_texts q @ msg_texts q'"
  by (simp_all add: msg_texts_def)

lemma short_texts_simps [simp]:
  "short_texts k []" "short_texts k ((ty, m) # q) \<longleftrightarrow> 0 \<in> set m \<and> length m \<le> k \<and> short_texts k q"
  "short_texts k (q @ q') \<longleftrightarrow> short_texts k q \<and> short_texts k q'"
  by (auto simp: short_texts_def)

lemma cstr_zero_in: "0 \<in> set m \<Longrightarrow> cstr (m @ bs) = cstr m"
  by (simp add: cstr_def)

lemma fmt_s_store: "0 \<in> set m \<Longrightarrow> fmt_s (store m buf) = Some (cstr m)"
  by (simp add: fmt_s_def store_def cstr_zero_in)

lemma msq_table_lit: "n < length msq_table \<Longrightarrow> 0 \<notin> set (snd (msq_table ! n)) \<and> length (snd (msq_table ! n)) \<le> 7"
  by (auto simp: msq_table_def lit_def less_Suc_eq)

definition msq_inv :: "msq \<Rightarrow> bool" where
  "msq_inv s \<longleftrightarrow> msq_got s @ msg_texts (msq_q s) @ msq_left (msq_snd s) = concat (replicate 1024 msq_table)
     \<and> short_texts 8 (msq_q s) \<and> msq_rcv s = R_Recv"

definition msq_weight :: "msq \<Rightarrow> nat" where
  "msq_weight s = length (msq_q s) + (case msq_snd s of S_For i n \<Rightarrow> 17 * (1024 - i) + 2 * (8 - n) + 1 | S_Out \<Rightarrow> 0)
     + (if msq_rcv s = R_Recv then 1 else 0)"

text \<open>Every step of the two, with what the invariant says about it.\<close>

lemma msq_sender_cases:
  assumes "msq_sender qbytes s = Step s'"
  obtains (send) i n ty str where "msq_snd s = S_For i n" "i < 1024" "n < length msq_table" "msq_table ! n = (ty, str)"
      "s' = s\<lparr>msq_q := msq_q s @ [(ty, str @ [0])], msq_snd := S_For i (n + 1)\<rparr>"
    | (round) i n where "msq_snd s = S_For i n" "i < 1024" "length msq_table \<le> n" "s' = s\<lparr>msq_snd := S_For (i + 1) 0\<rparr>"
    | (out) i n where "msq_snd s = S_For i n" "1024 \<le> i" "s' = s\<lparr>msq_snd := S_Out\<rparr>"
proof (cases "msq_snd s")
  case (S_For i n)
  consider "i < 1024" "n < length msq_table" | "i < 1024" "length msq_table \<le> n" | "1024 \<le> i" by linarith
  then show ?thesis
  proof cases
    case 1
    then show ?thesis using assms S_For send[of i n] by (cases "msq_table ! n") (simp add: msq_sender_def split: if_splits)
  next
    case 2
    then show ?thesis using assms S_For by (intro round[of i n]) (simp_all add: msq_sender_def)
  next
    case 3
    then show ?thesis using assms S_For by (intro out[of i n]) (simp_all add: msq_sender_def)
  qed
next
  case S_Out
  then show ?thesis using assms by (simp add: msq_sender_def)
qed

lemma msq_receiver_step:
  assumes "msq_inv s" and "msq_q s = (ty, m) # q"
  shows "msq_receiver s = Step (s\<lparr>msq_q := q, msq_buf := store m (msq_buf s), msq_got := msq_got s @ [(ty, cstr m)]\<rparr>)"
proof -
  have "0 \<in> set m" "length m \<le> 8" "msq_rcv s = R_Recv" using assms by (auto simp: msq_inv_def)
  moreover from this have "m \<noteq> []" "take (MSQ_BUF - 1) m = m" by (auto simp: MSQ_BUF_def)
  ultimately show ?thesis using assms(2) by (simp add: msq_receiver_def fmt_s_store)
qed

lemma msq_left_out [simp]: "msq_left S_Out = []"
  by (simp add: msq_left_def)

lemma msq_left_send:
  assumes "i < 1024" and "n < length msq_table"
  shows "msq_left (S_For i n) = msq_table ! n # msq_left (S_For i (n + 1))"
  using assms by (simp add: msq_left_def Cons_nth_drop_Suc[symmetric])

lemma msq_left_round:
  assumes "i < 1024" and "length msq_table \<le> n"
  shows "msq_left (S_For i n) = msq_left (S_For (i + 1) 0)"
proof (cases "i + 1 < 1024")
  case True
  then have "1023 - i = Suc (1023 - (i + 1))" by simp
  then show ?thesis using assms True by (simp add: msq_left_def)
next
  case False
  then show ?thesis using assms by (simp add: msq_left_def)
qed

lemma msq_step_inv:
  assumes inv: "msq_inv s" and st: "msq_prog qbytes t s = Step s'"
  shows "msq_inv s'"
proof (cases t)
  case MSend
  then have "msq_sender qbytes s = Step s'" using st by (simp add: msq_prog_def)
  then show ?thesis
  proof (cases rule: msq_sender_cases)
    case (send i n ty str)
    have "cstr (str @ [0]) = str" "length str \<le> 7" using msq_table_lit[OF send(3)] send(4) by (simp_all add: cstr_append)
    then show ?thesis using inv send msq_left_send[OF send(2,3)] by (simp add: msq_inv_def)
  next
    case (round i n)
    then show ?thesis using inv msq_left_round[OF round(2,3)] by (simp add: msq_inv_def)
  next
    case (out i n)
    then show ?thesis using inv by (simp add: msq_inv_def msq_left_def)
  qed
next
  case MRecv
  show ?thesis
  proof (cases "msq_q s")
    case Nil
    then show ?thesis using st MRecv inv by (simp add: msq_prog_def msq_receiver_def msq_inv_def)
  next
    case (Cons m q)
    obtain ty bs where "m = (ty, bs)" by (cases m)
    then have q: "msq_q s = (ty, bs) # q" using Cons by simp
    then show ?thesis using st MRecv inv msq_receiver_step[OF inv q] by (auto simp: msq_prog_def msq_inv_def)
  qed
qed

lemma msq_weight_step:
  assumes inv: "msq_inv s" and st: "msq_prog qbytes t s = Step s'"
  shows "msq_weight s' < msq_weight s"
proof (cases t)
  case MSend
  then have "msq_sender qbytes s = Step s'" using st by (simp add: msq_prog_def)
  then show ?thesis
    by (cases rule: msq_sender_cases) (auto simp: msq_weight_def msq_table_def)
next
  case MRecv
  show ?thesis
  proof (cases "msq_q s")
    case Nil
    then show ?thesis using st MRecv inv by (simp add: msq_prog_def msq_receiver_def msq_inv_def)
  next
    case (Cons m q)
    obtain ty bs where "m = (ty, bs)" by (cases m)
    then have q: "msq_q s = (ty, bs) # q" using Cons by simp
    then show ?thesis using st MRecv inv msq_receiver_step[OF inv q] by (auto simp: msq_prog_def msq_weight_def)
  qed
qed

lemma msq_stuck:
  assumes inv: "msq_inv s" and st: "stuck (msq_prog (8 + extra)) s"
  shows "msq_q s = []" and "msq_snd s = S_Out"
proof -
  have n: "\<forall>s'. msq_sender (8 + extra) s \<noteq> Step s'" "\<forall>s'. msq_receiver s \<noteq> Step s'"
    using st by (auto simp: stuck_def msq_prog_def dest: spec[of _ MSend] spec[of _ MRecv])
  show q: "msq_q s = []"
    using n(2) msq_receiver_step[OF inv] by (cases "msq_q s") force+
  show "msq_snd s = S_Out"
  proof (cases "msq_snd s")
    case (S_For i k)
    consider "i < 1024" "k < length msq_table" | "i < 1024" "length msq_table \<le> k" | "1024 \<le> i" by linarith
    then show ?thesis
    proof cases
      case 1
      then show ?thesis using n(1) S_For q msq_table_lit[OF 1(2)]
        by (cases "msq_table ! k") (auto simp: msq_sender_def msq_fits_def)
    qed (use n(1) S_For in \<open>simp_all add: msq_sender_def\<close>)
  qed simp
qed

interpretation msq: channel_program "msq_prog (8 + extra)" msq_init msq_inv msq_weight
  "\<lambda>_ _. True" msq_got "\<lambda>s. msg_texts (msq_q s)" "\<lambda>s. msq_left (msq_snd s)" "concat (replicate 1024 msq_table)" for extra
proof unfold_locales
  have "concat (replicate (Suc 1023) msq_table) = msq_table @ concat (replicate 1023 msq_table)"
    unfolding replicate.simps concat.simps ..
  moreover have "Suc 1023 = 1024" "1023 - 0 = (1023 :: nat)" "(0 :: nat) < 1024" by simp_all
  ultimately show "msq_inv msq_init"
    by (simp only: msq_inv_def msq_init_def msq.simps snd_pc.case msq_left_def msg_texts_simps short_texts_simps drop_0 append_Nil
      if_True simp_thms)
qed (simp_all add: msq_step_inv msq_weight_step msq_stuck, simp add: msq_inv_def)

lemma msq_delivers:
  assumes "reach (msq_prog (8 + extra)) msq_init s"
  shows "prefix (msq_got s) (concat (replicate 1024 msq_table))" and "msq_rcv s = R_Recv"
    and "stuck (msq_prog (8 + extra)) s \<Longrightarrow> msq_got s = concat (replicate 1024 msq_table) \<and> msq_snd s = S_Out"
proof -
  note inv = msq.reach_inv[OF assms]
  show "prefix (msq_got s) (concat (replicate 1024 msq_table))"
    using msq.received_prefix[OF assms] by (simp only: filter_True Ball_def simp_thms)
  show "msq_rcv s = R_Recv" using inv by (simp only: msq_inv_def simp_thms)
  show "stuck (msq_prog (8 + extra)) s \<Longrightarrow> msq_got s = concat (replicate 1024 msq_table) \<and> msq_snd s = S_Out"
    using msq.all_received[OF assms] msq_stuck[OF inv] by (simp only: filter_True Ball_def simp_thms)
qed

section \<open>A POSIX queue with priorities (04MsgQueue/02Posix: mq_snd.c, mq_rcv.c)\<close>

text \<open>
  A message goes behind those of its priority and above; the receiver takes the first one. Four messages have priority
  4, the last one has 5. A queue with \<open>maxmsg\<close> messages makes the sender wait. \<open>mq_got\<close> has the priority and the text
  of each message received. Errors of the calls and the status report are left out.
\<close>

type_synonym mqmsg = "nat \<times> cuchar list"

definition mq_text :: "string \<Rightarrow> cuchar list" where
  "mq_text str = lit str @ replicate (8 - length str) 0"

definition mq_s :: "cuchar list list" where
  "mq_s = map mq_text [''1hello'', ''2world'', ''3linux'', ''4test'', ''5uplook'']"

definition MQ_BUFF :: nat where "MQ_BUFF = 9000"

datatype mqs_pc = MS_For nat | MS_Out

datatype mqr_pc = MR_Recv | MR_Out

record mqs =
  mq_l :: "mqmsg list"
  mq_snd :: mqs_pc
  mq_rcv :: mqr_pc
  mq_rbuf :: "cuchar list"
  mq_got :: "mqmsg list"

definition mq_insert :: "nat \<Rightarrow> cuchar list \<Rightarrow> mqmsg list \<Rightarrow> mqmsg list" where
  "mq_insert prio m q = takeWhile (\<lambda>x. prio \<le> fst x) q @ (prio, m) # dropWhile (\<lambda>x. prio \<le> fst x) q"

definition mq_sender :: "nat \<Rightarrow> mqs \<Rightarrow> mqs turn" where
  "mq_sender maxmsg s = (case mq_snd s of
     MS_For i \<Rightarrow>
       (if maxmsg \<le> length (mq_l s) then Waits
        else if i < length mq_s - 1 then Step (s\<lparr>mq_l := mq_insert 4 (mq_s ! i) (mq_l s), mq_snd := MS_For (i + 1)\<rparr>)
        else Step (s\<lparr>mq_l := mq_insert 5 (mq_s ! i) (mq_l s), mq_snd := MS_Out\<rparr>))
   | MS_Out \<Rightarrow> Ends)"

definition mq_receiver :: "mqs \<Rightarrow> mqs turn" where
  "mq_receiver s = (case mq_rcv s of
     MR_Recv \<Rightarrow> (case mq_l s of
         [] \<Rightarrow> Waits
       | (prio, m) # q \<Rightarrow>
           (if m = [] then Step (s\<lparr>mq_l := q, mq_rcv := MR_Out\<rparr>)
            else let buf = store m (mq_rbuf s) in case fmt_s buf of
                None \<Rightarrow> Faults
              | Some str \<Rightarrow> Step (s\<lparr>mq_l := q, mq_rbuf := buf, mq_got := mq_got s @ [(prio, str)]\<rparr>)))
   | MR_Out \<Rightarrow> Ends)"

definition mq_prog :: "nat \<Rightarrow> (msq_tid, mqs) program" where
  "mq_prog maxmsg t s = (case t of MSend \<Rightarrow> mq_sender maxmsg s | MRecv \<Rightarrow> mq_receiver s)"

definition mq_init :: mqs where
  "mq_init = \<lparr>mq_l = [], mq_snd = MS_For 0, mq_rcv = MR_Recv, mq_rbuf = replicate MQ_BUFF 0, mq_got = []\<rparr>"

text \<open>The messages of one priority come in the order of the sends, as the queue is sorted by priority.\<close>

definition by_prio :: "mqmsg list \<Rightarrow> bool" where
  "by_prio q \<longleftrightarrow> sorted_wrt (\<lambda>x y. fst y \<le> fst x) q"

lemma by_prio_drop:
  assumes "by_prio q" and "x \<in> set (dropWhile (\<lambda>x. prio \<le> fst x) q)"
  shows "fst x < prio"
  using assms
proof (induction q)
  case (Cons y q)
  show ?case
  proof (cases "prio \<le> fst y")
    case True
    then show ?thesis using Cons by (simp add: by_prio_def)
  next
    case False
    then show ?thesis using Cons.prems by (auto simp: by_prio_def)
  qed
qed simp

lemma by_prio_insert:
  assumes "by_prio q"
  shows "by_prio (mq_insert prio m q)"
proof -
  have "by_prio (takeWhile (\<lambda>x. prio \<le> fst x) q @ dropWhile (\<lambda>x. prio \<le> fst x) q)" using assms by simp
  then show ?thesis using by_prio_drop[OF assms, of _ prio]
    by (force simp: by_prio_def mq_insert_def sorted_wrt_append simp del: takeWhile_dropWhile_id dest: set_takeWhileD)
qed

lemma mq_insert_filter:
  assumes "by_prio q"
  shows "filter (\<lambda>x. fst x = c) (mq_insert prio m q) = filter (\<lambda>x. fst x = c) (q @ [(prio, m)])"
proof -
  have "filter (\<lambda>x. fst x = prio) (dropWhile (\<lambda>x. prio \<le> fst x) q) = []"
    using by_prio_drop[OF assms, of _ prio] by (auto simp: filter_empty_conv)
  moreover have "filter (\<lambda>x. fst x = c) (takeWhile (\<lambda>x. prio \<le> fst x) q) @ filter (\<lambda>x. fst x = c) (dropWhile (\<lambda>x. prio \<le> fst x) q)
      = filter (\<lambda>x. fst x = c) q"
    by (simp flip: filter_append)
  ultimately show ?thesis by (cases "c = prio") (simp_all add: mq_insert_def)
qed

definition mq_left :: "mqs_pc \<Rightarrow> mqmsg list" where
  "mq_left pc = (case pc of MS_For i \<Rightarrow> map (Pair 4) (drop i (butlast mq_s)) @ [(5, last mq_s)] | MS_Out \<Rightarrow> [])"

definition mq_inv :: "mqs \<Rightarrow> bool" where
  "mq_inv s \<longleftrightarrow> (\<forall>c. filter (\<lambda>x. fst x = c) (mq_got s @ msg_texts (mq_l s @ mq_left (mq_snd s))) =
       filter (\<lambda>x. fst x = c) (msg_texts (mq_left (MS_For 0))))
     \<and> by_prio (mq_l s) \<and> short_texts 8 (mq_l s) \<and> mq_rcv s = MR_Recv \<and> (\<forall>i. mq_snd s = MS_For i \<longrightarrow> i \<le> 4)"

definition mq_weight :: "mqs \<Rightarrow> nat" where
  "mq_weight s = length (mq_l s) + (case mq_snd s of MS_For i \<Rightarrow> 2 * (5 - i) | MS_Out \<Rightarrow> 0)"

lemma mq_left_out [simp]: "mq_left MS_Out = []"
  by (simp add: mq_left_def)

lemma filter_texts: "filter (\<lambda>x. fst x = c) (msg_texts q) = msg_texts (filter (\<lambda>x. fst x = c) q)"
  by (induction q) (auto simp: msg_texts_def)

lemma mq_insert_short: "short_texts k (mq_insert prio m q) \<longleftrightarrow> 0 \<in> set m \<and> length m \<le> k \<and> short_texts k q"
proof -
  have "set (mq_insert prio m q) = insert (prio, m) (set q)"
    unfolding mq_insert_def using takeWhile_dropWhile_id[of "\<lambda>x. prio \<le> fst x" q]
    by (metis Un_insert_right list.simps(15) set_append)
  then show ?thesis by (auto simp: short_texts_def)
qed

lemma mq_insert_length [simp]: "length (mq_insert prio m q) = length q + 1"
  unfolding mq_insert_def using takeWhile_dropWhile_id[of "\<lambda>x. prio \<le> fst x" q]
  by (metis add_Suc_right length_Cons length_append Suc_eq_plus1)

lemma mq_s_short: "m \<in> set mq_s \<Longrightarrow> 0 \<in> set m \<and> length m \<le> 8"
  by (auto simp: mq_s_def mq_text_def lit_def)

lemma mq_s_length [simp]: "length mq_s = 5"
  by (simp add: mq_s_def)

text \<open>A send moves the first message that is left into the queue.\<close>

lemma mq_sender_cases:
  assumes inv: "mq_inv s" and "mq_sender maxmsg s = Step s'"
  obtains prio m pc where "mq_left (mq_snd s) = (prio, m) # mq_left pc" "m \<in> set mq_s"
    "s' = s\<lparr>mq_l := mq_insert prio m (mq_l s), mq_snd := pc\<rparr>" "\<And>i. pc = MS_For i \<Longrightarrow> i \<le> 4 \<and> mq_snd s = MS_For (i - 1) \<and> 0 < i"
    "mq_snd s \<noteq> MS_Out"
proof (cases "mq_snd s")
  case (MS_For i)
  have i: "i \<le> 4" using inv MS_For by (simp add: mq_inv_def)
  have full: "\<not> maxmsg \<le> length (mq_l s)" using assms(2) MS_For by (auto simp: mq_sender_def)
  show ?thesis
  proof (cases "i < 4")
    case True
    have "mq_left (MS_For i) = (4, mq_s ! i) # mq_left (MS_For (i + 1))"
      using True by (simp add: mq_left_def Cons_nth_drop_Suc[symmetric] nth_butlast)
    then show ?thesis using that[of 4 "mq_s ! i" "MS_For (i + 1)"] assms(2) MS_For True full by (simp add: mq_sender_def)
  next
    case False
    then have "i = 4" using i by simp
    moreover have "mq_left (MS_For 4) = (5, mq_s ! 4) # mq_left MS_Out"
      by (simp add: mq_left_def last_conv_nth mq_s_def)
    ultimately show ?thesis using that[of 5 "mq_s ! 4" MS_Out] assms(2) MS_For full by (simp add: mq_sender_def)
  qed
next
  case MS_Out
  then show ?thesis using assms by (simp add: mq_sender_def)
qed

lemma mq_receiver_step:
  assumes "mq_inv s" and "mq_l s = (prio, m) # q"
  shows "mq_receiver s = Step (s\<lparr>mq_l := q, mq_rbuf := store m (mq_rbuf s), mq_got := mq_got s @ [(prio, cstr m)]\<rparr>)"
proof -
  have "0 \<in> set m" "mq_rcv s = MR_Recv" using assms by (auto simp: mq_inv_def)
  moreover from this have "m \<noteq> []" by auto
  ultimately show ?thesis using assms(2) by (simp add: mq_receiver_def fmt_s_store)
qed

lemma mq_send_inv:
  assumes inv: "mq_inv s" and l: "mq_left (mq_snd s) = (prio, m) # mq_left pc" and m: "m \<in> set mq_s"
    and pc: "\<And>i. pc = MS_For i \<Longrightarrow> i \<le> 4"
  shows "mq_inv (s\<lparr>mq_l := mq_insert prio m (mq_l s), mq_snd := pc\<rparr>)"
proof -
  have "by_prio (mq_l s)" using inv by (simp add: mq_inv_def)
  note f = mq_insert_filter[OF this] and b = by_prio_insert[OF this]
  have "filter (\<lambda>x. fst x = c) (msg_texts (mq_insert prio m (mq_l s) @ mq_left pc)) =
      filter (\<lambda>x. fst x = c) (msg_texts (mq_l s @ mq_left (mq_snd s)))" for c
    unfolding filter_texts filter_append f l by simp
  then show ?thesis using inv b mq_s_short[OF m] pc by (simp add: mq_inv_def mq_insert_short)
qed

lemma mq_step_inv:
  assumes inv: "mq_inv s" and st: "mq_prog maxmsg t s = Step s'"
  shows "mq_inv s'"
proof (cases t)
  case MSend
  then have "mq_sender maxmsg s = Step s'" using st by (simp add: mq_prog_def)
  with inv obtain prio m pc where c: "mq_left (mq_snd s) = (prio, m) # mq_left pc" "m \<in> set mq_s"
    "s' = s\<lparr>mq_l := mq_insert prio m (mq_l s), mq_snd := pc\<rparr>" "\<And>i. pc = MS_For i \<Longrightarrow> i \<le> 4"
    by (metis mq_sender_cases)
  show ?thesis unfolding c(3) by (rule mq_send_inv[OF inv c(1,2,4)])
next
  case MRecv
  show ?thesis
  proof (cases "mq_l s")
    case Nil
    then show ?thesis using st MRecv inv by (simp add: mq_prog_def mq_receiver_def mq_inv_def)
  next
    case (Cons m q)
    obtain prio bs where "m = (prio, bs)" by (cases m)
    then have q: "mq_l s = (prio, bs) # q" using Cons by simp
    then have "s' = s\<lparr>mq_l := q, mq_rbuf := store bs (mq_rbuf s), mq_got := mq_got s @ [(prio, cstr bs)]\<rparr>"
      using st MRecv mq_receiver_step[OF inv q] by (simp add: mq_prog_def)
    then show ?thesis using inv q by (simp add: mq_inv_def by_prio_def)
  qed
qed

lemma mq_weight_step:
  assumes inv: "mq_inv s" and st: "mq_prog maxmsg t s = Step s'"
  shows "mq_weight s' < mq_weight s"
proof (cases t)
  case MSend
  then have "mq_sender maxmsg s = Step s'" using st by (simp add: mq_prog_def)
  with inv obtain prio m pc where c: "s' = s\<lparr>mq_l := mq_insert prio m (mq_l s), mq_snd := pc\<rparr>"
    "\<And>i. pc = MS_For i \<Longrightarrow> i \<le> 4 \<and> mq_snd s = MS_For (i - 1) \<and> 0 < i" "mq_snd s \<noteq> MS_Out"
    by (metis mq_sender_cases)
  have "\<And>i. mq_snd s = MS_For i \<Longrightarrow> i \<le> 4" using inv by (simp add: mq_inv_def)
  then show ?thesis using c by (cases pc; cases "mq_snd s") (auto simp: mq_weight_def)
next
  case MRecv
  show ?thesis
  proof (cases "mq_l s")
    case Nil
    then show ?thesis using st MRecv inv by (simp add: mq_prog_def mq_receiver_def mq_inv_def)
  next
    case (Cons m q)
    obtain prio bs where "m = (prio, bs)" by (cases m)
    then have q: "mq_l s = (prio, bs) # q" using Cons by simp
    then show ?thesis using st MRecv mq_receiver_step[OF inv q] by (auto simp: mq_prog_def mq_weight_def)
  qed
qed

lemma mq_stuck:
  assumes inv: "mq_inv s" and st: "stuck (mq_prog (Suc extra)) s"
  shows "mq_l s = []" and "mq_snd s = MS_Out"
proof -
  have n: "\<forall>s'. mq_sender (Suc extra) s \<noteq> Step s'" "\<forall>s'. mq_receiver s \<noteq> Step s'"
    using st by (auto simp: stuck_def mq_prog_def dest: spec[of _ MSend] spec[of _ MRecv])
  show q: "mq_l s = []" using n(2) mq_receiver_step[OF inv] by (cases "mq_l s") force+
  show "mq_snd s = MS_Out"
    using n(1) q by (cases "mq_snd s") (auto simp: mq_sender_def split: if_splits)
qed

interpretation mq: channel_program "mq_prog (Suc extra)" mq_init mq_inv mq_weight
  "\<lambda>c x. fst x = c" mq_got "\<lambda>s. msg_texts (mq_l s)" "\<lambda>s. msg_texts (mq_left (mq_snd s))" "msg_texts (mq_left (MS_For 0))" for extra
proof unfold_locales
  show "mq_inv mq_init" by (simp add: mq_inv_def mq_init_def by_prio_def)
qed (simp_all add: mq_step_inv mq_weight_step mq_stuck, simp add: mq_inv_def)

lemma mq_total:
  "msg_texts (mq_left (MS_For 0)) = [(4, lit ''1hello''), (4, lit ''2world''), (4, lit ''3linux''), (4, lit ''4test''), (5, lit ''5uplook'')]"
  by (simp add: mq_left_def mq_s_def mq_text_def lit_def cstr_def)

lemma mq_delivers:
  assumes "reach (mq_prog (Suc extra)) mq_init s"
  shows "prefix (filter (\<lambda>x. fst x = 4) (mq_got s)) [(4, lit ''1hello''), (4, lit ''2world''), (4, lit ''3linux''), (4, lit ''4test'')]"
    and "prefix (filter (\<lambda>x. fst x = 5) (mq_got s)) [(5, lit ''5uplook'')]"
    and "stuck (mq_prog (Suc extra)) s \<Longrightarrow> length (mq_got s) = 5 \<and> mq_rcv s = MR_Recv"
proof -
  note r = mq.received_prefix[OF assms] mq.all_received[OF assms]
  show "prefix (filter (\<lambda>x. fst x = 4) (mq_got s)) [(4, lit ''1hello''), (4, lit ''2world''), (4, lit ''3linux''), (4, lit ''4test'')]"
    using r(1)[of 4] by (simp add: mq_total)
  show "prefix (filter (\<lambda>x. fst x = 5) (mq_got s)) [(5, lit ''5uplook'')]"
    using r(1)[of 5] by (simp add: mq_total)
  assume st: "stuck (mq_prog (Suc extra)) s"
  have "x \<in> set (mq_got s) \<Longrightarrow> fst x \<in> {4, 5}" for x
  proof -
    assume "x \<in> set (mq_got s)"
    then have "x \<in> set (filter (\<lambda>y. fst y = fst x) (mq_got s))" by simp
    then have "x \<in> set (filter (\<lambda>y. fst y = fst x) (msg_texts (mq_left (MS_For 0))))" unfolding r(2)[OF st] .
    then show ?thesis by (cases "fst x = 4"; cases "fst x = 5") (auto simp: mq_total)
  qed
  then have "filter (\<lambda>x. fst x \<noteq> 4) (mq_got s) = filter (\<lambda>x. fst x = 5) (mq_got s)"
    by (intro filter_cong) auto
  then have "length (mq_got s) = length (filter (\<lambda>x. fst x = 4) (mq_got s)) + length (filter (\<lambda>x. fst x = 5) (mq_got s))"
    using sum_length_filter_compl[of "\<lambda>x. fst x = 4" "mq_got s"] by simp
  then show "length (mq_got s) = 5 \<and> mq_rcv s = MR_Recv"
    using r(2)[OF st] mq.reach_inv[OF assms] by (simp add: mq_total mq_inv_def)
qed

text \<open>When all is sent before the receiver starts, the last message comes first.\<close>

lemma mq_s_nth: "mq_s ! 0 = mq_text ''1hello''" "mq_s ! Suc 0 = mq_text ''2world''" "mq_s ! Suc (Suc 0) = mq_text ''3linux''"
  "mq_s ! Suc (Suc (Suc 0)) = mq_text ''4test''" "mq_s ! Suc (Suc (Suc (Suc 0))) = mq_text ''5uplook''"
  by (simp_all add: mq_s_def)

lemma mq_text_fmt:
  assumes "0 \<notin> set (lit str)" and "length str < 8"
  shows "fmt_s (store (mq_text str) buf) = Some (lit str)" and "mq_text str \<noteq> []"
proof -
  have "mq_text str = lit str @ 0 # replicate (7 - length str) 0"
    using assms(2) by (simp add: mq_text_def replicate_Suc[symmetric] del: replicate_Suc)
  then show "fmt_s (store (mq_text str) buf) = Some (lit str)" "mq_text str \<noteq> []"
    using assms(1) by (simp_all add: fmt_s_store cstr_append)
qed

lemma mq_sent_first:
  "map_option mq_got (run (mq_prog 10) [MSend, MSend, MSend, MSend, MSend, MRecv, MRecv, MRecv, MRecv, MRecv] mq_init) =
     Some [(5, lit ''5uplook''), (4, lit ''1hello''), (4, lit ''2world''), (4, lit ''3linux''), (4, lit ''4test'')]"
proof -
  have z: "0 \<notin> set (lit ''1hello'')" "0 \<notin> set (lit ''2world'')" "0 \<notin> set (lit ''3linux'')" "0 \<notin> set (lit ''4test'')"
    "0 \<notin> set (lit ''5uplook'')" by (simp_all add: lit_def)
  show ?thesis
    by (simp add: mq_prog_def mq_sender_def mq_receiver_def mq_init_def mq_insert_def mq_s_nth mq_text_fmt z Let_def)
qed

end
