(* ===== verification/NamedSem.thy ===== *)
theory NamedSem
  imports Threads
begin

section \<open>A semaphore with a name (02Semaphore/02Posix: sem_wait.c, sem_post.c)\<close>

text \<open>
  \<open>sem_open\<close> takes the semaphore that the name \<open>/uplooking\<close> has, or makes a new one with the value 0. \<open>sem_unlink\<close>
  takes the name away; the processes that have the old semaphore open keep it. Any number of processes run the two
  programs. \<open>ns_posted\<close> and \<open>ns_passed\<close> count, for each semaphore that was made, the calls of \<open>sem_post\<close> and the
  calls of \<open>sem_wait\<close> that returned. Errors of the calls and messages are left out.
\<close>

datatype waiter_pc = SW_Open | SW_Wait nat | SW_Close nat | SW_Unlink | SW_Out

datatype poster_pc = SP_Open | SP_Post nat | SP_Out

record nsem =
  ns_name :: "nat option"
  ns_val :: "nat list"
  ns_posted :: "nat list"
  ns_passed :: "nat list"
  ns_waiter :: "nat \<Rightarrow> waiter_pc"
  ns_poster :: "nat \<Rightarrow> poster_pc"

datatype ns_tid = Waiter nat | Poster nat

definition ns_open :: "nsem \<Rightarrow> nat \<times> nsem" where
  "ns_open s = (case ns_name s of
     Some i \<Rightarrow> (i, s)
   | None \<Rightarrow> let i = length (ns_val s) in
       (i, s\<lparr>ns_name := Some i, ns_val := ns_val s @ [0], ns_posted := ns_posted s @ [0], ns_passed := ns_passed s @ [0]\<rparr>))"

definition sem_waiter :: "nat \<Rightarrow> nsem \<Rightarrow> nsem turn" where
  "sem_waiter p s = (case ns_waiter s p of
     SW_Open \<Rightarrow> let (i, s) = ns_open s in Step (s\<lparr>ns_waiter := (ns_waiter s)(p := SW_Wait i)\<rparr>)
   | SW_Wait i \<Rightarrow>
       (if ns_val s ! i = 0 then Waits
        else Step (s\<lparr>ns_val := (ns_val s)[i := ns_val s ! i - 1], ns_passed := (ns_passed s)[i := ns_passed s ! i + 1],
          ns_waiter := (ns_waiter s)(p := SW_Close i)\<rparr>))
   | SW_Close i \<Rightarrow> Step (s\<lparr>ns_waiter := (ns_waiter s)(p := SW_Unlink)\<rparr>)
   | SW_Unlink \<Rightarrow> Step (s\<lparr>ns_name := None, ns_waiter := (ns_waiter s)(p := SW_Out)\<rparr>)
   | SW_Out \<Rightarrow> Ends)"

definition sem_poster :: "nat \<Rightarrow> nsem \<Rightarrow> nsem turn" where
  "sem_poster p s = (case ns_poster s p of
     SP_Open \<Rightarrow> let (i, s) = ns_open s in Step (s\<lparr>ns_poster := (ns_poster s)(p := SP_Post i)\<rparr>)
   | SP_Post i \<Rightarrow> Step (s\<lparr>ns_val := (ns_val s)[i := ns_val s ! i + 1], ns_posted := (ns_posted s)[i := ns_posted s ! i + 1],
       ns_poster := (ns_poster s)(p := SP_Out)\<rparr>)
   | SP_Out \<Rightarrow> Ends)"

definition ns_prog :: "(ns_tid, nsem) program" where
  "ns_prog t s = (case t of Waiter p \<Rightarrow> sem_waiter p s | Poster p \<Rightarrow> sem_poster p s)"

definition ns_init :: nsem where
  "ns_init = \<lparr>ns_name = None, ns_val = [], ns_posted = [], ns_passed = [], ns_waiter = \<lambda>_. SW_Open, ns_poster = \<lambda>_. SP_Open\<rparr>"

subsection \<open>No waiter gets past a semaphore without a post\<close>

definition ns_inv :: "nsem \<Rightarrow> bool" where
  "ns_inv s \<longleftrightarrow> length (ns_posted s) = length (ns_val s) \<and> length (ns_passed s) = length (ns_val s)
     \<and> (\<forall>i < length (ns_val s). ns_posted s ! i = ns_passed s ! i + ns_val s ! i)
     \<and> (\<forall>i. ns_name s = Some i \<longrightarrow> i < length (ns_val s))
     \<and> (\<forall>p i. ns_waiter s p = SW_Wait i \<longrightarrow> i < length (ns_val s))
     \<and> (\<forall>p i. ns_poster s p = SP_Post i \<longrightarrow> i < length (ns_val s))"

lemma ns_open_inv:
  assumes "ns_inv s" and "ns_open s = (i, s1)"
  shows "ns_inv s1" and "i < length (ns_val s1)" and "ns_waiter s1 = ns_waiter s" and "ns_poster s1 = ns_poster s"
    and "ns_name s1 = Some i"
  using assms by (auto simp: ns_open_def ns_inv_def Let_def nth_append less_Suc_eq split: option.splits)

lemma ns_step_inv:
  assumes inv: "ns_inv s" and st: "ns_prog t s = Step s'"
  shows "ns_inv s'"
proof (cases t)
  case (Waiter p)
  obtain i s1 where o: "ns_open s = (i, s1)" by (cases "ns_open s")
  note o' = ns_open_inv[OF inv o]
  show ?thesis
  proof (cases "ns_waiter s p")
    case SW_Open
    then have "s' = s1\<lparr>ns_waiter := (ns_waiter s1)(p := SW_Wait i)\<rparr>" using st Waiter o by (simp add: ns_prog_def sem_waiter_def)
    then show ?thesis using o'(1,2) by (simp add: ns_inv_def)
  next
    case (SW_Wait j)
    then show ?thesis using st Waiter inv by (auto simp: ns_prog_def sem_waiter_def ns_inv_def nth_list_update split: if_splits)
  qed (use st Waiter inv in \<open>auto simp: ns_prog_def sem_waiter_def ns_inv_def split: if_splits\<close>)
next
  case (Poster p)
  obtain i s1 where o: "ns_open s = (i, s1)" by (cases "ns_open s")
  note o' = ns_open_inv[OF inv o]
  show ?thesis
  proof (cases "ns_poster s p")
    case SP_Open
    then have "s' = s1\<lparr>ns_poster := (ns_poster s1)(p := SP_Post i)\<rparr>" using st Poster o by (simp add: ns_prog_def sem_poster_def)
    then show ?thesis using o'(1,2) by (simp add: ns_inv_def)
  qed (use st Poster inv in \<open>auto simp: ns_prog_def sem_poster_def ns_inv_def nth_list_update split: if_splits\<close>)
qed

interpretation ns: invariant_program ns_prog ns_init ns_inv
  by unfold_locales (simp add: ns_inv_def ns_init_def, erule (1) ns_step_inv)

lemma ns_passed_posted:
  assumes "reach ns_prog ns_init s" and "i < length (ns_val s)"
  shows "ns_passed s ! i + ns_val s ! i = ns_posted s ! i"
  using ns.reach_inv[OF assms(1)] assms(2) by (simp add: ns_inv_def)

subsection \<open>A waiter that nobody can reach any more\<close>

text \<open>
  A semaphore without its name gets no further posts than those of the posters that have it open: with the value 0 its
  waiters wait for ever, whatever posters start.
\<close>

definition unreachable :: "nat \<Rightarrow> nsem \<Rightarrow> bool" where
  "unreachable i s \<longleftrightarrow> ns_inv s \<and> i < length (ns_val s) \<and> ns_val s ! i = 0 \<and> ns_name s \<noteq> Some i \<and> (\<forall>p. ns_poster s p \<noteq> SP_Post i)"

lemma unreachable_open:
  assumes "unreachable i s" and "ns_open s = (j, s1)"
  shows "unreachable i s1" and "j \<noteq> i"
proof -
  note o = ns_open_inv[OF _ assms(2)]
  have "ns_val s1 ! i = 0 \<and> i < length (ns_val s1) \<and> j \<noteq> i"
    using assms by (auto simp: unreachable_def ns_open_def Let_def nth_append split: option.splits)
  then show "unreachable i s1" "j \<noteq> i" using assms(1) o by (auto simp: unreachable_def)
qed

lemma unreachable_step:
  assumes un: "unreachable i s" and w: "ns_waiter s p = SW_Wait i" and st: "ns_prog t s = Step s'"
  shows "unreachable i s' \<and> ns_waiter s' p = SW_Wait i"
proof -
  have inv: "ns_inv s'" using un ns_step_inv[OF _ st] by (simp add: unreachable_def)
  obtain j s1 where o: "ns_open s = (j, s1)" by (cases "ns_open s")
  note u1 = unreachable_open[OF un o]
  have s1: "ns_waiter s1 = ns_waiter s" "ns_poster s1 = ns_poster s" using ns_open_inv[OF _ o] un by (simp_all add: unreachable_def)
  show ?thesis
  proof (cases t)
    case (Waiter q)
    then have st': "sem_waiter q s = Step s'" using st by (simp add: ns_prog_def)
    show ?thesis
    proof (cases "ns_waiter s q")
      case SW_Open
      then have "s' = s1\<lparr>ns_waiter := (ns_waiter s1)(q := SW_Wait j)\<rparr>" using st' o by (simp add: sem_waiter_def)
      then show ?thesis using u1 s1 w SW_Open inv by (auto simp: unreachable_def)
    next
      case (SW_Wait k)
      then have "k \<noteq> i" "p \<noteq> q" "s' = s\<lparr>ns_val := (ns_val s)[k := ns_val s ! k - 1], ns_passed := (ns_passed s)[k := ns_passed s ! k + 1],
          ns_waiter := (ns_waiter s)(q := SW_Close k)\<rparr>"
        using st' un w by (auto simp: sem_waiter_def unreachable_def split: if_splits)
      then show ?thesis using un w inv by (simp add: unreachable_def)
    qed (use st' w un inv in \<open>auto simp: sem_waiter_def unreachable_def\<close>)
  next
    case (Poster q)
    then have st': "sem_poster q s = Step s'" using st by (simp add: ns_prog_def)
    show ?thesis
    proof (cases "ns_poster s q")
      case SP_Open
      then have "s' = s1\<lparr>ns_poster := (ns_poster s1)(q := SP_Post j)\<rparr>" using st' o by (simp add: sem_poster_def)
      then show ?thesis using u1 s1 w inv by (auto simp: unreachable_def)
    next
      case (SP_Post k)
      then have "k \<noteq> i" "s' = s\<lparr>ns_val := (ns_val s)[k := ns_val s ! k + 1], ns_posted := (ns_posted s)[k := ns_posted s ! k + 1],
          ns_poster := (ns_poster s)(q := SP_Out)\<rparr>"
        using st' un by (auto simp: sem_poster_def unreachable_def)
      then show ?thesis using un w inv by (simp add: unreachable_def)
    qed (use st' in \<open>simp add: sem_poster_def\<close>)
  qed
qed

lemma waits_for_ever:
  assumes "reach ns_prog s s'" and "unreachable i s" and "ns_waiter s p = SW_Wait i"
  shows "ns_prog (Waiter p) s' = Waits"
proof -
  from assms have "unreachable i s' \<and> ns_waiter s' p = SW_Wait i"
  proof induction
    case (reach_step s1 t s2)
    then show ?case using unreachable_step by blast
  qed simp
  then show ?thesis by (simp add: ns_prog_def sem_waiter_def unreachable_def)
qed

text \<open>
  Two waiters, then a poster: the first waiter takes the name away when it has passed, and the second is lost, although
  it waited before any post; a second poster makes a new semaphore.
\<close>

lemma second_waiter_lost:
  "\<exists>s. run ns_prog [Waiter 0, Waiter 1, Poster 0, Poster 0, Waiter 0, Waiter 0, Waiter 0] ns_init = Some s
    \<and> ns_waiter s 0 = SW_Out \<and> (\<forall>s'. reach ns_prog s s' \<longrightarrow> ns_prog (Waiter 1) s' = Waits)"
proof -
  let ?ts = "[Waiter 0, Waiter 1, Poster 0, Poster 0, Waiter 0, Waiter 0, Waiter 0]"
  obtain s where s: "run ns_prog ?ts ns_init = Some s" "ns_waiter s 0 = SW_Out" "ns_waiter s 1 = SW_Wait 0"
    "ns_val s = [0]" "ns_name s = None" "\<And>p. ns_poster s p \<noteq> SP_Post 0"
    by (simp add: ns_prog_def sem_waiter_def sem_poster_def ns_open_def ns_init_def Let_def)
  have "reach ns_prog ns_init s" unfolding reach_run using s(1) by blast
  then have "ns_inv s" by (rule ns.reach_inv)
  then have "unreachable 0 s" using s by (simp add: unreachable_def)
  then show ?thesis using s waits_for_ever by blast
qed

end
