(* ===== verification/Descriptors.thy ===== *)
theory Descriptors
  imports Posix
begin

section \<open>Programs about descriptors (02App_Devel/01File, 02Process/5daemon.c, 02Pipe/04minishell.c, 01Record_lock/fcntl.c)\<close>

text \<open>
  A descriptor of a process names an open file of the system, which has the position and the append flag; \<open>dup\<close> and
  \<open>dup2\<close> give it a second descriptor. Files are their bytes by name; \<open>allowed\<close> says which names can be opened at all.
  The terminal keeps what is written to it. Results of \<open>read\<close> and \<open>write\<close> that the programs do not look at are left
  out, and so are the pauses.
\<close>

datatype target = File string | Tty | Null | PipeR | PipeW

record ofile =
  o_tgt :: target
  o_pos :: nat
  o_app :: bool

record posix =
  fdt :: "nat option list"
  ofiles :: "ofile list"
  disk :: "string \<Rightarrow> cuchar list option"
  term_out :: "cuchar list"
  allowed :: "string \<Rightarrow> bool"
  cwd :: string
  umask :: nat

datatype open_result = Opened nat | Eexist | Failed

definition fd_get :: "nat \<Rightarrow> nat option list \<Rightarrow> nat option" where
  "fd_get fd t = (if fd < length t then t ! fd else None)"

definition fd_set :: "nat \<Rightarrow> nat option \<Rightarrow> nat option list \<Rightarrow> nat option list" where
  "fd_set fd v t = (if fd < length t then t[fd := v] else t @ replicate (fd - length t) None @ [v])"

definition fd_lowest :: "nat option list \<Rightarrow> nat" where
  "fd_lowest t = length (takeWhile (\<lambda>x. x \<noteq> None) t)"

definition fd_new :: "target \<Rightarrow> bool \<Rightarrow> posix \<Rightarrow> nat \<times> posix" where
  "fd_new tgt app s = (let fd = fd_lowest (fdt s) in
     (fd, s\<lparr>fdt := fd_set fd (Some (length (ofiles s))) (fdt s), ofiles := ofiles s @ [\<lparr>o_tgt = tgt, o_pos = 0, o_app = app\<rparr>]\<rparr>))"

text \<open>\<open>open\<close> with O_CREAT: exclusive, truncating or appending.\<close>

definition sys_open :: "string \<Rightarrow> bool \<Rightarrow> bool \<Rightarrow> bool \<Rightarrow> posix \<Rightarrow> open_result \<times> posix" where
  "sys_open name excl trunc app s =
     (if \<not> allowed s name then (Failed, s)
      else if disk s name \<noteq> None \<and> excl then (Eexist, s)
      else let s = (if disk s name = None \<or> trunc then s\<lparr>disk := (disk s)(name := Some [])\<rparr> else s);
               (fd, s) = fd_new (File name) app s in
        (Opened fd, s))"

definition sys_close :: "nat \<Rightarrow> posix \<Rightarrow> posix" where
  "sys_close fd s = s\<lparr>fdt := fd_set fd None (fdt s)\<rparr>"

definition sys_dup :: "nat \<Rightarrow> posix \<Rightarrow> nat option \<times> posix" where
  "sys_dup fd s = (case fd_get fd (fdt s) of
     None \<Rightarrow> (None, s)
   | Some i \<Rightarrow> let fd' = fd_lowest (fdt s) in (Some fd', s\<lparr>fdt := fd_set fd' (Some i) (fdt s)\<rparr>))"

definition sys_dup2 :: "nat \<Rightarrow> nat \<Rightarrow> posix \<Rightarrow> posix" where
  "sys_dup2 fd fd' s = (case fd_get fd (fdt s) of None \<Rightarrow> s | Some i \<Rightarrow> s\<lparr>fdt := fd_set fd' (Some i) (fdt s)\<rparr>)"

definition put_at :: "nat \<Rightarrow> cuchar list \<Rightarrow> cuchar list \<Rightarrow> cuchar list" where
  "put_at pos bs c = take pos c @ replicate (pos - length c) 0 @ bs @ drop (pos + length bs) c"

definition sys_write :: "nat \<Rightarrow> cuchar list \<Rightarrow> posix \<Rightarrow> posix" where
  "sys_write fd bs s = (case fd_get fd (fdt s) of
     None \<Rightarrow> s
   | Some i \<Rightarrow> let f = ofiles s ! i in (case o_tgt f of
       File name \<Rightarrow> (case disk s name of
           None \<Rightarrow> s
         | Some c \<Rightarrow> let pos = (if o_app f then length c else o_pos f) in
             s\<lparr>disk := (disk s)(name := Some (put_at pos bs c)), ofiles := (ofiles s)[i := f\<lparr>o_pos := pos + length bs\<rparr>]\<rparr>)
     | Tty \<Rightarrow> s\<lparr>term_out := term_out s @ bs\<rparr>
     | _ \<Rightarrow> s))"

text \<open>What a descriptor is about, and the process as the shell starts it.\<close>

definition goes_to :: "posix \<Rightarrow> nat \<Rightarrow> target option" where
  "goes_to s fd = map_option (\<lambda>i. o_tgt (ofiles s ! i)) (fd_get fd (fdt s))"

definition start_proc :: "(string \<Rightarrow> cuchar list option) \<Rightarrow> (string \<Rightarrow> bool) \<Rightarrow> posix" where
  "start_proc d ok = \<lparr>fdt = [Some 0, Some 0, Some 0], ofiles = [\<lparr>o_tgt = Tty, o_pos = 0, o_app = False\<rparr>], disk = d, term_out = [], allowed = ok,
     cwd = ''~'', umask = 18\<rparr>"

abbreviation nl_byte :: "cuchar list" where "nl_byte \<equiv> [10]"

subsection \<open>dup.c and dup2.c\<close>

definition dup_main :: "posix \<Rightarrow> int \<times> posix" where
  "dup_main s = (let s = sys_write 2 (lit ''this is from stderr'' @ nl_byte) s; (r, s) = sys_dup 2 s in
     case r of
       None \<Rightarrow> (-1, sys_write 2 (lit ''dup: Bad file descriptor'' @ nl_byte) s)
     | Some fd \<Rightarrow>
         let buf = take 98 (lit ''this is dup file descriptor: '' @ dec fd @ nl_byte) in
         (0, sys_close fd (sys_write fd (buf @ [0]) s)))"

definition dup2_main :: "posix \<Rightarrow> int \<times> posix" where
  "dup2_main s = (case sys_open ''1.txt'' True False False s of
       (Opened fd, s) \<Rightarrow>
         let s = sys_write 2 (lit ''1.This is from stderr'' @ nl_byte) s;
             s = sys_dup2 fd 2 s;
             s = sys_write 2 (lit ''2.This is from stderr'' @ nl_byte) s in
         (0, sys_close fd s)
     | (r, s) \<Rightarrow> (-1, sys_write 2 (lit (if r = Eexist then ''fd: File exists'' else ''fd: Permission denied'') @ nl_byte) s))"

lemmas fd_simps = fd_get_def fd_set_def fd_lowest_def fd_new_def sys_open_def sys_close_def sys_dup_def sys_dup2_def
  sys_write_def put_at_def start_proc_def Let_def

lemma dup_ends: "\<exists>s'. dup_main (start_proc d ok) = (0, s') \<and> fdt s' = [Some 0, Some 0, Some 0, None] \<and> disk s' = d
    \<and> term_out s' = lit ''this is from stderr'' @ nl_byte @ lit ''this is dup file descriptor: 3'' @ nl_byte @ [0]"
  by (simp add: dup_main_def fd_simps lit_def dec.simps)

lemma dup2_moves_stderr:
  assumes "ok ''1.txt''" and "d ''1.txt'' = None"
  shows "\<exists>s'. dup2_main (start_proc d ok) = (0, s') \<and> term_out s' = lit ''1.This is from stderr'' @ nl_byte
    \<and> disk s' ''1.txt'' = Some (lit ''2.This is from stderr'' @ nl_byte) \<and> goes_to s' 2 = Some (File ''1.txt'') \<and> goes_to s' 3 = None"
  using assms by (simp add: dup2_main_def fd_simps goes_to_def)

lemma dup2_exists:
  assumes "ok ''1.txt''" and "d ''1.txt'' \<noteq> None"
  shows "\<exists>s'. dup2_main (start_proc d ok) = (-1, s') \<and> disk s' = d \<and> fdt s' = fdt (start_proc d ok)"
  using assms by (simp add: dup2_main_def fd_simps)

subsection \<open>Writing at the end of a file\<close>

definition at_end :: "nat \<Rightarrow> string \<Rightarrow> cuchar list \<Rightarrow> posix \<Rightarrow> bool" where
  "at_end fd name c s \<longleftrightarrow> (case fd_get fd (fdt s) of
     None \<Rightarrow> False
   | Some i \<Rightarrow> i < length (ofiles s) \<and> o_tgt (ofiles s ! i) = File name \<and> disk s name = Some c
       \<and> (o_app (ofiles s ! i) \<or> o_pos (ofiles s ! i) = length c))"

text \<open>What a write to one file leaves as it was.\<close>

definition other_same :: "string \<Rightarrow> posix \<Rightarrow> posix \<Rightarrow> bool" where
  "other_same name s s' \<longleftrightarrow> fdt s' = fdt s \<and> map o_tgt (ofiles s') = map o_tgt (ofiles s) \<and> term_out s' = term_out s \<and> cwd s' = cwd s
     \<and> (\<forall>n. n \<noteq> name \<longrightarrow> disk s' n = disk s n)"

lemma other_same_refl [simp]: "other_same name s s"
  by (simp add: other_same_def)

lemma other_same_trans: "other_same name s s1 \<Longrightarrow> other_same name s1 s2 \<Longrightarrow> other_same name s s2"
  by (simp add: other_same_def)

lemma write_at_end:
  assumes "at_end fd name c s"
  shows "at_end fd name (c @ bs) (sys_write fd bs s)" and "other_same name s (sys_write fd bs s)"
proof -
  obtain i where i: "fd_get fd (fdt s) = Some i" "i < length (ofiles s)" "o_tgt (ofiles s ! i) = File name"
    "disk s name = Some c" "o_app (ofiles s ! i) \<or> o_pos (ofiles s ! i) = length c"
    using assms by (auto simp: at_end_def split: option.splits)
  have pos: "(if o_app (ofiles s ! i) then length c else o_pos (ofiles s ! i)) = length c" using i(5) by auto
  have w: "sys_write fd bs s = s\<lparr>disk := (disk s)(name := Some (c @ bs)),
      ofiles := (ofiles s)[i := (ofiles s ! i)\<lparr>o_pos := length c + length bs\<rparr>]\<rparr>"
    using i(1-4) by (simp add: sys_write_def Let_def pos put_at_def)
  show "at_end fd name (c @ bs) (sys_write fd bs s)" using i by (simp add: w at_end_def)
  have "map o_tgt ((ofiles s)[i := (ofiles s ! i)\<lparr>o_pos := length c + length bs\<rparr>]) = map o_tgt (ofiles s)"
    using i(2) by (simp add: map_update list_update_same_conv)
  then show "other_same name s (sys_write fd bs s)" by (simp add: w other_same_def)
qed

fun write_all :: "nat \<Rightarrow> cuchar list list \<Rightarrow> posix \<Rightarrow> posix" where
  "write_all fd [] s = s"
| "write_all fd (bs # bss) s = write_all fd bss (sys_write fd bs s)"

lemma write_all_at_end:
  "at_end fd name c s \<Longrightarrow> at_end fd name (c @ concat bss) (write_all fd bss s) \<and> other_same name s (write_all fd bss s)"
proof (induction bss arbitrary: c s)
  case (Cons bs bss)
  show ?case
    using Cons.IH[OF write_at_end(1)[OF Cons.prems]] write_at_end(2)[OF Cons.prems] other_same_trans by force
qed simp

lemma at_end_disk: "at_end fd name c s \<Longrightarrow> disk s name = Some c"
  by (simp add: at_end_def split: option.splits)

lemma at_end_dup2:
  assumes "at_end fd name c s"
  shows "at_end fd' name c (sys_dup2 fd fd' s)"
  using assms by (auto simp: at_end_def sys_dup2_def fd_get_def fd_set_def nth_append split: option.splits if_splits)

subsection \<open>io_file.c and libc_file.c\<close>

text \<open>\<open>ts\<close> are the texts of \<open>ctime\<close>, one for each turn of the loop. Each is written with its terminating zero.\<close>

definition IO_BUF :: nat where "IO_BUF = 4096"

definition io_main :: "string \<Rightarrow> cuchar list list \<Rightarrow> posix \<Rightarrow> int \<times> posix" where
  "io_main name ts s = (
     let run = (\<lambda>fd s. (0, sys_close fd (write_all fd (map (\<lambda>t. take (IO_BUF - 2) t @ [0]) (take 5 ts)) s))) in
     case sys_open name True False False s of
       (Opened fd, s) \<Rightarrow> run fd s
     | (Eexist, s) \<Rightarrow> let s = sys_write 2 (lit ''open: File exists'' @ nl_byte) s in (case sys_open name False True False s of
           (Opened fd, s) \<Rightarrow> run fd s
         | (_, s) \<Rightarrow> (0, s))
     | (Failed, s) \<Rightarrow> (-1, sys_write 2 (lit ''open: Permission denied'' @ nl_byte) s))"

text \<open>\<open>fread\<close> from position 100 on, in blocks; \<open>argc\<close> below two aborts the program.\<close>

function libc_blocks :: "cuchar list \<Rightarrow> cuchar list list" where
  "libc_blocks bs = (if take IO_BUF bs = [] then [] else take IO_BUF bs # libc_blocks (drop IO_BUF bs))"
  by auto
termination by (relation "measure length") (auto simp: IO_BUF_def)

declare libc_blocks.simps [simp del]

definition libc_main :: "string list \<Rightarrow> posix \<Rightarrow> (int \<times> posix) option" where
  "libc_main argv s = (case argv of
     _ # name # _ \<Rightarrow> (case disk s name of
         Some c \<Rightarrow> if allowed s name then Some (0, write_all 1 (libc_blocks (drop 100 c)) s)
           else Some (-1, sys_write 2 (lit ''fopen failed: Permission denied'' @ nl_byte) s)
       | None \<Rightarrow> Some (-1, sys_write 2 (lit ''fopen failed: No such file or directory'' @ nl_byte) s))
   | _ \<Rightarrow> None)"

lemma libc_blocks_concat: "concat (libc_blocks bs) = bs" and libc_blocks_size: "b \<in> set (libc_blocks bs) \<Longrightarrow> b \<noteq> [] \<and> length b \<le> IO_BUF"
proof (induction bs rule: libc_blocks.induct)
  case (1 bs)
  { case 1
    have "drop IO_BUF bs = bs" if "take IO_BUF bs = []" using that by (auto simp: IO_BUF_def)
    then show ?case using "1.IH"(1) by (subst libc_blocks.simps) (auto simp: IO_BUF_def)
  next
    case 2
    then show ?case using "1.IH"(2) by (subst (asm) libc_blocks.simps) (auto split: if_splits) }
qed

text \<open>The terminal gets what is written, block by block.\<close>

lemma write_all_tty: "goes_to s fd = Some Tty \<Longrightarrow> write_all fd bss s = s\<lparr>term_out := term_out s @ concat bss\<rparr>"
proof (induction bss arbitrary: s)
  case (Cons bs bss)
  have w: "sys_write fd bs s = s\<lparr>term_out := term_out s @ bs\<rparr>"
    using Cons.prems by (auto simp: goes_to_def sys_write_def Let_def)
  moreover have "goes_to (s\<lparr>term_out := term_out s @ bs\<rparr>) fd = Some Tty" using Cons.prems by (simp add: goes_to_def)
  ultimately show ?case using Cons.IH by simp
qed simp

lemma libc_prints:
  assumes "disk s name = Some c" and "allowed s name" and "goes_to s 1 = Some Tty"
  shows "libc_main (prog # name # rest) s = Some (0, s\<lparr>term_out := term_out s @ drop 100 c\<rparr>)"
  using assms by (simp add: libc_main_def write_all_tty libc_blocks_concat)

text \<open>Whether or not the file was there, it holds the five times at the end, and nothing else.\<close>

lemma io_file_contents:
  assumes "ok name" and "length ts = 5" and "\<And>t. t \<in> set ts \<Longrightarrow> length t \<le> IO_BUF - 2"
  shows "\<exists>s'. io_main name ts (start_proc d ok) = (0, s') \<and> disk s' name = Some (concat (map (\<lambda>t. t @ [0]) ts))
    \<and> (\<forall>n. n \<noteq> name \<longrightarrow> disk s' n = d n) \<and> goes_to s' 3 = None"
proof -
  let ?bss = "map (\<lambda>t. take (IO_BUF - 2) t @ [0]) (take 5 ts)"
  have bss: "?bss = map (\<lambda>t. t @ [0]) ts" using assms(2,3) by simp
  let ?s = "(start_proc d ok)\<lparr>fdt := [Some 0, Some 0, Some 0, Some 1], ofiles := ofiles (start_proc d ok) @ [\<lparr>o_tgt = File name, o_pos = 0, o_app = False\<rparr>],
    disk := d(name := Some []), term_out := (if d name = None then [] else lit ''open: File exists'' @ nl_byte)\<rparr>"
  have e: "at_end 3 name [] ?s" by (simp add: at_end_def fd_get_def start_proc_def)
  have m: "io_main name ts (start_proc d ok) = (0, sys_close 3 (write_all 3 ?bss ?s))"
    using assms(1) by (cases "d name") (simp_all add: io_main_def fd_simps numeral_3_eq_3)
  note w = write_all_at_end[OF e, of "map (\<lambda>t. t @ [0]) ts"]
  have "disk (write_all 3 ?bss ?s) name = Some (concat (map (\<lambda>t. t @ [0]) ts))"
    using at_end_disk[of 3 name _ "write_all 3 ?bss ?s"] w unfolding bss by simp
  moreover have "n \<noteq> name \<Longrightarrow> disk (write_all 3 ?bss ?s) n = d n" for n using w unfolding bss by (simp add: other_same_def)
  moreover have "fdt (write_all 3 ?bss ?s) = [Some 0, Some 0, Some 0, Some 1]" using w unfolding bss by (simp add: other_same_def start_proc_def)
  ultimately show ?thesis unfolding m by (simp add: sys_close_def goes_to_def fd_get_def fd_set_def)
qed

subsection \<open>Standard output at the end of a file (01Record_lock/fcntl.c)\<close>

definition sys_append :: "nat \<Rightarrow> posix \<Rightarrow> posix" where
  "sys_append fd s = (case fd_get fd (fdt s) of
     None \<Rightarrow> s
   | Some i \<Rightarrow> s\<lparr>ofiles := (ofiles s)[i := (ofiles s ! i)\<lparr>o_app := True\<rparr>]\<rparr>)"

text \<open>The loop \<open>while (--n)\<close> from 10; \<open>ts\<close> are the texts of the clock, which end in a newline.\<close>

definition append_main :: "nat \<Rightarrow> cuchar list list \<Rightarrow> posix \<Rightarrow> int \<times> posix" where
  "append_main pid ts s = (case sys_open ''1.txt'' False False False s of
       (Opened fd, s) \<Rightarrow>
         let s = sys_append fd s; s = sys_dup2 fd 1 s;
             s = write_all 1 (map (\<lambda>t. lit ''pid:'' @ dec pid @ lit '':'' @ t) (take 9 ts)) s in
         (0, sys_close fd s)
     | (_, s) \<Rightarrow> (-1, sys_write 2 (lit ''open: Permission denied'' @ nl_byte) s))"

lemma append_main_appends:
  assumes "ok ''1.txt''" and "length ts = 9"
  shows "\<exists>s'. append_main pid ts (start_proc d ok) = (0, s') \<and> term_out s' = []
    \<and> disk s' ''1.txt'' = Some ((case d ''1.txt'' of None \<Rightarrow> [] | Some c \<Rightarrow> c) @ concat (map (\<lambda>t. lit ''pid:'' @ dec pid @ lit '':'' @ t) ts))"
proof -
  let ?c = "case d ''1.txt'' of None \<Rightarrow> [] | Some c \<Rightarrow> c" and ?ls = "map (\<lambda>t. lit ''pid:'' @ dec pid @ lit '':'' @ t) ts"
  let ?s = "(start_proc d ok)\<lparr>fdt := [Some 0, Some 1, Some 0, Some 1],
    ofiles := ofiles (start_proc d ok) @ [\<lparr>o_tgt = File ''1.txt'', o_pos = 0, o_app = True\<rparr>], disk := d(''1.txt'' := Some ?c)\<rparr>"
  have e: "at_end 1 ''1.txt'' ?c ?s" by (simp add: at_end_def fd_get_def start_proc_def)
  have "d ''1.txt'' = Some c \<Longrightarrow> d(''1.txt'' \<mapsto> c) = d" for c by (simp add: fun_eq_iff)
  then have m: "append_main pid ts (start_proc d ok) = (0, sys_close 3 (write_all 1 ?ls ?s))"
    using assms by (cases "d ''1.txt''") (simp_all add: append_main_def fd_simps sys_append_def numeral_3_eq_3)
  note w = write_all_at_end[OF e, of ?ls]
  have "disk (write_all 1 ?ls ?s) ''1.txt'' = Some (?c @ concat ?ls)" using w by (intro at_end_disk[of 1]) simp
  moreover have "term_out (write_all 1 ?ls ?s) = []" using w by (simp add: other_same_def start_proc_def)
  ultimately show ?thesis unfolding m by (simp add: sys_close_def)
qed

subsection \<open>The daemon (5daemon.c)\<close>

text \<open>
  \<open>forked\<close> is the result of \<open>fork\<close> and \<open>session_ok\<close> whether \<open>setsid\<close> succeeds. The line that nobody sees goes to
  descriptor 1 at the end of the process at the latest.
\<close>

definition sys_open_null :: "posix \<Rightarrow> nat option \<times> posix" where
  "sys_open_null s = (if allowed s ''/dev/null'' then let (fd, s) = fd_new Null False s in (Some fd, s) else (None, s))"

definition Daemon :: "bool \<Rightarrow> bool \<Rightarrow> int \<Rightarrow> bool \<Rightarrow> posix \<Rightarrow> posix outcome" where
  "Daemon nochdir noclosefd forked session_ok s =
     (if forked = -1 then Exits (-1)
      else if forked \<noteq> 0 then Exits 0
      else if \<not> session_ok then Exits (-1)
      else let s = s\<lparr>umask := 0\<rparr>;
               s = (if \<not> nochdir then s\<lparr>cwd := ''/''\<rparr> else s);
               (fd, s) = sys_open_null s in
        Returns (case fd of
            None \<Rightarrow> sys_write 1 (lit ''never see me'' @ nl_byte) s
          | Some fd \<Rightarrow> sys_write 1 (lit ''never see me'' @ nl_byte) (sys_dup2 fd 2 (sys_dup2 fd 1 (sys_dup2 fd 0 s)))))"

definition daemon_log :: "nat \<Rightarrow> string" where
  "daemon_log pid = ''/tmp/daemon_'' @ map (\<lambda>b. char_of (unat b)) (dec pid) @ ''.log''"

text \<open>The process that runs on has the number \<open>cpid\<close>. A log that cannot be opened is a null pointer in \<open>fprintf\<close>.\<close>

definition daemon_main :: "nat \<Rightarrow> nat \<Rightarrow> int \<Rightarrow> bool \<Rightarrow> posix \<Rightarrow> posix outcome option" where
  "daemon_main pid cpid forked session_ok s = (
     let (r, s) = sys_open (daemon_log pid) False False True s in
     case Daemon False False forked session_ok s of
       Exits n \<Rightarrow> Some (Exits n)
     | Returns s \<Rightarrow> (case r of
         Opened fd \<Rightarrow> Some (Returns (sys_close fd (write_all fd (replicate 9 (lit ''program('' @ dec cpid @ lit '') is running'' @ nl_byte)) s)))
       | _ \<Rightarrow> None))"

lemma daemon_detaches:
  assumes "ok (daemon_log pid)" and "ok ''/dev/null''"
  shows "\<exists>s'. daemon_main pid cpid 0 True (start_proc d ok) = Some (Returns s') \<and> term_out s' = []
    \<and> goes_to s' 0 = Some Null \<and> goes_to s' 1 = Some Null \<and> goes_to s' 2 = Some Null \<and> cwd s' = ''/''
    \<and> disk s' (daemon_log pid) = Some ((case d (daemon_log pid) of None \<Rightarrow> [] | Some c \<Rightarrow> c)
        @ concat (replicate 9 (lit ''program('' @ dec cpid @ lit '') is running'' @ nl_byte)))"
proof -
  let ?n = "daemon_log pid" and ?ls = "replicate 9 (lit ''program('' @ dec cpid @ lit '') is running'' @ nl_byte)"
  let ?c = "case d ?n of None \<Rightarrow> [] | Some c \<Rightarrow> c"
  let ?s = "(start_proc d ok)\<lparr>fdt := [Some 2, Some 2, Some 2, Some 1, Some 2], ofiles := ofiles (start_proc d ok) @
    [\<lparr>o_tgt = File ?n, o_pos = 0, o_app = True\<rparr>, \<lparr>o_tgt = Null, o_pos = 0, o_app = False\<rparr>], disk := d(?n := Some ?c), cwd := ''/'', umask := 0\<rparr>"
  have e: "at_end 3 ?n ?c ?s" by (simp add: at_end_def fd_get_def start_proc_def)
  have "d ?n = Some c \<Longrightarrow> d(?n \<mapsto> c) = d" for c by (simp add: fun_eq_iff)
  then have m: "daemon_main pid cpid 0 True (start_proc d ok) = Some (Returns (sys_close 3 (write_all 3 ?ls ?s)))"
    using assms by (cases "d ?n") (simp_all add: daemon_main_def Daemon_def sys_open_null_def fd_simps numeral_3_eq_3 numeral_2_eq_2)
  obtain w where w: "write_all 3 ?ls ?s = w" by blast
  have end_w: "at_end 3 ?n (?c @ concat ?ls) w" "other_same ?n ?s w"
    using write_all_at_end[OF e, of ?ls] unfolding w by simp_all
  have same: "term_out w = []" "cwd w = ''/''" "fdt w = [Some 2, Some 2, Some 2, Some 1, Some 2]"
    and tgt: "map o_tgt (ofiles w) = [Tty, File ?n, Null]"
    using end_w(2) by (simp_all add: other_same_def start_proc_def)
  have "length (ofiles w) = 3" "o_tgt (ofiles w ! 2) = Null"
    using arg_cong[OF tgt, of length] arg_cong[OF tgt, of "\<lambda>xs. xs ! 2"] by simp_all
  then show ?thesis unfolding m w using same at_end_disk[OF end_w(1)]
    by (simp add: sys_close_def fd_get_def fd_set_def goes_to_def)
qed

text \<open>If standard input is closed at the start, the log is descriptor 0, and \<open>dup2\<close> takes it away.\<close>

lemma write_all_null: "goes_to s fd = Some Null \<Longrightarrow> write_all fd bss s = s"
proof (induction bss)
  case (Cons bs bss)
  then show ?case by (auto simp: goes_to_def sys_write_def Let_def)
qed simp

lemma daemon_loses_log:
  assumes "ok (daemon_log pid)" and "ok ''/dev/null''" and "d (daemon_log pid) = Some c"
  shows "\<exists>s'. daemon_main pid cpid 0 True ((start_proc d ok)\<lparr>fdt := [None, Some 0, Some 0]\<rparr>) = Some (Returns s') \<and> disk s' = d"
proof -
  let ?s = "(start_proc d ok)\<lparr>fdt := [Some 2, Some 2, Some 2, Some 2], ofiles := ofiles (start_proc d ok) @
    [\<lparr>o_tgt = File (daemon_log pid), o_pos = 0, o_app = True\<rparr>, \<lparr>o_tgt = Null, o_pos = 0, o_app = False\<rparr>], cwd := ''/'', umask := 0\<rparr>"
  have n: "goes_to ?s 0 = Some Null" by (simp add: goes_to_def fd_get_def start_proc_def)
  have "daemon_main pid cpid 0 True ((start_proc d ok)\<lparr>fdt := [None, Some 0, Some 0]\<rparr>) = Some (Returns (sys_close 0 (write_all 0
      (replicate 9 (lit ''program('' @ dec cpid @ lit '') is running'' @ nl_byte)) ?s)))"
    using assms by (simp add: daemon_main_def Daemon_def sys_open_null_def fd_simps numeral_3_eq_3 numeral_2_eq_2)
  then show ?thesis unfolding write_all_null[OF n] by (simp add: sys_close_def start_proc_def)
qed

subsection \<open>Two programs and a pipe (02Pipe/04minishell.c)\<close>

text \<open>The process table of the child, which becomes \<open>ls\<close>, and of the parent, from which \<open>wc\<close> gets its descriptors.\<close>

definition mini_main :: "int \<Rightarrow> posix \<Rightarrow> (posix \<times> posix) outcome" where
  "mini_main forked s = (
     let (fd0, s) = fd_new PipeR False s; (fd1, s) = fd_new PipeW False s in
     if forked < 0 then Exits (-1)
     else Returns (sys_dup2 fd1 1 (sys_close fd0 s), sys_dup2 fd0 0 (sys_close fd1 s)))"

lemma mini_pipe:
  assumes "0 \<le> pid"
  shows "\<exists>c p. mini_main pid (start_proc d ok) = Returns (c, p)
    \<and> goes_to c 0 = Some Tty \<and> goes_to c 1 = Some PipeW \<and> (\<forall>fd. goes_to c fd \<noteq> Some PipeR)
    \<and> goes_to p 0 = Some PipeR \<and> goes_to p 1 = Some Tty \<and> (\<forall>fd. goes_to p fd \<noteq> Some PipeW)"
  using assms by (auto simp: mini_main_def fd_simps goes_to_def less_Suc_eq nth_Cons split: nat.splits)

end
