(* ===== verification/ForkDemos.thy ===== *)
theory ForkDemos
  imports Prelude
begin

section \<open>Processes that fork (02Process: 3fork_exec.c, 0test.c, 1fork.c)\<close>

text \<open>
  A process is named by the turns of the loops in which its ancestors and it were forked, so the child that the process
  \<open>p\<close> forks in turn \<open>c\<close> is \<open>p @ [c]\<close>. \<open>forks\<close> and \<open>execs\<close> say for which children the calls succeed.
\<close>

type_synonym proc_name = "nat list"

definition FE_NUM :: nat where "FE_NUM = 3"

text \<open>The processes that come to the end of the loop of 3fork_exec.c: a child whose \<open>execlp\<close> fails goes on in it.\<close>

function fe_loop :: "(proc_name \<Rightarrow> bool) \<Rightarrow> (proc_name \<Rightarrow> bool) \<Rightarrow> proc_name \<Rightarrow> nat \<Rightarrow> proc_name list" where
  "fe_loop forks execs p c =
     (if c < FE_NUM then
        (if \<not> forks (p @ [c]) then []
         else (if execs (p @ [c]) then [] else fe_loop forks execs (p @ [c]) (c + 1)) @ fe_loop forks execs p (c + 1))
      else [p])"
  by auto
termination by (relation "measure (\<lambda>(forks, execs, p, c). FE_NUM - c)") auto

declare fe_loop.simps [simp del]

text \<open>Those that print that all children are done.\<close>

definition fe_main :: "(proc_name \<Rightarrow> bool) \<Rightarrow> (proc_name \<Rightarrow> bool) \<Rightarrow> proc_name list" where
  "fe_main forks execs = fe_loop forks execs [] 0"

lemma fe_loop_execs:
  assumes "\<And>p. execs p" and "\<And>p. forks p"
  shows "fe_loop forks execs p c = [p]"
proof (induction "FE_NUM - c" arbitrary: c)
  case 0
  then show ?case by (subst fe_loop.simps) simp
next
  case (Suc n)
  then have "fe_loop forks execs p (Suc c) = [p]" by simp
  then show ?case using assms by (subst fe_loop.simps) simp
qed

lemma fe_loop_no_exec:
  assumes "\<And>p. \<not> execs p" and "\<And>p. forks p"
  shows "length (fe_loop forks execs p c) = 2 ^ (FE_NUM - c)"
proof (induction "FE_NUM - c" arbitrary: c p)
  case 0
  then show ?case by (subst fe_loop.simps) simp
next
  case (Suc n)
  then have "length (fe_loop forks execs q (Suc c)) = 2 ^ n" for q by simp
  moreover have "FE_NUM - c = Suc n" "c < FE_NUM" using Suc.hyps(2) by simp_all
  ultimately show ?case using assms by (subst fe_loop.simps) simp
qed

text \<open>Every process passes the end at most once, and is a descendant of the one that began.\<close>

lemma fe_loop_prefix: "q \<in> set (fe_loop forks execs p c) \<Longrightarrow> \<exists>cs. q = p @ cs \<and> (\<forall>x \<in> set cs. c \<le> x)"
proof (induction forks execs p c rule: fe_loop.induct)
  case (1 forks execs p c)
  show ?case
  proof (cases "c < FE_NUM \<and> forks (p @ [c])")
    case True
    then consider "q \<in> set (fe_loop forks execs (p @ [c]) (c + 1))" "\<not> execs (p @ [c])" | "q \<in> set (fe_loop forks execs p (c + 1))"
      using 1(3) by (subst (asm) fe_loop.simps) (auto split: if_splits)
    then show ?thesis
    proof cases
      case 1
      then show ?thesis using "1.IH"(1) True by fastforce
    next
      case 2
      then show ?thesis using "1.IH"(2) True by fastforce
    qed
  next
    case False
    then show ?thesis using 1(3) by (subst (asm) fe_loop.simps) (auto split: if_splits)
  qed
qed

lemma fe_loop_distinct: "distinct (fe_loop forks execs p c)"
proof (induction forks execs p c rule: fe_loop.induct)
  case (1 forks execs p c)
  have "set (fe_loop forks execs (p @ [c]) (c + 1)) \<inter> set (fe_loop forks execs p (c + 1)) = {}"
    using fe_loop_prefix[of _ forks execs "p @ [c]" "c + 1"] fe_loop_prefix[of _ forks execs p "c + 1"] by fastforce
  then show ?case using 1 by (subst fe_loop.simps) simp
qed

lemma fe_main_processes:
  "fe_main (\<lambda>_. True) (\<lambda>_. True) = [[]]" and "length (fe_main (\<lambda>_. True) (\<lambda>_. False)) = 8"
  "distinct (fe_main forks execs)"
  using fe_loop_execs[of "\<lambda>_. True" "\<lambda>_. True" "[]" 0] fe_loop_no_exec[of "\<lambda>_. False" "\<lambda>_. True" "[]" 0] fe_loop_distinct
  by (simp_all add: fe_main_def FE_NUM_def)

text \<open>
  0test.c: in the first loop the parent ends and the child goes on, in the second the child ends and the parent goes
  on. The result has the process that prints each of the three lines.
\<close>

fun ft_first :: "(proc_name \<Rightarrow> bool) \<Rightarrow> nat \<Rightarrow> nat \<Rightarrow> proc_name \<Rightarrow> proc_name option" where
  "ft_first forks 0 t p = Some p"
| "ft_first forks (Suc n) t p = (if forks (p @ [t]) then ft_first forks n (t + 1) (p @ [t]) else None)"

fun ft_second :: "(proc_name \<Rightarrow> bool) \<Rightarrow> nat \<Rightarrow> nat \<Rightarrow> proc_name \<Rightarrow> proc_name option" where
  "ft_second forks 0 t p = Some p"
| "ft_second forks (Suc n) t p = (if forks (p @ [t]) then ft_second forks n (t + 1) p else None)"

definition ft_main :: "(proc_name \<Rightarrow> bool) \<Rightarrow> proc_name list" where
  "ft_main forks = [] # (case ft_first forks (2 - 0) 0 [] of
     None \<Rightarrow> []
   | Some p \<Rightarrow> p # (case ft_second forks (3 - 2) 2 p of None \<Rightarrow> [] | Some p \<Rightarrow> [p]))"

lemma ft_first_all: "(\<And>p. forks p) \<Longrightarrow> ft_first forks n t p = Some (p @ [t..<t + n])"
proof (induction n arbitrary: t p)
  case (Suc n)
  have "[t..<Suc (t + n)] = t # [Suc t..<Suc (t + n)]" by (simp add: upt_rec)
  then show ?case using Suc by simp
qed simp

lemma ft_main_lines: "ft_main (\<lambda>_. True) = [[], [0, 1], [0, 1]]"
  by (simp add: ft_main_def ft_first_all numeral_2_eq_2)

text \<open>1fork.c: both processes have their own copy of the variables; the lines after the two \<open>exit\<close> are never reached.\<close>

record fork_vars =
  fk_a :: int
  fk_b :: int
  fk_c :: int

definition fork_show :: "fork_vars \<Rightarrow> int \<times> int \<times> int" where
  "fork_show v = (fk_a v, fk_b v, fk_c v)"

definition fork_child :: "fork_vars \<Rightarrow> (int \<times> int \<times> int) list \<times> int" where
  "fork_child v = ([fork_show v, fork_show v], 10)"

definition fork_parent :: "fork_vars \<Rightarrow> (int \<times> int \<times> int) list \<times> int" where
  "fork_parent v = (let v' = v\<lparr>fk_a := fk_a v + 1, fk_b := fk_b v + 1, fk_c := fk_c v + 1\<rparr> in ([fork_show v, fork_show v'], 0))"

definition fork_main :: "bool \<Rightarrow> ((int \<times> int \<times> int) list \<times> int) list" where
  "fork_main forked = (let v = \<lparr>fk_a = 10, fk_b = 20, fk_c = 30\<rparr> in if forked then [fork_parent v, fork_child v] else [([], -1)])"

lemma fork_copies:
  "fork_main True = [([(10, 20, 30), (11, 21, 31)], 0), ([(10, 20, 30), (10, 20, 30)], 10)]"
  by (simp add: fork_main_def fork_parent_def fork_child_def fork_show_def)

end
