(* ===== verification/DemoPrograms.thy ===== *)
theory DemoPrograms
  imports Calc Btree
begin

section \<open>Demo programs: whole runs of the libraries\<close>

subsection \<open>The calculator on the command line (03Calc/test.c)\<close>

text \<open>
  All arguments go to one calculator, which lives on between them; the result is the exit code and the values printed.
  \<open>q\<close> says whether the memory for the object is there, \<open>a\<close> and \<open>b\<close> are what \<open>calc_init\<close> gets for the stacks. Its
  result is not looked at: without stacks the call through \<open>q->calc\<close> is undefined.
\<close>

fun calc_args :: "calc \<Rightarrow> string list \<Rightarrow> (int list \<times> calc) option" where
  "calc_args i [] = Some ([], i)"
| "calc_args i (s # ss) = do {
     (r, i) \<leftarrow> calc_main stack_ops stack_ops i s;
     (rs, i) \<leftarrow> calc_args i ss;
     Some (r # rs, i)
   }"

definition calc_program :: "string list \<Rightarrow> bool \<Rightarrow> int stack_info option \<Rightarrow> char stack_info option \<Rightarrow> (int \<times> int list) option" where
  "calc_program args q a b =
     (if args = [] then Some (1, [])
      else if \<not> q then Some (-1, [])
      else do {
        (r, i) \<leftarrow> calc_init a b;
        (case i of
           None \<Rightarrow> None
         | Some i \<Rightarrow> do {
             (rs, i) \<leftarrow> calc_args i args;
             (r, i) \<leftarrow> calc_destroy i;
             Some (0, rs)
           })
      })"

text \<open>A character costs at most two pushes of numbers and one of operators, over all arguments.\<close>

lemma calc_args_exprs:
  assumes "calc_ready (2 * sum_list (map length ss)) (sum_list (map length ss)) i"
    and "list_all2 (\<lambda>s (e, v). filter (\<lambda>c. \<not> is_blank c) s = expr_show 1 e \<and> expr_wf e \<and> expr_eval e = Some v) ss evs"
  shows "\<exists>i'. calc_args i ss = Some (map snd evs, i') \<and> calc_ready 0 0 i'"
  using assms(2,1)
proof (induction arbitrary: i rule: list_all2_induct)
  case Nil
  then show ?case by simp
next
  case (Cons s ss ev evs)
  obtain e v where ev: "ev = (e, v)" by (cases ev)
  obtain i1 where 1: "calc_main stack_ops stack_ops i s = Some (v, i1)"
    "calc_ready (2 * sum_list (map length ss)) (sum_list (map length ss)) i1"
    using calc_main_expr[of s "2 * sum_list (map length ss)" "sum_list (map length ss)" i e v] Cons.hyps(1) Cons.prems ev by auto
  then show ?case using Cons.IH[OF 1(2)] ev by auto
qed

lemma calc_program_values:
  assumes "list_all2 (\<lambda>s (e, v). filter (\<lambda>c. \<not> is_blank c) s = expr_show 1 e \<and> expr_wf e \<and> expr_eval e = Some v) args evs"
    and "args \<noteq> []" and "stack_fresh a" and "stack_fresh b"
    and "2 * sum_list (map length args) < stack_cap a" and "sum_list (map length args) < stack_cap b"
  shows "calc_program args True (Some a) (Some b) = Some (0, map snd evs)"
proof -
  obtain i where i: "calc_init (Some a) (Some b) = Some (0, Some i)" "calc_ready (stack_cap a - 1) (stack_cap b - 1) i"
    using calc_init_ready[OF assms(3,4)] by blast
  have "calc_ready (2 * sum_list (map length args)) (sum_list (map length args)) i"
    using i(2) assms(5,6) by (auto simp: calc_ready_def)
  then obtain i' where i': "calc_args i args = Some (map snd evs, i')" "calc_ready 0 0 i'"
    using calc_args_exprs[OF _ assms(1)] by blast
  obtain x y where "stack_destroy (num i') = Some (0, x)" "stack_destroy (opr i') = Some (0, y)"
    using i'(2) stack_destroy_rep unfolding calc_ready_def by metis
  then show ?thesis using assms(2) i(1) i'(1) by (simp add: calc_program_def calc_destroy_def)
qed

subsection \<open>The list of records (04Kernel_list/test.c)\<close>

text \<open>
  Six records of an array go to the tail of a list, the third one is taken out, and the list is printed twice.
  \<open>list_for_each_entry\<close> goes over the enclosing records; as in KernelList these have the addresses of their links.
\<close>

record kdata = list_head +
  kname :: string
  kage :: int

definition list_for_each_entry :: "'z list_head_scheme heap \<Rightarrow> ptr \<Rightarrow> ptr list option" where
  "list_for_each_entry h hp = do { pos \<leftarrow> rd h nxt hp; list_for_each_from h pos hp }"

fun klist_print :: "kdata heap \<Rightarrow> ptr list \<Rightarrow> (string \<times> int) list option" where
  "klist_print h [] = Some []"
| "klist_print h (p # ps) = do { n \<leftarrow> rd h kname p; a \<leftarrow> rd h kage p; out \<leftarrow> klist_print h ps; Some ((n, a) # out) }"

definition klist_main :: "kdata heap \<Rightarrow> ptr \<Rightarrow> ptr list \<Rightarrow> ((string \<times> int) list \<times> (string \<times> int) list) option" where
  "klist_main h hp s = do {
     h \<leftarrow> list_head_init h hp;
     h \<leftarrow> list_fill h hp s;
     h \<leftarrow> list_del_init h (s ! 2);
     vs \<leftarrow> list_for_each h hp;
     out \<leftarrow> klist_print h vs;
     vs \<leftarrow> list_for_each_entry h hp;
     out' \<leftarrow> klist_print h vs;
     Some (out, out')
   }"

lemma klist_print_data:
  assumes "map (fld h kname) ps = map Some ns" and "map (fld h kage) ps = map Some as" and "\<forall>p \<in> set ps. live h p"
  shows "klist_print h ps = Some (zip ns as)"
  using assms
proof (induction ps arbitrary: ns as)
  case (Cons p ps)
  then show ?case by (cases ns; cases as) (auto simp: live_rd)
qed simp

lemma fld_kdata:
  assumes "fld h' list_head.more = fld (h :: kdata heap) list_head.more"
  shows "fld h' kname = fld h kname" and "fld h' kage = fld h kage"
proof -
  have "list_head.more n = list_head.more n' \<Longrightarrow> kname n = kname n' \<and> kage n = kage n'" for n n' :: kdata
    by (cases n; cases n') simp
  then show "fld h' kname = fld h kname" "fld h' kage = fld h kage"
    using assms by (auto intro!: fld_more_cong)
qed

lemma klist_main_prints:
  assumes "live h hp" and "distinct (hp # s)" and "\<forall>p \<in> set s. live h p" and "2 < length s"
    and "map (fld h kname) s = map Some ns" and "map (fld h kage) s = map Some as"
  shows "klist_main h hp s = (let out = take 2 (zip ns as) @ drop 3 (zip ns as) in Some (out, out))"
proof -
  obtain h1 where h1: "list_head_init h hp = Some h1"
    "links_to h h1 ((fld h nxt)(hp := Some hp)) ((fld h prev)(hp := Some hp))"
    using list_head_init_links[OF assms(1)] by blast
  have r1: "ring h1 hp []" using h1(2) live_nonnull[OF assms(1)] by (simp add: links_to_def)
  obtain h2 where h2: "list_fill h1 hp s = Some h2" "ring h2 hp s" "fld h2 list_head.more = fld h1 list_head.more"
    using list_fill_ring[OF r1, of s] assms(2,3) links_to_live[OF h1(2)] by auto
  have s: "s = take 2 s @ s ! 2 # drop 3 s" using assms(4) id_take_nth_drop[of 2 s] by (simp add: numeral_eq_Suc)
  then obtain h3 where h3: "list_del_init h2 (s ! 2) = Some h3" "ring h3 hp (take 2 s @ drop 3 s)" "fld h3 list_head.more = fld h2 list_head.more"
    using list_del_init_ring[of h2 hp "take 2 s" "s ! 2" "drop 3 s"] h2(2) by (auto simp: links_to_def)
  have m: "fld h3 list_head.more = fld h list_head.more" using h2(3) h3(3) links_to_more[OF h1(2)] by simp
  let ?vs = "take 2 s @ drop 3 s"
  have p: "klist_print h3 ?vs = Some (zip (take 2 ns @ drop 3 ns) (take 2 as @ drop 3 as))"
  proof (rule klist_print_data)
    show "map (fld h3 kname) ?vs = map Some (take 2 ns @ drop 3 ns)" "map (fld h3 kage) ?vs = map Some (take 2 as @ drop 3 as)"
      unfolding fld_kdata[OF m] map_append take_map[symmetric] drop_map[symmetric] assms(5,6) by simp_all
    show "\<forall>p \<in> set ?vs. live h3 p" using ring_live[OF h3(2)] by simp
  qed
  have l: "length ns = length as" using assms(5,6) by (metis length_map)
  have z: "zip (take 2 ns @ drop 3 ns) (take 2 as @ drop 3 as) = take 2 (zip ns as) @ drop 3 (zip ns as)"
    using l by (simp add: take_zip drop_zip)
  have "list_for_each h3 hp = Some ?vs" by (rule list_for_each_ring[OF h3(2)])
  moreover from this have "list_for_each_entry h3 hp = Some ?vs" by (simp add: list_for_each_def list_for_each_entry_def)
  ultimately show ?thesis using h1(1) h2(1) h3(1) p by (simp add: klist_main_def z Let_def)
qed

subsection \<open>The search tree (06Btree/test.c)\<close>

text \<open>
  \<open>main\<close>: what is printed before the deletion of the second element (pre, in, post and level order and the depth) and
  after it (pre order, and the three traversals with a stack). \<open>q\<close> has the memory that each traversal gets for its
  stack or queue. \<open>btree_destroy\<close> does nothing.
\<close>

definition btree_destroy :: "'n btree_info \<Rightarrow> int \<times> 'n btree_info" where
  "btree_destroy s = (0, s)"

definition btree_main :: "(nat \<Rightarrow> ptr stack_info) \<Rightarrow> data_info heap \<Rightarrow> ptr list \<Rightarrow> (int list list \<times> csize \<times> int list list) option" where
  "btree_main q h xs = do {
     s \<leftarrow> btree_fill bnode_cmp (btree_init h) xs;
     (_, pre) \<leftarrow> btree_pre_order s print_bnode [];
     (_, ino) \<leftarrow> btree_in_order s print_bnode [];
     (_, post) \<leftarrow> btree_post_order s print_bnode [];
     (_, level) \<leftarrow> btree_level_order (q 0) s print_bnode [];
     depth \<leftarrow> btree_get_depth s;
     (r, s) \<leftarrow> btree_del s (xs ! 1);
     (_, pre') \<leftarrow> btree_pre_order s print_bnode [];
     (_, pre_n) \<leftarrow> btree_pre_order_norecur (q 1) s print_bnode [];
     (_, in_n) \<leftarrow> btree_in_order_norecur (q 2) s print_bnode [];
     (_, post_n) \<leftarrow> btree_post_order_norecur (q 3) s print_bnode [];
     let (r, s) = btree_destroy s;
     Some ([pre, ino, post, level], depth, [pre', pre_n, in_n, post_n])
   }"

lemma btree_main_prints:
  assumes xs: "distinct xs" "map (fld h bdata) xs = map Some ds" "NULL \<notin> set xs" "2 \<le> length xs" "length xs < 2 ^ 64"
    and range: "\<forall>a \<in> set ds. \<forall>b \<in> set ds. - (2 ^ 31) \<le> a - b \<and> a - b < 2 ^ 31"
    and q: "\<And>i. stack_fresh (q i)" "\<And>i. length xs < stack_cap (q i)"
  shows "\<exists>d t t'. map d xs = ds \<and> map d (inorder t) = sort ds \<and> map d (inorder t') = sort (remove1 (ds ! 1) ds)
    \<and> btree_main q h xs = Some ([map d (preorder t), sort ds, map d (postorder t), map d (levels t)], of_nat (height t),
        [map d (preorder t'), map d (preorder t'), sort (remove1 (ds ! 1) ds), map d (postorder t')])"
proof -
  have inv0: "btree_inv (btree_init h) Leaf" by (simp add: btree_inv_def btree_init_def)
  have f: "map (fld (bmem (btree_init h)) bdata) xs = map Some ds" using xs(2) by (simp add: btree_init_def)
  obtain s t d where s: "btree_fill bnode_cmp (btree_init h) xs = Some s" "btree_inv s t" "map d xs = ds"
    "\<And>q. q \<in> set xs \<Longrightarrow> rd (bmem s) bdata q = Some (d q)" "diff.ordered d (inorder t)" "mset (inorder t) = mset xs"
    using btree_fill_data[OF inv0 xs(1) f xs(3) range] by metis
  have set_t: "set_tree t = set xs" using mset_eq_setD[OF s(6)] by simp
  have size_t: "size t = length xs" using arg_cong[OF s(6), of size] by simp
  have ne: "t \<noteq> Leaf" "height t < 2 ^ 64" "xs ! 1 \<in> set_tree t" using size_t height_le_size_tree[of t] xs(4,5) set_t by auto
  obtain s' t' where s': "btree_del s (xs ! 1) = Some (0, s')" "btree_inv s' t'" "inorder t' = remove1 (xs ! 1) (inorder t)" "same_data s s'"
    using btree_del_inv[OF s(2) ne(3)] by blast
  have set_t': "set_tree t' \<subseteq> set xs" using s'(3) set_t set_remove1_subset[of "xs ! 1" "inorder t"] by (metis set_inorder)
  have size_t': "size t' < stack_cap (q i)" for i using s'(3) size_t q(2)[of i] by (metis le_less_trans length_inorder length_remove1 diff_le_self)
  have rd': "rd (bmem s') bdata q = Some (d q)" if "q \<in> set xs" for q
    using s(4)[OF that] fld_bdata[of "bmem s'" "bmem s"] s'(4) by (auto simp: same_data_def rd_def split: if_splits)
  have r: "reads print_bnode (bmem s) (set_tree t) (\<lambda>q w. w @ [d q])" "reads print_bnode (bmem s') (set_tree t') (\<lambda>q w. w @ [d q])"
    using s(4) rd' set_t' by (auto simp: reads_def print_bnode_def set_t)
  note o = btree_recursive_orders[OF s(2) r(1), of "[]", unfolded fold_snoc]
    btree_level_order_levels[OF s(2) r(1) ne(1) q(1), of 0 "[]", unfolded fold_snoc size_t, OF q(2)]
  note o' = btree_recursive_orders[OF s'(2) r(2), of "[]", unfolded fold_snoc]
  note n' = btree_norecur_orders[OF s'(2) r(2) q(1) size_t', of _ "[]", unfolded o']
  have dep: "btree_get_depth s = Some (of_nat (height t))"
    using get_depth_tree[of "bmem s" NULL t] s(2) ne(2) by (simp add: btree_get_depth_def btree_inv_def)
  have so: "sorted (map d (inorder t))" using s(5) by (simp add: diff.ordered_def sorted_map)
  have m: "mset (map d (inorder t)) = mset ds" using s(3,6) by (metis mset_map)
  have ino: "map d (inorder t) = sort ds" by (rule properties_for_sort[symmetric, OF m so])
  have x: "xs ! 1 \<in># mset (inorder t)" using ne(3) by simp
  have dx: "d (xs ! 1) = ds ! 1" using s(3) xs(4) by (metis nth_map Suc_1 Suc_le_lessD One_nat_def)
  have "mset (map d (inorder t')) = mset (map d (inorder t)) - {#d (xs ! 1)#}"
    using x by (simp add: s'(3) image_mset_Diff)
  then have m': "mset (map d (inorder t')) = mset (remove1 (ds ! 1) ds)" unfolding m dx by simp
  have ino': "map d (inorder t') = sort (remove1 (ds ! 1) ds)"
    by (rule properties_for_sort[symmetric, OF m']) (use so in \<open>simp add: s'(3) sorted_map_remove1\<close>)
  have "btree_main q h xs = Some ([map d (preorder t), sort ds, map d (postorder t), map d (levels t)], of_nat (height t),
      [map d (preorder t'), map d (preorder t'), sort (remove1 (ds ! 1) ds), map d (postorder t')])"
    by (simp del: One_nat_def add: s(1) s'(1) ino ino' o o' n' dep btree_main_def btree_destroy_def)
  then show ?thesis using s(3) ino ino' by blast
qed

end
