(* ===== verification/HashProgram.thy ===== *)
theory HashProgram
  imports HashTable
begin

section \<open>A run of the hash table (05HashTable/test.c)\<close>

text \<open>
  The program puts the persons of an array into a table of two buckets, prints them bucket by bucket, searches three
  times for the first one's name and then for the name of the fifth, and prints who was found last. The struct of
  the table itself, whose allocation the program asserts, is the record. When the array of heads cannot be allocated,
  the call through \<open>ht->push\<close> is undefined.
\<close>

fun hash_fill :: "(person heap \<Rightarrow> ptr \<Rightarrow> csize option) \<Rightarrow> person hashtable \<Rightarrow> ptr list \<Rightarrow> person hashtable option" where
  "hash_fill hash info [] = Some info"
| "hash_fill hash info (x # xs) = do { info \<leftarrow> hash_push hash info x; hash_fill hash info xs }"

definition print_node :: "(person, (string \<times> int) list) hvisitor" where
  "print_node hw node = do { n \<leftarrow> rd (fst hw) name node; a \<leftarrow> rd (fst hw) age node; Some (fst hw, snd hw @ [(n, a)]) }"

definition hash_program :: "person heap \<Rightarrow> ptr list \<Rightarrow> ((string \<times> int) list \<times> string \<times> int) option" where
  "hash_program h s = do {
     (r, ht) \<leftarrow> hashtable_init h 2;
     (if r < 0 then None else do {
        ht \<leftarrow> hash_fill hash_xx ht s;
        (_, out) \<leftarrow> hash_for_each ht print_node [];
        (found, cur) \<leftarrow> hash_find hash_xx hashcmp_xx ht (s ! 0) NULL;
        (found, cur) \<leftarrow> hash_find hash_xx hashcmp_xx ht (s ! 0) cur;
        (found, cur) \<leftarrow> hash_find hash_xx hashcmp_xx ht (s ! 0) cur;
        (found, cur) \<leftarrow> hash_find hash_xx hashcmp_xx ht (s ! 4) cur;
        (if found = NULL then None else do {
           n \<leftarrow> rd (hmem ht) name found;
           a \<leftarrow> rd (hmem ht) age found;
           (r, ht) \<leftarrow> hashtable_destroy ht;
           Some (out, n, a)
         })
      })
   }"

text \<open>The persons keep their data while the table is filled.\<close>

definition persons :: "person heap \<Rightarrow> ptr set \<Rightarrow> (ptr \<Rightarrow> string) \<Rightarrow> (ptr \<Rightarrow> int) \<Rightarrow> bool" where
  "persons h A nm ag \<longleftrightarrow> (\<forall>q \<in> A. live h q \<and> fld h name q = Some (nm q) \<and> fld h age q = Some (ag q))"

lemma persons_rd:
  assumes "persons h A nm ag" and "q \<in> A"
  shows "rd h name q = Some (nm q)" and "rd h age q = Some (ag q)" and "live h q"
  using assms by (auto simp: persons_def live_rd)

lemma persons_more:
  assumes "persons h A nm ag" and "fld h' list_head.more = fld h list_head.more" and "\<And>q. live h' q = live h q"
  shows "persons h' A nm ag"
proof -
  have "list_head.more n = list_head.more n' \<Longrightarrow> name n = name n' \<and> age n = age n'" for n n' :: person
    by (cases n; cases n') simp
  then have "fld h' name = fld h name" "fld h' age = fld h age" using assms(2) by (auto intro!: fld_more_cong)
  then show ?thesis using assms(1,3) by (simp add: persons_def)
qed

text \<open>Filling: each bucket gets the persons whose names it is for, in the order of the array.\<close>

definition home :: "person hashtable \<Rightarrow> (ptr \<Rightarrow> string) \<Rightarrow> ptr \<Rightarrow> nat" where
  "home info nm q = unat (sum_chars 0 (nm q) mod nmemb info)"

lemma hash_fill_inv:
  assumes "hash_inv info bs" and "persons (hmem info) (set xs) nm ag" and "distinct xs" and "set xs \<inter> set (concat bs) = {}"
    and "set xs \<inter> set (heads info) = {}" and "nmemb info \<noteq> 0"
  shows "\<exists>info'. hash_fill hash_xx info xs = Some info'
    \<and> hash_inv info' (map (\<lambda>i. bs ! i @ filter (\<lambda>x. home info nm x = i) xs) [0..<length bs])
    \<and> fld (hmem info') list_head.more = fld (hmem info) list_head.more \<and> (\<forall>q. live (hmem info') q = live (hmem info) q)
    \<and> table info' = table info \<and> nmemb info' = nmemb info"
  using assms
proof (induction xs arbitrary: info bs)
  case Nil
  then show ?case by (simp add: map_nth)
next
  case (Cons x xs)
  have x: "hash_xx (hmem info) x = Some (sum_chars 0 (nm x))" "live (hmem info) x"
    using persons_rd[OF Cons.prems(2), of x] by (simp_all add: hash_xx_def)
  let ?b = "home info nm x" and ?bs = "bs[home info nm x := bs ! home info nm x @ [x]]"
  have "x \<notin> set (concat bs)" "x \<notin> set (heads info)" using Cons.prems(4,5) by auto
  note push = hash_push_inv[where hash = hash_xx and v = "sum_chars 0 (nm x)", OF Cons.prems(1) x(2) this x(1) Cons.prems(6), folded home_def]
  obtain i1 where i1: "hash_push hash_xx info x = Some i1" "hash_inv i1 ?bs"
    "fld (hmem i1) list_head.more = fld (hmem info) list_head.more" "\<And>q. live (hmem i1) q = live (hmem info) q"
    "table i1 = table info" "nmemb i1 = nmemb info"
    using push by blast
  have b: "?b < length bs"
    using bucket_mod(2)[where hash = hash_xx and info = info and x = x and v = "sum_chars 0 (nm x)"] x(1) Cons.prems(6) hash_invD(1)[OF Cons.prems(1)] by (simp add: home_def)
  have eq: "concat ?bs = concat (take ?b bs) @ (bs ! ?b @ [x]) @ concat (drop (Suc ?b) bs)"
    "concat bs = concat (take ?b bs) @ bs ! ?b @ concat (drop (Suc ?b) bs)"
    using id_take_nth_drop[OF b] upd_conv_take_nth_drop[OF b, of "bs ! ?b @ [x]"]
    by (metis append.simps concat.simps(2) concat_append)+
  have c: "set (concat ?bs) = insert x (set (concat bs))"
    unfolding arg_cong[OF eq(1), of set] arg_cong[OF eq(2), of set] by simp
  have "persons (hmem info) (set xs) nm ag" using Cons.prems(2) by (simp add: persons_def)
  then have "persons (hmem i1) (set xs) nm ag" by (rule persons_more[OF _ i1(3,4)])
  moreover have "set xs \<inter> set (heads i1) = {}" using Cons.prems(5) i1(5,6) by (auto simp: heads_def)
  moreover have "set xs \<inter> set (concat ?bs) = {}" using Cons.prems(3,4) c by auto
  moreover have "home i1 nm = home info nm" by (simp add: fun_eq_iff home_def i1(6))
  ultimately obtain i2 where i2: "hash_fill hash_xx i1 xs = Some i2"
    "hash_inv i2 (map (\<lambda>i. ?bs ! i @ filter (\<lambda>y. home info nm y = i) xs) [0..<length bs])"
    "fld (hmem i2) list_head.more = fld (hmem i1) list_head.more" "\<forall>q. live (hmem i2) q = live (hmem i1) q"
    "table i2 = table i1" "nmemb i2 = nmemb i1"
    using Cons.IH[OF i1(2)] Cons.prems(3,6) i1(6) by auto
  have bs2: "map (\<lambda>i. ?bs ! i @ filter (\<lambda>y. home info nm y = i) xs) [0..<length bs] =
      map (\<lambda>i. bs ! i @ filter (\<lambda>y. home info nm y = i) (x # xs)) [0..<length bs]"
    using b by (auto simp: nth_list_update)
  show ?case by (rule exI[of _ i2]) (use i1(1,3-6) i2(1,3-6) i2(2)[unfolded bs2] in \<open>simp del: filter.simps\<close>)
qed

text \<open>One search: in the bucket of the key, from its beginning or behind the last hit.\<close>

lemma hash_find_person:
  assumes inv: "hash_inv info bs" and p: "persons (hmem info) A nm ag" "set (concat bs) \<subseteq> A" "key \<in> A" and n: "nmemb info \<noteq> 0"
    and bs: "bs ! home info nm key = us @ vs"
    and c: "us = [] \<and> (cur = NULL \<or> cur \<in> A \<and> nm cur \<noteq> nm key) \<or> us \<noteq> [] \<and> last us = cur \<and> nm cur = nm key"
    and hit: "vs = ws @ y # zs" "nm y = nm key" "\<forall>w \<in> set ws. nm w \<noteq> nm key" "y \<noteq> NULL"
  shows "hash_find hash_xx hashcmp_xx info key cur = Some (y, y)"
proof -
  have k: "key \<noteq> NULL" "hash_xx (hmem info) key = Some (sum_chars 0 (nm key))"
    using persons_rd[OF p(1,3)] live_nonnull by (auto simp: hash_xx_def)
  have m: "hashcmp_xx (hmem info) x key = Some (nm x = nm key)" if "x \<in> A" for x
    using persons_rd(1)[OF p(1)] that p(3) by (simp add: hashcmp_xx_def)
  have f: "first_match (\<lambda>x. nm x = nm key) vs = y" using hit by (simp add: first_match_def dropWhile_append2)
  have "hash_find hash_xx hashcmp_xx info key cur = Some (first_match (\<lambda>x. nm x = nm key) vs,
      if first_match (\<lambda>x. nm x = nm key) vs = NULL then table info + home info nm key else first_match (\<lambda>x. nm x = nm key) vs)"
    by (rule hash_find_from[where hash = hash_xx and v = "sum_chars 0 (nm key)" and bs = bs and xs = us and m = "\<lambda>x. nm x = nm key", OF inv k n])
      (use m p(2) bs c in \<open>auto simp: home_def\<close>)
  then show ?thesis using hit(4) by (simp add: f)
qed

text \<open>Initialising a table leaves the persons alone.\<close>

lemma hash_init_loop_more: "hash_init_loop h tab n i = Some h' \<Longrightarrow> fld h' list_head.more = fld h list_head.more"
proof (rule hash_init_loop.raw_induct[where P = "\<lambda>h tab n i h'. fld h' list_head.more = fld h list_head.more"])
  fix f :: "'a list_head_ext heap \<Rightarrow> ptr \<Rightarrow> csize \<Rightarrow> nat \<Rightarrow> 'a list_head_ext heap option" and h tab n i h'
  assume IH: "\<And>h tab n i h'. f h tab n i = Some h' \<Longrightarrow> fld h' list_head.more = fld h list_head.more"
    and st: "(if of_nat i < n then do { h \<leftarrow> list_head_init h (tab + i); i \<leftarrow> inc i; f h tab n i } else Some h) = Some h'"
  have init: "list_head_init h q = Some h2 \<Longrightarrow> fld h2 list_head.more = fld h list_head.more" for q h2
    using list_head_init_links[of h q] links_to_more[of h h2]
    by (cases "live h q") (auto simp: list_head_init_def dead_wr)
  show "fld h' list_head.more = fld h list_head.more"
    using st IH init by (auto split: if_splits simp: Option.bind_eq_Some_conv)
qed

lemma hashtable_init_persons:
  assumes m: "malloc_array h 2 = (p, h1)" "p \<noteq> NULL" and pe: "persons h A nm ag"
  shows "\<exists>info. hashtable_init h 2 = Some (0, info) \<and> hash_inv info [[], []] \<and> nmemb info = 2 \<and> table info = p
    \<and> persons (hmem info) A nm ag \<and> A \<inter> set (heads info) = {}"
proof -
  have n: "unat (2 :: csize) = 2" by simp
  obtain info where i: "hashtable_init h 2 = Some (0, info)" "hash_inv info (replicate 2 [])" "nmemb info = 2" "table info = p"
    using hashtable_init_inv[of "2 :: csize" h p h1] m unfolding n by auto
  have c: "cells 2 = 2" using cells_exact[of 2] by simp
  have l: "hash_init_loop h1 p 2 0 = Some (hmem info)"
    using i(1) m c by (auto simp: hashtable_init_def Let_def Option.bind_eq_Some_conv)
  have free: "q \<notin> {p, p + 1}" and same: "mem h1 q = mem h q" if "q \<in> A" for q
  proof -
    have "mem h q \<noteq> None" using persons_rd(3)[OF pe that] by (auto simp: live_def)
    moreover have none: "\<forall>i<2. mem h (p + i) = None" and eq: "mem h1 q = (if p \<le> q \<and> q < p + 2 then Some (junk h) else mem h q)"
      using m by (auto simp: malloc_array_def split: list.splits if_splits)
    moreover have "mem h p = None" "mem h (p + 1) = None" using spec[OF none, of 0] spec[OF none, of 1] by simp_all
    ultimately show q: "q \<notin> {p, p + 1}" by auto
    then show "mem h1 q = mem h q" using eq by auto
  qed
  have "persons h1 A nm ag" using pe same by (auto simp: persons_def live_def fld_def)
  moreover have "fld (hmem info) list_head.more = fld h1 list_head.more" by (rule hash_init_loop_more[OF l])
  moreover have "live (hmem info) q = live h1 q" for q
  proof -
    have "\<forall>j < unat (2 :: csize). live h1 (p + j)"
      using m by (auto simp: malloc_array_def live_def split: list.splits if_splits)
    then show ?thesis using hash_init_loop_rings[of "2 :: csize" 0 h1 p] l by (auto simp: agree_def)
  qed
  ultimately have "persons (hmem info) A nm ag" by (rule persons_more)
  moreover have "A \<inter> set (heads info) = {}" using free i(3,4) by (auto simp: heads_def upt_rec)
  ultimately show ?thesis using i by (auto simp: numeral_2_eq_2)
qed

text \<open>The searches go through the bucket of a name as through the array.\<close>

lemma filter_first: "filter P xs = y # ys \<Longrightarrow> \<exists>us vs. xs = us @ y # vs \<and> (\<forall>u \<in> set us. \<not> P u) \<and> P y \<and> filter P vs = ys"
  by (auto simp: filter_eq_Cons_iff)

lemma home_filter:
  "home info nm k = i \<Longrightarrow> filter (\<lambda>q. nm q = nm k) (filter (\<lambda>q. home info nm q = i) s) = filter (\<lambda>q. nm q = nm k) s"
  by (induction s) (auto simp: home_def)

lemma persons_shown: "(\<And>x w. x \<in> A \<Longrightarrow> persons h A nm ag \<Longrightarrow> print_node (h, w) x = Some (h, w @ [(nm x, ag x)]))"
  by (simp add: print_node_def persons_rd)

lemma fold_shown: "fold (\<lambda>x w. w @ [f x]) xs w = w @ map f xs"
  by (induction xs arbitrary: w) simp_all

text \<open>
  The four searches: the first three enumerate the persons with the name of the first one in the order of the array,
  and the fourth starts again, since the cursor has another name.
\<close>

lemma searches:
  assumes inv: "hash_inv info bs" and n: "nmemb info \<noteq> 0" and p: "persons (hmem info) (set s) nm ag" "set (concat bs) \<subseteq> set s"
    and b: "\<And>k. k \<in> set s \<Longrightarrow> bs ! home info nm k = filter (\<lambda>q. home info nm q = home info nm k) s"
    and k: "k \<in> set s" "k' \<in> set s" "nm k \<noteq> nm k'"
    and hits: "filter (\<lambda>q. nm q = nm k) s = q1 # q2 # q3 # qs" and hit: "filter (\<lambda>q. nm q = nm k') s = y # ys"
  shows "hash_find hash_xx hashcmp_xx info k NULL = Some (q1, q1)"
    and "hash_find hash_xx hashcmp_xx info k q1 = Some (q2, q2)"
    and "hash_find hash_xx hashcmp_xx info k q2 = Some (q3, q3)"
    and "hash_find hash_xx hashcmp_xx info k' q3 = Some (y, y)"
proof -
  have bucket: "filter (\<lambda>q. nm q = nm k) (bs ! home info nm k) = filter (\<lambda>q. nm q = nm k) s" if "k \<in> set s" for k
    unfolding b[OF that] by (rule home_filter[OF refl])
  obtain w1 v1 where 1: "bs ! home info nm k = w1 @ q1 # v1" "\<forall>w \<in> set w1. nm w \<noteq> nm k" "nm q1 = nm k"
    "filter (\<lambda>q. nm q = nm k) v1 = q2 # q3 # qs"
    using filter_first[of "\<lambda>q. nm q = nm k", OF trans[OF bucket[OF k(1)] hits]] by auto
  obtain w2 v2 where 2: "v1 = w2 @ q2 # v2" "\<forall>w \<in> set w2. nm w \<noteq> nm k" "nm q2 = nm k" "filter (\<lambda>q. nm q = nm k) v2 = q3 # qs"
    using filter_first[OF 1(4)] by auto
  obtain w3 v3 where 3: "v2 = w3 @ q3 # v3" "\<forall>w \<in> set w3. nm w \<noteq> nm k" "nm q3 = nm k"
    using filter_first[OF 2(4)] by auto
  obtain w4 v4 where 4: "bs ! home info nm k' = w4 @ y # v4" "\<forall>w \<in> set w4. nm w \<noteq> nm k'" "nm y = nm k'"
    using filter_first[of "\<lambda>q. nm q = nm k'", OF trans[OF bucket[OF k(2)] hit]] by auto
  have mem: "q1 \<in> set s" "q2 \<in> set s" "q3 \<in> set s"
    using arg_cong[OF hits, of set] by auto
  moreover have "y \<in> set s" using arg_cong[OF hit, of set] by auto
  ultimately have nn: "q1 \<noteq> NULL" "q2 \<noteq> NULL" "q3 \<noteq> NULL" "y \<noteq> NULL"
    using persons_rd(3)[OF p(1)] live_nonnull by blast+
  note find = hash_find_person[OF inv p]
  show "hash_find hash_xx hashcmp_xx info k NULL = Some (q1, q1)"
    by (rule find[where us = "[]" and ws = w1 and zs = v1]) (use k n 1 nn in auto)
  show "hash_find hash_xx hashcmp_xx info k q1 = Some (q2, q2)"
    by (rule find[where us = "w1 @ [q1]" and ws = w2 and zs = v2]) (use k n 1 2 nn in auto)
  show "hash_find hash_xx hashcmp_xx info k q2 = Some (q3, q3)"
    by (rule find[where us = "w1 @ q1 # w2 @ [q2]" and ws = w3 and zs = v3]) (use k n 1 2 3 nn in auto)
  show "hash_find hash_xx hashcmp_xx info k' q3 = Some (y, y)"
    by (rule find[where us = "[]" and ws = w4 and zs = v4]) (use k n 3 4 nn mem in auto)
qed

text \<open>The whole run.\<close>

lemma hash_program_run:
  fixes nm :: "ptr \<Rightarrow> string" and ag :: "ptr \<Rightarrow> int"
  assumes m: "malloc_array h 2 = (p, h1)" "p \<noteq> NULL" and pe: "persons h (set s) nm ag" and d: "distinct s" "4 < length s"
    and hits: "filter (\<lambda>q. nm q = nm (s ! 0)) s = q1 # q2 # q3 # qs" and other: "nm (s ! 0) \<noteq> nm (s ! 4)"
  defines "parity \<equiv> \<lambda>q. unat (sum_chars 0 (nm q) mod 2)"
  shows "hash_program h s = Some (map (\<lambda>q. (nm q, ag q)) (filter (\<lambda>q. parity q = 0) s @ filter (\<lambda>q. parity q = 1) s),
      nm (s ! 4), ag (hd (filter (\<lambda>q. nm q = nm (s ! 4)) s)))"
proof -
  obtain i0 where i0: "hashtable_init h 2 = Some (0, i0)" "hash_inv i0 [[], []]" "nmemb i0 = 2" "table i0 = p"
    "persons (hmem i0) (set s) nm ag" "set s \<inter> set (heads i0) = {}"
    using hashtable_init_persons[OF m pe] by blast
  have home: "home i nm = parity" if "nmemb i = 2" for i using that by (simp add: fun_eq_iff home_def parity_def)
  let ?bs = "[filter (\<lambda>q. parity q = 0) s, filter (\<lambda>q. parity q = 1) s]"
  have "\<exists>i1. hash_fill hash_xx i0 s = Some i1 \<and> hash_inv i1 ?bs \<and> nmemb i1 = 2 \<and> persons (hmem i1) (set s) nm ag"
    using hash_fill_inv[OF i0(2,5) d(1)] i0(3,6) persons_more[OF i0(5)] by (auto simp: home upt_rec)
  then obtain i1 where i1: "hash_fill hash_xx i0 s = Some i1" "hash_inv i1 ?bs" "nmemb i1 = 2" "persons (hmem i1) (set s) nm ag"
    by blast
  have shown: "print_node (hmem i1, w) x = Some (hmem i1, w @ [(nm x, ag x)])" if "x \<in> set (concat ?bs)" for x w
    by (rule persons_shown[OF _ i1(4)]) (use that in auto)
  have each: "hash_for_each i1 print_node [] = Some (hmem i1, map (\<lambda>q. (nm q, ag q)) (concat ?bs))"
    by (rule trans[OF hash_for_each_inv[where f = "\<lambda>x w. w @ [(nm x, ag x)]", OF i1(2) shown]]) (simp_all only: fold_shown append_Nil)
  have in_s: "s ! 0 \<in> set s" "s ! 4 \<in> set s" using d(2) by (auto intro: nth_mem)
  have "filter (\<lambda>q. nm q = nm (s ! 4)) s \<noteq> []" using in_s(2) by (auto simp: filter_empty_conv)
  then obtain y ys where y: "filter (\<lambda>q. nm q = nm (s ! 4)) s = y # ys" by (cases "filter (\<lambda>q. nm q = nm (s ! 4)) s") auto
  have "parity q < 2" for q unfolding parity_def by (simp add: unat_mod)
  then have two: "parity q = 0 \<or> parity q = 1" for q by (metis less_2_cases One_nat_def)
  have bs: "?bs ! home i1 nm k = filter (\<lambda>q. home i1 nm q = home i1 nm k) s" for k using two[of k] by (auto simp: home[OF i1(3)])
  note find = searches[OF i1(2) _ i1(4) _ bs in_s other hits y]
  have y2: "y \<in> set s" "nm y = nm (s ! 4)" using arg_cong[OF y, of set] by auto
  obtain i2 where "hashtable_destroy i1 = Some (0, i2)" using hashtable_destroy_inv[OF i1(2)] by blast
  moreover have "y \<noteq> NULL" using persons_rd(3)[OF i1(4) y2(1)] live_nonnull by blast
  ultimately show ?thesis
    using i0(1) i1(1,3) each find persons_rd(1,2)[OF i1(4) y2(1)] by (simp add: hash_program_def y y2(2))
qed

end
