(* ===== verification/Bits.thy ===== *)
theory Bits
  imports Posix "HOL-Library.Word"
begin

unbundle bit_operations_syntax

section \<open>File types and byte order (01File/stat.c, 06Socket/01Tcp/endian_check.c)\<close>

text \<open>
  A mode is a word of 32 bits; the constants are those of \<open>sys/stat.h\<close>. The switch has no case for directories and
  pipes. What is printed is the text of the case.
\<close>

definition S_IFMT :: "32 word" where "S_IFMT = 0xF000"
definition S_IFSOCK :: "32 word" where "S_IFSOCK = 0xC000"
definition S_IFLNK :: "32 word" where "S_IFLNK = 0xA000"
definition S_IFREG :: "32 word" where "S_IFREG = 0x8000"
definition S_IFBLK :: "32 word" where "S_IFBLK = 0x6000"
definition S_IFDIR :: "32 word" where "S_IFDIR = 0x4000"
definition S_IFCHR :: "32 word" where "S_IFCHR = 0x2000"
definition S_IFIFO :: "32 word" where "S_IFIFO = 0x1000"

definition stmode_handler :: "32 word \<Rightarrow> string" where
  "stmode_handler mode = (let t = mode AND S_IFMT in
     if t = S_IFREG then ''regular file''
     else if t = S_IFBLK then ''block device file''
     else if t = S_IFCHR then ''char device file''
     else if t = S_IFLNK then ''symbolic link file''
     else if t = S_IFSOCK then ''socket file''
     else ''unkown file type'')"

lemmas file_types = S_IFMT_def S_IFSOCK_def S_IFLNK_def S_IFREG_def S_IFBLK_def S_IFDIR_def S_IFCHR_def S_IFIFO_def

text \<open>Permission bits do not matter: the answer is that for the type alone.\<close>

lemma stmode_perm:
  assumes "perm AND S_IFMT = 0" and "t AND S_IFMT = t"
  shows "stmode_handler (t OR perm) = stmode_handler t"
proof -
  have "(t OR perm) AND S_IFMT = t AND S_IFMT" using assms(1) by (simp add: bit.conj_disj_distrib2)
  then show ?thesis by (simp add: stmode_handler_def)
qed

lemma stmode_types:
  "stmode_handler S_IFREG = ''regular file''" "stmode_handler S_IFBLK = ''block device file''"
  "stmode_handler S_IFCHR = ''char device file''" "stmode_handler S_IFLNK = ''symbolic link file''"
  "stmode_handler S_IFSOCK = ''socket file''"
  "stmode_handler S_IFDIR = ''unkown file type''" "stmode_handler S_IFIFO = ''unkown file type''"
  by (simp_all add: stmode_handler_def file_types)

lemma stmode_answers:
  assumes "perm AND S_IFMT = 0"
  shows "stmode_handler (S_IFREG OR perm) = ''regular file''" and "stmode_handler (S_IFDIR OR perm) = ''unkown file type''"
    and "stmode_handler (S_IFIFO OR perm) = ''unkown file type''" and "stmode_handler (S_IFSOCK OR perm) = ''socket file''"
  using stmode_perm[OF assms, of S_IFREG] stmode_perm[OF assms, of S_IFDIR] stmode_perm[OF assms, of S_IFIFO]
    stmode_perm[OF assms, of S_IFSOCK] stmode_types by (simp_all add: file_types)

subsection \<open>endian_check.c\<close>

text \<open>
  The bytes of a word from the lowest up, and from the highest down. \<open>htonl\<close> stores the word on a machine of either
  order as the bytes from the highest down. The check casts the value instead of looking at the memory.
\<close>

definition bytes_le :: "32 word \<Rightarrow> cuchar list" where
  "bytes_le w = map (\<lambda>i. ucast (drop_bit (8 * i) w)) [0, 1, 2, 3]"

definition word_le :: "cuchar list \<Rightarrow> 32 word" where
  "word_le bs = foldr (\<lambda>b w. push_bit 8 w OR ucast b) bs 0"

definition host_bytes :: "bool \<Rightarrow> 32 word \<Rightarrow> cuchar list" where
  "host_bytes little w = (if little then bytes_le w else rev (bytes_le w))"

definition htonl :: "bool \<Rightarrow> 32 word \<Rightarrow> 32 word" where
  "htonl little w = (if little then word_le (rev (bytes_le w)) else w)"

definition endian_check :: "bool \<Rightarrow> string" where
  "endian_check little = (let ia = 0x12345678 :: 32 word; cb = ucast (ia AND 0xFF) :: cuchar in
     if cb = 0x78 then ''little endian'' else if cb = 0x12 then ''big endian'' else ''Unkown endian'')"

lemma endian_check_always: "endian_check little = ''little endian''"
  by (simp add: endian_check_def)

lemma bit_word_le: "bit (word_le [a, b, c, d]) n \<longleftrightarrow>
    n < 8 \<and> bit a n \<or> 8 \<le> n \<and> n < 16 \<and> bit b (n - 8) \<or> 16 \<le> n \<and> n < 24 \<and> bit c (n - 16) \<or> 24 \<le> n \<and> n < 32 \<and> bit d (n - 24)"
  using bit_imp_le_length[of a n] bit_imp_le_length[of b "n - 8"] bit_imp_le_length[of c "n - 16"] bit_imp_le_length[of d "n - 24"]
  by (auto simp: word_le_def bit_or_iff bit_push_bit_iff bit_ucast_iff)

lemma bytes_word_le: "bytes_le (word_le [a, b, c, d]) = [a, b, c, d]"
  by (auto simp: bytes_le_def bit_word_le bit_ucast_iff bit_drop_bit_eq intro!: bit_word_eqI dest: bit_imp_le_length)

lemma word_bytes_le: "word_le (bytes_le w) = w"
proof (rule bit_word_eqI)
  fix n assume "n < LENGTH(32)"
  then show "bit (word_le (bytes_le w)) n = bit w n"
    by (cases "n < 8"; cases "n < 16"; cases "n < 24") (auto simp: bytes_le_def bit_word_le bit_ucast_iff bit_drop_bit_eq)
qed

text \<open>On either machine the bytes of \<open>htonl w\<close> in the memory begin with the highest one.\<close>

lemma bytes_le_four: "\<exists>a b c d. bytes_le w = [a, b, c, d]"
  by (simp add: bytes_le_def)

lemma htonl_bytes: "host_bytes little (htonl little w) = rev (bytes_le w)"
proof -
  obtain a b c d where "bytes_le w = [a, b, c, d]" using bytes_le_four by blast
  then show ?thesis by (simp add: host_bytes_def htonl_def bytes_word_le)
qed

lemma htonl_twice: "htonl little (htonl little w) = w"
proof -
  obtain a b c d where "bytes_le w = [a, b, c, d]" using bytes_le_four by blast
  then show ?thesis using word_bytes_le[of w] by (simp add: htonl_def bytes_word_le)
qed

end
