(* ===== verification/Spec2Isabelle.thy ===== *)
theory Spec2Isabelle
  imports SlistHeadLoop SlistNoLoop Joseph Stack Calc Btree HashTable SortArray Huffman Termios SelectServer Chatroom MutexDemo ProCon FileReader AddressBook MutexLeak Semaphores TcpLoop EchoQueue NetDemos RecordLock Processes ChatList Channels NamedSem Descriptors ForkDemos DemoPrograms HashProgram Bits
begin

text \<open>
  This is a development beside a repository of course programs in C: data structures (01DataStruct), system
  programming (02App_Devel) and terminals, threads and networks (03NetPro_thread). It models the libraries and
  programs listed below and proves what makes them correct, and where they are not, what they do instead.
  The properties of this theory, C1 to C40, are ordered by importance; the theories hold the lemmas they
  rest on and many more about single functions.

  \<^bold>\<open>Data structures\<close> (src/01DataStruct).
  \<^item> CHeap is the memory: one heap per struct type, \<open>malloc\<close> with any sequence of answers, \<open>free\<close>. Links has
    paths and rings of pointers, KernelList the intrusive list of list.h with every inline function and macro.
  \<^item> SlistHeadLoop, SlistNoLoop (01Slist) are the three singly linked lists; Dlist (02Dlist/stack/dlist.c) the
    doubly linked list that copies payloads, Stack (stack.c, 06Btree/queue.c) stack and queue on top of it, reached
    through records of function pointers (\<open>stack_ops\<close>, \<open>queue_ops\<close>). Calc (03Calc/calc.c) uses two stacks, the
    traversals of Btree (06Btree/btree.c) a stack or a queue of node addresses.
  \<^item> Joseph (04Kernel_list/joesph.c), HashTable (05HashTable), SortList (07Sort/sort_list.c) and Huffman
    (08Huffman/huff.c, which sorts its list of nodes with SortList) are clients of KernelList, and so is
    AddressBook (Project/ADDRESS_LIST). SortArray is 07Sort/sort_arrary.c. DemoPrograms and HashProgram have whole runs of
    programs on top of them (03Calc/test.c, 04Kernel_list/test.c, 06Btree/test.c; 05HashTable/test.c).

  \<^bold>\<open>Systems programs\<close> (src/02App_Devel and src/03NetPro_thread).
  \<^item> Posix has what the programs use of the C library: results of \<open>read\<close> with interruptions and failures,
    strings in buffers, printed numbers. Termios (03Termios/term.c) drives a serial device; SelectServer has the
    three servers of 06Socket around \<open>select\<close>; NetDemos the other servers and clients of 06Socket (01Tcp, 05Epoll_server,
    06Udp, the client of 03Tcp_select). Chatroom (04Project/chatroom) is the server and client that share a message
    queue, with the users in a kernel list; ChatList the list.h of that directory, whose functions are those of KernelList.
  \<^item> Threads has programs of several threads or processes as what each does next in a state, and their runs under every
    schedule, one step for each access to shared memory or call of the library. Such programs are MutexDemo, FileReader,
    ProCon and MutexLeak (05Pthread/04test_mutex.c, 05test_homework.c, 06test_pro_con.c, 02test.c), Semaphores
    (03IPC/05Semaphore/SysV and 02Semaphore/01SysV), NamedSem (02Semaphore/02Posix), RecordLock (01Record_lock and
    03IPC/01File_lock), TcpLoop (06Socket/02Tcp_loop: server and client over one connection), EchoQueue (the echo server of
    03IPC/04MsgQueue) and Channels (03IPC/02Pipe/03pipe_buf.c and the senders and receivers of 03IPC/04MsgQueue).
  \<^item> Processes is the pool of children of 02Process/4fork_exec2.c and the small shell 03IPC/02Pipe/05minishell.c, ForkDemos
    the trees of processes of 02Process/0test.c, 1fork.c and 3fork_exec.c. Descriptors has a table of descriptors, the open
    files and the disk, and the programs about them (01File, 02Process/5daemon.c, 02Pipe/04minishell.c,
    01Record_lock/fcntl.c); Bits the file types of 01File/stat.c and the byte order of 06Socket/01Tcp/endian_check.c.

  \<^bold>\<open>How code is translated.\<close> A struct is a record, a struct that embeds another one extends its record, and
  \<open>container_of\<close> is the identity. A function is a definition of the same name (with a suffix where several files have
  it) that takes the state and returns it with the result. \<open>None\<close> is undefined behaviour: a NULL or dangling
  pointer, an index out of range, signed overflow, a failing \<open>assert\<close>. A loop that may not end is a
  \<open>partial_function (option)\<close>, so \<open>None\<close> stands for not returning, too; that the programs return is therefore
  always proved as an equation with \<open>Some\<close>, and the loops need no fuel. Unsigned integers are words of their
  width; \<open>int\<close> is \<open>cint\<close> where it may wrap in the model and \<open>int\<close> with a check of the range where its overflow
  matters. One undefined step has any result instead,
    the overlapping copy of \<open>m_chat\<close> (a field of the state says which). What the environment does is part of the state or an argument: answers of \<open>malloc\<close>, bytes and
  errors of the coming calls of \<open>read\<close>, what the user types, events of a server, the schedule of the threads.

  \<^bold>\<open>Interfaces.\<close> What a client may rely on is a locale, and each is interpreted on the definitions of the code.
  \<^item> \<open>dispenser\<close>, extended by \<open>lifo\<close> and \<open>fifo\<close>: the tables of function pointers of stack and queue represent a
    list of elements (Stack). The calculator (\<open>calculator\<close>, two of them), the traversals (\<open>ptr_stack\<close>,
    \<open>ptr_queue\<close>) are verified against it and interpreted on \<open>stack_ops\<close> and \<open>queue_ops\<close>.
  \<^item> \<open>compare\<close>: a comparison function is a total preorder on the keys in use (Compare), for the tree and the
    sorting routines; \<open>array_sort\<close> and \<open>ring_sort\<close> are what the routines promise in return.
  \<^item> \<open>select_server\<close>: the parts in which the enhanced and the file server differ.
  \<^item> \<open>invariant_program\<close>, extended by \<open>terminating_program\<close> (a measure that every step decreases) and
    \<open>mutex_program\<close> (the owner of the mutex is the thread in its critical section) and by \<open>channel_program\<close> (what was
    received, is under way and is still to be sent makes up all there is to send), for the pipe and both kinds of queue.

  \<^bold>\<open>Groups of lemmas.\<close> Every container has an invariant (\<open>slist_inv\<close>, \<open>dlist_inv\<close>, \<open>stack_rep\<close>, \<open>hash_inv\<close>,
  \<open>book_inv\<close> and the like) that says which abstract list, tree or map a memory represents, one lemma per operation
  that gives its result and the represented value afterwards, on every branch, and lemmas for the error branches.
  Tree insertion and deletion, the Josephus ring, the calculator and the construction of the Huffman code refine
  abstract functions; the sorting routines are compared with each other; for the servers and the threads the
  invariants of all reachable states are proved by rule induction. Where the code does not do what it means to,
  the lemma states what it does (names that end in \<open>faults\<close> or \<open>never_returns\<close>, among others).

  \<^bold>\<open>Bounds.\<close> Element counts are limited where the code counts in an \<open>int\<close> (\<open>2 ^ 31\<close>) or allocates a number of
  cells modulo \<open>2 ^ 64\<close>; the hypotheses of the properties say so. The Huffman code keeps codes in 16 bits: the
  round trip asks for a source with at most 17 different bytes, whose tree is not deeper. Buffers have the sizes of the source.

  \<^bold>\<open>Not modelled.\<close> Output for the console where nothing depends on it (menus, prompts, debug prints), the clock and
  \<open>sleep\<close>, the clean-up after loops that only end with the process, socket addresses. The archive of the
  compressor is a record of header fields, table and body instead of a file. 03Termios/upper.c and
  04Project/chatroom2 do not compile (duplicate labels, members that do not exist); 06Btree.bak and the copies of dlist.c,
  stack.c, sort_list.c, list.h and the select client in other directories repeat code that is modelled.
  05Pthread/03test_heap.c is 02test.c with fixed numbers of turns. The remaining demos, listed in the manifest, are single
  calls of the system or of the preprocessor and hold no logic of their own.
\<close>

subsection \<open>The calculator\<close>

text \<open>Sample states for the witnesses: a list of two nodes, and memory with room for allocations.\<close>

definition slist_ex :: sheap where
  "slist_ex = \<lparr>mem = [1 \<mapsto> \<lparr>data = 0, nxt = 2\<rparr>, 2 \<mapsto> \<lparr>data = 7, nxt = 3\<rparr>, 3 \<mapsto> \<lparr>data = 8, nxt = 1\<rparr>],
     avail = [4, 5], junk = \<lparr>data = 0, nxt = 0\<rparr>\<rparr>"

lemma slist_ex_inv: "slist_inv slist_ex 1 [2, 3] [7, 8]"
  by (simp add: slist_inv_def slist_ex_def sring_def npath.simps(2) fld_def)

definition empty_heap :: "nat \<Rightarrow> 'n \<Rightarrow> 'n heap" where
  "empty_heap n j = \<lparr>mem = Map.empty, avail = [1..<Suc n], junk = j\<rparr>"

lemma empty_heap_fresh [simp]: "fresh_avail (empty_heap n j)" "length (avail (empty_heap n j)) = n"
  by (auto simp: empty_heap_def fresh_avail_def)

definition stack_ex :: "nat \<Rightarrow> 'a \<Rightarrow> 'a stack_info" where
  "stack_ex n x = \<lparr>dlist = 0, dmem =
     \<lparr>nodes = empty_heap n \<lparr>prev = 0, nxt = 0, priv = x\<rparr>, infos = empty_heap 1 \<lparr>head = 0\<rparr>\<rparr>\<rparr>"

lemma stack_ex_fresh: "0 < n \<Longrightarrow> stack_fresh (stack_ex n x)" "stack_cap (stack_ex n x) = n"
  by (auto simp: stack_fresh_def stack_ex_def stack_cap_def empty_heap_fresh simp flip: length_greater_0_conv)

lemma stack_ex_init: "0 < n \<Longrightarrow> \<exists>s. stack_init (stack_ex n x) = Some (0, s) \<and> stack_rep s [] \<and> Suc (stack_cap s) = n"
  using stack_init_rep[OF stack_ex_fresh(1)[of n x]] by (auto simp: stack_ex_fresh(2))

lemma calc_ex_init: "\<exists>i. calc_init (Some (stack_ex 100 0)) (Some (stack_ex 100 CHR ''0'')) = Some (0, Some i)
    \<and> flag i = OPR \<and> calc_ready 99 99 i"
  using calc_init_ready[OF stack_ex_fresh(1) stack_ex_fresh(1), of 100 100 0 "CHR ''0''"]
  by (simp add: stack_ex_fresh(2))

lemma calc_ready_mono: "calc_ready K L i \<Longrightarrow> K' \<le> K \<Longrightarrow> L' \<le> L \<Longrightarrow> calc_ready K' L' i"
  by (auto simp: calc_ready_def)



text \<open>
  C26. The calculator over the linked stacks goes through the same results as over plain lists: whenever
  the list version of \<open>calc_main\<close> yields a result (a value or an error code), the one over \<open>stack_ops\<close>
  yields the same result, and its stacks represent the lists.
\<close>

theorem calc_refines_lists:
  assumes "calc_ready (2 * length s + K) (length s + L) i"
    and "calc_main list_ops list_ops \<lparr>num = [], opr = [], cur = cur i, flag = flag i\<rparr>
      (filter (\<lambda>c. \<not> is_blank c) s) = Some (r, a)"
  shows "\<exists>i'. calc_main stack_ops stack_ops i s = Some (r, i') \<and> stack_rep (num i') (num a)
    \<and> stack_rep (opr i') (opr a) \<and> flag i' = flag a"
  using calc_main_list[OF assms] by (auto simp: sk.sim_def)

theorem calc_refines_lists_witness:
  "\<exists>i i'. calc_init (Some (stack_ex 100 0)) (Some (stack_ex 100 CHR ''0'')) = Some (0, Some i)
    \<and> calc_main stack_ops stack_ops i ''8/-2*3'' = Some (-1, i') \<and> stack_rep (num i') []"
  proof -
  obtain i where i: "calc_init (Some (stack_ex 100 0)) (Some (stack_ex 100 CHR ''0'')) = Some (0, Some i)"
    "calc_ready 99 99 i" "flag i = OPR" using calc_ex_init by blast
  have "calc_ready (2 * length ''8/-2*3'' + 0) (length ''8/-2*3'' + 0) i"
    by (rule calc_ready_mono[OF i(2)]) simp_all
  from calc_refines_lists[OF this, of "-1" "st [] [] NUM []"] show ?thesis
    using i amain_unary_minus amain_cur[where ns = "[]" and os = "[]" and f = OPR and x = "cur i"]
    by (auto simp: is_blank_def)
qed

text \<open>
  C32. On the expression \<open>(-)\<close> a fresh calculator never returns. The first two characters are read without a
  fault; then the loop of \<open>bracket_handle\<close> has turns without an end, none of them undefined: in each \<open>do_stack\<close>
  fails with -1, which is ignored, and the operator stays on its stack.
\<close>

theorem calc_never_returns:
  assumes "calc_ready 4 2 i" and "flag i = OPR"
  shows "\<exists>i1 i2 run. calc_step stack_ops stack_ops (i\<lparr>cur := ''(-)''\<rparr>) = Some (0, i1)
    \<and> calc_step stack_ops stack_ops (i1\<lparr>cur := ''-)''\<rparr>) = Some (0, i2)
    \<and> run 0 = i2\<lparr>cur := '')''\<rparr> \<and> endless (bracket_turn stack_ops stack_ops) run
    \<and> (\<forall>n. do_stack stack_ops stack_ops (run n) = Some (-1, run (Suc n)) \<and> opr (run (Suc n)) = opr (run n))
    \<and> calc_main stack_ops stack_ops i ''(-)'' = None"
  by (rule calc_main_never[OF assms])

theorem calc_never_returns_witness:
  "\<exists>i run. calc_init (Some (stack_ex 100 0)) (Some (stack_ex 100 CHR ''0'')) = Some (0, Some i)
    \<and> endless (bracket_turn stack_ops stack_ops) run \<and> calc_main stack_ops stack_ops i ''(-)'' = None"
  proof -
  obtain i where i: "calc_init (Some (stack_ex 100 0)) (Some (stack_ex 100 CHR ''0'')) = Some (0, Some i)"
    "calc_ready 99 99 i" "flag i = OPR" using calc_ex_init by blast
  have "calc_ready 4 2 i" by (rule calc_ready_mono[OF i(2)]) simp_all
  then show ?thesis using calc_never_returns[OF _ i(3)] i(1) by blast
qed

subsection \<open>Containers\<close>

text \<open>
  The stack is last in, first out: pushing \<open>xs\<close> on a new stack and popping until it is empty yields
  \<open>xs\<close> reversed, for a memory that serves the allocations.
\<close>

theorem stack_reverses:
  assumes "stack_fresh i" and "length xs < stack_cap i"
  shows "\<exists>s s1 s2. stack_init i = Some (0, s) \<and> push_all stack_ops s xs = Some s1
    \<and> drain stack_ops s1 d = Some (rev xs, s2) \<and> stack_rep s2 []"
  using stack_init_rep[OF assms(1)] st.fill_drain_reverses[of _ xs d] assms(2) by force

theorem stack_reverses_witness:
  "\<exists>s s1 s2. stack_init (stack_ex 6 (0 :: int)) = Some (0, s) \<and> push_all stack_ops s [1, 3, 5, 7, 9] = Some s1
    \<and> drain stack_ops s1 0 = Some (rev [1, 3, 5, 7, 9], s2) \<and> stack_rep s2 []"
  by (rule stack_reverses) (simp_all add: stack_ex_fresh)

text \<open>
  The queue is first in, first out: what is pushed on a new queue comes out in the same order.
\<close>

theorem queue_keeps_order:
  assumes "stack_fresh i" and "length xs < stack_cap i"
  shows "\<exists>s s1 s2. queue_init i = Some (0, s) \<and> push_all queue_ops s xs = Some s1
    \<and> drain queue_ops s1 d = Some (xs, s2) \<and> stack_rep s2 []"
  using stack_init_rep[OF assms(1)] qu.fill_drain_keeps[of _ xs d] assms(2)
  by (force simp: queue_init_stack)

theorem queue_keeps_order_witness:
  "\<exists>s s1 s2. queue_init (stack_ex 4 (0 :: int)) = Some (0, s) \<and> push_all queue_ops s [1, 3, 5] = Some s1
    \<and> drain queue_ops s1 0 = Some ([1, 3, 5], s2) \<and> stack_rep s2 []"
  by (rule queue_keeps_order) (simp_all add: stack_ex_fresh)

text \<open>
  Destroying a container frees its list object, the head node and every node of the list, and touches
  no other node.
\<close>

theorem stack_destroy_frees:
  assumes "stack_rep i xs"
  shows "\<exists>s hn ps. stack_destroy i = Some (0, s) \<and> length ps = length xs
    \<and> dlist_inv (dmem i) (dlist i) hn ps xs
    \<and> mem (nodes (dmem s)) = mem (nodes (dmem i)) |` (- set (hn # ps))
    \<and> mem (infos (dmem s)) (dlist i) = None"
  using stack_destroy_rep[OF assms] dlist_invD(6) by blast

theorem stack_destroy_frees_witness:
  "\<exists>i s. stack_init (stack_ex 3 (0 :: int)) = Some (0, i) \<and> stack_destroy i = Some (0, s)
    \<and> mem (infos (dmem s)) (dlist i) = None"
  using stack_ex_init[of 3 "0 :: int"] stack_destroy_frees by fastforce

text \<open>
  A push that cannot allocate reports success (0) like any other and leaves the container as it was:
  the element is lost.
\<close>

theorem stack_push_drops:
  assumes "stack_rep i xs" and "stack_cap i = 0"
  shows "stack_push i x = Some (0, i) \<and> queue_push i x = Some (0, i)"
  by (simp add: push_full_rep[OF assms])

theorem stack_push_drops_witness:
  "\<exists>i. stack_init (stack_ex 1 (0 :: int)) = Some (0, i) \<and> stack_push i 5 = Some (0, i)"
  using stack_ex_init[of 1 "0 :: int"] stack_push_drops by fastforce

subsection \<open>Singly linked lists\<close>

text \<open>
  C29. \<open>slist_invert\<close> reverses the ring in place: the same nodes in the opposite order, no other object of
  the memory touched and nothing allocated.
\<close>

theorem slist_inverts:
  assumes "slist_inv h phead ps ds"
  shows "\<exists>h'. slist_invert h phead = Some h' \<and> slist_inv h' phead (rev ps) (rev ds)
    \<and> same_out (set (phead # ps)) h h' \<and> avail h' = avail h"
  by (rule slist_invert_spec[OF assms])

theorem slist_inverts_witness:
  "\<exists>h'. slist_invert slist_ex 1 = Some h' \<and> slist_inv h' 1 [3, 2] [8, 7]"
  using slist_inverts[OF slist_ex_inv] by auto

text \<open>
  \<open>slist_del\<close> unlinks and frees the first node that holds the key and returns 0; without such a node it
  returns -1 and changes nothing.
\<close>

theorem slist_deletes:
  assumes "slist_inv h phead ps ds"
  shows "(d \<notin> set ds \<longrightarrow> slist_del h phead d = Some (-1, h))
    \<and> (\<forall>ys c zs es fs. ps = ys @ c # zs \<and> ds = es @ d # fs \<and> length ys = length es \<and> d \<notin> set es \<longrightarrow>
      (\<exists>h'. slist_del h phead d = Some (0, h') \<and> slist_inv h' phead (ys @ zs) (es @ fs) \<and> mem h' c = None))"
  using slist_del_missing[OF assms] slist_del_found[of h phead _ _ _ _ d] assms by blast

theorem slist_deletes_witness:
  "slist_del slist_ex 1 9 = Some (-1, slist_ex)"
  using slist_deletes[OF slist_ex_inv, of 9] by simp

text \<open>
  \<open>slist_destroy\<close> frees the head and every node of the ring exactly once, and nothing else.
\<close>

theorem slist_destroys:
  assumes "slist_inv h phead ps ds"
  shows "\<exists>h'. slist_destroy h phead = Some (0, h') \<and> mem h' = (mem h) |` (- set (phead # ps))"
  using slist_destroy_spec[OF assms] by blast

theorem slist_destroys_witness:
  "\<exists>h'. slist_destroy slist_ex 1 = Some (0, h') \<and> mem h' = (mem slist_ex) |` (- {1, 2, 3})"
  using slist_destroys[OF slist_ex_inv] by auto

text \<open>
  The demo program fills the list with 0 to 9, deletes 5, reverses it and prints the rest: its output
  is 9 8 7 6 4 3 2 1 0, and it runs without a fault, for every allocator that serves 11 nodes.
\<close>

theorem slist_demo:
  assumes "fresh_avail h" and "11 \<le> length (avail h)"
  shows "\<exists>h'. slist_main h = Some (0, [9, 8, 7, 6, 4, 3, 2, 1, 0], h')"
  by (rule slist_main_spec[OF assms])

theorem slist_demo_witness:
  "\<exists>h'. slist_main (empty_heap 20 \<lparr>data = 0, nxt = 0\<rparr>) = Some (0, [9, 8, 7, 6, 4, 3, 2, 1, 0], h')"
  by (rule slist_demo) simp_all

subsection \<open>The kernel list\<close>

definition klist_ex :: "joseph_node heap" where
  "klist_ex = \<lparr>mem = [2 \<mapsto> \<lparr>prev = 1, nxt = 3, jdata = 10\<rparr>, 3 \<mapsto> \<lparr>prev = 2, nxt = 1, jdata = 20\<rparr>,
     1 + 0 \<mapsto> \<lparr>prev = 3, nxt = 2, jdata = 0\<rparr>], avail = [], junk = \<lparr>prev = 0, nxt = 0, jdata = 0\<rparr>\<rparr>"

lemma klist_ex_ring: "ring klist_ex 1 [2, 3]"
  by (simp add: klist_ex_def dring_def sring_def npath.simps(2) fld_def)

text \<open>
  \<open>list_del_init\<close> takes a node out of its ring and leaves it a ring of its own; the new links are
  exactly these, so every other ring in the memory is untouched.
\<close>

theorem klist_delete:
  assumes "ring h hd0 (xs @ node # ys)"
  shows "\<exists>h'. list_del_init h node = Some h' \<and> ring h' hd0 (xs @ ys) \<and> ring h' node []
    \<and> links_to h h' ((fld h nxt)(last (hd0 # xs) := Some (hd (ys @ [hd0])), node := Some node))
        ((fld h prev)(hd (ys @ [hd0]) := Some (last (hd0 # xs)), node := Some node))"
  by (rule list_del_init_ring[OF assms])

theorem klist_delete_witness:
  "\<exists>h'. list_del_init klist_ex 2 = Some h' \<and> ring h' 1 [3] \<and> ring h' 2 []"
  using klist_delete[of klist_ex 1 "[]" 2 "[3]"] klist_ex_ring by auto

definition klist_ex2 :: "joseph_node heap" where
  "klist_ex2 = \<lparr>mem = [7 \<mapsto> \<lparr>prev = 9, nxt = 9, jdata = 10\<rparr>, 9 \<mapsto> \<lparr>prev = 7, nxt = 7, jdata = 20\<rparr>],
     avail = [], junk = \<lparr>prev = 0, nxt = 0, jdata = 0\<rparr>\<rparr>"

lemma klist_ex2_ring: "ring klist_ex2 7 [9]"
  by (simp add: klist_ex2_def dring_def sring_def npath.simps(2) fld_def)

text \<open>
  The macro \<open>list_for_each_safe\<close> cannot walk a list: the assignment in its condition takes the truth
  value of the whole conjunction, so after the first element the walk goes on at address 1.
\<close>

theorem klist_safe_iteration_faults:
  assumes "ring h hd0 xs" and "xs \<noteq> []" and "\<not> live h 1"
  shows "list_for_each_safe h hd0 = None"
  by (rule list_for_each_safe_faults[OF assms])

theorem klist_safe_iteration_faults_witness:
  "list_for_each_safe klist_ex2 7 = None"
  using klist_safe_iteration_faults[OF klist_ex2_ring] by (simp add: klist_ex2_def live_def)

text \<open>
  C9. The ring walk of \<open>joesph_loop\<close> implements the Josephus elimination: the node it leaves is the survivor
  of the abstract queue started at the \<open>start\<close>-th node, the ring that remains is that node alone, and
  the loop ends; the bound keeps the 64-bit counter from wrapping.
\<close>

theorem joseph_survivor:
  assumes "ring h hd0 xs" and "xs \<noteq> []" and "2 \<le> unat step" and "(length xs + 1) * unat step < 2 ^ 64"
  shows "\<exists>p h'. joesph_loop h hd0 start step = Some (p, h') \<and> ring h' hd0 [p]
    \<and> jos (unat step) 0 (rotate (joseph_offset start (length xs)) xs) = [p]"
  using joesph_loop_ring[OF assms] by blast

theorem joseph_survivor_witness:
  "\<exists>p h'. joesph_loop klist_ex 1 1 2 = Some (p, h') \<and> ring h' 1 [p]"
  using joseph_survivor[OF klist_ex_ring, of 2 1] by auto

subsection \<open>Search trees\<close>

text \<open>The nodes 1, 2 and 3 hold 5, 3 and 8; the third is not in the tree yet.\<close>

definition btree_ex2 :: "data_info btree_info" where
  "btree_ex2 = \<lparr>root = 1, bmem = \<lparr>mem = [1 \<mapsto> \<lparr>parent = 0, lchild = 2, rchild = 0, bdata = 5\<rparr>,
     2 \<mapsto> \<lparr>parent = 1, lchild = 0, rchild = 0, bdata = 3\<rparr>, 3 \<mapsto> \<lparr>parent = 9, lchild = 9, rchild = 9, bdata = 8\<rparr>],
     avail = [], junk = \<lparr>parent = 0, lchild = 0, rchild = 0, bdata = 0\<rparr>\<rparr>\<rparr>"

lemma btree_ex2_inv: "btree_inv btree_ex2 (Node (Node Leaf 2 Leaf) 1 Leaf)"
  by (simp add: btree_inv_def btree_ex2_def fld_def)

lemma btree_ex2_cmp:
  assumes "fld h bnode_info.more = fld (bmem btree_ex2) bnode_info.more"
  shows "bnode_cmp h 3 1 = Some 3" and "bnode_cmp h 3 2 = Some 5"
proof -
  have d: "rd h bdata q = rd (bmem btree_ex2) bdata q" for q
  proof -
    have "map_option bnode_info.more (mem h q) = map_option bnode_info.more (mem (bmem btree_ex2) q)"
      using fun_cong[OF assms, of q] by (simp add: fld_def)
    then show ?thesis
      by (cases "mem h q"; cases "mem (bmem btree_ex2) q") (auto simp: rd_def fld_def, metis data_info.surjective data_info.select_convs bnode_info.select_convs)
  qed
  show "bnode_cmp h 3 1 = Some 3" "bnode_cmp h 3 2 = Some 5"
    by (simp_all add: bnode_cmp_def d) (simp_all add: btree_ex2_def rd_def fld_def)
qed

text \<open>The tree with all three nodes.\<close>

definition btree_ex :: "data_info btree_info" where
  "btree_ex = \<lparr>root = 1, bmem = \<lparr>mem = [1 \<mapsto> \<lparr>parent = 0, lchild = 2, rchild = 3, bdata = 5\<rparr>,
     2 \<mapsto> \<lparr>parent = 1, lchild = 0, rchild = 0, bdata = 3\<rparr>, 3 \<mapsto> \<lparr>parent = 1, lchild = 0, rchild = 0, bdata = 8\<rparr>],
     avail = [], junk = \<lparr>parent = 0, lchild = 0, rchild = 0, bdata = 0\<rparr>\<rparr>\<rparr>"

abbreviation btree_ex_tree :: "ptr tree" where
  "btree_ex_tree \<equiv> Node (Node Leaf 2 Leaf) 1 (Node Leaf 3 Leaf)"

lemma btree_ex_inv: "btree_inv btree_ex btree_ex_tree"
  by (simp add: btree_inv_def btree_ex_def fld_def)

lemma btree_ex_reads: "reads print_bnode (bmem btree_ex) (set_tree btree_ex_tree)
    (\<lambda>q w. w @ [if q = 1 then 5 else if q = 2 then 3 else 8])"
  by (auto simp: reads_def print_bnode_def btree_ex_def rd_def fld_def)

text \<open>
  C10. \<open>btree_push\<close> implements the insertion into an abstract tree, for every comparison: after it the
  memory represents \<open>ins k x t\<close>, where an equal key goes to the right, all parent links included; the
  data of the nodes are untouched, nothing faults and the search for the place ends.
\<close>

theorem btree_push_refines:
  assumes "btree_inv s t" and "live (bmem s) x" and "x \<notin> set_tree t"
    and "\<And>h q. q \<in> set_tree t \<Longrightarrow> fld h bnode_info.more = fld (bmem s) bnode_info.more \<Longrightarrow>
      cmp h x q = Some (k q)"
  shows "\<exists>s'. btree_push cmp s x = Some s' \<and> btree_inv s' (ins k x t) \<and> same_data s s'"
  by (rule btree_push_inv[where k = k and cmp = cmp, OF assms])

theorem btree_push_refines_witness:
  "\<exists>s'. btree_push bnode_cmp btree_ex2 3 = Some s' \<and> btree_inv s' (Node (Node Leaf 2 Leaf) 1 (Node Leaf 3 Leaf))"
  proof -
  have "\<And>h q. q \<in> set_tree (Node (Node Leaf 2 Leaf) 1 Leaf) \<Longrightarrow>
      fld h bnode_info.more = fld (bmem btree_ex2) bnode_info.more \<Longrightarrow>
      bnode_cmp h 3 q = Some (8 - (if q = 1 then 5 else 3))"
    using btree_ex2_cmp by auto
  from btree_push_refines[where k = "\<lambda>q. 8 - (if q = 1 then 5 else 3)" and cmp = bnode_cmp, OF btree_ex2_inv _ _ this] show ?thesis
    by (auto simp: btree_ex2_def live_def)
qed

text \<open>
  Pushing nodes on an empty tree and traversing it in order delivers their numbers sorted, each as often
  as it was pushed, for numbers whose differences do not overflow \<open>int\<close>.
\<close>

theorem btree_fill_sorts:
  assumes "btree_inv s Leaf" and "distinct xs" and "map (fld (bmem s) bdata) xs = map Some ds" and "NULL \<notin> set xs"
    and "\<forall>a \<in> set ds. \<forall>b \<in> set ds. - (2 ^ 31) \<le> a - b \<and> a - b < 2 ^ 31"
  shows "\<exists>s'. btree_fill bnode_cmp s xs = Some s' \<and> btree_in_order s' print_bnode [] = Some (bmem s', sort ds)"
  by (rule btree_sorts[OF assms])

theorem btree_fill_sorts_witness:
  "\<exists>s'. btree_fill bnode_cmp (btree_ex\<lparr>root := NULL\<rparr>) [3, 1, 2] = Some s'
    \<and> btree_in_order s' print_bnode [] = Some (bmem s', sort [8, 5, 3])"
  by (rule btree_fill_sorts) (simp_all add: btree_inv_def btree_ex_def fld_def)

text \<open>
  The three traversals with an explicit stack visit the nodes in the same order as the recursive ones,
  with the same effect on the memory and on the callback's state, for every callback that leaves the
  links alone; the stack needs one node of memory per tree node and one for its head.
\<close>

theorem btree_traversals_agree:
  assumes "btree_inv s t" and "reads todo (bmem s) (set_tree t) f" and "stack_fresh q0" and "size t < stack_cap q0"
  shows "btree_pre_order_norecur q0 s todo w = btree_pre_order s todo w
    \<and> btree_in_order_norecur q0 s todo w = btree_in_order s todo w
    \<and> btree_post_order_norecur q0 s todo w = btree_post_order s todo w
    \<and> btree_post_order s todo w = Some (bmem s, fold f (postorder t) w)"
  using btree_norecur_orders[OF assms, of w] btree_recursive_orders(3)[OF assms(1,2), of w] by simp

theorem btree_traversals_agree_witness:
  "btree_post_order_norecur (stack_ex 9 0) btree_ex print_bnode [] = Some (bmem btree_ex, [3, 8, 5])"
  using btree_traversals_agree[OF btree_ex_inv btree_ex_reads, of "stack_ex 9 0" "[]"] by (simp add: stack_ex_fresh)

text \<open>
  \<open>btree_level_order\<close> visits a non-empty tree level by level, from left to right.
\<close>

theorem btree_level_by_level:
  assumes "btree_inv s t" and "reads todo (bmem s) (set_tree t) f" and "t \<noteq> Leaf"
    and "stack_fresh q0" and "size t < stack_cap q0"
  shows "btree_level_order q0 s todo w
    = Some (bmem s, fold f (concat (map (\<lambda>d. at_depth d t) [0..<height t])) w)"
  using btree_level_order_levels[OF assms] by (simp add: levels_def)

theorem btree_level_by_level_witness:
  "btree_level_order (stack_ex 9 0) btree_ex print_bnode [] = Some (bmem btree_ex, [5, 3, 8])"
  using btree_level_by_level[OF btree_ex_inv btree_ex_reads, of "stack_ex 9 0" "[]"]
  by (simp add: stack_ex_fresh upt_rec[of 0])

text \<open>
  On an empty tree \<open>btree_level_order\<close> queues the NULL root and hands it to the callback: a callback
  that reads the node faults.
\<close>

theorem btree_level_empty_faults:
  assumes "btree_inv s Leaf" and "stack_fresh q0" and "1 < stack_cap q0"
  shows "btree_level_order q0 s print_bnode w = None"
  by (rule btree_level_order_empty[OF assms(1) _ assms(2,3)]) (simp add: print_bnode_def rd_def)

theorem btree_level_empty_faults_witness:
  "btree_level_order (stack_ex 9 0) (btree_ex\<lparr>root := NULL\<rparr>) print_bnode [] = None"
  by (rule btree_level_empty_faults) (simp_all add: btree_inv_def btree_ex_def stack_ex_fresh)

text \<open>
  In a search tree \<open>btree_find\<close> returns a node whose key compares equal, and NULL when there is none.
\<close>

theorem btree_finds:
  assumes "btree_inv s t" and "sorted (map key (inorder t))"
    and "\<And>q. q \<in> set_tree t \<Longrightarrow> c (bmem s) x q = Some (a - key q :: int)"
  shows "\<exists>q. btree_find c s x = Some q
    \<and> (if a \<in> key ` set_tree t then q \<in> set_tree t \<and> key q = a else q = NULL)"
  proof -
  have "diff.ordered key (inorder t)" using assms(2) by (simp add: diff.ordered_def sorted_map)
  then obtain q where q: "btree_find c s x = Some q"
      "if \<exists>p \<in> set_tree t. a - key p = 0 then q \<in> set_tree t \<and> a - key q = 0 else q = NULL"
    using diff.btree_find_inv[where key = key and a = a and c = c and x = x, OF assms(1) _ subset_UNIV UNIV_I assms(3)]
    by blast
  have "(\<exists>p \<in> set_tree t. a - key p = 0) \<longleftrightarrow> a \<in> key ` set_tree t" by auto
  then show ?thesis using q by auto
qed

theorem btree_finds_witness:
  "\<exists>q. btree_find (\<lambda>h x q. Some (3 - (if q = 1 then 5 else if q = 2 then 3 else 8))) btree_ex 7 = Some q \<and> q = 2"
  using btree_finds[OF btree_ex_inv, of "\<lambda>q. if q = 1 then 5 else if q = 2 then 3 else 8"
    "\<lambda>h x q. Some (3 - (if q = 1 then 5 else if q = 2 then 3 else 8))" 7 3] by (auto split: if_splits)

text \<open>
  C5. \<open>btree_del\<close> removes exactly the given node: in all four cases (leaf, one child, two children, the
  successor adjacent or not) the memory represents a tree again, with all parent links, whose in-order
  sequence is the old one without the node.
\<close>

theorem btree_deletes:
  assumes "btree_inv s t" and "x \<in> set_tree t"
  shows "\<exists>s' t'. btree_del s x = Some (0, s') \<and> btree_inv s' t' \<and> inorder t' = remove1 x (inorder t) \<and> same_data s s'"
  by (rule btree_del_inv[OF assms])

theorem btree_deletes_witness:
  "\<exists>s' t'. btree_del btree_ex 1 = Some (0, s') \<and> btree_inv s' t' \<and> inorder t' = [2, 3]"
  using btree_deletes[OF btree_ex_inv, of 1] by auto

subsection \<open>The hash table\<close>

text \<open>Two buckets at 10 and 11; the person 1, "a", is in the second, the person 2, "b", in none.\<close>

definition hash_ex :: "person hashtable" where
  "hash_ex = \<lparr>table = 10, nmemb = 2, hmem = \<lparr>mem = [10 \<mapsto> \<lparr>prev = 10, nxt = 10, name = [], age = 0\<rparr>,
     11 \<mapsto> \<lparr>prev = 1, nxt = 1, name = [], age = 0\<rparr>, 1 \<mapsto> \<lparr>prev = 11, nxt = 11, name = ''a'', age = 18\<rparr>,
     2 \<mapsto> \<lparr>prev = 9, nxt = 9, name = ''b'', age = 19\<rparr>],
     avail = [], junk = \<lparr>prev = 0, nxt = 0, name = [], age = 0\<rparr>\<rparr>\<rparr>"

lemma hash_ex_inv: "hash_inv hash_ex [[], [1]]"
  by (auto simp: hash_inv_def hash_ex_def heads_def dring_def sring_def npath.simps(2) fld_def less_Suc_eq
      upt_rec[of 0])

text \<open>
  C12. \<open>hash_push\<close> appends the node to the bucket of its hash value and to no other: the representation
  invariant holds with that bucket one longer.
\<close>

theorem hash_push_inserts:
  assumes "hash_inv info bs" and "live (hmem info) x" and "x \<notin> set (concat bs)" and "x \<notin> set (heads info)"
    and "hash (hmem info) x = Some v" and "nmemb info \<noteq> 0"
  shows "\<exists>info'. hash_push hash info x = Some info'
    \<and> hash_inv info' (bs[unat (v mod nmemb info) := bs ! unat (v mod nmemb info) @ [x]])"
  using hash_push_inv[where hash = hash and v = v, OF assms] by blast

theorem hash_push_inserts_witness:
  "\<exists>info'. hash_push hash_xx hash_ex 2 = Some info' \<and> hash_inv info' [[2], [1]]"
  using hash_push_inserts[OF hash_ex_inv, of 2 hash_xx 98]
  by (simp add: hash_ex_def live_def heads_def hash_xx_def rd_def fld_def upt_rec[of 0])

text \<open>
  \<open>hash_find\<close> remembers its last hit: with the cursor on a hit, or on nothing, it returns the next node
  of the bucket that matches the key, so that repeated calls deliver the matches one by one, in the
  order of insertion; NULL at the end, with the cursor left on the head of the bucket.
\<close>

theorem hash_find_next:
  assumes "hash_inv info bs" and "key \<noteq> NULL" and "hash (hmem info) key = Some v" and "nmemb info \<noteq> 0"
    and "\<And>x. x \<in> set (concat bs) \<Longrightarrow> hash_cmp (hmem info) x key = Some (m x)"
    and "bs ! unat (v mod nmemb info) = xs @ ys"
    and "xs = [] \<and> c0 = NULL \<or> xs \<noteq> [] \<and> last xs = c0 \<and> m c0"
  shows "hash_find hash hash_cmp info key c0 = Some (first_match m ys,
    if first_match m ys = NULL then table info + unat (v mod nmemb info) else first_match m ys)"
  by (rule hash_find_from[where hash = hash and hash_cmp = hash_cmp and m = m and xs = xs and cur = c0, OF assms(1-5) refl assms(6)])
    (use assms(7) in auto)

theorem hash_find_next_witness:
  "hash_find hash_xx hashcmp_xx hash_ex 1 NULL = Some (1, 1)"
  using hash_find_next[OF hash_ex_inv, of 1 hash_xx 97 hashcmp_xx "\<lambda>x. x = 1" "[]" "[1]" NULL]
  by (simp add: hash_ex_def hash_xx_def hashcmp_xx_def rd_def fld_def first_match_def)

text \<open>
  After a search without a result the cursor stays on the head of a bucket, and the next call hands that
  head to the client's comparison as if it were an element: when the comparison cannot read it, the
  search faults although the table is intact.
\<close>

theorem hash_find_miss_faults:
  assumes "hash_inv info bs" and "key \<noteq> NULL" and "hash (hmem info) key = Some v" and "nmemb info \<noteq> 0"
    and "\<And>x. x \<in> set (concat bs) \<Longrightarrow> hash_cmp (hmem info) x key = Some False"
    and "\<And>b. b \<in> set (heads info) \<Longrightarrow> hash_cmp (hmem info) b key = None"
  shows "\<exists>c0. hash_find hash hash_cmp info key NULL = Some (NULL, c0)
    \<and> hash_find hash hash_cmp info key c0 = None"
  proof -
  let ?b = "unat (v mod nmemb info)"
  have none: "first_match (\<lambda>x. False) ys = NULL" for ys
    by (induction ys) (auto simp: first_match_def)
  have 1: "hash_find hash hash_cmp info key NULL = Some (NULL, table info + ?b)"
    using hash_find_from[where hash = hash and hash_cmp = hash_cmp and m = "\<lambda>x. False" and xs = "[]" and cur = NULL,
        OF assms(1-4,5) refl] none by simp
  have b: "?b < unat (nmemb info)" using assms(4) by (metis unat_gt_0 unat_mod mod_less_divisor)
  then have "table info + ?b \<in> set (heads info)" by (simp add: heads_def)
  moreover have "table info + ?b \<noteq> NULL"
    using ring_live[of "hmem info" "table info + ?b" "bs ! ?b"] hash_invD(1,3)[OF assms(1)] b live_nonnull by force
  ultimately show ?thesis
    using 1 hash_find_after_miss[where hash = hash and hash_cmp = hash_cmp, OF assms(2-4)] assms(6) by blast
qed

theorem hash_find_miss_faults_witness:
  "\<exists>c0. hash_find hash_xx (\<lambda>h x k. if x < 10 then hashcmp_xx h x k else None) hash_ex 2 NULL = Some (NULL, c0)
    \<and> hash_find hash_xx (\<lambda>h x k. if x < 10 then hashcmp_xx h x k else None) hash_ex 2 c0 = None"
  by (rule hash_find_miss_faults[OF hash_ex_inv])
    (auto simp: hash_ex_def hash_xx_def hashcmp_xx_def rd_def fld_def heads_def)

text \<open>
  \<open>hashtable_destroy\<close> takes every node out of its bucket, leaving each a ring of its own, and frees the
  array of buckets.
\<close>

theorem hash_destroy_clears:
  assumes "hash_inv info bs"
  shows "\<exists>info'. hashtable_destroy info = Some (0, info') \<and> (\<forall>x \<in> set (concat bs). ring (hmem info') x [])
    \<and> (\<forall>p \<in> set (heads info). mem (hmem info') p = None)"
  by (rule hashtable_destroy_inv[OF assms])

theorem hash_destroy_clears_witness:
  "\<exists>info'. hashtable_destroy hash_ex = Some (0, info') \<and> ring (hmem info') 1 [] \<and> mem (hmem info') 10 = None"
  using hash_destroy_clears[OF hash_ex_inv] by (auto simp: heads_def hash_ex_def)

subsection \<open>Sorting\<close>

text \<open>
  C6. When there is memory, each of the six sorting routines of the table terminates without a fault and delivers the elements of
  the array in the order of the comparison, each as often as it was there, for every comparison that is
  a total preorder on the keys; bubble sort, selection, insertion, Shell, merge and quick sort have one
  contract.
\<close>

theorem p_sort_sorts:
  assumes "compare K cmp" and "key ` set xs \<subseteq> K"
    and "\<forall>a \<in> set xs. \<forall>b \<in> set xs. f a b = Some (cmp (key a) (key b))"
    and "unat n = length xs" and "length xs + 3 < 2 ^ 31" and "0 < i" and "i < length (p_sort True qsort zero)"
  shows "\<exists>zs. (p_sort True qsort zero ! i) f n xs = Some zs \<and> mset zs = mset xs
    \<and> sorted_wrt (\<lambda>a b. cmp (key a) (key b) \<le> 0) zs"
  proof -
  have ag: "compare.agrees K cmp key f (set xs)"
    using assms(2,3) by (simp add: compare.agrees_def[OF assms(1)])
  have len: "length xs < 2 ^ 31" using assms(5) by simp
  have "i \<in> {1, 2, 3, 4, 5, 6}" using assms(6,7) by (auto simp: p_sort_def)
  then have "\<exists>zs. (p_sort True qsort zero ! i) f n xs = Some zs \<and> compare.sorts cmp key xs zs"
    using compare.bubble_sort_sorts[OF assms(1) ag assms(4) len] compare.select_sort_sorts[OF assms(1) ag assms(4)]
      compare.insert_sort_sorts[OF assms(1) ag assms(4) len] compare.shell_sort_sorts[OF assms(1) ag assms(4,5)]
      compare.merge_sort_sorts[OF assms(1) ag assms(4), of zero] compare.quick_sort_sorts[OF assms(1) ag assms(4)]
    by (auto simp: p_sort_def)
  then show ?thesis by (simp add: compare.sorts_def[OF assms(1)] compare.ordered_def[OF assms(1)])
qed

theorem p_sort_sorts_witness:
  "\<exists>zs. (p_sort True (\<lambda>f n xs. None) 0 ! 6) (\<lambda>a b. Some (a - b)) 3 [3, 1, 2 :: int] = Some zs \<and> mset zs = mset [3, 1, 2]
    \<and> sorted_wrt (\<lambda>a b. a - b \<le> 0) zs"
  using p_sort_sorts[OF diff.compare_axioms, of "\<lambda>x. x" "[3, 1, 2]" "\<lambda>a b. Some (a - b)" 3 6 "\<lambda>f n xs. None" 0]
  by (simp add: p_sort_def)

text \<open>
  C33. With the comparison of the demo, which subtracts the ages, every routine of the table sorts an array of
  persons by age as long as no age is negative, so that no difference overflows.
\<close>

theorem p_sort_persons:
  assumes "\<forall>p \<in> set ps. 0 \<le> page p \<and> page p < 2 ^ 31" and "unat n = length ps" and "length ps + 3 < 2 ^ 31"
    and "0 < i" and "i < length (p_sort True qsort zero)"
  shows "\<exists>qs. (p_sort True qsort zero ! i) cmp_age n ps = Some qs \<and> map page qs = sort (map page ps)"
  by (rule p_sort_ages[OF assms])

theorem p_sort_persons_witness:
  "\<exists>qs. (p_sort True (\<lambda>f n xs. None) \<lparr>pname = [], page = 0\<rparr> ! 5) cmp_age 2
    [\<lparr>pname = ''a'', page = 3\<rparr>, \<lparr>pname = ''b'', page = 2\<rparr>] = Some qs \<and> map page qs = [2, 3]"
  using p_sort_persons[of "[\<lparr>pname = ''a'', page = 3\<rparr>, \<lparr>pname = ''b'', page = 2\<rparr>]" 2 5
    "\<lambda>f n xs. None" "\<lparr>pname = [], page = 0\<rparr>"] by (simp add: p_sort_def)

subsection \<open>Linear lists\<close>

text \<open>
  \<open>slist_del\<close> of the list without ring takes out the given node wherever it is, the first one included,
  and keeps the order of the others; a node that is not in the list changes nothing.
\<close>

theorem slist_linear_delete:
  assumes "list_nl info ps ds" and "key \<noteq> NULL"
  shows "(key \<notin> set ps \<longrightarrow> slist_del_nl info key = Some info)
    \<and> (\<forall>us vs es d fs. ps = us @ key # vs \<and> ds = es @ d # fs \<and> length us = length es \<longrightarrow>
      (\<exists>info'. slist_del_nl info key = Some info' \<and> list_nl info' (us @ vs) (es @ fs)))"
  using slist_del_nl_missing[OF assms] slist_del_nl_inv assms by blast

theorem slist_linear_delete_witness:
  "slist_del_nl \<lparr>head_data = 0, head_next = 2, smem = slist_ex\<lparr>mem := [2 \<mapsto> \<lparr>data = 7, nxt = 0\<rparr>]\<rparr>\<rparr> 3
    = Some \<lparr>head_data = 0, head_next = 2, smem = slist_ex\<lparr>mem := [2 \<mapsto> \<lparr>data = 7, nxt = 0\<rparr>]\<rparr>\<rparr>"
  using slist_linear_delete[of "\<lparr>head_data = 0, head_next = 2, smem = slist_ex\<lparr>mem := [2 \<mapsto> \<lparr>data = 7, nxt = 0\<rparr>]\<rparr>\<rparr>" "[2]" "[7]" 3]
  by (simp add: nl_inv_def npath.simps(2) fld_def)

text \<open>
  The list without a head node: adding every node of an array at the front and printing delivers the
  numbers in reverse order, whatever the nodes contained before.
\<close>

theorem slist_nohead_reverses:
  assumes "distinct ps" and "\<forall>p \<in> set ps. live h p" and "map (fld h data) ps = map Some ds"
  shows "slist_main_nh h ps = Some (rev ds)"
  by (rule slist_main_nh_spec[OF assms])

theorem slist_nohead_reverses_witness:
  "slist_main_nh slist_ex [2, 3] = Some [8, 7]"
  using slist_nohead_reverses[of "[2, 3]" slist_ex "[7, 8]"] by (simp add: slist_ex_def live_def fld_def)

subsection \<open>Sorting kernel lists\<close>

definition ring_ex :: "sort_node heap" where
  "ring_ex = \<lparr>mem = [1 \<mapsto> \<lparr>prev = 3, nxt = 2, sdata = 0\<rparr>, 2 \<mapsto> \<lparr>prev = 1, nxt = 3, sdata = 6\<rparr>,
     3 \<mapsto> \<lparr>prev = 2, nxt = 1, sdata = 4\<rparr>], avail = [], junk = \<lparr>prev = 0, nxt = 0, sdata = 0\<rparr>\<rparr>"

lemma ring_ex_ring: "ring ring_ex 1 [2, 3]"
  by (simp add: dring_def sring_def ring_ex_def npath.simps(2) fld_def)

text \<open>
  C27. The three sorting routines for kernel lists, which relink the nodes with a temporary node on the stack
  (\<open>tmp\<close>) or by taking a node out and in again, print the numbers of the list in the order of the library's
  \<open>sort\<close>, as long as no difference of two numbers overflows; none of them loops or faults.
\<close>

theorem list_sorts_agree:
  assumes "ring h hd0 ps" and "map (fld h sdata) ps = map Some ds" and "tmp \<noteq> NULL" and "mem h tmp = None"
    and "\<forall>a \<in> set ds. \<forall>b \<in> set ds. - (2 ^ 31) \<le> a - b \<and> a - b < 2 ^ 31"
    and "srt \<in> {list_bubble_sort tmp cmp_list, list_select_sort tmp cmp_list, list_insert_sort cmp_list}"
  shows "\<exists>h' zs. srt h hd0 = Some h' \<and> list_for_each h' hd0 = Some zs \<and> map (fld h' sdata) zs = map Some (sort ds)"
  using assms(6) ring_bubble.srt_prints[OF assms(1-5)] ring_select.srt_prints[OF assms(1-5)] ring_insert.srt_prints[OF assms(1-5)]
  by auto

theorem list_sorts_agree_witness:
  "\<exists>h' zs. list_bubble_sort 9 cmp_list ring_ex 1 = Some h' \<and> list_for_each h' 1 = Some zs
    \<and> map (fld h' sdata) zs = [Some 4, Some 6]"
  using list_sorts_agree[of ring_ex 1 "[2, 3]" "[6, 4]" 9 "list_bubble_sort 9 cmp_list"] ring_ex_ring
  by (simp add: ring_ex_def fld_def)

subsection \<open>The Huffman compressor\<close>

text \<open>A table at 1 to 511 with the head of the list behind it; nothing is initialised.\<close>

definition huff_ex :: huff_info where
  "huff_ex = \<lparr>hm = \<lparr>mem = (\<lambda>p. if 0 < p \<and> p \<le> 512 then Some \<lparr>prev = 0, nxt = 0, tparent = 0, tlchild = 0, trchild = 0,
     weight = 9, code = 9, code_len = 9\<rparr> else None), avail = [], junk = \<lparr>prev = 0, nxt = 0, tparent = 0, tlchild = 0,
     trchild = 0, weight = 0, code = 0, code_len = 0\<rparr>\<rparr>, tab = 1, hhead = 512, hroot = 0, hsize = 0\<rparr>"

lemma huff_ex_mem: "huff_mem huff_ex"
  by (auto simp: huff_mem_def huff_ex_def live_def ALL_NUM_def)

lemma huff_ex_card: "card (set [7, 8, 7 :: cuchar]) = 2"
proof -
  have "set [7, 8, 7 :: cuchar] = {7, 8}" by auto
  then show ?thesis by simp
qed

lemma huff_ex_init: "\<exists>i. huff_init huff_ex = Some (0, i) \<and> huff_ready i"
  using huff_init_ready[OF huff_ex_mem] by blast

text \<open>
  C11. \<open>huff_prepare\<close> implements the reference algorithm: for a source with at least two different bytes the
  table holds the tree that \<open>hbuild\<close> makes of the leaves in the order of their weights, with children,
  parents and root, and the code of every byte of the source is its path from the root, its first bit in
  the lowest place; the code is shorter than the number of different bytes.
\<close>

theorem huff_builds:
  assumes "huff_mem info" and "length src < 2 ^ 31" and "2 \<le> card (set src)"
  shows "\<exists>i0 i1 is. huff_init info = Some (0, i0) \<and> huff_prepare i0 src = Some (0, i1)
    \<and> mset is = mset (bytes_of src) \<and> sorted (map (occurs src) is)
    \<and> tree_of i1 (hbuild (occurs src) 256 (map HLeaf is)) \<and> hroot i1 = idx (hbuild (occurs src) 256 (map HLeaf is))
    \<and> (\<forall>b \<in> set src. \<forall>p. (unat b, p) \<in> set (codes (hbuild (occurs src) 256 (map HLeaf is))) \<longrightarrow>
        unat (tabf i1 code_len (unat b)) = length p \<and> length p < card (set src)
        \<and> (\<forall>k<16. bit (tabf i1 code (unat b)) k \<longleftrightarrow> k < length p \<and> p ! k))"
  proof -
  obtain i0 where i0: "huff_init info = Some (0, i0)" "huff_ready i0"
    using huff_init_ready[OF assms(1)] by blast
  obtain i1 ks where i1: "huff_prepare i0 src = Some (0, i1)" "leaf_order src ks" "tree_of i1 (huff_tree src ks)"
      "hroot i1 = idx (huff_tree src ks)" "\<forall>i \<in> set (bytes_of src). coded i1 (huff_tree src ks) i"
    using huff_prepare_builds[OF i0(2) assms(2)] assms(3) by (auto simp: bytes_of_card)
  have codes: "unat (tabf i1 code_len (unat b)) = length p \<and> length p < card (set src)
      \<and> (\<forall>k<16. bit (tabf i1 code (unat b)) k \<longleftrightarrow> k < length p \<and> p ! k)"
    if "b \<in> set src" "(unat b, p) \<in> set (codes (huff_tree src ks))" for b p
    using huff_prepare_code[OF i1(2,5) assms(3) that] .
  show ?thesis
    using i0(1) i1 codes unfolding huff_tree_def leaf_order_def by blast
qed

theorem huff_builds_witness:
  "\<exists>i0 i1 is. huff_init huff_ex = Some (0, i0) \<and> huff_prepare i0 [7, 8, 7] = Some (0, i1)
    \<and> mset is = mset (bytes_of [7, 8, 7]) \<and> tree_of i1 (hbuild (occurs [7, 8, 7]) 256 (map HLeaf is))"
  proof -
  have l: "length [7, 8, 7 :: cuchar] < 2 ^ 31" "2 \<le> card (set [7, 8, 7 :: cuchar])" using huff_ex_card by simp_all
  show ?thesis using huff_builds[OF huff_ex_mem l] by blast
qed

text \<open>
  C2. Decompressing what was compressed gives the source, on any machine state: for the empty file and for every
  source of at least two and at most 17 different bytes, whatever their order and number below \<open>2 ^ 31\<close>.
  With 17 bytes no code is longer than the 16 bits that \<open>code\<close> has.
\<close>

theorem huff_roundtrip:
  assumes "huff_mem info" and "huff_mem info2" and "length src < 2 ^ 31" and "card (set src) \<noteq> 1" and "card (set src) \<le> 17"
  shows "\<exists>i0 arc i1 i2. huff_init info = Some (0, i0) \<and> huff_compress i0 (Some src) True = Some (0, Some arc, i1)
    \<and> huff_decompress info2 (Some arc) True = Some (0, src, i2)"
  proof -
  obtain i0 where i0: "huff_init info = Some (0, i0)" "huff_ready i0"
    using huff_init_ready[OF assms(1)] by blast
  show ?thesis
  proof (cases "src = []")
    case True
    then show ?thesis using i0(1) huff_roundtrip_empty[OF i0(2) assms(2)] by blast
  next
    case False
    then have "2 \<le> length (bytes_of src)" using assms(4) by (cases "card (set src)") (auto simp: bytes_of_card)
    from huff_roundtrip_coded[OF i0(2) assms(2,3) this] show ?thesis
      using i0(1) assms(5) by (fastforce simp: bytes_of_card)
  qed
qed

theorem huff_roundtrip_witness:
  "\<exists>i0 arc i1 i2. huff_init huff_ex = Some (0, i0) \<and> huff_compress i0 (Some [7, 8, 7]) True = Some (0, Some arc, i1)
    \<and> huff_decompress huff_ex (Some arc) True = Some (0, [7, 8, 7], i2)"
  by (rule huff_roundtrip[OF huff_ex_mem huff_ex_mem]) (simp_all only: huff_ex_card, simp_all)

text \<open>
  A source with one byte only, repeated or not, makes the compressor read \<open>table[511]\<close>, one entry behind
  the table: the only leaf has no parent and is not the root that \<open>hf_build_hufftree\<close> stores.
\<close>

theorem huff_single_byte_faults:
  assumes "huff_mem info" and "length src < 2 ^ 31" and "card (set src) = 1"
  shows "\<exists>i0. huff_init info = Some (0, i0) \<and> huff_compress i0 (Some src) True = None"
  proof -
  obtain i0 where i0: "huff_init info = Some (0, i0)" "huff_ready i0"
    using huff_init_ready[OF assms(1)] by blast
  have "huff_prepare i0 src = None" by (rule huff_prepare_single[OF i0(2) assms(2)]) (simp add: bytes_of_card assms(3))
  then show ?thesis using i0(1) by (simp add: huff_compress_def)
qed

theorem huff_single_byte_faults_witness:
  "\<exists>i0. huff_init huff_ex = Some (0, i0) \<and> huff_compress i0 (Some [7, 7]) True = None"
  using huff_single_byte_faults[OF huff_ex_mem, of "[7, 7]"] by simp

subsection \<open>The serial terminal\<close>

definition os_ex :: "rd_event list \<Rightarrow> os" where
  "os_ex es = \<lparr>tty = \<lparr>c_iflag = 0, c_oflag = 0, c_cflag = 0xB0, c_lflag = 0, c_cc = replicate 19 0\<rparr>, get_ok = True,
     set_ok = True, dev_fd = 3, rds = es, wrs = [], outq = []\<rparr>"

definition term_ex :: term_t where
  "term_ex = \<lparr>fd_dev = 3, attrs = Some (tty (os_ex []))\<rparr>"

text \<open>
  C28. \<open>term_read_nbytes\<close> delivers exactly the next \<open>len\<close> bytes of the line, however they are cut into pieces
  and whichever calls are interrupted by signals; when fewer arrive before a timeout or an error it delivers those
  and reports their number or -1.
\<close>

theorem term_reads_exactly:
  "(n \<le> length (payload (rds env)) \<longrightarrow> (\<exists>env'. term_read_nbytes env n = (int n, take n (payload (rds env)), env')
      \<and> payload (rds env') = drop n (payload (rds env))))
    \<and> (length (payload (rds env)) < n \<longrightarrow> (\<exists>r env'. term_read_nbytes env n = (r, payload (rds env), env')
      \<and> (r = -1 \<or> r = int (length (payload (rds env))))))"
  using term_read_nbytes_enough[of n env] term_read_nbytes_short[of env n] by auto

theorem term_reads_exactly_witness:
  "\<exists>env'. term_read_nbytes (os_ex [Got [104], RdIntr, Got [105, 33]]) 2 = (2, [104, 105], env')"
  using term_reads_exactly[of 2 "os_ex [Got [104], RdIntr, Got [105, 33]]"] by (auto simp: os_ex_def)

text \<open>
  C34. Setting a speed of the table and then 8 data bits, one stop bit and no parity leaves the device with 7 data
  bits, and with a code for the speed that is none of the table's: \<open>term_set_attr\<close> clears the local flags \<open>ECHOE\<close>,
  \<open>ICANON\<close>, \<open>ECHO\<close> and \<open>ISIG\<close> in the control flags, which takes the bits 0xB, as far as they are set, from the code of
  the speed. What is left is 0x1000 for the three fastest speeds and 4 for the others. Both functions report success.
\<close>

theorem term_8n1_is_7n1:
  assumes "attrs info = Some t" and "get_ok env" and "set_ok env" and "i < length name_arr"
  shows "\<exists>info1 env1 info2 env2. term_set_speed env info (name_arr ! i) = Some (0, info1, env1)
    \<and> c_cflag (tty env1) AND CBAUD = speed_arr ! i
    \<and> term_set_attr env1 info1 8 1 CHR ''N'' = Some (Returns (0, info2, env2))
    \<and> c_cflag (tty env2) AND CSIZE = CS7 \<and> c_cflag (tty env2) AND CBAUD = speed_arr ! i AND NOT 0xB
    \<and> c_cflag (tty env2) AND CBAUD = (if i < 3 then 0x1000 else 4) \<and> c_cflag (tty env2) AND CBAUD \<notin> set speed_arr"
  proof -
  have i: "i < length speed_arr" using assms(4) by (simp add: name_arr_def speed_arr_def)
  obtain t1 e1 where s: "term_set_speed env info (name_arr ! i) = Some (0, info\<lparr>attrs := Some t1\<rparr>, e1)" "tty e1 = t1"
      "c_cflag t1 AND CBAUD = speed_arr ! i" "get_ok e1" "set_ok e1"
    using term_set_speed_ok[OF assms(1-3) i] by blast
  obtain i2 e2 where a: "term_set_attr e1 (info\<lparr>attrs := Some t1\<rparr>) 8 1 CHR ''N'' = Some (Returns (0, i2, e2))"
      "c_cflag (tty e2) AND CSIZE = CS7" "c_cflag (tty e2) AND CBAUD = c_cflag (tty e1) AND 0x1004"
    using term_set_attr_8N1[OF _ s(4,5), of "info\<lparr>attrs := Some t1\<rparr>" t1] by auto
  have "c_cflag t1 AND 0x1004 = (c_cflag t1 AND CBAUD) AND NOT 0xB" by (simp add: CBAUD_def and.assoc)
  then have e: "c_cflag (tty e2) AND CBAUD = speed_arr ! i AND NOT 0xB" using s a by simp
  have "i \<in> {0, 1, 2, 3, 4, 5, 6}" using i by (auto simp: speed_arr_def)
  then have "speed_arr ! i AND NOT 0xB = (if i < 3 then 0x1000 else 4)" by (elim insertE emptyE) (simp_all add: speed_arr_def)
  moreover have "0x1000 \<notin> set speed_arr" "4 \<notin> set speed_arr" by (simp_all add: speed_arr_def)
  ultimately show ?thesis using s a(1,2) e by auto
qed

theorem term_8n1_is_7n1_witness:
  "\<exists>info1 env1 info2 env2. term_set_speed (os_ex []) term_ex 115200 = Some (0, info1, env1)
    \<and> c_cflag (tty env1) AND CBAUD = 0x1002
    \<and> term_set_attr env1 info1 8 1 CHR ''N'' = Some (Returns (0, info2, env2))
    \<and> c_cflag (tty env2) AND CSIZE = CS7 \<and> c_cflag (tty env2) AND CBAUD = 0x1000"
  using term_8n1_is_7n1[of term_ex "tty (os_ex [])" "os_ex []" 1] by (simp add: term_ex_def os_ex_def name_arr_def speed_arr_def) blast

subsection \<open>The select servers\<close>

text \<open>A client with descriptor 4 arrives; whoever is asked leaves.\<close>

definition ev_ex :: event where
  "ev_ex = \<lparr>sel_fail = False, ready = {3}, conn = Some 4, input = (\<lambda>_. [])\<rparr>"

definition srv_ex :: srv where
  "srv_ex = (srv_start MAX_ENH 3)\<lparr>cli_fds := [4, 5] @ replicate 18 (-1), ol_con := 2, opened := {3, 4, 5}\<rparr>"

lemma srv_ex_sound: "sound 3 srv_ex [4, 5]" "length (cli_fds srv_ex) = MAX_ENH"
  by (auto simp: sound_def in_front_def srv_ex_def srv_start_def FD_SETSIZE_def MAX_ENH_def)



text \<open>
  C8. A round of the first and of the enhanced server: a new client takes the next place, or is sent the warning and
  closed when all are taken, and every ready client gets the bytes it sent back in upper case, in the order of the
  places; no client is lost.
\<close>

theorem select_serves:
  assumes "(step, MAXC) \<in> {(plain_round, MAX_PLAIN), (enh_round, MAX_ENH)}" and "sound sock s cs" and "length (cli_fds s) = MAXC"
    and "\<not> sel_fail ev" and "sock \<in> ready ev" and "conn ev = Some fd" and "fresh_conn ev s" and "fd < FD_SETSIZE"
    and "\<forall>c \<in> set cs \<inter> ready ev. sends ev c (f c)"
  shows "\<exists>s'. step sock ev s = Some (True, s') \<and> sound sock s' (if length cs < MAXC then cs @ [fd] else cs)
    \<and> sent s' = sent s @ (if length cs < MAXC then [] else [(fd, warn_msg (int MAXC) (int MAXC))])
      @ map (\<lambda>c. (c, map toupper (f c))) (filter (\<lambda>c. c \<in> ready ev) cs)"
  using assms(1) round_accepts[OF plain_answers plain_appends assms(2) _ assms(4-9)]
    round_accepts[OF enh_answers enh_appends assms(2) _ assms(4-9)] assms(3)
  unfolding plain_round_def enh_round_def by auto

theorem select_serves_witness:
  "\<exists>s'. enh_round 3 ev_ex (srv_start MAX_ENH 3) = Some (True, s') \<and> sound 3 s' [4]"
  proof -
  have "sound 3 (srv_start MAX_ENH 3) []" by (simp add: sound_def in_front_def srv_start_def FD_SETSIZE_def)
  moreover have "length (cli_fds (srv_start MAX_ENH 3)) = MAX_ENH" by (simp add: srv_start_def)
  ultimately show ?thesis
    using select_serves[of enh_round MAX_ENH 3 "srv_start MAX_ENH 3" "[]" ev_ex 4]
    by (simp add: ev_ex_def srv_start_def fresh_conn_def FD_SETSIZE_def MAX_ENH_def) blast
qed

text \<open>
  C31. When the first of several clients of the enhanced server leaves, its place becomes a hole: -1 stands in front
  of the others, and \<open>ol_con\<close> is one less. The next request of another client brings the server to the loop over the
  places, whose first call, \<open>FD_ISSET\<close> of -1, is undefined, and so the round. The last client is out of the range of
  that loop: were it the one that is ready, the loop would end behind the hole without serving it.
\<close>

theorem select_hole_faults:
  assumes "sound sock s (fd # cs)" and "length (cli_fds s) = MAX_ENH" and "Suc (length cs) < MAX_ENH" and "distinct (fd # cs)"
    and "\<not> sel_fail ev" and "insert sock (set (fd # cs)) \<inter> ready ev = {fd}" and "leaves ev fd"
  shows "\<exists>s' k. enh_round sock ev s = Some (True, s') \<and> cli_fds s' = -1 # cs @ replicate k (-1) \<and> ol_con s' = int (length cs)
    \<and> opened s' = opened s - {fd}
    \<and> (\<forall>ev'. \<not> sel_fail ev' \<and> sock \<notin> ready ev' \<and> set cs \<inter> ready ev' \<noteq> {} \<longrightarrow> enh_round sock ev' s' = None
      \<and> (\<exists>t. cli_fds t = cli_fds s' \<and> ol_con t = ol_con s' \<and> rd_set t = set cs \<inter> ready ev'
        \<and> enh_round sock ev' s' = map_option (Pair True) (serve_loop enh_handler MAX_ENH ev' 0 t)
        \<and> fd_isset (cli_fds t ! 0) (rd_set t) = None
        \<and> (set cs \<inter> ready ev' = {last cs} \<longrightarrow> serve_loop enh_handler MAX_ENH ev' 1 t = Some t)))"
  by (rule enh_leave_hole[OF assms])

theorem select_hole_faults_witness:
  "\<exists>s'. enh_round 3 (ev_ex\<lparr>ready := {4}\<rparr>) srv_ex = Some (True, s') \<and> ol_con s' = 1 \<and> cli_fds s' ! 0 = -1 \<and> cli_fds s' ! 1 = 5
    \<and> enh_round 3 (ev_ex\<lparr>ready := {5}\<rparr>) s' = None"
  proof -
  have l: "leaves (ev_ex\<lparr>ready := {4}\<rparr>) 4" by (simp add: leaves_def ev_ex_def)
  have n: "Suc (length [5 :: int]) < MAX_ENH" "distinct [4, 5 :: int]" "\<not> sel_fail (ev_ex\<lparr>ready := {4}\<rparr>)"
      "insert 3 (set [4, 5]) \<inter> ready (ev_ex\<lparr>ready := {4}\<rparr>) = {4}" by (auto simp: MAX_ENH_def ev_ex_def)
  obtain s' k where s': "enh_round 3 (ev_ex\<lparr>ready := {4}\<rparr>) srv_ex = Some (True, s')" "cli_fds s' = -1 # [5] @ replicate k (-1)"
      "ol_con s' = int (length [5 :: int])" and
      f: "\<forall>ev'. \<not> sel_fail ev' \<and> 3 \<notin> ready ev' \<and> set [5] \<inter> ready ev' \<noteq> {} \<longrightarrow> enh_round 3 ev' s' = None"
    using select_hole_faults[OF srv_ex_sound n l]
    by - (elim exE conjE, rule that, assumption, assumption, assumption, intro allI impI, drule spec, drule (1) mp, erule conjunct1)
  have "enh_round 3 (ev_ex\<lparr>ready := {5}\<rparr>) s' = None" using f[rule_format, of "ev_ex\<lparr>ready := {5}\<rparr>"] by (simp add: ev_ex_def)
  then show ?thesis using s' by (intro exI[of _ s']) simp
qed

subsection \<open>The chat room\<close>

definition chat_ex :: chat where
  "chat_ex = (let u = \<lparr>list_head.prev = 1, list_head.nxt = 1, uid = 0, uname = []\<rparr> in
     \<lparr>um = \<lparr>mem = [1 \<mapsto> u], avail = [2, 3], junk = u\<rparr>, uhead = 1, mq = [], mtext = replicate TEXT_SIZE 0, overlapping = forward_copy\<rparr>)"

lemma chat_ex_inv: "chat_inv chat_ex []"
  by (auto simp: chat_inv_def chat_ex_def Let_def fresh_avail_def users_def dring_def sring_def fld_def npath.simps)

text \<open>
  C14. Client and server of the chat room together: the message of a login makes the server append the user to its
  list, with the number \<open>pid mod 100\<close>, and queue one announcement for every user whose number is positive, the new one
  included. For a number below 10 the name arrives without its first letter.
\<close>

theorem chat_login:
  assumes "chat_inv s us" and "avail (um s) \<noteq> []" and "name_ok nm" and "nm \<noteq> []" and "mq s = []" and "0 < t"
  shows "\<exists>s1 s2. client_login t pid nm s = Some s1 \<and> server_turn s1 = Some (True, s2) \<and>
    (let i = pid mod 100; nm' = (if i < 10 then tl nm else nm) in chat_inv s2 (us @ [(i, nm')])
      \<and> mq s2 = map (\<lambda>j. (j, online_text i nm' @ [0])) (filter (\<lambda>j. 0 < j) (map fst us @ [i])))"
  by (rule login_registered[OF assms])

theorem chat_login_witness:
  "\<exists>s1 s2. client_login 1 4205 [98, 111, 98] chat_ex = Some s1 \<and> server_turn s1 = Some (True, s2) \<and> chat_inv s2 [(5, [111, 98])]"
  using chat_login[OF chat_ex_inv, of "[98, 111, 98]" 1 4205]
  by (simp add: chat_ex_def name_ok_def MAX_NAME_def Let_def empty_heap_def) blast

text \<open>
  C30. A chat message never gets through the server to the client it is for, whatever its number, its text and
  what becomes of the overlapping copy in the server: the server reads the number from behind its first character, and
  with it a smaller one. If the turn of the server has a result at all, the message is in the queue for that number, or
  nowhere when it is 0. Where the copy runs from front to back, a message for a client from 10 to 99 goes to the number
  in its last digit and has lost its first byte: \<open>C:12:hello\<close> goes to client 2 as \<open>ello\<close>.
\<close>

theorem chat_misroutes:
  assumes "chat_inv s us" and "mq s = []" and "0 < i" and "0 \<notin> set msg"
  shows "0 \<le> misread (int i) msg \<and> misread (int i) msg < int i
    \<and> (\<forall>on s'. server_turn (client_chat (int i) msg s) = Some (on, s') \<longrightarrow> on \<and> chat_inv s' us
      \<and> (\<exists>txt. mq s' = (if misread (int i) msg = 0 then [] else [(misread (int i) msg, txt @ [0])])))
    \<and> (overlapping s = forward_copy \<and> 10 \<le> i \<and> i < 100 \<and> msg \<noteq> [] \<and> length msg < 200 \<longrightarrow>
      (\<exists>s'. server_turn (client_chat (int i) msg s) = Some (True, s') \<and> chat_inv s' us
        \<and> mq s' = (if i mod 10 = 0 then [] else [(int (i mod 10), tl msg @ [0])])))"
  proof (intro conjI impI allI)
  show "0 \<le> misread (int i) msg" "misread (int i) msg < int i" using misread_less[OF assms(3)] by simp_all
  show "on" "chat_inv s' us" "\<exists>txt. mq s' = (if misread (int i) msg = 0 then [] else [(misread (int i) msg, txt @ [0])])"
    if "server_turn (client_chat (int i) msg s) = Some (on, s')" for on s'
    using server_turn_chat_any[OF assms that] by simp_all
  show "\<exists>s'. server_turn (client_chat (int i) msg s) = Some (True, s') \<and> chat_inv s' us
        \<and> mq s' = (if i mod 10 = 0 then [] else [(int (i mod 10), tl msg @ [0])])"
    if "overlapping s = forward_copy \<and> 10 \<le> i \<and> i < 100 \<and> msg \<noteq> [] \<and> length msg < 200"
    using server_turn_chat[OF assms(1,2), of i msg] assms(4) that by simp
qed

theorem chat_misroutes_witness:
  "\<exists>s'. server_turn (client_chat (int 12) [104, 105] chat_ex) = Some (True, s') \<and> mq s' = [(2, [105, 0])]"
  using chat_misroutes[OF chat_ex_inv, of 12 "[104, 105]"] by (auto simp: chat_ex_def Let_def)

text \<open>
  The server answers a request for the list with one \<open>#id#name$\<close> per user, in the order of the logins, and
  leaves its users alone, as long as the text fits into the 255 bytes of the message; otherwise \<open>strncat\<close>, which is
  given the size of the whole buffer, writes behind its end.
\<close>

theorem chat_lists:
  assumes "chat_inv s us" and "mq s = []" and "0 < t" and "i < 100"
  shows "map_option (\<lambda>(on, s'). (on, um s', mq s')) (server_turn (client_list t (int i) s)) =
    (let answer = lit ''L:00:'' @ concat (map user_text us) in
     if length answer < TEXT_SIZE then Some (True, um s, if i = 0 then [] else [(int i, answer @ [0])]) else None)"
  using server_turn_list[OF assms] .

theorem chat_lists_witness:
  "map_option (\<lambda>(on, s'). (on, um s', mq s')) (server_turn (client_list 1 (int 7) chat_ex))
    = Some (True, um chat_ex, [(7, lit ''L:00:'' @ [0])])"
  using chat_lists[OF chat_ex_inv, of 1 7] by (simp add: chat_ex_def Let_def lit_def TEXT_SIZE_def)

subsection \<open>Threads\<close>

text \<open>A schedule that switches between the threads, to the end.\<close>

definition demo_schedule :: "demo_tid list" where
  "demo_schedule = [Main, Main] @ concat (replicate 10 (replicate 6 T1 @ replicate 7 T2)) @ [T1, T2, Main, Main, Main]"

lemma demo_schedule_ends: "\<exists>s. run (demo_prog (\<lambda>_. True)) demo_schedule demo_init = Some s \<and> main_pc s = M_Return"
proof -
  have "map_option main_pc (run (demo_prog (\<lambda>_. True)) demo_schedule demo_init) = Some M_Return" by code_simp
  then show ?thesis by auto
qed

text \<open>
  C15. Two threads that count under a mutex: in no reachable state are both in the critical section, no thread gives
  back a mutex it does not have and it is not destroyed while taken; when \<open>main\<close> returns the counter is 20, and the
  ten numbers printed are increasing.
\<close>

theorem mutex_counts:
  assumes "reach (demo_prog created) demo_init s"
  shows "\<not> (demo_holds T1 s \<and> demo_holds T2 s) \<and> demo_prog created t s \<noteq> Faults
    \<and> (main_pc s = M_Return \<longrightarrow> i_gloabl_n s = 20 \<and> main_arg s = 10 \<and> length (lines s) = 10 \<and> sorted_wrt (<) (map unat (lines s)))"
  using demo.mutual_exclusion[OF assms, of T1 T2] demo_no_fault[OF assms] demo_result[OF assms] by auto

theorem mutex_counts_witness:
  "\<exists>s. run (demo_prog (\<lambda>_. True)) demo_schedule demo_init = Some s \<and> i_gloabl_n s = 20"
  proof -
  obtain s where s: "run (demo_prog (\<lambda>_. True)) demo_schedule demo_init = Some s" "main_pc s = M_Return"
    using demo_schedule_ends by blast
  then have "reach (demo_prog (\<lambda>_. True)) demo_init s" unfolding reach_run by blast
  then show ?thesis using mutex_counts[of "\<lambda>_. True" s T1] s by blast
qed

text \<open>
  C35. That program ends under every schedule, after at most 149 steps: no run is longer, a state in which no
  thread can go on is one where \<open>main\<close> has returned or given up, and every run can be prolonged to such a state.
\<close>

theorem mutex_ends:
  assumes "run (demo_prog created) ts demo_init = Some s"
  shows "length ts \<le> 149 \<and> (stuck (demo_prog created) s \<longrightarrow> main_pc s \<in> {M_Return, M_Exit})
    \<and> (\<exists>us s'. run (demo_prog created) us s = Some s' \<and> main_pc s' \<in> {M_Return, M_Exit})"
  proof -
  have r: "reach (demo_prog created) demo_init s" unfolding reach_run using assms by blast
  have inv: "demo_ctl demo_init" "demo_ctl s" by (rule demo_ctl_init) (rule demo.reach_inv[OF r])
  have "demo_weight demo_init = 149" by (simp add: demo_weight_def demo_init_def)
  then have "length ts \<le> 149" using demo_end.run_bound[OF inv(1) assms] by simp
  moreover obtain us s' where us: "run (demo_prog created) us s = Some s'" "stuck (demo_prog created) s'"
    using demo_end.run_to_end[OF inv(2)] by blast
  moreover have "reach (demo_prog created) demo_init s'" unfolding reach_run using run_SomeI[OF assms us(1)] by blast
  ultimately show ?thesis using demo_no_deadlock[OF r] demo_no_deadlock by blast
qed

theorem mutex_ends_witness:
  "length demo_schedule \<le> 149"
  using mutex_ends[of "\<lambda>_. True" demo_schedule] demo_schedule_ends by blast

text \<open>
  C36. Producer and consumer: in every reachable state \<open>data\<close> is not negative, the two are never in their critical
  sections at once, nothing undefined happens, and what lies there plus one for every finished round of the consumer
  is at most what was there at the start and has been produced.
\<close>

theorem procon_safe:
  assumes "reach (procon_prog created) procon_init s"
  shows "0 \<le> pc_data s \<and> \<not> (procon_holds Producer s \<and> procon_holds Consumer s) \<and> procon_prog created t s \<noteq> Faults
    \<and> pc_data s + rounds s \<le> produced s"
  using pc.reach_data[OF assms] pc.mutual_exclusion[OF assms, of Producer Consumer] procon_no_fault[OF assms]
  by (auto simp: procon_data_def)

theorem procon_safe_witness:
  "\<exists>s. run (procon_prog (\<lambda>_. True)) (Main_thr # replicate 3 Producer) procon_init = Some s \<and> pc_data s + rounds s \<le> produced s"
  proof -
  obtain s where s: "run (procon_prog (\<lambda>_. True)) (Main_thr # replicate 3 Producer) procon_init = Some s"
    by (simp add: procon_init_def procon_run eval_nat_numeral)
  then have "reach (procon_prog (\<lambda>_. True)) procon_init s" unfolding reach_run by blast
  then show ?thesis using procon_safe[of "\<lambda>_. True" s Producer] s by blast
qed

text \<open>
  C25. Whether that program ends depends on the schedule: when the two take turns it returns 0, but once the
  consumer has taken several items in one round it can run out of items with rounds left to go, waits for ever, and
  \<open>main\<close> never returns, whatever is scheduled from there on.
\<close>

theorem procon_outcomes:
  assumes "created Producer" and "created Consumer"
  shows "(\<exists>ts s. run (procon_prog created) ts procon_init = Some s \<and> pc_main s = PM_Returned 0)
    \<and> (\<exists>s. reach (procon_prog created) procon_init s \<and> (\<forall>ts s'. run (procon_prog created) ts s = Some s' \<longrightarrow> \<not> returned s'))"
  proof -
  obtain s where s: "reach (procon_prog created) procon_init s" "hung s" using procon_may_hang[of created] assms by blast
  have "\<not> returned s'" if "run (procon_prog created) ts s = Some s'" for ts s'
  proof -
    have "reach (procon_prog created) s s'" unfolding reach_run using that by blast
    then show ?thesis by (rule hung_forever[OF s(2)])
  qed
  then show ?thesis using procon_may_end[of created] assms s(1) by blast
qed

theorem procon_outcomes_witness:
  "\<exists>s. reach (procon_prog (\<lambda>_. True)) procon_init s \<and> (\<forall>ts s'. run (procon_prog (\<lambda>_. True)) ts s = Some s' \<longrightarrow> \<not> returned s')"
  using procon_outcomes[of "\<lambda>_. True"] by blast

definition reader_schedule :: "rd_tid list" where
  "reader_schedule = [RMain, RMain, RMain] @ replicate 6 (Thr 0) @ replicate 7 (Thr 1) @ replicate 3 (Thr 0) @ replicate 3 (Thr 1) @ replicate 4 RMain"

lemma reader_schedule_ends:
  "\<exists>s. run (reader_prog (\<lambda>_. True) 2) reader_schedule (reader_init [Got [1, 2], RdIntr, Got [3]]) = Some s \<and> rmain s = RM_Return"
proof -
  have "map_option rmain (run (reader_prog (\<lambda>_. True) 2) reader_schedule (reader_init [Got [1, 2], RdIntr, Got [3]])) = Some RM_Return"
    by code_simp
  then show ?thesis by auto
qed

text \<open>
  C16. Any number of threads that read one file together: when \<open>main\<close> prints, every thread has ended with 0 or -1,
  what is printed plus what is left unread is the size of the file, as an \<open>int\<close> of 32 bits, and it is the size of the
  file as soon as one thread came to the end, however the reads were interrupted or failed for others.
\<close>

theorem reader_totals:
  assumes "reach (reader_prog created n) (reader_init es) s" and "rmain s = RM_Return"
  shows "rprinted s = Some (total_size s) \<and> total_size s + of_nat (unread (rfile s)) = of_nat (unread es)
    \<and> (\<forall>k < n. rpc s k \<in> {R_Exited 0, R_Exited (-1)}) \<and> ((\<exists>k < n. rpc s k = R_Exited 0) \<longrightarrow> total_size s = of_nat (unread es))"
  by (rule reader_result[OF assms])

theorem reader_totals_witness:
  "\<exists>s. run (reader_prog (\<lambda>_. True) 2) reader_schedule (reader_init [Got [1, 2], RdIntr, Got [3]]) = Some s \<and> rprinted s = Some (total_size s)"
  proof -
  obtain s where s: "run (reader_prog (\<lambda>_. True) 2) reader_schedule (reader_init [Got [1, 2], RdIntr, Got [3]]) = Some s" "rmain s = RM_Return"
    using reader_schedule_ends by blast
  then have "reach (reader_prog (\<lambda>_. True) 2) (reader_init [Got [1, 2], RdIntr, Got [3]]) s" unfolding reach_run by blast
  then show ?thesis using reader_totals[of "\<lambda>_. True" 2 "[Got [1, 2], RdIntr, Got [3]]" s] s by blast
qed

text \<open>
  The readers end under every schedule: the number of steps is bounded by the results of \<open>read\<close> and the number
  of threads, and every run can be prolonged to one in which \<open>main\<close> has returned or given up.
\<close>

theorem reader_ends:
  assumes "run (reader_prog created n) ts (reader_init es) = Some s"
  shows "length ts \<le> 8 * event_size es + 9 * n + 3 \<and> reader_prog created n t s \<noteq> Faults
    \<and> (\<exists>us s'. run (reader_prog created n) us s = Some s' \<and> rmain s' \<in> {RM_Return, RM_Exit})"
  proof -
  have r: "reach (reader_prog created n) (reader_init es) s" unfolding reach_run using assms by blast
  have inv: "reader_ctl n (reader_init es)" "reader_ctl n s" by (rule rd.reach_inv[OF reach_start]) (rule rd.reach_inv[OF r])
  have "length ts \<le> 8 * event_size es + 9 * n + 3" using rd_end.run_bound[OF inv(1) assms] by (simp add: reader_init_weight)
  moreover obtain us s' where us: "run (reader_prog created n) us s = Some s'" "stuck (reader_prog created n) s'"
    using rd_end.run_to_end[OF inv(2)] by blast
  moreover have "reach (reader_prog created n) (reader_init es) s'" unfolding reach_run using run_SomeI[OF assms us(1)] by blast
  ultimately show ?thesis using reader_no_deadlock reader_no_fault[OF r] by blast
qed

theorem reader_ends_witness:
  "length reader_schedule \<le> 8 * event_size [Got [1, 2], RdIntr, Got [3]] + 9 * 2 + 3"
  using reader_ends[of "\<lambda>_. True" 2 reader_schedule "[Got [1, 2], RdIntr, Got [3]]"] reader_schedule_ends by blast

subsection \<open>The address book\<close>

definition book_ex :: "nat \<Rightarrow> input list \<Rightarrow> book" where
  "book_ex n ks = (let u = \<lparr>list_head.prev = 1, list_head.nxt = 1, lname = replicate MAX_LNAME 0, ltel = replicate MAX_TEL 0,
     lemail = replicate MAX_EMAIL 0, lcompany = replicate CO_SIZE 0, laddress = replicate ADDR_SIZE 0, lpost = replicate POST_NUM 0,
     lspell = replicate MAX_SPELL 0\<rparr> in
     \<lparr>people = \<lparr>mem = [1 \<mapsto> u], avail = [2..<n + 2], junk = u\<rparr>, address_list = 1, typed = ks, screen = []\<rparr>)"

lemma book_ex_sel: "avail (people (book_ex n ks)) = [2..<n + 2]" "typed (book_ex n ks) = ks" "address_list (book_ex n ks) = 1"
  by (simp_all add: book_ex_def Let_def)

lemma book_ex_fresh: "book_fresh (book_ex n ks)"
  by (auto simp: book_fresh_def book_ex_def Let_def fresh_avail_def live_def bufs_def sizes_def)

lemma book_ex_inv: "book_inv (book_ex n ks) []"
  by (auto simp: book_inv_def book_ex_def Let_def fresh_avail_def holds_entries_def bufs_def sizes_def fld_def)

definition form_ex :: "cuchar list list" where
  "form_ex = [lit ''Ann'', lit ''an'', lit ''123'', lit ''a'', lit ''C'', lit ''D'', lit ''45'']"

lemma form_ex_ok: "form_ok form_ex"
proof -
  have "\<forall>w \<in> set form_ex. 0 \<notin> set w" by (simp add: form_ex_def lit_def)
  moreover have "length (form_ex ! k) < sizes ! k" if "k < 7" for k
  proof -
    have "k \<in> {0, 1, 2, 3, 4, 5, 6}" using that by auto
    then show ?thesis by (elim insertE emptyE) (simp_all add: form_ex_def lit_def sizes_def MAX_LNAME_def MAX_SPELL_def MAX_TEL_def
        MAX_EMAIL_def CO_SIZE_def ADDR_SIZE_def POST_NUM_def)
  qed
  ultimately show ?thesis by (simp add: form_ok_def) (simp add: form_ex_def)
qed

text \<open>A book with the entry of this form, and what the user types next.\<close>

lemma book_one_entry: "\<exists>s e. book_inv (s\<lparr>typed := ks\<rparr>) [e] \<and> map cstr e = form_ex"
proof -
  let ?s = "book_ex 2 (map Word_in form_ex @ Char_in (of_char CHR ''Y'') # [])"
  have "avail (people ?s) \<noteq> []" by (simp add: book_ex_sel)
  then obtain s' e where "book_inv s' ([] @ [e])" "map cstr e = form_ex"
    using add_confirmed[OF book_ex_inv, of 2 _ form_ex "of_char CHR ''Y''" "[]"] form_ex_ok
    by (auto simp: form_ok_def is_key_def book_ex_sel)
  then show ?thesis by (intro exI[of _ s'] exI[of _ e]) (simp add: book_inv_def)
qed

lemma form_ex_named: "map cstr e = form_ex \<Longrightarrow> named w e \<longleftrightarrow> w = lit ''Ann'' \<or> w = lit ''123''"
  by (auto simp: named_def form_ex_def)

text \<open>
  C17. A session with the address book: whoever enters any forms that fit, confirms each, exports and quits gets a file
  with the texts of the forms in their order, the postal code left out, and the list is empty at the end.
\<close>

theorem book_session:
  assumes "book_fresh s" and "length wss \<le> length (avail (people s))" and "\<forall>ws \<in> set wss. form_ok ws"
    and "typed s = concat (map type_form wss) @ [Num_in 5, Num_in 0]"
  shows "\<exists>s'. address_main True out s = Some (Some (concat (map saved_form wss)), s') \<and> KernelList.ring (people s') (address_list s) []"
  by (rule address_main_session[OF assms])

theorem book_session_witness:
  "\<exists>s'. address_main True None (book_ex 2 (type_form form_ex @ [Num_in 5, Num_in 0])) = Some (Some (saved_form form_ex), s')"
  using book_session[of "book_ex 2 (type_form form_ex @ [Num_in 5, Num_in 0])" "[form_ex]" None] book_ex_fresh form_ex_ok
  by (auto simp: book_ex_sel)

text \<open>
  C37. Adding an entry, confirmed or not, keeps the book well formed: a proper ring of entries whose seven arrays have their
  sizes and a terminating zero; the confirmed entry is at the end and holds what was typed. After the answer "no" the
  form is filled again in memory that has been freed.
\<close>

theorem book_well_formed:
  assumes "book_inv s es" and "avail (people s) \<noteq> []" and "form_ok ws" and "typed s = map Word_in ws @ Char_in c # ks"
  shows "(is_key CHR ''Y'' CHR ''y'' c \<longrightarrow> (\<exists>s' e. add_link_man s = Some s' \<and> book_inv s' (es @ [e]) \<and> map cstr e = ws))
    \<and> (is_key CHR ''N'' CHR ''n'' c \<longrightarrow> add_link_man s = None)
    \<and> (\<not> is_key CHR ''Y'' CHR ''y'' c \<and> \<not> is_key CHR ''N'' CHR ''n'' c \<longrightarrow> (\<exists>s'. add_link_man s = Some s' \<and> book_inv s' es))"
  proof -
  have "\<not> (is_key CHR ''Y'' CHR ''y'' c \<and> is_key CHR ''N'' CHR ''n'' c)" by (auto simp: is_key_def)
  moreover note add_not_confirmed[OF assms(1,2) _ _ assms(4)] add_confirmed[OF assms(1,2) _ _ _ assms(4)]
  ultimately show ?thesis using assms(3) unfolding form_ok_def by (metis (full_types))
qed

theorem book_well_formed_witness:
  "\<exists>s' e. add_link_man (book_ex 1 (map Word_in form_ex @ [Char_in (of_char CHR ''Y'')])) = Some s' \<and> book_inv s' ([] @ [e])"
  using book_well_formed[OF book_ex_inv[of 1 "map Word_in form_ex @ [Char_in (of_char CHR ''Y'')]"] _ form_ex_ok, of "of_char CHR ''Y''" "[]"]
  by (auto simp: book_ex_sel is_key_def)

text \<open>
  Only the first entry of the address book can be deleted: when the word is its name or number it is taken out
  and freed after the confirmation, and for any other word, the name of a later entry included, the answer is "not found".
\<close>

theorem book_deletes_first:
  assumes "book_inv s (e # es)" and "typed s = Num_in 2 # Word_in w # Char_in c # ks" and "length w < 20" and "is_key CHR ''Y'' CHR ''y'' c"
  shows "if named w e then \<exists>s'. update_link_man s = Some s' \<and> book_inv s' es \<and> typed s' = ks
    else update_link_man s = Some (not_found (s\<lparr>typed := Char_in c # ks\<rparr>))"
  using delete_entry[OF assms(1-3) _ assms(4)] delete_other[OF assms(1,2,3)] by simp

theorem book_deletes_first_witness:
  "\<exists>s s'. update_link_man s = Some s' \<and> book_inv s' []"
  proof -
  obtain s e where s: "book_inv (s\<lparr>typed := [Num_in 2, Word_in (lit ''Ann''), Char_in (of_char CHR ''Y'')]\<rparr>) [e]" "map cstr e = form_ex"
    using book_one_entry by blast
  have "named (lit ''Ann'') e" using form_ex_named[OF s(2)] by simp
  then show ?thesis
    using book_deletes_first[OF s(1), of "lit ''Ann''" "of_char CHR ''Y''" "[]"] by (auto simp: lit_def is_key_def)
qed

text \<open>
  Changing a text of the first entry that has the name or number overwrites its letters without ending the
  text: the rest of a longer old text stays, and the choice of the mail address changes the name; the other entries
  are left alone.
\<close>

theorem book_changes:
  assumes "book_inv s (es @ e # es2)" and "\<forall>x \<in> set es. \<not> named w x" and "named w e" and "length w < 20" and "1 \<le> i" and "i \<le> 7"
    and "typed s = Num_in 1 # Word_in w # Num_in i # Word_in v # Char_in c # ks"
    and "0 \<notin> set v" and "length v \<le> length (cstr (e ! chosen i))" and "length v < 20"
  shows "\<exists>s' b. update_link_man s = Some s' \<and> book_inv s' (es @ e[chosen i := b] # es2)
    \<and> cstr b = v @ drop (length v) (cstr (e ! chosen i)) \<and> (i = 4 \<longrightarrow> chosen i = 0)"
  using change_entry_first[OF assms] by (auto simp: chosen_def)

theorem book_changes_witness:
  "\<exists>s s' e b. update_link_man s = Some s' \<and> book_inv s' [e[0 := b]] \<and> cstr b = lit ''Bon''"
  proof -
  obtain s e where s: "book_inv (s\<lparr>typed := [Num_in 1, Word_in (lit ''Ann''), Num_in 4, Word_in (lit ''Bo''), Char_in (of_char CHR ''Y'')]\<rparr>) [e]"
      "map cstr e = form_ex"
    using book_one_entry by blast
  let ?s = "s\<lparr>typed := [Num_in 1, Word_in (lit ''Ann''), Num_in 4, Word_in (lit ''Bo''), Char_in (of_char CHR ''Y'')]\<rparr>"
  have n: "named (lit ''Ann'') e" using form_ex_named[OF s(2)] by simp
  have "length e = 7" using arg_cong[OF s(2), of length] by (simp add: form_ex_def)
  then have e0: "cstr (e ! 0) = lit ''Ann''" using arg_cong[OF s(2), of "\<lambda>xs. xs ! 0"] by (simp add: form_ex_def)
  have "\<exists>s' b. update_link_man ?s = Some s' \<and> book_inv s' ([] @ e[chosen 4 := b] # []) \<and> cstr b = lit ''Bo'' @ drop (length (lit ''Bo'')) (cstr (e ! chosen 4))
      \<and> (4 = (4 :: int) \<longrightarrow> chosen 4 = 0)"
    by (rule book_changes) (use s n e0 in \<open>simp_all add: lit_def chosen_def\<close>)
  then obtain s' b where "update_link_man ?s = Some s'" "book_inv s' [e[0 := b]]" "cstr b = lit ''Bo'' @ drop (length (lit ''Bo'')) (lit ''Ann'')"
    unfolding append_Nil e0[symmetric] by (auto simp: chosen_def)
  then show ?thesis by (auto simp: lit_def)
qed

subsection \<open>Processes that share streams, queues and semaphores\<close>

text \<open>
  C18. The server with a process per client and its client: however the connection cuts the streams into pieces and
  whoever is scheduled, what the client has read is the beginning of what it wrote, in capital letters; and it is all of
  it whenever the client is open, nothing is under way and the server is not about to write.
\<close>

theorem tcp_capitals_only:
  assumes "reach tcp_prog (tcp_init flt bs) s"
  shows "(\<exists>rest. map toupper (wrote s) = received s @ rest)
    \<and> (cli_pc s \<noteq> K_Closed \<and> up s = [] \<and> down s = [] \<and> srv_pc s \<noteq> T_Write \<longrightarrow> received s = map toupper (wrote s))"
  using tcp_capitals[OF assms] by blast

theorem tcp_capitals_only_witness:
  "\<exists>s. run tcp_prog [Cli 0, Srv 2, Srv 0, Cli 1, Cli 0, Srv 1] (tcp_init False [104, 105, 10, 121, 10]) = Some s \<and> wrote s = [104, 105, 121]
    \<and> (\<exists>rest. map toupper (wrote s) = received s @ rest)"
  proof -
  obtain s where s: "run tcp_prog [Cli 0, Srv 2, Srv 0, Cli 1, Cli 0, Srv 1] (tcp_init False [104, 105, 10, 121, 10]) = Some s" "wrote s = [104, 105, 121]"
    using fgets_line_newline[of "[104, 105]" 1022 "[121, 10]"] fgets_line_newline[of "[121]" 1022 "[]"]
    by (simp add: tcp_init_def tcp_prog_simps tcp_client_def tcp_handler_def CLI_BUF_def TCP_BUF_def cstr_def)
  then have "reach tcp_prog (tcp_init False [104, 105, 10, 121, 10]) s" unfolding reach_run by blast
  then show ?thesis using tcp_capitals_only[of False "[104, 105, 10, 121, 10]" s] s by blast
qed

text \<open>
  C38. Sessions with that server on a connection without errors. When the lines typed are not empty and fit into the
  buffer, then under every schedule and however the streams are cut: a run has at most six steps per typed byte and two
  more, it can be continued until nobody can go on, and then both processes have ended, every line was sent and the
  client has read a prefix of the capitals; nothing is undefined as long as the lines together are shorter than the
  client's buffer. The prefix need not be all: the client reads once per line, so some schedule ends the session with any
  non-empty part of the last answer, the whole of it included. An empty line, when every answer has been read, is the end
  of the session: the only possible step leads to client and server waiting for each other for ever, with what was typed
  after it unsent; and any such lines may come before.
\<close>

theorem tcp_sessions:
  assumes "\<forall>l \<in> set ls. line_ok l" and "run tcp_prog ts (tcp_init False (lines_bytes ls)) = Some s"
  shows "length ts \<le> 6 * length (lines_bytes ls) + 2
    \<and> (\<exists>us s'. run tcp_prog us s = Some s' \<and> stuck tcp_prog s')
    \<and> (stuck tcp_prog s \<longrightarrow> cli_pc s = K_Closed \<and> srv_pc s = T_Closed 0 \<and> wrote s = concat ls
      \<and> prefix (received s) (map toupper (concat ls)))
    \<and> (length (concat ls) < CLI_BUF \<longrightarrow> (\<forall>t. tcp_prog t s \<noteq> Faults))
    \<and> (\<forall>ls' l k. ls = ls' @ [l] \<and> 0 < k \<and> k \<le> length l \<longrightarrow>
      (\<exists>us s'. run tcp_prog us (tcp_init False (lines_bytes ls)) = Some s' \<and> stuck tcp_prog s'
        \<and> received s' = map toupper (concat ls' @ take k l)))
    \<and> (\<forall>s1 rest. tcp_idle s1 \<and> \<not> faulty s1 \<and> stdin_left s1 = 10 # rest \<longrightarrow>
      (\<exists>s'. tcp_prog (Cli 0) s1 = Step s' \<and> (\<forall>t s2. tcp_prog t s1 = Step s2 \<longrightarrow> s2 = s') \<and> stuck tcp_prog s'
        \<and> wrote s' = wrote s1 \<and> stdin_left s' = rest))
    \<and> (\<forall>rest. \<exists>us s'. run tcp_prog us (tcp_init False (lines_bytes ls @ 10 # rest)) = Some s' \<and> stuck tcp_prog s' \<and> stdin_left s' = rest
      \<and> wrote s' = concat ls \<and> received s' = map toupper (concat ls))"
  proof -
  note r = session_run[OF assms]
  have "stuck tcp_prog s \<longrightarrow> cli_pc s = K_Closed \<and> srv_pc s = T_Closed 0 \<and> wrote s = concat ls \<and> prefix (received s) (map toupper (concat ls))"
    using session_stuck[OF r(3) assms(1)] by (auto simp: prefix_def)
  moreover have "length (concat ls) < CLI_BUF \<longrightarrow> (\<forall>t. tcp_prog t s \<noteq> Faults)" using session_no_fault[OF r(3) assms(1)] by blast
  moreover have "\<forall>ls' l k. ls = ls' @ [l] \<and> 0 < k \<and> k \<le> length l \<longrightarrow>
      (\<exists>us s'. run tcp_prog us (tcp_init False (lines_bytes ls)) = Some s' \<and> stuck tcp_prog s'
        \<and> received s' = map toupper (concat ls' @ take k l))" using session_cut assms(1) by blast
  moreover have "\<forall>s1 rest. tcp_idle s1 \<and> \<not> faulty s1 \<and> stdin_left s1 = 10 # rest \<longrightarrow>
      (\<exists>s'. tcp_prog (Cli 0) s1 = Step s' \<and> (\<forall>t s2. tcp_prog t s1 = Step s2 \<longrightarrow> s2 = s') \<and> stuck tcp_prog s'
        \<and> wrote s' = wrote s1 \<and> stdin_left s' = rest)" using tcp_empty_line by blast
  ultimately show ?thesis using r(1,2) session_empty_line[OF assms(1)] by blast
qed

theorem tcp_sessions_witness:
  "(\<exists>us s. run tcp_prog us (tcp_init False (lines_bytes [[97, 98]])) = Some s \<and> stuck tcp_prog s \<and> received s = [65])
    \<and> (\<exists>us s. run tcp_prog us (tcp_init False (lines_bytes [[97, 98]] @ 10 # [99, 10])) = Some s \<and> stuck tcp_prog s \<and> stdin_left s = [99, 10])"
  proof -
  have "\<forall>l \<in> set [[97, 98]]. line_ok l" by (simp add: line_ok_def CLI_BUF_def)
  from tcp_sessions[OF this, of "[]"] have
    c: "\<forall>ls' l k. [[97, 98]] = ls' @ [l] \<and> 0 < k \<and> k \<le> length l \<longrightarrow> (\<exists>us s'. run tcp_prog us (tcp_init False (lines_bytes [[97, 98]])) = Some s'
      \<and> stuck tcp_prog s' \<and> received s' = map toupper (concat ls' @ take k l))"
    and e: "\<forall>rest. \<exists>us s'. run tcp_prog us (tcp_init False (lines_bytes [[97, 98]] @ 10 # rest)) = Some s' \<and> stuck tcp_prog s'
      \<and> stdin_left s' = rest \<and> wrote s' = concat [[97, 98]] \<and> received s' = map toupper (concat [[97, 98]])" by simp_all
  show ?thesis using c[rule_format, of "[]" "[97, 98]" 1] e[rule_format, of "[99, 10]"] by (auto simp: toupper_def)
qed

text \<open>
  C19. Any number of processes that have set up the System V semaphore and then take it: in every reachable state at
  most one holds it, although processes may be killed at any place, the holder too; and as long as a process is not
  at its end one of them can go on.
\<close>

theorem sem_excludes:
  assumes "reach (sm_prog e) (sm_ready n) s"
  shows "(mpc s p = SM_Hold \<and> mpc s q = SM_Hold \<longrightarrow> p = q)
    \<and> (mpc s p \<in> {SM_Take, SM_Hold, SM_Leave 0} \<longrightarrow> (\<exists>q s'. sm_prog e (Proc q) s = Step s'))"
  using sm_excludes[OF sm.reach_inv[OF assms]] sm_goes_on[OF sm.reach_inv[OF assms]] by blast

theorem sem_excludes_witness:
  "\<exists>s. run (sm_prog ipc_fine) [Proc 0, Kill 0, Proc 1] (sm_ready 2) = Some s \<and> mpc s 1 = SM_Hold
    \<and> (\<exists>q s'. sm_prog ipc_fine (Proc q) s = Step s')"
  proof -
  obtain s where s: "run (sm_prog ipc_fine) [Proc 0, Kill 0, Proc 1] (sm_ready 2) = Some s" "mpc s 1 = SM_Hold"
    by (simp add: sm_prog_def sm_main_def sm_ready_def set_val_def new_sem_def sem_take_def sem_undo_def leave_def up_sem_p_def sm_goto_def SEMVMX_def)
  then have "reach (sm_prog ipc_fine) (sm_ready 2) s" unfolding reach_run by blast
  then show ?thesis using sem_excludes[of ipc_fine 2 s 1 1] s by blast
qed

text \<open>
  Parent and child with a semaphore: the child passes only after the parent has posted; no run has more than nine
  steps, and where nobody can go on both have ended without an error and the semaphore is 0 again, as \<open>SEM_UNDO\<close>
  takes back what the parent added.
\<close>

theorem family_outcomes:
  assumes "run (family_prog ipc_fine True) ts (family_init sem) = Some s"
  shows "length ts \<le> 9 \<and> (child_at s \<in> {C_Post, C_Leave, C_Done} \<longrightarrow> parent_at s \<notin> {P_Init, P_Fork, P_Post})
    \<and> (stuck (family_prog ipc_fine True) s \<longrightarrow> parent_at s = P_Done 0 \<and> child_at s = C_Done \<and> (\<exists>x. fsem s = Some x \<and> semval x = 0))"
  proof -
  have r: "reach (family_prog ipc_fine True) (family_init sem) s" unfolding reach_run using assms by blast
  have "length ts \<le> 9" using family.run_bound[OF family_init_inv assms] by (simp add: family_weight_def family_init_def)
  then show ?thesis using family_order[OF r] family_end[OF r] by blast
qed

theorem family_outcomes_witness:
  "\<exists>ts s. run (family_prog ipc_fine True) ts (family_init None) = Some s \<and> length ts \<le> 9 \<and> parent_at s = P_Done 0 \<and> child_at s = C_Done"
  proof -
  obtain ts s where "run (family_prog ipc_fine True) ts (family_init None) = Some s" "stuck (family_prog ipc_fine True) s"
    using family.run_to_end[OF family_init_inv] by blast
  then show ?thesis using family_outcomes[of ts None s] by blast
qed

text \<open>
  C21. Any number of clients and the echo server on one message queue, under every schedule: nothing undefined happens,
  and up to capital letters the texts a client receives under its type are texts that were sent under it, each at most
  as often. From an empty queue client and server in turn give the text back in capital letters, but a client that is
  faster than the server receives its own text unchanged.
\<close>

theorem echo_conserves:
  assumes "reach echo_prog (echo_init inp) s"
  shows "echo_prog t s \<noteq> Faults \<and> image_mset capital (mset (erecv s)) \<subseteq># image_mset capital (mset (esent s))
    \<and> (ecli s p = EC_Gets \<and> etyped s p \<noteq> [] \<and> take 4 (echo_line p s) \<noteq> lit ''exit'' \<and> equeue s = [] \<and> esrv s = E_Recv \<longrightarrow>
      (\<exists>s'. run echo_prog [EClient p, EServer, EServer, EClient p] s = Some s' \<and> erecv s' = erecv s @ [(echo_type p, map toupper (echo_line p s))])
      \<and> (\<exists>s'. run echo_prog [EClient p, EClient p] s = Some s' \<and> erecv s' = erecv s @ [(echo_type p, echo_line p s)]))"
  proof -
  have "length (ebuf s) = ECHO_BUF" using echo.reach_inv[OF assms] unfolding echo_inv_def by blast
  then show ?thesis using echo_received[OF assms] echo_answers[of s p] echo_own_line[of s p] by blast
qed

theorem echo_conserves_witness:
  "\<exists>s'. run echo_prog [EClient 7, EServer, EServer, EClient 7] (echo_init (\<lambda>_. [104, 105, 10])) = Some s'
    \<and> erecv s' = [(27, [72, 73, 10])]"
  proof -
  let ?s = "echo_init (\<lambda>_. [104, 105, 10])"
  have l: "echo_line 7 ?s = [104, 105, 10]"
    using fgets_line_newline[of "[104, 105]" 4094 "[]"] by (simp add: echo_line_def echo_init_def ECHO_BUF_def cstr_def)
  have "\<exists>s'. run echo_prog [EClient 7, EServer, EServer, EClient 7] ?s = Some s'
      \<and> erecv s' = erecv ?s @ [(echo_type 7, map toupper (echo_line 7 ?s))]"
    using echo_conserves[OF reach_start, where inp = "\<lambda>_. [104, 105, 10]" and p = 7 and t = EServer] l
    by (simp add: echo_init_def lit_def)
  then show ?thesis unfolding l by (simp add: echo_init_def echo_type_def toupper_def)
qed

subsection \<open>Threads that keep a mutex\<close>

text \<open>
  C39. Two threads that never give back the mutex they take, which \<open>main\<close> does for them: no run has more than 95
  steps, and there are two ends. When the second thread was the first at the mutex everybody waits for ever; otherwise
  \<open>main\<close> comes to an unlocking that POSIX leaves undefined. If the library grants it (\<open>lenient\<close>), the counter is 30
  at the end instead of 40, as joining the first thread has overwritten the limit of the second. Both happen.
\<close>

theorem leak_outcomes:
  assumes "run (leak_prog lenient (\<lambda>_. True)) ts leak_init = Some s" and "stuck (leak_prog lenient (\<lambda>_. True)) s"
  shows "length ts \<le> 95 \<and> (leak_deadlock s \<or> (if lenient then lmain s = LM_Return \<and> lcount s = 30
      else lmain s = LM_Unlock1 \<and> leak_prog lenient (\<lambda>_. True) LMain s = Faults \<and> lcount s = 20))
    \<and> (\<exists>us s'. run (leak_prog lenient (\<lambda>_. True)) us leak_init = Some s' \<and> stuck (leak_prog lenient (\<lambda>_. True)) s' \<and> \<not> leak_deadlock s')
    \<and> (\<exists>us s'. run (leak_prog lenient (\<lambda>_. True)) us leak_init = Some s' \<and> leak_deadlock s')"
  proof -
  have r: "reach (leak_prog lenient (\<lambda>_. True)) leak_init s" unfolding reach_run using assms(1) by blast
  show ?thesis using leak_stuck[OF r assms(2)] leak_run_length[OF assms(1)] leak_first_first leak_second_first by blast
qed

theorem leak_outcomes_witness:
  "\<exists>us s'. run (leak_prog False (\<lambda>_. True)) us leak_init = Some s' \<and> lmain s' = LM_Unlock1 \<and> lcount s' = 20 \<and> length us \<le> 95"
  proof -
  obtain us s' where s: "run (leak_prog False (\<lambda>_. True)) us leak_init = Some s'" "stuck (leak_prog False (\<lambda>_. True)) s'" "\<not> leak_deadlock s'"
    using leak_first_first by blast
  then show ?thesis using leak_outcomes[OF s(1,2)] by auto
qed

text \<open>
  C20. Any number of processes that run the record-lock programs on one file, in any mix: in every reachable state no two
  of them are in their sections with locks that conflict (so two of the programs that lock bytes 10 to 50 never are), a
  killed process keeps nobody out, as long as a process is not at its end one of them can go on, and no run has more than
  three steps per process.
\<close>

theorem lock_exclusion:
  assumes "run (rl_prog prg opens) ts (rl_init n) = Some s"
  shows "(p \<noteq> q \<and> rl_pc s p = RL_Hold \<and> rl_pc s q = RL_Hold \<longrightarrow> \<not> conflict (wants (prg p)) (wants (prg q))
      \<and> \<not> (prg p \<in> {Wr_lck, Wr_lck2} \<and> prg q \<in> {Wr_lck, Wr_lck2}))
    \<and> (rl_pc s p \<in> {RL_Open, RL_Lock, RL_Hold} \<longrightarrow> (\<exists>r s'. rl_prog prg opens (RL_Proc r) s = Step s'))
    \<and> length ts \<le> 3 * n"
  proof -
  have "reach (rl_prog prg opens) (rl_init n) s" unfolding reach_run using assms by blast
  then have inv: "rl_inv prg s" by (rule rl.reach_inv)
  have "length ts \<le> 3 * n" using rl_end.run_bound[OF rl_init_inv assms] by (simp add: rl_weight_def rl_init_def)
  then show ?thesis using rl_excludes[OF inv, of p q] writers_conflict[of prg p q] rl_goes_on[OF inv, of p opens] by blast
qed

theorem lock_exclusion_witness:
  "\<exists>s. run (rl_prog (\<lambda>_. Wr_lck) (\<lambda>_. True)) [RL_Proc 0, RL_Proc 0, RL_Proc 1] (rl_init 2) = Some s \<and> rl_pc s 0 = RL_Hold
    \<and> (\<exists>r s'. rl_prog (\<lambda>_. Wr_lck) (\<lambda>_. True) (RL_Proc r) s = Step s')"
  proof -
  obtain s where s: "run (rl_prog (\<lambda>_. Wr_lck) (\<lambda>_. True)) [RL_Proc 0, RL_Proc 0, RL_Proc 1] (rl_init 2) = Some s" "rl_pc s 0 = RL_Hold"
    by (simp add: rl_prog_def rl_init_def rl_mains rl_goto_def blocked_def upt_rec)
  then show ?thesis using lock_exclusion[OF s(1), of 0 1] by simp
qed

text \<open>
  C40. The epoll server watches its clients edge-triggered but reads one block of 4095 bytes per event: of a longer
  request the rest stays unread, and whatever other clients do, the server does not look at it again until that
  client sends more or closes.
\<close>

theorem epoll_leaves_data:
  assumes "fd \<in> ep_open s" and "ep_pending s fd = []" and "4096 \<le> length bs" and "\<forall>ev \<in> set evs. stays fd ev"
    and "ep_steps (Arrive fd bs # Report fd False # evs) s = Some s'"
  shows "ep_pending s' fd = drop 4095 bs \<and> drop 4095 bs \<noteq> [] \<and> fd \<notin> ep_edge s'"
  using ep_leaves_data[OF assms(1,2) _ assms(4,5)] assms(3) by (simp add: NET_BUF_def)

theorem epoll_leaves_data_witness:
  "\<exists>s'. ep_steps [Connect (Some 5) True True, Arrive 5 (replicate 5000 65), Report 5 False, Report 5 False] ep_init = Some s'
    \<and> ep_pending s' 5 = drop 4095 (replicate 5000 65)"
  proof -
  let ?s = "ep_init\<lparr>ep_open := {5}\<rparr>"
  have c: "ep_step (Connect (Some 5) True True) ep_init = Some ?s" by (simp add: ep_step_def ep_init_def fun_eq_iff)
  obtain s' where s': "ep_steps [Arrive 5 (replicate 5000 65), Report 5 False, Report 5 False] ?s = Some s'"
    by (auto simp: ep_step_def)
  have "ep_pending s' 5 = drop 4095 (replicate 5000 65)"
    by (rule conjunct1[OF epoll_leaves_data[OF _ _ _ _ s']]) (simp_all add: ep_init_def stays_def)
  then show ?thesis using c s' by simp
qed

subsection \<open>Whole programs\<close>



text \<open>
  C3. The whole run of the tree program on an array of nodes: filling the tree, the four traversals and the depth,
  the deletion of the second node, and the traversals with a stack. What is printed belongs to one tree \<open>t\<close> and,
  after the deletion, to one tree \<open>t'\<close>: in order the numbers come out sorted, without the deleted one afterwards,
  and the traversals with a stack print what the recursive ones do. The differences of the numbers must fit into
  \<open>int\<close>, and each traversal gets memory for its stack or queue.
\<close>

theorem btree_program_prints:
  assumes "distinct xs" and "map (fld h bdata) xs = map Some ds" and "NULL \<notin> set xs" and "2 \<le> length xs" and "length xs < 2 ^ 64"
    and "\<forall>a \<in> set ds. \<forall>b \<in> set ds. - (2 ^ 31) \<le> a - b \<and> a - b < 2 ^ 31"
    and "\<And>i. stack_fresh (q i)" and "\<And>i. length xs < stack_cap (q i)"
  shows "\<exists>d t t'. map d xs = ds \<and> map d (inorder t) = sort ds \<and> map d (inorder t') = sort (remove1 (ds ! 1) ds)
    \<and> btree_main q h xs = Some ([map d (preorder t), sort ds, map d (postorder t), map d (levels t)], of_nat (height t),
        [map d (preorder t'), map d (preorder t'), sort (remove1 (ds ! 1) ds), map d (postorder t')])"
  by (rule btree_main_prints[OF assms])

theorem btree_program_prints_witness:
  "\<exists>pre post level n pre' post'. btree_main (\<lambda>_. stack_ex 9 0) (bmem btree_ex) [3, 1, 2] =
    Some ([pre, [3, 5, 8], post, level], n, [pre', pre', [3, 8], post'])"
  using btree_program_prints[of "[3, 1, 2]" "bmem btree_ex" "[8, 5, 3]" "\<lambda>_. stack_ex 9 0"]
  by (auto simp: btree_ex_def fld_def stack_ex_fresh)

subsection \<open>Pipes, queues and semaphores\<close>

text \<open>
  C22. Parent and child over a pipe of any size: the child gets a prefix of what the parent writes, in pieces that are
  not empty and fit into its buffer, and the parent is never killed; no run has more than twice the length of the
  data and seven steps, every run can be continued to one in which nobody can go on, and then both have ended and the
  child has everything.
\<close>

theorem pipe_carries:
  assumes "run (pipe_prog (Suc cap)) ts (pipe_init wbuf) = Some s"
  shows "prefix (concat (pi_got s)) wbuf \<and> (\<forall>bs \<in> set (pi_got s). bs \<noteq> [] \<and> length bs \<le> PIPE_BUF)
    \<and> par_pc s \<noteq> PP_Killed \<and> length ts \<le> 2 * length wbuf + 7
    \<and> (\<exists>us s'. run (pipe_prog (Suc cap)) us s = Some s' \<and> stuck (pipe_prog (Suc cap)) s')
    \<and> (stuck (pipe_prog (Suc cap)) s \<longrightarrow> par_pc s = PP_Out \<and> chi_pc s = CP_Out \<and> concat (pi_got s) = wbuf)"
  proof -
  have r: "reach (pipe_prog (Suc cap)) (pipe_init wbuf) s" unfolding reach_run using assms by blast
  have "length ts \<le> 2 * length wbuf + 7"
    using pipe.run_bound[OF pipe.reach_inv[OF reach_start] assms] by (simp add: pipe_weight_def pipe_init_def)
  moreover have "\<exists>us s'. run (pipe_prog (Suc cap)) us s = Some s' \<and> stuck (pipe_prog (Suc cap)) s'"
    using pipe.run_to_end[OF pipe.reach_inv[OF r]] by blast
  ultimately show ?thesis using pipe_delivers[OF r] by blast
qed

theorem pipe_carries_witness:
  "\<exists>s. run (pipe_prog 1) [PParent, PChild, PParent, PChild] (pipe_init [1, 2]) = Some s \<and> pi_got s = [[1]]
    \<and> (\<exists>us s'. run (pipe_prog 1) us s = Some s' \<and> stuck (pipe_prog 1) s')"
  proof -
  have "take PIPE_BUF [1] = [1 :: cuchar]" using PIPE_BUF_pos by (cases PIPE_BUF) auto
  then obtain s where s: "run (pipe_prog (Suc 0)) [PParent, PChild, PParent, PChild] (pipe_init [1, 2]) = Some s" "pi_got s = [[1]]"
    by (simp add: pipe_steps pipe_init_def)
  then show ?thesis using pipe_carries[OF s(1)] by auto
qed

text \<open>
  C23. Sender and receiver on a POSIX queue of any size: what the receiver has of each priority are the first messages sent
  with it, in their order; in every state in which nobody can go on all five have arrived; and no run has more than
  fifteen steps. When all are sent first, the last one, of the higher priority, is received first.
\<close>

theorem mq_orders:
  assumes "run (mq_prog (Suc extra)) ts mq_init = Some s"
  shows "prefix (filter (\<lambda>x. fst x = p) (mq_got s)) (filter (\<lambda>x. fst x = p)
        [(4, lit ''1hello''), (4, lit ''2world''), (4, lit ''3linux''), (4, lit ''4test''), (5, lit ''5uplook'')])
    \<and> (stuck (mq_prog (Suc extra)) s \<longrightarrow> length (mq_got s) = 5) \<and> length ts \<le> 15
    \<and> map_option mq_got (run (mq_prog 10) [MSend, MSend, MSend, MSend, MSend, MRecv, MRecv, MRecv, MRecv, MRecv] mq_init) =
       Some [(5, lit ''5uplook''), (4, lit ''1hello''), (4, lit ''2world''), (4, lit ''3linux''), (4, lit ''4test'')]"
  proof -
  have r: "reach (mq_prog (Suc extra)) mq_init s" unfolding reach_run using assms by blast
  have "length ts \<le> 15"
    using mq.run_bound[OF mq.reach_inv[OF reach_start] assms] by (simp add: mq_weight_def mq_init_def)
  then show ?thesis using mq.received_prefix[OF r, of p] mq_delivers(3)[OF r] mq_sent_first unfolding mq_total by blast
qed

theorem mq_orders_witness:
  "\<exists>s. run (mq_prog 1) [MSend, MRecv] mq_init = Some s \<and> length [MSend, MRecv] \<le> 15 \<and> mq_got s = [(4, lit ''1hello'')]"
  proof -
  have "0 \<notin> set (lit ''1hello'')" by (simp add: lit_def)
  then obtain s where s: "run (mq_prog (Suc 0)) [MSend, MRecv] mq_init = Some s" "mq_got s = [(4, lit ''1hello'')]"
    by (simp add: mq_prog_def mq_sender_def mq_receiver_def mq_init_def mq_insert_def mq_s_nth mq_text_fmt Let_def)
  then show ?thesis using mq_orders[OF s(1)] by auto
qed

text \<open>
  C24. The named semaphore: in every reachable state, on each semaphore that the name ever had, the waiters that passed and
  the value left make up the posts; but a waiter can be lost: when two wait, the first that passes takes the name
  away, and whatever processes start after that, posters included, the second one waits for ever.
\<close>

theorem sem_waiter_lost:
  assumes "reach ns_prog ns_init s" and "i < length (ns_val s)"
  shows "ns_passed s ! i + ns_val s ! i = ns_posted s ! i
    \<and> (\<exists>s1. run ns_prog [Waiter 0, Waiter 1, Poster 0, Poster 0, Waiter 0, Waiter 0, Waiter 0] ns_init = Some s1
      \<and> ns_waiter s1 0 = SW_Out \<and> (\<forall>s2. reach ns_prog s1 s2 \<longrightarrow> ns_prog (Waiter 1) s2 = Waits))"
  using ns_passed_posted[OF assms] second_waiter_lost by blast

theorem sem_waiter_lost_witness:
  "\<exists>s. run ns_prog [Poster 7, Poster 7] ns_init = Some s \<and> ns_posted s = [1] \<and> ns_passed s ! 0 + ns_val s ! 0 = 1"
  proof -
  obtain s where s: "run ns_prog [Poster 7, Poster 7] ns_init = Some s" "ns_posted s = [1]" "length (ns_val s) = 1"
    by (simp add: ns_prog_def sem_poster_def ns_open_def ns_init_def)
  moreover have "reach ns_prog ns_init s" unfolding reach_run using s(1) by blast
  ultimately show ?thesis using sem_waiter_lost[of s 0] by simp
qed

text \<open>
  The functions of the chat room's own list.h are those of the kernel list, on every memory, faults included; its
  loop from the front visits the same nodes.
\<close>

theorem chat_list_same:
  "init_list_head h p = list_head_init h p \<and> chat_list_add h hp p = list_add h hp p \<and> chat_list_add_tail h hp p = list_add_tail h hp p
    \<and> chat_list_del h p = list_del h p \<and> chat_list_del_init h p = list_del_init h p
    \<and> chat_list_is_empty h hp = list_is_empty h hp \<and> chat_each h hp = list_for_each h hp"
  by (simp add: init_list_head_eq chat_list_add_eq chat_list_add_tail_eq chat_list_del_eq chat_list_del_init_eq chat_list_is_empty_eq chat_each_eq)

text \<open>The persons "a", "b", "a", "a", "c" at 1 to 5, and room for the heads of two buckets at 10.\<close>

definition hash_people :: "person heap" where
  "hash_people = \<lparr>mem = [1 \<mapsto> \<lparr>prev = 0, nxt = 0, name = ''a'', age = 18\<rparr>, 2 \<mapsto> \<lparr>prev = 0, nxt = 0, name = ''b'', age = 19\<rparr>,
     3 \<mapsto> \<lparr>prev = 0, nxt = 0, name = ''a'', age = 20\<rparr>, 4 \<mapsto> \<lparr>prev = 0, nxt = 0, name = ''a'', age = 22\<rparr>,
     5 \<mapsto> \<lparr>prev = 0, nxt = 0, name = ''c'', age = 24\<rparr>], avail = [10], junk = \<lparr>prev = 0, nxt = 0, name = [], age = 0\<rparr>\<rparr>"

text \<open>
  C13. The whole run of the hash table program on an array of at least five persons, for any contents of the memory: the
  table is filled, printed bucket by bucket, and searched three times for the name of the first person, which at least
  three have, and then for the different name of the fifth. What is printed are the persons of even and then those of odd
  hash value, each in the order of the array, and the person found is the first in the array with the fifth one's name:
  the cursor kept from the earlier searches does not get in the way.
\<close>

theorem hash_program_finds:
  fixes nm :: "ptr \<Rightarrow> string" and ag :: "ptr \<Rightarrow> int"
  assumes "malloc_array h 2 = (p, h1)" and "p \<noteq> NULL" and "persons h (set s) nm ag" and "distinct s" and "4 < length s"
    and "filter (\<lambda>q. nm q = nm (s ! 0)) s = q1 # q2 # q3 # qs" and "nm (s ! 0) \<noteq> nm (s ! 4)"
  shows "hash_program h s = Some (map (\<lambda>q. (nm q, ag q))
      (filter (\<lambda>q. unat (sum_chars 0 (nm q) mod 2) = 0) s @ filter (\<lambda>q. unat (sum_chars 0 (nm q) mod 2) = 1) s),
    nm (s ! 4), ag (hd (filter (\<lambda>q. nm q = nm (s ! 4)) s)))"
  by (rule hash_program_run[OF assms])

theorem hash_program_finds_witness:
  "hash_program hash_people [1, 2, 3, 4, 5] =
    Some ([(''b'', 19), (''a'', 18), (''a'', 20), (''a'', 22), (''c'', 24)], ''c'', 24)"
  using hash_program_finds[of hash_people 10 "snd (malloc_array hash_people 2)" "[1, 2, 3, 4, 5]"
      "\<lambda>q. if q = 2 then ''b'' else if q = 5 then ''c'' else ''a''" "\<lambda>q. if q = 1 then 18 else if q = 2 then 19 else if q = 3 then 20 else if q = 4 then 22 else 24"
      1 3 4 "[]"]
  by (auto simp: hash_people_def malloc_array_def persons_def live_def fld_def less_2_cases_iff)

end
